(* ===== verification/Prelude.thy ===== *)
theory Prelude
  imports Main "HOL-Library.Word" "HOL-Library.Multiset"
begin

unbundle bit_operations_syntax

section \<open>Shared vocabulary of the development\<close>

text \<open>
  Names for the machine types, the result type in which every abort, exception and undefined
  behaviour of the C++ code is a value, the C++ standard containers the code indexes
  (\<open>std::vector\<close> and \<open>std::unordered_map\<close>), and the generic lemmas the components share.
\<close>

type_synonym u8 = "8 word"
type_synonym u16 = "16 word"
type_synonym u32 = "32 word"
type_synonym u64 = "64 word"

subsection \<open>Results\<close>

text \<open>
  A failing \<open>BPS_CHECK\<close> or \<open>CHECK\<close> aborts the process (\<open>CheckFailed\<close>, with the place of the
  check), a read outside a vector, a null dereference or an arithmetic operation the language
  leaves undefined is \<open>Undefined\<close>, and \<open>Thrown\<close> is a C++ exception that leaves the function.
\<close>

datatype error = CheckFailed string | Undefined string | Thrown string

type_synonym 'a res = "error + 'a"

fun rbind :: "'a res \<Rightarrow> ('a \<Rightarrow> 'b res) \<Rightarrow> 'b res" where
  "rbind (Inl e) f = Inl e"
| "rbind (Inr x) f = f x"

definition check :: "bool \<Rightarrow> error \<Rightarrow> 'a res \<Rightarrow> 'a res" where
  "check b e r = (if b then r else Inl e)"

named_theorems res_simps \<open>inversion of results: when a checked computation returned a value\<close>

lemma rbind_eq_Inr [res_simps]: "rbind r f = Inr y \<longleftrightarrow> (\<exists>x. r = Inr x \<and> f x = Inr y)"
  by (cases r) auto

lemma rbind_eq_Inl: "rbind r f = Inl e \<longleftrightarrow> r = Inl e \<or> (\<exists>x. r = Inr x \<and> f x = Inl e)"
  by (cases r) auto

lemma check_eq_Inr [res_simps]: "check b e r = Inr y \<longleftrightarrow> b \<and> r = Inr y"
  by (simp add: check_def)

lemma check_True [simp]: "check True e r = r"
  by (simp add: check_def)

lemma check_False [simp]: "check False e r = Inl e"
  by (simp add: check_def)

lemma check_holds: "b \<Longrightarrow> check b e r = r"
  by (simp add: check_def)

lemma rbind_assoc: "rbind (rbind r f) g = rbind r (\<lambda>x. rbind (f x) g)"
  by (cases r) auto

subsection \<open>Vectors and hash maps of the standard library\<close>

text \<open>
  \<open>v[i]\<close> on a \<open>std::vector\<close> checks nothing: outside the vector it is undefined behaviour.
  \<open>m[k]\<close> on a \<open>std::unordered_map\<close> inserts the value-initialised element when the key is new:
  \<open>touch\<close> is that insertion and \<open>map_at\<close> the value then read.
\<close>

definition vec_get :: "'a list \<Rightarrow> nat \<Rightarrow> 'a res" where
  "vec_get xs i = (if i < length xs then Inr (xs ! i) else Inl (Undefined ''vector index''))"

definition map_at :: "'v \<Rightarrow> ('k \<rightharpoonup> 'v) \<Rightarrow> 'k \<Rightarrow> 'v" where
  "map_at d m k = (case m k of None \<Rightarrow> d | Some v \<Rightarrow> v)"

definition touch :: "'v \<Rightarrow> ('k \<rightharpoonup> 'v) \<Rightarrow> 'k \<Rightarrow> ('k \<rightharpoonup> 'v)" where
  "touch d m k = (case m k of None \<Rightarrow> m(k \<mapsto> d) | Some v \<Rightarrow> m)"

lemma vec_get_eq_Inr [res_simps]: "vec_get xs i = Inr x \<longleftrightarrow> i < length xs \<and> x = xs ! i"
  by (auto simp: vec_get_def)

lemma vec_get_in [simp]: "i < length xs \<Longrightarrow> vec_get xs i = Inr (xs ! i)"
  by (simp add: vec_get_def)

lemma map_at_upd [simp]: "map_at d (m(k \<mapsto> v)) k' = (if k' = k then v else map_at d m k')"
  by (simp add: map_at_def)

lemma map_at_empty [simp]: "map_at d Map.empty k = d"
  by (simp add: map_at_def)

lemma map_at_touch [simp]: "map_at d (touch d m k) k' = map_at d m k'"
  by (simp add: map_at_def touch_def split: option.splits)

lemma touch_dom [simp]: "dom (touch d m k) = insert k (dom m)"
  by (auto simp: touch_def split: option.splits)

lemma touch_idem [simp]: "touch d (touch d m k) k = touch d m k"
  by (auto simp: touch_def split: option.splits)

lemma touch_hit: "k \<in> dom m \<Longrightarrow> touch d m k = m"
  by (auto simp: touch_def)

subsection \<open>Lists\<close>

lemma count_list_snoc [simp]: "count_list (xs @ [x]) y = count_list xs y + (if x = y then 1 else 0)"
  by simp

subsection \<open>Words\<close>

lemma int_unat_eq: "int (unat w) = uint (w :: 'a::len word)"
  by simp

lemma unat_u64_less: "unat (w :: u64) < 2 ^ 64"
  by (rule order.strict_trans2 [OF unsigned_less]) simp

lemma unat_u32_less: "unat (w :: u32) < 2 ^ 32"
  by (rule order.strict_trans2 [OF unsigned_less]) simp

text \<open>Widening keeps the value; a 32-bit value below \<open>2 ^ 31\<close> reads the same as signed.\<close>

lemma unat_ucast_up:
  assumes "LENGTH('a::len) \<le> LENGTH('b::len)"
  shows "unat (ucast (w :: 'a word) :: 'b word) = unat w"
proof -
  have "unat w < 2 ^ LENGTH('a)" by (rule unsigned_less)
  also have "\<dots> \<le> 2 ^ LENGTH('b)" using assms by simp
  finally show ?thesis by (simp add: unsigned_ucast_eq take_bit_nat_eq_self)
qed

lemma unat_u32_u64 [simp]: "unat (ucast (w :: u32) :: u64) = unat w"
  by (rule unat_ucast_up) simp

lemma unat_u64_plus: "unat (a :: u64) + unat b < 2 ^ 64 \<Longrightarrow> unat (a + b) = unat a + unat b"
  by (subst unat_add_lem [THEN iffD1]) simp_all

lemma unat_u32_plus: "unat (a :: u32) + unat b < 2 ^ 32 \<Longrightarrow> unat (a + b) = unat a + unat b"
  by (subst unat_add_lem [THEN iffD1]) simp_all

lemma sint_u32_small:
  assumes "unat (l :: u32) < 2 ^ 31"
  shows "sint l = int (unat l)"
proof -
  have "int (unat l) < int (2 ^ 31)" using assms by (simp only: of_nat_less_iff)
  then have "uint l < 2 ^ 31" unfolding int_unat_eq by simp
  moreover have "- (2 ^ 31) \<le> uint l" by (rule order.trans [OF _ uint_nonnegative]) simp
  ultimately have "signed_take_bit 31 (uint l) = uint l" by (intro signed_take_bit_int_eq_self)
  then show ?thesis by (simp add: sint_uint)
qed

subsection \<open>Numbers as text\<close>

text \<open>
  \<open>std::to_string\<close> in decimal, and \<open>atoi\<close>: white space, an optional sign, then the digits up to
  the first other character. A value outside \<open>int\<close> is undefined behaviour, which \<open>i32\<close> makes
  explicit where the code computes with \<open>int\<close>.
\<close>

definition i32 :: "int \<Rightarrow> int res" where
  "i32 x = (if - (2 ^ 31) \<le> x \<and> x < 2 ^ 31 then Inr x else Inl (Undefined ''int overflow''))"

lemma i32_eq_Inr [res_simps]: "i32 x = Inr y \<longleftrightarrow> y = x \<and> - (2 ^ 31) \<le> x \<and> x < 2 ^ 31"
  by (auto simp: i32_def)

lemma i32_in: "- (2 ^ 31) \<le> x \<Longrightarrow> x < 2 ^ 31 \<Longrightarrow> i32 x = Inr x"
  by (simp add: i32_def)

fun nat_to_string :: "nat \<Rightarrow> string" where
  "nat_to_string n =
     (if n < 10 then [char_of (48 + n)] else nat_to_string (n div 10) @ [char_of (48 + n mod 10)])"

declare nat_to_string.simps [simp del]

lemma nat_to_string_digit: "n < 10 \<Longrightarrow> nat_to_string n = [char_of (48 + n)]"
  by (simp add: nat_to_string.simps)

definition int_to_string :: "int \<Rightarrow> string" where
  "int_to_string i =
     (if i < 0 then CHR ''-'' # nat_to_string (nat (- i)) else nat_to_string (nat i))"

definition is_digit :: "char \<Rightarrow> bool" where
  "is_digit c \<longleftrightarrow> 48 \<le> (of_char c :: nat) \<and> (of_char c :: nat) \<le> 57"

definition is_space :: "char \<Rightarrow> bool" where
  "is_space c \<longleftrightarrow> (of_char c :: nat) = 32 \<or> 9 \<le> (of_char c :: nat) \<and> (of_char c :: nat) \<le> 13"

definition digits_value :: "string \<Rightarrow> int" where
  "digits_value s = foldl (\<lambda>n c. 10 * n + (int (of_char c) - 48)) 0 s"

definition atoi :: "string \<Rightarrow> int res" where
  "atoi s =
     (case dropWhile is_space s of
        [] \<Rightarrow> Inr 0
      | c # cs \<Rightarrow>
          i32 (if c = CHR ''-'' then - digits_value (takeWhile is_digit cs)
               else if c = CHR ''+'' then digits_value (takeWhile is_digit cs)
               else digits_value (takeWhile is_digit (c # cs))))"

type_synonym environ = "string \<Rightarrow> string option"

text \<open>\<open>getenv(name) ? atoi(getenv(name)) : dflt\<close>\<close>

definition env_int :: "environ \<Rightarrow> string \<Rightarrow> int \<Rightarrow> int res" where
  "env_int env name dflt = (case env name of None \<Rightarrow> Inr dflt | Some v \<Rightarrow> atoi v)"

lemma of_char_digit: "d < 10 \<Longrightarrow> (of_char (char_of (48 + d) :: char) :: nat) = 48 + d"
  by simp

lemma nat_to_string_nonempty [simp]: "nat_to_string n \<noteq> []"
  by (subst nat_to_string.simps) simp

lemma digits_value_snoc: "digits_value (s @ [c]) = 10 * digits_value s + (int (of_char c) - 48)"
  by (simp add: digits_value_def)

lemma digits_nat_to_string: "digits_value (nat_to_string n) = int n"
proof (induction n rule: nat_to_string.induct)
  case (1 n)
  show ?case
  proof (cases "n < 10")
    case True
    then show ?thesis by (subst nat_to_string.simps) (simp add: digits_value_def)
  next
    case False
    then have "digits_value (nat_to_string n) =
        10 * int (n div 10) + (int (of_char (char_of (48 + n mod 10) :: char)) - 48)"
      using 1 by (subst nat_to_string.simps) (simp add: digits_value_snoc)
    also have "\<dots> = 10 * int (n div 10) + int (n mod 10)" by simp
    also have "\<dots> = int (10 * (n div 10) + n mod 10)" by (simp only: of_nat_add of_nat_mult of_nat_numeral)
    also have "\<dots> = int n" by simp
    finally show ?thesis .
  qed
qed

lemma nat_to_string_digits: "\<forall>c \<in> set (nat_to_string n). is_digit c"
proof (induction n rule: nat_to_string.induct)
  case (1 n)
  then show ?case by (subst nat_to_string.simps) (auto simp: is_digit_def)
qed

lemma nat_to_string_inj: "nat_to_string m = nat_to_string n \<longleftrightarrow> m = n"
  by (metis digits_nat_to_string of_nat_eq_iff)

lemma int_to_string_inj: "int_to_string i = int_to_string j \<longleftrightarrow> i = j"
proof -
  have nd: "nat_to_string n \<noteq> CHR ''-'' # xs" for n xs
    using nat_to_string_digits [of n] by (auto simp: is_digit_def)
  show ?thesis
    using nd nd [symmetric] by (auto simp: int_to_string_def nat_to_string_inj)
qed

text \<open>Text written by \<open>to_string\<close> reads back as the same number.\<close>

lemma atoi_nat_to_string: "int n < 2 ^ 31 \<Longrightarrow> atoi (nat_to_string n) = Inr (int n)"
proof -
  assume n: "int n < 2 ^ 31"
  obtain c cs where s: "nat_to_string n = c # cs" by (cases "nat_to_string n") auto
  then have d: "is_digit c" "takeWhile is_digit cs = cs"
    using nat_to_string_digits [of n] by (auto simp: takeWhile_eq_all_conv)
  then have "\<not> is_space c" "c \<noteq> CHR ''-''" "c \<noteq> CHR ''+''" by (auto simp: is_digit_def is_space_def)
  then show ?thesis using d s n digits_nat_to_string [of n]
    by (simp add: atoi_def i32_def takeWhile_eq_all_conv [THEN iffD2])
qed

end
