(* ===== verification/Common_Types.thy ===== *)
theory Common_Types
  imports Prelude
begin

section \<open>Common data types\<close>

text \<open>
  Models \<open>deep_inc/common/common.h\<close> and \<open>common.cc\<close>: the data types of tensors, the pipeline's
  queue types, \<open>Status\<close>, \<open>TensorShape\<close>, the tensor descriptors, the per-tensor context
  \<open>BPSContext\<close>, the task record \<open>TensorTableEntry\<close>, the command numbers sent to the server and
  the size and alignment functions. Pointers to shared objects (contexts, counters, events,
  compressors) are identifiers; the objects live in the worker's state.
\<close>

subsection \<open>Enumerations\<close>

datatype data_type = BYTEPS_FLOAT32 | BYTEPS_FLOAT64 | BYTEPS_FLOAT16 | BYTEPS_UINT8
  | BYTEPS_INT32 | BYTEPS_INT8 | BYTEPS_INT64

text \<open>The enumerator's value; the inverse is the \<open>static_cast\<close> the code applies to an \<open>int\<close>.\<close>

fun data_type_value :: "data_type \<Rightarrow> int" where
  "data_type_value BYTEPS_FLOAT32 = 0"
| "data_type_value BYTEPS_FLOAT64 = 1"
| "data_type_value BYTEPS_FLOAT16 = 2"
| "data_type_value BYTEPS_UINT8 = 3"
| "data_type_value BYTEPS_INT32 = 4"
| "data_type_value BYTEPS_INT8 = 5"
| "data_type_value BYTEPS_INT64 = 6"

definition data_type_of :: "int \<Rightarrow> data_type option" where
  "data_type_of d =
     (if d = 0 then Some BYTEPS_FLOAT32 else if d = 1 then Some BYTEPS_FLOAT64
      else if d = 2 then Some BYTEPS_FLOAT16 else if d = 3 then Some BYTEPS_UINT8
      else if d = 4 then Some BYTEPS_INT32 else if d = 5 then Some BYTEPS_INT8
      else if d = 6 then Some BYTEPS_INT64 else None)"

datatype status_type = OK | UNKNOWN_ERROR | PRECONDITION_ERROR | ABORTED | INVALID_ARGUMENT
  | IN_PROGRESS

datatype queue_type = COORDINATE_REDUCE | REDUCE | COPYD2H | PCIE_REDUCE | COORDINATE_PUSH
  | COMPRESS | PUSH | PULL | DECOMPRESS | COPYH2D | COORDINATE_BROADCAST | BROADCAST

text \<open>\<open>QueueNum\<close> queues in the order of the enumeration, and their log names.\<close>

definition all_queue_types :: "queue_type list" where
  "all_queue_types = [COORDINATE_REDUCE, REDUCE, COPYD2H, PCIE_REDUCE, COORDINATE_PUSH, COMPRESS,
     PUSH, PULL, DECOMPRESS, COPYH2D, COORDINATE_BROADCAST, BROADCAST]"

fun LogStrings :: "queue_type \<Rightarrow> string" where
  "LogStrings COORDINATE_REDUCE = ''COORDINATE_REDUCE''"
| "LogStrings REDUCE = ''REDUCE''"
| "LogStrings COPYD2H = ''COPYD2H''"
| "LogStrings PCIE_REDUCE = ''PCIE_REDUCE''"
| "LogStrings COORDINATE_PUSH = ''COORDINATE_PUSH''"
| "LogStrings COMPRESS = ''COMPRESS''"
| "LogStrings PUSH = ''PUSH''"
| "LogStrings PULL = ''PULL''"
| "LogStrings DECOMPRESS = ''DECOMPRESS''"
| "LogStrings COPYH2D = ''COPYH2D''"
| "LogStrings COORDINATE_BROADCAST = ''COORDINATE_BROADCAST''"
| "LogStrings BROADCAST = ''BROADCAST''"

fun queue_type_value :: "queue_type \<Rightarrow> int" where
  "queue_type_value COORDINATE_REDUCE = 0"
| "queue_type_value REDUCE = 1"
| "queue_type_value COPYD2H = 2"
| "queue_type_value PCIE_REDUCE = 3"
| "queue_type_value COORDINATE_PUSH = 4"
| "queue_type_value COMPRESS = 5"
| "queue_type_value PUSH = 6"
| "queue_type_value PULL = 7"
| "queue_type_value DECOMPRESS = 8"
| "queue_type_value COPYH2D = 9"
| "queue_type_value COORDINATE_BROADCAST = 10"
| "queue_type_value BROADCAST = 11"

datatype request_type = kDefaultPushPull | kRowSparsePushPull | kCompressedPushPull

fun request_type_value :: "request_type \<Rightarrow> int" where
  "request_type_value kDefaultPushPull = 0"
| "request_type_value kRowSparsePushPull = 1"
| "request_type_value kCompressedPushPull = 2"

subsection \<open>Status\<close>

record status =
  status_kind :: status_type
  status_reason :: string

definition Status_OK :: status where
  "Status_OK = \<lparr>status_kind = OK, status_reason = []\<rparr>"

definition Status_UnknownError :: "string \<Rightarrow> status" where
  "Status_UnknownError m = \<lparr>status_kind = UNKNOWN_ERROR, status_reason = m\<rparr>"

definition Status_PreconditionError :: "string \<Rightarrow> status" where
  "Status_PreconditionError m = \<lparr>status_kind = PRECONDITION_ERROR, status_reason = m\<rparr>"

definition Status_Aborted :: "string \<Rightarrow> status" where
  "Status_Aborted m = \<lparr>status_kind = ABORTED, status_reason = m\<rparr>"

definition Status_InvalidArgument :: "string \<Rightarrow> status" where
  "Status_InvalidArgument m = \<lparr>status_kind = INVALID_ARGUMENT, status_reason = m\<rparr>"

definition Status_InProgress :: status where
  "Status_InProgress = \<lparr>status_kind = IN_PROGRESS, status_reason = []\<rparr>"

definition status_ok :: "status \<Rightarrow> bool" where
  "status_ok s \<longleftrightarrow> status_kind s = OK"

definition status_in_progress :: "status \<Rightarrow> bool" where
  "status_in_progress s \<longleftrightarrow> status_kind s = IN_PROGRESS"

subsection \<open>Tensor shapes\<close>

type_synonym tensor_shape = "int list"

definition AddDim :: "tensor_shape \<Rightarrow> int \<Rightarrow> tensor_shape" where
  "AddDim sh d = sh @ [d]"

fun AppendShape :: "tensor_shape \<Rightarrow> tensor_shape \<Rightarrow> tensor_shape" where
  "AppendShape sh [] = sh"
| "AppendShape sh (d # ds) = AppendShape (AddDim sh d) ds"

text \<open>The dimensions as a list in brackets, for messages.\<close>

fun debug_dims :: "tensor_shape \<Rightarrow> string" where
  "debug_dims [] = []"
| "debug_dims [d] = int_to_string d"
| "debug_dims (d # ds) = int_to_string d @ '', '' @ debug_dims ds"

definition DebugString :: "tensor_shape \<Rightarrow> string" where
  "DebugString sh = ''['' @ debug_dims sh @ '']''"

definition dims :: "tensor_shape \<Rightarrow> int" where
  "dims sh = int (length sh)"

definition dim_size :: "tensor_shape \<Rightarrow> int \<Rightarrow> int res" where
  "dim_size sh i =
     check (0 \<le> i) (CheckFailed ''dim_size: idx >= 0'')
       (check (i < int (length sh)) (CheckFailed ''dim_size: idx < size'') (Inr (sh ! nat i)))"

text \<open>The product of the dimensions in \<open>int64_t\<close>; a product outside its range is undefined.\<close>

fun num_elements_loop :: "int \<Rightarrow> int list \<Rightarrow> int res" where
  "num_elements_loop r [] = Inr r"
| "num_elements_loop r (d # ds) =
     check (- (2 ^ 63) \<le> r * d \<and> r * d < 2 ^ 63) (Undefined ''int64 overflow'')
       (num_elements_loop (r * d) ds)"

definition num_elements :: "tensor_shape \<Rightarrow> int res" where
  "num_elements sh = num_elements_loop 1 sh"

subsection \<open>Tensors, contexts and tasks\<close>

text \<open>
  What the abstract class \<open>Tensor\<close> exposes; \<open>data()\<close> is an address. \<open>tensor_id\<close> is the object's
  own address, which a comparison of two tensor pointers compares.
\<close>

record tensor =
  tensor_id :: nat
  tensor_dtype :: data_type
  tensor_shp :: tensor_shape
  tensor_data :: nat
  tensor_size :: nat

text \<open>A profiling record of one operation (\<open>BPSCommTime\<close>).\<close>

record comm_time_rec =
  start_t :: int
  dur :: int
  ct_end :: bool
  ct_key :: int
  ct_type :: int

definition BPSCommTime :: comm_time_rec where
  "BPSCommTime = \<lparr>start_t = 0, dur = 0, ct_end = False, ct_key = -1, ct_type = -1\<rparr>"

type_synonym kwargs = "(string \<times> string) list"

record bps_context =
  initialized :: bool
  ctx_name :: string
  declared_key :: u64
  key_list :: "u64 list"
  ctx_cpubuff :: "nat option"
  ctx_gpu_ptr :: "nat option"
  ctx_pcie_cpubuff :: "nat list"
  buff_len :: nat
  comm_time :: "comm_time_rec list"
  profile_flag :: bool
  step_cnt :: int
  ctx_local_rank :: int
  part_comm_time :: "u64 \<rightharpoonup> (queue_type \<rightharpoonup> comm_time_rec list)"
  compressor_list :: "nat option list"
  ctx_kwargs :: kwargs

text \<open>A compressed tensor as the compressor returns it: its buffer and the compressed size.\<close>

record compressed_tensor =
  ct_data :: nat
  ct_size :: nat

record tte =
  te_name :: string
  te_key :: u64
  te_context :: string
  te_tensor :: "tensor option"
  te_output :: "tensor option"
  te_priority :: int
  te_version :: int
  te_root_rank :: int
  te_ready_event :: "nat option"
  te_device :: int
  te_callback :: nat
  te_cpubuff :: "nat option"
  te_gpu_ptr :: "nat option"
  te_pcie_cpubuff :: "nat list"
  te_queue_list :: "queue_type list"
  te_offset :: u32
  te_len :: u32
  te_counter :: "nat option"
  te_total_partnum :: u32
  te_compressor :: "nat option"
  te_compressed :: "compressed_tensor option"

definition CPU_DEVICE_ID :: int where
  "CPU_DEVICE_ID = -1"

subsection \<open>Command numbers, type lengths, alignment\<close>

text \<open>
  \<open>GetCommandType\<close> packs the request type and the data type into one number (Cantor's
  pairing); all operands the code passes are small, so no \<open>int\<close> overflows. The C++ division
  of non-negative numbers is \<open>div\<close>.
\<close>

definition GetCommandType :: "request_type \<Rightarrow> int \<Rightarrow> int" where
  "GetCommandType rt d = (let m = request_type_value rt in ((m + d) * (m + d + 1)) div 2 + d)"

datatype nccl_data_type = ncclFloat32 | ncclFloat64 | ncclFloat16 | ncclUint8 | ncclInt32
  | ncclInt8 | ncclUint64

fun getNcclDataType :: "data_type \<Rightarrow> nccl_data_type" where
  "getNcclDataType BYTEPS_FLOAT32 = ncclFloat32"
| "getNcclDataType BYTEPS_FLOAT64 = ncclFloat64"
| "getNcclDataType BYTEPS_FLOAT16 = ncclFloat16"
| "getNcclDataType BYTEPS_UINT8 = ncclUint8"
| "getNcclDataType BYTEPS_INT32 = ncclInt32"
| "getNcclDataType BYTEPS_INT8 = ncclInt8"
| "getNcclDataType BYTEPS_INT64 = ncclUint64"

definition getDataTypeLength :: "int \<Rightarrow> nat res" where
  "getDataTypeLength dtype =
     (case data_type_of dtype of
        Some BYTEPS_INT8 \<Rightarrow> Inr 1
      | Some BYTEPS_UINT8 \<Rightarrow> Inr 1
      | Some BYTEPS_FLOAT16 \<Rightarrow> Inr 2
      | Some BYTEPS_INT32 \<Rightarrow> Inr 4
      | Some BYTEPS_FLOAT32 \<Rightarrow> Inr 4
      | Some BYTEPS_INT64 \<Rightarrow> Inr 8
      | Some BYTEPS_FLOAT64 \<Rightarrow> Inr 8
      | None \<Rightarrow> Inl (CheckFailed ''Unsupported data type''))"

text \<open>\<open>Align\<close> on \<open>size_t\<close>: all arithmetic wraps modulo \<open>2 ^ 64\<close>.\<close>

definition Align :: "u64 \<Rightarrow> int \<Rightarrow> u64 res" where
  "Align sz dtype =
     rbind (getDataTypeLength dtype) (\<lambda>l.
       let min_size = of_nat (l * l * 8) :: u64
       in Inr (sz + (min_size - sz mod min_size) mod min_size))"

subsection \<open>Lemmas\<close>

lemma data_type_of_value [simp]: "data_type_of (data_type_value d) = Some d"
  by (cases d) (simp_all add: data_type_of_def)

lemma data_type_value_of: "data_type_of i = Some d \<Longrightarrow> data_type_value d = i"
  by (auto simp: data_type_of_def split: if_splits)

lemma data_type_value_range: "0 \<le> data_type_value d" "data_type_value d \<le> 6"
  by (cases d; simp)+

lemma request_type_value_range: "0 \<le> request_type_value r" "request_type_value r \<le> 2"
  by (cases r; simp)+

lemma request_type_value_inj: "request_type_value a = request_type_value b \<Longrightarrow> a = b"
  by (cases a; cases b) simp_all

lemma all_queue_types_set [simp]: "set all_queue_types = UNIV"
  by (auto simp: all_queue_types_def intro: queue_type.exhaust)

lemma AppendShape_eq: "AppendShape sh ds = sh @ ds"
  by (induction ds arbitrary: sh) (simp_all add: AddDim_def)

lemma num_elements_loop_Inr: "num_elements_loop r ds = Inr n \<Longrightarrow> n = r * prod_list ds"
proof (induction ds arbitrary: r)
  case (Cons d ds)
  then have "num_elements_loop (r * d) ds = Inr n" by (simp add: res_simps)
  then have "n = r * d * prod_list ds" by (rule Cons.IH)
  then show ?case by simp
qed simp

lemma num_elements_Inr: "num_elements sh = Inr n \<Longrightarrow> n = prod_list sh"
  using num_elements_loop_Inr [of 1 sh n] by (simp add: num_elements_def)

lemma getDataTypeLength_cases:
  "getDataTypeLength dtype = Inr l \<Longrightarrow> l \<in> {1, 2, 4, 8}"
  by (auto simp: getDataTypeLength_def split: option.splits data_type.splits)

text \<open>Rounding up to a multiple on the naturals, and \<open>Align\<close> as that rounding.\<close>

lemma round_up_nat:
  fixes s m :: nat
  assumes "0 < m"
  shows "m dvd s + (m - s mod m) mod m" "(m - s mod m) mod m < m"
proof -
  have "(s + (m - s mod m) mod m) mod m = (s mod m + (m - s mod m)) mod m"
    by (metis mod_add_left_eq mod_add_right_eq)
  also have "\<dots> = 0"
    using assms mod_less_divisor [of m s] by simp
  finally show "m dvd s + (m - s mod m) mod m" by auto
  show "(m - s mod m) mod m < m" using assms by simp
qed

lemma Align_unat:
  assumes "Align sz dtype = Inr a" and "getDataTypeLength dtype = Inr l"
    and "unat sz + 512 < 2 ^ 64"
  shows "unat a = unat sz + (8 * l * l - unat sz mod (8 * l * l)) mod (8 * l * l)"
proof -
  define m where "m = l * l * 8"
  have l: "l \<in> {1, 2, 4, 8}" using assms(2) by (rule getDataTypeLength_cases)
  then have m: "0 < m" "m \<le> 512" by (auto simp: m_def)
  define mw where "mw = (of_nat m :: u64)"
  have mw: "unat mw = m" using m by (simp add: mw_def unat_of_nat)
  have a: "a = sz + (mw - sz mod mw) mod mw"
    using assms(1,2) by (simp add: Align_def Let_def mw_def m_def)
  have r: "unat (sz mod mw) = unat sz mod m" by (simp add: unat_mod mw)
  have "unat (mw - sz mod mw) = m - unat sz mod m"
    using m mw r mod_less_divisor [of m "unat sz"] by (subst unat_sub) (auto simp: word_le_nat_alt)
  then have d: "unat ((mw - sz mod mw) mod mw) = (m - unat sz mod m) mod m"
    by (simp add: unat_mod mw)
  have "(m - unat sz mod m) mod m < 512"
    using m mod_less_divisor [of m "m - unat sz mod m"] by linarith
  then have "unat (sz + (mw - sz mod mw) mod mw) = unat sz + unat ((mw - sz mod mw) mod mw)"
    using assms(3) d by (subst unat_add_lem [THEN iffD1]) simp_all
  moreover have "8 * l * l = m" by (simp add: m_def)
  ultimately show ?thesis using a d by simp
qed

end
