(* ===== verification/Ready_Table.thy ===== *)
theory Ready_Table
  imports Common_Types
begin

section \<open>Ready tables\<close>

text \<open>
  Models \<open>deep_inc/common/ready_table.h\<close> and \<open>ready_table.cc\<close>: per key, the number of peers that
  have signalled; a key is ready when the count has reached the table's \<open>_ready_count\<close>. Each
  method runs under the table's mutex, so it is one atomic step. The locale \<open>signal_counter\<close> is
  the contract the listening threads and the scheduled queues rely on.
\<close>

record ready_table =
  rt_table :: "u64 \<rightharpoonup> int"
  rt_ready_count :: int
  rt_name :: string

definition ReadyTable :: "int \<Rightarrow> string \<Rightarrow> ready_table" where
  "ReadyTable cnt name = \<lparr>rt_table = Map.empty, rt_ready_count = cnt, rt_name = name\<rparr>"

definition IsKeyReady :: "ready_table \<Rightarrow> u64 \<Rightarrow> bool \<times> ready_table" where
  "IsKeyReady rt k =
     (map_at 0 (rt_table rt) k = rt_ready_count rt, rt\<lparr>rt_table := touch 0 (rt_table rt) k\<rparr>)"

definition AddReadyCount :: "ready_table \<Rightarrow> u64 \<Rightarrow> (int \<times> ready_table) res" where
  "AddReadyCount rt k =
     check (map_at 0 (rt_table rt) k < rt_ready_count rt) (CheckFailed (rt_name rt))
       (let v = map_at 0 (rt_table rt) k + 1
        in Inr (v, rt\<lparr>rt_table := (rt_table rt)(k \<mapsto> v)\<rparr>))"

text \<open>
  \<open>SetReadyCount\<close> is declared to return an \<open>int\<close> and returns nothing; the model is the effect of
  its one statement.
\<close>

definition SetReadyCount :: "ready_table \<Rightarrow> u64 \<Rightarrow> int \<Rightarrow> ready_table" where
  "SetReadyCount rt k cnt = rt\<lparr>rt_table := (rt_table rt)(k \<mapsto> cnt)\<rparr>"

definition ClearReadyCount :: "ready_table \<Rightarrow> u64 \<Rightarrow> ready_table" where
  "ClearReadyCount rt k = rt\<lparr>rt_table := (rt_table rt)(k \<mapsto> 0)\<rparr>"

text \<open>The count of a key as any reader sees it.\<close>

definition rt_val :: "ready_table \<Rightarrow> u64 \<Rightarrow> int" where
  "rt_val rt k = map_at 0 (rt_table rt) k"

subsection \<open>The contract of a signal counter\<close>

locale signal_counter =
  fixes val :: "'t \<Rightarrow> u64 \<Rightarrow> int"
    and lim :: "'t \<Rightarrow> int"
    and add :: "'t \<Rightarrow> u64 \<Rightarrow> (int \<times> 't) res"
    and clr :: "'t \<Rightarrow> u64 \<Rightarrow> 't"
    and rdy :: "'t \<Rightarrow> u64 \<Rightarrow> bool \<times> 't"
  assumes add_ok: "val t k < lim t \<Longrightarrow>
      \<exists>t'. add t k = Inr (val t k + 1, t') \<and> val t' = (val t)(k := val t k + 1) \<and> lim t' = lim t"
    and add_full: "\<not> val t k < lim t \<Longrightarrow> \<exists>e. add t k = Inl e"
    and clr_val: "val (clr t k) = (val t)(k := 0)"
    and clr_lim: "lim (clr t k) = lim t"
    and rdy_iff: "fst (rdy t k) \<longleftrightarrow> val t k = lim t"
    and rdy_val: "val (snd (rdy t k)) = val t"
    and rdy_lim: "lim (snd (rdy t k)) = lim t"
begin

text \<open>The signals of a run of messages, in the order in which they arrive.\<close>

fun signals :: "'t \<Rightarrow> u64 list \<Rightarrow> 't res" where
  "signals t [] = Inr t"
| "signals t (k # ks) = rbind (add t k) (\<lambda>(v, t'). signals t' ks)"

lemma signals_val:
  "signals t ks = Inr t' \<Longrightarrow> val t' k = val t k + int (count_list ks k) \<and> lim t' = lim t"
proof (induction ks arbitrary: t)
  case (Cons a ks)
  show ?case
  proof (cases "val t a < lim t")
    case True
    then obtain t1 where t1: "add t a = Inr (val t a + 1, t1)"
      and v: "val t1 = (val t)(a := val t a + 1)" "lim t1 = lim t"
      using add_ok by blast
    have "signals t1 ks = Inr t'" using Cons.prems t1 by simp
    from Cons.IH [OF this] v show ?thesis by auto
  next
    case False
    then obtain e where "add t a = Inl e" using add_full by blast
    with Cons.prems show ?thesis by simp
  qed
qed simp

text \<open>
  A run of signals succeeds exactly when no key is signalled beyond the limit, whatever the
  interleaving of the senders.
\<close>

lemma signals_succeed:
  "(\<exists>t'. signals t ks = Inr t') \<longleftrightarrow> (\<forall>k \<in> set ks. val t k + int (count_list ks k) \<le> lim t)"
proof (induction ks arbitrary: t)
  case (Cons a ks)
  show ?case
  proof (cases "val t a < lim t")
    case True
    then obtain t1 where t1: "add t a = Inr (val t a + 1, t1)"
      and v: "val t1 = (val t)(a := val t a + 1)" "lim t1 = lim t"
      using add_ok by blast
    have "(\<exists>t'. signals t (a # ks) = Inr t') \<longleftrightarrow>
        (\<forall>k \<in> set ks. val t1 k + int (count_list ks k) \<le> lim t1)"
      using t1 Cons.IH [of t1] by simp
    also have "\<dots> \<longleftrightarrow> (\<forall>k \<in> set (a # ks). val t k + int (count_list (a # ks) k) \<le> lim t)"
      using True v by (auto simp: count_list_0_iff split: if_splits)
    finally show ?thesis .
  next
    case False
    then obtain e where "add t a = Inl e" using add_full by blast
    then show ?thesis using False by force
  qed
qed simp

lemma signals_ready:
  assumes "signals (clr t k) ks = Inr t'"
  shows "fst (rdy t' k) \<longleftrightarrow> int (count_list ks k) = lim t"
  using signals_val [OF assms] by (simp add: rdy_iff clr_val clr_lim)

end

interpretation rtc: signal_counter rt_val rt_ready_count AddReadyCount ClearReadyCount IsKeyReady
  by unfold_locales
    (auto simp: rt_val_def AddReadyCount_def ClearReadyCount_def IsKeyReady_def fun_eq_iff Let_def)

text \<open>The calls of \<open>AddReadyCount\<close> that a listening thread makes, message by message.\<close>

fun add_signals :: "ready_table \<Rightarrow> u64 list \<Rightarrow> ready_table res" where
  "add_signals rt [] = Inr rt"
| "add_signals rt (k # ks) = rbind (AddReadyCount rt k) (\<lambda>(v, rt'). add_signals rt' ks)"

lemma add_signals_eq: "add_signals rt ks = rtc.signals rt ks"
  by (induction ks arbitrary: rt) (auto intro: arg_cong [where f = "rbind _"])

lemma rt_val_simps [simp]:
  "rt_val (ReadyTable n s) k = 0"
  "rt_val (SetReadyCount rt k' c) k = (if k = k' then c else rt_val rt k)"
  "rt_val (ClearReadyCount rt k') k = (if k = k' then 0 else rt_val rt k)"
  "rt_val (snd (IsKeyReady rt k')) k = rt_val rt k"
  "rt_ready_count (ReadyTable n s) = n"
  "rt_ready_count (SetReadyCount rt k' c) = rt_ready_count rt"
  "rt_ready_count (ClearReadyCount rt k') = rt_ready_count rt"
  "rt_ready_count (snd (IsKeyReady rt k')) = rt_ready_count rt"
  by (simp_all add: rt_val_def ReadyTable_def SetReadyCount_def ClearReadyCount_def IsKeyReady_def)

lemma IsKeyReady_iff: "fst (IsKeyReady rt k) \<longleftrightarrow> rt_val rt k = rt_ready_count rt"
  by (rule rtc.rdy_iff)

lemma AddReadyCount_Inr:
  "AddReadyCount rt k = Inr (v, rt') \<Longrightarrow>
     v = rt_val rt k + 1 \<and> v \<le> rt_ready_count rt \<and> rt_val rt' = (rt_val rt)(k := v)
     \<and> rt_ready_count rt' = rt_ready_count rt"
  by (auto simp: AddReadyCount_def rt_val_def res_simps Let_def fun_eq_iff)

text \<open>
  Signals of any number of peers over any number of keys, delivered in any order after key
  \<open>k\<close> was cleared: the listening side gets through them without aborting and finds
  \<open>k\<close> ready exactly when no key was signalled beyond the table's limit and
  \<open>k\<close> itself was signalled exactly the limit's number of times, whatever the other
  keys did in between.
\<close>

theorem ready_after_exact_signals:
  "(\<exists>rt'. add_signals (ClearReadyCount rt k) ks = Inr rt' \<and> fst (IsKeyReady rt' k)) \<longleftrightarrow>
     (\<forall>j \<in> set ks. rt_val (ClearReadyCount rt k) j + int (count_list ks j) \<le> rt_ready_count rt) \<and>
     int (count_list ks k) = rt_ready_count rt"
proof -
  have "add_signals (ClearReadyCount rt k) ks = Inr rt' \<Longrightarrow>
      fst (IsKeyReady rt' k) \<longleftrightarrow> int (count_list ks k) = rt_ready_count rt" for rt'
    unfolding add_signals_eq by (rule rtc.signals_ready)
  moreover have "rt_ready_count (ClearReadyCount rt k) = rt_ready_count rt" by simp
  ultimately show ?thesis
    using rtc.signals_succeed [of "ClearReadyCount rt k" ks]
    unfolding add_signals_eq by (metis (no_types))
qed

theorem ready_after_exact_signals_witness:
  "\<exists>rt'. add_signals (ClearReadyCount (ReadyTable 2 ''PUSH'') 7) [7, 5, 7] = Inr rt' \<and>
     fst (IsKeyReady rt' 7)"
  by (subst ready_after_exact_signals) simp

end
