(* ===== verification/Std_Algorithms.thy ===== *)
theory Std_Algorithms
  imports Prelude
begin

section \<open>Sorting and heaps of the C++ standard library\<close>

text \<open>
  The code sorts with \<open>std::sort\<close> and keeps heaps with \<open>std::push_heap\<close> and \<open>std::pop_heap\<close>,
  each with a comparator of its own. The locale \<open>strict_weak_order\<close> is the requirement the
  standard puts on a comparator; \<open>std_heap\<close> is what the standard promises of the two heap
  functions for such a comparator. The functions below are one implementation, and the heap
  contract is discharged for it by a \<open>sublocale\<close>; the order the standard leaves open (elements
  that compare equal) is the only thing an implementation may change.
\<close>

locale strict_weak_order =
  fixes lt :: "'a \<Rightarrow> 'a \<Rightarrow> bool"
  assumes asym: "lt a b \<Longrightarrow> \<not> lt b a"
    and ntrans: "lt a c \<Longrightarrow> lt a b \<or> lt b c"
begin

lemma irrefl [simp]: "\<not> lt a a"
  using asym by blast

lemma ltrans: "lt a b \<Longrightarrow> lt b c \<Longrightarrow> lt a c"
  using asym ntrans by blast

lemma le_trans: "\<not> lt b a \<Longrightarrow> \<not> lt c b \<Longrightarrow> \<not> lt c a"
  using ntrans by blast

end

subsection \<open>Sorting\<close>

fun insert_sorted :: "('a \<Rightarrow> 'a \<Rightarrow> bool) \<Rightarrow> 'a \<Rightarrow> 'a list \<Rightarrow> 'a list" where
  "insert_sorted lt x [] = [x]"
| "insert_sorted lt x (y # ys) = (if lt y x then y # insert_sorted lt x ys else x # y # ys)"

definition std_sort :: "('a \<Rightarrow> 'a \<Rightarrow> bool) \<Rightarrow> 'a list \<Rightarrow> 'a list" where
  "std_sort lt xs = foldr (insert_sorted lt) xs []"

definition sorted_lt :: "('a \<Rightarrow> 'a \<Rightarrow> bool) \<Rightarrow> 'a list \<Rightarrow> bool" where
  "sorted_lt lt xs = sorted_wrt (\<lambda>a b. \<not> lt b a) xs"

lemma mset_insert_sorted [simp]: "mset (insert_sorted lt x ys) = add_mset x (mset ys)"
  by (induction ys) auto

lemma mset_std_sort [simp]: "mset (std_sort lt xs) = mset xs"
  by (induction xs) (simp_all add: std_sort_def)

lemma set_std_sort [simp]: "set (std_sort lt xs) = set xs"
  by (metis mset_std_sort set_mset_mset)

lemma length_std_sort [simp]: "length (std_sort lt xs) = length xs"
  by (metis mset_std_sort size_mset)

lemma set_insert_sorted [simp]: "set (insert_sorted lt x ys) = insert x (set ys)"
  by (induction ys) auto

context strict_weak_order begin

lemma sorted_insert: "sorted_lt lt ys \<Longrightarrow> sorted_lt lt (insert_sorted lt x ys)"
proof (induction ys)
  case (Cons y ys)
  then have IH: "sorted_lt lt (insert_sorted lt x ys)" by (simp add: sorted_lt_def)
  show ?case
  proof (cases "lt y x")
    case True
    with IH Cons.prems asym show ?thesis by (auto simp: sorted_lt_def)
  next
    case False
    with Cons.prems le_trans show ?thesis by (fastforce simp: sorted_lt_def)
  qed
qed (simp add: sorted_lt_def)

lemma sorted_std_sort: "sorted_lt lt (std_sort lt xs)"
proof (induction xs)
  case (Cons x xs)
  then show ?case using sorted_insert [of "std_sort lt xs" x] by (simp add: std_sort_def)
qed (simp add: std_sort_def sorted_lt_def)

text \<open>
  Where no two elements compare equal, every sorted permutation is the same list, so what the
  standard leaves open cannot be observed.
\<close>

lemma sorted_unique:
  assumes "sorted_lt lt xs" "sorted_lt lt ys" "mset xs = mset ys"
    and "\<And>a b. a \<in> set xs \<Longrightarrow> b \<in> set xs \<Longrightarrow> a \<noteq> b \<Longrightarrow> lt a b \<or> lt b a"
  shows "xs = ys"
  using assms
proof (induction xs arbitrary: ys)
  case (Cons x xs)
  then obtain y ys' where ys: "ys = y # ys'" by (cases ys) auto
  have x: "x \<in> set ys" using Cons.prems(3) by (metis list.set_intros(1) set_mset_mset)
  have y: "y \<in> set (x # xs)" using Cons.prems(3) ys by (metis list.set_intros(1) set_mset_mset)
  have "x = y"
  proof (rule ccontr)
    assume ne: "x \<noteq> y"
    have "\<not> lt y x" using Cons.prems(1) y ne by (auto simp: sorted_lt_def)
    moreover have "\<not> lt x y" using Cons.prems(2) x ys ne by (auto simp: sorted_lt_def)
    ultimately show False using Cons.prems(4) [of x y] y ne by auto
  qed
  moreover have "xs = ys'"
    using Cons.prems calculation ys by (intro Cons.IH) (auto simp: sorted_lt_def)
  ultimately show ?case using ys by simp
qed simp

lemma std_sort_unique:
  "sorted_lt lt ys \<Longrightarrow> mset ys = mset xs \<Longrightarrow>
     (\<And>a b. a \<in> set xs \<Longrightarrow> b \<in> set xs \<Longrightarrow> a \<noteq> b \<Longrightarrow> lt a b \<or> lt b a) \<Longrightarrow> std_sort lt xs = ys"
  by (rule sorted_unique) (auto simp: sorted_std_sort)

end

subsection \<open>Binary heaps in an array\<close>

definition swap :: "'a list \<Rightarrow> nat \<Rightarrow> nat \<Rightarrow> 'a list" where
  "swap xs i j = xs[i := xs ! j, j := xs ! i]"

text \<open>\<open>std::push_heap\<close> on \<open>[first, last)\<close>: the last element moves up to its place.\<close>

function sift_up :: "('a \<Rightarrow> 'a \<Rightarrow> bool) \<Rightarrow> 'a list \<Rightarrow> nat \<Rightarrow> 'a list" where
  "sift_up lt xs i =
     (if 0 < i \<and> lt (xs ! ((i - 1) div 2)) (xs ! i)
      then sift_up lt (swap xs i ((i - 1) div 2)) ((i - 1) div 2) else xs)"
  by pat_completeness auto
termination
  by (relation "measure (\<lambda>(lt, xs, i). i)") auto

declare sift_up.simps [simp del]

definition push_heap :: "('a \<Rightarrow> 'a \<Rightarrow> bool) \<Rightarrow> 'a list \<Rightarrow> 'a list" where
  "push_heap lt xs = sift_up lt xs (length xs - 1)"

text \<open>
  \<open>std::pop_heap\<close>: the first element moves to the back, the old back goes to the front and
  down to its place in the rest.
\<close>

definition max_child :: "('a \<Rightarrow> 'a \<Rightarrow> bool) \<Rightarrow> 'a list \<Rightarrow> nat \<Rightarrow> nat" where
  "max_child lt xs i =
     (if 2 * i + 2 < length xs \<and> lt (xs ! (2 * i + 1)) (xs ! (2 * i + 2))
      then 2 * i + 2 else 2 * i + 1)"

function sift_down :: "('a \<Rightarrow> 'a \<Rightarrow> bool) \<Rightarrow> 'a list \<Rightarrow> nat \<Rightarrow> 'a list" where
  "sift_down lt xs i =
     (if 2 * i + 1 < length xs \<and> lt (xs ! i) (xs ! max_child lt xs i)
      then sift_down lt (swap xs i (max_child lt xs i)) (max_child lt xs i) else xs)"
  by pat_completeness auto
termination
  by (relation "measure (\<lambda>(lt, xs, i). length xs - i)") (auto simp: swap_def max_child_def)

declare sift_down.simps [simp del]

definition pop_heap :: "('a \<Rightarrow> 'a \<Rightarrow> bool) \<Rightarrow> 'a list \<Rightarrow> 'a list" where
  "pop_heap lt xs =
     (if length xs \<le> 1 then xs
      else sift_down lt (last xs # butlast (tl xs)) 0 @ [hd xs])"

definition is_heap :: "('a \<Rightarrow> 'a \<Rightarrow> bool) \<Rightarrow> 'a list \<Rightarrow> bool" where
  "is_heap lt xs \<longleftrightarrow> (\<forall>i < length xs. 0 < i \<longrightarrow> \<not> lt (xs ! ((i - 1) div 2)) (xs ! i))"

lemma length_swap [simp]: "length (swap xs i j) = length xs"
  by (simp add: swap_def)

lemma nth_swap:
  "i < length xs \<Longrightarrow> j < length xs \<Longrightarrow> k < length xs \<Longrightarrow>
     swap xs i j ! k = (if k = i then xs ! j else if k = j then xs ! i else xs ! k)"
  by (auto simp: swap_def nth_list_update)

lemma mset_swap' [simp]: "i < length xs \<Longrightarrow> j < length xs \<Longrightarrow> mset (swap xs i j) = mset xs"
  by (simp add: swap_def Multiset.mset_swap)

lemma mset_sift_up [simp]: "i < length xs \<Longrightarrow> mset (sift_up lt xs i) = mset xs"
proof (induction lt xs i rule: sift_up.induct)
  case (1 lt xs i)
  then show ?case by (subst sift_up.simps) (simp add: less_imp_diff_less)
qed

lemma mset_push_heap [simp]: "mset (push_heap lt xs) = mset xs"
  by (cases xs) (simp_all add: push_heap_def sift_up.simps [of lt "[]"])

lemma max_child_less: "2 * i + 1 < length xs \<Longrightarrow> max_child lt xs i < length xs"
  by (auto simp: max_child_def)

lemma mset_sift_down [simp]: "mset (sift_down lt xs i) = mset xs"
proof (induction lt xs i rule: sift_down.induct)
  case (1 lt xs i)
  then show ?case by (subst sift_down.simps) (simp add: max_child_less)
qed

lemma mset_pop_heap [simp]: "mset (pop_heap lt xs) = mset xs"
proof (cases "length xs \<le> 1")
  case False
  then obtain a ys where xs: "xs = a # ys" "ys \<noteq> []" by (cases xs) auto
  have "mset (pop_heap lt xs) = add_mset a (add_mset (last ys) (mset (butlast ys)))"
    using False xs by (simp add: pop_heap_def)
  also have "\<dots> = add_mset a (mset (butlast ys @ [last ys]))" by simp
  finally show ?thesis using xs by simp
qed (simp add: pop_heap_def)

lemma length_push_heap [simp]: "length (push_heap lt xs) = length xs"
  by (metis mset_push_heap size_mset)

lemma length_pop_heap [simp]: "length (pop_heap lt xs) = length xs"
  by (metis mset_pop_heap size_mset)

lemma length_sift_down [simp]: "length (sift_down lt xs i) = length xs"
  by (metis mset_sift_down size_mset)

lemma set_push_heap [simp]: "set (push_heap lt xs) = set xs"
  by (metis mset_push_heap set_mset_mset)

lemma set_pop_heap [simp]: "set (pop_heap lt xs) = set xs"
  by (metis mset_pop_heap set_mset_mset)

text \<open>A heap except that the element at \<open>k\<close> may be too large, or too small, for its place.\<close>

definition heap_up :: "('a \<Rightarrow> 'a \<Rightarrow> bool) \<Rightarrow> 'a list \<Rightarrow> nat \<Rightarrow> bool" where
  "heap_up lt xs k \<longleftrightarrow>
     (\<forall>i < length xs. 0 < i \<longrightarrow> i \<noteq> k \<longrightarrow> \<not> lt (xs ! ((i - 1) div 2)) (xs ! i)) \<and>
     (\<forall>i < length xs. 0 < i \<longrightarrow> 0 < k \<longrightarrow> (i - 1) div 2 = k \<longrightarrow> \<not> lt (xs ! ((k - 1) div 2)) (xs ! i))"

definition heap_down :: "('a \<Rightarrow> 'a \<Rightarrow> bool) \<Rightarrow> 'a list \<Rightarrow> nat \<Rightarrow> bool" where
  "heap_down lt xs k \<longleftrightarrow>
     (\<forall>i < length xs. 0 < i \<longrightarrow> (i - 1) div 2 \<noteq> k \<longrightarrow> \<not> lt (xs ! ((i - 1) div 2)) (xs ! i)) \<and>
     (\<forall>i < length xs. 0 < i \<longrightarrow> 0 < k \<longrightarrow> (i - 1) div 2 = k \<longrightarrow> \<not> lt (xs ! ((k - 1) div 2)) (xs ! i))"

context strict_weak_order begin

lemma heap_up_swap:
  assumes h: "heap_up lt xs k" and k: "k < length xs" "0 < k"
    and less: "lt (xs ! ((k - 1) div 2)) (xs ! k)"
  shows "heap_up lt (swap xs k ((k - 1) div 2)) ((k - 1) div 2)"
proof -
  define p where "p = (k - 1) div 2"
  have p: "p < k" "p < length xs" using k by (auto simp: p_def)
  have up: "\<not> lt (xs ! ((i - 1) div 2)) (xs ! i)" if "i < length xs" "0 < i" "i \<noteq> k" for i
    using h that by (simp add: heap_up_def)
  have gr: "\<not> lt (xs ! p) (xs ! i)" if "i < length xs" "0 < i" "(i - 1) div 2 = k" for i
    using h that k by (simp add: heap_up_def p_def)
  have nth: "swap xs k p ! i = (if i = k then xs ! p else if i = p then xs ! k else xs ! i)"
    if "i < length xs" for i using that k p by (simp add: nth_swap)
  have less': "lt (xs ! p) (xs ! k)" using less by (simp add: p_def)
  have 1: "\<not> lt (swap xs k p ! ((i - 1) div 2)) (swap xs k p ! i)"
    if i: "i < length xs" "0 < i" "i \<noteq> p" for i
  proof -
    have j: "(i - 1) div 2 < length xs" using i by linarith
    consider "i = k" | "i \<noteq> k" "(i - 1) div 2 = p" | "i \<noteq> k" "(i - 1) div 2 = k"
      | "i \<noteq> k" "(i - 1) div 2 \<noteq> p" "(i - 1) div 2 \<noteq> k" by blast
    then show ?thesis
    proof cases
      case 1 then show ?thesis using nth [OF i(1)] nth [OF j] p less' asym by (auto simp: p_def)
    next
      case 2
      then have "\<not> lt (xs ! p) (xs ! i)" using up [OF i(1,2)] by simp
      then show ?thesis using 2 nth [OF i(1)] nth [OF j] i p less' ltrans by auto
    next
      case 3 then show ?thesis using gr [OF i(1,2)] nth [OF i(1)] nth [OF j] i p by auto
    next
      case 4 then show ?thesis using up [OF i(1,2)] nth [OF i(1)] nth [OF j] i by auto
    qed
  qed
  have 2: "\<not> lt (swap xs k p ! ((p - 1) div 2)) (swap xs k p ! i)"
    if i: "i < length xs" "0 < i" "0 < p" "(i - 1) div 2 = p" for i
  proof -
    have q: "(p - 1) div 2 < length xs" "(p - 1) div 2 \<noteq> p" "(p - 1) div 2 \<noteq> k"
      using p i(3) by linarith+
    have qp: "\<not> lt (xs ! ((p - 1) div 2)) (xs ! p)" using up [of p] p i(3) by simp
    show ?thesis
    proof (cases "i = k")
      case True then show ?thesis using nth [OF i(1)] nth [OF q(1)] q qp by simp
    next
      case False
      then have "\<not> lt (xs ! p) (xs ! i)" using up [OF i(1,2)] i(4) by simp
      with qp have "\<not> lt (xs ! ((p - 1) div 2)) (xs ! i)" using ntrans by blast
      then show ?thesis using False nth [OF i(1)] nth [OF q(1)] q i by auto
    qed
  qed
  show ?thesis
    unfolding heap_up_def p_def [symmetric] using 1 2 by simp
qed

lemma sift_up_heap: "heap_up lt xs k \<Longrightarrow> k < length xs \<Longrightarrow> is_heap lt (sift_up lt xs k)"
proof (induction lt \<equiv> lt xs k rule: sift_up.induct)
  case (1 xs k)
  show ?case
  proof (cases "0 < k \<and> lt (xs ! ((k - 1) div 2)) (xs ! k)")
    case True
    then have "heap_up lt (swap xs k ((k - 1) div 2)) ((k - 1) div 2)"
      using heap_up_swap 1 by blast
    moreover have "(k - 1) div 2 < length (swap xs k ((k - 1) div 2))" using 1 by simp
    ultimately show ?thesis using 1(1) [OF True] True by (simp add: sift_up.simps [of lt xs k])
  next
    case False
    have "\<not> lt (xs ! ((i - 1) div 2)) (xs ! i)" if "i < length xs" "0 < i" for i
      using 1(2) that False by (cases "i = k") (auto simp: heap_up_def)
    then show ?thesis using False by (auto simp: sift_up.simps [of lt xs k] is_heap_def)
  qed
qed

lemma push_heap_is_heap:
  assumes "is_heap lt xs"
  shows "is_heap lt (push_heap lt (xs @ [x]))"
proof -
  have "heap_up lt (xs @ [x]) (length xs)"
    unfolding heap_up_def
  proof (intro conjI allI impI)
    fix i assume i: "i < length (xs @ [x])" "0 < i" "i \<noteq> length xs"
    then have "i < length xs" "(i - 1) div 2 < length xs" by auto
    then show "\<not> lt ((xs @ [x]) ! ((i - 1) div 2)) ((xs @ [x]) ! i)"
      using assms i by (simp add: nth_append is_heap_def)
  next
    fix i assume "i < length (xs @ [x])" "0 < i" "(i - 1) div 2 = length xs"
    then have False by simp
    then show "\<not> lt ((xs @ [x]) ! ((length xs - 1) div 2)) ((xs @ [x]) ! i)" ..
  qed
  then show ?thesis by (simp add: push_heap_def sift_up_heap)
qed

lemma max_child_cases:
  "max_child lt xs i = 2 * i + 1 \<or> max_child lt xs i = 2 * i + 2"
  by (simp add: max_child_def)

lemma max_child_max:
  "2 * i + 1 < length xs \<Longrightarrow> c < length xs \<Longrightarrow> 0 < c \<Longrightarrow> (c - 1) div 2 = i \<Longrightarrow>
     \<not> lt (xs ! max_child lt xs i) (xs ! c)"
proof -
  assume "2 * i + 1 < length xs" "c < length xs" "0 < c" "(c - 1) div 2 = i"
  then have "c = 2 * i + 1 \<or> c = 2 * i + 2" by linarith
  then show "\<not> lt (xs ! max_child lt xs i) (xs ! c)"
    using \<open>c < length xs\<close> asym by (auto simp: max_child_def)
qed

lemma heap_down_swap:
  assumes h: "heap_down lt xs k" and k: "2 * k + 1 < length xs"
    and less: "lt (xs ! k) (xs ! max_child lt xs k)"
  shows "heap_down lt (swap xs k (max_child lt xs k)) (max_child lt xs k)"
proof -
  define c where "c = max_child lt xs k"
  have c: "c < length xs" "k < c" "0 < c" "(c - 1) div 2 = k"
    using max_child_less [OF k] max_child_cases [of xs k] by (auto simp: c_def)
  have dn: "\<not> lt (xs ! ((i - 1) div 2)) (xs ! i)"
    if "i < length xs" "0 < i" "(i - 1) div 2 \<noteq> k" for i
    using h that by (simp add: heap_down_def)
  have gr: "\<not> lt (xs ! ((k - 1) div 2)) (xs ! i)"
    if "i < length xs" "0 < i" "0 < k" "(i - 1) div 2 = k" for i
    using h that by (simp add: heap_down_def)
  have nth: "swap xs k c ! i = (if i = k then xs ! c else if i = c then xs ! k else xs ! i)"
    if "i < length xs" for i using that k c by (simp add: nth_swap)
  have 1: "\<not> lt (swap xs k c ! ((i - 1) div 2)) (swap xs k c ! i)"
    if i: "i < length xs" "0 < i" "(i - 1) div 2 \<noteq> c" for i
  proof -
    have j: "(i - 1) div 2 < length xs" using i by linarith
    consider "i = k" | "i = c" | "i \<noteq> k" "i \<noteq> c" "(i - 1) div 2 = k"
      | "i \<noteq> k" "i \<noteq> c" "(i - 1) div 2 \<noteq> k" by blast
    then show ?thesis
    proof cases
      case 1
      then have "(k - 1) div 2 \<noteq> k" "(k - 1) div 2 \<noteq> c" using i c by auto
      then show ?thesis using 1 nth [OF i(1)] nth [OF j] gr [OF c(1,3) _ c(4)] i by simp
    next
      case 2 then show ?thesis using nth [OF i(1)] nth [OF j] c less asym by (auto simp: c_def)
    next
      case 3 then show ?thesis
        using nth [OF i(1)] nth [OF j] max_child_max [OF k i(1,2)] by (simp add: c_def)
    next
      case 4 then show ?thesis using nth [OF i(1)] nth [OF j] dn [OF i(1,2)] i by auto
    qed
  qed
  have 2: "\<not> lt (swap xs k c ! ((c - 1) div 2)) (swap xs k c ! i)"
    if i: "i < length xs" "0 < i" "(i - 1) div 2 = c" for i
  proof -
    have "i \<noteq> k" "i \<noteq> c" using i c by auto
    moreover have "\<not> lt (xs ! c) (xs ! i)" using dn [OF i(1,2)] i c by auto
    moreover have "k < length xs" using k by simp
    ultimately show ?thesis using nth [OF i(1)] nth [of k] c by simp
  qed
  show ?thesis
    unfolding heap_down_def c_def [symmetric] using 1 2 by simp
qed

lemma sift_down_heap: "heap_down lt xs k \<Longrightarrow> is_heap lt (sift_down lt xs k)"
proof (induction lt \<equiv> lt xs k rule: sift_down.induct)
  case (1 xs k)
  show ?case
  proof (cases "2 * k + 1 < length xs \<and> lt (xs ! k) (xs ! max_child lt xs k)")
    case True
    then show ?thesis
      using 1 heap_down_swap [of xs k] by (simp add: sift_down.simps [of lt xs k])
  next
    case False
    have "\<not> lt (xs ! ((i - 1) div 2)) (xs ! i)" if i: "i < length xs" "0 < i" for i
    proof (cases "(i - 1) div 2 = k")
      case True
      then have len: "2 * k + 1 < length xs" using i by linarith
      then have "\<not> lt (xs ! k) (xs ! max_child lt xs k)" using False by simp
      moreover have "\<not> lt (xs ! max_child lt xs k) (xs ! i)"
        using max_child_max [OF len i True] .
      ultimately show ?thesis using ntrans True by blast
    qed (use 1(2) i in \<open>simp add: heap_down_def\<close>)
    moreover have "sift_down lt xs k = xs" using False by (subst sift_down.simps) auto
    ultimately show ?thesis by (simp add: is_heap_def)
  qed
qed

lemma is_heap_root: "is_heap lt xs \<Longrightarrow> i < length xs \<Longrightarrow> \<not> lt (xs ! 0) (xs ! i)"
proof (induction i rule: less_induct)
  case (less i)
  show ?case
  proof (cases "i = 0")
    case False
    then have "\<not> lt (xs ! 0) (xs ! ((i - 1) div 2))" using less by simp
    moreover have "\<not> lt (xs ! ((i - 1) div 2)) (xs ! i)" using less False by (simp add: is_heap_def)
    ultimately show ?thesis using ntrans by blast
  qed simp
qed

lemma pop_heap_is_heap:
  assumes "is_heap lt xs" and "xs \<noteq> []"
  shows "is_heap lt (butlast (pop_heap lt xs))"
proof (cases "length xs \<le> 1")
  case True
  then have "butlast (pop_heap lt xs) = []" using assms by (cases xs) (auto simp: pop_heap_def)
  then show ?thesis by (simp add: is_heap_def)
next
  case False
  define ys where "ys = last xs # butlast (tl xs)"
  have len: "length ys = length xs - 1" using False by (simp add: ys_def)
  have nth: "ys ! i = xs ! i" if "0 < i" "i < length ys" for i
    using that len by (cases xs; cases i) (auto simp: ys_def nth_butlast)
  have "heap_down lt ys 0"
    unfolding heap_down_def
  proof (intro conjI allI impI)
    fix i assume i: "i < length ys" "0 < i" "(i - 1) div 2 \<noteq> 0"
    then have "ys ! i = xs ! i" "ys ! ((i - 1) div 2) = xs ! ((i - 1) div 2)"
      by (auto intro!: nth)
    then show "\<not> lt (ys ! ((i - 1) div 2)) (ys ! i)"
      using assms(1) i len by (simp add: is_heap_def)
  qed simp
  then show ?thesis using False sift_down_heap by (simp add: pop_heap_def ys_def [symmetric])
qed

lemma last_pop_heap: "xs \<noteq> [] \<Longrightarrow> last (pop_heap lt xs) = hd xs"
  by (cases xs) (auto simp: pop_heap_def)

end

subsection \<open>The heap contract\<close>

text \<open>
  What the standard promises of \<open>push_heap\<close> and \<open>pop_heap\<close>, and what a client gets from it: a
  push keeps a heap, a pop delivers at the back an element no other element exceeds.
\<close>

locale std_heap =
  fixes lt :: "'a \<Rightarrow> 'a \<Rightarrow> bool"
    and push :: "'a list \<Rightarrow> 'a list"
    and pop :: "'a list \<Rightarrow> 'a list"
    and heap :: "'a list \<Rightarrow> bool"
  assumes push_mset: "mset (push xs) = mset xs"
    and push_keeps: "heap xs \<Longrightarrow> heap (push (xs @ [x]))"
    and pop_mset: "mset (pop xs) = mset xs"
    and pop_keeps: "heap xs \<Longrightarrow> xs \<noteq> [] \<Longrightarrow> heap (butlast (pop xs))"
    and pop_last: "xs \<noteq> [] \<Longrightarrow> last (pop xs) = hd xs"
    and root_max: "heap xs \<Longrightarrow> x \<in> set xs \<Longrightarrow> \<not> lt (hd xs) x"
    and heap_empty: "heap []"
begin

lemma pop_split:
  assumes "xs \<noteq> []"
  shows "mset xs = add_mset (last (pop xs)) (mset (butlast (pop xs)))"
proof -
  have "pop xs \<noteq> []" using assms pop_mset [of xs] by (metis mset_zero_iff)
  then have "mset (pop xs) = mset (butlast (pop xs) @ [last (pop xs)])" by simp
  then show ?thesis using pop_mset by simp
qed

lemma pop_max:
  assumes "heap xs" "xs \<noteq> []" "x \<in> set xs"
  shows "\<not> lt (last (pop xs)) x"
  using assms root_max pop_last by simp

text \<open>Pushing any elements one by one onto an empty range gives a heap of exactly them.\<close>

fun push_all :: "'a list \<Rightarrow> 'a list \<Rightarrow> 'a list" where
  "push_all xs [] = xs"
| "push_all xs (y # ys) = push_all (push (xs @ [y])) ys"

lemma push_all_heap: "heap xs \<Longrightarrow> heap (push_all xs ys)"
  by (induction ys arbitrary: xs) (auto intro: push_keeps)

lemma push_all_mset: "mset (push_all xs ys) = mset xs + mset ys"
  by (induction ys arbitrary: xs) (auto simp: push_mset)

end

sublocale strict_weak_order \<subseteq> hp: std_heap lt "push_heap lt" "pop_heap lt" "is_heap lt"
proof unfold_locales
  fix xs :: "'a list" and x
  show "is_heap lt xs \<Longrightarrow> x \<in> set xs \<Longrightarrow> \<not> lt (hd xs) x"
    using is_heap_root by (metis hd_conv_nth in_set_conv_nth length_greater_0_conv list.size(3) not_less_zero)
  show "is_heap lt []" by (simp add: is_heap_def)
qed (auto intro: push_heap_is_heap pop_heap_is_heap last_pop_heap)

end
