(* ===== verification/Scheduled_Queue.thy ===== *)
theory Scheduled_Queue
  imports Ready_Table Std_Algorithms
begin

section \<open>Scheduled queues\<close>

text \<open>
  Models \<open>deep_inc/common/scheduled_queue.h\<close> and \<open>scheduled_queue.cc\<close>: one queue of tasks per
  pipeline stage, gated by a ready table, by a CUDA event per task and, for the scheduled
  \<open>REDUCE\<close> queue of the signal root, by a byte credit and ordered by priority. Every method runs
  under the queue's mutex and is one atomic step. Whether a task's event has fired is asked once
  per task in a call, so a call takes the answers as a function of the task; the clock is the
  argument \<open>now\<close> (microseconds).
\<close>

subsection \<open>State\<close>

text \<open>The ready tables are shared objects; a queue holds a pointer to one of them, or null.\<close>

datatype rt_id = RT_REDUCE | RT_PCIE_REDUCE | RT_BROADCAST | RT_PUSH | RT_COPY

record sched_queue =
  sq :: "tte list"
  credits :: u64
  is_scheduled :: bool
  q_type :: queue_type
  q_rt :: "rt_id option"

record shared =
  rts :: "rt_id \<rightharpoonup> ready_table"
  ctxs :: "string \<rightharpoonup> bps_context"

text \<open>What the constructor reads of the process: roles, sizes and the environment variable.\<close>

record queue_env =
  qe_signal_root :: bool
  qe_scheduling_credit :: "int option"
  qe_partition_bound :: u32
  qe_cross_pcie :: bool
  qe_reducer_root :: bool
  qe_root_device :: bool

definition table_ptr :: "(rt_id \<rightharpoonup> ready_table) \<Rightarrow> rt_id \<Rightarrow> rt_id option" where
  "table_ptr ts r = (if ts r = None then None else Some r)"

definition queue_table :: "queue_env \<Rightarrow> (rt_id \<rightharpoonup> ready_table) \<Rightarrow> queue_type \<Rightarrow> rt_id option" where
  "queue_table env ts qt =
     (case qt of
        REDUCE \<Rightarrow> if qe_signal_root env then table_ptr ts RT_REDUCE else None
      | PCIE_REDUCE \<Rightarrow>
          if qe_cross_pcie env \<and> qe_reducer_root env then table_ptr ts RT_PCIE_REDUCE else None
      | COMPRESS \<Rightarrow> if qe_root_device env then table_ptr ts RT_PUSH else None
      | PUSH \<Rightarrow> if qe_root_device env then table_ptr ts RT_PUSH else None
      | COPYH2D \<Rightarrow> if \<not> qe_root_device env then table_ptr ts RT_COPY else None
      | BROADCAST \<Rightarrow> if qe_signal_root env then table_ptr ts RT_BROADCAST else None
      | _ \<Rightarrow> None)"

definition BytePSScheduledQueue ::
    "queue_env \<Rightarrow> (rt_id \<rightharpoonup> ready_table) \<Rightarrow> queue_type \<Rightarrow> sched_queue" where
  "BytePSScheduledQueue env ts qt =
     (let credit = (case qe_scheduling_credit env of None \<Rightarrow> 0 | Some c \<Rightarrow> (of_int c :: u64));
          sched = (qt = REDUCE \<and> qe_signal_root env \<and> credit \<noteq> 0)
      in \<lparr>sq = [],
          credits = (if sched then ucast (qe_partition_bound env) * credit else 34359738368),
          is_scheduled = sched, q_type = qt, q_rt = queue_table env ts qt\<rparr>)"

subsection \<open>Operations\<close>

text \<open>The comparator of the sort: higher priority first, then the smaller key.\<close>

definition task_before :: "tte \<Rightarrow> tte \<Rightarrow> bool" where
  "task_before a b =
     (if te_priority a = te_priority b then te_key a < te_key b
      else te_priority a > te_priority b)"

definition addTask :: "sched_queue \<Rightarrow> tte \<Rightarrow> sched_queue res" where
  "addTask q e =
     (let xs = sq q @ [e];
          q' = q\<lparr>sq := (if is_scheduled q then std_sort task_before xs else xs)\<rparr>
      in check (te_name e \<noteq> []) (CheckFailed ''addTask: tensor_name'') (Inr q'))"

text \<open>
  \<open>recorderTs\<close> appends a start record to the context's \<open>part_comm_time[key][op]\<close> when the
  tensor is being profiled. The record's \<open>key\<close> field is an \<open>int\<close>: the 64-bit key is cut to 32
  bits and read as signed.
\<close>

definition recorderTs :: "int \<Rightarrow> tte \<Rightarrow> 'z shared_scheme \<Rightarrow> 'z shared_scheme res" where
  "recorderTs now t s =
     (case ctxs s (te_context t) of
        None \<Rightarrow> Inl (Undefined ''null context'')
      | Some c \<Rightarrow>
          if profile_flag c then
            (case te_queue_list t of
               [] \<Rightarrow> Inl (CheckFailed ''recorderTs: queue_list'')
             | this_op # _ \<Rightarrow>
                 let ret = BPSCommTime\<lparr>start_t := now, ct_key := sint (ucast (te_key t) :: u32),
                             ct_type := queue_type_value this_op\<rparr>;
                     per_op = map_at Map.empty (part_comm_time c) (te_key t);
                     per_op' = per_op(this_op \<mapsto> map_at [] per_op this_op @ [ret])
                 in Inr (s\<lparr>ctxs := (ctxs s)(te_context t \<mapsto>
                       c\<lparr>part_comm_time := (part_comm_time c)(te_key t \<mapsto> per_op')\<rparr>)\<rparr>))
          else Inr s)"

text \<open>
  The loop of \<open>getTask\<close>: \<open>pre\<close> are the tasks already passed over. \<open>IsKeyReady\<close> is asked only
  for tasks that pass the event and the credit test, and the ready count of the task taken is
  cleared before the task leaves the queue.
\<close>

fun getTask_loop :: "(tte \<Rightarrow> bool) \<Rightarrow> sched_queue \<Rightarrow> tte list \<Rightarrow> tte list \<Rightarrow>
    (rt_id \<rightharpoonup> ready_table) \<Rightarrow> ((tte \<times> tte list) option \<times> (rt_id \<rightharpoonup> ready_table)) res" where
  "getTask_loop ready q pre [] ts = Inr (None, ts)"
| "getTask_loop ready q pre (t # rest) ts =
     (if te_ready_event t \<noteq> None \<and> \<not> ready t then getTask_loop ready q (pre @ [t]) rest ts
      else if is_scheduled q \<and> ucast (te_len t) > credits q
      then getTask_loop ready q (pre @ [t]) rest ts
      else (case q_rt q of
              None \<Rightarrow> Inr (Some (t, pre @ rest), ts)
            | Some r \<Rightarrow>
                (case ts r of
                   None \<Rightarrow> Inl (Undefined ''null ready table'')
                 | Some rt \<Rightarrow>
                     (case IsKeyReady rt (te_key t) of (rdy, rt') \<Rightarrow>
                        if \<not> rdy then getTask_loop ready q (pre @ [t]) rest (ts(r \<mapsto> rt'))
                        else Inr (Some (t, pre @ rest),
                                  ts(r \<mapsto> ClearReadyCount rt' (te_key t)))))))"

definition getTask :: "(tte \<Rightarrow> bool) \<Rightarrow> int \<Rightarrow> sched_queue \<Rightarrow> 'z shared_scheme \<Rightarrow>
    (tte option \<times> sched_queue \<times> 'z shared_scheme) res" where
  "getTask ready now q s =
     rbind (getTask_loop ready q [] (sq q) (rts s)) (\<lambda>(found, ts).
       case found of
         None \<Rightarrow> Inr (None, q, s\<lparr>rts := ts\<rparr>)
       | Some (t, rest) \<Rightarrow>
           let q' = q\<lparr>sq := rest,
                      credits := (if is_scheduled q then credits q - ucast (te_len t)
                                  else credits q)\<rparr>;
               t' = t\<lparr>te_ready_event := None\<rparr>
           in check (te_name t \<noteq> []) (CheckFailed ''getTask: tensor_name'')
                (rbind (recorderTs now t' (s\<lparr>rts := ts\<rparr>)) (\<lambda>s'. Inr (Some t', q', s'))))"

text \<open>\<open>getTask(key)\<close>: every task the scan passes must have its event fired.\<close>

fun getTask_key_loop :: "(tte \<Rightarrow> bool) \<Rightarrow> u64 \<Rightarrow> tte list \<Rightarrow> tte list \<Rightarrow> (tte \<times> tte list) option res" where
  "getTask_key_loop ready k pre [] = Inr None"
| "getTask_key_loop ready k pre (t # rest) =
     check (te_ready_event t = None \<or> ready t) (CheckFailed ''getTask(key): ready_event'')
       (if te_key t \<noteq> k then getTask_key_loop ready k (pre @ [t]) rest
        else Inr (Some (t, pre @ rest)))"

definition getTask_key :: "(tte \<Rightarrow> bool) \<Rightarrow> int \<Rightarrow> u64 \<Rightarrow> sched_queue \<Rightarrow> 'z shared_scheme \<Rightarrow>
    (tte option \<times> sched_queue \<times> 'z shared_scheme) res" where
  "getTask_key ready now k q s =
     check (\<not> is_scheduled q) (CheckFailed ''getTask(key): scheduled'')
       (rbind (getTask_key_loop ready k [] (sq q)) (\<lambda>found.
          case found of
            None \<Rightarrow> Inr (None, q, s)
          | Some (t, rest) \<Rightarrow>
              let t' = t\<lparr>te_ready_event := None\<rparr>
              in check (te_name t \<noteq> []) (CheckFailed ''getTask(key): tensor_name'')
                   (rbind (recorderTs now t' s) (\<lambda>s'. Inr (Some t', q\<lparr>sq := rest\<rparr>, s')))))"

definition pendingSize :: "sched_queue \<Rightarrow> u32" where
  "pendingSize q = of_nat (length (sq q))"

text \<open>\<open>reportFinish(int size)\<close>: callers pass an unsigned length, which becomes an \<open>int\<close> first.\<close>

definition reportFinish :: "sched_queue \<Rightarrow> u32 \<Rightarrow> sched_queue" where
  "reportFinish q sz = (if is_scheduled q then q\<lparr>credits := credits q + of_int (sint sz)\<rparr> else q)"

definition queue_reset :: "sched_queue \<Rightarrow> u64 \<Rightarrow> int \<Rightarrow> 'z shared_scheme \<Rightarrow> 'z shared_scheme res" where
  "queue_reset q k cnt s =
     (case q_rt q of
        None \<Rightarrow> Inr s
      | Some r \<Rightarrow>
          (case rts s r of
             None \<Rightarrow> Inl (Undefined ''null ready table'')
           | Some rt \<Rightarrow> Inr (s\<lparr>rts := (rts s)(r \<mapsto> SetReadyCount rt k cnt)\<rparr>)))"

subsection \<open>Which task a queue delivers\<close>

interpretation task_order: strict_weak_order task_before
  by unfold_locales (auto simp: task_before_def split: if_splits)

text \<open>
  What the queues observe of the ready tables: per table, the counts and the limit. The insertion
  of zero counts by \<open>IsKeyReady\<close> is not observable.
\<close>

definition counts_of :: "(rt_id \<rightharpoonup> ready_table) \<Rightarrow> rt_id \<rightharpoonup> ((u64 \<Rightarrow> int) \<times> int)" where
  "counts_of ts r = map_option (\<lambda>rt. (rt_val rt, rt_ready_count rt)) (ts r)"

text \<open>A task passes the three gates of \<open>getTask\<close> in a given state of the ready tables.\<close>

definition eligible :: "(tte \<Rightarrow> bool) \<Rightarrow> sched_queue \<Rightarrow> (rt_id \<rightharpoonup> ready_table) \<Rightarrow> tte \<Rightarrow> bool" where
  "eligible ready q ts t \<longleftrightarrow>
     (te_ready_event t = None \<or> ready t) \<and>
     (is_scheduled q \<longrightarrow> ucast (te_len t) \<le> credits q) \<and>
     (case q_rt q of None \<Rightarrow> True
      | Some r \<Rightarrow> (case counts_of ts r of None \<Rightarrow> False | Some (v, n) \<Rightarrow> v (te_key t) = n))"

text \<open>The counts after a task with key \<open>k\<close> was taken: its own count is back at zero.\<close>

definition taken_counts :: "sched_queue \<Rightarrow> u64 \<Rightarrow> (rt_id \<rightharpoonup> ready_table) \<Rightarrow>
    rt_id \<rightharpoonup> ((u64 \<Rightarrow> int) \<times> int)" where
  "taken_counts q k ts =
     (case q_rt q of None \<Rightarrow> counts_of ts
      | Some r \<Rightarrow> (counts_of ts)(r := map_option (\<lambda>(v, n). (v(k := 0), n)) (counts_of ts r)))"

text \<open>Every table a queue points to exists.\<close>

definition tables_ok :: "sched_queue \<Rightarrow> (rt_id \<rightharpoonup> ready_table) \<Rightarrow> bool" where
  "tables_ok q ts \<longleftrightarrow> (case q_rt q of None \<Rightarrow> True | Some r \<Rightarrow> counts_of ts r \<noteq> None)"

lemma counts_of_ready [simp]:
  "ts r = Some rt \<Longrightarrow> counts_of (ts(r \<mapsto> snd (IsKeyReady rt k))) = counts_of ts"
  by (auto simp: counts_of_def fun_eq_iff)

lemma counts_of_upd [simp]:
  "counts_of (ts(r \<mapsto> rt)) = (counts_of ts)(r \<mapsto> (rt_val rt, rt_ready_count rt))"
  by (auto simp: counts_of_def fun_eq_iff)

lemma eligible_cong: "counts_of ts = counts_of ts' \<Longrightarrow> eligible ready q ts = eligible ready q ts'"
  by (cases "q_rt q") (auto simp: eligible_def intro!: ext)

lemma taken_counts_cong: "counts_of ts = counts_of ts' \<Longrightarrow> taken_counts q k ts = taken_counts q k ts'"
  by (simp add: taken_counts_def split: option.split)

lemma tables_ok_cong: "counts_of ts = counts_of ts' \<Longrightarrow> tables_ok q ts = tables_ok q ts'"
  by (cases "q_rt q") (auto simp: tables_ok_def)

text \<open>
  One step of the scan: an eligible head is taken, any other is passed over and no count changes.
\<close>

lemma getTask_loop_take:
  assumes "eligible ready q ts t"
  shows "\<exists>ts'. getTask_loop ready q pre (t # xs) ts = Inr (Some (t, pre @ xs), ts') \<and>
     counts_of ts' = taken_counts q (te_key t) ts"
proof (cases "q_rt q")
  case None
  then show ?thesis using assms by (auto simp: eligible_def taken_counts_def)
next
  case (Some r)
  then obtain rt where rt: "ts r = Some rt" "rt_val rt (te_key t) = rt_ready_count rt"
    using assms by (auto simp: eligible_def counts_of_def split: option.splits)
  define ts' where "ts' = ts(r \<mapsto> ClearReadyCount (snd (IsKeyReady rt (te_key t))) (te_key t))"
  have "getTask_loop ready q pre (t # xs) ts = Inr (Some (t, pre @ xs), ts')"
    using assms Some rt IsKeyReady_iff [of rt "te_key t"]
    by (auto simp: eligible_def case_prod_beta ts'_def not_less [symmetric])
  moreover have "(rt_val (ClearReadyCount (snd (IsKeyReady rt (te_key t))) (te_key t))) =
      (rt_val rt)(te_key t := 0)" by (intro ext) simp
  then have "counts_of ts' = taken_counts q (te_key t) ts"
    using Some rt by (simp add: taken_counts_def ts'_def) (simp add: counts_of_def)
  ultimately show ?thesis by blast
qed

lemma getTask_loop_skip:
  assumes "\<not> eligible ready q ts t" and "tables_ok q ts"
  shows "\<exists>ts'. getTask_loop ready q pre (t # xs) ts = getTask_loop ready q (pre @ [t]) xs ts' \<and>
     counts_of ts' = counts_of ts"
proof (cases "q_rt q")
  case None
  then show ?thesis using assms by (auto simp: eligible_def not_le)
next
  case (Some r)
  then obtain rt where rt: "ts r = Some rt"
    using assms(2) by (auto simp: tables_ok_def counts_of_def)
  show ?thesis
  proof (cases "rt_val rt (te_key t) = rt_ready_count rt")
    case True
    then show ?thesis using assms(1) Some rt by (auto simp: eligible_def counts_of_def not_le)
  next
    case False
    then have nr: "\<not> fst (IsKeyReady rt (te_key t))" by (simp add: IsKeyReady_iff)
    show ?thesis
    proof (cases "te_ready_event t \<noteq> None \<and> \<not> ready t \<or> is_scheduled q \<and> ucast (te_len t) > credits q")
      case True
      then show ?thesis by auto
    next
      case False
      then show ?thesis
        using Some rt nr
        by (intro exI [of _ "ts(r \<mapsto> snd (IsKeyReady rt (te_key t)))"])
          (auto simp: case_prod_beta simp del: counts_of_upd)
    qed
  qed
qed

declare getTask_loop.simps(2) [simp del]

text \<open>
  The scan returns the first eligible task, in queue order, leaves the others in place, clears
  the ready count of the task it takes and changes no other count.
\<close>

lemma getTask_loop_first:
  assumes "tables_ok q ts" and "eligible ready q ts t" and "\<forall>u \<in> set as. \<not> eligible ready q ts u"
  shows "\<exists>ts'. getTask_loop ready q pre (as @ t # bs) ts = Inr (Some (t, pre @ as @ bs), ts') \<and>
     counts_of ts' = taken_counts q (te_key t) ts"
  using assms
proof (induction as arbitrary: pre ts)
  case Nil
  then show ?case using getTask_loop_take [of ready q ts t pre bs] by simp
next
  case (Cons u as)
  then obtain ts1 where
    eq: "getTask_loop ready q pre (u # as @ t # bs) ts = getTask_loop ready q (pre @ [u]) (as @ t # bs) ts1"
    and c: "counts_of ts1 = counts_of ts"
    using getTask_loop_skip [of ready q ts u pre "as @ t # bs"] by auto
  have "\<exists>ts'. getTask_loop ready q (pre @ [u]) (as @ t # bs) ts1 =
      Inr (Some (t, (pre @ [u]) @ as @ bs), ts') \<and> counts_of ts' = taken_counts q (te_key t) ts1"
    using Cons.prems by (intro Cons.IH) (simp_all add: tables_ok_cong [OF c] eligible_cong [OF c])
  then show ?case using eq by (simp add: taken_counts_cong [OF c])
qed

lemma getTask_loop_none:
  assumes "tables_ok q ts" and "\<forall>u \<in> set xs. \<not> eligible ready q ts u"
  shows "\<exists>ts'. getTask_loop ready q pre xs ts = Inr (None, ts') \<and> counts_of ts' = counts_of ts"
  using assms
proof (induction xs arbitrary: pre ts)
  case (Cons u xs)
  then obtain ts1 where
    eq: "getTask_loop ready q pre (u # xs) ts = getTask_loop ready q (pre @ [u]) xs ts1"
    and c: "counts_of ts1 = counts_of ts"
    using getTask_loop_skip [of ready q ts u pre xs] by auto
  have "\<exists>ts'. getTask_loop ready q (pre @ [u]) xs ts1 = Inr (None, ts') \<and> counts_of ts' = counts_of ts1"
    using Cons.prems by (intro Cons.IH) (simp_all add: tables_ok_cong [OF c] eligible_cong [OF c])
  then show ?case using eq c by simp
qed simp

text \<open>What \<open>getTask\<close> relies on of the tasks it holds: names, contexts, and a current operation.\<close>

definition tasks_ok :: "sched_queue \<Rightarrow> 'z shared_scheme \<Rightarrow> bool" where
  "tasks_ok q s \<longleftrightarrow> (\<forall>t \<in> set (sq q).
     te_name t \<noteq> [] \<and> ctxs s (te_context t) \<noteq> None \<and> te_queue_list t \<noteq> [])"

lemma recorderTs_ok:
  assumes "ctxs s (te_context t) \<noteq> None" and "te_queue_list t \<noteq> []"
  shows "\<exists>s'. recorderTs now t s = Inr s' \<and> rts s' = rts s \<and> dom (ctxs s') = dom (ctxs s)"
  using assms by (auto simp: recorderTs_def Let_def split: list.split)

lemma recorderTs_frame:
  "recorderTs now t s = Inr s' \<Longrightarrow> rts s' = rts s \<and> dom (ctxs s') = dom (ctxs s)"
  by (auto simp: recorderTs_def Let_def res_simps split: option.splits list.splits if_splits)

lemma find_split:
  assumes "find P xs = Some t"
  shows "\<exists>as bs. xs = as @ t # bs \<and> P t \<and> (\<forall>u \<in> set as. \<not> P u) \<and> remove1 t xs = as @ bs"
proof -
  obtain as bs where xs: "xs = as @ t # bs" "P t" "\<forall>u \<in> set as. \<not> P u"
    using assms
  proof (induction xs arbitrary: thesis)
    case (Cons x xs)
    show ?case
    proof (cases "P x")
      case True then show ?thesis using Cons.prems(1) [of "[]" xs] Cons.prems(2) by simp
    next
      case False
      then have "find P xs = Some t" using Cons.prems(2) by simp
      with Cons.IH obtain as bs where "xs = as @ t # bs" "P t" "\<forall>u \<in> set as. \<not> P u" by metis
      then show ?thesis using Cons.prems(1) [of "x # as" bs] False by simp
    qed
  qed simp
  then have "t \<notin> set as" by blast
  then show ?thesis using xs by (auto simp: remove1_append)
qed

text \<open>The state in which \<open>getTask\<close> leaves the queue when it takes \<open>found\<close>.\<close>

definition queue_without :: "sched_queue \<Rightarrow> tte option \<Rightarrow> sched_queue" where
  "queue_without q found =
     (case found of None \<Rightarrow> q
      | Some t \<Rightarrow> q\<lparr>sq := remove1 t (sq q),
                    credits := (if is_scheduled q then credits q - ucast (te_len t) else credits q)\<rparr>)"

lemma getTask_eq:
  assumes "tables_ok q (rts s)" and "tasks_ok q s"
  shows "\<exists>s'. getTask ready now q s =
      Inr (map_option (\<lambda>t. t\<lparr>te_ready_event := None\<rparr>) (find (eligible ready q (rts s)) (sq q)),
           queue_without q (find (eligible ready q (rts s)) (sq q)), s') \<and>
     dom (ctxs s') = dom (ctxs s) \<and>
     counts_of (rts s') = (case find (eligible ready q (rts s)) (sq q) of
         None \<Rightarrow> counts_of (rts s) | Some t \<Rightarrow> taken_counts q (te_key t) (rts s))"
proof (cases "find (eligible ready q (rts s)) (sq q)")
  case None
  then obtain ts' where "getTask_loop ready q [] (sq q) (rts s) = Inr (None, ts')"
    "counts_of ts' = counts_of (rts s)"
    using getTask_loop_none [OF assms(1), of "sq q" ready "[]"] by (auto simp: find_None_iff)
  then show ?thesis using None by (simp add: getTask_def queue_without_def)
next
  case (Some t)
  from find_split [OF this] obtain as bs where sq: "sq q = as @ t # bs"
    and el: "eligible ready q (rts s) t" "\<forall>u \<in> set as. \<not> eligible ready q (rts s) u"
    and rm: "remove1 t (sq q) = as @ bs" by blast
  then obtain ts' where ts': "getTask_loop ready q [] (sq q) (rts s) = Inr (Some (t, as @ bs), ts')"
    "counts_of ts' = taken_counts q (te_key t) (rts s)"
    using getTask_loop_first [OF assms(1) el, of "[]" bs] by auto
  define t' where "t' = t\<lparr>te_ready_event := None\<rparr>"
  have t: "te_name t \<noteq> []" "ctxs (s\<lparr>rts := ts'\<rparr>) (te_context t') \<noteq> None" "te_queue_list t' \<noteq> []"
    using assms(2) sq by (auto simp: tasks_ok_def t'_def)
  obtain s' where "recorderTs now t' (s\<lparr>rts := ts'\<rparr>) = Inr s'" "rts s' = ts'"
    "dom (ctxs s') = dom (ctxs s)"
    using recorderTs_ok [OF t(2,3)] by fastforce
  then show ?thesis
    using ts' Some rm t(1) by (simp add: getTask_def queue_without_def Let_def t'_def)
qed

lemma find_sorted:
  assumes "sorted_lt lt xs" and "find P xs = Some t" and "u \<in> set xs" and "P u"
    and "\<not> lt t t"
  shows "\<not> lt u t"
proof -
  from find_split [OF assms(2)] obtain as bs where xs: "xs = as @ t # bs"
    and no: "\<forall>u \<in> set as. \<not> P u" by blast
  then have "u = t \<or> u \<in> set bs" using assms(3,4) by auto
  then show ?thesis using assms(1,5) xs by (auto simp: sorted_lt_def sorted_wrt_append)
qed

lemma sorted_lt_remove1: "sorted_lt lt xs \<Longrightarrow> sorted_lt lt (remove1 x xs)"
  by (induction xs) (auto simp: sorted_lt_def dest: notin_set_remove1 [rotated])

lemma queue_without_sorted:
  "sorted_lt task_before (sq q) \<Longrightarrow> sorted_lt task_before (sq (queue_without q f))"
  by (simp add: queue_without_def sorted_lt_remove1 split: option.split)

lemma addTask_sorted:
  "addTask q e = Inr q' \<Longrightarrow> is_scheduled q \<Longrightarrow> sorted_lt task_before (sq q')"
  by (auto simp: addTask_def res_simps Let_def intro: task_order.sorted_std_sort)

lemma addTask_Inr:
  "addTask q e = Inr q' \<Longrightarrow> mset (sq q') = add_mset e (mset (sq q)) \<and> credits q' = credits q \<and>
     is_scheduled q' = is_scheduled q \<and> q_rt q' = q_rt q \<and> q_type q' = q_type q"
  by (auto simp: addTask_def res_simps Let_def)

lemma getTask_loop_step:
  "getTask_loop ready q pre (u # xs) ts = Inr r \<Longrightarrow>
     (\<exists>ts'. r = (Some (u, pre @ xs), ts') \<and> (is_scheduled q \<longrightarrow> ucast (te_len u) \<le> credits q)) \<or>
     (\<exists>ts1. getTask_loop ready q (pre @ [u]) xs ts1 = Inr r)"
  by (auto simp: getTask_loop.simps(2) not_less split: if_splits option.splits prod.splits)

lemma getTask_loop_Inr:
  "getTask_loop ready q pre xs ts = Inr (Some (t, rest), ts') \<Longrightarrow>
     \<exists>as bs. xs = as @ t # bs \<and> rest = pre @ as @ bs \<and>
       (is_scheduled q \<longrightarrow> ucast (te_len t) \<le> credits q)"
proof (induction xs arbitrary: pre ts)
  case (Cons u xs)
  from getTask_loop_step [OF Cons.prems] show ?case
  proof (elim disjE exE conjE)
    fix ts1 assume "getTask_loop ready q (pre @ [u]) xs ts1 = Inr (Some (t, rest), ts')"
    from Cons.IH [OF this] obtain as bs where "xs = as @ t # bs" "rest = (pre @ [u]) @ as @ bs"
      "is_scheduled q \<longrightarrow> ucast (te_len t) \<le> credits q" by blast
    then show ?thesis by (intro exI [of _ "u # as"] exI [of _ bs]) simp
  qed (intro exI [of _ "[]"] exI [of _ xs], simp)
qed simp

lemma getTask_Inr:
  assumes "getTask ready now q s = Inr (ot, q', s')"
  shows "is_scheduled q' = is_scheduled q \<and> q_rt q' = q_rt q \<and> q_type q' = q_type q \<and>
    (case ot of None \<Rightarrow> q' = q
     | Some t' \<Rightarrow> \<exists>t. t' = t\<lparr>te_ready_event := None\<rparr> \<and> mset (sq q) = add_mset t (mset (sq q')) \<and>
         (if is_scheduled q
          then ucast (te_len t) \<le> credits q \<and> credits q' = credits q - ucast (te_len t)
          else credits q' = credits q))"
proof -
  obtain found ts where l: "getTask_loop ready q [] (sq q) (rts s) = Inr (found, ts)"
    using assms by (auto simp: getTask_def res_simps)
  show ?thesis
  proof (cases found)
    case None
    then show ?thesis using assms l by (auto simp: getTask_def)
  next
    case (Some p)
    obtain t rest where p: "p = (t, rest)" by (cases p)
    from getTask_loop_Inr [OF l [unfolded Some p]] obtain as bs where
      "sq q = as @ t # bs" "rest = as @ bs" "is_scheduled q \<longrightarrow> ucast (te_len t) \<le> credits q"
      by auto
    then show ?thesis using assms l Some p by (auto simp: getTask_def Let_def res_simps)
  qed
qed

lemma reportFinish_same [simp]:
  "sq (reportFinish q l) = sq q" "is_scheduled (reportFinish q l) = is_scheduled q"
  "q_rt (reportFinish q l) = q_rt q" "q_type (reportFinish q l) = q_type q"
  by (simp_all add: reportFinish_def)

subsection \<open>The credit of a scheduled queue\<close>

text \<open>
  The life of one queue, in any interleaving of the threads that use it: tasks are added, taken,
  and later reported finished by the loop that took them; signals and the other queues change the
  ready tables and the contexts at any time. The state is the queue and the lengths of the tasks
  in flight; \<open>M\<close> is the length of the longest task that is added.
\<close>

inductive queue_run :: "nat \<Rightarrow> sched_queue \<Rightarrow> sched_queue \<Rightarrow> u32 list \<Rightarrow> bool" for M q0 where
  start: "queue_run M q0 q0 []"
| add: "queue_run M q0 q fl \<Longrightarrow> unat (te_len e) \<le> M \<Longrightarrow> addTask q e = Inr q' \<Longrightarrow>
      queue_run M q0 q' fl"
| take: "queue_run M q0 q fl \<Longrightarrow> getTask ready now q (s :: shared) = Inr (Some t, q', s') \<Longrightarrow>
      queue_run M q0 q' (te_len t # fl)"
| finish: "queue_run M q0 q (as @ l # bs) \<Longrightarrow> queue_run M q0 (reportFinish q l) (as @ bs)"

lemma reportFinish_credit:
  assumes "unat l < 2 ^ 31"
  shows "credits (reportFinish q l) =
    (if is_scheduled q then credits q + ucast l else credits q)"
  using sint_u32_small [OF assms] by (simp add: reportFinish_def)

text \<open>A longer task is reported as a negative number.\<close>

lemma reportFinish_long:
  assumes "is_scheduled q" and "2 ^ 31 \<le> unat l"
  shows "credits (reportFinish q l) = credits q + ucast l - 2 ^ 32"
proof -
  have u: "uint l = sint l mod 2 ^ 32" by (simp add: uint_sint take_bit_eq_mod)
  have "2 ^ 31 \<le> uint l" using assms(2) by (metis int_unat_eq of_nat_le_iff of_nat_numeral of_nat_power)
  then have "sint l < 0" using u sint_lt [of l] by (cases "sint l < 0") simp_all
  then have "sint l = int (unat l) - 2 ^ 32"
    using u sint_ge [of l] mod_add_self2 [of "sint l" "2 ^ 32"] mod_pos_pos_trivial [of "sint l + 2 ^ 32" "2 ^ 32"] by simp
  then show ?thesis using assms(1) by (simp add: reportFinish_def)
qed

lemma queue_run_credit:
  assumes "queue_run M q0 q fl" and "M < 2 ^ 31" and "sq q0 = []" and "is_scheduled q0"
  shows "is_scheduled q \<and> (\<forall>t \<in> set (sq q). unat (te_len t) < 2 ^ 31) \<and>
    (\<forall>l \<in> set fl. unat l < 2 ^ 31) \<and> unat (credits q) + sum_list (map unat fl) = unat (credits q0)"
  using assms
proof (induction rule: queue_run.induct)
  case (add q fl e q')
  then have "set_mset (mset (sq q')) = insert e (set (sq q))"
    using addTask_Inr [of q e q'] by simp
  then have "set (sq q') = insert e (set (sq q))" by simp
  then show ?case using add addTask_Inr [of q e q'] by simp
next
  case (take q fl ready now s t q' s')
  then obtain t0 where t: "t = t0\<lparr>te_ready_event := None\<rparr>" "mset (sq q) = add_mset t0 (mset (sq q'))"
    "ucast (te_len t0) \<le> credits q" "credits q' = credits q - ucast (te_len t0)" "is_scheduled q'"
    using getTask_Inr [OF take.hyps(2)] by auto
  then have "set (sq q) = insert t0 (set (sq q'))" by (metis set_mset_add_mset_insert set_mset_mset)
  moreover have "unat (credits q') = unat (credits q) - unat (te_len t0)"
    "unat (te_len t0) \<le> unat (credits q)"
    using t by (auto simp: unat_sub word_le_nat_alt)
  ultimately show ?case using take t by simp
next
  case (finish q as l bs)
  then have l: "unat l < 2 ^ 31" and c: "unat (credits q) + unat l + sum_list (map unat (as @ bs)) =
      unat (credits q0)" by auto
  have "unat (credits q) + unat (ucast l :: u64) < 2 ^ 64"
    using c unat_u64_less [of "credits q0"] by simp
  from unat_u64_plus [OF this]
  have "unat (credits q + ucast l) = unat (credits q) + unat l" by simp
  then show ?case using finish l c reportFinish_credit [OF l, of q] by auto
qed simp

text \<open>A small queue for the examples: tasks with the given key, priority and length, of one tensor.\<close>

definition demo_task :: "u64 \<Rightarrow> int \<Rightarrow> u32 \<Rightarrow> tte" where
  "demo_task k p l = \<lparr>te_name = ''t'', te_key = k, te_context = ''t'', te_tensor = None,
     te_output = None, te_priority = p, te_version = 0, te_root_rank = 0, te_ready_event = None,
     te_device = 0, te_callback = 0, te_cpubuff = None, te_gpu_ptr = None, te_pcie_cpubuff = [],
     te_queue_list = [REDUCE], te_offset = 0, te_len = l, te_counter = None, te_total_partnum = 1,
     te_compressor = None, te_compressed = None\<rparr>"

definition demo_context :: bps_context where
  "demo_context = \<lparr>initialized = True, ctx_name = ''t'', declared_key = 0, key_list = [],
     ctx_cpubuff = None, ctx_gpu_ptr = None, ctx_pcie_cpubuff = [], buff_len = 0, comm_time = [],
     profile_flag = False, step_cnt = 0, ctx_local_rank = 0, part_comm_time = Map.empty,
     compressor_list = [], ctx_kwargs = []\<rparr>"

definition demo_queue :: "tte list \<Rightarrow> sched_queue" where
  "demo_queue ts = \<lparr>sq = ts, credits = 100, is_scheduled = True, q_type = REDUCE,
     q_rt = Some RT_REDUCE\<rparr>"

definition demo_shared :: shared where
  "demo_shared = \<lparr>rts = [RT_REDUCE \<mapsto> \<lparr>rt_table = [2 \<mapsto> 1, 3 \<mapsto> 1], rt_ready_count = 1,
     rt_name = ''NCCL''\<rparr>], ctxs = [''t'' \<mapsto> demo_context]\<rparr>"

lemmas demo_defs = demo_task_def demo_context_def demo_queue_def demo_shared_def

subsection \<open>Properties\<close>

text \<open>
  C1. \<open>getTask\<close> never aborts on a queue whose tasks are named, belong to a context
  and have an operation left; it delivers the first task in queue order whose event fired, whose
  bytes fit the credit and whose key is ready (with the event dropped), nothing if there is none;
  it removes exactly that task, debits its bytes from a scheduled queue, resets that key's ready
  count to zero and changes no other count.
\<close>

theorem getTask_first_eligible:
  assumes "tables_ok q (rts s)" and "tasks_ok q s"
  shows "\<exists>s'. getTask ready now q s =
      Inr (map_option (\<lambda>t. t\<lparr>te_ready_event := None\<rparr>) (find (eligible ready q (rts s)) (sq q)),
           queue_without q (find (eligible ready q (rts s)) (sq q)), s') \<and>
     dom (ctxs s') = dom (ctxs s) \<and>
     counts_of (rts s') = (case find (eligible ready q (rts s)) (sq q) of
         None \<Rightarrow> counts_of (rts s) | Some t \<Rightarrow> taken_counts q (te_key t) (rts s))"
  using assms by (rule getTask_eq)

theorem getTask_first_eligible_witness:
  "\<exists>s'. getTask (\<lambda>_. True) 0 (demo_queue [demo_task 1 7 10, demo_task 2 8 20]) demo_shared =
     Inr (Some (demo_task 2 8 20), demo_queue [demo_task 1 7 10]\<lparr>credits := 80\<rparr>, s')"
proof -
  let ?q = "demo_queue [demo_task 1 7 10, demo_task 2 8 20]"
  have t: "tables_ok ?q (rts demo_shared)" "tasks_ok ?q demo_shared"
    by (simp_all add: demo_defs tables_ok_def tasks_ok_def counts_of_def)
  have f: "find (eligible (\<lambda>_. True) ?q (rts demo_shared)) (sq ?q) = Some (demo_task 2 8 20)"
    by (simp add: demo_defs eligible_def counts_of_def rt_val_def)
  show ?thesis
    using getTask_first_eligible [OF t, of "\<lambda>_. True" 0]
    unfolding f by (auto simp: demo_defs queue_without_def)
qed

text \<open>
  In a scheduled queue, whose tasks are kept sorted, no eligible task that should go first (a
  higher priority, or the same priority and a smaller key) stays behind the delivered one, and the
  rest of the queue stays sorted.
\<close>

theorem getTask_scheduled_order:
  assumes "sorted_lt task_before (sq q)" and "tables_ok q (rts s)" and "tasks_ok q s"
    and "getTask ready now q s = Inr (Some t, q', s')"
    and "u \<in> set (sq q)" and "eligible ready q (rts s) u"
  shows "\<not> task_before u t \<and> sorted_lt task_before (sq q')"
proof -
  obtain t0 where f: "find (eligible ready q (rts s)) (sq q) = Some t0"
    and t: "t = t0\<lparr>te_ready_event := None\<rparr>" "q' = queue_without q (Some t0)"
    using getTask_eq [OF assms(2,3), of ready now] assms(4)
    by (auto simp: map_option_case split: option.splits)
  have "\<not> task_before u t0"
    by (rule find_sorted [OF assms(1) f assms(5,6)]) simp
  then show ?thesis using t queue_without_sorted [OF assms(1)]
    by (auto simp: task_before_def split: if_splits)
qed


theorem getTask_scheduled_order_witness:
  "\<not> task_before (demo_task 3 8 20) (demo_task 2 8 20)"
proof -
  let ?q = "demo_queue [demo_task 1 9 10, demo_task 2 8 20, demo_task 3 8 20]"
  have t: "tables_ok ?q (rts demo_shared)" "tasks_ok ?q demo_shared"
    by (simp_all add: demo_defs tables_ok_def tasks_ok_def counts_of_def)
  have so: "sorted_lt task_before (sq ?q)"
    by (simp add: demo_defs sorted_lt_def task_before_def)
  have g: "getTask (\<lambda>_. True) 0 ?q demo_shared =
     Inr (Some (demo_task 2 8 20), demo_queue [demo_task 1 9 10, demo_task 3 8 20]\<lparr>credits := 80\<rparr>,
          snd (snd (projr (getTask (\<lambda>_. True) 0 ?q demo_shared))))"
    by (simp add: getTask_def getTask_loop.simps(2) demo_defs recorderTs_def IsKeyReady_def Let_def)
  show ?thesis
    using getTask_scheduled_order [OF so t g, of "demo_task 3 8 20"]
    by (simp add: demo_defs eligible_def counts_of_def rt_val_def)
qed

text \<open>
  C18. Credit conservation: in every interleaving of additions, deliveries and completion reports
  of a scheduled queue to which only tasks shorter than \<open>2 ^ 31\<close> bytes are added, the
  remaining credit and the bytes of the tasks in flight add up to the initial credit, without any
  wrap-around of the unsigned counters. The bound is needed: \<open>reportFinish\<close> takes the
  length as an \<open>int\<close>, and a longer task would take \<open>2 ^ 32\<close> bytes of
  credit with it (\<open>reportFinish_long\<close>).
\<close>

theorem credit_conserved:
  assumes "queue_run M q0 q fl" and "M < 2 ^ 31" and "sq q0 = []" and "is_scheduled q0"
  shows "unat (credits q) + sum_list (map unat fl) = unat (credits q0)"
  using queue_run_credit [OF assms] by simp

theorem credit_conserved_witness:
  "unat (credits (reportFinish (demo_queue []\<lparr>credits := 80\<rparr>) 20)) = 100"
proof -
  have g: "getTask (\<lambda>_. True) 0 (demo_queue [demo_task 2 8 20]) demo_shared =
     Inr (Some (demo_task 2 8 20), demo_queue []\<lparr>credits := 80\<rparr>,
          snd (snd (projr (getTask (\<lambda>_. True) 0 (demo_queue [demo_task 2 8 20]) demo_shared))))"
    by (simp add: getTask_def getTask_loop.simps(2) demo_defs recorderTs_def IsKeyReady_def Let_def)
  have a: "addTask (demo_queue []) (demo_task 2 8 20) = Inr (demo_queue [demo_task 2 8 20])"
    by (simp add: addTask_def demo_defs std_sort_def)
  have "queue_run 20 (demo_queue []) (demo_queue [demo_task 2 8 20]) []"
    by (rule queue_run.add [OF queue_run.start _ a]) (simp add: demo_defs)
  from queue_run.take [OF this g]
  have "queue_run 20 (demo_queue []) (demo_queue []\<lparr>credits := 80\<rparr>) ([] @ 20 # [])"
    by (simp add: demo_defs)
  from queue_run.finish [OF this] show ?thesis
    using credit_conserved [of 20 "demo_queue []" _ "[]"] by (simp add: demo_defs)
qed

text \<open>
  The order of a scheduled queue is a function of its tasks: when no two pending tasks agree
  in both priority and key, any list of the same tasks sorted by the comparator is the one the
  model's \<open>std_sort\<close> leaves in the queue, whatever sorting algorithm the library
  uses.
\<close>

theorem addTask_order_determined:
  assumes "addTask q e = Inr q'" and "is_scheduled q"
    and "\<And>a b. a \<in> set (e # sq q) \<Longrightarrow> b \<in> set (e # sq q) \<Longrightarrow> a \<noteq> b \<Longrightarrow>
           te_priority a \<noteq> te_priority b \<or> te_key a \<noteq> te_key b"
    and "mset ys = mset (sq q @ [e])" and "sorted_lt task_before ys"
  shows "sq q' = ys"
proof -
  have "sq q' = std_sort task_before (sq q @ [e])"
    using assms(1,2) by (auto simp: addTask_def Let_def res_simps)
  moreover have "std_sort task_before (sq q @ [e]) = ys"
  proof (rule task_order.std_sort_unique)
    fix a b assume "a \<in> set (sq q @ [e])" "b \<in> set (sq q @ [e])" "a \<noteq> b"
    then have "te_priority a \<noteq> te_priority b \<or> te_key a \<noteq> te_key b" using assms(3) by auto
    then show "task_before a b \<or> task_before b a"
      by (auto simp: task_before_def neq_iff)
  qed (use assms in simp_all)
  ultimately show ?thesis by simp
qed

theorem addTask_order_determined_witness:
  "\<exists>q'. addTask (demo_queue [demo_task 1 7 10]) (demo_task 2 8 20) = Inr q' \<and>
     sq q' = [demo_task 2 8 20, demo_task 1 7 10]"
proof -
  obtain q' where q': "addTask (demo_queue [demo_task 1 7 10]) (demo_task 2 8 20) = Inr q'"
    by (simp add: addTask_def demo_defs)
  have "sq q' = [demo_task 2 8 20, demo_task 1 7 10]"
    by (rule addTask_order_determined [OF q'])
      (auto simp: demo_defs sorted_lt_def task_before_def)
  with q' show ?thesis by blast
qed

end
