(* ===== verification/Communicator.thy ===== *)
theory Communicator
  imports Scheduled_Queue
begin

section \<open>The local communicator\<close>

text \<open>
  Models \<open>deep_inc/common/communicator.h\<close> and \<open>communicator.cc\<close>: the ranks of a process, the
  UNIX datagram sockets between the processes of one machine, the signals sent over them and the
  listening thread of the root, which turns signals into ready counts. What the kernel answers to
  \<open>recv\<close>, \<open>sendto\<close>, \<open>socket\<close> and \<open>bind\<close> is an argument of the definitions: a list of outcomes,
  in the order of the calls.
\<close>

subsection \<open>Messages\<close>

datatype byteps_role = LOCAL_ROOT | LOCAL_WORKER

datatype comm_signal = REDUCE_READY | PCIE_REDUCE_READY | BCAST_READY | PUSH_READY | DO_REDUCE
  | DO_BROADCAST | DO_GROUP | DO_COPYH2D

record comm_msg =
  msg_src :: int
  msg_signal :: comm_signal
  msg_key :: u64

subsection \<open>State and construction\<close>

record comm =
  comm_rank :: int
  comm_size :: int
  comm_local_rank :: int
  comm_local_size :: int
  comm_worker_id :: int
  comm_members :: "int list"
  comm_root :: int
  send_path :: string
  recv_path :: string
  send_fd :: int
  recv_fd :: int
  listening :: bool

definition DEFAULT_BASE_SOCKET_PATH_RECV :: string where
  "DEFAULT_BASE_SOCKET_PATH_RECV = ''/tmp/socket_recv_''"

definition DEFAULT_BASE_SOCKET_PATH_SEND :: string where
  "DEFAULT_BASE_SOCKET_PATH_SEND = ''/tmp/socket_send_''"

text \<open>
  The address of a rank's socket: \<open>sun_path\<close> has 108 bytes, of which the code fills 107 at most.
\<close>

definition socket_addr :: "string \<Rightarrow> int \<Rightarrow> string" where
  "socket_addr path rank = take 107 (path @ int_to_string rank)"

text \<open>\<open>initSocket\<close>, with what \<open>socket\<close> and \<open>bind\<close> returned: the descriptor and its address.\<close>

definition initSocket :: "int \<Rightarrow> int \<Rightarrow> int \<Rightarrow> string \<Rightarrow> (int \<times> string) res" where
  "initSocket fd bind_ret rank path =
     check (0 \<le> fd) (CheckFailed ''recv socket create failed'')
       (check (0 \<le> bind_ret) (CheckFailed ''bind failed'') (Inr (fd, socket_addr path rank)))"

text \<open>The environment variable must be set; its value goes through \<open>atoi\<close>.\<close>

definition env_required :: "environ \<Rightarrow> string \<Rightarrow> int res" where
  "env_required env name =
     (case env name of None \<Rightarrow> Inl (CheckFailed name) | Some v \<Rightarrow> atoi v)"

definition role_of :: "comm \<Rightarrow> byteps_role" where
  "role_of c = (if comm_local_rank c = comm_root c then LOCAL_ROOT else LOCAL_WORKER)"

text \<open>
  \<open>init\<close>: \<open>os\<close> holds what \<open>socket\<close> and \<open>bind\<close> return for the send and the receive socket. The
  members are the local ranks; \<open>back()\<close> of an empty vector is undefined.
\<close>

definition comm_init :: "environ \<Rightarrow> (int \<times> int) \<times> (int \<times> int) \<Rightarrow> (comm \<times> byteps_role) res" where
  "comm_init env os =
     check (env ''BYTEPS_LOCAL_RANK'' \<noteq> None) (CheckFailed ''BYTEPS_LOCAL_RANK'')
    (check (env ''BYTEPS_LOCAL_SIZE'' \<noteq> None) (CheckFailed ''BYTEPS_LOCAL_SIZE'')
    (check (env ''DMLC_WORKER_ID'' \<noteq> None) (CheckFailed ''DMLC_WORKER_ID'')
    (check (env ''DMLC_NUM_WORKER'' \<noteq> None) (CheckFailed ''DMLC_NUM_WORKER'')
    (rbind (env_required env ''BYTEPS_LOCAL_RANK'') (\<lambda>local_rank.
     rbind (env_required env ''BYTEPS_LOCAL_SIZE'') (\<lambda>local_size.
     rbind (env_required env ''DMLC_WORKER_ID'') (\<lambda>worker_id.
     rbind (env_required env ''DMLC_NUM_WORKER'') (\<lambda>num_worker.
     rbind (i32 (worker_id * local_size)) (\<lambda>base.
     rbind (i32 (local_rank + base)) (\<lambda>rank0.
     rbind (env_int env ''BYTEPS_GLOBAL_RANK'' rank0) (\<lambda>rank.
     rbind (i32 (num_worker * local_size)) (\<lambda>size.
       let members = [0..local_size - 1]
       in check (members \<noteq> []) (Undefined ''back() of an empty vector'')
         (let root = last members;
              base_path = (\<lambda>suffix dflt. case env ''BYTEPS_SOCKET_PATH'' of
                             None \<Rightarrow> dflt | Some p \<Rightarrow> p @ suffix);
              sp = base_path ''/socket_send_'' DEFAULT_BASE_SOCKET_PATH_SEND;
              rp = base_path ''/socket_recv_'' DEFAULT_BASE_SOCKET_PATH_RECV
          in rbind (initSocket (fst (fst os)) (snd (fst os)) local_rank sp) (\<lambda>(sfd, sa).
             rbind (initSocket (fst (snd os)) (snd (snd os)) local_rank rp) (\<lambda>(rfd, ra).
               let c = \<lparr>comm_rank = rank, comm_size = size, comm_local_rank = local_rank,
                        comm_local_size = local_size, comm_worker_id = worker_id,
                        comm_members = members, comm_root = root, send_path = sp, recv_path = rp,
                        send_fd = sfd, recv_fd = rfd, listening = (local_rank = root)\<rparr>
               in Inr (c, role_of c))))))))))))))))"

text \<open>
  The copy constructor, with other members: the ranks are those of the given communicator, the
  paths get a suffix, and the root is the last member.
\<close>

definition BytePSCommSocket ::
    "comm \<Rightarrow> string \<Rightarrow> int list \<Rightarrow> (int \<times> int) \<times> (int \<times> int) \<Rightarrow> comm res" where
  "BytePSCommSocket c suffix members os =
     (let sp = send_path c @ suffix;
          rp = recv_path c @ suffix;
          ms = (if length members > 0 then members else comm_members c)
      in rbind (initSocket (fst (fst os)) (snd (fst os)) (comm_local_rank c) sp) (\<lambda>(sfd, sa).
         rbind (initSocket (fst (snd os)) (snd (snd os)) (comm_local_rank c) rp) (\<lambda>(rfd, ra).
           check (ms \<noteq> []) (Undefined ''back() of an empty vector'')
             (Inr (c\<lparr>send_path := sp, recv_path := rp, send_fd := sfd, recv_fd := rfd,
                    comm_members := ms, comm_root := last ms,
                    listening := (comm_local_rank c = last ms)\<rparr>)))))"

text \<open>
  The destructor: the root joins its listening thread, both descriptors are closed and the two
  socket files removed.
\<close>

datatype comm_cleanup = JoinListenThread | CloseFd int | RemoveFile string

definition comm_destroy :: "comm \<Rightarrow> comm_cleanup list" where
  "comm_destroy c =
     (if comm_root c = comm_local_rank c \<and> listening c then [JoinListenThread] else []) @
     [CloseFd (send_fd c), CloseFd (recv_fd c),
      RemoveFile (send_path c @ int_to_string (comm_local_rank c)),
      RemoveFile (recv_path c @ int_to_string (comm_local_rank c))]"

subsection \<open>Sending\<close>

text \<open>
  \<open>sendSignal\<close> retries until \<open>sendto\<close> succeeds: \<open>rets\<close> are the successive return values, and a
  list that ends before a success is a call that has not returned yet. The datagram goes to the
  address of the destination's receive socket.
\<close>

fun send_loop :: "int list \<Rightarrow> int option" where
  "send_loop [] = None"
| "send_loop (r # rs) = (if r < 0 then send_loop rs else Some r)"

definition sendSignal :: "comm \<Rightarrow> int \<Rightarrow> 'm \<Rightarrow> int list \<Rightarrow> (int \<times> (string \<times> 'm)) option" where
  "sendSignal c dest m rets =
     map_option (\<lambda>r. (r, (socket_addr (recv_path c) dest, m))) (send_loop rets)"

definition sendSignalToRoot :: "comm \<Rightarrow> 'm \<Rightarrow> int list \<Rightarrow> (int \<times> (string \<times> 'm)) option" where
  "sendSignalToRoot c m rets = sendSignal c (comm_root c) m rets"

text \<open>\<open>broadcastSignal\<close>: one datagram per member other than the sender, in the members' order.\<close>

fun broadcast_loop :: "comm \<Rightarrow> 'm \<Rightarrow> int list \<Rightarrow> int list list \<Rightarrow> (string \<times> 'm) list option" where
  "broadcast_loop c m [] rets = Some []"
| "broadcast_loop c m (i # is) rets =
     (if i = comm_local_rank c then broadcast_loop c m is rets
      else (case rets of
              [] \<Rightarrow> None
            | r # rs \<Rightarrow>
                (case sendSignal c i m r of
                   None \<Rightarrow> None
                 | Some (rc, d) \<Rightarrow> map_option (\<lambda>ds. d # ds) (broadcast_loop c m is rs))))"

definition broadcastSignal :: "comm \<Rightarrow> 'm \<Rightarrow> int list list \<Rightarrow> (int \<times> (string \<times> 'm) list) option" where
  "broadcastSignal c m rets = map_option (\<lambda>ds. (0, ds)) (broadcast_loop c m (comm_members c) rets)"

subsection \<open>Receiving\<close>

text \<open>
  What \<open>recv\<close> did, and the value of \<open>ShouldShutdown\<close> when it is asked after that call: a
  datagram of \<open>rc\<close> bytes, \<open>EINTR\<close>, a timeout (\<open>EAGAIN\<close>) or another error.
\<close>

datatype recv_outcome = Received int comm_msg | Interrupted | TimedOut | RecvFailed

text \<open>
  \<open>recvSignal\<close> gives the return code and the message, whose source is then known, or no message
  when the process is shutting down. \<open>Inr None\<close> is a call that is still waiting.
\<close>

fun recvSignal :: "(recv_outcome \<times> bool) list \<Rightarrow> int \<Rightarrow> (int \<times> comm_msg option) option res" where
  "recvSignal [] max_len = Inr None"
| "recvSignal ((Interrupted, sd) # es) max_len = recvSignal es max_len"
| "recvSignal ((TimedOut, sd) # es) max_len =
     (if sd then Inr (Some (-1, None)) else recvSignal es max_len)"
| "recvSignal ((RecvFailed, sd) # es) max_len = Inl (CheckFailed ''recv'')"
| "recvSignal ((Received rc m, sd) # es) max_len =
     check (0 \<le> rc) (CheckFailed ''recv'')
       (check (rc \<le> max_len) (CheckFailed ''recv_len'')
         (if sd then Inr (Some (rc, None)) else Inr (Some (rc, Some m))))"

definition recvSignalFromRoot ::
    "comm \<Rightarrow> (recv_outcome \<times> bool) list \<Rightarrow> int \<Rightarrow> (int \<times> comm_msg option) option res" where
  "recvSignalFromRoot c es max_len =
     rbind (recvSignal es max_len) (\<lambda>r.
       case r of
         Some (rc, Some m) \<Rightarrow>
           check (msg_src m = comm_root c)
             (CheckFailed ''Non-root received signal from another non-root'') (Inr r)
       | _ \<Rightarrow> Inr r)"

text \<open>The root's dispatch of one message to the ready tables.\<close>

fun signal_table :: "comm_signal \<Rightarrow> rt_id option" where
  "signal_table REDUCE_READY = Some RT_REDUCE"
| "signal_table PCIE_REDUCE_READY = Some RT_PCIE_REDUCE"
| "signal_table BCAST_READY = Some RT_BROADCAST"
| "signal_table PUSH_READY = Some RT_PUSH"
| "signal_table _ = None"

definition dispatch :: "comm_msg \<Rightarrow> (rt_id \<rightharpoonup> ready_table) \<Rightarrow> (rt_id \<rightharpoonup> ready_table) res" where
  "dispatch m ts =
     (case signal_table (msg_signal m) of
        None \<Rightarrow> Inl (CheckFailed ''unsupported signal'')
      | Some r \<Rightarrow>
          (case ts r of
             None \<Rightarrow> Inl (Undefined ''null ready table'')
           | Some rt \<Rightarrow> rbind (AddReadyCount rt (msg_key m)) (\<lambda>(v, rt'). Inr (ts(r \<mapsto> rt')))))"

text \<open>
  \<open>startListenThread\<close>: the flag of the result says whether the thread has left its loop.
\<close>

fun startListenThread ::
    "(recv_outcome \<times> bool) list \<Rightarrow> (rt_id \<rightharpoonup> ready_table) \<Rightarrow> (bool \<times> (rt_id \<rightharpoonup> ready_table)) res" where
  "startListenThread [] ts = Inr (False, ts)"
| "startListenThread ((Interrupted, sd) # es) ts = startListenThread es ts"
| "startListenThread ((TimedOut, sd) # es) ts =
     (if sd then Inr (True, ts) else startListenThread es ts)"
| "startListenThread ((RecvFailed, sd) # es) ts = Inl (CheckFailed ''recv'')"
| "startListenThread ((Received rc m, sd) # es) ts =
     check (0 \<le> rc) (CheckFailed ''recv'')
       (if sd then Inr (True, ts) else rbind (dispatch m ts) (startListenThread es))"

subsection \<open>Lemmas\<close>

lemma initSocket_Inr: "initSocket fd b rank path = Inr (f, a) \<Longrightarrow> f = fd \<and> a = socket_addr path rank"
  by (simp add: initSocket_def res_simps)

lemma comm_init_Inr:
  assumes "comm_init env os = Inr (c, role)"
  shows "0 < comm_local_size c \<and> comm_members c = [0..comm_local_size c - 1] \<and>
    comm_root c = comm_local_size c - 1 \<and> role = role_of c \<and>
    listening c = (comm_local_rank c = comm_root c) \<and>
    env_required env ''BYTEPS_LOCAL_RANK'' = Inr (comm_local_rank c) \<and>
    env_required env ''DMLC_WORKER_ID'' = Inr (comm_worker_id c) \<and>
    (\<exists>n. env_required env ''DMLC_NUM_WORKER'' = Inr n \<and> comm_size c = n * comm_local_size c) \<and>
    (env ''BYTEPS_GLOBAL_RANK'' = None \<longrightarrow>
       comm_rank c = comm_local_rank c + comm_worker_id c * comm_local_size c)"
proof -
  have last: "last [0..n - 1] = n - 1" if "0 < n" for n :: int
    using that by (simp add: upto_rec2)
  show ?thesis
    using assms last unfolding comm_init_def Let_def
    by (auto simp: res_simps env_int_def split: option.splits)
qed

lemma sendSignal_addr:
  "sendSignal c dest m rets = Some (r, a, d) \<Longrightarrow> a = socket_addr (recv_path c) dest \<and> d = m"
  by (auto simp: sendSignal_def)

lemma broadcast_loop_dests:
  "broadcast_loop c m ms rets = Some ds \<Longrightarrow>
     ds = map (\<lambda>i. (socket_addr (recv_path c) i, m)) (filter (\<lambda>i. i \<noteq> comm_local_rank c) ms)"
proof (induction ms arbitrary: rets ds)
  case (Cons i ms)
  show ?case
  proof (cases "i = comm_local_rank c")
    case False
    with Cons.prems obtain r rs rc d ds' where "rets = r # rs" "sendSignal c i m r = Some (rc, d)"
      "broadcast_loop c m ms rs = Some ds'" "ds = d # ds'"
      by (auto split: list.splits option.splits)
    then show ?thesis using Cons.IH sendSignal_addr [of c i m r rc] False by (cases d) auto
  qed (use Cons in simp)
qed simp

lemma socket_addr_inj:
  assumes "length (path @ int_to_string i) \<le> 107" "length (path @ int_to_string j) \<le> 107"
  shows "socket_addr path i = socket_addr path j \<longleftrightarrow> i = j"
  using assms by (auto simp: socket_addr_def int_to_string_inj)

lemma dispatch_Inr:
  assumes "dispatch m ts = Inr ts'"
  shows "\<exists>r rt rt'. signal_table (msg_signal m) = Some r \<and> ts r = Some rt \<and> ts' = ts(r \<mapsto> rt') \<and>
    rt_val rt' = (rt_val rt)(msg_key m := rt_val rt (msg_key m) + 1) \<and>
    rt_ready_count rt' = rt_ready_count rt"
  using assms by (auto simp: dispatch_def res_simps split: option.splits dest!: AddReadyCount_Inr)

text \<open>The messages a listening thread acts on: those received before the shutdown was seen.\<close>

fun heard :: "(recv_outcome \<times> bool) list \<Rightarrow> comm_msg list" where
  "heard [] = []"
| "heard ((Interrupted, sd) # es) = heard es"
| "heard ((TimedOut, sd) # es) = (if sd then [] else heard es)"
| "heard ((RecvFailed, sd) # es) = []"
| "heard ((Received rc m, sd) # es) = (if sd then [] else m # heard es)"

text \<open>How many of some messages signal key \<open>k\<close> to table \<open>r\<close>.\<close>

definition signals_to :: "comm_msg list \<Rightarrow> rt_id \<Rightarrow> u64 \<Rightarrow> nat" where
  "signals_to ms r k = length (filter (\<lambda>m. signal_table (msg_signal m) = Some r \<and> msg_key m = k) ms)"

lemma startListenThread_counts:
  "startListenThread es ts = Inr (fin, ts') \<Longrightarrow> ts r = Some rt \<Longrightarrow>
     \<exists>rt'. ts' r = Some rt' \<and> rt_ready_count rt' = rt_ready_count rt \<and>
       rt_val rt' k = rt_val rt k + int (signals_to (heard es) r k)"
proof (induction es ts arbitrary: rt rule: startListenThread.induct)
  case (5 rc m sd es ts)
  show ?case
  proof (cases sd)
    case True then show ?thesis using 5 by (auto simp: res_simps signals_to_def)
  next
    case False
    with 5 obtain ts1 where d: "dispatch m ts = Inr ts1" "startListenThread es ts1 = Inr (fin, ts')"
      and rc: "0 \<le> rc" by (auto simp: res_simps)
    from dispatch_Inr [OF d(1)] 5(3) obtain rt1 where
      rt1: "ts1 r = Some rt1" "rt_ready_count rt1 = rt_ready_count rt"
      "rt_val rt1 k = rt_val rt k +
         (if signal_table (msg_signal m) = Some r \<and> msg_key m = k then 1 else 0)"
      by (cases "signal_table (msg_signal m) = Some r") auto
    from 5(1) [OF False d(2) rt1(1)] rt1(2,3) False show ?thesis
      by (auto simp: signals_to_def)
  qed
qed (auto simp: signals_to_def split: if_splits)

subsection \<open>Properties\<close>

text \<open>
  The processes of a job number themselves without conflict: with the same local size, local
  ranks in range and no override of the global rank, two processes have the same global rank only
  if they are the same local rank of the same worker, and each rank is below the job's size when
  its worker is one of the job's.
\<close>

theorem global_ranks_distinct:
  assumes "comm_init env os = Inr (c, role)" and "comm_init env' os' = Inr (c', role')"
    and "env ''BYTEPS_GLOBAL_RANK'' = None" and "env' ''BYTEPS_GLOBAL_RANK'' = None"
    and "comm_local_size c' = comm_local_size c"
    and "0 \<le> comm_local_rank c" and "comm_local_rank c < comm_local_size c"
    and "0 \<le> comm_local_rank c'" and "comm_local_rank c' < comm_local_size c"
    and "env_required env ''DMLC_NUM_WORKER'' = Inr n" and "comm_worker_id c < n"
  shows "(comm_rank c = comm_rank c' \<longleftrightarrow>
      comm_local_rank c = comm_local_rank c' \<and> comm_worker_id c = comm_worker_id c') \<and>
    comm_rank c < comm_size c"
proof -
  let ?L = "comm_local_size c"
  note i = comm_init_Inr [OF assms(1)] and i' = comm_init_Inr [OF assms(2)]
  have r: "comm_rank c = comm_local_rank c + comm_worker_id c * ?L"
    "comm_rank c' = comm_local_rank c' + comm_worker_id c' * ?L"
    using i i' assms(3-5) by auto
  have m: "comm_rank c mod ?L = comm_local_rank c" "comm_rank c' mod ?L = comm_local_rank c'"
    using assms(6-9) r by auto
  have "comm_rank c = comm_rank c' \<Longrightarrow> comm_worker_id c = comm_worker_id c'"
    using r m i by auto
  moreover have "comm_rank c < comm_size c"
  proof -
    have "(comm_worker_id c + 1) * ?L \<le> n * ?L"
      using assms(11) i by (intro mult_right_mono) auto
    then show ?thesis using r assms(7,10) i by (auto simp: distrib_right)
  qed
  ultimately show ?thesis using r m by auto
qed

text \<open>A job of two workers with two local devices.\<close>

definition demo_environ :: "string \<Rightarrow> string \<Rightarrow> environ" where
  "demo_environ rank worker = [''BYTEPS_LOCAL_RANK'' \<mapsto> rank, ''BYTEPS_LOCAL_SIZE'' \<mapsto> ''2'',
     ''DMLC_WORKER_ID'' \<mapsto> worker, ''DMLC_NUM_WORKER'' \<mapsto> ''2'']"

definition demo_comm :: "int \<Rightarrow> int \<Rightarrow> comm" where
  "demo_comm lr w = \<lparr>comm_rank = lr + 2 * w, comm_size = 4, comm_local_rank = lr,
     comm_local_size = 2, comm_worker_id = w, comm_members = [0, 1], comm_root = 1,
     send_path = ''/tmp/socket_send_'', recv_path = ''/tmp/socket_recv_'', send_fd = 3, recv_fd = 4,
     listening = (lr = 1)\<rparr>"

lemmas comm_eval = comm_init_def demo_environ_def env_required_def env_int_def atoi_def i32_def
  digits_value_def is_digit_def is_space_def initSocket_def role_of_def demo_comm_def Let_def
  DEFAULT_BASE_SOCKET_PATH_SEND_def DEFAULT_BASE_SOCKET_PATH_RECV_def

lemma demo_comm_init:
  "comm_init (demo_environ ''1'' ''0'') ((3, 0), (4, 0)) = Inr (demo_comm 1 0, LOCAL_ROOT)"
  "comm_init (demo_environ ''0'' ''1'') ((3, 0), (4, 0)) = Inr (demo_comm 0 1, LOCAL_WORKER)"
  by (simp_all add: comm_eval upto_rec1)

theorem global_ranks_distinct_witness:
  "comm_rank (demo_comm 1 0) \<noteq> comm_rank (demo_comm 0 1)"
  using global_ranks_distinct [OF demo_comm_init(1) demo_comm_init(2), of 2]
  by (simp add: demo_environ_def env_required_def atoi_def i32_def digits_value_def is_digit_def
      is_space_def) (simp add: demo_comm_def)

text \<open>
  A broadcast that returns has sent the message to the receive socket of every member but the
  sender, once each and in the members' order, to addresses that are pairwise distinct as long as
  the paths fit into a socket address.
\<close>

theorem broadcast_reaches_members:
  assumes "broadcastSignal c m rets = Some (rc, ds)"
    and "\<And>i. i \<in> set (comm_members c) \<Longrightarrow> length (recv_path c @ int_to_string i) \<le> 107"
    and "distinct (comm_members c)"
  shows "ds = map (\<lambda>i. (socket_addr (recv_path c) i, m))
      (filter (\<lambda>i. i \<noteq> comm_local_rank c) (comm_members c)) \<and> distinct (map fst ds)"
proof -
  have ds: "ds = map (\<lambda>i. (socket_addr (recv_path c) i, m))
      (filter (\<lambda>i. i \<noteq> comm_local_rank c) (comm_members c))"
    using assms(1) by (auto simp: broadcastSignal_def dest!: broadcast_loop_dests)
  have "inj_on (socket_addr (recv_path c)) (set (comm_members c))"
    using assms(2) by (intro inj_onI) (metis socket_addr_inj)
  then have "distinct (map fst ds)"
    using assms(3) by (auto simp: ds distinct_map comp_def intro: inj_on_subset)
  with ds show ?thesis by simp
qed

theorem broadcast_reaches_members_witness:
  "broadcastSignal (demo_comm 1 0) (5 :: nat) [[-1, 16]] = Some (0, [(''/tmp/socket_recv_0'', 5)])"
proof -
  have b: "broadcastSignal (demo_comm 1 0) (5 :: nat) [[-1, 16]] =
      Some (0, [(socket_addr ''/tmp/socket_recv_'' 0, 5)])"
    by (simp add: broadcastSignal_def demo_comm_def sendSignal_def)
  have "[(socket_addr ''/tmp/socket_recv_'' 0, 5 :: nat)] = [(''/tmp/socket_recv_0'', 5)]"
    using broadcast_reaches_members [OF b]
    by (simp add: demo_comm_def socket_addr_def int_to_string_def nat_to_string_digit char_of_def bit_0)
  then show ?thesis using b by simp
qed

text \<open>
  C30. A listening thread that has not aborted has turned every message received before the
  shutdown into exactly one ready count of the message's key in the signal's table; interrupted
  and timed out calls of \<open>recv\<close> change nothing, and no other count moves.
\<close>

theorem listen_counts_signals:
  assumes "startListenThread es ts = Inr (fin, ts')" and "ts r = Some rt"
  shows "\<exists>rt'. ts' r = Some rt' \<and> rt_ready_count rt' = rt_ready_count rt \<and>
    rt_val rt' k = rt_val rt k + int (signals_to (heard es) r k)"
  using startListenThread_counts [OF assms] .

theorem listen_counts_signals_witness:
  "\<exists>ts' rt'. startListenThread
     [(TimedOut, False), (Received 16 \<lparr>msg_src = 0, msg_signal = PUSH_READY, msg_key = 3\<rparr>, False),
      (Interrupted, False)] [RT_PUSH \<mapsto> ReadyTable 1 ''PUSH''] = Inr (False, ts') \<and>
     ts' RT_PUSH = Some rt' \<and> rt_val rt' 3 = 1"
proof -
  let ?es = "[(TimedOut, False), (Received 16 \<lparr>msg_src = 0, msg_signal = PUSH_READY, msg_key = 3\<rparr>, False),
      (Interrupted, False)]"
  obtain ts' where e: "startListenThread ?es [RT_PUSH \<mapsto> ReadyTable 1 ''PUSH''] = Inr (False, ts')"
    by (simp add: dispatch_def AddReadyCount_def ReadyTable_def Let_def)
  from listen_counts_signals [OF this, of RT_PUSH "ReadyTable 1 ''PUSH''" 3] e show ?thesis
    by (auto simp: signals_to_def)
qed

end
