(* ===== verification/Nccl_Manager.thy ===== *)
theory Nccl_Manager
  imports Communicator
begin

section \<open>The NCCL manager\<close>

text \<open>
  Models \<open>deep_inc/common/nccl_manager.h\<close> and \<open>nccl_manager.cc\<close>: the sizes read from the
  environment, the communicators of a PCIe switch (\<open>NcclManager\<close>) and the rotated rings over all
  local devices (\<open>NcclManagerExpr\<close>), the root and the rank of a key, and the pipeline of groups
  between the thread that launches NCCL calls and the one that waits for them. NCCL and CUDA
  handles are their indices in the manager's arrays. A \<open>size_t\<close> is a \<open>nat\<close>: the sizes enter as
  an \<open>int\<close>, whose conversion wraps modulo \<open>2 ^ 64\<close>, and every later product is at most the local
  size.
\<close>

subsection \<open>Groups and the pipeline\<close>

record nccl_group =
  g_tasks :: "tte list"
  g_queues :: "queue_type list"
  g_events :: "nat list"

definition new_group :: nccl_group where
  "new_group = \<lparr>g_tasks = [], g_queues = [], g_events = []\<rparr>"

text \<open>
  One event per task, recorded on the stream of the task's key and of its queue's type; an event
  is known by that stream.
\<close>

fun record_loop :: "(u64 \<Rightarrow> queue_type \<Rightarrow> nat res) \<Rightarrow> nccl_group \<Rightarrow> nat list \<Rightarrow> nccl_group res" where
  "record_loop stream g [] = Inr g"
| "record_loop stream g (i # is) =
     rbind (vec_get (g_tasks g) i) (\<lambda>t. rbind (vec_get (g_queues g) i) (\<lambda>q.
     rbind (stream (te_key t) q) (\<lambda>s.
       record_loop stream (g\<lparr>g_events := g_events g @ [s]\<rparr>) is)))"

definition RecordEvents :: "(u64 \<Rightarrow> queue_type \<Rightarrow> nat res) \<Rightarrow> nccl_group \<Rightarrow> nccl_group res" where
  "RecordEvents stream g = record_loop stream g [0..<length (g_tasks g)]"

text \<open>The events waited for, and those destroyed: one per task, in order.\<close>

fun events_loop :: "nat list \<Rightarrow> nat list \<Rightarrow> nat list res" where
  "events_loop es [] = Inr []"
| "events_loop es (i # is) =
     rbind (vec_get es i) (\<lambda>e. rbind (events_loop es is) (\<lambda>r. Inr (e # r)))"

definition SynchronizeEvents :: "nccl_group \<Rightarrow> nat list res" where
  "SynchronizeEvents g = events_loop (g_events g) [0..<length (g_tasks g)]"

definition DestroyEvents :: "nccl_group \<Rightarrow> nat list res" where
  "DestroyEvents g = events_loop (g_events g) [0..<length (g_tasks g)]"

record nccl_manager =
  nm_group_size :: nat
  nm_pcie_size :: nat
  nm_pcie_num :: nat
  nm_num_rings :: nat
  nm_size :: int
  nm_pipeline :: "nccl_group list"
  nm_signal :: comm
  nm_rings :: "int list list"

definition EnqueueGroup :: "nccl_manager \<Rightarrow> nccl_group \<Rightarrow> nccl_manager" where
  "EnqueueGroup nm e = nm\<lparr>nm_pipeline := nm_pipeline nm @ [e]\<rparr>"

definition DequeueGroup :: "nccl_manager \<Rightarrow> nccl_group option \<times> nccl_manager" where
  "DequeueGroup nm =
     (case nm_pipeline nm of
        [] \<Rightarrow> (None, nm)
      | r # rest \<Rightarrow> (Some r, nm\<lparr>nm_pipeline := rest\<rparr>))"

subsection \<open>Sizes\<close>

definition size_t_of :: "int \<Rightarrow> nat" where
  "size_t_of i = nat (i mod 2 ^ 64)"

text \<open>
  \<open>InitGlobalEnv\<close>: a PCIe switch size of zero is a division by zero; a size that does not divide
  the local size, or exceeds it, gives a single switch of all local devices.
\<close>

definition InitGlobalEnv :: "environ \<Rightarrow> int \<Rightarrow> nccl_manager \<Rightarrow> nccl_manager res" where
  "InitGlobalEnv env local_size nm =
     rbind (env_int env ''BYTEPS_NCCL_GROUP_SIZE'' 4) (\<lambda>gs.
     rbind (env_int env ''BYTEPS_PCIE_SWITCH_SIZE'' 8) (\<lambda>ps.
       let psize = size_t_of ps; lsize = size_t_of local_size
       in check (psize \<noteq> 0) (Undefined ''division by zero'')
         (let pnum = lsize div psize;
              whole = (pnum = 0 \<or> lsize mod psize \<noteq> 0)
          in rbind (env_int env ''BYTEPS_NCCL_NUM_RINGS'' 1) (\<lambda>nr.
               Inr (nm\<lparr>nm_group_size := size_t_of gs,
                       nm_pcie_size := (if whole then lsize else psize),
                       nm_pcie_num := (if whole then 1 else pnum),
                       nm_num_rings := size_t_of nr\<rparr>)))))"

subsection \<open>The communicators of a PCIe switch\<close>

text \<open>
  The steps of \<open>ConstructRings\<close> on one ring: the root makes the id and broadcasts it, the others
  receive it (\<open>rc\<close> bytes, which must be the size of an id); then the process joins the
  communicator of the given size under its rank.
\<close>

datatype nccl_init = GetUniqueId nat | BroadcastId nat | RecvId nat | CommInitRank nat int int
  | StreamCreate nat

definition init_ring ::
    "bool \<Rightarrow> (nat \<Rightarrow> int) \<Rightarrow> int \<Rightarrow> int \<Rightarrow> int \<Rightarrow> nat \<Rightarrow> nccl_init list res" where
  "init_ring is_root rc id_size sz rank i =
     (if is_root
      then Inr [GetUniqueId i, BroadcastId i, CommInitRank i sz rank, StreamCreate i]
      else check (rc i = id_size) (CheckFailed ''nccl id'')
             (Inr [RecvId i, CommInitRank i sz rank, StreamCreate i]))"

fun init_rings :: "(nat \<Rightarrow> nccl_init list res) \<Rightarrow> nat list \<Rightarrow> nccl_init list res" where
  "init_rings ring [] = Inr []"
| "init_rings ring (i # is) =
     rbind (ring i) (\<lambda>a. rbind (init_rings ring is) (\<lambda>b. Inr (a @ b)))"

text \<open>
  The peers of a device: the consecutive local ranks of its PCIe switch. \<open>local_rank / size * size\<close>
  is computed in \<open>size_t\<close> and converted back to \<open>int\<close>.
\<close>

definition switch_peers :: "int \<Rightarrow> nat \<Rightarrow> int list" where
  "switch_peers local_rank psize =
     (let first = int (size_t_of local_rank div psize * psize)
      in [first .. first + int psize - 1])"

definition ConstructRings :: "comm \<Rightarrow> (int \<times> int) \<times> (int \<times> int) \<Rightarrow> (nat \<Rightarrow> int) \<Rightarrow> int \<Rightarrow>
    nccl_manager \<Rightarrow> (nccl_manager \<times> nccl_init list) res" where
  "ConstructRings global_comm os rc id_size nm =
     (let lr = comm_local_rank global_comm
      in rbind (BytePSCommSocket global_comm ''nccl'' (switch_peers lr (nm_pcie_size nm)) os) (\<lambda>sc.
         rbind (init_rings
                  (init_ring (lr = comm_root sc) rc id_size (int (nm_pcie_size nm))
                     (int (size_t_of lr mod nm_pcie_size nm)))
                  [0..<nm_num_rings nm])
           (\<lambda>acts. Inr (nm\<lparr>nm_signal := sc, nm_size := int (nm_pcie_size nm)\<rparr>, acts))))"

definition GetComm :: "nccl_manager \<Rightarrow> u64 \<Rightarrow> queue_type \<Rightarrow> nat res" where
  "GetComm nm key op =
     check (nm_num_rings nm \<noteq> 0) (Undefined ''division by zero'') (Inr (unat key mod nm_num_rings nm))"

definition GetStream :: "nccl_manager \<Rightarrow> u64 \<Rightarrow> queue_type \<Rightarrow> nat res" where
  "GetStream nm key op =
     check (nm_num_rings nm \<noteq> 0) (Undefined ''division by zero'') (Inr (unat key mod nm_num_rings nm))"

definition GetRoot :: "nccl_manager \<Rightarrow> u64 \<Rightarrow> queue_type \<Rightarrow> int" where
  "GetRoot nm key op = int (nm_pcie_size nm) - 1"

definition GetRank :: "nccl_manager \<Rightarrow> int \<Rightarrow> u64 \<Rightarrow> queue_type \<Rightarrow> int" where
  "GetRank nm local_rank key op = int (size_t_of local_rank mod nm_pcie_size nm)"

definition IsSignalRoot :: "nccl_manager \<Rightarrow> int \<Rightarrow> bool" where
  "IsSignalRoot nm local_rank \<longleftrightarrow> comm_root (nm_signal nm) = local_rank"

text \<open>The constructor: the members are set in the order of the code.\<close>

definition NcclManager :: "environ \<Rightarrow> comm \<Rightarrow> (int \<times> int) \<times> (int \<times> int) \<Rightarrow> (nat \<Rightarrow> int) \<Rightarrow> int \<Rightarrow>
    (nccl_manager \<times> nccl_init list) res" where
  "NcclManager env c os rc id_size =
     rbind (InitGlobalEnv env (comm_local_size c)
              \<lparr>nm_group_size = 0, nm_pcie_size = 0, nm_pcie_num = 0, nm_num_rings = 0, nm_size = 0,
               nm_pipeline = [], nm_signal = c, nm_rings = []\<rparr>)
       (ConstructRings c os rc id_size)"

subsection \<open>Rings over all local devices\<close>

text \<open>
  \<open>NcclManagerExpr::ConstructRings\<close>: ring \<open>i\<close> visits the switches in order, each rotated by \<open>i\<close>;
  ring \<open>i + pcie_size\<close> is ring \<open>i\<close> backwards, for the broadcasts.
\<close>

definition reduce_ring :: "nat \<Rightarrow> nat \<Rightarrow> nat \<Rightarrow> int list" where
  "reduce_ring S N i = concat (map (\<lambda>j. map (\<lambda>k. int ((k + i) mod S + j * S)) [0..<S]) [0..<N])"

fun reverse_ring :: "int list \<Rightarrow> int \<Rightarrow> int list \<Rightarrow> int list res" where
  "reverse_ring ring L [] = Inr []"
| "reverse_ring ring L (j # js) =
     check (0 \<le> L - j - 1) (Undefined ''vector index'')
       (rbind (vec_get ring (nat (L - j - 1))) (\<lambda>r. rbind (reverse_ring ring L js) (\<lambda>rs. Inr (r # rs))))"

fun broadcast_rings :: "int \<Rightarrow> int list list \<Rightarrow> int list list res" where
  "broadcast_rings L [] = Inr []"
| "broadcast_rings L (r # rs) =
     rbind (reverse_ring r L [0..L - 1]) (\<lambda>b. rbind (broadcast_rings L rs) (\<lambda>bs. Inr (b # bs)))"

definition expr_rings :: "nat \<Rightarrow> nat \<Rightarrow> int \<Rightarrow> int list list res" where
  "expr_rings S N L =
     (let reduce = map (reduce_ring S N) [0..<S]
      in rbind (broadcast_rings L reduce) (\<lambda>bc. Inr (reduce @ bc)))"

text \<open>\<open>std::distance(begin, std::find(begin, end, x))\<close>\<close>

fun find_index :: "int list \<Rightarrow> int \<Rightarrow> nat" where
  "find_index [] x = 0"
| "find_index (y # ys) x = (if y = x then 0 else Suc (find_index ys x))"

definition expr_ConstructRings :: "comm \<Rightarrow> (nat \<Rightarrow> int) \<Rightarrow> int \<Rightarrow> bool \<Rightarrow> nccl_manager \<Rightarrow>
    (nccl_manager \<times> nccl_init list) res" where
  "expr_ConstructRings global_comm rc id_size is_root nm =
     (let L = comm_local_size global_comm; lr = comm_local_rank global_comm; S = nm_pcie_size nm
      in rbind (expr_rings S (nm_pcie_num nm) L) (\<lambda>rings.
         rbind (init_rings
                  (\<lambda>i. rbind (vec_get rings i) (\<lambda>r.
                     init_ring is_root rc id_size L (int (find_index r lr)) i))
                  [0..<S * 2])
           (\<lambda>acts. Inr (nm\<lparr>nm_signal := global_comm, nm_rings := rings\<rparr>, acts))))"

definition expr_index :: "nccl_manager \<Rightarrow> u64 \<Rightarrow> queue_type \<Rightarrow> nat res" where
  "expr_index nm key op =
     check (nm_pcie_size nm \<noteq> 0) (Undefined ''division by zero'')
       (Inr (unat key mod nm_pcie_size nm + (if op = REDUCE then 0 else nm_pcie_size nm)))"

definition expr_GetComm :: "nccl_manager \<Rightarrow> u64 \<Rightarrow> queue_type \<Rightarrow> nat res" where
  "expr_GetComm nm key op = expr_index nm key op"

definition expr_GetStream :: "nccl_manager \<Rightarrow> u64 \<Rightarrow> queue_type \<Rightarrow> nat res" where
  "expr_GetStream nm key op = expr_index nm key op"

definition expr_GetRoot :: "nccl_manager \<Rightarrow> u64 \<Rightarrow> queue_type \<Rightarrow> int res" where
  "expr_GetRoot nm key op =
     (let S = nm_pcie_size nm; N = nm_pcie_num nm
      in check (S * N \<noteq> 0) (Undefined ''division by zero'')
        (let comm_index = unat key mod S; pcie_index = unat key mod (S * N) div S
         in rbind
              (if op = REDUCE
               then rbind (vec_get (nm_rings nm) comm_index) (\<lambda>r. vec_get r ((N - pcie_index) * S - 1))
               else check (op = BROADCAST) (CheckFailed ''Unknown OP for NcclManager.'')
                      (rbind (vec_get (nm_rings nm) (comm_index + S)) (\<lambda>r.
                         vec_get r (pcie_index * S))))
              (\<lambda>root. check (- 1 < root) (CheckFailed ''root'') (Inr root))))"

definition expr_GetRank :: "nccl_manager \<Rightarrow> int \<Rightarrow> u64 \<Rightarrow> queue_type \<Rightarrow> int res" where
  "expr_GetRank nm local_rank key op =
     rbind (expr_index nm key op) (\<lambda>i. rbind (vec_get (nm_rings nm) i) (\<lambda>r.
       Inr (int (find_index r local_rank))))"

subsection \<open>Lemmas\<close>

lemma size_t_of_small: "0 \<le> i \<Longrightarrow> i < 2 ^ 31 \<Longrightarrow> size_t_of i = nat i"
  by (simp add: size_t_of_def)

lemma InitGlobalEnv_sizes:
  assumes "InitGlobalEnv env L nm = Inr nm'" and "0 \<le> L" and "L < 2 ^ 31"
  shows "nm_pcie_size nm' * nm_pcie_num nm' = nat L"
  using assms by (auto simp: InitGlobalEnv_def Let_def res_simps size_t_of_small)

lemma map_rotate_index:
  fixes S i :: nat
  assumes "i < S"
  shows "map (\<lambda>k. (k + i) mod S) [0..<S] = rotate i [0..<S]"
  using assms by (intro nth_equalityI) (auto simp: nth_rotate add.commute)

lemma mset_rotate: "mset (rotate n xs) = mset xs"
proof -
  have "mset (rotate n xs) = mset (take (n mod length xs) xs @ drop (n mod length xs) xs)"
    by (simp only: rotate_drop_take mset_append add.commute)
  then show ?thesis by simp
qed

lemma reduce_ring_blocks:
  assumes "i < S"
  shows "mset (map (\<lambda>k. int ((k + i) mod S + j * S)) [0..<S]) = mset (map int [j * S..<Suc j * S])"
proof -
  have "map (\<lambda>k. int ((k + i) mod S + j * S)) [0..<S] =
      map (\<lambda>k. int (k + j * S)) (map (\<lambda>k. (k + i) mod S) [0..<S])" by simp
  then have "mset (map (\<lambda>k. int ((k + i) mod S + j * S)) [0..<S]) =
      image_mset (\<lambda>k. int (k + j * S)) (mset [0..<S])"
    using assms by (simp only: mset_map map_rotate_index mset_rotate)
  also have "\<dots> = mset (map int (map (\<lambda>k. k + j * S) [0..<S]))"
    by (simp add: image_mset.compositionality comp_def)
  also have "map (\<lambda>k. k + j * S) [0..<S] = [j * S..<Suc j * S]"
    by (intro nth_equalityI) auto
  finally show ?thesis .
qed

lemma mset_reduce_ring:
  assumes "i < S"
  shows "mset (reduce_ring S N i) = mset (map int [0..<N * S])"
proof (induction N)
  case (Suc N)
  have "[0..<Suc N * S] = [0..<N * S] @ [N * S..<Suc N * S]"
    using upt_add_eq_append [of 0 "N * S" S] by (simp add: add.commute)
  then show ?case using Suc reduce_ring_blocks [OF assms, of N] by (simp add: reduce_ring_def)
qed (simp add: reduce_ring_def)

lemma reduce_ring_props:
  assumes "i < S"
  shows "distinct (reduce_ring S N i)" "set (reduce_ring S N i) = int ` {0..<N * S}"
    "length (reduce_ring S N i) = N * S"
proof -
  have "distinct (map int [0..<N * S])" by (simp add: distinct_map)
  then show "distinct (reduce_ring S N i)"
    using mset_reduce_ring [OF assms] by (metis distinct_count_atmost_1 set_mset_mset)
  show "set (reduce_ring S N i) = int ` {0..<N * S}"
    using mset_reduce_ring [OF assms, of N] by (metis set_map set_mset_mset set_upt)
  show "length (reduce_ring S N i) = N * S"
    using mset_reduce_ring [OF assms, of N] by (metis length_map length_upt minus_nat.diff_0 size_mset)
qed

lemma reverse_ring_eq:
  assumes "length ring = n" and "m \<le> n"
  shows "reverse_ring ring (int n) [int m .. int n - 1] = Inr (rev (take (n - m) ring))"
  using assms(2)
proof (induction "n - m" arbitrary: m)
  case 0
  then show ?case by simp
next
  case (Suc d)
  then have m: "m < n" by simp
  then have up: "[int m .. int n - 1] = int m # [int (Suc m) .. int n - 1]"
    by (simp add: upto_rec1 add.commute)
  have IH: "reverse_ring ring (int n) [int (Suc m) .. int n - 1] = Inr (rev (take (n - Suc m) ring))"
    using Suc by (intro Suc.hyps(1)) auto
  have i: "nat (int n - int m - 1) = n - Suc m" using m by linarith
  have "take (n - m) ring = take (n - Suc m) ring @ [ring ! (n - Suc m)]"
    using m assms(1) by (metis Suc_diff_Suc diff_less length_greater_0_conv less_nat_zero_code
        list.size(3) take_Suc_conv_app_nth zero_less_Suc gr_implies_not0 less_imp_diff_less)
  then show ?case using m assms(1) IH by (simp add: up i)
qed

lemma reverse_ring_rev:
  "length ring = n \<Longrightarrow> reverse_ring ring (int n) [0 .. int n - 1] = Inr (rev ring)"
  using reverse_ring_eq [of ring n 0] by simp

lemma broadcast_rings_rev:
  "(\<And>r. r \<in> set rs \<Longrightarrow> length r = n) \<Longrightarrow> broadcast_rings (int n) rs = Inr (map rev rs)"
  by (induction rs) (simp_all add: reverse_ring_rev)

lemma expr_rings_eq:
  "expr_rings S N (int (N * S)) =
     Inr (map (reduce_ring S N) [0..<S] @ map (\<lambda>i. rev (reduce_ring S N i)) [0..<S])"
proof -
  have "broadcast_rings (int (N * S)) (map (reduce_ring S N) [0..<S]) =
      Inr (map rev (map (reduce_ring S N) [0..<S]))"
    by (rule broadcast_rings_rev) (auto simp: reduce_ring_props)
  then show ?thesis by (simp add: expr_rings_def Let_def comp_def del: of_nat_mult)
qed

lemma find_index_less: "find_index xs x < length xs \<longleftrightarrow> x \<in> set xs"
  by (induction xs) auto

lemma find_index_nth: "x \<in> set xs \<Longrightarrow> xs ! find_index xs x = x"
  by (induction xs) auto

lemma reduce_ring_nth:
  assumes "j < N" "k < S"
  shows "reduce_ring S N i ! (j * S + k) = int ((k + i) mod S + j * S)"
  using assms(1)
proof (induction N)
  case (Suc N)
  have app: "reduce_ring S (Suc N) i =
      reduce_ring S N i @ map (\<lambda>k. int ((k + i) mod S + N * S)) [0..<S]"
    by (simp add: reduce_ring_def)
  have len: "length (reduce_ring S N i) = N * S"
    by (induction N) (simp_all add: reduce_ring_def)
  show ?case
  proof (cases "j = N")
    case True
    then show ?thesis using assms(2) by (simp add: app nth_append len)
  next
    case False
    then have j: "j < N" using Suc.prems by simp
    have "j * S + k < Suc j * S" using assms(2) by simp
    also have "\<dots> \<le> N * S" using j by (intro mult_right_mono) auto
    finally show ?thesis using Suc.IH j by (simp add: app nth_append len)
  qed
qed simp

lemma root_index_less:
  fixes S N p :: nat
  assumes "0 < S" "0 < N"
  shows "(N - p) * S - 1 < N * S"
proof -
  have "(N - p) * S \<le> N * S" by (intro mult_right_mono) auto
  moreover have "0 < N * S" using assms by simp
  ultimately show ?thesis by linarith
qed

text \<open>The root of a key in the rotated rings, for both operations.\<close>

lemma expr_root_eq:
  assumes "expr_rings S N (int (N * S)) = Inr (nm_rings nm)"
    and "nm_pcie_size nm = S" "nm_pcie_num nm = N" "0 < S" "0 < N" "op = REDUCE \<or> op = BROADCAST"
  shows "expr_GetRoot nm key op = Inr (reduce_ring S N (unat key mod S) !
     ((N - unat key mod (S * N) div S) * S - 1))"
proof -
  define c where "c = unat key mod S"
  define p where "p = unat key mod (S * N) div S"
  have c: "c < S" using assms(4) by (simp add: c_def)
  have "unat key mod (S * N) < S * N" using assms(4,5) by simp
  then have p: "p < N" by (simp add: p_def less_mult_imp_div_less mult.commute)
  have rings: "nm_rings nm = map (reduce_ring S N) [0..<S] @ map (\<lambda>i. rev (reduce_ring S N i)) [0..<S]"
    using assms(1) expr_rings_eq [of S N] by simp
  have len: "length (reduce_ring S N c) = N * S" using c by (rule reduce_ring_props)
  have i: "(N - p) * S - 1 < N * S" "p * S < N * S"
    using root_index_less [of S N p] p assms(4,5) by auto
  have "(N - p) * S = N * S - p * S" by (simp add: diff_mult_distrib)
  then have rv: "rev (reduce_ring S N c) ! (p * S) = reduce_ring S N c ! ((N - p) * S - 1)"
    using i len by (simp add: rev_nth)
  have "reduce_ring S N c ! ((N - p) * S - 1) \<in> set (reduce_ring S N c)" using i len by simp
  then have "- 1 < reduce_ring S N c ! ((N - p) * S - 1)"
    using reduce_ring_props(2) [OF c] by auto
  then show ?thesis
    using assms c i len rv
    by (auto simp: expr_GetRoot_def Let_def rings nth_append c_def [symmetric] p_def [symmetric])
qed

subsection \<open>Properties\<close>

text \<open>
  C39. Every ring the experimental manager builds, for the reductions and for the broadcasts,
  visits every local device exactly once, and the broadcast ring of an index is its reduce ring
  backwards; so each device finds itself in each ring, and the ranks of a ring are a numbering of
  the devices.
\<close>

theorem rings_are_permutations:
  assumes "InitGlobalEnv env L nm0 = Inr nm" and "0 < L" and "L < 2 ^ 31"
    and "expr_rings (nm_pcie_size nm) (nm_pcie_num nm) L = Inr rings"
  shows "length rings = 2 * nm_pcie_size nm \<and>
    (\<forall>r \<in> set rings. distinct r \<and> set r = {0..<L}) \<and>
    (\<forall>i < nm_pcie_size nm. rings ! (i + nm_pcie_size nm) = rev (rings ! i))"
proof -
  let ?S = "nm_pcie_size nm" and ?N = "nm_pcie_num nm"
  have "?S * ?N = nat L" using InitGlobalEnv_sizes [OF assms(1)] assms(2,3) by simp
  then have L: "L = int (?N * ?S)" using assms(2) by (simp add: mult.commute)
  have rings: "rings = map (reduce_ring ?S ?N) [0..<?S] @ map (\<lambda>i. rev (reduce_ring ?S ?N i)) [0..<?S]"
    using assms(4) expr_rings_eq [of ?S ?N] unfolding L by simp
  have im: "int ` {0..<?N * ?S} = {0..<L}"
    unfolding L using image_int_atLeastLessThan [of 0 "?N * ?S"] by (simp del: of_nat_mult)
  have "\<forall>r \<in> set rings. distinct r \<and> set r = {0..<L}"
    using reduce_ring_props [of _ ?S ?N] by (auto simp: rings im)
  then show ?thesis by (auto simp: rings nth_append)
qed

definition demo_nccl :: nccl_manager where
  "demo_nccl = \<lparr>nm_group_size = 4, nm_pcie_size = 2, nm_pcie_num = 2, nm_num_rings = 1, nm_size = 2,
     nm_pipeline = [], nm_signal = demo_comm 1 0,
     nm_rings = [[0, 1, 2, 3], [1, 0, 3, 2], [3, 2, 1, 0], [2, 3, 0, 1]]\<rparr>"

lemma demo_rings: "expr_rings 2 2 4 = Inr (nm_rings demo_nccl)"
  by (simp add: expr_rings_def reduce_ring_def upto_rec1 demo_nccl_def upt_rec numeral_2_eq_2)

theorem rings_are_permutations_witness:
  "set (nm_rings demo_nccl ! 1) = {0..<4} \<and> distinct (nm_rings demo_nccl ! 3)"
proof -
  have "InitGlobalEnv [''BYTEPS_PCIE_SWITCH_SIZE'' \<mapsto> ''2''] 4 demo_nccl = Inr demo_nccl"
    by (simp add: InitGlobalEnv_def env_int_def atoi_def digits_value_def is_digit_def is_space_def
        i32_def size_t_of_def demo_nccl_def)
  from rings_are_permutations [OF this, of "nm_rings demo_nccl"] show ?thesis
    using demo_rings by (simp add: demo_nccl_def)
qed

text \<open>
  For every key, the device at which the key's reduction ends is the device from which its
  broadcast starts, so the merged value does not have to move in between.
\<close>

theorem reduce_root_starts_broadcast:
  assumes "expr_rings (nm_pcie_size nm) (nm_pcie_num nm) (int (nm_pcie_num nm * nm_pcie_size nm))
      = Inr (nm_rings nm)"
    and "0 < nm_pcie_size nm" and "0 < nm_pcie_num nm"
  shows "\<exists>d. expr_GetRoot nm key REDUCE = Inr d \<and> expr_GetRoot nm key BROADCAST = Inr d \<and>
    0 \<le> d \<and> d < int (nm_pcie_num nm * nm_pcie_size nm)"
proof -
  let ?S = "nm_pcie_size nm" and ?N = "nm_pcie_num nm"
  let ?c = "unat key mod ?S" and ?i = "(?N - unat key mod (?S * ?N) div ?S) * ?S - 1"
  have c: "?c < ?S" using assms(2) by simp
  have "?i < length (reduce_ring ?S ?N ?c)"
    using root_index_less [OF assms(2,3)] by (simp only: reduce_ring_props [OF c])
  then have "reduce_ring ?S ?N ?c ! ?i \<in> int ` {0..<?N * ?S}"
    using reduce_ring_props(2) [OF c, of ?N] nth_mem by blast
  then show ?thesis
    using expr_root_eq [OF assms(1) refl refl assms(2,3)] by (auto simp del: of_nat_mult)
qed

theorem reduce_root_starts_broadcast_witness:
  "\<exists>d. expr_GetRoot demo_nccl 5 REDUCE = Inr d \<and> expr_GetRoot demo_nccl 5 BROADCAST = Inr d \<and> d < 4"
proof -
  have "\<exists>d. expr_GetRoot demo_nccl 5 REDUCE = Inr d \<and> expr_GetRoot demo_nccl 5 BROADCAST = Inr d \<and>
      0 \<le> d \<and> d < int (nm_pcie_num demo_nccl * nm_pcie_size demo_nccl)"
    by (rule reduce_root_starts_broadcast) (use demo_rings in \<open>simp_all add: demo_nccl_def\<close>)
  then show ?thesis by (auto simp: demo_nccl_def)
qed

text \<open>
  The PCIe communicators partition the local devices: two devices build the same list of
  peers exactly when they sit on the same switch, each device stands in its own list at the
  position that is its NCCL rank, and the device at the root's rank is the list's last member,
  which is the one that acts as the signal root.
\<close>

theorem switch_communicators:
  assumes "0 < S" and "0 \<le> a" and "a < 2 ^ 31" and "0 \<le> b" and "b < 2 ^ 31"
    and "nm_pcie_size nm = S"
  shows "(switch_peers a S = switch_peers b S \<longleftrightarrow> nat a div S = nat b div S) \<and>
    switch_peers a S ! nat (GetRank nm a key op) = a \<and>
    switch_peers a S ! nat (GetRoot nm key op) = last (switch_peers a S) \<and>
    length (switch_peers a S) = S"
proof -
  have sz: "size_t_of a = nat a" "size_t_of b = nat b" using assms by (auto intro: size_t_of_small)
  have len: "length (switch_peers x S) = S" for x by (simp add: switch_peers_def Let_def)
  have nth: "switch_peers x S ! i = int (size_t_of x div S * S) + int i" if "i < S" for x i
    using that by (simp add: switch_peers_def Let_def del: of_nat_mult)
  have eq: "switch_peers a S = switch_peers b S \<longleftrightarrow> nat a div S = nat b div S"
  proof
    assume "switch_peers a S = switch_peers b S"
    then have "int (nat a div S * S) = int (nat b div S * S)"
      using nth [of 0 a] nth [of 0 b] assms(1) sz by simp
    then have "nat a div S * S = nat b div S * S" by (simp only: of_nat_eq_iff)
    then show "nat a div S = nat b div S" using assms(1) by simp
  qed (simp add: switch_peers_def sz)
  have "int (nat a div S * S) + int (nat a mod S) = a"
    using assms(2) by (simp only: flip: of_nat_add) simp
  then have me: "switch_peers a S ! nat (GetRank nm a key op) = a"
    using assms(1,6) nth [of "nat a mod S" a] sz by (simp add: GetRank_def)
  have "switch_peers a S \<noteq> []" using len [of a] assms(1) by auto
  then have "last (switch_peers a S) = switch_peers a S ! nat (GetRoot nm key op)"
    using len [of a] assms(1,6) by (simp add: last_conv_nth GetRoot_def nat_diff_distrib)
  then show ?thesis using eq me len by simp
qed

theorem switch_communicators_witness:
  "switch_peers 3 2 = switch_peers 2 2 \<and> switch_peers 3 2 ! nat (GetRank demo_nccl 3 9 REDUCE) = 3"
proof -
  have "nm_pcie_size demo_nccl = 2" by (simp add: demo_nccl_def)
  then show ?thesis using switch_communicators [of 2 3 2 demo_nccl 9 REDUCE] by auto
qed

text \<open>
  \<open>NcclManagerExpr::GetRoot\<close> names a device where NCCL and the callers, which
  compare it with \<open>GetRank\<close>, expect a rank of the ring: with two switches of two
  devices, the root of key 1 is device 2, whose rank in that key's ring is 3.
\<close>

theorem expr_root_is_not_a_rank:
  "expr_GetRoot demo_nccl 1 REDUCE = Inr 2 \<and> expr_GetRank demo_nccl 2 1 REDUCE = Inr 3"
  by (simp add: expr_GetRoot_def expr_GetRank_def expr_index_def demo_nccl_def Let_def)

end
