(* ===== verification/Cpu_Reducer.thy ===== *)
theory Cpu_Reducer
  imports Nccl_Manager
begin

unbundle bit_operations_syntax

section \<open>The CPU reducer\<close>

text \<open>
  Models \<open>deep_inc/common/cpu_reducer.h\<close> and \<open>cpu_reducer.cc\<close>: element-wise sums of buffers in
  all the data types, with and without a scale, the copy, the software conversions between half
  and single precision, and the communicator of the processes at the same position of each PCIe
  switch. Buffers are lists of bytes, elements little-endian bit patterns. Floating-point
  arithmetic and the AVX conversions are the operations \<open>float_ops\<close> on bit patterns; signed
  overflow is undefined behaviour. The OpenMP loops run their iterations in any order: each
  iteration reads and writes only its own element, and the model runs them in index order.
\<close>

subsection \<open>Construction\<close>

record cpu_reducer =
  cr_comm :: "comm option"
  cr_num_threads :: int

text \<open>The peers: every \<open>pcie_size\<close>-th local rank, from \<open>local_rank % pcie_size\<close>.\<close>

function stride_from :: "int \<Rightarrow> int \<Rightarrow> int \<Rightarrow> int list" where
  "stride_from i n step = (if i < n \<and> 0 < step then i # stride_from (i + step) n step else [])"
  by pat_completeness auto
termination by (relation "measure (\<lambda>(i, n, step). nat (n - i))") auto

declare stride_from.simps [simp del]

definition CpuReducer :: "environ \<Rightarrow> comm option \<Rightarrow> (int \<times> int) \<times> (int \<times> int) \<Rightarrow> int \<Rightarrow> int \<Rightarrow> int \<Rightarrow>
    cpu_reducer res" where
  "CpuReducer env c os pcie_size local_rank local_size =
     check (0 < pcie_size) (Undefined ''division by zero'')
       (let peers = stride_from (local_rank mod pcie_size) local_size pcie_size
        in rbind (case c of None \<Rightarrow> Inr None
                  | Some gc \<Rightarrow> rbind (BytePSCommSocket gc ''cpu'' peers os) (\<lambda>sc. Inr (Some sc)))
             (\<lambda>sc. rbind (env_int env ''BYTEPS_OMP_THREAD_PER_GPU'' 4) (\<lambda>nt.
                Inr \<lparr>cr_comm = sc, cr_num_threads = nt\<rparr>)))"

definition cpu_isRoot :: "cpu_reducer \<Rightarrow> int \<Rightarrow> bool" where
  "cpu_isRoot cr local_rank = (case cr_comm cr of None \<Rightarrow> False | Some c \<Rightarrow> comm_root c = local_rank)"

subsection \<open>Half precision\<close>

text \<open>
  The normalisation loop of a subnormal: the mantissa, below \<open>2 ^ 10\<close> and not zero, is shifted
  until bit 10 is set. The last two exits are never taken from there.
\<close>

function norm_loop :: "nat \<Rightarrow> int \<Rightarrow> nat \<times> int" where
  "norm_loop m e = (if bit m 10 \<or> m = 0 \<or> 2 ^ 31 \<le> m then (m, e) else norm_loop (2 * m) (e - 1))"
  by pat_completeness auto
termination by (relation "measure (\<lambda>(m, e). 2 ^ 31 - m)") auto

declare norm_loop.simps [simp del]

definition HalfBits2Float :: "u16 \<Rightarrow> u32" where
  "HalfBits2Float h =
     (let sign = unat h div 2 ^ 15;
          exp = (unat h div 2 ^ 10) mod 32;
          mantissa = unat h mod 2 ^ 10
      in if 0 < exp \<and> exp < 31
         then of_nat (sign * 2 ^ 31) OR of_nat ((exp + 112) * 2 ^ 23) OR of_nat (mantissa * 2 ^ 13)
         else if exp = 0
         then if mantissa \<noteq> 0
              then (case norm_loop mantissa 113 of (m, e) \<Rightarrow>
                     of_nat (sign * 2 ^ 31) OR of_int (e * 2 ^ 23) OR of_nat ((m mod 2 ^ 10) * 2 ^ 13))
              else of_nat (sign * 2 ^ 31)
         else if mantissa \<noteq> 0 then 0x7FFFFFFF
         else of_nat (255 * 2 ^ 23) OR of_nat (sign * 2 ^ 31))"

text \<open>Round to nearest even on the bit patterns.\<close>

definition round_half :: "nat \<Rightarrow> bool \<Rightarrow> u16 \<Rightarrow> u16" where
  "round_half mantissa sticky0 u =
     (let round_bit = odd (mantissa div 2 ^ 12);
          sticky = (sticky0 \<or> mantissa mod 2 ^ 12 \<noteq> 0)
      in if round_bit \<and> sticky \<or> round_bit \<and> odd u then u + 1 else u)"

text \<open>
  For an exponent of -45 the source shifts by 31, and \<open>(1 << 31) - 1\<close> overflows an \<open>int\<close>, which is
  undefined behaviour. Here the mask is the 31 ones the expression is meant to give, which is what
  wrapping arithmetic gives too.
\<close>

definition Float2HalfBits :: "u32 \<Rightarrow> u16" where
  "Float2HalfBits s =
     (let sign = (of_nat (unat s div 2 ^ 31) * 0x8000 :: u16);
          exp = int ((unat s div 2 ^ 23) mod 256) - 127;
          mantissa = unat s mod 2 ^ 23
      in if unat s mod 2 ^ 31 = 0 then sign
         else if 15 < exp
         then (if exp = 128 \<and> mantissa \<noteq> 0 then 0x7FFF else sign OR 0x7C00)
         else if - 14 \<le> exp
         then round_half mantissa False
                (of_int (((exp + 15) mod 32) * 2 ^ 10) OR of_nat (mantissa div 2 ^ 13)) OR sign
         else (let rshift = nat (- 14 - exp)
               in if rshift < 32
                  then (let m = mantissa + 2 ^ 23;
                            m' = m div 2 ^ rshift
                        in round_half m' (m mod 2 ^ rshift \<noteq> 0)
                             (of_nat ((m' div 2 ^ 13) mod 2 ^ 10)) OR sign)
                  else round_half 0 False 0 OR sign))"

subsection \<open>Elements of a buffer\<close>

fun le_value :: "u8 list \<Rightarrow> nat" where
  "le_value [] = 0"
| "le_value (b # bs) = unat b + 256 * le_value bs"

fun le_bytes :: "nat \<Rightarrow> nat \<Rightarrow> u8 list" where
  "le_bytes 0 v = []"
| "le_bytes (Suc w) v = of_nat (v mod 256) # le_bytes w (v div 256)"

definition elt :: "nat \<Rightarrow> u8 list \<Rightarrow> nat \<Rightarrow> nat res" where
  "elt w buf i =
     (if (i + 1) * w \<le> length buf then Inr (le_value (take w (drop (i * w) buf)))
      else Inl (Undefined ''buffer overrun''))"

definition put_elt :: "nat \<Rightarrow> u8 list \<Rightarrow> nat \<Rightarrow> nat \<Rightarrow> u8 list res" where
  "put_elt w buf i v =
     (if (i + 1) * w \<le> length buf
      then Inr (take (i * w) buf @ le_bytes w v @ drop ((i + 1) * w) buf)
      else Inl (Undefined ''buffer overrun''))"

text \<open>The body \<open>dst[i] = g(dst, i)\<close> for the given indices.\<close>

fun elt_loop :: "nat \<Rightarrow> (u8 list \<Rightarrow> nat \<Rightarrow> nat res) \<Rightarrow> nat list \<Rightarrow> u8 list \<Rightarrow> u8 list res" where
  "elt_loop w g [] dst = Inr dst"
| "elt_loop w g (i # is) dst =
     rbind (g dst i) (\<lambda>v. rbind (put_elt w dst i v) (elt_loop w g is))"

subsection \<open>Arithmetic on elements\<close>

record float_ops =
  f32_add :: "u32 \<Rightarrow> u32 \<Rightarrow> u32"
  f32_mul :: "u32 \<Rightarrow> u32 \<Rightarrow> u32"
  f64_add :: "u64 \<Rightarrow> u64 \<Rightarrow> u64"
  f64_mul :: "u64 \<Rightarrow> u64 \<Rightarrow> u64"
  f32_to_f64 :: "u32 \<Rightarrow> u64"
  int_to_f32 :: "int \<Rightarrow> u32"
  f32_to_int :: "u32 \<Rightarrow> int option"
  hw_to_f32 :: "u16 \<Rightarrow> u32"
  hw_to_f16 :: "u32 \<Rightarrow> u16"

record reducer_build =
  avx_build :: bool
  avx_cpu :: bool

text \<open>
  The processor is asked once: \<open>cpuid\<close> is what \<open>__get_cpuid\<close> leaves in \<open>ecx\<close>, if it succeeds, and the
  pair holds the two static variables.
\<close>

definition bit_F16C :: u32 where "bit_F16C = push_bit 29 1"
definition bit_AVX :: u32 where "bit_AVX = push_bit 28 1"

definition is_avx_and_f16c :: "u32 option \<Rightarrow> bool \<times> bool \<Rightarrow> bool \<times> (bool \<times> bool)" where
  "is_avx_and_f16c cpuid st =
     (case st of (asked, result) \<Rightarrow>
        if asked then (result, st)
        else let r = (case cpuid of
                        None \<Rightarrow> result
                      | Some ecx \<Rightarrow> ecx AND bit_AVX \<noteq> 0 \<and> ecx AND bit_F16C \<noteq> 0)
             in (r, (True, r)))"

text \<open>So the answer is a constant of the process, \<open>avx_cpu\<close>.\<close>

lemma is_avx_and_f16c_constant:
  "is_avx_and_f16c cpuid st = (r, st') \<Longrightarrow> is_avx_and_f16c cpuid' st' = (r, st')"
  by (auto simp: is_avx_and_f16c_def Let_def split: prod.splits if_splits)

text \<open>
  \<open>a + b\<close> in the element type. \<open>uint8_t\<close> and \<open>int8_t\<close> are promoted to \<open>int\<close> and cut back.
  \<open>BYTEPS_FLOAT16\<close> has its own loop.
\<close>

definition i64 :: "int \<Rightarrow> int res" where
  "i64 x = (if - (2 ^ 63) \<le> x \<and> x < 2 ^ 63 then Inr x else Inl (Undefined ''int64 overflow''))"

fun elem_add :: "float_ops \<Rightarrow> data_type \<Rightarrow> nat \<Rightarrow> nat \<Rightarrow> nat res" where
  "elem_add fo BYTEPS_FLOAT32 a b = Inr (unat (f32_add fo (of_nat a) (of_nat b)))"
| "elem_add fo BYTEPS_FLOAT64 a b = Inr (unat (f64_add fo (of_nat a) (of_nat b)))"
| "elem_add fo BYTEPS_FLOAT16 a b =
     Inr (unat (Float2HalfBits (f32_add fo (HalfBits2Float (of_nat a)) (HalfBits2Float (of_nat b)))))"
| "elem_add fo BYTEPS_UINT8 a b = Inr (unat (of_nat a + of_nat b :: u8))"
| "elem_add fo BYTEPS_INT8 a b = Inr (unat (of_nat a + of_nat b :: u8))"
| "elem_add fo BYTEPS_INT32 a b =
     rbind (i32 (sint (of_nat a :: u32) + sint (of_nat b :: u32))) (\<lambda>x. Inr (unat (of_int x :: u32)))"
| "elem_add fo BYTEPS_INT64 a b =
     rbind (i64 (sint (of_nat a :: u64) + sint (of_nat b :: u64))) (\<lambda>x. Inr (unat (of_int x :: u64)))"

text \<open>
  \<open>a + alpha * b\<close> with a \<open>float\<close> scale: integers are converted to \<open>float\<close>, and the sum back to
  the element type, which is undefined outside its range.
\<close>

definition back_to :: "float_ops \<Rightarrow> int \<Rightarrow> int \<Rightarrow> nat \<Rightarrow> u32 \<Rightarrow> nat res" where
  "back_to fo lo hi bits f =
     (case f32_to_int fo f of
        None \<Rightarrow> Inl (Undefined ''float to integer'')
      | Some x \<Rightarrow> check (lo \<le> x \<and> x \<le> hi) (Undefined ''float to integer'')
                   (Inr (nat (x mod 2 ^ bits))))"

definition scale_int :: "float_ops \<Rightarrow> u32 \<Rightarrow> int \<Rightarrow> int \<Rightarrow> u32" where
  "scale_int fo alpha a b = f32_add fo (int_to_f32 fo a) (f32_mul fo alpha (int_to_f32 fo b))"

fun elem_add_scaled :: "float_ops \<Rightarrow> u32 \<Rightarrow> data_type \<Rightarrow> nat \<Rightarrow> nat \<Rightarrow> nat res" where
  "elem_add_scaled fo alpha BYTEPS_FLOAT32 a b =
     Inr (unat (f32_add fo (of_nat a) (f32_mul fo alpha (of_nat b))))"
| "elem_add_scaled fo alpha BYTEPS_FLOAT64 a b =
     Inr (unat (f64_add fo (of_nat a) (f64_mul fo (f32_to_f64 fo alpha) (of_nat b))))"
| "elem_add_scaled fo alpha BYTEPS_FLOAT16 a b =
     Inr (unat (Float2HalfBits (f32_add fo (HalfBits2Float (of_nat a))
       (f32_mul fo (HalfBits2Float (of_nat b)) alpha))))"
| "elem_add_scaled fo alpha BYTEPS_UINT8 a b =
     back_to fo 0 255 8 (scale_int fo alpha (int a) (int b))"
| "elem_add_scaled fo alpha BYTEPS_INT8 a b =
     back_to fo (-128) 127 8 (scale_int fo alpha (sint (of_nat a :: u8)) (sint (of_nat b :: u8)))"
| "elem_add_scaled fo alpha BYTEPS_INT32 a b =
     back_to fo (- (2 ^ 31)) (2 ^ 31 - 1) 32
       (scale_int fo alpha (sint (of_nat a :: u32)) (sint (of_nat b :: u32)))"
| "elem_add_scaled fo alpha BYTEPS_INT64 a b =
     back_to fo (- (2 ^ 63)) (2 ^ 63 - 1) 64
       (scale_int fo alpha (sint (of_nat a :: u64)) (sint (of_nat b :: u64)))"

fun type_width :: "data_type \<Rightarrow> nat" where
  "type_width BYTEPS_FLOAT32 = 4"
| "type_width BYTEPS_FLOAT64 = 8"
| "type_width BYTEPS_FLOAT16 = 2"
| "type_width BYTEPS_UINT8 = 1"
| "type_width BYTEPS_INT32 = 4"
| "type_width BYTEPS_INT8 = 1"
| "type_width BYTEPS_INT64 = 8"

subsection \<open>The four sums and the copy\<close>

text \<open>The operands of iteration \<open>i\<close>, read from two buffers.\<close>

definition pairwise :: "nat \<Rightarrow> (nat \<Rightarrow> nat \<Rightarrow> nat res) \<Rightarrow> u8 list \<Rightarrow> u8 list \<Rightarrow> nat \<Rightarrow> nat res" where
  "pairwise w f x y i = rbind (elt w x i) (\<lambda>a. rbind (elt w y i) (f a))"

text \<open>
  The half precision loops: built with AVX, blocks of eight use the vector unit if the processor
  has it, and the scalar loop starts behind the last full block in either case.
\<close>

definition float16_loops :: "reducer_build \<Rightarrow> (u8 list \<Rightarrow> nat \<Rightarrow> nat res) \<Rightarrow>
    (u8 list \<Rightarrow> nat \<Rightarrow> nat res) \<Rightarrow> nat \<Rightarrow> u8 list \<Rightarrow> u8 list res" where
  "float16_loops bld hw sw n dst =
     (if avx_build bld
      then rbind (if avx_cpu bld then elt_loop 2 hw [0..<n div 8 * 8] dst else Inr dst)
             (elt_loop 2 sw [n div 8 * 8..<n])
      else elt_loop 2 sw [0..<n] dst)"

definition hw_add :: "float_ops \<Rightarrow> nat \<Rightarrow> nat \<Rightarrow> nat res" where
  "hw_add fo x y =
     Inr (unat (hw_to_f16 fo (f32_add fo (hw_to_f32 fo (of_nat x)) (hw_to_f32 fo (of_nat y)))))"

definition hw_scaled :: "float_ops \<Rightarrow> u32 \<Rightarrow> nat \<Rightarrow> u32" where
  "hw_scaled fo alpha b = f32_mul fo (hw_to_f32 fo (of_nat b)) alpha"

text \<open>The overloads of \<open>_sum\<close> and \<open>_sum_float16\<close>, in the order of the code.\<close>

definition sum_typed :: "float_ops \<Rightarrow> u8 list \<Rightarrow> u8 list \<Rightarrow> nat \<Rightarrow> data_type \<Rightarrow> u8 list res" where
  "sum_typed fo dst src len dtype =
     elt_loop (type_width dtype) (\<lambda>d. pairwise (type_width dtype) (elem_add fo dtype) d src)
       [0..<len div type_width dtype] dst"

definition sum_float16 :: "reducer_build \<Rightarrow> float_ops \<Rightarrow> u8 list \<Rightarrow> u8 list \<Rightarrow> nat \<Rightarrow> u8 list res" where
  "sum_float16 bld fo dst src len =
     float16_loops bld (\<lambda>d. pairwise 2 (\<lambda>a b. hw_add fo b a) d src)
       (\<lambda>d. pairwise 2 (elem_add fo BYTEPS_FLOAT16) d src) (len div 2) dst"

definition sum_typed_of ::
    "float_ops \<Rightarrow> u8 list \<Rightarrow> u8 list \<Rightarrow> u8 list \<Rightarrow> nat \<Rightarrow> data_type \<Rightarrow> u8 list res" where
  "sum_typed_of fo dst src1 src2 len dtype =
     elt_loop (type_width dtype) (\<lambda>d. pairwise (type_width dtype) (elem_add fo dtype) src1 src2)
       [0..<len div type_width dtype] dst"

definition sum_float16_of ::
    "reducer_build \<Rightarrow> float_ops \<Rightarrow> u8 list \<Rightarrow> u8 list \<Rightarrow> u8 list \<Rightarrow> nat \<Rightarrow> u8 list res" where
  "sum_float16_of bld fo dst src1 src2 len =
     float16_loops bld (\<lambda>d. pairwise 2 (hw_add fo) src1 src2)
       (\<lambda>d. pairwise 2 (elem_add fo BYTEPS_FLOAT16) src1 src2) (len div 2) dst"

definition sum_typed_scaled ::
    "float_ops \<Rightarrow> u8 list \<Rightarrow> u8 list \<Rightarrow> nat \<Rightarrow> data_type \<Rightarrow> u32 \<Rightarrow> u8 list res" where
  "sum_typed_scaled fo dst src len dtype alpha =
     elt_loop (type_width dtype) (\<lambda>d. pairwise (type_width dtype) (elem_add_scaled fo alpha dtype) d src)
       [0..<len div type_width dtype] dst"

definition sum_float16_scaled ::
    "reducer_build \<Rightarrow> float_ops \<Rightarrow> u8 list \<Rightarrow> u8 list \<Rightarrow> nat \<Rightarrow> u32 \<Rightarrow> u8 list res" where
  "sum_float16_scaled bld fo dst src len alpha =
     float16_loops bld
       (\<lambda>d. pairwise 2 (\<lambda>a b. Inr (unat (hw_to_f16 fo
            (f32_add fo (hw_scaled fo alpha b) (hw_to_f32 fo (of_nat a)))))) d src)
       (\<lambda>d. pairwise 2 (elem_add_scaled fo alpha BYTEPS_FLOAT16) d src) (len div 2) dst"

definition sum_typed_of_scaled ::
    "float_ops \<Rightarrow> u8 list \<Rightarrow> u8 list \<Rightarrow> u8 list \<Rightarrow> nat \<Rightarrow> data_type \<Rightarrow> u32 \<Rightarrow> u8 list res" where
  "sum_typed_of_scaled fo dst src1 src2 len dtype alpha =
     elt_loop (type_width dtype)
       (\<lambda>d. pairwise (type_width dtype) (elem_add_scaled fo alpha dtype) src1 src2)
       [0..<len div type_width dtype] dst"

definition sum_float16_of_scaled ::
    "reducer_build \<Rightarrow> float_ops \<Rightarrow> u8 list \<Rightarrow> u8 list \<Rightarrow> u8 list \<Rightarrow> nat \<Rightarrow> u32 \<Rightarrow> u8 list res" where
  "sum_float16_of_scaled bld fo dst src1 src2 len alpha =
     float16_loops bld
       (\<lambda>d. pairwise 2 (\<lambda>a b. Inr (unat (hw_to_f16 fo
            (f32_add fo (hw_to_f32 fo (of_nat a)) (hw_scaled fo alpha b))))) src1 src2)
       (\<lambda>d. pairwise 2 (elem_add_scaled fo alpha BYTEPS_FLOAT16) src1 src2) (len div 2) dst"

text \<open>The four public sums choose the loop by the data type.\<close>

definition sum_into ::
    "reducer_build \<Rightarrow> float_ops \<Rightarrow> u8 list \<Rightarrow> u8 list \<Rightarrow> nat \<Rightarrow> data_type \<Rightarrow> u8 list res" where
  "sum_into bld fo dst src len dtype =
     (if dtype = BYTEPS_FLOAT16 then sum_float16 bld fo dst src len
      else sum_typed fo dst src len dtype)"

definition sum_of ::
    "reducer_build \<Rightarrow> float_ops \<Rightarrow> u8 list \<Rightarrow> u8 list \<Rightarrow> u8 list \<Rightarrow> nat \<Rightarrow> data_type \<Rightarrow> u8 list res" where
  "sum_of bld fo dst src1 src2 len dtype =
     (if dtype = BYTEPS_FLOAT16 then sum_float16_of bld fo dst src1 src2 len
      else sum_typed_of fo dst src1 src2 len dtype)"

definition sum_into_scaled ::
    "reducer_build \<Rightarrow> float_ops \<Rightarrow> u8 list \<Rightarrow> u8 list \<Rightarrow> nat \<Rightarrow> data_type \<Rightarrow> u32 \<Rightarrow> u8 list res" where
  "sum_into_scaled bld fo dst src len dtype alpha =
     (if dtype = BYTEPS_FLOAT16 then sum_float16_scaled bld fo dst src len alpha
      else sum_typed_scaled fo dst src len dtype alpha)"

definition sum_of_scaled :: "reducer_build \<Rightarrow> float_ops \<Rightarrow> u8 list \<Rightarrow> u8 list \<Rightarrow> u8 list \<Rightarrow> nat \<Rightarrow>
    data_type \<Rightarrow> u32 \<Rightarrow> u8 list res" where
  "sum_of_scaled bld fo dst src1 src2 len dtype alpha =
     (if dtype = BYTEPS_FLOAT16 then sum_float16_of_scaled bld fo dst src1 src2 len alpha
      else sum_typed_of_scaled fo dst src1 src2 len dtype alpha)"

lemmas sum_loops = sum_typed_def sum_float16_def sum_typed_of_def sum_float16_of_def
  sum_typed_scaled_def sum_float16_scaled_def sum_typed_of_scaled_def sum_float16_of_scaled_def
  float16_loops_def

text \<open>\<open>copy\<close>: whole \<open>float\<close>s first, then the up to three bytes left with \<open>memcpy\<close>.\<close>

definition memcpy_at :: "u8 list \<Rightarrow> u8 list \<Rightarrow> nat \<Rightarrow> nat \<Rightarrow> u8 list res" where
  "memcpy_at dst src off n =
     (if off + n \<le> length dst \<and> off + n \<le> length src
      then Inr (take off dst @ take n (drop off src) @ drop (off + n) dst)
      else Inl (Undefined ''buffer overrun''))"

definition cpu_copy :: "u8 list \<Rightarrow> u8 list \<Rightarrow> nat \<Rightarrow> u8 list res" where
  "cpu_copy dst src len =
     rbind (elt_loop 4 (\<lambda>d. elt 4 src) [0..<len div 4] dst) (\<lambda>d.
       if len mod 4 \<noteq> 0 then memcpy_at d src (len div 4 * 4) (len mod 4) else Inr d)"

subsection \<open>Lemmas\<close>

lemma length_le_bytes [simp]: "length (le_bytes w v) = w"
  by (induction w arbitrary: v) simp_all

lemma le_value_bytes: "le_value (le_bytes w v) = v mod 256 ^ w"
proof (induction w arbitrary: v)
  case (Suc w)
  have "le_value (le_bytes (Suc w) v) = v mod 256 + 256 * (v div 256 mod 256 ^ w)"
    using Suc by (simp add: unsigned_of_nat take_bit_nat_eq_self)
  also have "\<dots> = v mod 256 ^ Suc w"
    by (simp add: mod_mult2_eq)
  finally show ?case .
qed simp

lemma le_bytes_value: "le_bytes (length bs) (le_value bs) = bs"
proof (induction bs)
  case (Cons b bs)
  have "unat b < 256" using unsigned_less [of b] by simp
  with Cons show ?case by simp
qed simp

lemma le_value_less: "le_value bs < 256 ^ length bs"
proof (induction bs)
  case (Cons b bs)
  have "unat b < 256" using unsigned_less [of b] by simp
  with Cons show ?case by simp
qed simp

lemma length_put_elt: "put_elt w buf i v = Inr buf' \<Longrightarrow> length buf' = length buf"
  by (auto simp: put_elt_def split: if_splits)

lemma elt_eq_Inr [res_simps]:
  "elt w buf i = Inr v \<longleftrightarrow> (i + 1) * w \<le> length buf \<and> v = le_value (take w (drop (i * w) buf))"
  by (auto simp: elt_def)

text \<open>Writing one element leaves every other byte in place.\<close>

lemma slot_bound: "i \<noteq> (j :: nat) \<Longrightarrow> (i + 1) * w \<le> j * w \<or> (j + 1) * w \<le> i * w"
  by (metis Suc_eq_plus1 less_eq_Suc_le linorder_neqE_nat mult_le_mono1)

lemma elt_put_same:
  assumes "put_elt w buf i v = Inr buf'"
  shows "elt w buf' i = Inr (v mod 256 ^ w)"
  using assms by (auto simp: put_elt_def elt_def le_value_bytes split: if_splits)

lemma elt_put_other:
  assumes "put_elt w buf i v = Inr buf'" and "i \<noteq> j"
  shows "elt w buf' j = elt w buf j"
proof (cases "(j + 1) * w \<le> length buf")
  case True
  have b: "i * w + w \<le> length buf" and buf': "buf' = take (i * w) buf @ le_bytes w v @ drop (i * w + w) buf"
    using assms(1) by (auto simp: put_elt_def algebra_simps split: if_splits)
  have "take w (drop (j * w) buf') = take w (drop (j * w) buf)"
  proof (rule nth_equalityI)
    show "length (take w (drop (j * w) buf')) = length (take w (drop (j * w) buf))"
      using length_put_elt [OF assms(1)] by simp
    fix k assume "k < length (take w (drop (j * w) buf'))"
    then have k: "k < w" "j * w + k < length buf" using length_put_elt [OF assms(1)] by auto
    have "j * w + k < i * w \<or> i * w + w \<le> j * w + k"
      using slot_bound [OF assms(2), of w] k(1) by (simp add: algebra_simps) linarith
    then have "buf' ! (j * w + k) = buf ! (j * w + k)"
      using b k(2) by (auto simp: buf' nth_append)
    then show "take w (drop (j * w) buf') ! k = take w (drop (j * w) buf) ! k"
      using k length_put_elt [OF assms(1)] by simp
  qed
  then show ?thesis using True length_put_elt [OF assms(1)] by (simp add: elt_def)
next
  case False
  then show ?thesis using length_put_elt [OF assms(1)] by (simp add: elt_def)
qed

lemma put_elt_drop:
  assumes "put_elt w buf i v = Inr buf'" and "(i + 1) * w \<le> n"
  shows "drop n buf' = drop n buf"
  using assms by (auto simp: put_elt_def split: if_splits)

lemma put_elt_take:
  assumes "put_elt w buf i v = Inr buf'" and "n \<le> i * w"
  shows "take n buf' = take n buf"
  using assms by (auto simp: put_elt_def split: if_splits)

text \<open>
  A loop whose body at \<open>i\<close> reads only element \<open>i\<close> of the destination computes every element from
  the original buffer, and touches nothing else.
\<close>

lemma elt_loop_spec:
  assumes "\<And>d d' i. elt w d i = elt w d' i \<Longrightarrow> g d i = g d' i"
    and "distinct is" and "\<And>i. i \<in> set is \<Longrightarrow> (i + 1) * w \<le> length dst \<and> g dst i = Inr (c i)"
  shows "\<exists>r. elt_loop w g is dst = Inr r \<and> length r = length dst \<and>
    (\<forall>j. elt w r j = (if j \<in> set is then Inr (c j mod 256 ^ w) else elt w dst j))"
  using assms(2,3)
proof (induction "is" arbitrary: dst)
  case (Cons i "is")
  obtain d1 where d1: "put_elt w dst i (c i) = Inr d1"
    using Cons.prems(2) [of i] by (auto simp: put_elt_def)
  have "g d1 j = Inr (c j)" if "j \<in> set is" for j
    using assms(1) [OF elt_put_other [OF d1, of j]] Cons.prems that by fastforce
  then obtain r where r: "elt_loop w g is d1 = Inr r" "length r = length d1"
    "\<forall>j. elt w r j = (if j \<in> set is then Inr (c j mod 256 ^ w) else elt w d1 j)"
    using Cons.IH [of d1] Cons.prems length_put_elt [OF d1] by auto
  then show ?case
    using d1 Cons.prems length_put_elt [OF d1] elt_put_same [OF d1] elt_put_other [OF d1] by auto
qed simp

lemma elt_loop_drop:
  "elt_loop w g is dst = Inr r \<Longrightarrow> (\<And>i. i \<in> set is \<Longrightarrow> (i + 1) * w \<le> n) \<Longrightarrow> drop n r = drop n dst"
proof (induction "is" arbitrary: dst)
  case (Cons i "is")
  then obtain v d1 where "put_elt w dst i v = Inr d1" "elt_loop w g is d1 = Inr r"
    by (auto simp: res_simps)
  then show ?case using Cons put_elt_drop [of w dst i v d1 n] by simp
qed simp

lemma elt_loop_take:
  "elt_loop w g is dst = Inr r \<Longrightarrow> (\<And>i. i \<in> set is \<Longrightarrow> n \<le> i * w) \<Longrightarrow> take n r = take n dst"
proof (induction "is" arbitrary: dst)
  case (Cons i "is")
  then obtain v d1 where "put_elt w dst i v = Inr d1" "elt_loop w g is d1 = Inr r"
    by (auto simp: res_simps)
  then show ?case using Cons put_elt_take [of w dst i v d1 n] by simp
qed simp

lemma pairwise_cong: "elt w d i = elt w d' i \<Longrightarrow> pairwise w f d src i = pairwise w f d' src i"
  by (simp add: pairwise_def)

lemma pairwise_Inr:
  "(i + 1) * w \<le> length x \<Longrightarrow> (i + 1) * w \<le> length y \<Longrightarrow>
     pairwise w f x y i = f (le_value (take w (drop (i * w) x))) (le_value (take w (drop (i * w) y)))"
  by (simp add: pairwise_def elt_def)

lemma elem_add_less: "elem_add fo dtype a b = Inr c \<Longrightarrow> c < 256 ^ type_width dtype"
  by (cases dtype)
    (auto simp: res_simps intro!: order.strict_trans2 [OF unsigned_less])

lemma index_fits: "i < len div w \<Longrightarrow> (i + 1) * w \<le> len"
  for i len w :: nat
  by (metis Suc_eq_plus1 Suc_leI div_times_less_eq_dividend le_trans mult_le_mono1)

text \<open>Two buffers that agree in every element and behind the last one are the same.\<close>

lemma elts_eqI:
  assumes "length x = length y" and "0 < w" and "\<And>i. i < n \<Longrightarrow> elt w x i = elt w y i"
    and "n * w \<le> length x" and "drop (n * w) x = drop (n * w) y"
  shows "x = y"
proof -
  have "take (m * w) x = take (m * w) y" if "m \<le> n" for m
    using that
  proof (induction m)
    case (Suc m)
    have m: "(m + 1) * w \<le> length x" using assms(4) Suc.prems by (metis Suc_eq_plus1 le_trans mult_le_mono1)
    then have "le_value (take w (drop (m * w) x)) = le_value (take w (drop (m * w) y))"
      using assms(3) [of m] assms(1) m Suc.prems by (simp add: elt_def)
    moreover have "length (take w (drop (m * w) x)) = w" "length (take w (drop (m * w) y)) = w"
      using m assms(1) by auto
    ultimately have "take w (drop (m * w) x) = take w (drop (m * w) y)"
      by (metis le_bytes_value)
    moreover have "Suc m * w = m * w + w" by simp
    ultimately show ?case using Suc by (simp only: take_add)
  qed simp
  then have "take (n * w) x = take (n * w) y" by simp
  then show ?thesis using assms(5) by (metis append_take_drop_id)
qed

text \<open>The in-place sum, element by element.\<close>

lemma sum_into_spec:
  assumes "dtype \<noteq> BYTEPS_FLOAT16 \<or> \<not> avx_build bld"
    and "len \<le> length dst" and "len \<le> length src"
    and "\<And>i. i < len div type_width dtype \<Longrightarrow>
      elem_add fo dtype (le_value (take (type_width dtype) (drop (i * type_width dtype) dst)))
        (le_value (take (type_width dtype) (drop (i * type_width dtype) src))) = Inr (c i)"
  shows "\<exists>r. sum_into bld fo dst src len dtype = Inr r \<and> length r = length dst \<and>
    (\<forall>i < len div type_width dtype. elt (type_width dtype) r i = Inr (c i)) \<and>
    drop (len div type_width dtype * type_width dtype) r =
      drop (len div type_width dtype * type_width dtype) dst"
proof -
  let ?w = "type_width dtype" and ?g = "\<lambda>d. pairwise (type_width dtype) (elem_add fo dtype) d src"
  let ?is = "[0..<len div ?w]"
  have ok: "(i + 1) * ?w \<le> length dst \<and> ?g dst i = Inr (c i)" if "i \<in> set ?is" for i
    using that assms(2-4) [of] index_fits [of i len ?w] by (simp add: pairwise_Inr)
  obtain r where r: "elt_loop ?w ?g ?is dst = Inr r" "length r = length dst"
    "\<forall>j. elt ?w r j = (if j \<in> set ?is then Inr (c j mod 256 ^ ?w) else elt ?w dst j)"
    using elt_loop_spec [of ?w ?g ?is dst c] pairwise_cong ok by (metis (no_types, lifting) distinct_upt)
  have "c i < 256 ^ ?w" if "i < len div ?w" for i using assms(4) [OF that] by (rule elem_add_less)
  then have "\<forall>i < len div ?w. elt ?w r i = Inr (c i)" using r(3) by simp
  moreover have "drop (len div ?w * ?w) r = drop (len div ?w * ?w) dst"
    using r(1) by (rule elt_loop_drop) (metis Suc_eq_plus1 Suc_leI atLeastLessThan_iff mult_le_mono1 set_upt)
  moreover have "sum_into bld fo dst src len dtype = elt_loop ?w ?g ?is dst"
    using assms(1) by (auto simp: sum_into_def sum_loops)
  ultimately show ?thesis using r by metis
qed

subsection \<open>Properties\<close>

text \<open>
  The in-place sum adds element by element in the data type's arithmetic, reading every
  element before it is overwritten, and leaves the bytes behind the last whole element alone (in a
  build with AVX half precision takes other paths).
\<close>

theorem sum_into_elementwise:
  assumes "dtype \<noteq> BYTEPS_FLOAT16 \<or> \<not> avx_build bld"
    and "len \<le> length dst" and "len \<le> length src"
    and "\<And>i. i < len div type_width dtype \<Longrightarrow>
      elem_add fo dtype (le_value (take (type_width dtype) (drop (i * type_width dtype) dst)))
        (le_value (take (type_width dtype) (drop (i * type_width dtype) src))) = Inr (c i)"
  shows "\<exists>r. sum_into bld fo dst src len dtype = Inr r \<and> length r = length dst \<and>
    (\<forall>i < len div type_width dtype. elt (type_width dtype) r i = Inr (c i)) \<and>
    drop (len div type_width dtype * type_width dtype) r =
      drop (len div type_width dtype * type_width dtype) dst"
  using assms by (rule sum_into_spec)

definition demo_fops :: float_ops where
  "demo_fops = \<lparr>f32_add = (+), f32_mul = (*), f64_add = (+), f64_mul = (*), f32_to_f64 = ucast,
     int_to_f32 = of_int, f32_to_int = (\<lambda>x. Some (sint x)), hw_to_f32 = HalfBits2Float,
     hw_to_f16 = Float2HalfBits\<rparr>"

definition demo_build :: reducer_build where
  "demo_build = \<lparr>avx_build = True, avx_cpu = False\<rparr>"

theorem sum_into_elementwise_witness:
  "\<exists>r. sum_into demo_build demo_fops [1, 0, 0, 0, 9] [2, 1, 0, 0, 7] 5 BYTEPS_INT32 = Inr r \<and>
     elt 4 r 0 = Inr 259"
proof -
  have "\<exists>r. sum_into demo_build demo_fops [1, 0, 0, 0, 9] [2, 1, 0, 0, 7] 5 BYTEPS_INT32 = Inr r \<and>
    length r = length ([1, 0, 0, 0, 9] :: u8 list) \<and>
    (\<forall>i < 5 div type_width BYTEPS_INT32. elt (type_width BYTEPS_INT32) r i = Inr 259) \<and>
    drop (5 div type_width BYTEPS_INT32 * type_width BYTEPS_INT32) r =
      drop (5 div type_width BYTEPS_INT32 * type_width BYTEPS_INT32) [1, 0, 0, 0, 9]"
    by (rule sum_into_elementwise [where c = "\<lambda>_. 259"]) (auto simp: i32_def)
  then show ?thesis by auto
qed

lemma elt_loop_other: "elt_loop w g is dst = Inr r \<Longrightarrow> j \<notin> set is \<Longrightarrow> elt w r j = elt w dst j"
proof (induction "is" arbitrary: dst)
  case (Cons i "is")
  then obtain v d1 where "put_elt w dst i v = Inr d1" "elt_loop w g is d1 = Inr r"
    by (auto simp: res_simps)
  then show ?case using Cons elt_put_other [of w dst i v d1 j] by simp
qed simp

lemma rbind_eqI: "x = y \<Longrightarrow> (\<And>v. y = Inr v \<Longrightarrow> f v = g v) \<Longrightarrow> rbind x f = rbind y g"
  by (cases y) simp_all

text \<open>A loop in place reads what a loop with a copy of the destination as first operand reads.\<close>

lemma elt_loop_in_place:
  assumes "distinct is" and "\<And>i. i \<in> set is \<Longrightarrow> elt w dst i = elt w x i"
  shows "elt_loop w (\<lambda>d. pairwise w f d src) is dst = elt_loop w (\<lambda>d. pairwise w f x src) is dst"
  using assms
proof (induction "is" arbitrary: dst)
  case (Cons i "is")
  have "pairwise w f dst src i = pairwise w f x src i" using Cons.prems(2) by (intro pairwise_cong) simp
  moreover have "elt_loop w (\<lambda>d. pairwise w f d src) is d1 = elt_loop w (\<lambda>d. pairwise w f x src) is d1"
    if "put_elt w dst i v = Inr d1" for v d1
  proof (rule Cons.IH)
    fix j assume "j \<in> set is"
    then show "elt w d1 j = elt w x j" using Cons.prems elt_put_other [OF that, of j] by auto
  qed (use Cons.prems in simp)
  ultimately show ?case unfolding elt_loop.simps by (intro rbind_eqI refl) simp_all
qed simp

lemma float16_loops_in_place:
  "float16_loops bld (\<lambda>d. pairwise 2 f d src) (\<lambda>d. pairwise 2 g d src) n dst =
     float16_loops bld (\<lambda>d. pairwise 2 f dst src) (\<lambda>d. pairwise 2 g dst src) n dst"
proof -
  let ?hw = "elt_loop 2 (\<lambda>d. pairwise 2 f d src) [0..<n div 8 * 8] dst"
  have "elt_loop 2 (\<lambda>d. pairwise 2 g d src) [n div 8 * 8..<n] d =
      elt_loop 2 (\<lambda>d. pairwise 2 g dst src) [n div 8 * 8..<n] d" if "?hw = Inr d \<or> d = dst" for d
    using that elt_loop_other [of 2 _ "[0..<n div 8 * 8]" dst d] by (intro elt_loop_in_place) auto
  moreover have "?hw = elt_loop 2 (\<lambda>d. pairwise 2 f dst src) [0..<n div 8 * 8] dst"
    by (rule elt_loop_in_place) simp_all
  ultimately show ?thesis
    using elt_loop_in_place [of "[0..<n]" 2 dst dst g src]
    unfolding float16_loops_def by (auto intro!: rbind_eqI)
qed

text \<open>
  C21. Every in-place sum, plain and scaled, of every data type and in every build, gives exactly
  the bytes, or the failure, of the sum of two operands with the destination as the first operand,
  where \<open>float\<close> addition is commutative.
\<close>

theorem sums_in_place:
  assumes "\<And>a b. f32_add fo a b = f32_add fo b a"
  shows "sum_into bld fo dst src len dtype = sum_of bld fo dst dst src len dtype \<and>
    sum_into_scaled bld fo dst src len dtype alpha = sum_of_scaled bld fo dst dst src len dtype alpha"
proof -
  let ?is = "[0..<len div type_width dtype]"
  have comm: "(\<lambda>a b. hw_add fo b a) = hw_add fo"
    unfolding hw_add_def by (intro ext) (subst assms, rule refl)
  have "sum_float16 bld fo dst src len = sum_float16_of bld fo dst dst src len"
    unfolding sum_float16_def sum_float16_of_def float16_loops_in_place [where dst = dst]
    unfolding comm ..
  moreover have "sum_float16_scaled bld fo dst src len alpha = sum_float16_of_scaled bld fo dst dst src len alpha"
    unfolding sum_float16_scaled_def sum_float16_of_scaled_def float16_loops_in_place [where dst = dst]
    by (simp only: assms [of "hw_to_f32 fo _"])
  moreover have "sum_typed fo dst src len dtype = sum_typed_of fo dst dst src len dtype"
    unfolding sum_typed_def sum_typed_of_def by (rule elt_loop_in_place) simp_all
  moreover have "sum_typed_scaled fo dst src len dtype alpha = sum_typed_of_scaled fo dst dst src len dtype alpha"
    unfolding sum_typed_scaled_def sum_typed_of_scaled_def by (rule elt_loop_in_place) simp_all
  ultimately show ?thesis
    by (simp add: sum_into_def sum_of_def sum_into_scaled_def sum_of_scaled_def)
qed

theorem sums_in_place_witness:
  "sum_into demo_build demo_fops [1, 60, 3] [2, 61, 7] 2 BYTEPS_FLOAT16 =
     sum_of demo_build demo_fops [1, 60, 3] [1, 60, 3] [2, 61, 7] 2 BYTEPS_FLOAT16"
  using sums_in_place [of demo_fops demo_build "[1, 60, 3]" "[2, 61, 7]" 2 BYTEPS_FLOAT16]
  by (simp add: demo_fops_def add.commute)

text \<open>
  \<open>copy\<close> copies exactly the first \<open>len\<close> bytes, for lengths that are
  not a multiple of four as well.
\<close>

theorem copy_exact:
  assumes "len \<le> length dst" and "len \<le> length src"
  shows "cpu_copy dst src len = Inr (take len src @ drop len dst)"
proof -
  let ?n = "len div 4"
  have n: "?n * 4 \<le> len" by simp
  have "(i + 1) * 4 \<le> length dst \<and> elt 4 src i = Inr (le_value (take 4 (drop (i * 4) src)))"
    if "i \<in> set [0..<?n]" for i
    using that index_fits [of i len 4] assms by (simp add: elt_def)
  then obtain r where r: "elt_loop 4 (\<lambda>d. elt 4 src) [0..<?n] dst = Inr r" "length r = length dst"
    "\<forall>j. elt 4 r j = (if j \<in> set [0..<?n] then Inr (le_value (take 4 (drop (j * 4) src)) mod 256 ^ 4)
       else elt 4 dst j)"
    using elt_loop_spec [of 4 "\<lambda>d. elt 4 src" "[0..<?n]" dst "\<lambda>i. le_value (take 4 (drop (i * 4) src))"]
    by auto
  have dr: "drop (?n * 4) r = drop (?n * 4) dst"
    using r(1) by (rule elt_loop_drop) (simp add: mult_le_mono1 Suc_le_eq)
  have "r = take (?n * 4) src @ drop (?n * 4) dst"
  proof (rule elts_eqI [where w = 4 and n = ?n])
    show "length r = length (take (?n * 4) src @ drop (?n * 4) dst)" using r(2) assms n by simp
    show "?n * 4 \<le> length r" using r(2) assms n by simp
    show "drop (?n * 4) r = drop (?n * 4) (take (?n * 4) src @ drop (?n * 4) dst)"
      using dr assms n by simp
    fix i assume i: "i < ?n"
    then have i4: "i * 4 + 4 \<le> ?n * 4" "(i + 1) * 4 \<le> len" using index_fits [of i len 4] by auto
    have "take 4 (drop (i * 4) (take (?n * 4) src)) = take 4 (drop (i * 4) src)"
      using i4(1) by (simp add: drop_take min_def)
    moreover have "length (take 4 (drop (i * 4) src)) = 4" using i4 assms by simp
    then have "le_value (take 4 (drop (i * 4) src)) < 256 ^ 4" by (metis le_value_less)
    ultimately show "elt 4 r i = elt 4 (take (?n * 4) src @ drop (?n * 4) dst) i"
      using r(3) i i4 assms n by (simp add: elt_def)
  qed simp
  moreover have "len = ?n * 4 + len mod 4" by simp
  then have "take len src = take (?n * 4) src @ take (len mod 4) (drop (?n * 4) src)"
    by (metis take_add)
  ultimately have c: "cpu_copy dst src len =
      (if len mod 4 \<noteq> 0 then Inr (take len src @ drop (?n * 4 + len mod 4) dst)
       else Inr (take (?n * 4) src @ drop (?n * 4) dst))"
    using r(1) assms n unfolding cpu_copy_def memcpy_at_def by simp
  have l: "len = ?n * 4 + len mod 4" by simp
  show ?thesis
  proof (cases "len mod 4 = 0")
    case True
    then have "?n * 4 = len" using l by linarith
    then show ?thesis using c True by simp
  next
    case False
    then show ?thesis using c l by simp
  qed
qed

theorem copy_exact_witness:
  "cpu_copy [0, 0, 0, 0, 0, 0] [1, 2, 3, 4, 5, 6] 5 = Inr [1, 2, 3, 4, 5, 0]"
  by (subst copy_exact) simp_all

text \<open>
  In a build with AVX that runs on a processor without it, every full block of eight half
  precision numbers is skipped: the scalar loop only covers what is left behind the blocks, so the
  destination keeps its old values there.
\<close>

theorem float16_blocks_skipped:
  assumes "avx_build bld" and "\<not> avx_cpu bld" and "sum_into bld fo dst src len BYTEPS_FLOAT16 = Inr r"
  shows "take (len div 16 * 16) r = take (len div 16 * 16) dst"
proof -
  have "len div 2 div 8 = len div 16" by (simp add: div_mult2_eq [symmetric])
  then have "elt_loop 2 (\<lambda>d. pairwise 2 (elem_add fo BYTEPS_FLOAT16) d src)
      [len div 16 * 8..<len div 2] dst = Inr r"
    using assms by (simp add: sum_into_def sum_loops)
  then show ?thesis by (rule elt_loop_take) simp
qed

theorem float16_blocks_skipped_witness:
  "take 16 (projr (sum_into demo_build demo_fops (replicate 16 0) (replicate 16 1) 16 BYTEPS_FLOAT16)) =
     replicate 16 0"
proof -
  have "sum_into demo_build demo_fops (replicate 16 0) (replicate 16 1) 16 BYTEPS_FLOAT16 =
      Inr (replicate 16 0)"
    by (simp add: sum_into_def sum_loops demo_build_def)
  from float16_blocks_skipped [OF _ _ this] this show ?thesis by (simp add: demo_build_def)
qed

end
