(* ===== verification/Key_Hash.thy ===== *)
theory Key_Hash
  imports Complex_Main Common_Types
begin

unbundle bit_operations_syntax

section \<open>Assigning keys to servers\<close>

text \<open>
  Models the hash functions and \<open>EncodeDefaultKey\<close> of \<open>deep_inc/common/global.cc\<close>, and the
  \<open>DecodeKey\<close> and \<open>EncodeKey\<close> of \<open>deep_inc/server/server.h\<close>. The key ranges of the servers come
  from the parameter-server library (\<open>krs\<close>, a list of begin and end), the library's string hash
  is the parameter \<open>builtin\<close>, and the double arithmetic of the mixed mode is exact rational
  arithmetic followed by the rounding \<open>rnd\<close> at every operation.

  The three string hashes read \<open>std::to_string(key).c_str()\<close> after the temporary string is gone;
  the model is the hash of the digits, which is what the code gets while that memory is intact.
\<close>

record pskv =
  kv_keys :: "u64 list"
  kv_lens :: "int list"
  kv_size :: int

definition empty_pskv :: pskv where
  "empty_pskv = \<lparr>kv_keys = [], kv_lens = [], kv_size = 0\<rparr>"

record key_encoder =
  ps_kv :: "u64 \<rightharpoonup> pskv"
  server_accumulated_len :: "u64 list"
  total_accumulated_len :: u64

record hash_config =
  hash_knob :: string
  mixed_mode :: bool
  built_in_coefficient :: u32
  hc_num_worker :: int
  mixed_mode_bound :: "int option"

subsection \<open>Hash functions\<close>

definition Hash_Naive :: "u64 \<Rightarrow> u64" where
  "Hash_Naive key = (drop_bit 16 key + (key mod 65536)) * 9973"

fun djb2_loop :: "u64 \<Rightarrow> string \<Rightarrow> u64" where
  "djb2_loop h [] = h"
| "djb2_loop h (c # cs) = djb2_loop ((push_bit 5 h + h) + of_nat (of_char c)) cs"

definition Hash_DJB2 :: "u64 \<Rightarrow> u64" where
  "Hash_DJB2 key = djb2_loop 5381 (nat_to_string (unat key))"

fun sdbm_loop :: "u64 \<Rightarrow> string \<Rightarrow> u64" where
  "sdbm_loop h [] = h"
| "sdbm_loop h (c # cs) = sdbm_loop (of_nat (of_char c) + push_bit 6 h + push_bit 16 h - h) cs"

definition Hash_SDBM :: "u64 \<Rightarrow> u64" where
  "Hash_SDBM key = sdbm_loop 0 (nat_to_string (unat key))"

definition Hash_BuiltIn :: "(string \<Rightarrow> u64) \<Rightarrow> u32 \<Rightarrow> u64 \<Rightarrow> u64" where
  "Hash_BuiltIn builtin coef key = builtin (nat_to_string (unat key)) * ucast coef"

text \<open>
  The mixed mode sends a share \<open>threshold / bound\<close> of the hash values to the servers that are not
  colocated with workers. The counts are \<open>size_t\<close>: with more workers than servers the difference
  wraps. A zero denominator gives an infinity or a NaN, and the first check aborts.
\<close>

definition mixed_ratio :: "(rat \<Rightarrow> rat) \<Rightarrow> u64 \<Rightarrow> int \<Rightarrow> rat option" where
  "mixed_ratio rnd nn w =
     (let num = rnd (rnd (2 * rnd (of_nat (unat nn))) * of_int (w - 1));
          den = of_int w * (of_int w + nn) - 2 * nn
      in if den = 0 then None else Some (rnd (num / rnd (of_nat (unat den)))))"

definition Hash_Mixed_Mode :: "(rat \<Rightarrow> rat) \<Rightarrow> hash_config \<Rightarrow> int \<Rightarrow> u64 \<Rightarrow> u64 res" where
  "Hash_Mixed_Mode rnd cfg num_server_total key =
     (let w = hc_num_worker cfg;
          nn = (of_int (num_server_total - w) :: u64);
          nc = (of_int w :: u64);
          bound = (case mixed_mode_bound cfg of None \<Rightarrow> 101 | Some b \<Rightarrow> b)
      in check (num_server_total \<le> bound) (CheckFailed ''bound'')
        (case mixed_ratio rnd nn w of
           None \<Rightarrow> Inl (CheckFailed ''ratio'')
         | Some ratio \<Rightarrow>
             check (ratio \<le> 1) (CheckFailed ''number of (non-colocate servers) > number of (worker)'')
            (check (0 \<le> ratio) (CheckFailed ''ratio'')
            (check (bound \<noteq> 0) (Undefined ''division by zero'')
              (let threshold = rnd (ratio * of_int bound);
                   hash_res = Hash_DJB2 key mod of_int bound
               in if rnd (of_nat (unat hash_res)) < threshold
                  then check (nn \<noteq> 0) (Undefined ''division by zero'')
                         (Inr (Hash_DJB2 hash_res mod nn))
                  else check (nc \<noteq> 0) (Undefined ''division by zero'')
                         (Inr (nn + Hash_DJB2 hash_res mod nc)))))))"

subsection \<open>Encoding\<close>

text \<open>A \<open>size_t\<close> or \<open>uint64_t\<close> value stored in an \<open>int\<close>: the low 32 bits, read as signed.\<close>

definition to_int :: "u64 \<Rightarrow> int" where
  "to_int x = sint (ucast x :: u32)"

text \<open>The server a key goes to, by the configured hash function.\<close>

definition pick_server ::
    "(string \<Rightarrow> u64) \<Rightarrow> (rat \<Rightarrow> rat) \<Rightarrow> hash_config \<Rightarrow> int \<Rightarrow> u64 \<Rightarrow> int res" where
  "pick_server builtin rnd cfg num_servers key =
     (let n = (of_int num_servers :: u64)
      in if hash_knob cfg = ''naive'' then Inr (to_int (Hash_Naive key mod n))
         else if hash_knob cfg = ''built_in''
         then Inr (to_int (Hash_BuiltIn builtin (built_in_coefficient cfg) key mod n))
         else if hash_knob cfg = ''djb2'' then Inr (to_int (Hash_DJB2 key mod n))
         else if hash_knob cfg = ''sdbm'' then Inr (to_int (Hash_SDBM key mod n))
         else if hash_knob cfg = ''mixed''
         then check (mixed_mode cfg) (CheckFailed ''BYTEPS_ENABLE_MIXED_MODE'')
                (rbind (Hash_Mixed_Mode rnd cfg num_servers key) (\<lambda>h.
                   check (to_int h < num_servers) (CheckFailed ''server'') (Inr (to_int h))))
         else Inl (CheckFailed ''Unsupported BYTEPS_KEY_HASH_FN''))"

text \<open>A new key is charged to its server and placed in that server's range.\<close>

definition place_key ::
    "(u64 \<times> u64) list \<Rightarrow> key_encoder \<Rightarrow> u64 \<Rightarrow> u64 \<Rightarrow> pskv \<Rightarrow> int \<Rightarrow> (pskv \<times> key_encoder) res" where
  "place_key krs enc key len kv server =
     check (0 \<le> server) (Undefined ''vector index'')
    (rbind (vec_get (server_accumulated_len enc) (nat server)) (\<lambda>acc.
     rbind (vec_get krs (nat server)) (\<lambda>kr.
       let ps_key = fst kr + key;
           kv' = kv\<lparr>kv_keys := kv_keys kv @ [ps_key], kv_lens := kv_lens kv @ [to_int len],
                    kv_size := to_int len\<rparr>
       in check (ps_key < snd kr) (CheckFailed ''ps_key'')
            (Inr (kv', enc\<lparr>ps_kv := (ps_kv enc)(key \<mapsto> kv'),
                server_accumulated_len := (server_accumulated_len enc)[nat server := acc + len],
                total_accumulated_len := total_accumulated_len enc + len\<rparr>)))))"

definition EncodeDefaultKey :: "(string \<Rightarrow> u64) \<Rightarrow> (rat \<Rightarrow> rat) \<Rightarrow> hash_config \<Rightarrow> (u64 \<times> u64) list \<Rightarrow>
    key_encoder \<Rightarrow> u64 \<Rightarrow> u64 \<Rightarrow> (pskv \<times> key_encoder) res" where
  "EncodeDefaultKey builtin rnd cfg krs enc key len =
     (let kv = map_at empty_pskv (ps_kv enc) key
      in if kv_keys kv \<noteq> []
         then (let kv' = (if 0 < len \<and> of_int (kv_size kv) \<noteq> len
                          then kv\<lparr>kv_size := to_int len, kv_lens := (kv_lens kv)[0 := to_int len]\<rparr>
                          else kv)
               in Inr (kv', enc\<lparr>ps_kv := (ps_kv enc)(key \<mapsto> kv')\<rparr>))
         else (let num_servers = int (length krs)
               in check (0 < num_servers) (CheckFailed ''num_servers'')
                    (rbind (pick_server builtin rnd cfg num_servers key)
                       (place_key krs enc key len kv))))"

text \<open>The server's side: keys relative to the range of the server with rank \<open>my_rank\<close>.\<close>

definition DecodeKey :: "(u64 \<times> u64) list \<Rightarrow> nat \<Rightarrow> u64 \<Rightarrow> u64 res" where
  "DecodeKey krs my_rank key = rbind (vec_get krs my_rank) (\<lambda>(b, e). Inr (key - b))"

definition EncodeKey :: "(u64 \<times> u64) list \<Rightarrow> nat \<Rightarrow> u64 \<Rightarrow> u64 res" where
  "EncodeKey krs my_rank key = rbind (vec_get krs my_rank) (\<lambda>(b, e). Inr (key + b))"

subsection \<open>Lemmas\<close>

lemma to_int_small: "unat x < 2 ^ 31 \<Longrightarrow> to_int x = int (unat x)"
proof -
  assume x: "unat x < 2 ^ 31"
  then have "unat (ucast x :: u32) = unat x"
    by (simp add: unsigned_ucast_eq take_bit_nat_eq_self)
  then show ?thesis using sint_u32_small [of "ucast x"] x by (simp add: to_int_def)
qed

lemma to_int_mod:
  assumes "0 < n" and "n < 2 ^ 31"
  shows "to_int (h mod of_int (int n)) = int (unat h mod n)"
proof -
  have "unat (of_nat n :: u64) = n" using assms by (simp add: unat_of_nat take_bit_nat_eq_self)
  then have u: "unat (h mod of_int (int n)) = unat h mod n" by (simp add: unat_mod)
  have "unat h mod n < 2 ^ 31" using assms mod_less_divisor [of n "unat h"] by linarith
  then show ?thesis using u by (simp only: to_int_small)
qed

lemma pick_server_plain:
  assumes "hash_knob cfg \<in> {''naive'', ''built_in'', ''djb2'', ''sdbm''}" and "0 < n" and "n < 2 ^ 31"
  shows "\<exists>s < n. pick_server builtin rnd cfg (int n) key = Inr (int s)"
  using assms to_int_mod [OF assms(2,3)] unfolding pick_server_def Let_def
  by (auto simp del: of_int_of_nat_eq)

text \<open>
  What the requests of a worker establish: every encoded key sits in the range of one server at
  its own offset, and the servers' loads add up to the total.
\<close>

definition encoder_ok :: "(u64 \<times> u64) list \<Rightarrow> key_encoder \<Rightarrow> bool" where
  "encoder_ok krs enc \<longleftrightarrow>
     (\<forall>k kv. ps_kv enc k = Some kv \<longrightarrow>
        (\<exists>s < length krs. kv_keys kv = [fst (krs ! s) + k] \<and> fst (krs ! s) + k < snd (krs ! s))) \<and>
     sum_list (server_accumulated_len enc) = total_accumulated_len enc"

definition key_placed :: "(u64 \<times> u64) list \<Rightarrow> u64 \<Rightarrow> pskv \<Rightarrow> bool" where
  "key_placed krs key kv \<longleftrightarrow>
     (\<exists>s < length krs. kv_keys kv = [fst (krs ! s) + key] \<and> fst (krs ! s) + key < snd (krs ! s))"

lemma sum_list_add_at:
  fixes xs :: "'a::ab_group_add list"
  shows "i < length xs \<Longrightarrow> sum_list (xs[i := xs ! i + d]) = sum_list xs + d"
proof (induction xs arbitrary: i)
  case (Cons x xs)
  then show ?case by (cases i) (simp_all add: ac_simps)
qed simp

lemma EncodeDefaultKey_old:
  assumes "ps_kv enc key = Some kv" and "kv_keys kv \<noteq> []"
  shows "\<exists>kv'. EncodeDefaultKey builtin rnd cfg krs enc key len =
      Inr (kv', enc\<lparr>ps_kv := (ps_kv enc)(key \<mapsto> kv')\<rparr>) \<and> kv_keys kv' = kv_keys kv"
  using assms by (simp add: EncodeDefaultKey_def map_at_def Let_def)

lemma place_key_Inr:
  "place_key krs enc key len kv0 server = Inr (kv, enc') \<Longrightarrow>
     \<exists>s. int s = server \<and> s < length krs \<and> s < length (server_accumulated_len enc) \<and>
       fst (krs ! s) + key < snd (krs ! s) \<and> kv_keys kv = kv_keys kv0 @ [fst (krs ! s) + key] \<and>
       enc' = enc\<lparr>ps_kv := (ps_kv enc)(key \<mapsto> kv),
         server_accumulated_len := (server_accumulated_len enc)[s := server_accumulated_len enc ! s + len],
         total_accumulated_len := total_accumulated_len enc + len\<rparr>"
  by (auto simp: place_key_def res_simps Let_def intro!: exI [of _ "nat server"])

lemma EncodeDefaultKey_step:
  assumes "EncodeDefaultKey builtin rnd cfg krs enc key len = Inr (kv, enc')" and "encoder_ok krs enc"
  shows "encoder_ok krs enc' \<and> ps_kv enc' key = Some kv \<and> key_placed krs key kv \<and>
    (\<forall>k kv0. ps_kv enc k = Some kv0 \<longrightarrow> (\<exists>kv1. ps_kv enc' k = Some kv1 \<and> kv_keys kv1 = kv_keys kv0))"
proof (cases "ps_kv enc key")
  case (Some kv0)
  then have p: "\<exists>s < length krs. kv_keys kv0 = [fst (krs ! s) + key] \<and> fst (krs ! s) + key < snd (krs ! s)"
    using assms(2) by (simp add: encoder_ok_def)
  then have "kv_keys kv0 \<noteq> []" by auto
  with EncodeDefaultKey_old [OF Some, of builtin rnd cfg krs len] assms(1) obtain
    "enc' = enc\<lparr>ps_kv := (ps_kv enc)(key \<mapsto> kv)\<rparr>" "kv_keys kv = kv_keys kv0" by auto
  then show ?thesis using assms(2) p Some by (auto simp: encoder_ok_def key_placed_def)
next
  case None
  then obtain server where "place_key krs enc key len empty_pskv server = Inr (kv, enc')"
    using assms(1) by (auto simp: EncodeDefaultKey_def map_at_def empty_pskv_def Let_def res_simps)
  from place_key_Inr [OF this] obtain s where s: "s < length krs" "s < length (server_accumulated_len enc)"
    and kr: "fst (krs ! s) + key < snd (krs ! s)" "kv_keys kv = [fst (krs ! s) + key]"
    and enc': "enc' = enc\<lparr>ps_kv := (ps_kv enc)(key \<mapsto> kv),
        server_accumulated_len := (server_accumulated_len enc)[s := server_accumulated_len enc ! s + len],
        total_accumulated_len := total_accumulated_len enc + len\<rparr>"
    by (auto simp: empty_pskv_def)
  have pl: "key_placed krs key kv" using s kr by (auto simp: key_placed_def intro!: exI [of _ s])
  then show ?thesis
    using assms(2) None s(2) by (auto simp: encoder_ok_def enc' sum_list_add_at key_placed_def)
qed

text \<open>The requests of a worker's tensors, in the order in which they are encoded.\<close>

fun encode_all :: "(string \<Rightarrow> u64) \<Rightarrow> (rat \<Rightarrow> rat) \<Rightarrow> hash_config \<Rightarrow> (u64 \<times> u64) list \<Rightarrow>
    key_encoder \<Rightarrow> (u64 \<times> u64) list \<Rightarrow> (pskv list \<times> key_encoder) res" where
  "encode_all builtin rnd cfg krs enc [] = Inr ([], enc)"
| "encode_all builtin rnd cfg krs enc ((k, l) # rs) =
     rbind (EncodeDefaultKey builtin rnd cfg krs enc k l) (\<lambda>(kv, enc1).
     rbind (encode_all builtin rnd cfg krs enc1 rs) (\<lambda>(kvs, enc2). Inr (kv # kvs, enc2)))"

lemma encode_all_inv:
  "encode_all builtin rnd cfg krs enc rs = Inr (kvs, enc') \<Longrightarrow> encoder_ok krs enc \<Longrightarrow>
     encoder_ok krs enc' \<and> length kvs = length rs \<and>
     (\<forall>k kv0. ps_kv enc k = Some kv0 \<longrightarrow> (\<exists>kv1. ps_kv enc' k = Some kv1 \<and> kv_keys kv1 = kv_keys kv0)) \<and>
     (\<forall>i < length rs. key_placed krs (fst (rs ! i)) (kvs ! i) \<and>
        (\<exists>kv1. ps_kv enc' (fst (rs ! i)) = Some kv1 \<and> kv_keys kv1 = kv_keys (kvs ! i)))"
proof (induction rs arbitrary: enc kvs)
  case (Cons r rs)
  obtain k l where r: "r = (k, l)" by (cases r)
  with Cons.prems obtain kv enc1 kvs1 where
    e: "EncodeDefaultKey builtin rnd cfg krs enc k l = Inr (kv, enc1)"
    and rest: "encode_all builtin rnd cfg krs enc1 rs = Inr (kvs1, enc')" and kvs: "kvs = kv # kvs1"
    by (auto simp: res_simps)
  note st = EncodeDefaultKey_step [OF e Cons.prems(2)]
  note IH = Cons.IH [OF rest st [THEN conjunct1]]
  have keep: "\<forall>k kv0. ps_kv enc k = Some kv0 \<longrightarrow> (\<exists>kv1. ps_kv enc' k = Some kv1 \<and> kv_keys kv1 = kv_keys kv0)"
    using st IH by metis
  have "\<exists>kv1. ps_kv enc' k = Some kv1 \<and> kv_keys kv1 = kv_keys kv" using st IH by blast
  then have "key_placed krs (fst ((r # rs) ! i)) (kvs ! i) \<and>
      (\<exists>kv1. ps_kv enc' (fst ((r # rs) ! i)) = Some kv1 \<and> kv_keys kv1 = kv_keys (kvs ! i))"
    if "i < length (r # rs)" for i
    using that st IH by (cases i) (auto simp: r kvs)
  then show ?case using keep IH kvs by auto
qed simp

text \<open>Ranges as the library lays them out: in order, disjoint, with room for 48-bit keys.\<close>

definition ranges_ok :: "(u64 \<times> u64) list \<Rightarrow> bool" where
  "ranges_ok krs \<longleftrightarrow>
     (\<forall>j < length krs. \<forall>i < j. snd (krs ! i) \<le> fst (krs ! j)) \<and>
     (\<forall>i < length krs. unat (fst (krs ! i)) + 2 ^ 48 \<le> 2 ^ 64)"

lemma placed_bounds:
  assumes "ranges_ok krs" and "s < length krs" and "fst (krs ! s) + k < snd (krs ! s)" and "unat k < 2 ^ 48"
  shows "unat (fst (krs ! s) + k) = unat (fst (krs ! s)) + unat k"
    and "fst (krs ! s) \<le> fst (krs ! s) + k"
proof -
  have "unat (fst (krs ! s)) + unat k < 2 ^ 64" using assms by (fastforce simp: ranges_ok_def)
  then show u: "unat (fst (krs ! s) + k) = unat (fst (krs ! s)) + unat k" by (rule unat_u64_plus)
  then show "fst (krs ! s) \<le> fst (krs ! s) + k" by (simp add: word_le_nat_alt)
qed

lemma placed_inj:
  assumes "ranges_ok krs" and "key_placed krs k kv" and "key_placed krs k' kv'"
    and "unat k < 2 ^ 48" and "unat k' < 2 ^ 48" and "kv_keys kv = kv_keys kv'"
  shows "k = k'"
proof -
  obtain s t where s: "s < length krs" "kv_keys kv = [fst (krs ! s) + k]" "fst (krs ! s) + k < snd (krs ! s)"
    and t: "t < length krs" "kv_keys kv' = [fst (krs ! t) + k']" "fst (krs ! t) + k' < snd (krs ! t)"
    using assms(2,3) by (auto simp: key_placed_def)
  have eq: "fst (krs ! s) + k = fst (krs ! t) + k'" using s t assms(6) by simp
  note bs = placed_bounds(2) [OF assms(1) s(1,3) assms(4)]
    and bt = placed_bounds(2) [OF assms(1) t(1,3) assms(5)]
  have "\<not> s < t"
  proof
    assume "s < t"
    then have "snd (krs ! s) \<le> fst (krs ! t)" using assms(1) t(1) by (simp add: ranges_ok_def)
    from order.trans [OF this bt] have "snd (krs ! s) \<le> fst (krs ! s) + k" by (simp only: eq)
    then show False using s(3) by (meson leD)
  qed
  moreover have "\<not> t < s"
  proof
    assume "t < s"
    then have "snd (krs ! t) \<le> fst (krs ! s)" using assms(1) s(1) by (simp add: ranges_ok_def)
    from order.trans [OF this bs] have "snd (krs ! t) \<le> fst (krs ! t) + k'" by (simp only: eq)
    then show False using t(3) by (meson leD)
  qed
  ultimately have "s = t" by simp
  then show ?thesis using eq by simp
qed

subsection \<open>Properties\<close>

text \<open>
  With any of the four plain hash functions a new key is placed on one of the servers: the
  call cannot fail when every range has room for the key, the wire key decodes on that server to
  the key again, and the server's load grows by the length of the tensor's partition.
\<close>

theorem encode_new_key:
  assumes "hash_knob cfg \<in> {''naive'', ''built_in'', ''djb2'', ''sdbm''}"
    and "krs \<noteq> []" and "length krs < 2 ^ 31" and "length (server_accumulated_len enc) = length krs"
    and "ps_kv enc key = None" and "\<forall>kr \<in> set krs. fst kr + key < snd kr"
  shows "\<exists>s kv enc'. s < length krs \<and>
    EncodeDefaultKey builtin rnd cfg krs enc key len = Inr (kv, enc') \<and>
    kv_keys kv = [fst (krs ! s) + key] \<and> DecodeKey krs s (hd (kv_keys kv)) = Inr key \<and>
    server_accumulated_len enc' = (server_accumulated_len enc)[s := server_accumulated_len enc ! s + len]"
proof -
  obtain s where s: "s < length krs"
    and p: "pick_server builtin rnd cfg (int (length krs)) key = Inr (int s)"
    using pick_server_plain [OF assms(1), of "length krs"] assms(2,3) by blast
  have "fst (krs ! s) + key < snd (krs ! s)" using assms(6) s by simp
  then show ?thesis
    using s p assms(2,4,5)
    by (intro exI [of _ s])
      (simp add: EncodeDefaultKey_def map_at_def empty_pskv_def place_key_def DecodeKey_def Let_def
        case_prod_beta)
qed

definition demo_ranges :: "(u64 \<times> u64) list" where
  "demo_ranges = [(0, 2 ^ 62), (2 ^ 62, 2 ^ 63)]"

definition demo_encoder :: key_encoder where
  "demo_encoder = \<lparr>ps_kv = Map.empty, server_accumulated_len = [0, 0], total_accumulated_len = 0\<rparr>"

definition demo_hash :: hash_config where
  "demo_hash = \<lparr>hash_knob = ''naive'', mixed_mode = False, built_in_coefficient = 1,
     hc_num_worker = 1, mixed_mode_bound = None\<rparr>"

lemmas demo_hash_defs = demo_ranges_def demo_encoder_def demo_hash_def

theorem encode_new_key_witness:
  "\<exists>s kv enc'. s < 2 \<and>
     EncodeDefaultKey (\<lambda>_. 0) (\<lambda>x. x) demo_hash demo_ranges demo_encoder 65536 100 = Inr (kv, enc') \<and>
     DecodeKey demo_ranges s (hd (kv_keys kv)) = Inr 65536"
proof -
  have "\<exists>s kv enc'. s < length demo_ranges \<and>
    EncodeDefaultKey (\<lambda>_. 0) (\<lambda>x. x) demo_hash demo_ranges demo_encoder 65536 100 = Inr (kv, enc') \<and>
    kv_keys kv = [fst (demo_ranges ! s) + 65536] \<and> DecodeKey demo_ranges s (hd (kv_keys kv)) = Inr 65536 \<and>
    server_accumulated_len enc' =
      (server_accumulated_len demo_encoder)[s := server_accumulated_len demo_encoder ! s + 100]"
    by (rule encode_new_key) (simp_all add: demo_hash_defs)
  moreover have "length demo_ranges = 2" by (simp add: demo_ranges_def)
  ultimately show ?thesis by metis
qed

text \<open>
  C20. Over any run of encodings, with any hash function, repeated lengths and repeated keys: two
  requests get the same wire key exactly when they are for the same key, so no two partitions
  collide on a server and a partition always goes to the server that holds it; and the servers'
  accumulated loads add up to the total.
\<close>

theorem encoding_injective_and_stable:
  assumes "encode_all builtin rnd cfg krs enc rs = Inr (kvs, enc')" and "encoder_ok krs enc"
    and "ranges_ok krs" and "\<forall>r \<in> set rs. unat (fst r) < 2 ^ 48"
    and "i < length rs" and "j < length rs"
  shows "(kv_keys (kvs ! i) = kv_keys (kvs ! j) \<longleftrightarrow> fst (rs ! i) = fst (rs ! j)) \<and>
    sum_list (server_accumulated_len enc') = total_accumulated_len enc'"
proof -
  note inv = encode_all_inv [OF assms(1,2)]
  have pl: "key_placed krs (fst (rs ! x)) (kvs ! x)"
    "\<exists>kv1. ps_kv enc' (fst (rs ! x)) = Some kv1 \<and> kv_keys kv1 = kv_keys (kvs ! x)"
    if "x < length rs" for x using inv that by auto
  have "kv_keys (kvs ! i) = kv_keys (kvs ! j) \<Longrightarrow> fst (rs ! i) = fst (rs ! j)"
    using placed_inj [OF assms(3) pl(1) [OF assms(5)] pl(1) [OF assms(6)]] assms(4-6) by simp
  moreover have "fst (rs ! i) = fst (rs ! j) \<Longrightarrow> kv_keys (kvs ! i) = kv_keys (kvs ! j)"
    using pl(2) [OF assms(5)] pl(2) [OF assms(6)] by auto
  ultimately show ?thesis using inv by (auto simp: encoder_ok_def)
qed

theorem encoding_injective_and_stable_witness:
  "\<exists>kvs enc'. encode_all (\<lambda>_. 0) (\<lambda>x. x) demo_hash demo_ranges demo_encoder [(1, 10), (2, 20), (1, 10)] =
      Inr (kvs, enc') \<and> kv_keys (kvs ! 0) \<noteq> kv_keys (kvs ! 1)"
proof -
  let ?rs = "[(1, 10), (2, 20), (1, 10)] :: (u64 \<times> u64) list"
  have ps: "pick_server (\<lambda>_. 0) (\<lambda>x. x) demo_hash 2 k = Inr (to_int (Hash_Naive k mod 2))" for k
    by (simp add: pick_server_def demo_hash_def)
  obtain kvs enc' where e: "encode_all (\<lambda>_. 0) (\<lambda>x. x) demo_hash demo_ranges demo_encoder ?rs = Inr (kvs, enc')"
    by (simp add: demo_encoder_def demo_ranges_def EncodeDefaultKey_def ps place_key_def map_at_def
        empty_pskv_def Hash_Naive_def to_int_def Let_def)
  have r: "ranges_ok demo_ranges"
    unfolding ranges_ok_def demo_ranges_def by (auto simp: less_Suc_eq)
  have "encoder_ok demo_ranges demo_encoder" by (simp add: encoder_ok_def demo_encoder_def)
  from encoding_injective_and_stable [OF e this r, of 0 1] e show ?thesis by auto
qed

end
