(* ===== verification/Worker_Global.thy ===== *)
theory Worker_Global
  imports Cpu_Reducer Key_Hash
begin

section \<open>The state of a worker process\<close>

text \<open>
  Models \<open>deep_inc/common/global.h\<close> and \<open>global.cc\<close> (the hash functions are in \<open>Key_Hash\<close>) and the
  queue of \<open>thread_pool.h\<close>: the process-wide state of a worker, its initialisation and shutdown,
  the table of declared tensors, the trace bookkeeping and the speed monitor. The record extends
  the part the scheduled queues share (ready tables and contexts). What the process does to the
  outside (callbacks, signals, NCCL, CUDA and parameter-server calls) is appended to a log.
\<close>

subsection \<open>Effects and pending work\<close>

datatype effect =
    Callback nat status
  | Signal string comm_msg
  | NcclGroupStart
  | NcclGroupEnd
  | NcclReduceScatter int int int nccl_data_type nat nat
  | NcclReduce int int int nccl_data_type int nat nat
  | NcclAllGather int int int nccl_data_type nat nat
  | NcclBroadcast int int int nccl_data_type int nat nat
  | EventRecord nat
  | EventSynchronize nat
  | EventDestroy nat
  | MemcpyDeviceToHost int int int
  | MemcpyHostToDevice int int int
  | ReduceSum int int int data_type
  | ZPush "u64 list" int int "int list" int
  | ZPull "u64 list" int int "int list" int
  | ZPushWait "u64 list" nat int "int list" int
  | OpenSharedMemory string u64 nat
  | HostRegister nat nat
  | CudaMalloc nat
  | CompressorRun nat int int int
  | DecompressorRun nat int int int
  | OutputTraces
  | FinalizePS

text \<open>Closures handed to other threads: the completions of pushes and pulls, and pool jobs.\<close>

datatype closure = PushDone tte | PullDone tte | CompressJob tte | DecompressJob tte

subsection \<open>State\<close>

record speed_entry =
  se_ts :: int
  se_bytes :: "u64 option"

record speed_monitor =
  sp_initialized :: bool
  sp_points :: "speed_entry list"
  sp_acc_size :: u64
  sp_limit :: nat
  sp_last_ts :: int
  sp_should_record :: bool

record worker = shared +
  w_initialized :: bool
  w_should_shutdown :: bool
  w_rank :: int
  w_local_rank :: int
  w_size :: int
  w_local_size :: int
  w_worker_id :: int
  w_num_worker :: int
  w_role :: byteps_role
  w_is_root_device :: bool
  w_is_distributed :: bool
  w_is_cross_pcie :: bool
  w_partition_bytes :: u32
  w_min_compress_bytes :: u32
  w_is_trace :: int
  w_start_step :: int
  w_end_step :: int
  w_name2end :: "string list"
  w_output_counter :: int
  w_pagesize :: int
  w_basic_comm :: "comm option"
  w_encoder :: key_encoder
  w_hash :: hash_config
  w_queues :: "queue_type \<rightharpoonup> sched_queue"
  w_threads :: nat
  w_joined :: int
  w_ps :: bool
  w_using_reduce :: bool
  w_reduce_roots :: "int list"
  w_declared :: "string list"
  w_is_resuming :: bool
  w_next_key :: u32
  w_nccl :: "nccl_manager option"
  w_cpu_reducer :: "cpu_reducer option"
  w_pool :: "closure list option"
  w_sample_key :: u64
  w_speed :: speed_monitor
  w_counters :: "nat \<rightharpoonup> int"
  w_pending :: "closure list"
  w_log :: "effect list"

definition empty_encoder :: key_encoder where
  "empty_encoder = \<lparr>ps_kv = Map.empty, server_accumulated_len = [], total_accumulated_len = 0\<rparr>"

text \<open>The values of the static members before \<open>Init\<close>.\<close>

definition initial_worker :: worker where
  "initial_worker = \<lparr>rts = Map.empty, ctxs = Map.empty,
     w_initialized = False, w_should_shutdown = False, w_rank = 0, w_local_rank = 0, w_size = 1,
     w_local_size = 1, w_worker_id = 0, w_num_worker = 1, w_role = LOCAL_ROOT,
     w_is_root_device = False, w_is_distributed = False, w_is_cross_pcie = False,
     w_partition_bytes = 4096000, w_min_compress_bytes = 65536,
     w_is_trace = 0, w_start_step = 10, w_end_step = 20, w_name2end = [], w_output_counter = 0,
     w_pagesize = 0, w_basic_comm = None, w_encoder = empty_encoder,
     w_hash = \<lparr>hash_knob = [], mixed_mode = False, built_in_coefficient = 0, hc_num_worker = 1,
               mixed_mode_bound = None\<rparr>,
     w_queues = Map.empty, w_threads = 0, w_joined = 0, w_ps = False, w_using_reduce = False,
     w_reduce_roots = [], w_declared = [], w_is_resuming = False, w_next_key = 0, w_nccl = None,
     w_cpu_reducer = None, w_pool = None, w_sample_key = -1,
     w_speed = \<lparr>sp_initialized = False, sp_points = [], sp_acc_size = 0, sp_limit = 1024,
                sp_last_ts = 0, sp_should_record = True\<rparr>,
     w_counters = Map.empty, w_pending = [], w_log = []\<rparr>"

definition emit :: "effect \<Rightarrow> worker \<Rightarrow> worker" where
  "emit e w = w\<lparr>w_log := w_log w @ [e]\<rparr>"

subsection \<open>Sizes\<close>

definition DivUp :: "u64 \<Rightarrow> u64 \<Rightarrow> u64 res" where
  "DivUp x y = check (y \<noteq> 0) (Undefined ''division by zero'') (Inr ((x + y - 1) div y))"

definition RoundUp :: "u64 \<Rightarrow> u64 \<Rightarrow> u64 res" where
  "RoundUp x y = rbind (DivUp x y) (\<lambda>d. Inr (d * y))"

definition RoundUpToPageSize :: "worker \<Rightarrow> u64 \<Rightarrow> u64 res" where
  "RoundUpToPageSize w x = RoundUp x (of_int (w_pagesize w))"

definition get_nccl :: "worker \<Rightarrow> nccl_manager res" where
  "get_nccl w = (case w_nccl w of None \<Rightarrow> Inl (Undefined ''null nccl manager'') | Some nm \<Rightarrow> Inr nm)"

definition GetPcieSwitchIndex :: "worker \<Rightarrow> nccl_manager \<Rightarrow> int" where
  "GetPcieSwitchIndex w nm = w_local_rank w div nm_size nm"

definition GetPcieSwitchNum :: "worker \<Rightarrow> nccl_manager \<Rightarrow> int" where
  "GetPcieSwitchNum w nm = w_local_size w div nm_size nm"

definition GetReduceRootByKey :: "worker \<Rightarrow> u64 \<Rightarrow> int res" where
  "GetReduceRootByKey w k =
     check (w_reduce_roots w \<noteq> []) (Undefined ''division by zero'')
       (Inr (w_reduce_roots w ! (unat (Hash_DJB2 k) mod length (w_reduce_roots w))))"

subsection \<open>Queues\<close>

definition GetScheduledQueue :: "worker \<Rightarrow> queue_type \<Rightarrow> sched_queue res" where
  "GetScheduledQueue w qt =
     (case w_queues w qt of None \<Rightarrow> Inl (Undefined ''null queue'') | Some q \<Rightarrow> Inr q)"

definition set_queue :: "queue_type \<Rightarrow> sched_queue \<Rightarrow> worker \<Rightarrow> worker" where
  "set_queue qt q w = w\<lparr>w_queues := (w_queues w)(qt \<mapsto> q)\<rparr>"

text \<open>What the queue's constructor asks of the process.\<close>

definition queue_env_of :: "environ \<Rightarrow> worker \<Rightarrow> nccl_manager \<Rightarrow> queue_env res" where
  "queue_env_of env w nm =
     rbind (case env ''BYTEPS_SCHEDULING_CREDIT'' of
              None \<Rightarrow> Inr None | Some v \<Rightarrow> rbind (atoi v) (\<lambda>c. Inr (Some c))) (\<lambda>credit.
       Inr \<lparr>qe_signal_root = IsSignalRoot nm (w_local_rank w), qe_scheduling_credit = credit,
            qe_partition_bound = w_partition_bytes w, qe_cross_pcie = w_is_cross_pcie w,
            qe_reducer_root = (case w_cpu_reducer w of None \<Rightarrow> False
                               | Some cr \<Rightarrow> cpu_isRoot cr (w_local_rank w)),
            qe_root_device = w_is_root_device w\<rparr>)"

definition CreateScheduledQueue :: "environ \<Rightarrow> queue_type \<Rightarrow> worker \<Rightarrow> worker res" where
  "CreateScheduledQueue env qt w =
     (case w_queues w qt of
        Some q \<Rightarrow> Inr w
      | None \<Rightarrow>
          rbind (get_nccl w) (\<lambda>nm. rbind (queue_env_of env w nm) (\<lambda>qe.
            Inr (set_queue qt (BytePSScheduledQueue qe (rts w) qt) w))))"

fun create_queues :: "environ \<Rightarrow> queue_type list \<Rightarrow> worker \<Rightarrow> worker res" where
  "create_queues env [] w = Inr w"
| "create_queues env (qt # qts) w = rbind (CreateScheduledQueue env qt w) (create_queues env qts)"

subsection \<open>Initialisation\<close>

text \<open>\<open>roots_ss >> i\<close> until it fails, skipping one comma after each number.\<close>

function read_ints :: "string \<Rightarrow> int list" where
  "read_ints s =
     (let s1 = dropWhile is_space s;
          neg = (s1 \<noteq> [] \<and> hd s1 = CHR ''-'');
          s2 = (if s1 \<noteq> [] \<and> (hd s1 = CHR ''-'' \<or> hd s1 = CHR ''+'') then tl s1 else s1);
          ds = takeWhile is_digit s2;
          v = (if neg then - digits_value ds else digits_value ds);
          rest = dropWhile is_digit s2
      in if ds = [] \<or> v < - (2 ^ 31) \<or> 2 ^ 31 \<le> v then []
         else v # read_ints (if rest \<noteq> [] \<and> hd rest = CHR '','' then tl rest else rest))"
  by pat_completeness auto
termination
proof (relation "measure length")
  fix s s1 :: string and neg s2 ds v rest
  assume a: "s1 = dropWhile is_space s"
    "s2 = (if s1 \<noteq> [] \<and> (hd s1 = CHR ''-'' \<or> hd s1 = CHR ''+'') then tl s1 else s1)"
    "ds = takeWhile is_digit s2" "rest = dropWhile is_digit s2"
    "\<not> (ds = [] \<or> v < - (2 ^ 31) \<or> 2 ^ 31 \<le> v)"
  have "length s2 \<le> length s"
    using a(1,2) length_dropWhile_le [of is_space s] by (auto simp: le_diff_conv)
  moreover have "length s2 = length ds + length rest"
    using a(3,4) by (metis length_append takeWhile_dropWhile_id)
  ultimately have "length rest < length s" using a(5) by (cases ds) auto
  then show "((if rest \<noteq> [] \<and> hd rest = CHR '','' then tl rest else rest), s) \<in> measure length"
    by (auto simp: less_imp_diff_less)
qed simp

text \<open>
  \<open>strtoull(s, nullptr, 0)\<close> on text without a sign: the prefixes \<open>0x\<close> and \<open>0\<close> choose the base,
  and a value that does not fit is the largest one.
\<close>

definition hex_digit :: "char \<Rightarrow> nat option" where
  "hex_digit c =
     (let n = (of_char c :: nat)
      in if 48 \<le> n \<and> n \<le> 57 then Some (n - 48)
         else if 97 \<le> n \<and> n \<le> 102 then Some (n - 87)
         else if 65 \<le> n \<and> n \<le> 70 then Some (n - 55) else None)"

fun read_base :: "nat \<Rightarrow> nat \<Rightarrow> string \<Rightarrow> nat" where
  "read_base b acc [] = acc"
| "read_base b acc (c # cs) =
     (case hex_digit c of
        None \<Rightarrow> acc | Some d \<Rightarrow> if d < b then read_base b (acc * b + d) cs else acc)"

definition strtoull0 :: "string \<Rightarrow> u64" where
  "strtoull0 s =
     (let t = dropWhile is_space s;
          v = (if take 2 t = ''0x'' \<or> take 2 t = ''0X'' then read_base 16 0 (drop 2 t)
               else if take 1 t = ''0'' then read_base 8 0 t else read_base 10 0 t)
      in if v < 2 ^ 64 then of_nat v else -1)"

text \<open>What the operating system and NCCL answer during \<open>Init\<close>.\<close>

record init_os =
  io_comm :: "(int \<times> int) \<times> (int \<times> int)"
  io_nccl :: "(int \<times> int) \<times> (int \<times> int)"
  io_cpu :: "(int \<times> int) \<times> (int \<times> int)"
  io_nccl_rc :: "nat \<Rightarrow> int"
  io_nccl_id_size :: int
  io_pagesize :: int

text \<open>The first part of \<open>Init\<close>: the environment, the ranks and the sizes.\<close>

definition init_config :: "environ \<Rightarrow> init_os \<Rightarrow> worker \<Rightarrow> worker res" where
  "init_config env os w =
     rbind (env_int env ''BYTEPS_TRACE_ON'' (w_is_trace w)) (\<lambda>tr.
     rbind (env_int env ''BYTEPS_TRACE_START_STEP'' (w_start_step w)) (\<lambda>ss.
     rbind (env_int env ''BYTEPS_TRACE_END_STEP'' (w_end_step w)) (\<lambda>es.
     rbind (comm_init env (io_comm os)) (\<lambda>(c, role).
     rbind (env_int env ''BYTEPS_PARTITION_BYTES'' (uint (w_partition_bytes w))) (\<lambda>pb.
     rbind (env_int env ''BYTEPS_MIN_COMPRESS_BYTES'' (uint (w_min_compress_bytes w))) (\<lambda>mc.
     check (0 < io_pagesize os) (CheckFailed ''_pagesize'')
    (rbind (i32 (comm_local_size c * io_pagesize os)) (\<lambda>unit.
     rbind (RoundUp (ucast (of_int pb :: u32)) (of_int unit)) (\<lambda>rounded.
     rbind (env_required env ''DMLC_NUM_WORKER'') (\<lambda>nw.
     rbind (env_int env ''BYTEPS_FORCE_DISTRIBUTED'' (if w_is_distributed w then 1 else 0)) (\<lambda>fd.
       Inr (w\<lparr>w_is_trace := tr, w_start_step := ss, w_end_step := es, w_basic_comm := Some c,
              w_rank := comm_rank c, w_size := comm_size c, w_local_rank := comm_local_rank c,
              w_local_size := comm_local_size c, w_worker_id := comm_worker_id c, w_role := role,
              w_is_root_device := (role = LOCAL_ROOT), w_pagesize := io_pagesize os,
              w_partition_bytes := ucast rounded, w_min_compress_bytes := of_int mc,
              w_num_worker := nw, w_is_distributed := (1 < nw \<or> fd \<noteq> 0)\<rparr>))))))))))))"

text \<open>The hash function and the load counters of a distributed job.\<close>

definition init_hash :: "environ \<Rightarrow> worker \<Rightarrow> worker res" where
  "init_hash env w =
     (if \<not> w_is_distributed w then Inr w
      else
        rbind (env_required env ''DMLC_NUM_SERVER'') (\<lambda>ns.
        rbind (env_int env ''BYTEPS_ENABLE_MIXED_MODE'' 0) (\<lambda>mm.
          let knob0 = (case env ''BYTEPS_KEY_HASH_FN'' of None \<Rightarrow> ''djb2'' | Some k \<Rightarrow> k);
              knob = (if mm \<noteq> 0 then ''mixed'' else knob0)
          in rbind (if knob = ''built_in'' then env_int env ''BYTEPS_BUILT_IN_HASH_COEF'' 1
                    else Inr (uint (built_in_coefficient (w_hash w)))) (\<lambda>coef.
             rbind (case env ''BYTEPS_MIXED_MODE_BOUND'' of
                      None \<Rightarrow> Inr None | Some b \<Rightarrow> rbind (atoi b) (\<lambda>x. Inr (Some x))) (\<lambda>bound.
               Inr (w\<lparr>w_hash := \<lparr>hash_knob = knob, mixed_mode = (mm \<noteq> 0),
                                  built_in_coefficient = of_int coef,
                                  hc_num_worker = w_num_worker w, mixed_mode_bound = bound\<rparr>,
                      w_encoder := (w_encoder w)\<lparr>server_accumulated_len :=
                        server_accumulated_len (w_encoder w) @ replicate (nat ns) 0\<rparr>\<rparr>))))))"

text \<open>
  NCCL, the CPU reducer (only across PCIe switches), the ready tables and the thread pool. The
  pool is made only when \<open>BYTEPS_THREADPOOL_SIZE\<close> is set.
\<close>

definition init_comms :: "environ \<Rightarrow> init_os \<Rightarrow> worker \<Rightarrow> worker res" where
  "init_comms env os w =
     (case w_basic_comm w of
        None \<Rightarrow> Inl (Undefined ''null communicator'')
      | Some c \<Rightarrow>
          rbind (NcclManager env c (io_nccl os) (io_nccl_rc os) (io_nccl_id_size os)) (\<lambda>(nm, acts).
            let cross = nm_size nm < w_local_size w
            in rbind (if cross
                      then rbind (CpuReducer env (Some c) (io_cpu os) (nm_size nm) (w_local_rank w)
                                    (w_local_size w)) (\<lambda>cr. Inr (Some cr))
                      else Inr (w_cpu_reducer w)) (\<lambda>cr.
                 Inr (w\<lparr>w_nccl := Some nm, w_is_cross_pcie := cross, w_cpu_reducer := cr\<rparr>))))"

definition init_tables :: "environ \<Rightarrow> worker \<Rightarrow> worker res" where
  "init_tables env w =
     rbind (get_nccl w) (\<lambda>nm.
     rbind (if w_is_root_device w
            then (case env ''BYTEPS_THREADPOOL_SIZE'' of
                    None \<Rightarrow> Inr (w_pool w) | Some v \<Rightarrow> rbind (atoi v) (\<lambda>n. Inr (Some [])))
            else Inr (w_pool w)) (\<lambda>pool.
       let t1 = (if w_is_root_device w
                 then (rts w)(RT_PUSH \<mapsto> ReadyTable (w_local_size w - 1) ''PUSH'')
                 else (rts w)(RT_COPY \<mapsto> ReadyTable 1 ''COPY''));
           cpu_root = (case w_cpu_reducer w of None \<Rightarrow> False | Some cr \<Rightarrow> cpu_isRoot cr (w_local_rank w))
       in check (w_is_cross_pcie w \<longrightarrow> w_cpu_reducer w \<noteq> None) (Undefined ''null cpu reducer'')
         (let t2 = (if w_is_cross_pcie w \<and> cpu_root
                    then t1(RT_PCIE_REDUCE \<mapsto> ReadyTable (GetPcieSwitchNum w nm - 1) ''PCIE_REDUCE'')
                    else t1);
              t3 = (if IsSignalRoot nm (w_local_rank w)
                    then t2(RT_REDUCE \<mapsto> ReadyTable (nm_size nm - 1) ''NCCL_REDUCE'',
                            RT_BROADCAST \<mapsto> ReadyTable (nm_size nm - 1) ''NCCL_BROADCAST'')
                    else t2)
          in Inr (w\<lparr>rts := t3, w_pool := pool\<rparr>))))"

definition init_roots :: "environ \<Rightarrow> worker \<Rightarrow> worker res" where
  "init_roots env w =
     (case env ''BYTEPS_REDUCE_ROOTS'' of
        None \<Rightarrow> Inr w
      | Some s \<Rightarrow>
          check (\<not> w_is_cross_pcie w) (CheckFailed ''BYTEPS_REDUCE_ROOTS'')
            (Inr (w\<lparr>w_using_reduce := True, w_reduce_roots := w_reduce_roots w @ read_ints s\<rparr>)))"

definition global_Init :: "environ \<Rightarrow> init_os \<Rightarrow> worker \<Rightarrow> worker res" where
  "global_Init env os w =
     (if w_initialized w then Inr w
      else
        rbind (init_config env os w) (\<lambda>w1.
        rbind (init_hash env w1) (\<lambda>w2.
        rbind (init_comms env os w2) (\<lambda>w3.
        rbind (init_tables env w3) (\<lambda>w4.
        rbind (init_roots env w4) (\<lambda>w5.
        rbind (create_queues env all_queue_types w5) (\<lambda>w6.
          Inr (w6\<lparr>w_joined := 0, w_initialized := True,
                  w_sample_key := (case env ''BYTEPS_DEBUG_SAMPLE_TENSOR'' of
                                     None \<Rightarrow> w_sample_key w6 | Some v \<Rightarrow> strtoull0 v)\<rparr>))))))))"

definition GetOrInitPS :: "worker \<Rightarrow> bool \<times> worker" where
  "GetOrInitPS w =
     (if \<not> w_ps w \<and> w_is_distributed w \<and> w_role w = LOCAL_ROOT then (True, w\<lparr>w_ps := True\<rparr>)
      else (w_ps w, w))"

definition global_Start :: "nat \<Rightarrow> worker \<Rightarrow> worker" where
  "global_Start nfunc w = w\<lparr>w_threads := w_threads w + nfunc\<rparr>"

definition CheckInit :: "worker \<Rightarrow> status" where
  "CheckInit w =
     (if w_initialized w then Status_OK
      else Status_PreconditionError ''BytePS has not been initialized; use bps.init().'')"

subsection \<open>Shutdown\<close>

definition ReportThreadFinish :: "worker \<Rightarrow> worker" where
  "ReportThreadFinish w = w\<lparr>w_joined := w_joined w + 1\<rparr>"

definition IsAllThreadFinish :: "int \<Rightarrow> worker \<Rightarrow> bool" where
  "IsAllThreadFinish n w \<longleftrightarrow> w_joined w = n"

text \<open>
  \<open>Shutdown\<close> raises the flag first; once every thread has reported (the loop waits for that) it
  releases everything and resets the state, except the profiling state, the list of declared
  tensors, the reduce roots and the thread pool.
\<close>

definition Shutdown_begin :: "worker \<Rightarrow> worker" where
  "Shutdown_begin w = w\<lparr>w_should_shutdown := True\<rparr>"

definition Shutdown_end :: "worker \<Rightarrow> worker option" where
  "Shutdown_end w =
     (if \<not> IsAllThreadFinish (int (w_threads w)) w then None
      else Some ((if w_ps w then emit FinalizePS w else w)
             \<lparr>w_queues := Map.empty, w_ps := False, rts := Map.empty, w_basic_comm := None,
              w_cpu_reducer := None, w_nccl := None, w_threads := 0, w_joined := 0,
              ctxs := Map.empty, w_encoder := empty_encoder, w_next_key := 0,
              w_initialized := False, w_should_shutdown := False\<rparr>))"

subsection \<open>Declared tensors\<close>

definition new_context :: "string \<Rightarrow> u64 \<Rightarrow> bps_context" where
  "new_context name key = \<lparr>initialized = False, ctx_name = name, declared_key = key, key_list = [],
     ctx_cpubuff = None, ctx_gpu_ptr = None, ctx_pcie_cpubuff = [], buff_len = 0, comm_time = [],
     profile_flag = False, step_cnt = 0, ctx_local_rank = 0, part_comm_time = Map.empty,
     compressor_list = [], ctx_kwargs = []\<rparr>"

definition IsTensorDeclared :: "string \<Rightarrow> worker \<Rightarrow> bool \<times> worker" where
  "IsTensorDeclared name w =
     (case ctxs w name of
        Some c \<Rightarrow> (True, w)
      | None \<Rightarrow>
          (False, w\<lparr>w_declared := (if name \<in> set (w_declared w) then w_declared w
                                    else w_declared w @ [name]),
                    ctxs := (ctxs w)(name \<mapsto> new_context name (ucast (w_next_key w))),
                    w_next_key := w_next_key w + 1\<rparr>))"

fun redeclare_loop :: "string list \<Rightarrow> worker \<Rightarrow> worker" where
  "redeclare_loop [] w = w"
| "redeclare_loop (n # ns) w = redeclare_loop ns (snd (IsTensorDeclared n w))"

definition ReDeclareTensor :: "worker \<Rightarrow> worker" where
  "ReDeclareTensor w = redeclare_loop (w_declared w) w"

definition GetContextFromName :: "string \<Rightarrow> worker \<Rightarrow> bps_context res" where
  "GetContextFromName name w =
     (case ctxs w name of None \<Rightarrow> Inl (CheckFailed ''is not initialized'') | Some c \<Rightarrow> Inr c)"

definition RegisterCompressor :: "string \<Rightarrow> kwargs \<Rightarrow> worker \<Rightarrow> worker res" where
  "RegisterCompressor name kw w =
     rbind (GetContextFromName name w) (\<lambda>c.
       Inr (w\<lparr>ctxs := (ctxs w)(name \<mapsto> c\<lparr>ctx_kwargs := kw\<rparr>)\<rparr>))"

definition GetTensorCount :: "worker \<Rightarrow> u32" where
  "GetTensorCount w = of_nat (card (dom (ctxs w)))"

subsection \<open>Traces\<close>

definition Who2beOutput :: "string \<Rightarrow> worker \<Rightarrow> worker" where
  "Who2beOutput name w =
     (if name \<in> set (w_name2end w) then w
      else w\<lparr>w_name2end := w_name2end w @ [name], w_output_counter := w_output_counter w + 1\<rparr>)"

definition IsAllTensorOutput :: "string \<Rightarrow> worker \<Rightarrow> (bool \<times> worker) res" where
  "IsAllTensorOutput name w =
     check (name \<in> set (w_name2end w)) (CheckFailed ''Output tensor must been registered'')
       (let c = w_output_counter w - 1 in Inr (c = 0, w\<lparr>w_output_counter := c\<rparr>))"

definition set_context :: "string \<Rightarrow> bps_context \<Rightarrow> worker \<Rightarrow> worker" where
  "set_context name c w = w\<lparr>ctxs := (ctxs w)(name \<mapsto> c)\<rparr>"

text \<open>\<open>name\<close> is the context's own key in the table, as \<open>ctxt->tensor_name\<close>.\<close>

definition SetProfileFlag :: "string \<Rightarrow> worker \<Rightarrow> worker res" where
  "SetProfileFlag name w =
     (case ctxs w name of
        None \<Rightarrow> Inl (Undefined ''null context'')
      | Some c \<Rightarrow>
          if w_is_trace w = 1
          then check (1 \<le> w_start_step w \<and> w_start_step w < w_end_step w) (CheckFailed ''TRACE_STEP'')
            (if step_cnt c = w_start_step w - 1
             then Inr (Who2beOutput (ctx_name c) (set_context name (c\<lparr>profile_flag := True\<rparr>) w))
             else if step_cnt c = w_end_step w
             then rbind (IsAllTensorOutput (ctx_name c) (set_context name (c\<lparr>profile_flag := False\<rparr>) w))
                    (\<lambda>(all, w'). Inr (if all then emit OutputTraces w' else w'))
             else Inr w)
          else Inr (set_context name (c\<lparr>profile_flag := False\<rparr>) w))"

text \<open>The text of one trace event.\<close>

definition nl :: string where
  "nl = [CHR 0x0A]"

definition quoted :: "string \<Rightarrow> string" where
  "quoted s = CHR 0x22 # s @ [CHR 0x22]"

definition EmitTrace :: "comm_time_rec \<Rightarrow> bps_context \<Rightarrow> string res" where
  "EmitTrace r c =
     (let tid = (if ct_key r = -1 then ''total'' else int_to_string (ct_key r));
          para = ''Comm.'' @ ctx_name c
      in rbind (if ct_key r = -1 then Inr para
                else rbind (check (0 \<le> ct_type r) (Undefined ''vector index'')
                              (vec_get all_queue_types (nat (ct_type r))))
                       (\<lambda>qt. Inr (para @ ''.'' @ LogStrings qt))) (\<lambda>ptype.
           Inr (''        {'' @ nl @
             ''            '' @ quoted ''ph'' @ '': '' @ quoted ''X'' @ '','' @ nl @
             ''            '' @ quoted ''args'' @ '': {'' @ nl @
             ''                '' @ quoted ''name'' @ '': '' @ quoted para @ nl @
             ''            },'' @ nl @
             ''            '' @ quoted ''pid'' @ '': '' @ quoted para @ '','' @ nl @
             ''            '' @ quoted ''name'' @ '': '' @ quoted ptype @ '','' @ nl @
             ''            '' @ quoted ''ts'' @ '': '' @ int_to_string (start_t r) @ '','' @ nl @
             ''            '' @ quoted ''dur'' @ '': '' @ int_to_string (dur r) @ '','' @ nl @
             ''            '' @ quoted ''tid'' @ '': '' @ quoted tid @ '','' @ nl @
             ''            '' @ quoted ''cat'' @ '': '' @ quoted ''Comm'' @ nl @ ''        }'')))"

subsection \<open>The speed monitor\<close>

text \<open>
  Times are microseconds. An entry keeps the bytes from which the code computes its megabytes per
  second; the entry returned for an empty queue, whose speed is \<open>-5.0\<close>, has none.
\<close>

definition RecordSpeed :: "int \<Rightarrow> nat \<Rightarrow> speed_monitor \<Rightarrow> speed_monitor" where
  "RecordSpeed now tsize sp =
     (let sp1 = (if sp_initialized sp then sp
                 else sp\<lparr>sp_initialized := True, sp_acc_size := 0, sp_last_ts := now\<rparr>);
          acc = sp_acc_size sp1 + of_nat tsize
      in if 10000000 < now - sp_last_ts sp1
         then (let pts = sp_points sp1 @ [\<lparr>se_ts = now div 1000, se_bytes = Some acc\<rparr>]
               in sp1\<lparr>sp_points := (if sp_limit sp1 < length pts then tl pts else pts),
                      sp_acc_size := 0, sp_last_ts := now\<rparr>)
         else sp1\<lparr>sp_acc_size := acc\<rparr>)"

definition GetSpeed :: "speed_monitor \<Rightarrow> speed_entry \<times> speed_monitor" where
  "GetSpeed sp =
     (case sp_points sp of
        [] \<Rightarrow> (\<lparr>se_ts = 0, se_bytes = None\<rparr>, sp)
      | e # es \<Rightarrow> (e, sp\<lparr>sp_points := es\<rparr>))"

subsection \<open>The thread pool's queue\<close>

text \<open>\<open>enqueue\<close> on a pool that does not exist dereferences a null pointer.\<close>

definition pool_enqueue :: "closure \<Rightarrow> worker \<Rightarrow> worker res" where
  "pool_enqueue job w =
     (case w_pool w of
        None \<Rightarrow> Inl (Undefined ''null thread pool'')
      | Some jobs \<Rightarrow> Inr (w\<lparr>w_pool := Some (jobs @ [job])\<rparr>))"

text \<open>What a pool thread does once the queue is not empty: it takes the oldest job.\<close>

definition pool_take :: "worker \<Rightarrow> (closure \<times> worker) option" where
  "pool_take w =
     (case w_pool w of
        Some (job # jobs) \<Rightarrow> Some (job, w\<lparr>w_pool := Some jobs\<rparr>)
      | _ \<Rightarrow> None)"

subsection \<open>Lemmas\<close>

lemma emit_simps [simp]:
  "rts (emit e w) = rts w" "ctxs (emit e w) = ctxs w" "w_queues (emit e w) = w_queues w"
  "w_declared (emit e w) = w_declared w" "w_log (emit e w) = w_log w @ [e]"
  "w_next_key (emit e w) = w_next_key w"
  by (simp_all add: emit_def)

text \<open>
  The table of declared tensors: names are distinct, each has a context, and its declared key is
  its position in the list of declarations.
\<close>

definition declared_ok :: "worker \<Rightarrow> bool" where
  "declared_ok w \<longleftrightarrow>
     distinct (w_declared w) \<and> dom (ctxs w) = set (w_declared w) \<and>
     w_next_key w = of_nat (length (w_declared w)) \<and>
     (\<forall>i < length (w_declared w). \<forall>c. ctxs w (w_declared w ! i) = Some c \<longrightarrow>
        declared_key c = ucast (of_nat i :: u32))"

lemma declared_ok_step: "declared_ok w \<Longrightarrow> declared_ok (snd (IsTensorDeclared name w))"
proof -
  assume ok: "declared_ok w"
  show ?thesis
  proof (cases "ctxs w name")
    case None
    then have new: "name \<notin> set (w_declared w)" using ok by (auto simp: declared_ok_def)
    have "ctxs w (w_declared w ! i) = Some c \<Longrightarrow> declared_key c = ucast (of_nat i :: u32)"
      if "i < length (w_declared w)" for i c using ok that by (simp add: declared_ok_def)
    moreover have "w_declared w ! i \<noteq> name" if "i < length (w_declared w)" for i
      using new that by (metis nth_mem)
    ultimately show ?thesis
      using ok None new
      by (auto simp: declared_ok_def IsTensorDeclared_def new_context_def nth_append less_Suc_eq)
  qed (use ok in \<open>simp add: IsTensorDeclared_def\<close>)
qed

lemma redeclare_loop_empty:
  assumes "distinct (done @ todo)" and "w_declared w = done @ todo" and "dom (ctxs w) = set done"
    and "w_next_key w = of_nat (length done)"
    and "\<forall>i < length done. \<forall>c. ctxs w (done ! i) = Some c \<longrightarrow> declared_key c = ucast (of_nat i :: u32)"
  shows "declared_ok (redeclare_loop todo w) \<and> w_declared (redeclare_loop todo w) = done @ todo"
  using assms
proof (induction todo arbitrary: "done" w)
  case Nil
  then show ?case by (simp add: declared_ok_def)
next
  case (Cons n ns)
  let ?w = "snd (IsTensorDeclared n w)"
  have none: "ctxs w n = None" using Cons.prems(1,3) by auto
  then have w: "?w = w\<lparr>ctxs := (ctxs w)(n \<mapsto> new_context n (ucast (w_next_key w))),
      w_next_key := w_next_key w + 1\<rparr>"
    using Cons.prems(2) by (simp add: IsTensorDeclared_def)
  have ne: "done ! i \<noteq> n" if "i < length done" for i using Cons.prems(1) that nth_mem by fastforce
  have "declared_ok (redeclare_loop ns ?w) \<and> w_declared (redeclare_loop ns ?w) = (done @ [n]) @ ns"
  proof (rule Cons.IH)
    show "dom (ctxs ?w) = set (done @ [n])" using Cons.prems(3) by (simp add: w)
  qed (use Cons.prems ne in \<open>auto simp: w nth_append less_Suc_eq new_context_def\<close>)
  then show ?case by simp
qed

lemma create_queues_frame:
  "create_queues env qts w = Inr w' \<Longrightarrow>
     rts w' = rts w \<and> (\<forall>qt q. w_queues w' qt = Some q \<longrightarrow>
       w_queues w qt = Some q \<or> (\<exists>qe. q = BytePSScheduledQueue qe (rts w) qt)) \<and>
     (\<forall>qt. qt \<in> set qts \<or> w_queues w qt \<noteq> None \<longrightarrow> w_queues w' qt \<noteq> None)"
proof (induction qts arbitrary: w)
  case (Cons qt qts)
  then obtain w1 where w1: "CreateScheduledQueue env qt w = Inr w1" "create_queues env qts w1 = Inr w'"
    by (auto simp: res_simps)
  have "rts w1 = rts w \<and> w_queues w1 qt \<noteq> None \<and>
      (\<forall>qt' q. w_queues w1 qt' = Some q \<longrightarrow>
         w_queues w qt' = Some q \<or> (\<exists>qe. q = BytePSScheduledQueue qe (rts w) qt')) \<and>
      (\<forall>qt'. w_queues w qt' \<noteq> None \<longrightarrow> w_queues w1 qt' \<noteq> None)"
    using w1(1) by (auto simp: CreateScheduledQueue_def res_simps set_queue_def split: option.splits if_splits)
  then show ?case using Cons.IH [OF w1(2)] by (metis set_ConsD)
qed simp

lemma new_queue_table:
  "q_rt (BytePSScheduledQueue qe ts qt) = Some r \<Longrightarrow> ts r \<noteq> None"
  by (auto simp: BytePSScheduledQueue_def queue_table_def table_ptr_def Let_def
      split: queue_type.splits if_splits)

lemma new_queue_empty: "sq (BytePSScheduledQueue qe ts qt) = []"
  by (simp add: BytePSScheduledQueue_def Let_def)

lemma init_config_queues: "init_config env os w = Inr w1 \<Longrightarrow> w_queues w1 = w_queues w"
  unfolding init_config_def by (clarsimp simp: res_simps case_prod_beta)

lemma init_hash_frame:
  "init_hash env w = Inr w2 \<Longrightarrow> w_queues w2 = w_queues w \<and> w_partition_bytes w2 = w_partition_bytes w \<and>
     w_local_size w2 = w_local_size w \<and> w_pagesize w2 = w_pagesize w"
  unfolding init_hash_def Let_def by (cases "w_is_distributed w") (clarsimp simp: res_simps)+

lemma init_comms_frame:
  "init_comms env os w = Inr w3 \<Longrightarrow> w_queues w3 = w_queues w \<and> w_partition_bytes w3 = w_partition_bytes w \<and>
     w_local_size w3 = w_local_size w \<and> w_pagesize w3 = w_pagesize w"
  by (clarsimp simp: init_comms_def res_simps Let_def split: option.splits)

lemma init_tables_frame:
  "init_tables env w = Inr w4 \<Longrightarrow> w_queues w4 = w_queues w \<and> w_partition_bytes w4 = w_partition_bytes w \<and>
     w_local_size w4 = w_local_size w \<and> w_pagesize w4 = w_pagesize w"
  unfolding init_tables_def Let_def by (clarsimp simp: res_simps)

lemma init_roots_frame:
  "init_roots env w = Inr w5 \<Longrightarrow> w_queues w5 = w_queues w \<and> w_partition_bytes w5 = w_partition_bytes w \<and>
     w_local_size w5 = w_local_size w \<and> w_pagesize w5 = w_pagesize w"
  by (auto simp: init_roots_def res_simps split: option.splits)

lemma RoundUp_unat:
  assumes "RoundUp x y = Inr r" and "unat x + unat y \<le> 2 ^ 64"
  shows "unat y dvd unat r \<and> unat x \<le> unat r \<and> unat r < unat x + unat y"
proof -
  have y: "0 < unat y" using assms(1) by (auto simp: RoundUp_def DivUp_def res_simps unat_gt_0)
  have r: "r = ((x + y - 1) div y) * y" using assms(1) by (simp add: RoundUp_def DivUp_def res_simps)
  have yx: "x + y - 1 = x + (y - 1)" by simp
  have y1: "unat (y - 1) = unat y - 1" using y by (simp add: unat_sub word_le_nat_alt)
  have "unat (x + (y - 1)) = unat x + (unat y - 1)"
    using y1 assms(2) y by (subst unat_u64_plus) simp_all
  then have d: "unat ((x + y - 1) div y) = (unat x + (unat y - 1)) div unat y"
    unfolding yx by (simp add: unat_div)
  define q where "q = (unat x + (unat y - 1)) div unat y"
  have le: "q * unat y \<le> unat x + (unat y - 1)" by (simp add: q_def)
  then have "q * unat y < 2 ^ 64" using assms(2) y by linarith
  then have "unat r = q * unat y"
    using d by (simp add: r unat_word_ariths q_def)
  moreover have "unat x + (unat y - 1) < (q + 1) * unat y"
    using y by (simp add: q_def) (metis add.commute dividend_less_times_div mult.commute)
  then have "unat x \<le> q * unat y" using y by (simp add: algebra_simps)
  ultimately show ?thesis using le y by auto
qed

lemma init_config_partition:
  assumes "init_config env os w = Inr w1"
  shows "\<exists>pb r. env_int env ''BYTEPS_PARTITION_BYTES'' (uint (w_partition_bytes w)) = Inr pb \<and>
    RoundUp (ucast (of_int pb :: u32)) (of_int (w_local_size w1 * w_pagesize w1)) = Inr r \<and>
    w_partition_bytes w1 = ucast r \<and> 0 < w_local_size w1 \<and> 0 < w_pagesize w1 \<and>
    w_local_size w1 * w_pagesize w1 < 2 ^ 31"
  using assms unfolding init_config_def
  by (clarsimp simp: res_simps case_prod_beta) (fastforce dest: comm_init_Inr)

lemma unat_of_int_small: "0 \<le> i \<Longrightarrow> i < 2 ^ 31 \<Longrightarrow> unat (of_int i :: u64) = nat i"
  by (simp add: unat_eq_nat_uint uint_word_of_int)

lemma unat_u32_of_int_small: "0 \<le> i \<Longrightarrow> i < 2 ^ 31 \<Longrightarrow> unat (of_int i :: u32) = nat i"
  by (simp add: unat_eq_nat_uint uint_word_of_int)

subsection \<open>Properties\<close>

text \<open>
  Keys survive an elastic restart: shutting down forgets every context and restarts the key
  counter, and redeclaring the remembered tensors gives each of them the key it had before.
\<close>

theorem redeclare_restores_keys:
  assumes "declared_ok w" and "Shutdown_end w = Some w'" and "ctxs w name = Some c"
  shows "\<exists>c'. ctxs (ReDeclareTensor w') name = Some c' \<and> declared_key c' = declared_key c \<and>
    declared_ok (ReDeclareTensor w')"
proof -
  have w': "w_declared w' = w_declared w" "ctxs w' = Map.empty" "w_next_key w' = 0"
    using assms(2) by (auto simp: Shutdown_end_def split: if_splits)
  have re: "declared_ok (ReDeclareTensor w') \<and> w_declared (ReDeclareTensor w') = [] @ w_declared w"
    unfolding ReDeclareTensor_def w'(1)
    by (rule redeclare_loop_empty) (use assms(1) w' in \<open>auto simp: declared_ok_def\<close>)
  have "name \<in> set (w_declared w)" using assms(1,3) by (auto simp: declared_ok_def)
  then obtain i where i: "i < length (w_declared w)" "w_declared w ! i = name"
    by (auto simp: in_set_conv_nth)
  then have k: "declared_key c = ucast (of_nat i :: u32)" using assms(1,3) by (auto simp: declared_ok_def)
  have "name \<in> dom (ctxs (ReDeclareTensor w'))"
    using re i by (auto simp: declared_ok_def)
  then obtain c' where "ctxs (ReDeclareTensor w') name = Some c'" by blast
  moreover from this have "declared_key c' = ucast (of_nat i :: u32)"
    using re i by (auto simp: declared_ok_def)
  ultimately show ?thesis using re k by simp
qed

text \<open>A worker that has declared two tensors, the second one first asked for twice.\<close>

definition demo_declared :: worker where
  "demo_declared = snd (IsTensorDeclared ''b'' (snd (IsTensorDeclared ''a'' initial_worker)))"

lemma demo_declared_ok: "declared_ok demo_declared"
proof -
  have "declared_ok initial_worker" by (simp add: declared_ok_def initial_worker_def)
  then show ?thesis by (simp add: demo_declared_def declared_ok_step)
qed

theorem redeclare_restores_keys_witness:
  "\<exists>w' c'. Shutdown_end demo_declared = Some w' \<and> ctxs (ReDeclareTensor w') ''b'' = Some c' \<and>
     declared_key c' = 1"
proof -
  obtain w' where s: "Shutdown_end demo_declared = Some w'"
    by (simp add: Shutdown_end_def demo_declared_def IsTensorDeclared_def initial_worker_def
        IsAllThreadFinish_def)
  have "ctxs demo_declared ''b'' = Some (new_context ''b'' 1)"
    by (simp add: demo_declared_def IsTensorDeclared_def initial_worker_def)
  from redeclare_restores_keys [OF demo_declared_ok s this] s show ?thesis
    by (auto simp: new_context_def)
qed

text \<open>
  After a successful initialisation every queue exists, is empty, and points to a ready table
  that exists, so taking a task never goes through a null table.
\<close>

theorem init_creates_queues:
  assumes "global_Init env os w = Inr w'" and "\<not> w_initialized w" and "w_queues w = Map.empty"
  shows "\<exists>q. w_queues w' qt = Some q \<and> sq q = [] \<and> tables_ok q (rts w')"
proof -
  obtain w1 w2 w3 w4 w5 w6 where s: "init_config env os w = Inr w1" "init_hash env w1 = Inr w2"
    "init_comms env os w2 = Inr w3" "init_tables env w3 = Inr w4" "init_roots env w4 = Inr w5"
    "create_queues env all_queue_types w5 = Inr w6"
    and w': "w_queues w' = w_queues w6" "rts w' = rts w6"
    using assms(1,2) by (auto simp: global_Init_def res_simps)
  have "w_queues w5 = Map.empty"
    using init_config_queues [OF s(1)] init_hash_frame [OF s(2)] init_comms_frame [OF s(3)]
      init_tables_frame [OF s(4)] init_roots_frame [OF s(5)] assms(3) by simp
  then obtain q qe where "w_queues w6 qt = Some q" "q = BytePSScheduledQueue qe (rts w5) qt"
    using create_queues_frame [OF s(6)] all_queue_types_set by fastforce
  then show ?thesis
    using w' create_queues_frame [OF s(6)] new_queue_table [of qe "rts w5" qt]
    by (auto simp: new_queue_empty tables_ok_def counts_of_def split: option.splits)
qed

definition demo_init_os :: init_os where
  "demo_init_os = \<lparr>io_comm = ((3, 0), (4, 0)), io_nccl = ((5, 0), (6, 0)), io_cpu = ((7, 0), (8, 0)),
     io_nccl_rc = (\<lambda>_. 128), io_nccl_id_size = 128, io_pagesize = 4096\<rparr>"

definition demo_job_environ :: environ where
  "demo_job_environ = (demo_environ ''1'' ''0'')(''DMLC_NUM_SERVER'' \<mapsto> ''1'')"

definition demo_worker :: worker where
  "demo_worker = projr (global_Init demo_job_environ demo_init_os initial_worker)"

lemma demo_env_int:
  "env_int demo_job_environ ''BYTEPS_TRACE_ON'' d = Inr d"
  "env_int demo_job_environ ''BYTEPS_TRACE_START_STEP'' d = Inr d"
  "env_int demo_job_environ ''BYTEPS_TRACE_END_STEP'' d = Inr d"
  "env_int demo_job_environ ''BYTEPS_PARTITION_BYTES'' d = Inr d"
  "env_int demo_job_environ ''BYTEPS_MIN_COMPRESS_BYTES'' d = Inr d"
  "env_int demo_job_environ ''BYTEPS_FORCE_DISTRIBUTED'' d = Inr d"
  "env_int demo_job_environ ''BYTEPS_ENABLE_MIXED_MODE'' d = Inr d"
  "env_int demo_job_environ ''BYTEPS_NCCL_GROUP_SIZE'' d = Inr d"
  "env_int demo_job_environ ''BYTEPS_PCIE_SWITCH_SIZE'' d = Inr d"
  "env_int demo_job_environ ''BYTEPS_NCCL_NUM_RINGS'' d = Inr d"
  "env_required demo_job_environ ''DMLC_NUM_WORKER'' = Inr 2"
  "env_required demo_job_environ ''DMLC_NUM_SERVER'' = Inr 1"
  by (simp_all add: env_int_def env_required_def demo_job_environ_def demo_environ_def atoi_def i32_def
      digits_value_def is_digit_def is_space_def)

lemma demo_job_comm:
  "comm_init demo_job_environ ((3, 0), (4, 0)) = Inr (demo_comm 1 0, LOCAL_ROOT)"
  by (simp add: comm_eval demo_job_environ_def upto_rec1)

text \<open>The state before initialisation, at the start and after an elastic restart.\<close>

definition demo_start :: "string list \<Rightarrow> bool \<Rightarrow> worker" where
  "demo_start ds r = initial_worker\<lparr>w_declared := ds, w_is_resuming := r\<rparr>"

lemma demo_start_initial: "demo_start [] False = initial_worker"
  by (simp add: demo_start_def initial_worker_def)

lemma demo_init_config:
  "init_config demo_job_environ demo_init_os (demo_start ds r) = Inr ((demo_start ds r)\<lparr>
     w_basic_comm := Some (demo_comm 1 0), w_rank := 1, w_size := 4, w_local_rank := 1,
     w_local_size := 2, w_worker_id := 0, w_role := LOCAL_ROOT, w_is_root_device := True,
     w_pagesize := 4096, w_partition_bytes := 4096000, w_min_compress_bytes := 65536,
     w_num_worker := 2, w_is_distributed := True\<rparr>)"
  by (simp add: init_config_def demo_env_int demo_init_os_def demo_job_comm i32_def RoundUp_def DivUp_def)
    (simp add: demo_start_def initial_worker_def demo_comm_def)

lemma demo_init_ok: "\<exists>w. global_Init demo_job_environ demo_init_os (demo_start ds r) = Inr w \<and> w_nccl w \<noteq> None"
proof -
  let ?env = "demo_job_environ"
  have cross: "env_int ?env ''BYTEPS_THREADPOOL_SIZE'' d = Inr d" "?env ''BYTEPS_THREADPOOL_SIZE'' = None"
    "?env ''BYTEPS_REDUCE_ROOTS'' = None" "?env ''BYTEPS_SCHEDULING_CREDIT'' = None"
    "?env ''BYTEPS_KEY_HASH_FN'' = None" "?env ''BYTEPS_MIXED_MODE_BOUND'' = None" for d
    by (simp_all add: env_int_def demo_job_environ_def demo_environ_def)
  have peers: "switch_peers 1 2 = [0, 1]"
    by (simp add: switch_peers_def size_t_of_def upto_rec1)
  obtain sc where sc: "BytePSCommSocket (demo_comm 1 0) ''nccl'' [0, 1] ((5, 0), (6, 0)) = Inr sc"
    "comm_root sc = 1" "comm_local_rank sc = 1"
    by (simp add: BytePSCommSocket_def initSocket_def demo_comm_def Let_def)
  obtain nm acts where nm: "NcclManager ?env (demo_comm 1 0) ((5, 0), (6, 0)) (\<lambda>_. 128) 128 = Inr (nm, acts)"
    "nm_size nm = 2" "nm_signal nm = sc"
    using sc peers
    by (simp add: NcclManager_def InitGlobalEnv_def demo_env_int size_t_of_def ConstructRings_def
        init_ring_def demo_comm_def Let_def)
  obtain w2 where w2: "init_hash ?env (projr (init_config ?env demo_init_os (demo_start ds r))) = Inr w2"
    "w_basic_comm w2 = Some (demo_comm 1 0)" "w_local_size w2 = 2" "w_local_rank w2 = 1"
    "w_is_root_device w2" "w_queues w2 = Map.empty" "w_cpu_reducer w2 = None" "w_is_cross_pcie w2 = False"
    by (simp add: demo_init_config init_hash_def demo_env_int cross Let_def) (simp add: demo_start_def initial_worker_def)
  obtain w3 where w3: "init_comms ?env demo_init_os w2 = Inr w3" "w_nccl w3 = Some nm"
    "w_local_size w3 = 2" "w_local_rank w3 = 1" "w_is_root_device w3" "w_is_cross_pcie w3 = False"
    "w_queues w3 = Map.empty" "w_cpu_reducer w3 = None"
    using w2 nm by (simp add: init_comms_def demo_init_os_def Let_def)
  obtain w4 where w4: "init_tables ?env w3 = Inr w4" "w_nccl w4 = Some nm"
    using w3 cross by (simp add: init_tables_def get_nccl_def Let_def)
  have w5: "init_roots ?env w4 = Inr w4" using cross by (simp add: init_roots_def)
  have "\<exists>w'. create_queues ?env qts w = Inr w' \<and> w_nccl w' = Some nm" if "w_nccl w = Some nm" for qts w
    using that
  proof (induction qts arbitrary: w)
    case (Cons qt qts)
    then have "\<exists>w1. CreateScheduledQueue ?env qt w = Inr w1 \<and> w_nccl w1 = Some nm"
      using cross by (auto simp: CreateScheduledQueue_def get_nccl_def queue_env_of_def set_queue_def
          split: option.splits)
    then show ?case using Cons.IH by fastforce
  qed simp
  then obtain w6 where "create_queues ?env all_queue_types w4 = Inr w6" "w_nccl w6 = Some nm" using w4 by blast
  then show ?thesis
    using w2(1) w3(1) w4(1) w5 demo_init_config
    by (simp add: global_Init_def demo_start_def initial_worker_def)
qed

lemma demo_worker_init: "global_Init demo_job_environ demo_init_os initial_worker = Inr demo_worker"
  using demo_init_ok [of "[]" False] by (auto simp: demo_worker_def demo_start_initial)

theorem init_creates_queues_witness:
  "\<exists>q. w_queues demo_worker REDUCE = Some q \<and> sq q = [] \<and> tables_ok q (rts demo_worker)"
  by (rule init_creates_queues [OF demo_worker_init]) (simp_all add: initial_worker_def)

text \<open>
  The partition bound a worker computes with is the requested one rounded up to a multiple of
  a page per local device, by less than one such unit, so every device's share of a full partition
  is page aligned.
\<close>

theorem partition_bound_aligned:
  assumes "init_config env os w = Inr w'"
    and "env_int env ''BYTEPS_PARTITION_BYTES'' (uint (w_partition_bytes w)) = Inr pb"
    and "0 \<le> pb" and "pb < 2 ^ 31"
  shows "(w_local_size w' * w_pagesize w') dvd uint (w_partition_bytes w') \<and>
    pb \<le> uint (w_partition_bytes w') \<and>
    uint (w_partition_bytes w') < pb + w_local_size w' * w_pagesize w'"
proof -
  define u where "u = w_local_size w' * w_pagesize w'"
  obtain r where r: "RoundUp (ucast (of_int pb :: u32)) (of_int u) = Inr r"
    and p: "w_partition_bytes w' = ucast r" and u: "0 < u" "u < 2 ^ 31"
    using init_config_partition [OF assms(1)] assms(2) by (auto simp: u_def)
  have x: "unat (ucast (of_int pb :: u32) :: u64) = nat pb"
    using assms(3,4) by (simp add: unat_u32_of_int_small)
  have y: "unat (of_int u :: u64) = nat u" using u by (simp add: unat_of_int_small)
  have ru: "nat u dvd unat r" "nat pb \<le> unat r" "unat r < nat pb + nat u"
    using RoundUp_unat [OF r] x y assms(3,4) u by auto
  have "nat pb < 2147483648" "nat u < 2147483648" using assms(3,4) u by auto
  then have "unat r < 2 ^ 32" using ru(3) by simp
  then have "int (unat r) < int (2 ^ 32)" by (simp only: of_nat_less_iff)
  then have "uint r < 2 ^ 32" unfolding int_unat_eq by simp
  then have pr: "uint (w_partition_bytes w') = int (unat r)"
    by (simp add: p unsigned_ucast_eq take_bit_int_eq_self)
  have "int (nat u) dvd int (unat r)" using ru(1) by (simp only: int_dvd_int_iff)
  then have "u dvd int (unat r)" using u by simp
  moreover have "pb \<le> int (unat r)" "int (unat r) < pb + u" using ru(2,3) assms(3) u by linarith+
  ultimately show ?thesis using pr by (simp only: u_def [symmetric])
qed

theorem partition_bound_aligned_witness:
  "4096000 \<le> uint (w_partition_bytes (projr (init_config demo_job_environ demo_init_os initial_worker)))"
proof -
  have "env_int demo_job_environ ''BYTEPS_PARTITION_BYTES'' (uint (w_partition_bytes initial_worker)) =
      Inr 4096000"
    by (simp add: demo_env_int initial_worker_def)
  from partition_bound_aligned [OF demo_init_config [of "[]" False, unfolded demo_start_initial] this]
  show ?thesis by (simp add: demo_init_config [of "[]" False, unfolded demo_start_initial])
qed

end
