(* ===== verification/Compressor_Utils.thy ===== *)
theory Compressor_Utils
  imports Common_Types
begin

unbundle bit_operations_syntax

section \<open>Utilities of the gradient compressors\<close>

text \<open>
  Models \<open>deep_inc/common/compressor/utils.h\<close>: the text form in which the hyper-parameters travel
  to the server, the lookup of one parameter, the random number generator, the bit streams over
  blocks of any word type and the Elias delta code written to them. A buffer is the list of its
  blocks; writing or reading outside it is undefined.
\<close>

subsection \<open>Hyper-parameters\<close>

text \<open>
  The parameters are an association list with distinct names, in the iteration order of the hash
  map. Reading a string from a stream skips white space and takes the next word, which is empty at
  the end; reading the count takes the digits, and a stream without digits has failed, with the
  count 0.
\<close>

definition Serialize :: "kwargs \<Rightarrow> string" where
  "Serialize kw =
     nat_to_string (length kw) @ concat (map (\<lambda>(k, v). '' '' @ k @ '' '' @ v) kw)"

definition next_word :: "string \<Rightarrow> string \<times> string" where
  "next_word s =
     (let t = dropWhile is_space s
      in (takeWhile (\<lambda>c. \<not> is_space c) t, dropWhile (\<lambda>c. \<not> is_space c) t))"

fun read_pairs :: "nat \<Rightarrow> string \<Rightarrow> (string \<rightharpoonup> string) \<Rightarrow> (string \<rightharpoonup> string)" where
  "read_pairs 0 s m = m"
| "read_pairs (Suc n) s m =
     (case next_word s of (k, s1) \<Rightarrow> case next_word s1 of (v, s2) \<Rightarrow> read_pairs n s2 (m(k \<mapsto> v)))"

definition Deserialize :: "string \<Rightarrow> string \<rightharpoonup> string" where
  "Deserialize content =
     (let t = dropWhile is_space content
      in read_pairs (nat (digits_value (takeWhile is_digit t))) (dropWhile is_digit t) Map.empty)"

text \<open>
  \<open>parse\<close> is the stream extraction for the parameter's type, \<open>zero\<close> its default value. A missing
  parameter that is not optional, or a value the check refuses, aborts.
\<close>

definition HyperParamFinder ::
    "'a \<Rightarrow> (string \<Rightarrow> 'a) \<Rightarrow> (string \<rightharpoonup> string) \<Rightarrow> string \<Rightarrow> bool \<Rightarrow> ('a \<Rightarrow> bool) \<Rightarrow> 'a res" where
  "HyperParamFinder zero parse kw name optional ok =
     (case kw name of
        None \<Rightarrow> check optional (CheckFailed name) (Inr zero)
      | Some s \<Rightarrow> check (ok (parse s)) (CheckFailed name) (Inr (parse s)))"

subsection \<open>Random numbers\<close>

type_synonym rng = "u64 \<times> u64"

definition set_seed :: "u64 \<Rightarrow> rng" where
  "set_seed seed = (seed, seed)"

definition xorshift128p :: "rng \<Rightarrow> u64 \<times> rng" where
  "xorshift128p st =
     (let t0 = fst st; s = snd st;
          t1 = t0 XOR push_bit 23 t0;
          t2 = t1 XOR drop_bit 17 t1;
          t3 = t2 XOR (s XOR drop_bit 26 s)
      in (t3 + s, (s, t3)))"

definition Randint :: "u64 \<Rightarrow> u64 \<Rightarrow> rng \<Rightarrow> (u64 \<times> rng) res" where
  "Randint low high st =
     check (high - low \<noteq> 0) (Undefined ''division by zero'')
       (case xorshift128p st of (x, st') \<Rightarrow> Inr (x mod (high - low) + low, st'))"

text \<open>The comparison with \<open>p * MAX\<close> is double arithmetic: \<open>below x\<close> is its outcome for \<open>x\<close>.\<close>

definition Bernoulli :: "(u64 \<Rightarrow> bool) \<Rightarrow> rng \<Rightarrow> bool \<times> rng" where
  "Bernoulli below st = (case xorshift128p st of (x, st') \<Rightarrow> (below x, st'))"

definition RoundNextPow2 :: "u32 \<Rightarrow> u32" where
  "RoundNextPow2 v0 =
     (let v = v0 - 1;
          v = v OR drop_bit 1 v;
          v = v OR drop_bit 2 v;
          v = v OR drop_bit 4 v;
          v = v OR drop_bit 8 v;
          v = v OR drop_bit 16 v
      in v + 1)"

subsection \<open>Bit streams\<close>

record 'a bit_writer =
  bw_data :: "'a list"
  bw_accum :: 'a
  bw_used :: nat
  bw_blocks :: nat

definition BitWriter :: "'w::len word list \<Rightarrow> 'w word bit_writer" where
  "BitWriter data = \<lparr>bw_data = data, bw_accum = 0, bw_used = 0, bw_blocks = 0\<rparr>"

definition set_block :: "'a list \<Rightarrow> nat \<Rightarrow> 'a \<Rightarrow> 'a list res" where
  "set_block d i x = (if i < length d then Inr (d[i := x]) else Inl (Undefined ''buffer overrun''))"

definition Put :: "bool \<Rightarrow> 'w::len word bit_writer \<Rightarrow> 'w word bit_writer res" where
  "Put x w =
     (let acc = push_bit 1 (bw_accum w) OR of_bool x;
          used = bw_used w + 1
      in if used = LENGTH('w)
         then rbind (set_block (bw_data w) (bw_blocks w) acc) (\<lambda>d.
                Inr (w\<lparr>bw_accum := acc, bw_data := d, bw_blocks := bw_blocks w + 1, bw_used := 0\<rparr>))
         else Inr (w\<lparr>bw_accum := acc, bw_used := used\<rparr>))"

definition Flush :: "'w::len word bit_writer \<Rightarrow> 'w word bit_writer res" where
  "Flush w =
     (if 0 < bw_used w
      then (let acc = push_bit (LENGTH('w) - bw_used w) (bw_accum w)
            in rbind (set_block (bw_data w) (bw_blocks w) acc) (\<lambda>d.
                 Inr (w\<lparr>bw_accum := acc, bw_data := d\<rparr>)))
      else Inr w)"

definition writer_bits :: "'w::len word bit_writer \<Rightarrow> nat" where
  "writer_bits w = bw_blocks w * LENGTH('w) + bw_used w"

text \<open>
  \<open>blocks()\<close> goes through \<open>float\<close>: \<open>to_float\<close> is the rounding of the bit count, whose division by
  the block size is exact.
\<close>

definition writer_blocks :: "(nat \<Rightarrow> nat) \<Rightarrow> 'w::len word bit_writer \<Rightarrow> nat" where
  "writer_blocks to_float w = (to_float (writer_bits w) + LENGTH('w) - 1) div LENGTH('w)"

record 'a bit_reader =
  br_data :: "'a list"
  br_used :: nat
  br_blocks :: nat
  br_accum :: 'a

text \<open>The accumulator is not initialised; it is loaded before it is used.\<close>

definition BitReader :: "'w::len word list \<Rightarrow> 'w word bit_reader" where
  "BitReader data = \<lparr>br_data = data, br_used = 0, br_blocks = 0, br_accum = 0\<rparr>"

text \<open>
  The mask is \<open>1 << n\<close> in \<open>int\<close>: undefined from 32 on, negative for 31, and then extended with
  its sign to the block type.
\<close>

definition bit_mask :: "nat \<Rightarrow> 'w::len word res" where
  "bit_mask n =
     check (n < 32) (Undefined ''shift'') (Inr (if n = 31 then of_int (- (2 ^ 31)) else 2 ^ n))"

definition GetBit :: "'w::len word bit_reader \<Rightarrow> (bool \<times> 'w word bit_reader) res" where
  "GetBit r =
     rbind (if br_used r = 0
            then rbind (vec_get (br_data r) (br_blocks r)) (\<lambda>b.
                   Inr (r\<lparr>br_accum := b, br_blocks := br_blocks r + 1, br_used := LENGTH('w)\<rparr>))
            else Inr r)
       (\<lambda>r1. let r2 = r1\<lparr>br_used := br_used r1 - 1\<rparr>
             in rbind (bit_mask (br_used r2)) (\<lambda>m. Inr (br_accum r2 AND m \<noteq> 0, r2)))"

definition reader_bits :: "'w::len word bit_reader \<Rightarrow> nat" where
  "reader_bits r = br_blocks r * LENGTH('w) - br_used r"

fun put_all :: "bool list \<Rightarrow> 'w::len word bit_writer \<Rightarrow> 'w word bit_writer res" where
  "put_all [] w = Inr w"
| "put_all (b # bs) w = rbind (Put b w) (put_all bs)"

subsection \<open>Elias delta code\<close>

text \<open>
  \<open>flog2\<close> is \<open>floor(log2(x))\<close> as the floating-point library computes it; \<open>log2(0)\<close> is minus
  infinity, whose conversion is undefined.
\<close>

definition msb_bits :: "nat \<Rightarrow> nat \<Rightarrow> bool list" where
  "msb_bits n x = map (\<lambda>i. odd (x div 2 ^ i)) (rev [0..<n])"

definition EliasDeltaEncode ::
    "(nat \<Rightarrow> nat) \<Rightarrow> nat \<Rightarrow> 'w::len word bit_writer \<Rightarrow> 'w word bit_writer res" where
  "EliasDeltaEncode flog2 x w =
     check (x \<noteq> 0) (Undefined ''log2(0)'')
       (let len = 1 + flog2 x; lol = flog2 len
        in rbind (put_all (replicate lol False) w) (\<lambda>w1.
           rbind (put_all (msb_bits (lol + 1) len) w1) (put_all (msb_bits (len - 1) x))))"

text \<open>What is left to read bounds the loop that counts the leading zeros.\<close>

definition bits_left :: "'w::len word bit_reader \<Rightarrow> nat" where
  "bits_left r = (length (br_data r) - br_blocks r) * LENGTH('w) + br_used r"

lemma GetBit_left: "GetBit r = Inr (b, r') \<Longrightarrow> bits_left r' < bits_left r"
proof -
  assume g: "GetBit r = Inr (b, r')"
  show "bits_left r' < bits_left r"
  proof (cases "br_used r = 0")
    case True
    with g have r': "br_data r' = br_data r" "br_blocks r' = br_blocks r + 1"
      "br_used r' = LENGTH('a) - 1" "br_blocks r < length (br_data r)"
      by (auto simp: GetBit_def res_simps Let_def)
    have "length (br_data r) - br_blocks r = Suc (length (br_data r) - Suc (br_blocks r))"
      using r'(4) by simp
    then show ?thesis using r' True by (simp add: bits_left_def)
  next
    case False
    with g show ?thesis by (auto simp: GetBit_def res_simps Let_def bits_left_def)
  qed
qed

function leading_zeros :: "nat \<Rightarrow> 'w::len word bit_reader \<Rightarrow> (nat \<times> 'w word bit_reader) res" where
  "leading_zeros n r =
     (case GetBit r of
        Inl e \<Rightarrow> Inl e
      | Inr (b, r') \<Rightarrow> if b then Inr (n, r') else leading_zeros (n + 1) r')"
  by pat_completeness auto
termination by (relation "measure (\<lambda>(n, r). bits_left r)") (auto intro: GetBit_left)

declare leading_zeros.simps [simp del]

fun read_bits :: "nat \<Rightarrow> nat \<Rightarrow> 'w::len word bit_reader \<Rightarrow> (nat \<times> 'w word bit_reader) res" where
  "read_bits 0 acc r = Inr (acc, r)"
| "read_bits (Suc n) acc r =
     rbind (GetBit r) (\<lambda>(b, r'). read_bits n (2 * acc + of_bool b) r')"

definition EliasDeltaDecode :: "'w::len word bit_reader \<Rightarrow> (nat \<times> 'w word bit_reader) res" where
  "EliasDeltaDecode r =
     rbind (leading_zeros 0 r) (\<lambda>(lol, r1).
     rbind (read_bits lol 1 r1) (\<lambda>(len, r2).
     check (len < 2 ^ 31) (Undefined ''int overflow'')
    (rbind (read_bits (len - 1) 1 r2) (\<lambda>(num, r3). Inr (num mod 2 ^ 64, r3)))))"

subsection \<open>Lemmas\<close>

text \<open>The bits of a block as they stand in the stream, the most significant first.\<close>

definition word_bits :: "'w::len word \<Rightarrow> bool list" where
  "word_bits x = map (bit x) (rev [0..<LENGTH('w)])"

text \<open>What a writer has put so far, and what a reader still has in front of it.\<close>

definition written :: "'w::len word bit_writer \<Rightarrow> bool list" where
  "written w = concat (map word_bits (take (bw_blocks w) (bw_data w))) @
     map (bit (bw_accum w)) (rev [0..<bw_used w])"

definition pending :: "'w::len word bit_reader \<Rightarrow> bool list" where
  "pending r = map (bit (br_accum r)) (rev [0..<br_used r]) @
     concat (map word_bits (drop (br_blocks r) (br_data r)))"

definition writer_ok :: "'w::len word bit_writer \<Rightarrow> bool" where
  "writer_ok w \<longleftrightarrow> bw_used w < LENGTH('w) \<and> bw_blocks w \<le> length (bw_data w)"

definition reader_ok :: "'w::len word bit_reader \<Rightarrow> bool" where
  "reader_ok r \<longleftrightarrow> br_used r \<le> LENGTH('w) \<and> br_blocks r \<le> length (br_data r)"

lemma length_word_bits [simp]: "length (word_bits (x :: 'w::len word)) = LENGTH('w)"
  by (simp add: word_bits_def)

lemma shifted_bits:
  fixes a :: "'w::len word"
  assumes "n < LENGTH('w)"
  shows "map (bit (push_bit 1 a OR of_bool x)) (rev [0..<Suc n]) = map (bit a) (rev [0..<n]) @ [x]"
proof -
  have b: "bit (push_bit 1 a OR of_bool x) (Suc k) = bit a k" if "k < n" for k
    using that assms by (simp only: bit_or_iff bit_push_bit_iff bit_of_bool_iff) simp
  have "map (bit (push_bit 1 a OR of_bool x)) [0..<Suc n] = x # map (bit a) [0..<n]"
  proof (rule nth_equalityI)
    fix i assume "i < length (map (bit (push_bit 1 a OR of_bool x)) [0..<Suc n])"
    then show "map (bit (push_bit 1 a OR of_bool x)) [0..<Suc n] ! i = (x # map (bit a) [0..<n]) ! i"
    proof (cases i)
      case 0
      then show ?thesis by (simp add: bit_0 even_or_iff del: upt_Suc)
    next
      case (Suc k)
      then have "k < n" using \<open>i < length _\<close> by simp
      then show ?thesis using b [of k] Suc by (simp only: nth_map_upt nth_Cons_Suc nth_map length_upt nth_upt) simp
    qed
  qed simp
  then have "rev (map (bit (push_bit 1 a OR of_bool x)) [0..<Suc n]) = rev (x # map (bit a) [0..<n])"
    by simp
  then show ?thesis by (simp only: rev_map rev.simps)
qed

lemma Put_written:
  fixes w :: "'w::len word bit_writer"
  assumes "writer_ok w" and "bw_blocks w < length (bw_data w)"
  shows "\<exists>w'. Put x w = Inr w' \<and> writer_ok w' \<and> written w' = written w @ [x] \<and>
    length (bw_data w') = length (bw_data w) \<and> writer_bits w' = writer_bits w + 1"
proof -
  let ?acc = "push_bit 1 (bw_accum w) OR of_bool x"
  have u: "bw_used w < LENGTH('w)" using assms(1) by (simp add: writer_ok_def)
  note sh = shifted_bits [OF u, of "bw_accum w" x]
  show ?thesis
  proof (cases "bw_used w + 1 = LENGTH('w)")
    case True
    then have "word_bits ?acc = map (bit (bw_accum w)) (rev [0..<bw_used w]) @ [x]"
      using sh by (simp add: word_bits_def True [symmetric] del: upt_Suc)
    moreover have "take (Suc (bw_blocks w)) ((bw_data w)[bw_blocks w := ?acc]) =
        take (bw_blocks w) (bw_data w) @ [?acc]"
      using assms(2) by (simp add: take_Suc_conv_app_nth)
    ultimately show ?thesis
      using True assms by (auto simp: Put_def set_block_def Let_def writer_ok_def written_def writer_bits_def)
  next
    case False
    then show ?thesis
      using sh assms u by (auto simp: Put_def Let_def writer_ok_def written_def writer_bits_def simp del: upt_Suc)
  qed
qed

lemma put_all_written:
  fixes w :: "'w::len word bit_writer"
  assumes "writer_ok w" and "writer_bits w + length bs \<le> length (bw_data w) * LENGTH('w)"
  shows "\<exists>w'. put_all bs w = Inr w' \<and> writer_ok w' \<and> written w' = written w @ bs \<and>
    length (bw_data w') = length (bw_data w) \<and> writer_bits w' = writer_bits w + length bs"
  using assms
proof (induction bs arbitrary: w)
  case (Cons b bs)
  have "bw_blocks w * LENGTH('w) < length (bw_data w) * LENGTH('w)"
    using Cons.prems(2) unfolding writer_bits_def list.size by linarith
  then have "bw_blocks w < length (bw_data w)" by simp
  then obtain w1 where w1: "Put b w = Inr w1" "writer_ok w1" "written w1 = written w @ [b]"
    "length (bw_data w1) = length (bw_data w)" "writer_bits w1 = writer_bits w + 1"
    using Put_written Cons.prems(1) by blast
  then show ?case using Cons.IH [of w1] Cons.prems by auto
qed simp

lemma put_all_append:
  fixes w :: "'w::len word bit_writer"
  shows "put_all (as @ bs) w = rbind (put_all as w) (put_all bs)"
proof (induction as arbitrary: w)
  case (Cons a as)
  have "put_all (as @ bs) = (\<lambda>x :: 'w word bit_writer. rbind (put_all as x) (put_all bs))" using Cons.IH by (intro ext)
  then show ?case by (simp add: rbind_assoc)
qed simp

lemma put_all_append_fun:
  "put_all (as @ bs) = (\<lambda>w :: 'w::len word bit_writer. rbind (put_all as w) (put_all bs))"
  by (intro ext) (rule put_all_append)

lemma Flush_written:
  fixes w :: "'w::len word bit_writer"
  assumes "writer_ok w" and "writer_bits w \<le> length (bw_data w) * LENGTH('w)"
  shows "\<exists>w' pad. Flush w = Inr w' \<and>
    concat (map word_bits (bw_data w')) = written w @ pad \<and> length (bw_data w') = length (bw_data w)"
proof (cases "bw_used w = 0")
  case True
  have "concat (map word_bits (bw_data w)) =
      written w @ concat (map word_bits (drop (bw_blocks w) (bw_data w)))"
    by (simp add: written_def True flip: concat_append map_append)
  then show ?thesis using True by (auto simp: Flush_def)
next
  case False
  let ?u = "bw_used w" and ?b = "bw_blocks w" and ?L = "LENGTH('w)"
  let ?acc = "push_bit (?L - ?u) (bw_accum w)"
  have u: "?u < ?L" using assms(1) by (simp add: writer_ok_def)
  have "?b * ?L < length (bw_data w) * ?L" using assms(2) False unfolding writer_bits_def by linarith
  then have b: "?b < length (bw_data w)" by simp
  have "rev [0..<?L] = map (\<lambda>k. k + (?L - ?u)) (rev [0..<?u]) @ rev [0..<?L - ?u]"
  proof -
    have "[0..<?L] = [0..<?L - ?u] @ map (\<lambda>k. k + (?L - ?u)) [0..<?u]"
      using u by (intro nth_equalityI) (auto simp: nth_append)
    then show ?thesis by (simp add: rev_map)
  qed
  then have "word_bits ?acc = map (bit (bw_accum w)) (rev [0..<?u]) @ map (bit ?acc) (rev [0..<?L - ?u])"
    using u by (auto simp: word_bits_def bit_push_bit_iff)
  moreover have "(bw_data w)[?b := ?acc] = take ?b (bw_data w) @ ?acc # drop (Suc ?b) (bw_data w)"
    using b by (simp add: upd_conv_take_nth_drop)
  ultimately show ?thesis
    using False b by (auto simp: Flush_def set_block_def Let_def written_def)
qed

lemma bit_mask_test:
  fixes a :: "'w::len word"
  assumes "n < LENGTH('w)" and "LENGTH('w) \<le> 32" and "bit_mask n = Inr m"
  shows "(a AND m \<noteq> 0) = bit a n"
proof -
  have "m = 2 ^ n"
  proof (cases "n = 31")
    case True
    then have L: "LENGTH('w) = 32" using assms(1,2) by simp
    have "(word_of_int (- (2 ^ 31)) :: 'w word) = word_of_int (2 ^ 31)"
      by (simp add: word_of_int_eq_iff L take_bit_eq_mod)
    then show ?thesis using True assms(3) by (simp add: bit_mask_def)
  next
    case False
    then show ?thesis using assms by (simp add: bit_mask_def)
  qed
  then show ?thesis by (simp add: and_exp_eq_0_iff_not_bit)
qed

lemma GetBit_pending:
  fixes r :: "'w::len word bit_reader"
  assumes "reader_ok r" and "LENGTH('w) \<le> 32" and "pending r = b # bs"
  shows "\<exists>r'. GetBit r = Inr (b, r') \<and> reader_ok r' \<and> pending r' = bs"
proof -
  define r1 where "r1 = (if br_used r = 0
    then r\<lparr>br_accum := br_data r ! br_blocks r, br_blocks := br_blocks r + 1, br_used := LENGTH('w)\<rparr>
    else r)"
  have more: "br_blocks r < length (br_data r)" if "br_used r = 0"
    using assms(1,3) that by (cases "br_blocks r < length (br_data r)") (auto simp: pending_def)
  have p1: "pending r1 = pending r" "0 < br_used r1" "br_used r1 \<le> LENGTH('w)" "reader_ok r1"
    using assms(1) more
    by (auto simp: r1_def pending_def reader_ok_def word_bits_def Cons_nth_drop_Suc [symmetric])
  obtain n where n: "br_used r1 = Suc n" using p1(2) gr0_conv_Suc by auto
  have h: "bit (br_accum r1) n = b" "pending (r1\<lparr>br_used := n\<rparr>) = bs"
    using p1(1) assms(3) n by (auto simp: pending_def)
  obtain m :: "'w word" where m: "bit_mask n = Inr m"
    using n p1(3) assms(2) by (auto simp: bit_mask_def)
  have "(br_accum r1 AND m \<noteq> 0) = b"
    using bit_mask_test [OF _ assms(2) m] n p1(3) h(1) by simp
  moreover have "rbind (if br_used r = 0
            then rbind (vec_get (br_data r) (br_blocks r)) (\<lambda>b.
                   Inr (r\<lparr>br_accum := b, br_blocks := br_blocks r + 1, br_used := LENGTH('w)\<rparr>))
            else Inr r) f = f r1" for f :: "'w word bit_reader \<Rightarrow> (bool \<times> 'w word bit_reader) res"
    using more by (auto simp: r1_def)
  ultimately have "GetBit r = Inr (b, r1\<lparr>br_used := n\<rparr>)"
    using m n by (simp add: GetBit_def Let_def)
  then show ?thesis using h(2) p1(4) n by (auto simp: reader_ok_def)
qed

lemma put_all_flush:
  fixes data :: "'w::len word list"
  assumes "length bs \<le> length data * LENGTH('w)"
  shows "\<exists>w w' pad. put_all bs (BitWriter data) = Inr w \<and> Flush w = Inr w' \<and>
    writer_bits w = length bs \<and> length (bw_data w') = length data \<and>
    pending (BitReader (bw_data w')) = bs @ pad"
proof -
  have "writer_ok (BitWriter data)" "written (BitWriter data) = []" "writer_bits (BitWriter data) = 0"
    by (simp_all add: writer_ok_def BitWriter_def written_def writer_bits_def)
  then obtain w where w: "put_all bs (BitWriter data) = Inr w" "writer_ok w" "written w = bs"
    "length (bw_data w) = length data" "writer_bits w = length bs"
    using put_all_written [of "BitWriter data" bs] assms by (auto simp: BitWriter_def)
  then obtain w' pad where "Flush w = Inr w'" "concat (map word_bits (bw_data w')) = bs @ pad"
    "length (bw_data w') = length data"
    using Flush_written [of w] assms by auto
  then show ?thesis using w by (auto simp: pending_def BitReader_def)
qed

lemma reader_start_ok: "reader_ok (BitReader data)"
  by (simp add: reader_ok_def BitReader_def)

lemma leading_zeros_pending:
  fixes r :: "'w::len word bit_reader"
  assumes "reader_ok r" and "LENGTH('w) \<le> 32" and "pending r = replicate k False @ True # bs"
  shows "\<exists>r'. leading_zeros n r = Inr (n + k, r') \<and> reader_ok r' \<and> pending r' = bs"
  using assms(1,3)
proof (induction k arbitrary: n r)
  case 0
  then obtain r' where "GetBit r = Inr (True, r')" "reader_ok r'" "pending r' = bs"
    using GetBit_pending [OF 0(1) assms(2), of True bs] by auto
  then show ?case by (simp add: leading_zeros.simps [of n r])
next
  case (Suc k)
  then obtain r1 where "GetBit r = Inr (False, r1)" "reader_ok r1" "pending r1 = replicate k False @ True # bs"
    using GetBit_pending [OF _ assms(2), of r False] by auto
  then show ?case using Suc.IH [of r1 "n + 1"] by (simp add: leading_zeros.simps [of n r])
qed

lemma read_bits_pending:
  fixes r :: "'w::len word bit_reader"
  assumes "reader_ok r" and "LENGTH('w) \<le> 32" and "pending r = xs @ bs"
  shows "\<exists>r'. read_bits (length xs) acc r = Inr (foldl (\<lambda>a b. 2 * a + of_bool b) acc xs, r') \<and>
    reader_ok r' \<and> pending r' = bs"
  using assms(1,3)
proof (induction xs arbitrary: acc r)
  case (Cons x xs)
  then obtain r1 where "GetBit r = Inr (x, r1)" "reader_ok r1" "pending r1 = xs @ bs"
    using GetBit_pending [OF _ assms(2), of r x] by auto
  then show ?case using Cons.IH [of r1 "2 * acc + of_bool x"] by simp
qed simp

lemma length_msb_bits [simp]: "length (msb_bits n x) = n"
  by (simp add: msb_bits_def)

lemma msb_bits_Suc: "msb_bits (Suc n) x = odd (x div 2 ^ n) # msb_bits n x"
  by (simp add: msb_bits_def)

lemma foldl_msb_bits: "foldl (\<lambda>a b. 2 * a + of_bool b) acc (msb_bits n x) = acc * 2 ^ n + x mod 2 ^ n"
proof (induction n arbitrary: acc)
  case (Suc n)
  have "x mod (2 ^ n * 2) = 2 ^ n * (x div 2 ^ n mod 2) + x mod 2 ^ n" by (rule mod_mult2_eq)
  then have "x mod 2 ^ Suc n = of_bool (odd (x div 2 ^ n)) * 2 ^ n + x mod 2 ^ n"
    by (simp add: mod_2_eq_odd mult.commute)
  then have "(2 * acc + of_bool (odd (x div 2 ^ n))) * 2 ^ n + x mod 2 ^ n = acc * 2 ^ Suc n + x mod 2 ^ Suc n"
    by (simp add: algebra_simps)
  then show ?case by (simp only: msb_bits_Suc foldl.simps Suc)
qed (simp add: msb_bits_def)

text \<open>The library's logarithm is exact on the numbers below \<open>m\<close>.\<close>

definition exact_log2 :: "(nat \<Rightarrow> nat) \<Rightarrow> nat \<Rightarrow> bool" where
  "exact_log2 flog2 m \<longleftrightarrow> (\<forall>x. 0 < x \<and> x < m \<longrightarrow> 2 ^ flog2 x \<le> x \<and> x < 2 ^ (flog2 x + 1))"

definition elias_bits :: "(nat \<Rightarrow> nat) \<Rightarrow> nat \<Rightarrow> bool list" where
  "elias_bits flog2 x =
     (let len = 1 + flog2 x; lol = flog2 len
      in replicate lol False @ msb_bits (lol + 1) len @ msb_bits (len - 1) x)"

lemma encode_put_all:
  fixes w :: "'w::len word bit_writer"
  assumes "x \<noteq> 0"
  shows "EliasDeltaEncode flog2 x w = put_all (elias_bits flog2 x) w"
  using assms by (simp add: EliasDeltaEncode_def elias_bits_def put_all_append_fun Let_def)

lemma msb_step: "2 ^ n \<le> x \<Longrightarrow> x < 2 ^ (n + 1) \<Longrightarrow> x div 2 ^ n = 1 \<and> 2 ^ n + x mod 2 ^ n = (x :: nat)"
proof -
  assume x: "2 ^ n \<le> x" "x < 2 ^ (n + 1)"
  then have "x div 2 ^ n < 2" by (intro less_mult_imp_div_less) simp
  moreover have "1 \<le> x div 2 ^ n" using x(1) by (simp add: div_greater_zero_iff Suc_le_eq)
  ultimately have d: "x div 2 ^ n = 1" by linarith
  then show ?thesis using div_mult_mod_eq [of x "2 ^ n"] by simp
qed

lemma elias_decode_pending:
  fixes r :: "'w::len word bit_reader"
  assumes "reader_ok r" and "LENGTH('w) \<le> 32" and "pending r = elias_bits flog2 x @ bs"
    and "exact_log2 flog2 m" and "0 < x" and "x < m" and "x < 2 ^ 64" and "64 < m"
  shows "\<exists>r'. EliasDeltaDecode r = Inr (x, r') \<and> reader_ok r' \<and> pending r' = bs"
proof -
  define len where "len = 1 + flog2 x"
  define lol where "lol = flog2 len"
  have x: "2 ^ (len - 1) \<le> x" "x < 2 ^ len"
    using assms(4-6) by (auto simp: exact_log2_def len_def)
  have "flog2 x < 64" using x(1) assms(7) by (metis diff_add_inverse len_def le_less_trans nat_power_less_imp_less zero_less_numeral)
  then have len: "0 < len" "len < m" "len < 2 ^ 31" using assms(8) by (auto simp: len_def)
  then have l: "2 ^ lol \<le> len" "len < 2 ^ (lol + 1)" using assms(4) by (auto simp: exact_log2_def lol_def)
  have "msb_bits (lol + 1) len = True # msb_bits lol len"
    using msb_step [OF l] by (simp add: msb_bits_Suc)
  then have p: "pending r = replicate lol False @ True # (msb_bits lol len @ msb_bits (len - 1) x @ bs)"
    using assms(3) by (simp add: elias_bits_def len_def lol_def Let_def)
  obtain r1 where r1: "leading_zeros 0 r = Inr (lol, r1)" "reader_ok r1"
    "pending r1 = msb_bits lol len @ msb_bits (len - 1) x @ bs"
    using leading_zeros_pending [OF assms(1,2) p, of 0] by auto
  have f1: "foldl (\<lambda>a b. 2 * a + of_bool b) 1 (msb_bits lol len) = len"
    using msb_step [OF l] by (simp add: foldl_msb_bits)
  have "x < 2 ^ (len - 1 + 1)" using x(2) len by simp
  then have f2: "foldl (\<lambda>a b. 2 * a + of_bool b) 1 (msb_bits (len - 1) x) = x"
    using msb_step [OF x(1)] by (simp add: foldl_msb_bits)
  obtain r2 where r2: "read_bits lol 1 r1 = Inr (len, r2)" "reader_ok r2"
    "pending r2 = msb_bits (len - 1) x @ bs"
    using read_bits_pending [OF r1(2) assms(2) r1(3), of 1] f1 by auto
  obtain r3 where r3: "read_bits (len - 1) 1 r2 = Inr (x, r3)" "reader_ok r3" "pending r3 = bs"
    using read_bits_pending [OF r2(2) assms(2) r2(3), of 1] f2 by auto
  have "EliasDeltaDecode r = Inr (x mod 2 ^ 64, r3)"
    using r1(1) r2(1) r3(1) len(3) by (simp add: EliasDeltaDecode_def)
  then show ?thesis using r3 assms(7) by simp
qed

lemma next_word_spec:
  assumes "k \<noteq> []" and "\<forall>c \<in> set k. \<not> is_space c" and "rest = [] \<or> is_space (hd rest)"
  shows "next_word (CHR '' '' # k @ rest) = (k, rest)"
proof -
  have sp: "is_space CHR '' ''" by (simp add: is_space_def)
  have "dropWhile is_space (CHR '' '' # k @ rest) = k @ rest"
    using sp assms(1,2) by (cases k) auto
  moreover have "takeWhile (\<lambda>c. \<not> is_space c) (k @ rest) = k \<and> dropWhile (\<lambda>c. \<not> is_space c) (k @ rest) = rest"
    using assms(2,3) by (cases rest) (auto simp: takeWhile_append2 dropWhile_append2)
  ultimately show ?thesis by (simp add: next_word_def)
qed

lemma read_pairs_spec:
  assumes "\<forall>(k, v) \<in> set kw. k \<noteq> [] \<and> v \<noteq> [] \<and> (\<forall>c \<in> set k. \<not> is_space c) \<and> (\<forall>c \<in> set v. \<not> is_space c)"
    and "distinct (map fst kw)"
  shows "read_pairs (length kw) (concat (map (\<lambda>(k, v). '' '' @ k @ '' '' @ v) kw)) m = m ++ map_of kw"
  using assms
proof (induction kw arbitrary: m)
  case (Cons kv kw)
  obtain k v where kv: "kv = (k, v)" by (cases kv)
  let ?rest = "concat (map (\<lambda>(k, v). '' '' @ k @ '' '' @ v) kw)"
  have sp: "is_space CHR '' ''" by (simp add: is_space_def)
  have rest: "?rest = [] \<or> is_space (hd ?rest)" using sp by (cases kw) auto
  have ok: "k \<noteq> []" "v \<noteq> []" "\<forall>c \<in> set k. \<not> is_space c" "\<forall>c \<in> set v. \<not> is_space c"
    using Cons.prems(1) kv by auto
  have w1: "next_word (CHR '' '' # k @ (CHR '' '' # v @ ?rest)) = (k, CHR '' '' # v @ ?rest)"
    using ok sp by (intro next_word_spec) auto
  have w2: "next_word (CHR '' '' # v @ ?rest) = (v, ?rest)"
    using ok rest by (intro next_word_spec) auto
  have "k \<notin> dom (map_of kw)" using Cons.prems(2) kv by (auto simp: dom_map_of_conv_image_fst)
  then have "(m(k \<mapsto> v)) ++ map_of kw = m ++ map_of (kv # kw)"
    by (simp only: kv map_of.simps fst_conv snd_conv map_add_upd_left map_add_upd not_False_eq_True)
  moreover have "read_pairs (length kw) ?rest (m(k \<mapsto> v)) = (m(k \<mapsto> v)) ++ map_of kw"
    using Cons.prems by (intro Cons.IH) auto
  ultimately have "read_pairs (length kw) ?rest (m(k \<mapsto> v)) = m ++ map_of (kv # kw)" by simp
  moreover have "concat (map (\<lambda>(k, v). '' '' @ k @ '' '' @ v) (kv # kw)) = CHR '' '' # k @ (CHR '' '' # v @ ?rest)"
    by (simp add: kv)
  ultimately show ?case using w1 w2 by (simp only: list.size read_pairs.simps prod.case add_0_right add_Suc_right)
qed simp

lemma Deserialize_Serialize:
  assumes "\<forall>(k, v) \<in> set kw. k \<noteq> [] \<and> v \<noteq> [] \<and> (\<forall>c \<in> set k. \<not> is_space c) \<and> (\<forall>c \<in> set v. \<not> is_space c)"
    and "distinct (map fst kw)"
  shows "Deserialize (Serialize kw) = map_of kw"
proof -
  let ?rest = "concat (map (\<lambda>(k, v). '' '' @ k @ '' '' @ v) kw)"
  have dig: "\<forall>c \<in> set (nat_to_string n). is_digit c \<and> \<not> is_space c" for n
    using nat_to_string_digits [of n] by (auto simp: is_digit_def is_space_def)
  have ds: "dropWhile is_space (nat_to_string n @ r) = nat_to_string n @ r" for n r
    using dig [of n] nat_to_string_nonempty [of n] by (cases "nat_to_string n") auto
  have nd: "?rest = [] \<or> \<not> is_digit (hd ?rest)" by (cases kw) (auto simp: is_digit_def)
  have "takeWhile is_digit (nat_to_string n @ R) = nat_to_string n \<and>
      dropWhile is_digit (nat_to_string n @ R) = R" if "R = [] \<or> \<not> is_digit (hd R)" for n R
    using dig [of n] that by (cases R) (auto simp: takeWhile_append2 dropWhile_append2)
  note sp = this [OF nd, of "length kw"]
  then show ?thesis
    using read_pairs_spec [OF assms, of Map.empty] sp
    by (simp only: Deserialize_def Serialize_def ds Let_def digits_nat_to_string nat_int empty_map_add)
qed

lemma xor_push_bit_0:
  fixes x :: "'w::len word"
  assumes "x XOR push_bit n x = 0" and "0 < n"
  shows "x = 0"
proof (rule bit_word_eqI)
  fix i :: nat
  assume "i < LENGTH('w)"
  then show "bit x i = bit (0 :: 'w word) i"
  proof (induction i rule: less_induct)
    case (less i)
    have "\<not> bit (x XOR push_bit n x) i" using assms(1) by simp
    then have "bit x i \<longleftrightarrow> n \<le> i \<and> bit x (i - n)"
      using less.prems by (auto simp: bit_xor_iff bit_push_bit_iff)
    moreover have "\<not> bit x (i - n)" if "n \<le> i"
      using less.IH [of "i - n"] less.prems that assms(2) by auto
    ultimately show ?case by auto
  qed
qed

lemma xor_drop_bit_0:
  fixes x :: "'w::len word"
  assumes "x XOR drop_bit n x = 0" and "0 < n"
  shows "x = 0"
proof (rule bit_word_eqI)
  fix i :: nat
  assume "i < LENGTH('w)"
  have "\<not> bit x j" if "LENGTH('w) - j \<le> m" for j m
    using that
  proof (induction m arbitrary: j)
    case 0
    then show ?case by (auto dest: bit_imp_le_length)
  next
    case (Suc m)
    have "\<not> bit (x XOR drop_bit n x) j" using assms(1) by simp
    then have "bit x j \<longleftrightarrow> bit x (n + j)" by (simp add: bit_xor_iff bit_drop_bit_eq)
    moreover have "\<not> bit x (n + j)" using Suc assms(2) by (cases "j < LENGTH('w)") (auto dest: bit_imp_le_length)
    ultimately show ?case by simp
  qed
  then show "bit x i = bit (0 :: 'w word) i" by auto
qed

lemma bit_in_range:
  fixes w :: "'w::len word"
  assumes "2 ^ j \<le> unat w" and "unat w < 2 ^ (j + 1)"
  shows "bit w j" and "\<And>i. bit w i \<Longrightarrow> i \<le> j"
proof -
  have b: "bit w i \<longleftrightarrow> odd (unat w div 2 ^ i)" for i
    by (metis bit_iff_odd bit_unsigned_iff bit_imp_le_length possible_bit_nat)
  show "bit w j" using msb_step [OF assms] by (simp add: b)
  show "i \<le> j" if "bit w i" for i
  proof (rule ccontr)
    assume "\<not> i \<le> j"
    then have "(2 :: nat) ^ (j + 1) \<le> 2 ^ i" by (intro power_increasing) auto
    then have "unat w div 2 ^ i = 0" using assms(2) by simp
    then show False using that by (simp add: b)
  qed
qed

lemma smear_bits:
  fixes w :: u32
  assumes "v1 = w OR drop_bit 1 w" "v2 = v1 OR drop_bit 2 v1" "v3 = v2 OR drop_bit 4 v2"
    "v4 = v3 OR drop_bit 8 v3" "v5 = v4 OR drop_bit 16 v4"
  shows "bit v5 i \<longleftrightarrow> (\<exists>d < 32. bit w (i + d))"
proof -
  have 1: "bit v1 i \<longleftrightarrow> (\<exists>d < 2. bit w (i + d))" for i
    by (auto simp: assms(1) bit_or_iff bit_drop_bit_eq less_2_cases_iff add.commute)
  have step: "bit (v OR drop_bit n v) i \<longleftrightarrow> (\<exists>d < n + n. bit w (i + d))"
    if v: "\<And>i. bit v i \<longleftrightarrow> (\<exists>d < n. bit w (i + d))" for v n i
  proof
    assume "bit (v OR drop_bit n v) i"
    then consider "bit v i" | "bit v (n + i)" by (auto simp: bit_or_iff bit_drop_bit_eq)
    then show "\<exists>d < n + n. bit w (i + d)"
    proof cases
      case 1
      then obtain d where "d < n" "bit w (i + d)" using v by blast
      then show ?thesis by (intro exI [of _ d]) simp
    next
      case 2
      then obtain d where "d < n" "bit w (n + i + d)" using v by blast
      then show ?thesis by (intro exI [of _ "n + d"]) (simp add: ac_simps)
    qed
  next
    assume "\<exists>d < n + n. bit w (i + d)"
    then obtain d where d: "d < n + n" "bit w (i + d)" by blast
    show "bit (v OR drop_bit n v) i"
    proof (cases "d < n")
      case True
      then show ?thesis using d v by (auto simp: bit_or_iff)
    next
      case False
      then have "bit v (n + i)" using d v [of "n + i"] by (auto intro!: exI [of _ "d - n"])
      then show ?thesis by (simp add: bit_or_iff bit_drop_bit_eq)
    qed
  qed
  have 2: "bit v2 i \<longleftrightarrow> (\<exists>d < 4. bit w (i + d))" for i using step [OF 1] assms(2) by simp
  have 3: "bit v3 i \<longleftrightarrow> (\<exists>d < 8. bit w (i + d))" for i using step [OF 2] assms(3) by simp
  have 4: "bit v4 i \<longleftrightarrow> (\<exists>d < 16. bit w (i + d))" for i using step [OF 3] assms(4) by simp
  show ?thesis using step [OF 4] assms(5) by simp
qed

fun elias_encode_list :: "(nat \<Rightarrow> nat) \<Rightarrow> nat list \<Rightarrow> 'w::len word bit_writer \<Rightarrow> 'w word bit_writer res" where
  "elias_encode_list flog2 [] w = Inr w"
| "elias_encode_list flog2 (x # xs) w = rbind (EliasDeltaEncode flog2 x w) (elias_encode_list flog2 xs)"

fun elias_decode_list :: "nat \<Rightarrow> 'w::len word bit_reader \<Rightarrow> (nat list \<times> 'w word bit_reader) res" where
  "elias_decode_list 0 r = Inr ([], r)"
| "elias_decode_list (Suc n) r =
     rbind (EliasDeltaDecode r) (\<lambda>(x, r1). rbind (elias_decode_list n r1) (\<lambda>(xs, r2). Inr (x # xs, r2)))"

lemma encode_list_put_all:
  fixes w :: "'w::len word bit_writer"
  assumes "\<forall>x \<in> set xs. x \<noteq> 0"
  shows "elias_encode_list flog2 xs w = put_all (concat (map (elias_bits flog2) xs)) w"
  using assms
proof (induction xs arbitrary: w)
  case (Cons x xs)
  then have "elias_encode_list flog2 xs = (\<lambda>w :: 'w word bit_writer. put_all (concat (map (elias_bits flog2) xs)) w)"
    by (intro ext) simp
  then show ?case using Cons.prems by (simp add: encode_put_all put_all_append_fun)
qed simp

lemma decode_list_pending:
  fixes r :: "'w::len word bit_reader"
  assumes "reader_ok r" and "LENGTH('w) \<le> 32" and "exact_log2 flog2 m" and "64 < m"
    and "\<forall>x \<in> set xs. 0 < x \<and> x < m \<and> x < 2 ^ 64"
    and "pending r = concat (map (elias_bits flog2) xs) @ bs"
  shows "\<exists>r'. elias_decode_list (length xs) r = Inr (xs, r')"
  using assms(1,5,6)
proof (induction xs arbitrary: r)
  case (Cons x xs)
  then obtain r1 where "EliasDeltaDecode r = Inr (x, r1)" "reader_ok r1"
    "pending r1 = concat (map (elias_bits flog2) xs) @ bs"
    using elias_decode_pending [OF Cons.prems(1) assms(2) _ assms(3), of x "concat (map (elias_bits flog2) xs) @ bs"]
      assms(4) by auto
  then show ?case using Cons.IH [of r1] Cons.prems by auto
qed simp

subsection \<open>Properties\<close>

text \<open>
  The hyper-parameters a worker serialises are exactly what the server reads back, for
  distinct names and for names and values that are words.
\<close>

theorem kwargs_roundtrip:
  assumes "distinct (map fst kw)"
    and "\<forall>(k, v) \<in> set kw. k \<noteq> [] \<and> v \<noteq> [] \<and> (\<forall>c \<in> set k. \<not> is_space c) \<and> (\<forall>c \<in> set v. \<not> is_space c)"
  shows "Deserialize (Serialize kw) = map_of kw"
  using assms by (intro Deserialize_Serialize)

theorem kwargs_roundtrip_witness:
  "Deserialize (Serialize [(''byteps_compressor_type'', ''topk''), (''compressor_k'', ''3'')]) ''compressor_k'' =
     Some ''3''"
  by (subst kwargs_roundtrip) (simp_all add: is_space_def)

text \<open>
  C40. Elias delta codes survive the bit streams: any numbers encoded one after another into a
  buffer that has room for them, and flushed, are decoded in order from the same buffer, for
  blocks of at most 32 bits and a logarithm that is exact on the numbers coded.
\<close>

theorem elias_stream_roundtrip:
  fixes data :: "'w::len word list"
  assumes "LENGTH('w) \<le> 32" and "exact_log2 flog2 m" and "64 < m"
    and "\<forall>x \<in> set xs. 0 < x \<and> x < m \<and> x < 2 ^ 64"
    and "length (concat (map (elias_bits flog2) xs)) \<le> length data * LENGTH('w)"
  shows "\<exists>w w' r. elias_encode_list flog2 xs (BitWriter data) = Inr w \<and> Flush w = Inr w' \<and>
    elias_decode_list (length xs) (BitReader (bw_data w')) = Inr (xs, r)"
proof -
  obtain w w' pad where w: "put_all (concat (map (elias_bits flog2) xs)) (BitWriter data) = Inr w"
    "Flush w = Inr w'" "pending (BitReader (bw_data w')) = concat (map (elias_bits flog2) xs) @ pad"
    using put_all_flush [OF assms(5)] by blast
  moreover have "elias_encode_list flog2 xs (BitWriter data) = Inr w"
    using w(1) assms(4) by (subst encode_list_put_all) auto
  ultimately show ?thesis
    using decode_list_pending [OF reader_start_ok assms(1-4) w(3)] by blast
qed

text \<open>A logarithm that is exact everywhere, for the examples.\<close>

fun ilog2 :: "nat \<Rightarrow> nat" where
  "ilog2 n = (if n < 2 then 0 else 1 + ilog2 (n div 2))"

declare ilog2.simps [simp del]

lemma ilog2_exact: "0 < n \<Longrightarrow> 2 ^ ilog2 n \<le> n \<and> n < 2 ^ (ilog2 n + 1)"
proof (induction n rule: ilog2.induct)
  case (1 n)
  show ?case
  proof (cases "n < 2")
    case True
    then show ?thesis using 1 by (simp add: ilog2.simps [of n])
  next
    case False
    then have IH: "2 ^ ilog2 (n div 2) \<le> n div 2" "n div 2 < 2 ^ (ilog2 (n div 2) + 1)"
      using 1 by auto
    then show ?thesis using False by (simp add: ilog2.simps [of n]) linarith
  qed
qed

theorem elias_stream_roundtrip_witness:
  "\<exists>w w' r. elias_encode_list ilog2 [5, 1, 200] (BitWriter [0 :: u8, 0, 0]) = Inr w \<and> Flush w = Inr w' \<and>
     elias_decode_list (length [5 :: nat, 1, 200]) (BitReader (bw_data w')) = Inr ([5, 1, 200], r)"
proof (rule elias_stream_roundtrip [where m = 300])
  show "length (concat (map (elias_bits ilog2) [5, 1, 200])) \<le> length [0 :: u8, 0, 0] * LENGTH(8)"
    by (simp add: elias_bits_def ilog2.simps Let_def)
qed (use ilog2_exact in \<open>auto simp: exact_log2_def\<close>)

text \<open>
  A stream of 64-bit blocks cannot be read: the very first bit asks for \<open>1 <<
  63\<close> in \<open>int\<close>, which is undefined, whatever the buffer holds.
\<close>

theorem reader_of_64_bit_blocks:
  "GetBit (BitReader ((b :: u64) # bs)) = Inl (Undefined ''shift'')"
  by (simp add: GetBit_def BitReader_def bit_mask_def)

text \<open>
  The random number generator never falls into the state that only repeats zeros: from any
  other state it steps to one that is not all zero.
\<close>

theorem xorshift_state_nonzero:
  assumes "st \<noteq> (0, 0)"
  shows "snd (xorshift128p st) \<noteq> (0, 0)"
proof
  assume z: "snd (xorshift128p st) = (0, 0)"
  then have s: "snd st = 0" by (simp add: xorshift128p_def Let_def)
  define t1 where "t1 = fst st XOR push_bit 23 (fst st)"
  have "t1 XOR drop_bit 17 t1 = 0" using z s by (simp add: xorshift128p_def t1_def Let_def)
  then have "t1 = 0" by (rule xor_drop_bit_0) simp
  then have "fst st = 0" using xor_push_bit_0 [of "fst st" 23] by (simp add: t1_def)
  then show False using s assms by (simp add: prod_eq_iff)
qed

theorem xorshift_state_nonzero_witness:
  "snd (xorshift128p (set_seed 2051)) \<noteq> (0, 0)"
  by (rule xorshift_state_nonzero) (simp add: set_seed_def)

text \<open>
  \<open>RoundNextPow2\<close> gives the least power of two that is not below its argument,
  for every argument up to \<open>2 ^ 31\<close> other than zero.
\<close>

theorem round_next_pow2_least:
  assumes "0 < unat v" and "unat v \<le> 2 ^ 31"
  shows "\<exists>k. unat (RoundNextPow2 v) = 2 ^ k \<and> unat v \<le> 2 ^ k \<and> (\<forall>j. unat v \<le> 2 ^ j \<longrightarrow> k \<le> j)"
proof -
  define w where "w = v - 1"
  have uw: "unat w = unat v - 1" using assms(1) by (simp add: w_def unat_sub word_le_nat_alt)
  define v1 where "v1 = w OR drop_bit 1 w"
  define v2 where "v2 = v1 OR drop_bit 2 v1"
  define v3 where "v3 = v2 OR drop_bit 4 v2"
  define v4 where "v4 = v3 OR drop_bit 8 v3"
  define v5 where "v5 = v4 OR drop_bit 16 v4"
  have r: "RoundNextPow2 v = v5 + 1"
    by (simp add: RoundNextPow2_def Let_def w_def v1_def v2_def v3_def v4_def v5_def)
  note sb = smear_bits [OF v1_def v2_def v3_def v4_def v5_def]
  show ?thesis
  proof (cases "unat w = 0")
    case True
    then have "w = 0" by (simp add: unat_eq_0)
    then have "v5 = 0" by (simp add: v1_def v2_def v3_def v4_def v5_def)
    moreover have "unat v = 1" using True uw assms(1) by simp
    ultimately show ?thesis using r by (intro exI [of _ 0]) simp
  next
    case False
    define j where "j = ilog2 (unat w)"
    have j: "2 ^ j \<le> unat w" "unat w < 2 ^ (j + 1)" using ilog2_exact False by (auto simp: j_def)
    have "(2 :: nat) ^ j < 2 ^ 31" using j(1) uw assms by linarith
    then have j31: "j < 31" by (rule power_less_imp_less_exp [rotated]) simp
    have "v5 = mask (j + 1)"
    proof (rule bit_word_eqI)
      fix i assume "i < LENGTH(32)"
      show "bit v5 i = bit (mask (j + 1) :: u32) i"
      proof
        assume "bit v5 i"
        then obtain d where "bit w (i + d)" by (auto simp: sb)
        then have "i + d \<le> j" using bit_in_range(2) [OF j] by simp
        then show "bit (mask (j + 1) :: u32) i" using j31 by (simp add: bit_mask_iff)
      next
        assume "bit (mask (j + 1) :: u32) i"
        then have "i \<le> j" by (simp add: bit_mask_iff)
        then have "bit w (i + (j - i))" using bit_in_range(1) [OF j] by simp
        then show "bit v5 i" using j31 by (auto simp: sb intro!: exI [of _ "j - i"])
      qed
    qed
    then have "RoundNextPow2 v = 2 ^ (j + 1)" by (simp add: r mask_eq_decr_exp del: power_Suc)
    moreover have "(2 :: nat) ^ (j + 1) < 2 ^ 32" using j31 by (intro power_strict_increasing) auto
    then have "unat (of_nat (2 ^ (j + 1)) :: u32) = 2 ^ (j + 1)"
      using j31 by (simp only: unsigned_of_nat) (simp add: take_bit_nat_eq_self del: power_Suc)
    ultimately have "unat (RoundNextPow2 v) = 2 ^ (j + 1)" by (simp del: power_Suc)
    moreover have "unat v \<le> 2 ^ (j + 1)" using j(2) uw by linarith
    moreover have "j + 1 \<le> i" if "unat v \<le> 2 ^ i" for i
    proof (rule ccontr)
      assume "\<not> j + 1 \<le> i"
      then have "(2 :: nat) ^ i \<le> 2 ^ j" by (intro power_increasing) auto
      then show False using that j(1) uw False by linarith
    qed
    ultimately show ?thesis by blast
  qed
qed

theorem round_next_pow2_least_witness:
  "\<exists>k. unat (RoundNextPow2 5) = 2 ^ k \<and> (5 :: nat) \<le> 2 ^ k \<and> k \<le> 3"
  using round_next_pow2_least [of 5] by fastforce

end
