(* ===== verification/Operations.thy ===== *)
theory Operations
  imports Worker_Global Compressor_Utils
begin

section \<open>Operations on tensors\<close>

text \<open>
  Models \<open>deep_inc/common/operations.cc\<close> and \<open>shared_memory.cc\<close>: which background loops a worker
  starts, how a tensor is initialised (its keys, its shared memory, the first pushes to the
  servers), how it is cut into partitions and enqueued, and the lists of stages a task goes
  through. A loop that may run forever (a partition bound of zero) is a partial function into
  \<open>option\<close>: \<open>None\<close> is a call that does not return.
\<close>

subsection \<open>What the operations use of the system\<close>

text \<open>
  The answers of \<open>shm_open\<close>, \<open>ftruncate\<close> and \<open>mmap\<close> for a name, the device address of pinned host
  memory, the compressor registry (which may give the null pointer, \<open>None\<close>) and the parameters of
  the key encoding.
\<close>

record worker_os =
  os_shm :: "string \<Rightarrow> int \<times> int \<times> int"
  os_dev_ptr :: "nat \<Rightarrow> nat"
  os_compressor :: "kwargs \<Rightarrow> u64 \<Rightarrow> int \<Rightarrow> nat option res"
  os_krs :: "(u64 \<times> u64) list"
  os_builtin :: "string \<Rightarrow> u64"
  os_rnd :: "rat \<Rightarrow> rat"

definition encode_key :: "worker_os \<Rightarrow> u64 \<Rightarrow> u64 \<Rightarrow> worker \<Rightarrow> (pskv \<times> worker) res" where
  "encode_key os key len w =
     rbind (EncodeDefaultKey (os_builtin os) (os_rnd os) (w_hash w) (os_krs os) (w_encoder w) key len)
       (\<lambda>(kv, enc). Inr (kv, w\<lparr>w_encoder := enc\<rparr>))"

subsection \<open>Starting the loops\<close>

datatype loop_function = CoordinateReduceLoop | CoordinateBroadcastLoop | CoordinatePushLoop
  | PcieReduceLoop | RootNcclLoop | NonRootNcclLoop | SyncNcclLoop | CopyDevice2HostLoop
  | CompressLoop | PushLoop | PullLoop | DecompressLoop | RootCopyHost2DeviceLoop
  | NonRootCopyListenLoop | NonRootCopyHost2DeviceLoop

definition loop_functions :: "worker \<Rightarrow> nccl_manager \<Rightarrow> loop_function list" where
  "loop_functions w nm =
     (if w_is_distributed w \<and> w_is_root_device w then [PullLoop, DecompressLoop] else []) @
     (if w_is_cross_pcie w then [PcieReduceLoop] else []) @
     (if w_is_cross_pcie w \<or> w_is_distributed w
      then CopyDevice2HostLoop #
             (if w_is_root_device w then [PushLoop, CompressLoop, RootCopyHost2DeviceLoop]
              else [CoordinatePushLoop, NonRootCopyHost2DeviceLoop, NonRootCopyListenLoop])
      else []) @
     [SyncNcclLoop] @
     (if IsSignalRoot nm (w_local_rank w) then [RootNcclLoop]
      else [CoordinateReduceLoop, CoordinateBroadcastLoop, NonRootNcclLoop])"

definition byteps_lazy_init :: "environ \<Rightarrow> init_os \<Rightarrow> worker \<Rightarrow> (loop_function list \<times> worker) res" where
  "byteps_lazy_init env os w =
     rbind (global_Init env os w) (\<lambda>w1. rbind (get_nccl w1) (\<lambda>nm.
       let fs = loop_functions w1 nm in Inr (fs, global_Start (length fs) w1)))"

definition byteps_init :: "environ \<Rightarrow> init_os \<Rightarrow> worker \<Rightarrow> (loop_function list \<times> worker) res" where
  "byteps_init env os w =
     rbind (byteps_lazy_init env os w) (\<lambda>(fs, w1). Inr (fs, snd (GetOrInitPS w1)))"

definition byteps_resume :: "environ \<Rightarrow> init_os \<Rightarrow> worker \<Rightarrow> (loop_function list \<times> worker) res" where
  "byteps_resume env os w =
     rbind (byteps_init env os (w\<lparr>w_is_resuming := True\<rparr>)) (\<lambda>(fs, w1).
       Inr (fs, (ReDeclareTensor w1)\<lparr>w_is_resuming := False\<rparr>))"

subsection \<open>The lists of stages\<close>

definition GetPushQueueList :: "worker \<Rightarrow> nccl_manager \<Rightarrow> queue_type list" where
  "GetPushQueueList w nm =
     (if IsSignalRoot nm (w_local_rank w) then [REDUCE] else [COORDINATE_REDUCE, REDUCE]) @
     (if w_is_distributed w \<or> w_is_cross_pcie w then [COPYD2H] else []) @
     (if w_is_cross_pcie w then [PCIE_REDUCE] else []) @
     (if w_is_distributed w \<or> w_is_cross_pcie w
      then (if w_is_root_device w then [PUSH] else [COORDINATE_PUSH]) else [])"

definition GetPullQueueList :: "worker \<Rightarrow> nccl_manager \<Rightarrow> queue_type list" where
  "GetPullQueueList w nm =
     (if w_is_distributed w \<and> w_is_root_device w then [PULL] else []) @
     (if w_is_distributed w \<or> w_is_cross_pcie w then [COPYH2D] else []) @
     (if IsSignalRoot nm (w_local_rank w) then [BROADCAST] else [COORDINATE_BROADCAST, BROADCAST])"

text \<open>
  \<open>COMPRESS\<close> goes before \<open>PUSH\<close> (at the end when there is none) and \<open>DECOMPRESS\<close> behind \<open>PULL\<close>,
  where incrementing the end iterator is undefined.
\<close>

fun position :: "queue_type \<Rightarrow> queue_type list \<Rightarrow> nat" where
  "position x [] = 0"
| "position x (y # ys) = (if y = x then 0 else Suc (position x ys))"

definition insert_compression :: "queue_type list \<Rightarrow> queue_type list res" where
  "insert_compression ql =
     (let i = position PUSH ql;
          ql1 = take i ql @ COMPRESS # drop i ql;
          j = position PULL ql1
      in check (j < length ql1) (Undefined ''iterator past the end'')
           (Inr (take (j + 1) ql1 @ DECOMPRESS # drop (j + 1) ql1)))"

subsection \<open>Shared memory\<close>

definition openSharedMemory :: "worker_os \<Rightarrow> string \<Rightarrow> u64 \<Rightarrow> u64 \<Rightarrow> worker \<Rightarrow> (nat \<times> worker) res" where
  "openSharedMemory os prefix key size0 w =
     rbind (RoundUpToPageSize w size0) (\<lambda>sz.
       let name = prefix @ nat_to_string (unat key)
       in case os_shm os name of (fd, tr, ptr) \<Rightarrow>
            check (0 \<le> fd) (CheckFailed ''shm_open failed'')
           (check (0 \<le> tr) (CheckFailed ''ftruncate'')
           (check (0 \<le> ptr) (CheckFailed ''mmap'')
              (Inr (nat ptr, emit (OpenSharedMemory name key (unat sz)) w)))))"

fun pcie_shm_loop :: "worker_os \<Rightarrow> u64 \<Rightarrow> u64 \<Rightarrow> nat list \<Rightarrow> worker \<Rightarrow> (nat list \<times> worker) res" where
  "pcie_shm_loop os key sz [] w = Inr ([], w)"
| "pcie_shm_loop os key sz (i # is) w =
     rbind (openSharedMemory os (''BytePS_Pcie'' @ nat_to_string i @ ''_Shm_'') key sz w) (\<lambda>(p, w1).
     rbind (pcie_shm_loop os key sz is w1) (\<lambda>(ps, w2). Inr (p # ps, w2)))"

definition openPcieSharedMemory :: "worker_os \<Rightarrow> u64 \<Rightarrow> u64 \<Rightarrow> worker \<Rightarrow> (nat list \<times> worker) res" where
  "openPcieSharedMemory os key sz w =
     rbind (get_nccl w) (\<lambda>nm.
     check (nm_size nm \<noteq> 0) (Undefined ''division by zero'')
       (pcie_shm_loop os key sz [0..<nat (GetPcieSwitchNum w nm)] w))"

subsection \<open>Partitions\<close>

text \<open>One partition: a copy of the entry with its own name, offset, length and compressor.\<close>

definition make_partition :: "tte \<Rightarrow> nat \<Rightarrow> u64 \<Rightarrow> u64 \<Rightarrow> nat option \<Rightarrow> tte" where
  "make_partition e i acc len cmp =
     e\<lparr>te_name := te_name e @ ''_'' @ nat_to_string i, te_key := 0, te_root_rank := 0,
       te_offset := ucast acc, te_len := ucast len, te_compressor := cmp, te_compressed := None\<rparr>"

definition part_len :: "u64 \<Rightarrow> u64 \<Rightarrow> u64 \<Rightarrow> u64" where
  "part_len sz bound acc = (if sz - acc > bound then bound else sz - acc)"

partial_function (option) partition_loop ::
    "tte \<Rightarrow> nat option list \<Rightarrow> u64 \<Rightarrow> u64 \<Rightarrow> u64 \<Rightarrow> nat \<Rightarrow> tte list res option" where
  "partition_loop e comps sz bound acc i =
     (if \<not> acc < sz then Some (Inr [])
      else case (if comps = [] then Inr None else vec_get comps i) of
             Inl err \<Rightarrow> Some (Inl err)
           | Inr cmp \<Rightarrow>
               Option.bind (partition_loop e comps sz bound
                   (acc + ucast (te_len (make_partition e i acc (part_len sz bound acc) cmp))) (i + 1))
                 (\<lambda>r. Some (rbind r (\<lambda>es.
                    Inr (make_partition e i acc (part_len sz bound acc) cmp # es)))))"

text \<open>The input tensor gives the size, or the output if there is no input.\<close>

definition entry_tensor :: "tte \<Rightarrow> tensor res" where
  "entry_tensor e =
     (case te_tensor e of
        Some t \<Rightarrow> Inr t
      | None \<Rightarrow> (case te_output e of None \<Rightarrow> Inl (Undefined ''null tensor'') | Some t \<Rightarrow> Inr t))"

definition PartitionTensor :: "worker \<Rightarrow> bps_context \<Rightarrow> tte \<Rightarrow> tte list res option" where
  "PartitionTensor w c e =
     (if te_counter e = None then Some (Inl (CheckFailed ''counter pointer is null''))
      else (case entry_tensor e of
              Inl err \<Rightarrow> Some (Inl err)
            | Inr t \<Rightarrow>
                partition_loop e (compressor_list c) (of_nat (tensor_size t))
                  (ucast (w_partition_bytes w)) 0 0))"

subsection \<open>Enqueueing\<close>

text \<open>The entry of the whole tensor.\<close>

definition make_entry :: "bps_context \<Rightarrow> string \<Rightarrow> tensor option \<Rightarrow> tensor option \<Rightarrow> nat option \<Rightarrow> int \<Rightarrow>
    int \<Rightarrow> int \<Rightarrow> nat \<Rightarrow> queue_type list \<Rightarrow> nat \<Rightarrow> tte" where
  "make_entry c name input output ready dev prio ver cb ql cid =
     \<lparr>te_name = ctx_name c, te_key = 0, te_context = name, te_tensor = input, te_output = output,
      te_priority = prio, te_version = ver, te_root_rank = 0, te_ready_event = ready,
      te_device = dev, te_callback = cb, te_cpubuff = ctx_cpubuff c, te_gpu_ptr = ctx_gpu_ptr c,
      te_pcie_cpubuff = ctx_pcie_cpubuff c, te_queue_list = ql, te_offset = 0, te_len = 0,
      te_counter = Some cid, te_total_partnum = of_nat (length (key_list c)),
      te_compressor = None, te_compressed = None\<rparr>"

text \<open>The loop that gives the partitions their keys and puts them into the first queue.\<close>

fun enqueue_parts :: "queue_type \<Rightarrow> u64 list \<Rightarrow> tte list \<Rightarrow> u64 \<Rightarrow> worker \<Rightarrow> (u64 \<times> worker) res" where
  "enqueue_parts qt keys [] acc w = Inr (acc, w)"
| "enqueue_parts qt keys (t # ts) acc w =
     (case keys of
        [] \<Rightarrow> Inl (Undefined ''vector index'')
      | k # ks \<Rightarrow>
          check (te_name t \<noteq> []) (CheckFailed ''tensor_name'')
            (rbind (GetScheduledQueue w qt) (\<lambda>q.
             rbind (addTask q (t\<lparr>te_key := k\<rparr>)) (\<lambda>q'.
               enqueue_parts qt ks ts (acc + ucast (te_len t)) (set_queue qt q' w)))))"

text \<open>A CPU tensor is pinned again, and the context takes its device address.\<close>

definition pin_input :: "worker_os \<Rightarrow> string \<Rightarrow> bps_context \<Rightarrow> tensor option \<Rightarrow> int \<Rightarrow> worker \<Rightarrow>
    (bps_context \<times> worker) res" where
  "pin_input os name c input dev w =
     (if dev = CPU_DEVICE_ID
      then (case input of
              None \<Rightarrow> Inl (Undefined ''null tensor'')
            | Some t \<Rightarrow>
                let c' = c\<lparr>ctx_gpu_ptr := Some (os_dev_ptr os (tensor_data t))\<rparr>
                in Inr (c', set_context name c' (emit (HostRegister (tensor_data t) (tensor_size t)) w)))
      else Inr (c, w))"

text \<open>
  \<open>name\<close> is the key of the context in the table, \<open>cb\<close> the callback, \<open>cid\<close> the new atomic counter.
  The stage list is shared with the caller and comes back changed.
\<close>

definition EnqueueTensor :: "worker_os \<Rightarrow> int \<Rightarrow> nat \<Rightarrow> string \<Rightarrow> tensor option \<Rightarrow> tensor option \<Rightarrow>
    nat option \<Rightarrow> int \<Rightarrow> int \<Rightarrow> int \<Rightarrow> nat \<Rightarrow> queue_type list \<Rightarrow> worker \<Rightarrow>
    (status \<times> queue_type list \<times> worker) res option" where
  "EnqueueTensor os now cid name input output ready dev prio ver cb ql w =
     (if w_should_shutdown w then Some (Inr (Status_OK, ql, w))
      else case ctxs w name of None \<Rightarrow> Some (Inl (Undefined ''null context''))
      | Some c0 \<Rightarrow>
          if (case (input, output) of (Some a, Some b) \<Rightarrow> tensor_size a \<noteq> tensor_size b | _ \<Rightarrow> False)
          then Some (Inl (CheckFailed ''output tensor size does not match''))
          else case (if w_is_root_device w \<and> compressor_list c0 \<noteq> [] then insert_compression ql
                     else Inr ql) of
            Inl err \<Rightarrow> Some (Inl err)
          | Inr ql1 \<Rightarrow>
              (case pin_input os name c0 input dev w of
                 Inl err \<Rightarrow> Some (Inl err)
               | Inr (c, w1) \<Rightarrow>
                   let e = make_entry c name input output ready dev prio ver cb ql1 cid;
                       w2 = w1\<lparr>w_counters := (w_counters w1)(cid \<mapsto> 0)\<rparr>
                   in map_option (\<lambda>r. rbind r (\<lambda>parts.
                        check (length (key_list c) = length parts) (CheckFailed ''partitions'')
                          (if ql1 = []
                           then check (te_name e \<noteq> []) (CheckFailed ''tensor_name'')
                                  (Inr (Status_OK, ql1, emit (Callback cb Status_OK) w2))
                           else
                             let w3 = (if profile_flag c
                                       then set_context name (c\<lparr>comm_time := comm_time c @
                                              [BPSCommTime\<lparr>start_t := now\<rparr>]\<rparr>) w2
                                       else w2)
                             in rbind (enqueue_parts (hd ql1) (key_list c) parts 0 w3) (\<lambda>(acc, w4).
                                rbind (entry_tensor e) (\<lambda>t.
                                  check (acc = of_nat (tensor_size t)) (CheckFailed ''accumulated'')
                                    (Inr (Status_OK, ql1, w4)))))))
                      (PartitionTensor w2 c e)))"

subsection \<open>Initialising a tensor\<close>

partial_function (option) key_loop :: "u64 \<Rightarrow> u64 \<Rightarrow> u64 \<Rightarrow> u64 \<Rightarrow> u64 list option" where
  "key_loop sz bound acc key =
     (if \<not> acc < sz then Some []
      else Option.bind (key_loop sz bound (acc + part_len sz bound acc) (key + 1))
             (\<lambda>ks. Some (key # ks)))"

text \<open>
  The first push of every partition, and its compressor. The length is an \<open>int\<close>; \<open>data\<close> is the
  address of the shared memory. The source waits until the servers have answered the push: whether
  they do is a matter of the servers (\<open>first_pushes_open_key\<close>) and of the transport, so here the
  push is recorded with its wait and the function goes on as it does behind the wait. A compressor
  the registry does not know is kept as a null pointer; the compression loop checks for it.
\<close>

definition init_partition :: "worker_os \<Rightarrow> nat \<Rightarrow> int \<Rightarrow> u64 \<Rightarrow> u64 \<Rightarrow> int \<Rightarrow> bps_context \<Rightarrow> worker \<Rightarrow>
    (bps_context \<times> worker) res" where
  "init_partition os data dtype key acc len c w =
     (if w_is_distributed w \<and> w_is_root_device w
      then rbind (encode_key os key (of_int len) (snd (GetOrInitPS w))) (\<lambda>(kv, w1).
             let w2 = emit (ZPushWait (kv_keys kv) (data + unat acc) len (kv_lens kv)
                              (GetCommandType kDefaultPushPull dtype)) w1
             in if ctx_kwargs c \<noteq> []
                then rbind (Align (of_int len) dtype) (\<lambda>asz.
                     rbind (os_compressor os (ctx_kwargs c) asz dtype) (\<lambda>id.
                       Inr (c\<lparr>compressor_list := compressor_list c @ [id]\<rparr>, w2)))
                else Inr (c, w2))
      else Inr (c, w))"

partial_function (option) init_loop :: "worker_os \<Rightarrow> nat \<Rightarrow> int \<Rightarrow> u64 \<Rightarrow> u64 \<Rightarrow> u64 list \<Rightarrow> u64 \<Rightarrow> nat \<Rightarrow>
    bps_context \<Rightarrow> worker \<Rightarrow> (u64 \<times> nat \<times> bps_context \<times> worker) res option" where
  "init_loop os data dtype sz bound keys acc i c w =
     (if \<not> acc < sz then Some (Inr (acc, i, c, w))
      else case vec_get keys i of
             Inl err \<Rightarrow> Some (Inl err)
           | Inr key \<Rightarrow>
               (case init_partition os data dtype key acc (to_int (part_len sz bound acc)) c w of
                  Inl err \<Rightarrow> Some (Inl err)
                | Inr cw \<Rightarrow>
                    init_loop os data dtype sz bound keys
                      (acc + of_int (to_int (part_len sz bound acc))) (i + 1) (fst cw) (snd cw)))"

text \<open>The parameters go to the server under every key.\<close>

fun send_kwargs :: "worker_os \<Rightarrow> int \<Rightarrow> string \<Rightarrow> u64 list \<Rightarrow> worker \<Rightarrow> worker res" where
  "send_kwargs os dtype content [] w = Inr w"
| "send_kwargs os dtype content (k # ks) w =
     rbind (encode_key os k (of_nat (length content)) (snd (GetOrInitPS w))) (\<lambda>(kv, w1).
       send_kwargs os dtype content ks
         (emit (ZPushWait (kv_keys kv) 0 (int (length content)) (kv_lens kv) (GetCommandType kCompressedPushPull dtype)) w1))"

definition init_buffer :: "worker_os \<Rightarrow> u64 \<Rightarrow> u64 \<Rightarrow> bps_context \<Rightarrow> worker \<Rightarrow> (bps_context \<times> worker) res" where
  "init_buffer os key asz c w =
     (if w_is_cross_pcie w
      then rbind (openPcieSharedMemory os key asz w) (\<lambda>(ps, w1).
             check (ps \<noteq> []) (Undefined ''back() of an empty vector'')
               (Inr (c\<lparr>ctx_pcie_cpubuff := ps, ctx_cpubuff := Some (last ps)\<rparr>, w1)))
      else rbind (openSharedMemory os ''BytePS_ShM_'' key asz w) (\<lambda>(p, w1).
             Inr (c\<lparr>ctx_cpubuff := Some p\<rparr>, w1)))"

text \<open>
  Everything behind the first loop, with the new keys appended to the context's list; \<open>cpubuff\<close> is
  the address of the tensor when it is on the CPU already.
\<close>

definition InitTensor_rest :: "worker_os \<Rightarrow> string \<Rightarrow> u64 \<Rightarrow> int \<Rightarrow> nat option \<Rightarrow> bps_context \<Rightarrow> worker \<Rightarrow>
    worker res option" where
  "InitTensor_rest os name sz dtype cpubuff c w =
     (let bound = (ucast (w_partition_bytes w) :: u64); keys = key_list c;
          c1 = (case cpubuff of None \<Rightarrow> c | Some p \<Rightarrow> c\<lparr>ctx_gpu_ptr := Some (os_dev_ptr os p)\<rparr>);
          w1 = (case cpubuff of None \<Rightarrow> w | Some p \<Rightarrow> emit (HostRegister p (unat sz)) w)
      in case check (keys \<noteq> []) (CheckFailed ''key_list'')
                (check (bound \<noteq> 0) (Undefined ''division by zero'')
                (check (of_nat (length keys) = (sz + bound - 1) div bound) (CheckFailed ''round up'')
                (rbind (Align sz dtype) (\<lambda>asz. init_buffer os (hd keys) asz c1 w1)))) of
           Inl err \<Rightarrow> Some (Inl err)
         | Inr (c2, w2) \<Rightarrow>
             (let c3 = (if sz < ucast (w_min_compress_bytes w) then c2\<lparr>ctx_kwargs := []\<rparr> else c2);
                  data = (case ctx_cpubuff c3 of None \<Rightarrow> 0 | Some p \<Rightarrow> p)
              in map_option (\<lambda>r. rbind r (\<lambda>(acc, i, c4, w4).
                   check (acc = sz) (CheckFailed ''accumulated'')
                  (check (i = length keys) (CheckFailed ''key_list'')
                  (rbind (if ctx_kwargs c4 \<noteq> [] \<and> w_is_distributed w4 \<and> w_is_root_device w4
                          then send_kwargs os dtype (Serialize (ctx_kwargs c4)) keys w4
                          else Inr w4) (\<lambda>w5.
                     Inr (set_context name (c4\<lparr>initialized := True\<rparr>) w5))))))
                 (init_loop os data dtype sz bound keys 0 0 c3 w2)))"

definition InitTensor :: "worker_os \<Rightarrow> string \<Rightarrow> u64 \<Rightarrow> int \<Rightarrow> nat option \<Rightarrow> worker \<Rightarrow> worker res option" where
  "InitTensor os name sz dtype cpubuff w =
     (case ctxs w name of None \<Rightarrow> Some (Inl (Undefined ''null context''))
      | Some c0 \<Rightarrow>
          if initialized c0 then Some (Inr w)
          else if \<not> 0 < sz then Some (Inl (CheckFailed ''init tensor size not larger than 0''))
          else case SetProfileFlag name (set_context name (c0\<lparr>buff_len := unat sz\<rparr>) w) of
            Inl err \<Rightarrow> Some (Inl err)
          | Inr w1 \<Rightarrow>
              (case ctxs w1 name of None \<Rightarrow> Some (Inl (Undefined ''null context''))
               | Some c1 \<Rightarrow>
                   Option.bind (key_loop sz (ucast (w_partition_bytes w1)) 0 (push_bit 16 (declared_key c1)))
                     (\<lambda>ks. InitTensor_rest os name sz dtype cpubuff
                        (c1\<lparr>ctx_local_rank := w_local_rank w1, key_list := key_list c1 @ ks\<rparr>) w1)))"

subsection \<open>Lemmas\<close>

text \<open>The number of partitions, and the length of the \<open>j\<close>-th, on the natural numbers.\<close>

definition nparts :: "nat \<Rightarrow> nat \<Rightarrow> nat" where
  "nparts n b = (n + b - 1) div b"

lemma nparts_less: "0 < b \<Longrightarrow> j < nparts n b \<longleftrightarrow> j * b < n"
proof -
  assume b: "0 < b"
  have "j < nparts n b \<longleftrightarrow> (j + 1) * b \<le> n + b - 1"
    using b by (simp add: nparts_def Suc_le_eq [symmetric] less_eq_div_iff_mult_less_eq)
  also have "\<dots> \<longleftrightarrow> j * b < n" using b by auto
  finally show ?thesis .
qed

lemma nparts_step: "0 < b \<Longrightarrow> j < nparts n b \<Longrightarrow> min (j * b) n = j * b \<and> min (Suc j * b) n = j * b + min b (n - j * b)"
  by (simp add: nparts_less)

lemma part_len_unat:
  assumes "unat acc \<le> unat sz"
  shows "unat (part_len sz bound acc) = min (unat bound) (unat sz - unat acc)"
proof -
  have "unat (sz - acc) = unat sz - unat acc" using assms by (simp add: unat_sub word_le_nat_alt)
  then show ?thesis by (auto simp: part_len_def word_less_nat_alt)
qed

lemma unat_of_nat_u64: "n < 2 ^ 64 \<Longrightarrow> unat (of_nat n :: u64) = n"
  by (simp add: unsigned_of_nat take_bit_nat_eq_self)

lemma unat_of_nat_u32: "n < 2 ^ 32 \<Longrightarrow> unat (of_nat n :: u32) = n"
  by (simp add: unsigned_of_nat take_bit_nat_eq_self)

lemma unat_down_up: "unat x < 2 ^ 32 \<Longrightarrow> ucast (ucast x :: u32) = (x :: u64)"
  by (simp add: word_unat_eq_iff unsigned_ucast_eq unsigned_take_bit_eq take_bit_nat_eq_self)

text \<open>The position reached before partition \<open>i\<close>, and the step to the next one.\<close>

lemma position_step:
  assumes "0 < unat bound" and "i < nparts (unat sz) (unat bound)"
  shows "(of_nat (min (i * unat bound) (unat sz)) :: u64) = of_nat (i * unat bound)"
    and "of_nat (i * unat bound) < sz"
    and "of_nat (i * unat bound) + part_len sz bound (of_nat (i * unat bound)) =
      of_nat (min (Suc i * unat bound) (unat sz))"
proof -
  have lt: "i * unat bound < unat sz" using assms by (simp add: nparts_less)
  then have u: "unat (of_nat (i * unat bound) :: u64) = i * unat bound"
    using unat_u64_less [of sz] by (intro unat_of_nat_u64) simp
  then show "of_nat (i * unat bound) < sz" using lt by (simp add: word_less_nat_alt del: of_nat_mult)
  show "(of_nat (min (i * unat bound) (unat sz)) :: u64) = of_nat (i * unat bound)"
    using lt by (simp add: min_def)
  have p: "unat (part_len sz bound (of_nat (i * unat bound))) = min (unat bound) (unat sz - i * unat bound)"
    using u lt by (subst part_len_unat) (simp_all del: of_nat_mult)
  have "min (Suc i * unat bound) (unat sz) = i * unat bound + min (unat bound) (unat sz - i * unat bound)"
    using nparts_step [OF assms] by blast
  then have "(of_nat (min (Suc i * unat bound) (unat sz)) :: u64) =
      of_nat (i * unat bound) + of_nat (unat (part_len sz bound (of_nat (i * unat bound))))"
    by (simp only: p of_nat_add)
  then show "of_nat (i * unat bound) + part_len sz bound (of_nat (i * unat bound)) =
      of_nat (min (Suc i * unat bound) (unat sz))"
    by simp
qed

definition partition_at :: "tte \<Rightarrow> nat option list \<Rightarrow> u64 \<Rightarrow> u64 \<Rightarrow> nat \<Rightarrow> tte" where
  "partition_at e comps sz bound j =
     make_partition e j (of_nat (j * unat bound)) (part_len sz bound (of_nat (j * unat bound)))
       (if comps = [] then None else comps ! j)"

lemma partition_loop_eq:
  assumes "0 < unat bound" and "unat bound < 2 ^ 32" and "n = nparts (unat sz) (unat bound)"
    and "comps = [] \<or> n \<le> length comps" and "i \<le> n"
  shows "partition_loop e comps sz bound (of_nat (min (i * unat bound) (unat sz))) i =
    Some (Inr (map (partition_at e comps sz bound) [i..<n]))"
  using assms(5)
proof (induction "n - i" arbitrary: i)
  case 0
  then have "i = n" by simp
  then have "\<not> i * unat bound < unat sz" using assms(1,3) nparts_less [of "unat bound" n "unat sz"] by simp
  then have "min (i * unat bound) (unat sz) = unat sz" by simp
  then show ?case using \<open>i = n\<close> by (subst partition_loop.simps) simp
next
  case (Suc d)
  then have i: "i < n" by simp
  let ?acc = "of_nat (i * unat bound) :: u64"
  note st = position_step [OF assms(1) i [unfolded assms(3)]]
  have "unat (part_len sz bound ?acc) \<le> unat bound"
    by (simp add: part_len_def word_less_nat_alt)
  then have pl: "ucast (te_len (make_partition e i ?acc (part_len sz bound ?acc) c)) = part_len sz bound ?acc" for c
    using assms(2) by (simp add: make_partition_def unat_down_up del: of_nat_mult)
  have c: "(if comps = [] then Inr None else vec_get comps i) =
      (Inr (if comps = [] then None else comps ! i) :: nat option res)"
    using assms(4) i by auto
  have "partition_loop e comps sz bound (of_nat (min (Suc i * unat bound) (unat sz))) (Suc i) =
      Some (Inr (map (partition_at e comps sz bound) [Suc i..<n]))"
    using Suc by (intro Suc.hyps(1)) auto
  then show ?case
    using i st(2) by (subst partition_loop.simps)
      (simp add: st(1) c pl st(3) upt_conv_Cons partition_at_def del: of_nat_mult mult_Suc)
qed

lemma key_loop_eq:
  assumes "0 < unat bound" and "n = nparts (unat sz) (unat bound)" and "i \<le> n"
  shows "key_loop sz bound (of_nat (min (i * unat bound) (unat sz))) (k + of_nat i) =
    Some (map (\<lambda>j. k + of_nat j) [i..<n])"
  using assms(3)
proof (induction "n - i" arbitrary: i)
  case 0
  then have "i = n" by simp
  then have "\<not> i * unat bound < unat sz" using assms(1,2) nparts_less [of "unat bound" n "unat sz"] by simp
  then have "min (i * unat bound) (unat sz) = unat sz" by simp
  then show ?case using \<open>i = n\<close> by (subst key_loop.simps) simp
next
  case (Suc d)
  then have i: "i < n" by simp
  note st = position_step [OF assms(1) i [unfolded assms(2)]]
  have "key_loop sz bound (of_nat (min (Suc i * unat bound) (unat sz))) (k + of_nat (Suc i)) =
      Some (map (\<lambda>j. k + of_nat j) [Suc i..<n])"
    using Suc by (intro Suc.hyps(1)) auto
  then have "key_loop sz bound (of_nat (min (Suc i * unat bound) (unat sz))) (k + of_nat i + 1) =
      Some (map (\<lambda>j. k + of_nat j) [Suc i..<n])"
    by (simp only: of_nat_Suc add.assoc add.commute [of 1])
  then show ?case
    using i st(2) by (subst key_loop.simps)
      (simp add: st(1) st(3) upt_conv_Cons del: of_nat_mult mult_Suc of_nat_Suc)
qed

lemma part_len_0 [simp]: "part_len sz 0 acc = 0"
  by (auto simp: part_len_def word_gt_0)

lemma te_len_make_partition [simp]: "te_len (make_partition e i acc len cmp) = ucast len"
  by (simp add: make_partition_def)

lemma partition_loop_diverges:
  assumes "partition_loop e comps sz bound acc i = Some y"
  shows "bound = 0 \<and> acc < sz \<longrightarrow> (\<exists>err. y = Inl err)"
proof -
  let ?P = "\<lambda>e comps sz bound acc i y. bound = 0 \<and> acc < sz \<longrightarrow> (\<exists>err. y = Inl err)"
  have "?P e comps sz bound acc i y"
  proof (rule partition_loop.raw_induct [OF _ assms])
    fix f :: "tte \<Rightarrow> nat option list \<Rightarrow> u64 \<Rightarrow> u64 \<Rightarrow> u64 \<Rightarrow> nat \<Rightarrow> tte list res option"
    fix e comps sz bound acc i y
    assume IH: "\<And>e comps sz bound acc i y. f e comps sz bound acc i = Some y \<Longrightarrow> ?P e comps sz bound acc i y"
    assume "(if \<not> acc < sz then Some (Inr [])
      else case if comps = [] then Inr None else vec_get comps i of
             Inl err \<Rightarrow> Some (Inl err)
           | Inr cmp \<Rightarrow>
               Option.bind (f e comps sz bound
                   (acc + ucast (te_len (make_partition e i acc (part_len sz bound acc) cmp))) (i + 1))
                 (\<lambda>r. Some (rbind r (\<lambda>es.
                    Inr (make_partition e i acc (part_len sz bound acc) cmp # es))))) = Some y"
    then show "?P e comps sz bound acc i y"
      by (auto split: sum.splits bind_splits if_splits dest!: IH)
  qed
  then show ?thesis by simp
qed

lemma partition_loop_zero:
  "acc < sz \<Longrightarrow> partition_loop e [] sz 0 acc i = None"
proof (rule ccontr)
  assume "acc < sz" and "partition_loop e [] sz 0 acc i \<noteq> None"
  then obtain y where "partition_loop e [] sz 0 acc i = Some y" by blast
  have "\<exists>es. y = Inr es" if "partition_loop e [] sz b acc i = Some y" for e b acc i y
  proof -
    let ?P = "\<lambda>e comps sz b acc i y. comps = [] \<longrightarrow> (\<exists>es. y = Inr es)"
    have "?P e ([] :: nat option list) sz b acc i y"
    proof (rule partition_loop.raw_induct [where P = ?P, OF _ that])
      fix f :: "tte \<Rightarrow> nat option list \<Rightarrow> u64 \<Rightarrow> u64 \<Rightarrow> u64 \<Rightarrow> nat \<Rightarrow> tte list res option"
      fix e comps sz b acc i y
      assume IH: "\<And>e comps sz b acc i y. f e comps sz b acc i = Some y \<Longrightarrow> ?P e comps sz b acc i y"
      assume "(if \<not> acc < sz then Some (Inr [])
        else case if comps = [] then Inr None else vec_get comps i of
               Inl err \<Rightarrow> Some (Inl err)
             | Inr cmp \<Rightarrow>
                 Option.bind (f e comps sz b
                     (acc + ucast (te_len (make_partition e i acc (part_len sz b acc) cmp))) (i + 1))
                   (\<lambda>r. Some (rbind r (\<lambda>es.
                      Inr (make_partition e i acc (part_len sz b acc) cmp # es))))) = Some y"
      then show "?P e comps sz b acc i y"
        by (auto split: if_splits bind_splits dest!: IH)
    qed
    then show ?thesis by simp
  qed
  then show False
    using partition_loop_diverges [of e "[]" sz 0 acc i y] \<open>acc < sz\<close>
      \<open>partition_loop e [] sz 0 acc i = Some y\<close> by fastforce
qed

lemma key_loop_zero: "acc < sz \<Longrightarrow> key_loop sz 0 acc key = None"
proof -
  have "\<not> (bound = 0 \<and> acc < sz)" if "key_loop sz bound acc key = Some y" for bound y
  proof -
    let ?P = "\<lambda>sz bound acc key y. \<not> (bound = 0 \<and> acc < sz)"
    have "?P sz bound acc key y"
    proof (rule key_loop.raw_induct [OF _ that])
      fix f :: "u64 \<Rightarrow> u64 \<Rightarrow> u64 \<Rightarrow> u64 \<Rightarrow> u64 list option"
      fix sz bound acc key y
      assume IH: "\<And>sz bound acc key y. f sz bound acc key = Some y \<Longrightarrow> ?P sz bound acc key y"
      assume "(if \<not> acc < sz then Some []
        else Option.bind (f sz bound (acc + part_len sz bound acc) (key + 1))
               (\<lambda>ks. Some (key # ks))) = Some y"
      then show "?P sz bound acc key y"
        by (auto split: if_splits bind_splits dest!: IH)
    qed
    then show ?thesis by simp
  qed
  then show "acc < sz \<Longrightarrow> key_loop sz 0 acc key = None"
    by (cases "key_loop sz 0 acc key") auto
qed

lemma PartitionTensor_eq:
  assumes "te_counter e \<noteq> None" and "entry_tensor e = Inr t" and "tensor_size t < 2 ^ 64"
    and "0 < w_partition_bytes w" and "n = nparts (tensor_size t) (unat (w_partition_bytes w))"
    and "compressor_list c = [] \<or> n \<le> length (compressor_list c)"
  shows "PartitionTensor w c e = Some (Inr (map (partition_at e (compressor_list c)
    (of_nat (tensor_size t)) (ucast (w_partition_bytes w))) [0..<n]))"
proof -
  have s: "unat (of_nat (tensor_size t) :: u64) = tensor_size t"
    using assms(3) by (rule unat_of_nat_u64)
  have b: "unat (ucast (w_partition_bytes w) :: u64) = unat (w_partition_bytes w)" by simp
  have "0 < unat (w_partition_bytes w)" using assms(4) by (simp add: word_less_nat_alt)
  then show ?thesis
    using assms partition_loop_eq [of "ucast (w_partition_bytes w)" n "of_nat (tensor_size t)"
        "compressor_list c" 0 e] unat_u32_less [of "w_partition_bytes w"]
    by (simp add: PartitionTensor_def s b)
qed

lemma partition_at_unat:
  assumes "b < 2 ^ 32" and "0 < b" and "n < 2 ^ 64" and "i < nparts n b"
  shows "unat (te_offset (partition_at e comps (of_nat n) (of_nat b) i)) = i * b mod 2 ^ 32"
    and "unat (te_len (partition_at e comps (of_nat n) (of_nat b) i)) = min b (n - i * b)"
proof -
  have lt: "i * b < n" using assms by (simp add: nparts_less)
  have u: "unat (of_nat b :: u64) = b" "unat (of_nat n :: u64) = n"
    "unat (of_nat (i * b) :: u64) = i * b"
    using assms(1,3) lt by (simp_all add: unat_of_nat_u64 del: of_nat_mult)
  show "unat (te_offset (partition_at e comps (of_nat n) (of_nat b) i)) = i * b mod 2 ^ 32"
    using u by (simp add: partition_at_def make_partition_def unsigned_ucast_eq unsigned_take_bit_eq
        take_bit_eq_mod del: of_nat_mult)
  have "unat (part_len (of_nat n) (of_nat b) (of_nat (i * b) :: u64)) = min b (n - i * b)"
    using u lt by (simp add: part_len_unat del: of_nat_mult)
  moreover have "min b (n - i * b) < 2 ^ 32" using assms(1) by simp
  ultimately show "unat (te_len (partition_at e comps (of_nat n) (of_nat b) i)) = min b (n - i * b)"
    using u by (simp add: partition_at_def unsigned_ucast_eq unsigned_take_bit_eq
        take_bit_nat_eq_self del: of_nat_mult)
qed

lemma sum_part_lens:
  "0 < b \<Longrightarrow> (\<Sum>i<nparts n b. min b (n - i * b)) = n"
proof -
  assume b: "0 < b"
  have "(\<Sum>i<k. min b (n - i * b)) = min (k * b) n" for k
    by (induction k) auto
  moreover have "n \<le> nparts n b * b" using nparts_less [OF b, of "nparts n b" n] by simp
  ultimately show ?thesis by simp
qed

subsection \<open>Properties of partitions\<close>

text \<open>
  C19. The partitions of a tensor below 4 GiB tile it: the call returns, the lengths add up to the
  tensor's size, and every byte of the tensor lies in exactly one partition.
\<close>

theorem partitions_tile:
  assumes "te_counter e \<noteq> None" and "entry_tensor e = Inr t" and "tensor_size t < 2 ^ 32"
    and "0 < w_partition_bytes w"
    and "compressor_list c = [] \<or>
      nparts (tensor_size t) (unat (w_partition_bytes w)) \<le> length (compressor_list c)"
  shows "\<exists>ps. PartitionTensor w c e = Some (Inr ps) \<and>
    (\<Sum>p\<leftarrow>ps. unat (te_len p)) = tensor_size t \<and>
    (\<forall>x. x < tensor_size t \<longleftrightarrow> (\<exists>!i. i < length ps \<and> unat (te_offset (ps ! i)) \<le> x \<and>
       x < unat (te_offset (ps ! i)) + unat (te_len (ps ! i))))"
proof -
  let ?b = "unat (w_partition_bytes w)" and ?n = "tensor_size t"
  let ?N = "nparts ?n ?b"
  define P where "P = partition_at e (compressor_list c) (of_nat ?n) (ucast (w_partition_bytes w))"
  have b: "0 < ?b" "?b < 2 ^ 32" using assms(4) unat_u32_less by (simp_all add: word_less_nat_alt)
  have bw: "(ucast (w_partition_bytes w) :: u64) = of_nat ?b" by simp
  have r: "PartitionTensor w c e = Some (Inr (map P [0..<?N]))"
    unfolding P_def using assms by (intro PartitionTensor_eq) auto
  have o: "unat (te_offset (P i)) = i * ?b" and l: "unat (te_len (P i)) = min ?b (?n - i * ?b)"
    if i: "i < ?N" for i
  proof -
    have "i * ?b < ?n" using i b by (simp add: nparts_less)
    then show "unat (te_offset (P i)) = i * ?b" "unat (te_len (P i)) = min ?b (?n - i * ?b)"
      unfolding P_def bw using partition_at_unat [OF b(2) b(1) _ i] assms(3) by simp_all
  qed
  have "(\<Sum>p\<leftarrow>map P [0..<?N]. unat (te_len p)) = (\<Sum>i<?N. min ?b (?n - i * ?b))"
    by (simp add: interv_sum_list_conv_sum_set_nat l atLeast0LessThan)
  then have s: "(\<Sum>p\<leftarrow>map P [0..<?N]. unat (te_len p)) = ?n" using sum_part_lens b(1) by simp
  have t: "x < ?n \<longleftrightarrow> (\<exists>!i. i < ?N \<and> i * ?b \<le> x \<and> x < i * ?b + min ?b (?n - i * ?b))" for x
  proof
    assume x: "x < ?n"
    have d: "x div ?b * ?b \<le> x" "x < x div ?b * ?b + ?b"
      using dividend_less_div_times [OF b(1), of x] by (simp_all add: add.commute)
    show "\<exists>!i. i < ?N \<and> i * ?b \<le> x \<and> x < i * ?b + min ?b (?n - i * ?b)"
    proof (intro ex1I [of _ "x div ?b"] conjI)
      show "x div ?b < ?N" using le_less_trans [OF d(1) x] b(1) by (simp only: nparts_less)
      fix i assume "i < ?N \<and> i * ?b \<le> x \<and> x < i * ?b + min ?b (?n - i * ?b)"
      then have "i * ?b \<le> x" "x < i * ?b + ?b" by (simp, elim conjE, linarith)
      then show "i = x div ?b"
        using b(1) by (metis add.commute div_nat_eqI mult.commute mult_Suc)
    qed (use d x in linarith)+
  next
    assume "\<exists>!i. i < ?N \<and> i * ?b \<le> x \<and> x < i * ?b + min ?b (?n - i * ?b)"
    then show "x < ?n" by auto
  qed
  have "(\<exists>!i. i < ?N \<and> unat (te_offset (P i)) \<le> x \<and> x < unat (te_offset (P i)) + unat (te_len (P i))) =
      (\<exists>!i. i < ?N \<and> i * ?b \<le> x \<and> x < i * ?b + min ?b (?n - i * ?b))" for x
    by (metis o l)
  then show ?thesis using r s t by (auto simp: nth_map_upt cong: conj_cong)
qed

definition demo_os :: worker_os where
  "demo_os = \<lparr>os_shm = (\<lambda>_. (3, 0, 8192)), os_dev_ptr = (\<lambda>p. p), os_compressor = (\<lambda>_ _ _. Inr (Some 0)),
     os_krs = demo_ranges, os_builtin = (\<lambda>_. 0), os_rnd = (\<lambda>x. x)\<rparr>"

definition demo_tensor :: "nat \<Rightarrow> tensor" where
  "demo_tensor n = \<lparr>tensor_id = 1, tensor_dtype = BYTEPS_FLOAT32, tensor_shp = [int n], tensor_data = 4096,
     tensor_size = n\<rparr>"

definition demo_entry :: "nat \<Rightarrow> tte" where
  "demo_entry n = (demo_task 0 0 0)\<lparr>te_tensor := Some (demo_tensor n), te_counter := Some 0\<rparr>"

lemmas demo_entry_defs = demo_entry_def demo_tensor_def demo_task_def demo_context_def
  entry_tensor_def initial_worker_def

theorem partitions_tile_witness:
  "\<exists>ps. PartitionTensor initial_worker demo_context (demo_entry 10000000) = Some (Inr ps) \<and>
    (\<Sum>p\<leftarrow>ps. unat (te_len p)) = 10000000"
  using partitions_tile [of "demo_entry 10000000" "demo_tensor 10000000" initial_worker demo_context]
  by (auto simp: demo_entry_defs)

text \<open>
  The offset of a partition is an \<open>unsigned int\<close>: with a partition size that
  divides 4 GiB, a tensor of more than 4 GiB has a partition other than the first whose offset is
  0 again, so two partitions transfer the same bytes while the lengths still add up and every
  check passes.
\<close>

theorem partition_offsets_wrap:
  assumes "te_counter e \<noteq> None" and "entry_tensor e = Inr t"
    and "2 ^ 32 < tensor_size t" and "tensor_size t < 2 ^ 64"
    and "0 < w_partition_bytes w" and "unat (w_partition_bytes w) dvd 2 ^ 32"
    and "compressor_list c = []"
  shows "\<exists>ps i. PartitionTensor w c e = Some (Inr ps) \<and> 0 < i \<and> i < length ps \<and>
    te_offset (ps ! i) = te_offset (ps ! 0) \<and>
    (\<Sum>p\<leftarrow>ps. unat (te_len p)) = tensor_size t"
proof -
  let ?b = "unat (w_partition_bytes w)" and ?n = "tensor_size t"
  let ?N = "nparts ?n ?b"
  define P where "P = partition_at e [] (of_nat ?n) (ucast (w_partition_bytes w))"
  have b: "0 < ?b" "?b < 2 ^ 32" using assms(5) unat_u32_less by (simp_all add: word_less_nat_alt)
  have bw: "(ucast (w_partition_bytes w) :: u64) = of_nat ?b" by simp
  have r: "PartitionTensor w c e = Some (Inr (map P [0..<?N]))"
    unfolding P_def using assms PartitionTensor_eq [OF assms(1,2,4,5) refl, of c] by simp
  have o: "unat (te_offset (P i)) = i * ?b mod 2 ^ 32" and l: "unat (te_len (P i)) = min ?b (?n - i * ?b)"
    if i: "i < ?N" for i
    unfolding P_def bw using partition_at_unat [OF b(2) b(1) assms(4) i] by simp_all
  have "(\<Sum>p\<leftarrow>map P [0..<?N]. unat (te_len p)) = (\<Sum>i<?N. min ?b (?n - i * ?b))"
    by (simp add: interv_sum_list_conv_sum_set_nat l atLeast0LessThan)
  then have s: "(\<Sum>p\<leftarrow>map P [0..<?N]. unat (te_len p)) = ?n" using sum_part_lens b(1) by simp
  define i where "i = 2 ^ 32 div ?b"
  have m: "i * ?b = 2 ^ 32" using assms(6) by (simp add: i_def)
  have i: "i < ?N" using m assms(3) b(1) by (simp add: nparts_less)
  have z: "0 < i" using m by (cases i) simp_all
  then have z': "0 < ?N" using i by simp
  have "unat (te_offset (P i)) = unat (te_offset (P 0))" by (simp only: o [OF i] o [OF z'] m) simp
  then have "te_offset (P i) = te_offset (P 0)" by (simp only: word_unat_eq_iff)
  then show ?thesis using r s i z z' by (intro exI [of _ "map P [0..<?N]"] exI [of _ i]) simp
qed

theorem partition_offsets_wrap_witness:
  "\<exists>ps i. PartitionTensor (initial_worker\<lparr>w_partition_bytes := 4194304\<rparr>) demo_context
      (demo_entry 5000000000) = Some (Inr ps) \<and> 0 < i \<and> te_offset (ps ! i) = te_offset (ps ! 0)"
proof -
  have "(4194304 :: nat) dvd 2 ^ 32" by (rule dvdI [of _ _ 1024]) simp
  then show ?thesis
    using partition_offsets_wrap [of "demo_entry 5000000000" "demo_tensor 5000000000"
        "initial_worker\<lparr>w_partition_bytes := 4194304\<rparr>" demo_context]
    by (auto simp: demo_entry_defs)
qed

text \<open>
  With a partition bound of zero, which \<open>BYTEPS_PARTITION_BYTES=0\<close> gives,
  initialising a tensor never returns: the loop over the keys makes no progress.
\<close>

theorem zero_bound_diverges:
  assumes "ctxs w name = Some c" and "\<not> initialized c" and "0 < sz"
    and "w_partition_bytes w = 0" and "w_is_trace w \<noteq> 1"
  shows "InitTensor os name sz dtype cpubuff w = None"
  using assms key_loop_zero [of 0 sz]
  by (simp add: InitTensor_def SetProfileFlag_def set_context_def)

theorem zero_bound_diverges_witness:
  "InitTensor demo_os ''t'' 100 0 None (initial_worker\<lparr>w_partition_bytes := 0,
     ctxs := [''t'' \<mapsto> new_context ''t'' 0]\<rparr>) = None"
  by (rule zero_bound_diverges [where c = "new_context ''t'' 0"])
    (simp_all add: initial_worker_def new_context_def word_gt_0)

subsection \<open>Properties of keys\<close>

lemma key_loop_start:
  assumes "0 < unat bound"
  shows "key_loop sz bound 0 k = Some (map (\<lambda>j. k + of_nat j) [0..<nparts (unat sz) (unat bound)])"
  using key_loop_eq [OF assms refl, of 0 sz k] by simp

lemma unat_key:
  assumes "unat d < 2 ^ 48" and "j < 2 ^ 16"
  shows "unat (push_bit 16 d + of_nat j :: u64) = unat d * 2 ^ 16 + j"
proof -
  have d: "unat d * 2 ^ 16 < 2 ^ 64 - 2 ^ 16 + 1" using assms(1) by simp
  have "push_bit 16 d = of_nat (unat d * 2 ^ 16)" by (simp add: push_bit_eq_mult mult.commute)
  then have p: "unat (push_bit 16 d :: u64) = unat d * 2 ^ 16"
    using assms(1) by (simp only:) (rule unat_of_nat_u64, simp)
  have j: "unat (of_nat j :: u64) = j" using assms(2) by (intro unat_of_nat_u64) simp
  show ?thesis using p j d assms(2) by (subst unat_u64_plus) simp_all
qed

lemma key_split:
  fixes a b i j :: nat
  assumes "a * 2 ^ 16 + i = b * 2 ^ 16 + j" and "i < 2 ^ 16" and "j < 2 ^ 16"
  shows "a = b"
  using assms by simp

lemma init_loop_ends: "\<exists>r. init_loop os data dtype sz bound keys acc i c w = Some r"
proof (induction "length keys - i" arbitrary: acc i c w)
  case 0
  then show ?case by (subst init_loop.simps) (simp add: vec_get_def)
next
  case (Suc n)
  then have "n = length keys - Suc i" by simp
  from Suc.hyps(1) [OF this] show ?case
    by (subst init_loop.simps) (auto split: sum.splits)
qed

lemma InitTensor_rest_ends: "\<exists>r. InitTensor_rest os name sz dtype cpubuff c w = Some r"
  unfolding InitTensor_rest_def Let_def by (auto simp: init_loop_ends split: sum.split)

lemma SetProfileFlag_bound: "SetProfileFlag name w = Inr w1 \<Longrightarrow> w_partition_bytes w1 = w_partition_bytes w"
  by (auto simp: SetProfileFlag_def Who2beOutput_def IsAllTensorOutput_def set_context_def emit_def
      res_simps Let_def split: option.splits if_splits)



text \<open>
  The keys of two tensors with different declared keys are disjoint, and the keys of one
  tensor are distinct, as long as no tensor has more than \<open>2 ^ 16\<close> partitions.
\<close>

theorem tensor_keys_disjoint:
  assumes "0 < unat bound" and "unat d1 < 2 ^ 48" and "unat d2 < 2 ^ 48" and "d1 \<noteq> d2"
    and "nparts (unat sz1) (unat bound) \<le> 2 ^ 16" and "nparts (unat sz2) (unat bound) \<le> 2 ^ 16"
  shows "\<exists>ks1 ks2. key_loop sz1 bound 0 (push_bit 16 d1) = Some ks1 \<and>
    key_loop sz2 bound 0 (push_bit 16 d2) = Some ks2 \<and>
    distinct ks1 \<and> set ks1 \<inter> set ks2 = {}"
proof -
  let ?k = "\<lambda>d n. map (\<lambda>j. push_bit 16 d + of_nat j :: u64) [0..<n]"
  let ?n1 = "nparts (unat sz1) (unat bound)" and ?n2 = "nparts (unat sz2) (unat bound)"
  have "inj_on (\<lambda>j. push_bit 16 d1 + of_nat j :: u64) {0..<?n1}"
  proof (rule inj_onI)
    fix i j assume "i \<in> {0..<?n1}" "j \<in> {0..<?n1}"
      and e: "push_bit 16 d1 + of_nat i = (push_bit 16 d1 + of_nat j :: u64)"
    then have i: "i < ?n1" "j < ?n1" by simp_all
    have "unat d1 * 2 ^ 16 + i = unat d1 * 2 ^ 16 + j"
      using unat_key [OF assms(2) less_le_trans [OF i(1) assms(5)]]
        unat_key [OF assms(2) less_le_trans [OF i(2) assms(5)]] e by (simp only:)
    then show "i = j" by simp
  qed
  then have d: "distinct (?k d1 ?n1)" by (simp add: distinct_map)
  have "set (?k d1 ?n1) \<inter> set (?k d2 ?n2) = {}"
  proof (rule ccontr)
    assume "\<not> ?thesis"
    then obtain i j where i: "i < ?n1" "j < ?n2"
      and e: "push_bit 16 d1 + of_nat i = (push_bit 16 d2 + of_nat j :: u64)" by auto
    have "unat d1 * 2 ^ 16 + i = unat d2 * 2 ^ 16 + j"
      using unat_key [OF assms(2) less_le_trans [OF i(1) assms(5)]]
        unat_key [OF assms(3) less_le_trans [OF i(2) assms(6)]] e by (simp only:)
    then have "unat d1 = unat d2"
      by (rule key_split) (rule less_le_trans [OF i(1) assms(5)], rule less_le_trans [OF i(2) assms(6)])
    then show False using assms(4) by (simp add: word_unat_eq_iff)
  qed
  then show ?thesis using d key_loop_start [OF assms(1)] by blast
qed

theorem tensor_keys_disjoint_witness:
  "\<exists>ks1 ks2. key_loop 10 4 0 (push_bit 16 1) = Some ks1 \<and> key_loop 5 4 0 (push_bit 16 2) = Some ks2 \<and>
     set ks1 \<inter> set ks2 = {}"
  using tensor_keys_disjoint [of 4 1 2 10 5] by (auto simp: nparts_def)

text \<open>
  The limit of \<open>2 ^ 16\<close> partitions is not checked: the last key of a tensor with
  more of them is the first key of the tensor declared next, and both are pushed to the same
  place.
\<close>

theorem tensor_keys_collide:
  assumes "0 < unat bound" and "2 ^ 16 < nparts (unat sz1) (unat bound)" and "0 < sz2"
  shows "\<exists>ks1 ks2. key_loop sz1 bound 0 (push_bit 16 d) = Some ks1 \<and>
    key_loop sz2 bound 0 (push_bit 16 (d + 1)) = Some ks2 \<and> set ks1 \<inter> set ks2 \<noteq> {}"
proof -
  have e: "push_bit 16 d + of_nat (2 ^ 16) = (push_bit 16 (d + 1) + of_nat 0 :: u64)"
    by (simp add: push_bit_eq_mult distrib_left algebra_simps)
  have "0 < nparts (unat sz2) (unat bound)"
    using assms(1,3) by (simp add: nparts_less word_less_nat_alt)
  then have "push_bit 16 d + of_nat (2 ^ 16) \<in>
      set (map (\<lambda>j. push_bit 16 (d + 1) + of_nat j) [0..<nparts (unat sz2) (unat bound)])"
    by (simp only: e set_map) (rule imageI, simp)
  moreover have "push_bit 16 d + of_nat (2 ^ 16) \<in>
      set (map (\<lambda>j. push_bit 16 d + of_nat j) [0..<nparts (unat sz1) (unat bound)])"
    unfolding set_map by (rule imageI) (use assms(2) in \<open>simp only: set_upt atLeastLessThan_iff zero_le\<close>)
  ultimately show ?thesis using key_loop_start [OF assms(1)] by blast
qed

theorem tensor_keys_collide_witness:
  "\<exists>ks1 ks2. key_loop 70000 1 0 (push_bit 16 5) = Some ks1 \<and> key_loop 1 1 0 (push_bit 16 6) = Some ks2 \<and>
     set ks1 \<inter> set ks2 \<noteq> {}"
  using tensor_keys_collide [of 1 70000 1 5] by (simp add: nparts_def word_gt_0)

subsection \<open>Enqueueing a tensor\<close>

lemma enqueue_parts_ok:
  assumes "length ts = length keys" and "\<forall>t \<in> set ts. te_name t \<noteq> []" and "w_queues w qt = Some q"
  shows "\<exists>q'. enqueue_parts qt keys ts acc w =
      Inr (acc + sum_list (map (\<lambda>t. ucast (te_len t)) ts), set_queue qt q' w) \<and>
    mset (sq q') = mset (sq q) + mset (map2 (\<lambda>k t. t\<lparr>te_key := k\<rparr>) keys ts)"
  using assms
proof (induction ts arbitrary: keys acc w q)
  case Nil
  then show ?case by (intro exI [of _ q]) (simp add: set_queue_def fun_upd_idem)
next
  case (Cons t ts)
  then obtain k ks where keys: "keys = k # ks" by (cases keys) auto
  have nm: "te_name t \<noteq> []" using Cons.prems(2) by simp
  then obtain q1 where q1: "addTask q (t\<lparr>te_key := k\<rparr>) = Inr q1"
    by (simp add: addTask_def Let_def)
  let ?w1 = "set_queue qt q1 w"
  have "w_queues ?w1 qt = Some q1" by (simp add: set_queue_def)
  with Cons.IH [of ks ?w1 q1 "acc + ucast (te_len t)"] Cons.prems(1,2) keys obtain q' where
    q': "enqueue_parts qt ks ts (acc + ucast (te_len t)) ?w1 =
      Inr (acc + ucast (te_len t) + sum_list (map (\<lambda>t. ucast (te_len t)) ts), set_queue qt q' ?w1)"
    "mset (sq q') = mset (sq q1) + mset (map2 (\<lambda>k t. t\<lparr>te_key := k\<rparr>) ks ts)" by auto
  have "set_queue qt q' ?w1 = set_queue qt q' w" by (simp add: set_queue_def)
  then show ?case
    using q' q1 nm Cons.prems(3) addTask_Inr [OF q1] keys
    by (intro exI [of _ q']) (simp add: GetScheduledQueue_def add.assoc)
qed

lemma sum_list_ucast_lens:
  "(\<Sum>t\<leftarrow>ts. (ucast (te_len t) :: u64)) = of_nat (\<Sum>t\<leftarrow>ts. unat (te_len t))"
  by (induction ts) (simp_all)

text \<open>
  The \<open>j\<close>-th partition of an entry: what it shares with the entry, its slice of the tensor and its
  compressor.
\<close>

definition slice_of :: "tte \<Rightarrow> nat option list \<Rightarrow> nat \<Rightarrow> nat \<Rightarrow> nat \<Rightarrow> tte \<Rightarrow> bool" where
  "slice_of e comps n b j p \<longleftrightarrow>
     unat (te_offset p) = j * b mod 2 ^ 32 \<and> unat (te_len p) = min b (n - j * b) \<and>
     te_compressor p = (if comps = [] then None else comps ! j) \<and>
     te_context p = te_context e \<and> te_tensor p = te_tensor e \<and> te_output p = te_output e \<and>
     te_cpubuff p = te_cpubuff e \<and> te_priority p = te_priority e \<and> te_version p = te_version e \<and>
     te_counter p = te_counter e \<and> te_callback p = te_callback e \<and>
     te_queue_list p = te_queue_list e \<and> te_total_partnum p = te_total_partnum e"

lemma slice_of_key [simp]: "slice_of e comps n b j (p\<lparr>te_key := k\<rparr>) = slice_of e comps n b j p"
  by (simp add: slice_of_def)

text \<open>The partitions of an entry: as many as it has keys, each its slice.\<close>

lemma partition_entry:
  assumes "te_counter e \<noteq> None" and "entry_tensor e = Inr t" and "tensor_size t < 2 ^ 64" and "0 < w_partition_bytes w"
    and "length (key_list c) = nparts (tensor_size t) (unat (w_partition_bytes w))"
    and "compressor_list c = [] \<or> length (key_list c) \<le> length (compressor_list c)"
  shows "\<exists>ts. PartitionTensor w c e = Some (Inr ts) \<and> length ts = length (key_list c) \<and>
    (\<forall>p \<in> set ts. te_name p \<noteq> []) \<and>
    (\<forall>j < length ts. slice_of e (compressor_list c) (tensor_size t) (unat (w_partition_bytes w)) j (ts ! j))"
proof -
  let ?n = "tensor_size t" and ?b = "unat (w_partition_bytes w)"
  define P where "P = partition_at e (compressor_list c) (of_nat ?n) (ucast (w_partition_bytes w))"
  define ts where "ts = map P [0..<nparts ?n ?b]"
  have b: "0 < ?b" "?b < 2 ^ 32" using assms(4) unat_u32_less by (simp_all add: word_less_nat_alt)
  have bw: "(ucast (w_partition_bytes w) :: u64) = of_nat ?b" by simp
  have "slice_of e (compressor_list c) ?n ?b i (P i)" if i: "i < nparts ?n ?b" for i
    unfolding slice_of_def P_def bw partition_at_unat [OF b(2) b(1) assms(3) i]
    by (simp add: partition_at_def make_partition_def)
  moreover have "PartitionTensor w c e = Some (Inr ts)"
    using PartitionTensor_eq [OF assms(1-3), of w _ c] assms(4-6) by (simp add: ts_def P_def)
  ultimately show ?thesis
    using assms(5) by (intro exI [of _ ts]) (auto simp: ts_def P_def partition_at_def make_partition_def)
qed

lemma slices_sum:
  assumes "0 < b" and "length ts = nparts n b" and "\<forall>j < length ts. slice_of e comps n b j (ts ! j)"
  shows "(\<Sum>p\<leftarrow>ts. unat (te_len p)) = n"
proof -
  have "(\<Sum>p\<leftarrow>ts. unat (te_len p)) = (\<Sum>i<nparts n b. min b (n - i * b))"
    using assms(2,3) by (simp add: sum_list_sum_nth slice_of_def atLeast0LessThan)
  then show ?thesis using sum_part_lens assms(1) by simp
qed

text \<open>Giving the partitions their keys changes nothing else of them.\<close>

lemma keyed_partitions:
  assumes "length ts = length keys" and "\<forall>j < length ts. slice_of e comps n b j (ts ! j)"
  shows "map te_key (map2 (\<lambda>k t. t\<lparr>te_key := k\<rparr>) keys ts) = keys"
    and "\<forall>j < length keys. slice_of e comps n b j (map2 (\<lambda>k t. t\<lparr>te_key := k\<rparr>) keys ts ! j)"
  using assms by (auto intro!: nth_equalityI)

text \<open>
  C2. Enqueueing a tensor with an initialised context succeeds and puts exactly its partitions
  into the queue of its first stage: one task for each key of the context, and the task of the
  \<open>j\<close>-th key transfers the \<open>j\<close>-th slice of the tensor, with the
  \<open>j\<close>-th compressor if the context has any. All of them have the input, the output,
  the priority and the version of the call and share the new counter (zero), the callback, the
  stage list and the partition count; their lengths add up to the tensor. The offset is kept in 32
  bits, so of a tensor beyond 4 GiB it is the position of the slice modulo \<open>2 ^ 32\<close>.
\<close>

theorem enqueue_all_partitions:
  assumes "\<not> w_should_shutdown w" and "ctxs w name = Some c" and "ctx_name c \<noteq> []"
    and "input = Some t" and "\<forall>t'. output = Some t' \<longrightarrow> tensor_size t' = tensor_size t"
    and "(if w_is_root_device w \<and> compressor_list c \<noteq> [] then insert_compression ql else Inr ql) = Inr ql1"
    and "ql1 \<noteq> []" and "w_queues w (hd ql1) = Some q"
    and "tensor_size t < 2 ^ 64" and "0 < w_partition_bytes w"
    and "length (key_list c) = nparts (tensor_size t) (unat (w_partition_bytes w))"
    and "compressor_list c = [] \<or> length (key_list c) \<le> length (compressor_list c)"
  shows "\<exists>w' q' ps. EnqueueTensor os now cid name input output ready dev prio ver cb ql w =
      Some (Inr (Status_OK, ql1, w')) \<and>
    w_queues w' (hd ql1) = Some q' \<and> mset (sq q') = mset (sq q) + mset ps \<and>
    map te_key ps = key_list c \<and> (\<Sum>p\<leftarrow>ps. unat (te_len p)) = tensor_size t \<and>
    (\<forall>j < length ps. te_key (ps ! j) = key_list c ! j \<and>
       unat (te_offset (ps ! j)) = j * unat (w_partition_bytes w) mod 2 ^ 32 \<and>
       unat (te_len (ps ! j)) = min (unat (w_partition_bytes w)) (tensor_size t - j * unat (w_partition_bytes w)) \<and>
       te_compressor (ps ! j) = (if compressor_list c = [] then None else compressor_list c ! j) \<and>
       te_tensor (ps ! j) = input \<and> te_output (ps ! j) = output \<and> te_priority (ps ! j) = prio \<and>
       te_version (ps ! j) = ver \<and> te_context (ps ! j) = name) \<and>
    (\<forall>p \<in> set ps. te_counter p = Some cid \<and> te_callback p = cb \<and> te_queue_list p = ql1 \<and>
       te_total_partnum p = of_nat (length ps)) \<and> w_counters w' cid = Some 0"
proof -
  obtain c1 w1 where pin: "pin_input os name c input dev w = Inr (c1, w1)"
    and c1: "key_list c1 = key_list c" "compressor_list c1 = compressor_list c" "ctx_name c1 = ctx_name c"
    and w1: "w_queues w1 = w_queues w" "w_partition_bytes w1 = w_partition_bytes w"
    using assms(4) by (cases "dev = CPU_DEVICE_ID")
      (auto simp: pin_input_def emit_def set_context_def Let_def)
  define e where "e = make_entry c1 name input output ready dev prio ver cb ql1 cid"
  define w2 where "w2 = w1\<lparr>w_counters := (w_counters w1)(cid \<mapsto> 0)\<rparr>"
  define w3 where "w3 = (if profile_flag c1
     then set_context name (c1\<lparr>comm_time := comm_time c1 @ [BPSCommTime\<lparr>start_t := now\<rparr>]\<rparr>) w2 else w2)"
  let ?slice = "slice_of e (compressor_list c) (tensor_size t) (unat (w_partition_bytes w))"
  have e: "te_counter e = Some cid" "entry_tensor e = Inr t" "te_callback e = cb" "te_queue_list e = ql1"
    "te_total_partnum e = of_nat (length (key_list c))" "te_tensor e = input" "te_output e = output"
    "te_priority e = prio" "te_version e = ver" "te_context e = name"
    using assms(4) c1 by (simp_all add: e_def make_entry_def entry_tensor_def)
  obtain ts where ts: "PartitionTensor w2 c1 e = Some (Inr ts)" "length ts = length (key_list c)"
    "\<forall>p \<in> set ts. te_name p \<noteq> []" "\<forall>j < length ts. ?slice j (ts ! j)"
    using partition_entry [of e t w2 c1] e assms(9-12) w1 c1 by (auto simp: w2_def)
  have tc: "\<forall>p \<in> set ts. te_name p \<noteq> []" using ts(3) .
  have b0: "0 < unat (w_partition_bytes w)" using assms(10) by (simp add: word_less_nat_alt)
  have s: "(\<Sum>p\<leftarrow>ts. unat (te_len p)) = tensor_size t"
    using slices_sum [OF b0 _ ts(4)] ts(2) assms(11) by simp
  have w3: "w_queues w3 (hd ql1) = Some q" "w_counters w3 cid = Some 0"
    using assms(8) w1 by (simp_all add: w3_def w2_def set_context_def)
  define ps where "ps = map2 (\<lambda>k t. t\<lparr>te_key := k\<rparr>) (key_list c) ts"
  obtain q' where q': "enqueue_parts (hd ql1) (key_list c) ts 0 w3 =
      Inr (of_nat (tensor_size t), set_queue (hd ql1) q' w3)" "mset (sq q') = mset (sq q) + mset ps"
    using enqueue_parts_ok [OF ts(2) tc w3(1), of 0] s by (auto simp: sum_list_ucast_lens ps_def)
  have sz: "\<not> (case (input, output) of (Some a, Some b) \<Rightarrow> tensor_size a \<noteq> tensor_size b | _ \<Rightarrow> False)"
    using assms(4,5) by (auto split: option.splits)
  have r: "EnqueueTensor os now cid name input output ready dev prio ver cb ql w =
      Some (Inr (Status_OK, ql1, set_queue (hd ql1) q' w3))"
    using assms(1,2,6,7) pin ts(1,2) q'(1) e(2) c1 sz
    by (simp add: EnqueueTensor_def e_def [symmetric] w2_def [symmetric] w3_def [symmetric] del: if_split)
  have l: "length ps = length (key_list c)" using ts(2) by (simp add: ps_def)
  note k = keyed_partitions [OF ts(2) ts(4), folded ps_def]
  have sl: "?slice j (ps ! j)" if "j < length ps" for j using k(2) that l by simp
  have "(\<Sum>p\<leftarrow>ps. unat (te_len p)) = tensor_size t"
    using slices_sum [OF b0 _ allI [OF impI [OF sl]]] l assms(11) by simp
  moreover have "te_key (ps ! j) = key_list c ! j" if "j < length ps" for j
    using k(1) nth_map [OF that, of te_key] by simp
  moreover have "\<forall>p \<in> set ps. te_counter p = Some cid \<and> te_callback p = cb \<and> te_queue_list p = ql1 \<and>
       te_total_partnum p = of_nat (length ps)"
    unfolding all_set_conv_all_nth using sl e l by (simp add: slice_of_def)
  ultimately show ?thesis
    using r q'(2) w3(2) k(1) sl e
    by (intro exI [of _ "set_queue (hd ql1) q' w3"] exI [of _ q'] exI [of _ ps]) (simp add: set_queue_def slice_of_def)
qed

definition demo_ready :: worker where
  "demo_ready = initial_worker\<lparr>w_queues := [REDUCE \<mapsto> demo_queue []],
     ctxs := [''t'' \<mapsto> demo_context\<lparr>key_list := [0, 1, 2]\<rparr>]\<rparr>"

theorem enqueue_all_partitions_witness:
  "\<exists>w' q'. EnqueueTensor demo_os 0 7 ''t'' (Some (demo_tensor 10000000)) None None 0 0 0 5 [REDUCE, BROADCAST]
      demo_ready = Some (Inr (Status_OK, [REDUCE, BROADCAST], w')) \<and>
    w_queues w' REDUCE = Some q' \<and> length (sq q') = 3"
proof -
  let ?c = "demo_context\<lparr>key_list := [0, 1, 2]\<rparr>" and ?t = "demo_tensor 10000000" and ?ql = "[REDUCE, BROADCAST]"
  have "\<exists>w' q' ps. EnqueueTensor demo_os 0 7 ''t'' (Some ?t) None None 0 0 0 5 ?ql demo_ready =
      Some (Inr (Status_OK, ?ql, w')) \<and>
    w_queues w' (hd ?ql) = Some q' \<and> mset (sq q') = mset (sq (demo_queue [])) + mset ps \<and>
    map te_key ps = key_list ?c \<and> (\<Sum>p\<leftarrow>ps. unat (te_len p)) = tensor_size ?t \<and>
    (\<forall>j < length ps. te_key (ps ! j) = key_list ?c ! j \<and>
       unat (te_offset (ps ! j)) = j * unat (w_partition_bytes demo_ready) mod 2 ^ 32 \<and>
       unat (te_len (ps ! j)) = min (unat (w_partition_bytes demo_ready)) (tensor_size ?t - j * unat (w_partition_bytes demo_ready)) \<and>
       te_compressor (ps ! j) = (if compressor_list ?c = [] then None else compressor_list ?c ! j) \<and>
       te_tensor (ps ! j) = Some ?t \<and> te_output (ps ! j) = None \<and> te_priority (ps ! j) = 0 \<and>
       te_version (ps ! j) = 0 \<and> te_context (ps ! j) = ''t'') \<and>
    (\<forall>p \<in> set ps. te_counter p = Some 7 \<and> te_callback p = 5 \<and> te_queue_list p = ?ql \<and>
       te_total_partnum p = of_nat (length ps)) \<and> w_counters w' 7 = Some 0"
    by (rule enqueue_all_partitions)
      (simp_all add: demo_ready_def demo_context_def demo_tensor_def initial_worker_def nparts_def)
  then obtain w' q' ps where
    r: "EnqueueTensor demo_os 0 7 ''t'' (Some ?t) None None 0 0 0 5 ?ql demo_ready = Some (Inr (Status_OK, ?ql, w'))"
    "w_queues w' (hd ?ql) = Some q'" and m: "mset (sq q') = mset (sq (demo_queue [])) + mset ps"
    and k: "map te_key ps = key_list ?c" by blast
  have "length ps = 3" using arg_cong [OF k, of length] by (simp add: demo_context_def)
  moreover have "length (sq q') = length ps" using arg_cong [OF m, of size] by (simp add: demo_queue_def)
  ultimately show ?thesis using r by simp
qed

subsection \<open>Initialising a tensor\<close>

text \<open>The keys fit into the servers' ranges and the encoder is in the state \<open>Init\<close> leaves.\<close>

definition keys_fit :: "worker_os \<Rightarrow> u64 list \<Rightarrow> hash_config \<Rightarrow> key_encoder \<Rightarrow> bool" where
  "keys_fit os keys cfg enc \<longleftrightarrow>
     hash_knob cfg \<in> {''naive'', ''built_in'', ''djb2'', ''sdbm''} \<and>
     os_krs os \<noteq> [] \<and> length (os_krs os) < 2 ^ 31 \<and>
     length (server_accumulated_len enc) = length (os_krs os) \<and>
     encoder_ok (os_krs os) enc \<and>
     (\<forall>k \<in> set keys. \<forall>kr \<in> set (os_krs os). fst kr + k < snd kr)"

lemma encode_key_ok:
  assumes "keys_fit os keys (w_hash w) (w_encoder w)" and "k \<in> set keys"
  shows "\<exists>kv enc. encode_key os k len w = Inr (kv, w\<lparr>w_encoder := enc\<rparr>) \<and>
    key_placed (os_krs os) k kv \<and> keys_fit os keys (w_hash w) enc"
proof -
  have ok: "encoder_ok (os_krs os) (w_encoder w)"
    and l: "length (server_accumulated_len (w_encoder w)) = length (os_krs os)"
    using assms(1) by (simp_all add: keys_fit_def)
  have "\<exists>kv enc. EncodeDefaultKey (os_builtin os) (os_rnd os) (w_hash w) (os_krs os) (w_encoder w) k len =
      Inr (kv, enc) \<and> length (server_accumulated_len enc) = length (os_krs os)"
  proof (cases "ps_kv (w_encoder w) k")
    case (Some kv)
    then have "kv_keys kv \<noteq> []" using ok by (fastforce simp: encoder_ok_def)
    then show ?thesis
      using EncodeDefaultKey_old [OF Some, of "os_builtin os" "os_rnd os" "w_hash w" "os_krs os" len] l by auto
  next
    case None
    have kr: "hash_knob (w_hash w) \<in> {''naive'', ''built_in'', ''djb2'', ''sdbm''}" "0 < length (os_krs os)"
      "length (os_krs os) < 2 ^ 31"
      using assms(1) by (auto simp: keys_fit_def)
    obtain s where s: "s < length (os_krs os)"
      and p: "pick_server (os_builtin os) (os_rnd os) (w_hash w) (int (length (os_krs os))) k = Inr (int s)"
      using pick_server_plain [OF kr] by blast
    have "\<forall>k \<in> set keys. \<forall>kr \<in> set (os_krs os). fst kr + k < snd kr"
      using assms(1) by (simp add: keys_fit_def)
    then have "fst (os_krs os ! s) + k < snd (os_krs os ! s)" using s assms(2) by simp
    then show ?thesis
      using s p l kr(2) None
      by (simp add: EncodeDefaultKey_def map_at_def empty_pskv_def place_key_def Let_def)
  qed
  then obtain kv enc where
    e: "EncodeDefaultKey (os_builtin os) (os_rnd os) (w_hash w) (os_krs os) (w_encoder w) k len = Inr (kv, enc)"
    and l': "length (server_accumulated_len enc) = length (os_krs os)" by blast
  from EncodeDefaultKey_step [OF e ok] l' assms(1) have "key_placed (os_krs os) k kv" "keys_fit os keys (w_hash w) enc"
    by (simp_all add: keys_fit_def)
  then show ?thesis using e by (intro exI [of _ kv] exI [of _ enc]) (simp add: encode_key_def)
qed

lemma GetOrInitPS_frame: "\<exists>ps. snd (GetOrInitPS w) = w\<lparr>w_ps := ps\<rparr>"
  by (intro exI [of _ "w_ps (snd (GetOrInitPS w))"]) (simp add: GetOrInitPS_def)

lemma init_partition_ok:
  assumes "w_is_distributed w" and "w_is_root_device w" and "ctx_kwargs c = []"
    and "keys_fit os keys (w_hash w) (w_encoder w)" and "k \<in> set keys"
  shows "\<exists>(kv :: pskv) enc ps. init_partition os data dtype k acc len c w = Inr (c,
      w\<lparr>w_ps := ps, w_encoder := enc, w_log := w_log w @ [ZPushWait (kv_keys kv) (data + unat acc) len (kv_lens kv)
        (GetCommandType kDefaultPushPull dtype)]\<rparr>) \<and>
    key_placed (os_krs os) k kv \<and> keys_fit os keys (w_hash w) enc"
proof -
  obtain ps where ps: "snd (GetOrInitPS w) = w\<lparr>w_ps := ps\<rparr>" using GetOrInitPS_frame by blast
  have "keys_fit os keys (w_hash (w\<lparr>w_ps := ps\<rparr>)) (w_encoder (w\<lparr>w_ps := ps\<rparr>))" using assms(4) by simp
  from encode_key_ok [OF this assms(5), of "of_int len"] obtain kv enc where
    "encode_key os k (of_int len) (w\<lparr>w_ps := ps\<rparr>) = Inr (kv, w\<lparr>w_ps := ps, w_encoder := enc\<rparr>)"
    "key_placed (os_krs os) k kv" "keys_fit os keys (w_hash w) enc" by auto
  then show ?thesis
    using assms(1-3) ps
    by (intro exI [of _ kv] exI [of _ enc] exI [of _ ps]) (simp add: init_partition_def emit_def)
qed

text \<open>The first pushes of the partitions \<open>i\<close>, \<open>i + 1\<close>, \<dots> of a buffer.\<close>

definition first_pushes :: "nat \<Rightarrow> int \<Rightarrow> nat \<Rightarrow> nat \<Rightarrow> nat list \<Rightarrow> pskv list \<Rightarrow> effect list" where
  "first_pushes data dtype n b is kvs = map2 (\<lambda>j kv. ZPushWait (kv_keys kv) (data + j * b)
     (int (min b (n - j * b))) (kv_lens kv) (GetCommandType kDefaultPushPull dtype)) is kvs"

lemma init_loop_ok:
  assumes "0 < unat bound" and "unat bound < 2 ^ 31" and "n = nparts (unat sz) (unat bound)"
    and "length keys = n" and "ctx_kwargs c = []" and "i \<le> n"
    and "w_is_distributed w" and "w_is_root_device w" and "keys_fit os keys (w_hash w) (w_encoder w)"
  shows "\<exists>kvs enc ps. length kvs = n - i \<and> (\<forall>j < n - i. key_placed (os_krs os) (keys ! (i + j)) (kvs ! j)) \<and>
    init_loop os data dtype sz bound keys (of_nat (min (i * unat bound) (unat sz))) i c w =
    Some (Inr (sz, n, c, w\<lparr>w_ps := ps, w_encoder := enc,
      w_log := w_log w @ first_pushes data dtype (unat sz) (unat bound) [i..<n] kvs\<rparr>))"
  using assms(6-9)
proof (induction "n - i" arbitrary: i w)
  case 0
  then have "i = n" by simp
  then have "\<not> i * unat bound < unat sz" using assms(1,3) nparts_less [of "unat bound" n "unat sz"] by simp
  then have "min (i * unat bound) (unat sz) = unat sz" by simp
  then show ?case
    using \<open>i = n\<close> by (intro exI [of _ "[]"] exI [of _ "w_encoder w"] exI [of _ "w_ps w"])
      (subst init_loop.simps, simp add: first_pushes_def)
next
  case (Suc d)
  then have i: "i < n" by simp
  let ?acc = "of_nat (i * unat bound) :: u64"
  note st = position_step [OF assms(1) i [unfolded assms(3)]]
  have lt: "i * unat bound < unat sz" using i assms(1,3) by (simp add: nparts_less)
  then have ua: "unat ?acc = i * unat bound" using unat_u64_less [of sz] by (intro unat_of_nat_u64) simp
  have pu: "unat (part_len sz bound ?acc) = min (unat bound) (unat sz - i * unat bound)"
    using ua lt by (subst part_len_unat) (simp_all del: of_nat_mult)
  then have pl: "to_int (part_len sz bound ?acc) = int (min (unat bound) (unat sz - i * unat bound))"
    using assms(2) by (subst to_int_small) simp_all
  have "of_nat (min (unat bound) (unat sz - i * unat bound)) = part_len sz bound ?acc"
    by (simp only: pu [symmetric]) simp
  then have nx: "?acc + of_nat (min (unat bound) (unat sz - i * unat bound)) =
      of_nat (min (Suc i * unat bound) (unat sz))"
    by (simp only: st(3))
  have k: "keys ! i \<in> set keys" using i assms(4) by simp
  obtain kv enc ps where kv: "init_partition os data dtype (keys ! i) ?acc (to_int (part_len sz bound ?acc)) c w =
      Inr (c, w\<lparr>w_ps := ps, w_encoder := enc, w_log := w_log w @ [ZPushWait (kv_keys kv)
        (data + unat ?acc) (to_int (part_len sz bound ?acc)) (kv_lens kv) (GetCommandType kDefaultPushPull dtype)]\<rparr>)"
    and placed: "key_placed (os_krs os) (keys ! i) kv" and fit: "keys_fit os keys (w_hash w) enc"
    using init_partition_ok [OF Suc.prems(2,3) assms(5) Suc.prems(4) k] by blast
  let ?w = "w\<lparr>w_ps := ps, w_encoder := enc, w_log := w_log w @ [ZPushWait (kv_keys kv)
        (data + i * unat bound) (int (min (unat bound) (unat sz - i * unat bound))) (kv_lens kv)
        (GetCommandType kDefaultPushPull dtype)]\<rparr>"
  have pre: "d = n - Suc i" "Suc i \<le> n" "w_is_distributed ?w" "w_is_root_device ?w"
    "keys_fit os keys (w_hash ?w) (w_encoder ?w)"
    using Suc.hyps(2) Suc.prems fit i by simp_all
  obtain kvs enc' ps' where r: "length kvs = n - Suc i"
    "\<forall>j < n - Suc i. key_placed (os_krs os) (keys ! (Suc i + j)) (kvs ! j)"
    "init_loop os data dtype sz bound keys (of_nat (min (Suc i * unat bound) (unat sz))) (Suc i) c ?w =
    Some (Inr (sz, n, c, ?w\<lparr>w_ps := ps', w_encoder := enc',
      w_log := w_log ?w @ first_pushes data dtype (unat sz) (unat bound) [Suc i..<n] kvs\<rparr>))"
    using Suc.hyps(1) [OF pre] by blast
  have "\<forall>j < n - i. key_placed (os_krs os) (keys ! (i + j)) ((kv # kvs) ! j)"
  proof (intro allI impI)
    fix j assume "j < n - i"
    then show "key_placed (os_krs os) (keys ! (i + j)) ((kv # kvs) ! j)"
      using placed r(2) by (cases j) auto
  qed
  moreover have "init_loop os data dtype sz bound keys (of_nat (min (i * unat bound) (unat sz))) i c w =
    Some (Inr (sz, n, c, w\<lparr>w_ps := ps', w_encoder := enc',
      w_log := w_log w @ first_pushes data dtype (unat sz) (unat bound) [i..<n] (kv # kvs)\<rparr>))"
    using i st(2) assms(4) kv r(3)
    by (subst init_loop.simps)
      (simp add: st(1) nx pl ua upt_conv_Cons first_pushes_def del: of_nat_mult mult_Suc)
  ultimately show ?case using r(1) i by (intro exI [of _ "kv # kvs"]) auto
qed

lemma nparts_word:
  fixes sz bound :: u64
  assumes "0 < unat bound" and "unat sz + unat bound < 2 ^ 64"
  shows "(sz + bound - 1) div bound = of_nat (nparts (unat sz) (unat bound))"
proof -
  have p: "unat (sz + bound) = unat sz + unat bound" using assms(2) by (rule unat_u64_plus)
  then have "unat (sz + bound - 1) = unat sz + unat bound - 1"
    using assms(1) by (subst unat_sub) (simp_all add: word_le_nat_alt)
  then have "unat ((sz + bound - 1) div bound) = nparts (unat sz) (unat bound)"
    by (simp add: unat_div nparts_def)
  then show ?thesis by (metis word_unat_eq_iff unat_of_nat_u64 unat_u64_less)
qed

lemma RoundUpToPageSize_ok:
  "0 < w_pagesize w \<Longrightarrow> w_pagesize w < 2 ^ 63 \<Longrightarrow> \<exists>r. RoundUpToPageSize w x = Inr r"
proof -
  assume p: "0 < w_pagesize w" "w_pagesize w < 2 ^ 63"
  have "(of_int (w_pagesize w) :: u64) \<noteq> 0"
  proof
    assume "(of_int (w_pagesize w) :: u64) = 0"
    then have "uint (of_int (w_pagesize w) :: u64) = 0" by simp
    then show False using p by (simp add: unsigned_of_int take_bit_int_eq_self)
  qed
  then show ?thesis by (simp add: RoundUpToPageSize_def RoundUp_def DivUp_def)
qed

text \<open>The first loop gives the tensor its keys.\<close>

lemma InitTensor_start:
  assumes "ctxs w name = Some c" and "\<not> initialized c" and "key_list c = []" and "w_is_trace w \<noteq> 1"
    and "0 < sz" and "0 < w_partition_bytes w"
    and "keys = map (\<lambda>j. push_bit 16 (declared_key c) + of_nat j)
      [0..<nparts (unat sz) (unat (w_partition_bytes w))]"
  shows "InitTensor os name sz dtype None w = InitTensor_rest os name sz dtype None
    (c\<lparr>buff_len := unat sz, profile_flag := False, ctx_local_rank := w_local_rank w, key_list := keys\<rparr>)
    (set_context name (c\<lparr>buff_len := unat sz, profile_flag := False\<rparr>) (set_context name (c\<lparr>buff_len := unat sz\<rparr>) w))"
proof -
  let ?b = "ucast (w_partition_bytes w) :: u64"
  have "0 < unat ?b" using assms(6) by (simp add: word_less_nat_alt)
  then have "key_loop sz ?b 0 (push_bit 16 (declared_key c)) = Some keys"
    using key_loop_start [of ?b sz] assms(7) by simp
  then show ?thesis
    using assms(1-5) by (simp add: InitTensor_def SetProfileFlag_def set_context_def)
qed


definition demo_fresh :: worker where
  "demo_fresh = initial_worker\<lparr>ctxs := [''t'' \<mapsto> new_context ''t'' 1], w_is_distributed := True,
     w_is_root_device := True, w_pagesize := 4096, w_encoder := demo_encoder, w_hash := demo_hash\<rparr>"


subsection \<open>The stages of compression\<close>

lemma position_append:
  "x \<notin> set as \<Longrightarrow> position x (as @ x # bs) = length as"
  by (induction as) auto

text \<open>
  When \<open>PUSH\<close> comes before \<open>PULL\<close> in a stage list without
  repetitions, the insertion is defined and puts \<open>COMPRESS\<close> directly before
  \<open>PUSH\<close> and \<open>DECOMPRESS\<close> directly behind \<open>PULL\<close>.
\<close>

theorem compression_stages_inserted:
  assumes "distinct (xs @ PUSH # ys @ PULL # zs)"
  shows "insert_compression (xs @ PUSH # ys @ PULL # zs) =
    Inr (xs @ COMPRESS # PUSH # ys @ PULL # DECOMPRESS # zs)"
proof -
  have i: "position PUSH (xs @ PUSH # ys @ PULL # zs) = length xs"
    using assms by (intro position_append) simp
  have "PULL \<notin> set (xs @ COMPRESS # PUSH # ys)" using assms by auto
  from position_append [OF this, of zs]
  have j: "position PULL (xs @ COMPRESS # PUSH # ys @ PULL # zs) = length xs + 2 + length ys" by simp
  let ?as = "xs @ COMPRESS # PUSH # ys @ [PULL]"
  have l: "xs @ COMPRESS # PUSH # ys @ PULL # zs = ?as @ zs" by simp
  have n: "length xs + 2 + length ys + 1 = length ?as" by simp
  have "take (length xs + 2 + length ys + 1) (xs @ COMPRESS # PUSH # ys @ PULL # zs) = ?as"
    "drop (length xs + 2 + length ys + 1) (xs @ COMPRESS # PUSH # ys @ PULL # zs) = zs"
    unfolding l n by (rule append_eq_conv_conj [THEN iffD1, THEN conjunct1, OF refl, symmetric],
      rule append_eq_conv_conj [THEN iffD1, THEN conjunct2, OF refl, symmetric])
  then show ?thesis by (simp add: insert_compression_def i j Let_def)
qed

theorem compression_stages_inserted_witness:
  "insert_compression [REDUCE, COPYD2H, PUSH, PULL, COPYH2D, BROADCAST] =
     Inr [REDUCE, COPYD2H, COMPRESS, PUSH, PULL, DECOMPRESS, COPYH2D, BROADCAST]"
  using compression_stages_inserted [of "[REDUCE, COPYD2H]" "[]" "[COPYH2D, BROADCAST]"] by simp

end
