(* ===== verification/Core_Loops.thy ===== *)
theory Core_Loops
  imports Operations
begin

section \<open>The background loops of a worker\<close>

text \<open>
  Models \<open>deep_inc/common/core_loops.cc\<close>: what one turn of each background loop does to the state
  of the process, how a task finishes a stage, and the loops themselves. What leaves the process
  (signals, NCCL and CUDA calls, requests to the servers) is appended to the log; the completion
  of a request and the jobs of the thread pool are closures that run later. Addresses are integers,
  and lengths of slices exact naturals: they stay below the length of a partition.
\<close>

subsection \<open>What a turn uses of the system\<close>

text \<open>
  Whether a task's event has fired, the clock, the parameters of the key encoding, the answers of
  a compressor (for its number, the address, the length and the type) and the value lengths the
  parameter-server library leaves behind a pull.
\<close>

record loop_env =
  le_ready :: "tte \<Rightarrow> bool"
  le_now :: int
  le_os :: worker_os
  le_compress :: "nat \<Rightarrow> int \<Rightarrow> int \<Rightarrow> int \<Rightarrow> compressed_tensor"
  le_pull_lens :: "u64 list \<Rightarrow> int list \<Rightarrow> int list"

definition address :: "nat option \<Rightarrow> int" where
  "address p = (case p of None \<Rightarrow> 0 | Some a \<Rightarrow> int a)"

definition emit_all :: "effect list \<Rightarrow> worker \<Rightarrow> worker" where
  "emit_all es w = w\<lparr>w_log := w_log w @ es\<rparr>"

definition the_tensor :: "tensor option \<Rightarrow> tensor res" where
  "the_tensor t = (case t of None \<Rightarrow> Inl (Undefined ''null tensor'') | Some x \<Rightarrow> Inr x)"

definition take_task :: "loop_env \<Rightarrow> queue_type \<Rightarrow> worker \<Rightarrow> (tte option \<times> worker) res" where
  "take_task le qt w =
     rbind (GetScheduledQueue w qt) (\<lambda>q.
     rbind (getTask (le_ready le) (le_now le) q w) (\<lambda>(ot, q', w'). Inr (ot, set_queue qt q' w')))"

definition take_task_key :: "loop_env \<Rightarrow> queue_type \<Rightarrow> u64 \<Rightarrow> worker \<Rightarrow> (tte option \<times> worker) res" where
  "take_task_key le qt k w =
     rbind (GetScheduledQueue w qt) (\<lambda>q.
     rbind (getTask_key (le_ready le) (le_now le) k q w) (\<lambda>(ot, q', w'). Inr (ot, set_queue qt q' w')))"

text \<open>A signal as it arrives: the calls return once it is sent (\<open>sendSignal\<close> retries until then).\<close>

definition signal_root :: "comm \<Rightarrow> comm_msg \<Rightarrow> worker \<Rightarrow> worker" where
  "signal_root c m w = emit (Signal (socket_addr (recv_path c) (comm_root c)) m) w"

definition signal_all :: "comm \<Rightarrow> comm_msg \<Rightarrow> worker \<Rightarrow> worker" where
  "signal_all c m w =
     emit_all (map (\<lambda>i. Signal (socket_addr (recv_path c) i) m)
       (filter (\<lambda>i. i \<noteq> comm_local_rank c) (comm_members c))) w"

subsection \<open>Finishing a stage\<close>

text \<open>The sampled tensor must be of floats; its values are only printed.\<close>

definition check_sample :: "tte \<Rightarrow> worker \<Rightarrow> worker res" where
  "check_sample t w =
     (if te_key t \<noteq> w_sample_key w then Inr w
      else rbind (the_tensor (te_tensor t)) (\<lambda>x.
        check (tensor_dtype x = BYTEPS_FLOAT32) (CheckFailed ''dtype'')
          (rbind (the_tensor (te_output t)) (\<lambda>_. Inr w))))"

text \<open>The duration of the stage, stored into the last record of this key and stage.\<close>

definition set_last_dur :: "int \<Rightarrow> comm_time_rec list \<Rightarrow> comm_time_rec list res" where
  "set_last_dur now rs =
     check (rs \<noteq> []) (Undefined ''back() of an empty vector'')
       (check (dur (last rs) = 0) (CheckFailed ''dur has already been assigned'')
         (Inr (butlast rs @ [(last rs)\<lparr>dur := now - start_t (last rs)\<rparr>])))"

definition record_stage :: "int \<Rightarrow> tte \<Rightarrow> queue_type \<Rightarrow> worker \<Rightarrow> worker res" where
  "record_stage now t op w =
     (case ctxs w (te_context t) of
        None \<Rightarrow> Inl (Undefined ''null context'')
      | Some c \<Rightarrow>
          if \<not> profile_flag c then Inr w
          else let per_op = map_at Map.empty (part_comm_time c) (te_key t)
               in rbind (set_last_dur now (map_at [] per_op op)) (\<lambda>rs.
                    Inr (set_context (te_context t)
                      (c\<lparr>part_comm_time := (part_comm_time c)(te_key t \<mapsto> per_op(op \<mapsto> rs))\<rparr>) w)))"

text \<open>
  What the last partition does: speed, callback, the duration of the whole tensor, the step count,
  the profiling flag.
\<close>

definition record_whole :: "int \<Rightarrow> string \<Rightarrow> worker \<Rightarrow> worker res" where
  "record_whole now name w =
     (case ctxs w name of
        None \<Rightarrow> Inl (Undefined ''null context'')
      | Some c \<Rightarrow>
          if \<not> profile_flag c then Inr w
          else rbind (set_last_dur now (comm_time c)) (\<lambda>rs.
                 Inr (set_context name (c\<lparr>comm_time := rs\<rparr>) w)))"

definition count_step :: "string \<Rightarrow> worker \<Rightarrow> worker res" where
  "count_step name w =
     (case ctxs w name of
        None \<Rightarrow> Inl (Undefined ''null context'')
      | Some c \<Rightarrow> rbind (i32 (step_cnt c + 1)) (\<lambda>n. Inr (set_context name (c\<lparr>step_cnt := n\<rparr>) w)))"

definition finish_tensor :: "int \<Rightarrow> tte \<Rightarrow> worker \<Rightarrow> worker res" where
  "finish_tensor now t w =
     check (te_name t \<noteq> []) (CheckFailed ''tensor_name'')
    (rbind (if sp_should_record (w_speed w)
            then rbind (the_tensor (te_tensor t)) (\<lambda>x.
                   Inr (w\<lparr>w_speed := RecordSpeed now (tensor_size x) (w_speed w)\<rparr>))
            else Inr w) (\<lambda>w1.
     rbind (record_whole now (te_context t) (emit (Callback (te_callback t) Status_OK) w1)) (\<lambda>w2.
     rbind (count_step (te_context t) w2) (\<lambda>w3.
       SetProfileFlag (te_context t) w3))))"

text \<open>The counter of the finished partitions: \<open>fetch_add\<close> and the comparison of two \<open>int\<close>s.\<close>

definition finish_partition :: "int \<Rightarrow> tte \<Rightarrow> worker \<Rightarrow> worker res" where
  "finish_partition now t w =
     (case te_counter t of
        None \<Rightarrow> Inl (CheckFailed ''counter_ptr is null'')
      | Some cid \<Rightarrow>
          (case w_counters w cid of
             None \<Rightarrow> Inl (Undefined ''dangling counter'')
           | Some v \<Rightarrow>
               let w1 = w\<lparr>w_counters := (w_counters w)(cid \<mapsto> v + 1)\<rparr>
               in if v = sint (te_total_partnum t - 1) then finish_tensor now t w1 else Inr w1))"

definition FinishOrProceed :: "int \<Rightarrow> tte \<Rightarrow> worker \<Rightarrow> worker res" where
  "FinishOrProceed now t w =
     (case te_queue_list t of
        [] \<Rightarrow> Inl (CheckFailed ''queue_list'')
      | op # rest \<Rightarrow>
          rbind (GetScheduledQueue w op) (\<lambda>q.
          rbind (check_sample t (set_queue op (reportFinish q (te_len t)) w)) (\<lambda>w1.
          rbind (record_stage now t op w1) (\<lambda>w2.
            let t' = t\<lparr>te_queue_list := rest\<rparr>
            in case rest of
                 [] \<Rightarrow> finish_partition now t' w2
               | nxt # _ \<Rightarrow>
                   check (te_name t \<noteq> []) (CheckFailed ''tensor_name'')
                     (rbind (GetScheduledQueue w2 nxt) (\<lambda>qn.
                      rbind (addTask qn t') (\<lambda>qn'. Inr (set_queue nxt qn' w2))))))))"

subsection \<open>Coordination\<close>

definition coordinate_signal :: "queue_type \<Rightarrow> worker \<Rightarrow> nccl_manager res \<Rightarrow> (comm_signal \<times> comm) res" where
  "coordinate_signal op w nm =
     (case op of
        COORDINATE_REDUCE \<Rightarrow> rbind nm (\<lambda>m. Inr (REDUCE_READY, nm_signal m))
      | COORDINATE_BROADCAST \<Rightarrow> rbind nm (\<lambda>m. Inr (BCAST_READY, nm_signal m))
      | COORDINATE_PUSH \<Rightarrow>
          (case w_basic_comm w of
             None \<Rightarrow> Inl (Undefined ''null communicator'') | Some c \<Rightarrow> Inr (PUSH_READY, c))
      | _ \<Rightarrow> Inl (CheckFailed ''unsupported op''))"

definition RunCoordinateLoopOnce :: "loop_env \<Rightarrow> queue_type \<Rightarrow> worker \<Rightarrow> worker res" where
  "RunCoordinateLoopOnce le op w =
     rbind (take_task le op w) (\<lambda>(ot, w1).
       case ot of
         None \<Rightarrow> Inr w1
       | Some t \<Rightarrow>
           rbind (FinishOrProceed (le_now le) t w1) (\<lambda>w2.
           rbind (coordinate_signal op w2 (get_nccl w2)) (\<lambda>(sig, c).
             check (w_local_rank w2 \<noteq> comm_root c) (CheckFailed ''only non-root device'')
               (let w3 = signal_root c \<lparr>msg_src = w_local_rank w2, msg_signal = sig, msg_key = te_key t\<rparr> w2
                in check (te_name t \<noteq> []) (CheckFailed ''tensor_name'') (Inr w3)))))"

subsection \<open>The slices of the GPUs of a switch\<close>

text \<open>
  The length of an element, the elements of each GPU and those left over. The divisors are
  positive in every call; a zero one is undefined in C++.
\<close>

definition unit_length :: "tensor \<Rightarrow> nat res" where
  "unit_length x =
     rbind (num_elements (tensor_shp x)) (\<lambda>n.
       check (0 < n) (Undefined ''division by zero'') (Inr (tensor_size x div nat n)))"

definition split_elems :: "int \<Rightarrow> nat \<Rightarrow> nat \<Rightarrow> (nat \<times> nat) res" where
  "split_elems nccl_size unit len =
     check (0 < nccl_size) (Undefined ''division by zero'')
    (check (0 < unit) (Undefined ''division by zero'')
      (let num = len div nat nccl_size div unit
       in Inr (num, len div unit - num * nat nccl_size)))"

text \<open>The offset and the length one GPU copies; the root takes what is left over.\<close>

definition copy_slice :: "int \<Rightarrow> int \<Rightarrow> nat \<Rightarrow> nat \<Rightarrow> nat \<Rightarrow> nat \<times> nat" where
  "copy_slice groot rank unit num left =
     (nat rank * num * unit,
      num * unit + (if left \<noteq> 0 \<and> groot = rank then left * unit else 0))"

definition copy_range :: "worker \<Rightarrow> nccl_manager \<Rightarrow> queue_type \<Rightarrow> u64 \<Rightarrow> tensor \<Rightarrow> nat \<Rightarrow> (nat \<times> nat) res" where
  "copy_range w nm op key x len =
     (let groot = GetRoot nm key op; rank = GetRank nm (w_local_rank w) key op
      in rbind (unit_length x) (\<lambda>unit.
         rbind (split_elems (nm_size nm) unit len) (\<lambda>(num, left).
           if w_using_reduce w
           then rbind (GetReduceRootByKey w key) (\<lambda>r. Inr (0, if r = rank then len else 0))
           else Inr (copy_slice groot rank unit num left))))"

subsection \<open>NCCL\<close>

text \<open>The pointer a call starts from: the tensor's data, or the device address of a CPU tensor.\<close>

definition data_pointer :: "tte \<Rightarrow> tensor \<Rightarrow> int" where
  "data_pointer t x =
     (if te_device t = CPU_DEVICE_ID then address (te_gpu_ptr t) else int (tensor_data x)) +
     int (unat (te_offset t))"

text \<open>
  The NCCL calls of one task, given the communicator and the stream \<open>cs\<close>, the pointers \<open>p\<close> and
  \<open>out_p\<close> and the split of its elements. A part of zero elements is skipped.
\<close>

definition reduce_calls :: "nat \<times> nat \<Rightarrow> int \<Rightarrow> int \<Rightarrow> nccl_data_type \<Rightarrow> int \<Rightarrow> int \<Rightarrow> nat \<Rightarrow> nat \<Rightarrow> nat \<Rightarrow> nat \<Rightarrow>
    effect list" where
  "reduce_calls cs p out_p dt groot rank len unit num left =
     (if num \<noteq> 0
      then [NcclReduceScatter p (out_p + rank * int (num * unit)) (int num) dt (fst cs) (snd cs)] else []) @
     (if left \<noteq> 0
      then [NcclReduce (p + int len - int (left * unit)) (out_p + int len - int (left * unit)) (int left)
              dt groot (fst cs) (snd cs)] else [])"

definition broadcast_calls :: "nat \<times> nat \<Rightarrow> int \<Rightarrow> nccl_data_type \<Rightarrow> int \<Rightarrow> int \<Rightarrow> nat \<Rightarrow> nat \<Rightarrow> nat \<Rightarrow> nat \<Rightarrow>
    effect list" where
  "broadcast_calls cs p dt groot rank len unit num left =
     (if num \<noteq> 0
      then [NcclAllGather (p + rank * int (num * unit)) p (int num) dt (fst cs) (snd cs)] else []) @
     (if left \<noteq> 0
      then [NcclBroadcast (p + int len - int (left * unit)) (p + int len - int (left * unit)) (int left)
              dt groot (fst cs) (snd cs)] else [])"

text \<open>The root and the split of the elements, which the \<open>REDUCE\<close> strategy replaces.\<close>

definition nccl_split :: "worker \<Rightarrow> nccl_manager \<Rightarrow> queue_type \<Rightarrow> u64 \<Rightarrow> nat \<Rightarrow> nat \<Rightarrow> (int \<times> nat \<times> nat) res" where
  "nccl_split w nm op key unit len =
     rbind (split_elems (nm_size nm) unit len) (\<lambda>(num, left).
       if w_using_reduce w then rbind (GetReduceRootByKey w key) (\<lambda>r. Inr (r, 0, len div unit))
       else Inr (GetRoot nm key op, num, left))"

definition post_calls :: "tte \<Rightarrow> queue_type \<Rightarrow> tensor \<Rightarrow> int \<Rightarrow> nat \<times> nat \<Rightarrow> nat \<Rightarrow> int \<times> nat \<times> nat \<Rightarrow> worker \<Rightarrow>
    worker res" where
  "post_calls t op x rank cs unit = (\<lambda>(groot, num, left) w.
     let p = data_pointer t x; dt = getNcclDataType (tensor_dtype x); len = unat (te_len t)
     in if op = REDUCE
        then rbind (the_tensor (te_output t)) (\<lambda>y.
               let out_p = (if te_device t = CPU_DEVICE_ID \<and>
                               map_option tensor_id (te_tensor t) = map_option tensor_id (te_output t) then p
                            else int (tensor_data y) + int (unat (te_offset t)))
               in Inr (emit_all (reduce_calls cs p out_p dt groot rank len unit num left) w))
        else Inr (emit_all (broadcast_calls cs p dt groot rank len unit num left) w))"

definition PostNcclCalls :: "tte \<Rightarrow> queue_type \<Rightarrow> worker \<Rightarrow> worker res" where
  "PostNcclCalls t op w =
     check (op = REDUCE \<or> op = BROADCAST) (CheckFailed ''Only REDUCE and BROADCAST use NCCL.'')
       (case (if op = REDUCE then te_tensor t else te_output t) of
          None \<Rightarrow> Inl (CheckFailed ''tensor'')
        | Some x \<Rightarrow>
            rbind (num_elements (tensor_shp x)) (\<lambda>n.
              check (0 < n) (Undefined ''division by zero'')
             (check (tensor_size x mod nat n = 0) (CheckFailed ''size'')
               (rbind (unit_length x) (\<lambda>unit.
                rbind (get_nccl w) (\<lambda>nm.
                rbind (GetStream nm (te_key t) op) (\<lambda>st.
                rbind (GetComm nm (te_key t) op) (\<lambda>c.
                rbind (nccl_split w nm op (te_key t) unit (unat (te_len t))) (\<lambda>spl.
                  check (te_name t \<noteq> []) (CheckFailed ''tensor_name'')
                    (post_calls t op x (GetRank nm (w_local_rank w) (te_key t) op) (c, st) unit spl w))))))))))"

text \<open>
  The root's turn: up to a group of reductions, then up to a group of broadcasts. Without peers on
  the switch (\<open>nccl_size\<close> is 1) nothing is called.
\<close>

definition post_as_root :: "nccl_manager \<Rightarrow> tte \<Rightarrow> queue_type \<Rightarrow> worker \<Rightarrow> worker res" where
  "post_as_root nm t op w =
     (if 1 < nm_size nm
      then PostNcclCalls t op (signal_all (nm_signal nm) \<lparr>msg_src = w_local_rank w,
             msg_signal = (if op = REDUCE then DO_REDUCE else DO_BROADCAST), msg_key = te_key t\<rparr> w)
      else Inr w)"

fun root_group :: "loop_env \<Rightarrow> nccl_manager \<Rightarrow> queue_type \<Rightarrow> nat \<Rightarrow> nccl_group \<Rightarrow> worker \<Rightarrow>
    (nccl_group \<times> worker) res" where
  "root_group le nm op 0 g w = Inr (g, w)"
| "root_group le nm op (Suc n) g w =
     rbind (take_task le op w) (\<lambda>(ot, w1).
       case ot of
         None \<Rightarrow> Inr (g, w1)
       | Some t \<Rightarrow>
           rbind (post_as_root nm t op w1) (\<lambda>w2.
             root_group le nm op n (g\<lparr>g_tasks := g_tasks g @ [t], g_queues := g_queues g @ [op]\<rparr>) w2))"

text \<open>Recording the events of a group and handing it to the thread that waits for them.\<close>

definition close_group :: "nccl_group \<Rightarrow> worker \<Rightarrow> worker res" where
  "close_group g w =
     rbind (get_nccl w) (\<lambda>nm.
     rbind (RecordEvents (GetStream nm) g) (\<lambda>g'.
       Inr ((emit_all (map EventRecord (g_events g')) w)\<lparr>w_nccl := Some (EnqueueGroup nm g')\<rparr>)))"

text \<open>\<open>GetGroupSize\<close> turns the \<open>size_t\<close> into an \<open>int\<close>.\<close>

definition GetGroupSize :: "nccl_manager \<Rightarrow> int" where
  "GetGroupSize nm = sint (of_nat (nm_group_size nm) :: u32)"

definition RunRootNcclLoopOnce :: "loop_env \<Rightarrow> worker \<Rightarrow> worker res" where
  "RunRootNcclLoopOnce le w =
     rbind (get_nccl w) (\<lambda>nm.
     check (w_local_rank w = comm_root (nm_signal nm)) (CheckFailed ''rank'')
    (rbind (root_group le nm REDUCE (nat (GetGroupSize nm)) new_group (emit NcclGroupStart w)) (\<lambda>(g1, w1).
     rbind (root_group le nm BROADCAST (nat (GetGroupSize nm)) g1 w1) (\<lambda>(g2, w2).
       if g_tasks g2 \<noteq> []
       then close_group g2 (emit NcclGroupEnd (signal_all (nm_signal nm)
              \<lparr>msg_src = w_local_rank w, msg_signal = DO_GROUP, msg_key = 0\<rparr> w2))
       else Inr (emit NcclGroupEnd w2)))))"

text \<open>
  The turn of the other devices: they follow the root's signals until the end of the group. For
  each receive the argument has the outcomes of its \<open>recv\<close> calls; the result's flag says whether
  the group was finished (it is not when the process shuts down or no further signal arrives).
\<close>

fun follow_group :: "loop_env \<Rightarrow> nccl_manager \<Rightarrow> (recv_outcome \<times> bool) list list \<Rightarrow> nccl_group \<Rightarrow> worker \<Rightarrow>
    (bool \<times> nccl_group \<times> worker) res" where
  "follow_group le nm [] g w = Inr (False, g, w)"
| "follow_group le nm (es # ess) g w =
     rbind (recvSignalFromRoot (nm_signal nm) es 16) (\<lambda>r.
       case r of
         Some (rc, Some m) \<Rightarrow>
           (if msg_signal m = DO_GROUP then Inr (True, g, w)
            else check (msg_signal m = DO_BROADCAST \<or> msg_signal m = DO_REDUCE) (CheckFailed ''signal'')
              (let op = (if msg_signal m = DO_BROADCAST then BROADCAST else REDUCE)
               in rbind (take_task_key le op (msg_key m) w) (\<lambda>(ot, w1).
                    case ot of
                      None \<Rightarrow> Inl (CheckFailed ''task'')
                    | Some t \<Rightarrow>
                        rbind (PostNcclCalls t op w1) (\<lambda>w2.
                          follow_group le nm ess
                            (g\<lparr>g_tasks := g_tasks g @ [t], g_queues := g_queues g @ [op]\<rparr>) w2))))
       | _ \<Rightarrow> Inr (False, g, w))"

definition RunNonRootNcclLoopOnce :: "loop_env \<Rightarrow> (recv_outcome \<times> bool) list list \<Rightarrow> worker \<Rightarrow>
    (bool \<times> worker) res" where
  "RunNonRootNcclLoopOnce le ess w =
     rbind (get_nccl w) (\<lambda>nm.
     check (w_local_rank w \<noteq> comm_root (nm_signal nm)) (CheckFailed ''rank'')
    (rbind (follow_group le nm ess new_group (emit NcclGroupStart w)) (\<lambda>(fin, g, w1).
       if fin then rbind (close_group g (emit NcclGroupEnd w1)) (\<lambda>w2. Inr (True, w2))
       else Inr (False, w1))))"

fun finish_all :: "int \<Rightarrow> tte list \<Rightarrow> worker \<Rightarrow> worker res" where
  "finish_all now [] w = Inr w"
| "finish_all now (t # ts) w = rbind (FinishOrProceed now t w) (finish_all now ts)"

definition RunSyncNcclOnce :: "loop_env \<Rightarrow> worker \<Rightarrow> worker res" where
  "RunSyncNcclOnce le w =
     rbind (get_nccl w) (\<lambda>nm.
       case DequeueGroup nm of
         (None, nm') \<Rightarrow> Inr w
       | (Some g, nm') \<Rightarrow>
           rbind (SynchronizeEvents g) (\<lambda>es.
           rbind (finish_all (le_now le) (g_tasks g)
                    (emit_all (map EventSynchronize es) (w\<lparr>w_nccl := Some nm'\<rparr>))) (\<lambda>w1.
           rbind (DestroyEvents g) (\<lambda>ds. Inr (emit_all (map EventDestroy ds) w1)))))"

subsection \<open>Copies between the device and the host\<close>

text \<open>
  The turn of a loop over one queue: take a task, if there is one, and run the body on it.
\<close>

definition on_task :: "loop_env \<Rightarrow> queue_type \<Rightarrow> (tte \<Rightarrow> worker \<Rightarrow> worker res) \<Rightarrow> worker \<Rightarrow> worker res" where
  "on_task le qt body w =
     rbind (take_task le qt w) (\<lambda>(ot, w1). case ot of None \<Rightarrow> Inr w1 | Some t \<Rightarrow> body t w1)"

definition host_buffer :: "tte \<Rightarrow> worker \<Rightarrow> nccl_manager \<Rightarrow> int res" where
  "host_buffer t w nm =
     (if w_is_cross_pcie w
      then check (te_pcie_cpubuff t \<noteq> []) (CheckFailed ''pcie_cpubuff'')
        (check (0 < nm_size nm) (Undefined ''division by zero'')
          (rbind (vec_get (te_pcie_cpubuff t) (nat (GetPcieSwitchIndex w nm))) (\<lambda>b.
             Inr (int b + int (unat (te_offset t))))))
      else Inr (address (te_cpubuff t) + int (unat (te_offset t))))"

definition copy_device_to_host :: "loop_env \<Rightarrow> tte \<Rightarrow> worker \<Rightarrow> worker res" where
  "copy_device_to_host le t w =
     rbind (get_nccl w) (\<lambda>nm.
       case (if 1 < nm_size nm then te_output t else te_tensor t) of
         None \<Rightarrow> Inl (CheckFailed ''tensor'')
       | Some x \<Rightarrow>
           rbind (unit_length x) (\<lambda>unit.
           rbind (host_buffer t w nm) (\<lambda>cpubuff.
             check (cpubuff \<noteq> 0) (CheckFailed ''CPU buffer not initialized'')
            (rbind (copy_range w nm REDUCE (te_key t) x (unat (te_len t))) (\<lambda>(off, len).
               FinishOrProceed (le_now le) t
                 (if len \<noteq> 0
                  then emit (MemcpyDeviceToHost (cpubuff + int off) (data_pointer t x + int off) (int len)) w
                  else w))))))"

definition RunCopyDevice2HostLoopOnce :: "loop_env \<Rightarrow> worker \<Rightarrow> worker res" where
  "RunCopyDevice2HostLoopOnce le w = on_task le COPYD2H (copy_device_to_host le) w"

text \<open>The root of the reducer adds the first switch's buffer to its own, over its slice.\<close>

definition reduce_slice :: "tte \<Rightarrow> worker \<Rightarrow> worker res" where
  "reduce_slice t w =
     rbind (the_tensor (te_tensor t)) (\<lambda>x.
     rbind (unit_length x) (\<lambda>unit.
     rbind (get_nccl w) (\<lambda>nm.
     rbind (split_elems (nm_size nm) unit (unat (te_len t))) (\<lambda>(num, left).
       let (off, len) = copy_slice (GetRoot nm (te_key t) REDUCE) (GetRank nm (w_local_rank w) (te_key t) REDUCE)
                          unit num left
       in if len \<noteq> 0
          then rbind (vec_get (te_pcie_cpubuff t) 0) (\<lambda>b0.
                 Inr (emit (ReduceSum (address (te_cpubuff t) + int (unat (te_offset t) + off))
                              (int b0 + int (unat (te_offset t) + off)) (int len) (tensor_dtype x)) w))
          else Inr w))))"

definition pcie_reduce :: "loop_env \<Rightarrow> tte \<Rightarrow> worker \<Rightarrow> worker res" where
  "pcie_reduce le t w =
     (case w_cpu_reducer w of
        None \<Rightarrow> Inl (Undefined ''null cpu reducer'')
      | Some cr \<Rightarrow>
          rbind (if \<not> cpu_isRoot cr (w_local_rank w)
                 then (case cr_comm cr of
                         None \<Rightarrow> Inl (Undefined ''null communicator'')
                       | Some c \<Rightarrow> Inr (signal_root c \<lparr>msg_src = w_local_rank w,
                                          msg_signal = PCIE_REDUCE_READY, msg_key = te_key t\<rparr> w))
                 else reduce_slice t w)
            (FinishOrProceed (le_now le) t))"

definition RunPcieReduceLoopOnce :: "loop_env \<Rightarrow> worker \<Rightarrow> worker res" where
  "RunPcieReduceLoopOnce le w =
     check (w_is_cross_pcie w) (CheckFailed ''IsCrossPcieSwitch'') (on_task le PCIE_REDUCE (pcie_reduce le) w)"

definition CopyHost2Device :: "tte \<Rightarrow> worker \<Rightarrow> worker res" where
  "CopyHost2Device t w =
     (case te_output t of
        None \<Rightarrow> Inl (CheckFailed ''tensor'')
      | Some x \<Rightarrow>
          rbind (get_nccl w) (\<lambda>nm.
          let cpubuff = address (te_cpubuff t) + int (unat (te_offset t))
          in check (cpubuff \<noteq> 0) (CheckFailed ''CPU buffer not initialized'')
            (rbind (copy_range w nm BROADCAST (te_key t) x (unat (te_len t))) (\<lambda>(off, len).
               Inr (if len \<noteq> 0
                    then emit (MemcpyHostToDevice (data_pointer t x + int off) (cpubuff + int off) (int len)) w
                    else w)))))"

definition copy_host_to_device_root :: "loop_env \<Rightarrow> tte \<Rightarrow> worker \<Rightarrow> worker res" where
  "copy_host_to_device_root le t w =
     rbind (if 1 < w_local_size w
            then (case w_basic_comm w of
                    None \<Rightarrow> Inl (Undefined ''null communicator'')
                  | Some c \<Rightarrow> Inr (signal_all c \<lparr>msg_src = w_local_rank w, msg_signal = DO_COPYH2D,
                                     msg_key = te_key t\<rparr> w))
            else Inr w) (\<lambda>w1.
     rbind (CopyHost2Device t w1) (FinishOrProceed (le_now le) t))"

definition RunRootCopyHost2DeviceLoopOnce :: "loop_env \<Rightarrow> worker \<Rightarrow> worker res" where
  "RunRootCopyHost2DeviceLoopOnce le w = on_task le COPYH2D (copy_host_to_device_root le) w"

definition RunNonRootCopyHost2DeviceLoopOnce :: "loop_env \<Rightarrow> worker \<Rightarrow> worker res" where
  "RunNonRootCopyHost2DeviceLoopOnce le w =
     on_task le COPYH2D (\<lambda>t w1. rbind (CopyHost2Device t w1) (FinishOrProceed (le_now le) t)) w"

definition RunNonRootCopyListenLoopOnce :: "(recv_outcome \<times> bool) list \<Rightarrow> worker \<Rightarrow> worker res" where
  "RunNonRootCopyListenLoopOnce es w =
     (case w_basic_comm w of
        None \<Rightarrow> Inl (Undefined ''null communicator'')
      | Some c \<Rightarrow>
          check (comm_root c \<noteq> w_local_rank w) (CheckFailed ''rank'')
            (rbind (recvSignalFromRoot c es 16) (\<lambda>r.
               case r of
                 Some (rc, Some m) \<Rightarrow>
                   check (msg_signal m = DO_COPYH2D) (CheckFailed ''signal'')
                     (case rts w RT_COPY of
                        None \<Rightarrow> Inl (Undefined ''null ready table'')
                      | Some rt \<Rightarrow> rbind (AddReadyCount rt (msg_key m)) (\<lambda>(v, rt').
                                     Inr (w\<lparr>rts := (rts w)(RT_COPY \<mapsto> rt')\<rparr>)))
               | _ \<Rightarrow> Inr w)))"

subsection \<open>Compression, push and pull\<close>

definition spawn_compress :: "tte \<Rightarrow> worker \<Rightarrow> worker res" where
  "spawn_compress t w =
     check (w_is_root_device w) (CheckFailed ''only root device should enter COMPRESS loop'')
    (check (te_compressor t \<noteq> None) (CheckFailed ''compressor'')
    (check (te_compressed t = None) (CheckFailed ''compressed'')
       (pool_enqueue (CompressJob t) w)))"

definition RunCompressLoopOnce :: "loop_env \<Rightarrow> worker \<Rightarrow> worker res" where
  "RunCompressLoopOnce le w = on_task le COMPRESS spawn_compress w"

text \<open>The job: the compressed tensor replaces the task's, and the count of the next table is set again.\<close>

definition compress_job :: "loop_env \<Rightarrow> tte \<Rightarrow> worker \<Rightarrow> worker res" where
  "compress_job le t w =
     (let data = address (te_cpubuff t) + int (unat (te_offset t)); len = sint (te_len t)
      in rbind (the_tensor (te_tensor t)) (\<lambda>x.
         case te_compressor t of
           None \<Rightarrow> Inl (Undefined ''null compressor'')
         | Some c \<Rightarrow>
             let dtype = data_type_value (tensor_dtype x); z = le_compress le c data len dtype
             in check (of_nat (ct_size z) \<le> (of_int len :: u64)) (CheckFailed ''Compressor Implementation Error'')
               (rbind (vec_get (te_queue_list t) 1) (\<lambda>nxt.
                rbind (GetScheduledQueue w nxt) (\<lambda>q.
                rbind (queue_reset q (te_key t) (w_local_size w - 1) (emit (CompressorRun c data len dtype) w)) (\<lambda>w1.
                  FinishOrProceed (le_now le) (t\<lparr>te_compressed := Some z\<rparr>) w1))))))"

text \<open>What a push sends: the compressed tensor, which is used up, or the slice of the host buffer.\<close>

definition push_payload :: "tte \<Rightarrow> int \<times> u32" where
  "push_payload t =
     (case te_compressed t of
        Some z \<Rightarrow> (int (ct_data z), of_nat (ct_size z))
      | None \<Rightarrow> (address (te_cpubuff t) + int (unat (te_offset t)), te_len t))"

definition push_task :: "loop_env \<Rightarrow> tte \<Rightarrow> worker \<Rightarrow> worker res" where
  "push_task le t w =
     check (w_is_root_device w) (CheckFailed ''only root device should enter PUSH loop'')
       (if w_is_distributed w
        then check (te_cpubuff t \<noteq> None) (CheckFailed ''cpubuff'')
          (rbind (the_tensor (te_tensor t)) (\<lambda>x.
             let (data, len) = push_payload t;
                 cmd = GetCommandType kDefaultPushPull (data_type_value (tensor_dtype x))
             in rbind (encode_key (le_os le) (te_key t) (ucast len) w) (\<lambda>(kv, w1).
                check (w_ps w1) (Undefined ''null ps'')
                  (Inr ((emit (ZPush (kv_keys kv) data (int (unat len)) (kv_lens kv) cmd) w1)
                     \<lparr>w_pending := w_pending w1 @ [PushDone (t\<lparr>te_compressed := None\<rparr>)]\<rparr>)))))
        else check (w_is_cross_pcie w) (CheckFailed ''IsCrossPcieSwitch'') (FinishOrProceed (le_now le) t w))"

definition RunPushLoopOnce :: "loop_env \<Rightarrow> worker \<Rightarrow> worker res" where
  "RunPushLoopOnce le w = on_task le PUSH (push_task le) w"

definition pull_task :: "loop_env \<Rightarrow> tte \<Rightarrow> worker \<Rightarrow> worker res" where
  "pull_task le t w =
     check (w_is_root_device w) (CheckFailed ''only root device should enter PULL loop'')
    (check (te_cpubuff t \<noteq> None) (CheckFailed ''cpubuff'')
       (rbind (the_tensor (te_output t)) (\<lambda>x.
          let data = address (te_cpubuff t) + int (unat (te_offset t));
              cmd = GetCommandType kDefaultPushPull (data_type_value (tensor_dtype x))
          in rbind (encode_key (le_os le) (te_key t) (ucast (te_len t)) w) (\<lambda>(kv, w1).
             check (w_ps w1) (Undefined ''null ps'')
               (Inr ((emit (ZPull (kv_keys kv) data (int (unat (te_len t))) (kv_lens kv) cmd) w1)
                  \<lparr>w_pending := w_pending w1 @ [PullDone t]\<rparr>))))))"

definition RunPullLoopOnce :: "loop_env \<Rightarrow> worker \<Rightarrow> worker res" where
  "RunPullLoopOnce le w = on_task le PULL (pull_task le) w"

text \<open>The completion of a pull: the library has stored the value lengths into the key's entry.\<close>

definition store_pull_lens :: "loop_env \<Rightarrow> u64 \<Rightarrow> worker \<Rightarrow> worker" where
  "store_pull_lens le k w =
     (case ps_kv (w_encoder w) k of
        None \<Rightarrow> w
      | Some kv \<Rightarrow> w\<lparr>w_encoder := (w_encoder w)\<lparr>ps_kv := (ps_kv (w_encoder w))
                     (k \<mapsto> kv\<lparr>kv_lens := le_pull_lens le (kv_keys kv) (kv_lens kv)\<rparr>)\<rparr>\<rparr>)"

definition spawn_decompress :: "tte \<Rightarrow> worker \<Rightarrow> worker res" where
  "spawn_decompress t w =
     check (w_is_root_device w) (CheckFailed ''only root device should enter DECOMPRESS loop'')
    (check (te_compressor t \<noteq> None) (CheckFailed ''compressor'')
       (pool_enqueue (DecompressJob t) w))"

definition RunDecompressLoopOnce :: "loop_env \<Rightarrow> worker \<Rightarrow> worker res" where
  "RunDecompressLoopOnce le w = on_task le DECOMPRESS spawn_decompress w"

definition decompress_job :: "loop_env \<Rightarrow> tte \<Rightarrow> worker \<Rightarrow> worker res" where
  "decompress_job le t w =
     rbind (encode_key (le_os le) (te_key t) 0 w) (\<lambda>(kv, w1).
     rbind (vec_get (kv_lens kv) 0) (\<lambda>len.
     rbind (the_tensor (te_tensor t)) (\<lambda>x.
       case te_compressor t of
         None \<Rightarrow> Inl (Undefined ''null compressor'')
       | Some c \<Rightarrow>
           FinishOrProceed (le_now le) t
             (emit (DecompressorRun c (address (te_cpubuff t) + int (unat (te_offset t))) len
                      (data_type_value (tensor_dtype x))) w1))))"

subsection \<open>Closures\<close>

definition run_closure :: "loop_env \<Rightarrow> closure \<Rightarrow> worker \<Rightarrow> worker res" where
  "run_closure le f w =
     (case f of
        PushDone t \<Rightarrow> FinishOrProceed (le_now le) t w
      | PullDone t \<Rightarrow> FinishOrProceed (le_now le) t (store_pull_lens le (te_key t) w)
      | CompressJob t \<Rightarrow> compress_job le t w
      | DecompressJob t \<Rightarrow> decompress_job le t w)"

text \<open>The library completes the \<open>i\<close>-th outstanding request; a pool thread runs the oldest job.\<close>

definition complete_request :: "loop_env \<Rightarrow> nat \<Rightarrow> worker \<Rightarrow> worker res" where
  "complete_request le i w =
     (if i < length (w_pending w)
      then run_closure le (w_pending w ! i)
             (w\<lparr>w_pending := take i (w_pending w) @ drop (Suc i) (w_pending w)\<rparr>)
      else Inr w)"

definition run_pool_job :: "loop_env \<Rightarrow> worker \<Rightarrow> worker res" where
  "run_pool_job le w =
     (case pool_take w of None \<Rightarrow> Inr w | Some (f, w1) \<Rightarrow> run_closure le f w1)"

subsection \<open>The loops\<close>

text \<open>
  One turn of a loop, with what it receives; and the loop itself: turns until the process shuts
  down, then the thread reports. The list has one entry for each turn, the last of the turns is
  the one after which the shutdown flag is up (or the list ends with the loop still running).
\<close>

definition loop_turn :: "loop_function \<Rightarrow> loop_env \<Rightarrow> (recv_outcome \<times> bool) list list \<Rightarrow> worker \<Rightarrow>
    worker res" where
  "loop_turn f le ess w =
     (case f of
        CoordinateReduceLoop \<Rightarrow> RunCoordinateLoopOnce le COORDINATE_REDUCE w
      | CoordinateBroadcastLoop \<Rightarrow> RunCoordinateLoopOnce le COORDINATE_BROADCAST w
      | CoordinatePushLoop \<Rightarrow> RunCoordinateLoopOnce le COORDINATE_PUSH w
      | PcieReduceLoop \<Rightarrow> RunPcieReduceLoopOnce le w
      | RootNcclLoop \<Rightarrow> RunRootNcclLoopOnce le w
      | NonRootNcclLoop \<Rightarrow> rbind (RunNonRootNcclLoopOnce le ess w) (\<lambda>(fin, w1). Inr w1)
      | SyncNcclLoop \<Rightarrow> RunSyncNcclOnce le w
      | CopyDevice2HostLoop \<Rightarrow> RunCopyDevice2HostLoopOnce le w
      | CompressLoop \<Rightarrow> RunCompressLoopOnce le w
      | PushLoop \<Rightarrow> RunPushLoopOnce le w
      | PullLoop \<Rightarrow> RunPullLoopOnce le w
      | DecompressLoop \<Rightarrow> RunDecompressLoopOnce le w
      | RootCopyHost2DeviceLoop \<Rightarrow> RunRootCopyHost2DeviceLoopOnce le w
      | NonRootCopyListenLoop \<Rightarrow> RunNonRootCopyListenLoopOnce (case ess of [] \<Rightarrow> [] | es # _ \<Rightarrow> es) w
      | NonRootCopyHost2DeviceLoop \<Rightarrow> RunNonRootCopyHost2DeviceLoopOnce le w)"

fun run_loop :: "loop_function \<Rightarrow> (loop_env \<times> (recv_outcome \<times> bool) list list) list \<Rightarrow> worker \<Rightarrow>
    (bool \<times> worker) res" where
  "run_loop f [] w = Inr (False, w)"
| "run_loop f ((le, ess) # turns) w =
     rbind (loop_turn f le ess w) (\<lambda>w1.
       if w_should_shutdown w1 then Inr (True, ReportThreadFinish w1) else run_loop f turns w1)"

end
