(* ===== verification/Loop_Stages.thy ===== *)
theory Loop_Stages
  imports Core_Loops "HOL-Library.Sublist"
begin

section \<open>The stages of a task\<close>

text \<open>
  An abstract specification of the background loops, and the proof that they implement it: every
  turn of every loop, every completion of a request and every job of the thread pool is a sequence
  of abstract steps, in which tasks are neither lost nor duplicated, pass through their stages in
  order, and the last partition of a tensor to finish makes the tensor's one callback.
\<close>

subsection \<open>What the stages do, in the abstract\<close>

text \<open>
  The abstract state: the tasks in flight, each with its identity (key, counter, number of
  partitions, callback) and the stages left to it, the counters, and the callbacks made so far.
  A task advances to its next stage, or it retires from its last one; then its counter goes up,
  and the callback is made when it was the last.
\<close>

type_synonym task_id = "u64 \<times> nat option \<times> u32 \<times> nat"

type_synonym stage_state = "(task_id \<times> queue_type list) multiset \<times> (nat \<rightharpoonup> int) \<times> nat list"

inductive stage_step :: "stage_state \<Rightarrow> stage_state \<Rightarrow> bool" where
  advance: "stage_step (add_mset (g, s # s' # ss) T, C, L) (add_mset (g, s' # ss) T, C, L)"
| retire: "C cid = Some v \<Longrightarrow>
    stage_step (add_mset ((k, Some cid, n, cb), [s]) T, C, L)
      (T, C(cid \<mapsto> v + 1), if v = sint (n - 1) then L @ [cb] else L)"

definition task_abs :: "tte \<Rightarrow> task_id \<times> queue_type list" where
  "task_abs t = ((te_key t, te_counter t, te_total_partnum t, te_callback t), te_queue_list t)"

definition queued :: "worker \<Rightarrow> queue_type \<Rightarrow> tte list" where
  "queued w qt = (case w_queues w qt of None \<Rightarrow> [] | Some q \<Rightarrow> sq q)"

fun closure_task :: "closure \<Rightarrow> tte" where
  "closure_task (PushDone t) = t"
| "closure_task (PullDone t) = t"
| "closure_task (CompressJob t) = t"
| "closure_task (DecompressJob t) = t"

definition pipeline_tasks :: "worker \<Rightarrow> tte list" where
  "pipeline_tasks w = (case w_nccl w of None \<Rightarrow> [] | Some nm \<Rightarrow> concat (map g_tasks (nm_pipeline nm)))"

definition closures :: "worker \<Rightarrow> closure list" where
  "closures w = w_pending w @ (case w_pool w of None \<Rightarrow> [] | Some js \<Rightarrow> js)"

definition in_flight :: "worker \<Rightarrow> tte multiset" where
  "in_flight w = (\<Sum>qt \<in> set all_queue_types. mset (queued w qt)) + mset (pipeline_tasks w) +
     mset (map closure_task (closures w))"

fun callback_of :: "effect \<Rightarrow> nat option" where
  "callback_of (Callback cb st) = Some cb"
| "callback_of _ = None"

definition callbacks :: "worker \<Rightarrow> nat list" where
  "callbacks w = List.map_filter callback_of (w_log w)"

text \<open>The abstraction of a state in which a thread holds the tasks \<open>M\<close> in its hands.\<close>

definition stages_of :: "tte multiset \<Rightarrow> worker \<Rightarrow> stage_state" where
  "stages_of M w = (image_mset task_abs (M + in_flight w), w_counters w, callbacks w)"

subsection \<open>Lemmas\<close>

lemma all_queues: "qt \<in> set all_queue_types"
  by (cases qt) (simp_all add: all_queue_types_def)

lemma callbacks_emit_all [simp]:
  "callbacks (emit_all es w) = callbacks w @ List.map_filter callback_of es"
  by (simp add: callbacks_def emit_all_def map_filter_def)

lemma callbacks_emit [simp]:
  "callbacks (emit e w) = callbacks w @ List.map_filter callback_of [e]"
  by (simp add: callbacks_def map_filter_def)

lemma in_flight_set_queue:
  assumes "w_queues w qt = Some q"
  shows "mset (sq q) + in_flight (set_queue qt q' w) = mset (sq q') + in_flight w"
proof -
  let ?Q = "set all_queue_types"
  have o: "queued (set_queue qt q' w) x = queued w x" if "x \<noteq> qt" for x
    using that by (simp add: queued_def set_queue_def)
  have "(\<Sum>x \<in> ?Q - {qt}. mset (queued (set_queue qt q' w) x)) = (\<Sum>x \<in> ?Q - {qt}. mset (queued w x))"
    by (rule sum.cong) (simp_all add: o)
  moreover have "queued w qt = sq q" "queued (set_queue qt q' w) qt = sq q'"
    using assms by (simp_all add: queued_def set_queue_def)
  moreover have "pipeline_tasks (set_queue qt q' w) = pipeline_tasks w" "closures (set_queue qt q' w) = closures w"
    by (simp_all add: pipeline_tasks_def closures_def set_queue_def)
  moreover have "(\<Sum>x \<in> ?Q. f x) = f qt + (\<Sum>x \<in> ?Q - {qt}. f x)" for f :: "queue_type \<Rightarrow> tte multiset"
    by (rule sum.remove [OF finite_set all_queues])
  ultimately show ?thesis unfolding in_flight_def by (simp only: union_ac)
qed

text \<open>What an operation leaves alone when it moves no task, counter or callback.\<close>

definition same_tasks :: "worker \<Rightarrow> worker \<Rightarrow> bool" where
  "same_tasks w w' \<longleftrightarrow> w_queues w' = w_queues w \<and> pipeline_tasks w' = pipeline_tasks w \<and>
     closures w' = closures w \<and> w_counters w' = w_counters w \<and> callbacks w' = callbacks w"

lemma same_tasks_refl [simp]: "same_tasks w w"
  by (simp add: same_tasks_def)

lemma same_tasks_trans: "same_tasks w w1 \<Longrightarrow> same_tasks w1 w2 \<Longrightarrow> same_tasks w w2"
  by (simp add: same_tasks_def)

lemma same_tasks_stages: "same_tasks w w' \<Longrightarrow> stages_of M w' = stages_of M w"
  by (simp add: same_tasks_def stages_of_def in_flight_def queued_def)

lemma same_tasks_intros [simp]:
  "same_tasks w (set_context name c w)" "same_tasks w (w\<lparr>w_encoder := enc\<rparr>)" "same_tasks w (w\<lparr>rts := ts\<rparr>)"
  "same_tasks w (w\<lparr>w_speed := sp\<rparr>)" "same_tasks w (w\<lparr>rts := ts, ctxs := cs\<rparr>)" "same_tasks w (w\<lparr>ctxs := cs\<rparr>)"
  "callback_of e = None \<Longrightarrow> same_tasks w (emit e w)"
  "\<forall>e \<in> set es. callback_of e = None \<Longrightarrow> same_tasks w (emit_all es w)"
proof -
  show "\<forall>e \<in> set es. callback_of e = None \<Longrightarrow> same_tasks w (emit_all es w)"
    unfolding same_tasks_def callbacks_emit_all
    by (induction es) (simp_all add: emit_all_def pipeline_tasks_def closures_def map_filter_def)
qed (simp_all add: same_tasks_def set_context_def pipeline_tasks_def closures_def callbacks_def emit_def map_filter_def)

lemma stages_put:
  assumes "w_queues w qt = Some q" and "mset (sq q') = mset (sq q) + A"
  shows "stages_of M (set_queue qt q' w) = stages_of (A + M) w"
proof -
  have "mset (sq q) + in_flight (set_queue qt q' w) = mset (sq q) + (A + in_flight w)"
    using in_flight_set_queue [OF assms(1), of q'] assms(2) by (simp add: ac_simps)
  then have "in_flight (set_queue qt q' w) = A + in_flight w" by simp
  then show ?thesis by (simp add: stages_of_def callbacks_def set_queue_def ac_simps)
qed

lemma stages_take:
  assumes "w_queues w qt = Some q" and "mset (sq q) = mset (sq q') + A"
  shows "stages_of (A + M) (set_queue qt q' w) = stages_of M w"
proof -
  have "mset (sq q') + (A + in_flight (set_queue qt q' w)) = mset (sq q') + in_flight w"
    using in_flight_set_queue [OF assms(1), of q'] assms(2) by (simp add: ac_simps)
  then have "A + in_flight (set_queue qt q' w) = in_flight w" by simp
  then have "A + M + in_flight (set_queue qt q' w) = M + in_flight w" by (metis union_assoc union_commute)
  then have "image_mset task_abs (A + M + in_flight (set_queue qt q' w)) = image_mset task_abs (M + in_flight w)"
    by (simp only:)
  then show ?thesis unfolding stages_of_def by (simp add: callbacks_def set_queue_def)
qed

lemma recorderTs_ctxs: "recorderTs now t s = Inr s1 \<Longrightarrow> \<exists>cs. s1 = s\<lparr>ctxs := cs\<rparr>"
  by (intro exI [of _ "ctxs s1"]) (auto simp: recorderTs_def Let_def split: option.splits if_splits list.splits)

lemma stages_of_abs:
  "image_mset task_abs M = image_mset task_abs N \<Longrightarrow> stages_of M w = stages_of N w"
  by (simp add: stages_of_def)

lemma getTask_frame:
  assumes "getTask ready now q s = Inr (ot, q', s')"
  shows "\<exists>ts cs. s' = s\<lparr>rts := ts, ctxs := cs\<rparr>"
proof -
  obtain found ts where l: "getTask_loop ready q [] (sq q) (rts s) = Inr (found, ts)"
    using assms by (auto simp: getTask_def res_simps)
  show ?thesis
  proof (cases found)
    case None
    then have "s' = s\<lparr>rts := ts\<rparr>" using assms l by (auto simp: getTask_def)
    also have "\<dots> = s\<lparr>rts := ts, ctxs := ctxs s\<rparr>" by (cases s) simp
    finally show ?thesis by blast
  next
    case (Some p)
    then obtain t where "recorderTs now t (s\<lparr>rts := ts\<rparr>) = Inr s'"
      using assms l by (auto simp: getTask_def Let_def res_simps case_prod_beta)
    from recorderTs_ctxs [OF this] show ?thesis by auto
  qed
qed

lemma take_task_stages:
  assumes "take_task le qt w = Inr (ot, w')"
  shows "stages_of (mset (case ot of None \<Rightarrow> [] | Some t \<Rightarrow> [t]) + M) w' = stages_of M w"
proof -
  obtain q q' w1 where q: "w_queues w qt = Some q"
    and g: "getTask (le_ready le) (le_now le) q w = Inr (ot, q', w1)" and w': "w' = set_queue qt q' w1"
    using assms by (auto simp: take_task_def GetScheduledQueue_def res_simps split: option.splits)
  obtain ts cs where w1: "w1 = w\<lparr>rts := ts, ctxs := cs\<rparr>" using getTask_frame [OF g] by blast
  then have same: "same_tasks w w1" and q1: "w_queues w1 qt = Some q" using q by simp_all
  show ?thesis
  proof (cases ot)
    case None
    then have "q' = q" using getTask_Inr [OF g] by simp
    then have "stages_of ({#} + M) (set_queue qt q' w1) = stages_of M w1" by (intro stages_take [OF q1]) simp
    then show ?thesis using None w' same_tasks_stages [OF same] by simp
  next
    case (Some t)
    then obtain t0 where t0: "t = t0\<lparr>te_ready_event := None\<rparr>" "mset (sq q) = mset (sq q') + {#t0#}"
      using getTask_Inr [OF g] by auto
    have "stages_of ({#t0#} + M) (set_queue qt q' w1) = stages_of M w1" by (rule stages_take [OF q1 t0(2)])
    moreover have "stages_of ({#t#} + M) w' = stages_of ({#t0#} + M) w'"
      by (rule stages_of_abs) (simp add: t0(1) task_abs_def)
    ultimately show ?thesis using Some w' same_tasks_stages [OF same] by simp
  qed
qed

lemma getTask_key_loop_mset:
  "getTask_key_loop ready k pre xs = Inr (Some (t, rest)) \<Longrightarrow> mset (pre @ xs) = add_mset t (mset rest)"
  by (induction ready k pre xs rule: getTask_key_loop.induct) (auto simp: res_simps split: if_splits)

lemma take_task_key_stages:
  assumes "take_task_key le qt k w = Inr (Some t, w')"
  shows "stages_of ({#t#} + M) w' = stages_of M w"
proof -
  obtain q q' w1 where q: "w_queues w qt = Some q"
    and g: "getTask_key (le_ready le) (le_now le) k q w = Inr (Some t, q', w1)" and w': "w' = set_queue qt q' w1"
    using assms by (auto simp: take_task_key_def GetScheduledQueue_def res_simps split: option.splits)
  obtain t0 rest where l: "getTask_key_loop (le_ready le) k [] (sq q) = Inr (Some (t0, rest))"
    and t: "t = t0\<lparr>te_ready_event := None\<rparr>" "q' = q\<lparr>sq := rest\<rparr>"
    and r: "recorderTs (le_now le) t w = Inr w1"
    using g by (auto simp: getTask_key_def res_simps Let_def split: option.splits)
  from recorderTs_ctxs [OF r] have same: "same_tasks w w1" and q1: "w_queues w1 qt = Some q" using q by auto
  have "mset (sq q) = mset (sq q') + {#t0#}" using getTask_key_loop_mset [OF l] t(2) by simp
  then have "stages_of ({#t0#} + M) (set_queue qt q' w1) = stages_of M w1" by (rule stages_take [OF q1])
  moreover have "stages_of ({#t#} + M) w' = stages_of ({#t0#} + M) w'"
    by (rule stages_of_abs) (simp add: t(1) task_abs_def)
  ultimately show ?thesis using w' same_tasks_stages [OF same] by simp
qed

lemma check_sample_same: "check_sample t w = Inr w' \<Longrightarrow> w' = w"
  by (auto simp: check_sample_def res_simps split: if_splits)

lemma record_stage_same: "record_stage now t op w = Inr w' \<Longrightarrow> same_tasks w w'"
  by (auto simp: record_stage_def res_simps Let_def split: option.splits if_splits)

lemma record_whole_same: "record_whole now name w = Inr w' \<Longrightarrow> same_tasks w w'"
  by (auto simp: record_whole_def res_simps split: option.splits if_splits)

lemma count_step_same: "count_step name w = Inr w' \<Longrightarrow> same_tasks w w'"
  by (auto simp: count_step_def res_simps split: option.splits)

lemma SetProfileFlag_same: "SetProfileFlag name w = Inr w' \<Longrightarrow> same_tasks w w'"
  by (auto simp: SetProfileFlag_def IsAllTensorOutput_def Who2beOutput_def Let_def res_simps same_tasks_def
      set_context_def pipeline_tasks_def closures_def callbacks_def emit_def map_filter_def
      split: option.splits if_splits)

text \<open>The last partition of a tensor makes exactly one callback, its own.\<close>

lemma finish_tensor_stages:
  assumes "finish_tensor now t w = Inr w'"
  shows "stages_of M w' = stages_of M (emit (Callback (te_callback t) Status_OK) w)"
proof -
  obtain w1 w2 w3 where sp: "(if sp_should_record (w_speed w)
      then rbind (the_tensor (te_tensor t)) (\<lambda>x. Inr (w\<lparr>w_speed := RecordSpeed now (tensor_size x) (w_speed w)\<rparr>))
      else Inr w) = Inr w1"
    and w2: "record_whole now (te_context t) (emit (Callback (te_callback t) Status_OK) w1) = Inr w2"
    and w3: "count_step (te_context t) w2 = Inr w3" and w': "SetProfileFlag (te_context t) w3 = Inr w'"
    using assms by (auto simp: finish_tensor_def res_simps simp del: if_split)
  have w1: "same_tasks w w1" using sp by (auto simp: res_simps split: if_splits)
  have "stages_of M w' = stages_of M (emit (Callback (te_callback t) Status_OK) w1)"
    using same_tasks_stages [OF SetProfileFlag_same [OF w']] same_tasks_stages [OF count_step_same [OF w3]]
      same_tasks_stages [OF record_whole_same [OF w2]] by simp
  moreover have "same_tasks (emit (Callback (te_callback t) Status_OK) w)
      (emit (Callback (te_callback t) Status_OK) w1)"
    using w1 by (simp add: same_tasks_def) (simp add: pipeline_tasks_def closures_def emit_def)
  ultimately show ?thesis using same_tasks_stages by simp
qed

lemma stages_of_emit_callback:
  "stages_of M (emit (Callback cb st) w) = (fst (stages_of M w), fst (snd (stages_of M w)), callbacks w @ [cb])"
proof -
  have "in_flight (emit e w) = in_flight w" for e
    by (simp add: in_flight_def queued_def pipeline_tasks_def closures_def emit_def)
  then show ?thesis by (simp add: stages_of_def map_filter_def) (simp add: emit_def)
qed

lemma finish_partition_step:
  assumes "finish_partition now t w = Inr w'" and "te_queue_list t0 = [s]"
    and "t = t0\<lparr>te_queue_list := []\<rparr>"
  shows "stage_step (stages_of (add_mset t0 M) w) (stages_of M w')"
proof -
  obtain cid v where c: "te_counter t0 = Some cid" and v: "w_counters w cid = Some v"
    and w': "(if v = sint (te_total_partnum t0 - 1)
      then finish_tensor now t (w\<lparr>w_counters := (w_counters w)(cid \<mapsto> v + 1)\<rparr>)
      else Inr (w\<lparr>w_counters := (w_counters w)(cid \<mapsto> v + 1)\<rparr>)) = Inr w'"
    using assms by (auto simp: finish_partition_def Let_def split: option.splits)
  let ?w1 = "w\<lparr>w_counters := (w_counters w)(cid \<mapsto> v + 1)\<rparr>"
  have w1: "stages_of M ?w1 = (image_mset task_abs (M + in_flight w), (w_counters w)(cid \<mapsto> v + 1), callbacks w)"
    by (simp add: stages_of_def in_flight_def queued_def pipeline_tasks_def closures_def callbacks_def)
  have "stages_of M w' = (image_mset task_abs (M + in_flight w), (w_counters w)(cid \<mapsto> v + 1),
      if v = sint (te_total_partnum t0 - 1) then callbacks w @ [te_callback t0] else callbacks w)"
  proof (cases "v = sint (te_total_partnum t0 - 1)")
    case True
    then have "stages_of M w' = stages_of M (emit (Callback (te_callback t) Status_OK) ?w1)"
      using w' by (intro finish_tensor_stages) simp
    then show ?thesis using True w1 assms(3) by (simp add: stages_of_emit_callback callbacks_def)
  qed (use w' w1 in simp)
  moreover have "stages_of (add_mset t0 M) w = (add_mset ((te_key t0, Some cid, te_total_partnum t0,
      te_callback t0), [s]) (image_mset task_abs (M + in_flight w)), w_counters w, callbacks w)"
    by (simp add: stages_of_def task_abs_def c assms(2))
  ultimately show ?thesis using stage_step.retire [where C = "w_counters w" and cid = cid, OF v] by simp
qed

text \<open>Finishing a stage is one step: to the next stage, or out of the last one.\<close>

lemma FinishOrProceed_step:
  assumes "FinishOrProceed now t w = Inr w'"
  shows "stage_step (stages_of (add_mset t M) w) (stages_of M w')"
proof -
  obtain op rest where ql: "te_queue_list t = op # rest"
    using assms by (cases "te_queue_list t") (auto simp: FinishOrProceed_def)
  from assms ql obtain q w2 where gq: "GetScheduledQueue w op = Inr q"
    and w2: "record_stage now t op (set_queue op (reportFinish q (te_len t)) w) = Inr w2"
    and w': "(case rest of [] \<Rightarrow> finish_partition now (t\<lparr>te_queue_list := rest\<rparr>) w2
      | nxt # _ \<Rightarrow> check (te_name t \<noteq> []) (CheckFailed ''tensor_name'')
          (rbind (GetScheduledQueue w2 nxt) (\<lambda>qn. rbind (addTask qn (t\<lparr>te_queue_list := rest\<rparr>))
            (\<lambda>qn'. Inr (set_queue nxt qn' w2))))) = Inr w'"
    by (auto simp: FinishOrProceed_def res_simps Let_def dest!: check_sample_same)
  have q: "w_queues w op = Some q" using gq by (simp add: GetScheduledQueue_def split: option.splits)
  have "stages_of N w2 = stages_of N (set_queue op (reportFinish q (te_len t)) w)" for N
    by (rule same_tasks_stages [OF record_stage_same [OF w2]])
  then have same: "stages_of N w2 = stages_of N w" for N
    using stages_put [OF q, of "reportFinish q (te_len t)" "{#}"] by simp
  show ?thesis
  proof (cases rest)
    case Nil
    then show ?thesis using finish_partition_step [of now "t\<lparr>te_queue_list := []\<rparr>" w2 w' t op M] w' ql same by simp
  next
    case (Cons nxt ss)
    then obtain qn qn' where qn: "w_queues w2 nxt = Some qn" "addTask qn (t\<lparr>te_queue_list := rest\<rparr>) = Inr qn'"
      and s: "w' = set_queue nxt qn' w2"
      using w' by (auto simp: GetScheduledQueue_def res_simps split: option.splits)
    have "mset (sq qn') = mset (sq qn) + {#t\<lparr>te_queue_list := rest\<rparr>#}" using addTask_Inr [OF qn(2)] by simp
    from stages_put [OF qn(1) this, of M]
    have "stages_of M w' = stages_of (add_mset (t\<lparr>te_queue_list := rest\<rparr>) M) w" using s same by simp
    then show ?thesis using ql Cons by (simp add: stages_of_def task_abs_def stage_step.advance)
  qed
qed

subsection \<open>Every turn is a sequence of stage steps\<close>

abbreviation stage_steps :: "stage_state \<Rightarrow> stage_state \<Rightarrow> bool" where
  "stage_steps \<equiv> stage_step\<^sup>*\<^sup>*"

lemma finish_after_same:
  assumes "FinishOrProceed now t' w1 = Inr w2" and "same_tasks w w1" and "task_abs t' = task_abs t"
  shows "stage_steps (stages_of (add_mset t M) w) (stages_of M w2)"
proof -
  have "stages_of (add_mset t M) w = stages_of (add_mset t' M) w1"
    using same_tasks_stages [OF assms(2)] stages_of_abs [of "add_mset t M" "add_mset t' M"] assms(3) by simp
  then show ?thesis using FinishOrProceed_step [OF assms(1), of M] by simp
qed

lemma on_task_steps:
  assumes "on_task le qt body w = Inr w'"
    and "\<And>t w1 w2. body t w1 = Inr w2 \<Longrightarrow> stage_steps (stages_of {#t#} w1) (stages_of {#} w2)"
  shows "stage_steps (stages_of {#} w) (stages_of {#} w')"
proof -
  obtain ot w1 where t: "take_task le qt w = Inr (ot, w1)"
    and b: "(case ot of None \<Rightarrow> Inr w1 | Some t \<Rightarrow> body t w1) = Inr w'"
    using assms(1) by (auto simp: on_task_def res_simps)
  note tk = take_task_stages [OF t, of "{#}"]
  show ?thesis
  proof (cases ot)
    case None
    then show ?thesis using tk b by simp
  next
    case (Some t)
    then show ?thesis using tk b assms(2) [of t w1 w'] by simp
  qed
qed

lemma encode_key_same: "encode_key os k len w = Inr (kv, w1) \<Longrightarrow> same_tasks w w1"
  by (auto simp: encode_key_def res_simps)

lemma signal_root_same [simp]: "same_tasks w (signal_root c m w)"
  by (simp add: signal_root_def)

lemma signal_all_same [simp]: "same_tasks w (signal_all c m w)"
  unfolding signal_all_def by (rule same_tasks_intros) auto

lemma post_calls_same: "post_calls t op x rank cs unit spl w = Inr w' \<Longrightarrow> same_tasks w w'"
  by (cases spl) (auto simp: post_calls_def Let_def res_simps reduce_calls_def broadcast_calls_def
      intro!: same_tasks_intros(8) split: if_splits)

lemma PostNcclCalls_same: "PostNcclCalls t op w = Inr w' \<Longrightarrow> same_tasks w w'"
  by (auto simp: PostNcclCalls_def res_simps split: option.splits dest!: post_calls_same)

lemma queue_reset_same: "queue_reset q k n w = Inr w' \<Longrightarrow> same_tasks w w'"
  by (auto simp: queue_reset_def split: option.splits)

lemma CopyHost2Device_same: "CopyHost2Device t w = Inr w' \<Longrightarrow> same_tasks w w'"
  by (auto simp: CopyHost2Device_def res_simps Let_def split: option.splits if_splits)

lemma store_pull_lens_same [simp]: "same_tasks w (store_pull_lens le k w)"
  by (simp add: store_pull_lens_def split: option.split)

lemma reduce_slice_same: "reduce_slice t w = Inr w' \<Longrightarrow> same_tasks w w'"
  by (auto simp: reduce_slice_def res_simps Let_def case_prod_beta split: if_splits)

lemma pending_stages:
  "stages_of M (w\<lparr>w_pending := w_pending w @ [f]\<rparr>) = stages_of (add_mset (closure_task f) M) w"
  by (simp add: stages_of_def in_flight_def queued_def pipeline_tasks_def closures_def callbacks_def)

lemma pool_enqueue_stages:
  "pool_enqueue f w = Inr w' \<Longrightarrow> stages_of M w' = stages_of (add_mset (closure_task f) M) w"
  by (auto simp: pool_enqueue_def stages_of_def in_flight_def queued_def pipeline_tasks_def closures_def
      callbacks_def split: option.splits)

lemma coordinate_steps:
  "RunCoordinateLoopOnce le op w = Inr w' \<Longrightarrow> stage_steps (stages_of {#} w) (stages_of {#} w')"
proof -
  assume a: "RunCoordinateLoopOnce le op w = Inr w'"
  define body where "body t w1 = rbind (FinishOrProceed (le_now le) t w1) (\<lambda>w2.
      rbind (coordinate_signal op w2 (get_nccl w2)) (\<lambda>(sig, c).
        check (w_local_rank w2 \<noteq> comm_root c) (CheckFailed ''only non-root device'')
          (let w3 = signal_root c \<lparr>msg_src = w_local_rank w2, msg_signal = sig, msg_key = te_key t\<rparr> w2
           in check (te_name t \<noteq> []) (CheckFailed ''tensor_name'') (Inr w3))))" for t w1
  have "on_task le op body w = Inr w'"
    using a unfolding RunCoordinateLoopOnce_def on_task_def body_def .
  then show ?thesis
  proof (rule on_task_steps)
    fix t w1 w3 assume "body t w1 = Inr w3"
    then obtain w2 where f: "FinishOrProceed (le_now le) t w1 = Inr w2" and "same_tasks w2 w3"
      by (auto simp: body_def res_simps Let_def)
    then show "stage_steps (stages_of {#t#} w1) (stages_of {#} w3)"
      using finish_after_same [OF f, of w1 t "{#}"] same_tasks_stages by simp
  qed
qed

lemma copy_device_to_host_steps:
  "copy_device_to_host le t w = Inr w' \<Longrightarrow> stage_steps (stages_of {#t#} w) (stages_of {#} w')"
  by (auto simp: copy_device_to_host_def res_simps split: option.splits if_splits intro: finish_after_same)

lemma pcie_reduce_steps:
  assumes "pcie_reduce le t w = Inr w'"
  shows "stage_steps (stages_of {#t#} w) (stages_of {#} w')"
proof -
  obtain w1 where f: "FinishOrProceed (le_now le) t w1 = Inr w'" and s: "same_tasks w w1"
    using assms by (auto simp: pcie_reduce_def res_simps split: option.splits if_splits dest: reduce_slice_same)
  show ?thesis by (rule finish_after_same [OF f s refl])
qed

lemma copy_to_device_steps:
  "rbind (CopyHost2Device t w) (FinishOrProceed now t) = Inr w' \<Longrightarrow>
     stage_steps (stages_of {#t#} w) (stages_of {#} w')"
  by (auto simp: res_simps intro: finish_after_same dest: CopyHost2Device_same)

lemma copy_host_to_device_root_steps:
  assumes "copy_host_to_device_root le t w = Inr w'"
  shows "stage_steps (stages_of {#t#} w) (stages_of {#} w')"
proof -
  obtain w1 where c: "rbind (CopyHost2Device t w1) (FinishOrProceed (le_now le) t) = Inr w'" and s: "same_tasks w w1"
    using assms by (auto simp: copy_host_to_device_root_def res_simps split: option.splits if_splits)
  show ?thesis using copy_to_device_steps [OF c] same_tasks_stages [OF s] by simp
qed

lemma spawn_steps:
  "spawn_compress t w = Inr w' \<Longrightarrow> stage_steps (stages_of {#t#} w) (stages_of {#} w')"
  "spawn_decompress t w = Inr w' \<Longrightarrow> stage_steps (stages_of {#t#} w) (stages_of {#} w')"
  by (auto simp: spawn_compress_def spawn_decompress_def res_simps dest: pool_enqueue_stages [where M = "{#}"])

lemma task_abs_compressed [simp]: "task_abs (t\<lparr>te_compressed := z\<rparr>) = task_abs t"
  by (simp add: task_abs_def)

lemma compress_job_steps:
  assumes "compress_job le t w = Inr w'"
  shows "stage_steps (stages_of {#t#} w) (stages_of {#} w')"
proof -
  obtain z e q w1 where f: "FinishOrProceed (le_now le) (t\<lparr>te_compressed := Some z\<rparr>) w1 = Inr w'"
    and r: "queue_reset q (te_key t) (w_local_size w - 1) (emit e w) = Inr w1" and e: "callback_of e = None"
    using assms by (auto simp: compress_job_def res_simps Let_def split: option.splits)
  have "same_tasks w w1"
    using same_tasks_trans [OF same_tasks_intros(7) [OF e] queue_reset_same [OF r]] .
  then show ?thesis by (rule finish_after_same [OF f]) simp
qed

lemma decompress_job_steps:
  assumes "decompress_job le t w = Inr w'"
  shows "stage_steps (stages_of {#t#} w) (stages_of {#} w')"
proof -
  obtain kv w1 e where f: "FinishOrProceed (le_now le) t (emit e w1) = Inr w'"
    and k: "encode_key (le_os le) (te_key t) 0 w = Inr (kv, w1)" and e: "callback_of e = None"
    using assms by (auto simp: decompress_job_def res_simps split: option.splits)
  have "same_tasks w (emit e w1)"
    using same_tasks_trans [OF encode_key_same [OF k] same_tasks_intros(7) [OF e]] .
  then show ?thesis by (rule finish_after_same [OF f]) simp
qed

lemma request_stages:
  assumes "encode_key os k len w = Inr (kv, w1)" and "callback_of e = None"
    and "w' = (emit e w1)\<lparr>w_pending := w_pending w1 @ [f]\<rparr>" and "task_abs (closure_task f) = task_abs t"
  shows "stages_of {#} w' = stages_of {#t#} w"
proof -
  have "same_tasks w (emit e w1)"
    using same_tasks_trans [OF encode_key_same [OF assms(1)] same_tasks_intros(7) [OF assms(2)]] .
  moreover have "w' = (emit e w1)\<lparr>w_pending := w_pending (emit e w1) @ [f]\<rparr>"
    using assms(3) by (simp add: emit_def)
  ultimately have "stages_of {#} w' = stages_of {#closure_task f#} w"
    using pending_stages [of "{#}" "emit e w1" f] same_tasks_stages by simp
  then show ?thesis using stages_of_abs [of "{#closure_task f#}" "{#t#}"] assms(4) by simp
qed

lemma push_task_steps:
  assumes "push_task le t w = Inr w'"
  shows "stage_steps (stages_of {#t#} w) (stages_of {#} w')"
proof (cases "w_is_distributed w")
  case True
  obtain data len where p: "push_payload t = (data, len)" by (cases "push_payload t")
  obtain x where x: "the_tensor (te_tensor t) = Inr x"
    using assms True p by (auto simp: push_task_def res_simps Let_def)
  obtain kv w1 where k: "encode_key (le_os le) (te_key t) (ucast len) w = Inr (kv, w1)"
    using assms True p by (auto simp: push_task_def res_simps Let_def)
  have w': "w' = (emit (ZPush (kv_keys kv) data (int (unat len)) (kv_lens kv)
        (GetCommandType kDefaultPushPull (data_type_value (tensor_dtype x)))) w1)
      \<lparr>w_pending := w_pending w1 @ [PushDone (t\<lparr>te_compressed := None\<rparr>)]\<rparr>"
    using assms True p x k by (simp add: push_task_def res_simps Let_def)
  show ?thesis using request_stages [OF k _ w'] by simp
next
  case False
  then show ?thesis using assms by (auto simp: push_task_def res_simps intro: finish_after_same)
qed

lemma pull_task_steps:
  assumes "pull_task le t w = Inr w'"
  shows "stage_steps (stages_of {#t#} w) (stages_of {#} w')"
proof -
  obtain x where x: "the_tensor (te_output t) = Inr x"
    using assms by (auto simp: pull_task_def res_simps Let_def)
  obtain kv w1 where k: "encode_key (le_os le) (te_key t) (ucast (te_len t)) w = Inr (kv, w1)"
    using assms by (auto simp: pull_task_def res_simps Let_def)
  have w': "w' = (emit (ZPull (kv_keys kv) (address (te_cpubuff t) + int (unat (te_offset t)))
        (int (unat (te_len t))) (kv_lens kv)
        (GetCommandType kDefaultPushPull (data_type_value (tensor_dtype x)))) w1)
      \<lparr>w_pending := w_pending w1 @ [PullDone t]\<rparr>"
    using assms x k by (simp add: pull_task_def res_simps Let_def)
  show ?thesis using request_stages [OF k _ w'] by simp
qed

lemma run_closure_steps:
  assumes "run_closure le f w = Inr w'"
  shows "stage_steps (stages_of {#closure_task f#} w) (stages_of {#} w')"
  using assms by (cases f)
    (auto simp: run_closure_def intro: finish_after_same compress_job_steps decompress_job_steps)

text \<open>The groups of NCCL calls.\<close>

lemma nccl_stages:
  assumes "w_nccl w = Some nm" and "nm_pipeline nm' = nm_pipeline nm @ [g]"
  shows "stages_of M (w\<lparr>w_nccl := Some nm'\<rparr>) = stages_of (mset (g_tasks g) + M) w"
  using assms by (simp add: stages_of_def in_flight_def queued_def pipeline_tasks_def closures_def callbacks_def)

lemma post_as_root_same: "post_as_root nm t op w = Inr w' \<Longrightarrow> same_tasks w w'"
  by (auto simp: post_as_root_def split: if_splits dest!: PostNcclCalls_same intro: same_tasks_trans [OF signal_all_same])

lemma root_group_stages:
  "root_group le nm op n g w = Inr (g', w') \<Longrightarrow>
     stages_of (mset (g_tasks g')) w' = stages_of (mset (g_tasks g)) w"
proof (induction n arbitrary: g w)
  case (Suc n)
  then obtain ot w1 where t: "take_task le op w = Inr (ot, w1)"
    and r: "(case ot of None \<Rightarrow> Inr (g, w1) | Some t \<Rightarrow> rbind (post_as_root nm t op w1) (\<lambda>w2.
        root_group le nm op n (g\<lparr>g_tasks := g_tasks g @ [t], g_queues := g_queues g @ [op]\<rparr>) w2)) = Inr (g', w')"
    by (auto simp: res_simps)
  note tk = take_task_stages [OF t, of "mset (g_tasks g)"]
  show ?case
  proof (cases ot)
    case None
    then show ?thesis using tk r by simp
  next
    case (Some t)
    then obtain w2 where p: "post_as_root nm t op w1 = Inr w2"
      and n: "root_group le nm op n (g\<lparr>g_tasks := g_tasks g @ [t], g_queues := g_queues g @ [op]\<rparr>) w2 = Inr (g', w')"
      using r by (auto simp: res_simps)
    show ?thesis using Suc.IH [OF n] same_tasks_stages [OF post_as_root_same [OF p]] tk Some by simp
  qed
qed simp

lemma follow_group_stages:
  "follow_group le nm ess g w = Inr (fin, g', w') \<Longrightarrow>
     stages_of (mset (g_tasks g')) w' = stages_of (mset (g_tasks g)) w"
proof (induction ess arbitrary: g w)
  case (Cons es ess)
  then obtain r where r: "recvSignalFromRoot (nm_signal nm) es 16 = Inr r" by (auto simp: res_simps)
  show ?case
  proof (cases "\<exists>rc m. r = Some (rc, Some m) \<and> msg_signal m \<noteq> DO_GROUP")
    case False
    then show ?thesis using Cons.prems r by (auto split: option.splits prod.splits if_splits)
  next
    case True
    then obtain rc m where m: "r = Some (rc, Some m)" "msg_signal m \<noteq> DO_GROUP" by blast
    define op where "op = (if msg_signal m = DO_BROADCAST then BROADCAST else REDUCE)"
    obtain t w1 w2 where t: "take_task_key le op (msg_key m) w = Inr (Some t, w1)"
      and p: "PostNcclCalls t op w1 = Inr w2"
      and n: "follow_group le nm ess (g\<lparr>g_tasks := g_tasks g @ [t], g_queues := g_queues g @ [op]\<rparr>) w2 =
        Inr (fin, g', w')"
      using Cons.prems r m by (auto simp: res_simps Let_def op_def [symmetric] split: option.splits)
    show ?thesis
      using Cons.IH [OF n] same_tasks_stages [OF PostNcclCalls_same [OF p]]
        take_task_key_stages [OF t, of "mset (g_tasks g)"] by simp
  qed
qed simp

lemma record_loop_tasks: "record_loop st g is = Inr g' \<Longrightarrow> g_tasks g' = g_tasks g"
  by (induction st g "is" rule: record_loop.induct) (auto simp: res_simps)

lemma close_group_stages:
  assumes "close_group g w = Inr w'"
  shows "stages_of {#} w' = stages_of (mset (g_tasks g)) w"
proof -
  obtain nm g' where nm: "w_nccl w = Some nm" and g': "g_tasks g' = g_tasks g"
    and w': "w' = (emit_all (map EventRecord (g_events g')) w)\<lparr>w_nccl := Some (EnqueueGroup nm g')\<rparr>"
    using assms by (auto simp: close_group_def RecordEvents_def get_nccl_def res_simps split: option.splits
        dest: record_loop_tasks)
  let ?w1 = "emit_all (map EventRecord (g_events g')) w"
  have s: "same_tasks w ?w1" by (rule same_tasks_intros) auto
  have "w_nccl ?w1 = Some nm" using nm by (simp add: emit_all_def)
  from nccl_stages [OF this, of "EnqueueGroup nm g'" g' "{#}"] show ?thesis
    using w' g' same_tasks_stages [OF s] by (simp add: EnqueueGroup_def)
qed

lemma finish_all_steps:
  "finish_all now ts w = Inr w' \<Longrightarrow> stage_steps (stages_of (mset ts + M) w) (stages_of M w')"
proof (induction ts arbitrary: w)
  case (Cons t ts)
  then obtain w1 where f: "FinishOrProceed now t w = Inr w1" and r: "finish_all now ts w1 = Inr w'"
    by (auto simp: res_simps)
  show ?case
    using FinishOrProceed_step [OF f, of "mset ts + M"] Cons.IH [OF r] by (simp add: converse_rtranclp_into_rtranclp)
qed simp

lemma nccl_root_turn_steps:
  assumes "RunRootNcclLoopOnce le w = Inr w'"
  shows "stage_steps (stages_of {#} w) (stages_of {#} w')"
proof -
  obtain nm g1 w1 g2 w2 where g1: "root_group le nm REDUCE (nat (GetGroupSize nm)) new_group (emit NcclGroupStart w) = Inr (g1, w1)"
    and g2: "root_group le nm BROADCAST (nat (GetGroupSize nm)) g1 w1 = Inr (g2, w2)"
    and w': "(if g_tasks g2 \<noteq> [] then close_group g2 (emit NcclGroupEnd (signal_all (nm_signal nm)
              \<lparr>msg_src = w_local_rank w, msg_signal = DO_GROUP, msg_key = 0\<rparr> w2))
       else Inr (emit NcclGroupEnd w2)) = Inr w'"
    using assms unfolding RunRootNcclLoopOnce_def by (auto simp: res_simps simp del: if_split)
  have "stages_of {#} (emit NcclGroupStart w) = stages_of {#} w" by (rule same_tasks_stages) simp
  then have s2: "stages_of (mset (g_tasks g2)) w2 = stages_of {#} w"
    using root_group_stages [OF g1] root_group_stages [OF g2] by (simp add: new_group_def)
  show ?thesis
  proof (cases "g_tasks g2 = []")
    case True
    then have "stages_of {#} w' = stages_of {#} w2" using w' by (auto intro: same_tasks_stages)
    then show ?thesis using s2 True by simp
  next
    case False
    then have c: "close_group g2 (emit NcclGroupEnd (signal_all (nm_signal nm)
        \<lparr>msg_src = w_local_rank w, msg_signal = DO_GROUP, msg_key = 0\<rparr> w2)) = Inr w'" using w' by simp
    have "same_tasks w2 (emit NcclGroupEnd (signal_all (nm_signal nm)
        \<lparr>msg_src = w_local_rank w, msg_signal = DO_GROUP, msg_key = 0\<rparr> w2))"
      using same_tasks_trans [OF signal_all_same same_tasks_intros(7)] by simp
    then show ?thesis using close_group_stages [OF c] same_tasks_stages s2 by simp
  qed
qed

lemma nccl_other_turn_steps:
  assumes "RunNonRootNcclLoopOnce le ess w = Inr (True, w')"
  shows "stage_steps (stages_of {#} w) (stages_of {#} w')"
proof -
  obtain nm g w1 where f: "follow_group le nm ess new_group (emit NcclGroupStart w) = Inr (True, g, w1)"
    and c: "close_group g (emit NcclGroupEnd w1) = Inr w'"
    using assms by (auto simp: RunNonRootNcclLoopOnce_def res_simps split: if_splits)
  have "stages_of M (emit NcclGroupStart w) = stages_of M w" "stages_of M (emit NcclGroupEnd w1) = stages_of M w1" for M
    by (rule same_tasks_stages, simp)+
  then show ?thesis
    using follow_group_stages [OF f] close_group_stages [OF c] by (simp add: new_group_def)
qed

lemma sync_turn_steps:
  assumes "RunSyncNcclOnce le w = Inr w'"
  shows "stage_steps (stages_of {#} w) (stages_of {#} w')"
proof -
  obtain nm where nm: "w_nccl w = Some nm"
    using assms by (auto simp: RunSyncNcclOnce_def get_nccl_def split: option.splits)
  show ?thesis
  proof (cases "nm_pipeline nm")
    case Nil
    then show ?thesis using assms nm by (simp add: RunSyncNcclOnce_def get_nccl_def DequeueGroup_def)
  next
    case (Cons g rest)
    let ?nm = "nm\<lparr>nm_pipeline := rest\<rparr>"
    obtain es w1 ds where f: "finish_all (le_now le) (g_tasks g)
        (emit_all (map EventSynchronize es) (w\<lparr>w_nccl := Some ?nm\<rparr>)) = Inr w1"
      and w': "w' = emit_all (map EventDestroy ds) w1"
      using assms nm Cons by (auto simp: RunSyncNcclOnce_def get_nccl_def DequeueGroup_def res_simps)
    have s1: "stages_of M (emit_all (map EventSynchronize es) u) = stages_of M u"
      and s2: "stages_of M (emit_all (map EventDestroy ds) u) = stages_of M u" for M u
      by (rule same_tasks_stages, rule same_tasks_intros, auto)+
    have "stages_of (mset (g_tasks g)) (w\<lparr>w_nccl := Some ?nm\<rparr>) = stages_of {#} w"
      using nm Cons by (simp add: stages_of_def in_flight_def queued_def pipeline_tasks_def closures_def callbacks_def)
    then show ?thesis using finish_all_steps [OF f, of "{#}"] w' by (simp add: s1 s2)
  qed
qed

lemma listen_turn_steps:
  assumes "RunNonRootCopyListenLoopOnce es w = Inr w'"
  shows "stage_steps (stages_of {#} w) (stages_of {#} w')"
proof -
  obtain c r where "w_basic_comm w = Some c" and r: "recvSignalFromRoot c es 16 = Inr r"
    using assms by (cases "w_basic_comm w") (auto simp: RunNonRootCopyListenLoopOnce_def res_simps)
  then have "w' = w \<or> (\<exists>ts. w' = w\<lparr>rts := ts\<rparr>)"
    using assms by (cases r; cases "snd (the r)"; cases "rts w RT_COPY")
      (auto simp: RunNonRootCopyListenLoopOnce_def res_simps case_prod_beta)
  then have "same_tasks w w'" by auto
  then show ?thesis using same_tasks_stages [of w w' "{#}"] by simp
qed

lemma loop_turn_steps:
  assumes "loop_turn f le ess w = Inr w'"
    and "f = NonRootNcclLoop \<Longrightarrow> RunNonRootNcclLoopOnce le ess w = Inr (True, w')"
  shows "stage_steps (stages_of {#} w) (stages_of {#} w')"
proof (cases f)
  case CopyDevice2HostLoop
  then show ?thesis using assms(1) copy_device_to_host_steps
    by (auto simp: loop_turn_def RunCopyDevice2HostLoopOnce_def intro: on_task_steps)
next
  case PcieReduceLoop
  then show ?thesis using assms(1) pcie_reduce_steps
    by (auto simp: loop_turn_def RunPcieReduceLoopOnce_def res_simps intro: on_task_steps)
next
  case CompressLoop
  then show ?thesis using assms(1) spawn_steps(1)
    by (auto simp: loop_turn_def RunCompressLoopOnce_def intro: on_task_steps)
next
  case DecompressLoop
  then show ?thesis using assms(1) spawn_steps(2)
    by (auto simp: loop_turn_def RunDecompressLoopOnce_def intro: on_task_steps)
next
  case PushLoop
  then show ?thesis using assms(1) push_task_steps
    by (auto simp: loop_turn_def RunPushLoopOnce_def intro: on_task_steps)
next
  case PullLoop
  then show ?thesis using assms(1) pull_task_steps
    by (auto simp: loop_turn_def RunPullLoopOnce_def intro: on_task_steps)
next
  case RootCopyHost2DeviceLoop
  then show ?thesis using assms(1) copy_host_to_device_root_steps
    by (auto simp: loop_turn_def RunRootCopyHost2DeviceLoopOnce_def intro: on_task_steps)
next
  case NonRootCopyHost2DeviceLoop
  then show ?thesis using assms(1) copy_to_device_steps
    by (auto simp: loop_turn_def RunNonRootCopyHost2DeviceLoopOnce_def intro: on_task_steps)
qed (use assms in \<open>auto simp: loop_turn_def intro: coordinate_steps nccl_root_turn_steps nccl_other_turn_steps
    sync_turn_steps listen_turn_steps\<close>)

subsection \<open>Runs of a worker\<close>

text \<open>
  The threads of a process in any interleaving: turns of the loops, completions of requests in any
  order, jobs of the pool, and signals that arrive at the root. Runs that shut down are left out
  (a device that stops in the middle of a group drops the group's tasks).
\<close>

inductive worker_step :: "worker \<Rightarrow> worker \<Rightarrow> bool" where
  turn: "loop_turn f le ess w = Inr w' \<Longrightarrow>
    (f = NonRootNcclLoop \<Longrightarrow> RunNonRootNcclLoopOnce le ess w = Inr (True, w')) \<Longrightarrow> worker_step w w'"
| complete: "complete_request le i w = Inr w' \<Longrightarrow> worker_step w w'"
| job: "run_pool_job le w = Inr w' \<Longrightarrow> worker_step w w'"
| signal: "dispatch m (rts w) = Inr ts \<Longrightarrow> worker_step w (w\<lparr>rts := ts\<rparr>)"

lemma complete_request_steps:
  assumes "complete_request le i w = Inr w'"
  shows "stage_steps (stages_of {#} w) (stages_of {#} w')"
proof (cases "i < length (w_pending w)")
  case True
  let ?w1 = "w\<lparr>w_pending := take i (w_pending w) @ drop (Suc i) (w_pending w)\<rparr>"
  have "mset (w_pending w) = mset (take i (w_pending w) @ w_pending w ! i # drop (Suc i) (w_pending w))"
    using True by (simp only: id_take_nth_drop [symmetric])
  then have "stages_of {#closure_task (w_pending w ! i)#} ?w1 = stages_of {#} w"
    by (simp add: stages_of_def in_flight_def queued_def pipeline_tasks_def closures_def callbacks_def)
  then show ?thesis
    using True assms run_closure_steps [of le "w_pending w ! i" ?w1 w'] by (simp add: complete_request_def)
qed (use assms in \<open>simp add: complete_request_def\<close>)

lemma run_pool_job_steps:
  assumes "run_pool_job le w = Inr w'"
  shows "stage_steps (stages_of {#} w) (stages_of {#} w')"
proof (cases "pool_take w")
  case (Some fw)
  obtain f w1 where fw: "fw = (f, w1)" by (cases fw)
  then obtain js where "w_pool w = Some (f # js)" "w1 = w\<lparr>w_pool := Some js\<rparr>"
    using Some by (auto simp: pool_take_def split: option.splits list.splits)
  then have "stages_of {#closure_task f#} w1 = stages_of {#} w"
    by (simp add: stages_of_def in_flight_def queued_def pipeline_tasks_def closures_def callbacks_def)
  then show ?thesis using Some fw assms run_closure_steps [of le f w1 w'] by (simp add: run_pool_job_def)
qed (use assms in \<open>simp add: run_pool_job_def\<close>)

lemma worker_step_steps: "worker_step w w' \<Longrightarrow> stage_steps (stages_of {#} w) (stages_of {#} w')"
proof (induction rule: worker_step.induct)
  case (signal m w ts)
  have "stages_of {#} (w\<lparr>rts := ts\<rparr>) = stages_of {#} w" by (rule same_tasks_stages) simp
  then show ?case by simp
qed (auto intro: loop_turn_steps complete_request_steps run_pool_job_steps)

subsection \<open>What the abstract steps keep\<close>

definition stages_left :: "stage_state \<Rightarrow> nat" where
  "stages_left s = (\<Sum>x \<in># fst s. length (snd x))"

lemma stage_step_left: "stage_step s s' \<Longrightarrow> stages_left s = Suc (stages_left s')"
  by (induction rule: stage_step.induct) (simp_all add: stages_left_def)

lemma stage_steps_left:
  "stage_steps s s' \<Longrightarrow> \<exists>n. (stage_step ^^ n) s s' \<and> stages_left s = stages_left s' + n"
proof (induction rule: rtranclp_induct)
  case base
  then show ?case by (intro exI [of _ 0]) simp
next
  case (step s' s'')
  then obtain n where "(stage_step ^^ n) s s'" "stages_left s = stages_left s' + n" by blast
  then show ?case using step(2) stage_step_left [OF step(2)] by (intro exI [of _ "Suc n"]) auto
qed

definition counter_of :: "task_id \<Rightarrow> nat option" where
  "counter_of g = fst (snd g)"

definition partnum_of :: "task_id \<Rightarrow> u32" where
  "partnum_of g = fst (snd (snd g))"

definition callback_id :: "task_id \<Rightarrow> nat" where
  "callback_id g = snd (snd (snd g))"

text \<open>
  The bookkeeping of one tensor: its counter and its partitions in flight add up to their number,
  and its callback has been made exactly if the counter has reached that number.
\<close>

definition counted :: "nat \<Rightarrow> nat \<Rightarrow> nat \<Rightarrow> stage_state \<Rightarrow> bool" where
  "counted cid n cb s \<longleftrightarrow>
     (\<exists>v. fst (snd s) cid = Some (int v) \<and>
        v + size (filter_mset (\<lambda>x. counter_of (fst x) = Some cid) (fst s)) = n \<and>
        count_list (snd (snd s)) cb = (if v = n then 1 else 0)) \<and>
     (\<forall>x \<in># fst s. (counter_of (fst x) = Some cid \<longleftrightarrow> callback_id (fst x) = cb) \<and>
        (counter_of (fst x) = Some cid \<longrightarrow> partnum_of (fst x) = of_nat n))"

lemma sint_pred:
  assumes "0 < n" and "n < 2 ^ 31"
  shows "sint (of_nat n - 1 :: u32) = int n - 1"
proof -
  obtain m where m: "n = Suc m" using assms(1) by (cases n) simp_all
  then have "(of_nat n - 1 :: u32) = of_nat m" by simp
  moreover have "unat (of_nat m :: u32) = m" using assms(2) m by (intro unat_of_nat_u32) simp
  ultimately show ?thesis using sint_u32_small [of "of_nat m"] assms(2) m by simp
qed

lemma counted_advance:
  assumes "counted cid n cb (add_mset (g, a) T, C, L)"
  shows "counted cid n cb (add_mset (g, b) T, C, L)"
proof -
  have "size (filter_mset (\<lambda>x. counter_of (fst x) = Some cid) (add_mset (g, b) T)) =
      size (filter_mset (\<lambda>x. counter_of (fst x) = Some cid) (add_mset (g, a) T))" by simp
  then show ?thesis using assms unfolding counted_def fst_conv snd_conv by (metis fst_conv insert_iff set_mset_add_mset_insert)
qed

lemma counted_retire_other:
  assumes "counted cid n cb (add_mset ((k, Some cid', n', cb'), ss) T, C, L)" and "cid' \<noteq> cid"
  shows "counted cid n cb (T, C(cid' \<mapsto> v), if c then L @ [cb'] else L)"
proof -
  have "cb' \<noteq> cb" using assms by (simp add: counted_def counter_of_def callback_id_def)
  then show ?thesis using assms by (simp add: counted_def counter_of_def)
qed

lemma counted_retire:
  assumes "counted cid n cb (add_mset ((k, Some cid, n', cb'), ss) T, C, L)"
    and "C cid = Some v" and "0 < n" and "n < 2 ^ 31"
  shows "counted cid n cb (T, C(cid \<mapsto> v + 1), if v = sint (n' - 1) then L @ [cb'] else L)"
proof -
  let ?f = "filter_mset (\<lambda>x. counter_of (fst x) = Some cid) T"
  have same: "cb' = cb" "n' = of_nat n"
    and rest: "\<forall>x \<in># T. (counter_of (fst x) = Some cid \<longleftrightarrow> callback_id (fst x) = cb) \<and>
      (counter_of (fst x) = Some cid \<longrightarrow> partnum_of (fst x) = of_nat n)"
    using assms(1) by (simp_all add: counted_def counter_of_def callback_id_def partnum_of_def)
  have c: "\<exists>u. v = int u \<and> Suc (u + size ?f) = n \<and> count_list L cb = (if u = n then 1 else 0)"
    using assms(1,2) by (simp add: counted_def counter_of_def)
  then obtain u where u: "v = int u" "Suc (u + size ?f) = n" "count_list L cb = (if u = n then 1 else 0)"
    by blast
  have "v = sint (n' - 1) \<longleftrightarrow> v = int n - 1" by (simp only: same sint_pred [OF assms(3,4)])
  also have "\<dots> \<longleftrightarrow> Suc u = n" using u(1) assms(3) by linarith
  finally have last: "v = sint (n' - 1) \<longleftrightarrow> Suc u = n" .
  have "count_list L cb = 0" using u(2,3) by simp
  then have "count_list (if v = sint (n' - 1) then L @ [cb'] else L) cb = (if Suc u = n then 1 else 0)"
    unfolding last by (simp add: same(1))
  moreover have "(C(cid \<mapsto> v + 1)) cid = Some (int (Suc u))" using u(1) by simp
  moreover have "Suc u + size ?f = n" using u(2) by simp
  ultimately show ?thesis unfolding counted_def fst_conv snd_conv using rest by (intro conjI exI [of _ "Suc u"])
qed

lemma counted_step:
  "stage_step s s' \<Longrightarrow> counted cid n cb s \<Longrightarrow> 0 < n \<Longrightarrow> n < 2 ^ 31 \<Longrightarrow> counted cid n cb s'"
proof (induction rule: stage_step.induct)
  case (advance g x x' ss T C L)
  then show ?case by (blast intro: counted_advance)
next
  case (retire C cid' v k n' cb' x T L)
  then show ?case by (cases "cid' = cid") (blast intro: counted_retire, blast intro: counted_retire_other)
qed

lemma counted_steps:
  "stage_steps s s' \<Longrightarrow> counted cid n cb s \<Longrightarrow> 0 < n \<Longrightarrow> n < 2 ^ 31 \<Longrightarrow> counted cid n cb s'"
  by (induction rule: rtranclp_induct) (auto intro: counted_step)

lemma stage_step_tasks:
  "stage_step s s' \<Longrightarrow> x' \<in># fst s' \<Longrightarrow> \<exists>x \<in># fst s. fst x = fst x' \<and> suffix (snd x') (snd x)"
  by (induction rule: stage_step.induct) (auto intro: suffix_ConsI)

lemma stage_steps_tasks:
  "stage_steps s s' \<Longrightarrow> x' \<in># fst s' \<Longrightarrow> \<exists>x \<in># fst s. fst x = fst x' \<and> suffix (snd x') (snd x)"
proof (induction arbitrary: x' rule: rtranclp_induct)
  case (step s' s'')
  obtain x1 where x1: "x1 \<in># fst s'" "fst x1 = fst x'" "suffix (snd x') (snd x1)"
    using stage_step_tasks [OF step(2,4)] by blast
  obtain x where x: "x \<in># fst s" "fst x = fst x1" "suffix (snd x1) (snd x)"
    using step.IH [OF x1(1)] by blast
  have "suffix (snd x') (snd x)" by (rule suffix_order.trans [OF x1(3) x(3)])
  then show ?case using x(1,2) x1(2) by (intro bexI [of _ x]) simp_all
qed auto

lemma worker_run_steps: "worker_step\<^sup>*\<^sup>* w w' \<Longrightarrow> stage_steps (stages_of {#} w) (stages_of {#} w')"
  by (induction rule: rtranclp_induct) (auto dest: worker_step_steps)


lemma counted_stages_of:
  "counted cid n cb (stages_of {#} w) \<longleftrightarrow>
     (\<exists>v. w_counters w cid = Some (int v) \<and>
        v + size (filter_mset (\<lambda>t. te_counter t = Some cid) (in_flight w)) = n \<and>
        count_list (callbacks w) cb = (if v = n then 1 else 0)) \<and>
     (\<forall>t \<in># in_flight w. (te_counter t = Some cid \<longleftrightarrow> te_callback t = cb) \<and>
        (te_counter t = Some cid \<longrightarrow> te_total_partnum t = of_nat n))"
proof -
  have "size (filter_mset (\<lambda>x. counter_of (fst x) = Some cid) (image_mset task_abs M)) =
      size (filter_mset (\<lambda>t. te_counter t = Some cid) M)" for M
    by (induction M) (simp_all add: task_abs_def counter_of_def)
  then show ?thesis
    by (simp add: counted_def stages_of_def task_abs_def counter_of_def callback_id_def partnum_of_def)
qed

subsection \<open>A worker that is about to finish\<close>

definition demo_last :: tte where
  "demo_last = (demo_entry 0)\<lparr>te_queue_list := [PUSH]\<rparr>"

definition demo_pushed :: worker where
  "demo_pushed = initial_worker\<lparr>w_queues := [PUSH \<mapsto> demo_queue []], ctxs := [''t'' \<mapsto> demo_context],
     w_counters := [0 \<mapsto> 0], w_pending := [PushDone demo_last]\<rparr>"

definition demo_env :: loop_env where
  "demo_env = \<lparr>le_ready = (\<lambda>_. True), le_now = 0, le_os = demo_os,
     le_compress = (\<lambda>_ _ _ _. \<lparr>ct_data = 0, ct_size = 0\<rparr>), le_pull_lens = (\<lambda>_ l. l)\<rparr>"

lemma demo_pushed_state:
  "in_flight demo_pushed = {#demo_last#}" "callbacks demo_pushed = []" "w_counters demo_pushed 0 = Some 0"
  by (simp_all add: demo_pushed_def in_flight_def queued_def pipeline_tasks_def closures_def callbacks_def
        initial_worker_def demo_queue_def all_queue_types_def map_filter_def)

text \<open>The worker once the request has completed.\<close>

definition demo_finished :: worker where
  "demo_finished = (case complete_request demo_env 0 demo_pushed of Inr w \<Rightarrow> w | Inl e \<Rightarrow> demo_pushed)"

lemmas demo_finish_defs = demo_finished_def complete_request_def demo_pushed_def demo_last_def demo_env_def
  demo_entry_def demo_tensor_def demo_task_def demo_context_def demo_queue_def initial_worker_def
  run_closure_def FinishOrProceed_def GetScheduledQueue_def set_queue_def reportFinish_def check_sample_def
  record_stage_def finish_partition_def finish_tensor_def record_whole_def count_step_def SetProfileFlag_def
  set_context_def emit_def RecordSpeed_def the_tensor_def i32_def

lemma demo_finish: "complete_request demo_env 0 demo_pushed = Inr demo_finished"
  by (simp add: demo_finish_defs)

lemma demo_finished_state: "in_flight demo_finished = {#}" "callbacks demo_finished = [0]"
  by (simp_all add: demo_finish_defs in_flight_def queued_def pipeline_tasks_def closures_def callbacks_def
        all_queue_types_def map_filter_def)

lemma demo_run: "worker_step\<^sup>*\<^sup>* demo_pushed demo_finished"
  by (rule r_into_rtranclp, rule worker_step.complete [OF demo_finish])

subsection \<open>Properties\<close>

text \<open>
  C4. The background loops implement the abstract pipeline: any run of turns, completed requests,
  pool jobs and received signals is a sequence of abstract steps, as many as the run takes stages
  off the tasks; so the number of stages in flight bounds what the loops can still do to them.
\<close>

theorem worker_refines_stages:
  assumes "worker_step\<^sup>*\<^sup>* w w'"
  shows "\<exists>n. (stage_step ^^ n) (stages_of {#} w) (stages_of {#} w') \<and>
    (\<Sum>t \<in># in_flight w. length (te_queue_list t)) = (\<Sum>t \<in># in_flight w'. length (te_queue_list t)) + n"
proof -
  have "stages_left (stages_of {#} v) = (\<Sum>t \<in># in_flight v. length (te_queue_list t))" for v
    by (simp add: stages_left_def stages_of_def task_abs_def image_mset.compositionality comp_def)
  then show ?thesis using stage_steps_left [OF worker_run_steps [OF assms]] by simp
qed

theorem worker_refines_stages_witness:
  "\<exists>n. (stage_step ^^ n) (stages_of {#} demo_pushed) (stages_of {#} demo_finished) \<and> n = 1"
  using worker_refines_stages [OF demo_run]
  by (simp add: demo_pushed_state demo_finished_state demo_last_def)

text \<open>
  C3. A tensor's callback is made exactly once, and only when its last partition has finished its
  last stage. If all \<open>n\<close> partitions of a tensor are in flight with a counter at zero
  that no other tensor uses, then after any run of the loops the counter is the number of the
  partitions that have left, the callback has not been made while one is in flight, and has been
  made once when there is none.
\<close>

theorem callback_exactly_once:
  assumes "worker_step\<^sup>*\<^sup>* w w'" and "w_counters w cid = Some 0" and "cb \<notin> set (callbacks w)"
    and "size (filter_mset (\<lambda>t. te_counter t = Some cid) (in_flight w)) = n" and "0 < n" and "n < 2 ^ 31"
    and "\<forall>t \<in># in_flight w. (te_counter t = Some cid \<longleftrightarrow> te_callback t = cb) \<and>
      (te_counter t = Some cid \<longrightarrow> te_total_partnum t = of_nat n)"
  shows "\<exists>m. m = size (filter_mset (\<lambda>t. te_counter t = Some cid) (in_flight w')) \<and> m \<le> n \<and>
    w_counters w' cid = Some (int (n - m)) \<and>
    count_list (callbacks w') cb = (if m = 0 then 1 else 0)"
proof -
  have "counted cid n cb (stages_of {#} w)" using assms(2-7) by (simp add: counted_stages_of)
  then have "counted cid n cb (stages_of {#} w')"
    by (rule counted_steps [OF worker_run_steps [OF assms(1)] _ assms(5,6)])
  then show ?thesis unfolding counted_stages_of by auto
qed

theorem callback_exactly_once_witness:
  "w_counters demo_finished 0 = Some 1 \<and> count_list (callbacks demo_finished) 0 = 1"
  using callback_exactly_once [OF demo_run, of 0 0 1]
  by (simp add: demo_pushed_state demo_finished_state demo_last_def demo_entry_def demo_task_def)

text \<open>
  No task is made up, exchanged or sent backwards: every task in flight after a run of the
  loops was in flight before it, with the same key, counter and callback, and the stages left to
  it are the last ones of those it had.
\<close>

theorem stages_in_order:
  assumes "worker_step\<^sup>*\<^sup>* w w'" and "t' \<in># in_flight w'"
  shows "\<exists>t \<in># in_flight w. te_key t = te_key t' \<and> te_counter t = te_counter t' \<and>
    te_callback t = te_callback t' \<and> suffix (te_queue_list t') (te_queue_list t)"
proof -
  have "task_abs t' \<in># fst (stages_of {#} w')" using assms(2) by (simp add: stages_of_def)
  then obtain x where "x \<in># fst (stages_of {#} w)" "fst x = fst (task_abs t')" "suffix (snd (task_abs t')) (snd x)"
    using stage_steps_tasks [OF worker_run_steps [OF assms(1)]] by blast
  then show ?thesis by (auto simp: stages_of_def task_abs_def)
qed

theorem stages_in_order_witness:
  "\<exists>t \<in># in_flight demo_pushed. te_key t = te_key demo_last \<and> suffix (te_queue_list demo_last) (te_queue_list t)"
  using stages_in_order [of demo_pushed demo_pushed demo_last] by (auto simp: demo_pushed_state)

end
