(* ===== verification/Loop_Slices.thy ===== *)
theory Loop_Slices
  imports Core_Loops
begin

section \<open>The slices of the GPUs of a switch\<close>

text \<open>
  How a task's bytes are divided among the GPUs of a PCIe switch: what each copies to the host,
  and what the NCCL calls leave reduced in its memory.
\<close>

text \<open>
  Where the reduced values of an NCCL call end up on a rank: a reduce-scatter fills the receive
  buffer of every rank, a reduce only that of the root.
\<close>

definition bytes :: "int \<Rightarrow> int \<Rightarrow> int set" where
  "bytes a n = {a..<a + n}"

fun reduced_bytes :: "int \<Rightarrow> nat \<Rightarrow> effect \<Rightarrow> int set" where
  "reduced_bytes rank unit (NcclReduceScatter src dst n dt c st) = bytes dst (n * int unit)"
| "reduced_bytes rank unit (NcclReduce src dst n dt rt c st) = (if rt = rank then bytes dst (n * int unit) else {})"
| "reduced_bytes rank unit _ = {}"

text \<open>The first byte of a rank's slice, for \<open>S\<close> ranks and \<open>len\<close> bytes in elements of \<open>u\<close>.\<close>

definition slice_start :: "nat \<Rightarrow> nat \<Rightarrow> nat \<Rightarrow> nat \<Rightarrow> nat" where
  "slice_start S u len r = (if r = S then len else r * (len div S div u) * u)"

lemma slice_elems:
  assumes "0 < S" and "0 < u" and "u dvd (len :: nat)"
  shows "S * (len div S div u) \<le> len div u"
    and "len = S * (len div S div u) * u + (len div u - S * (len div S div u)) * u"
proof -
  have "S * (len div S div u) = S * (len div u div S)" by (simp add: div_mult2_eq [symmetric] mult.commute)
  also have "\<dots> \<le> len div u" by simp
  finally show le: "S * (len div S div u) \<le> len div u" .
  have "len = len div u * u" using assms(3) by simp
  also have "\<dots> = S * (len div S div u) * u + (len div u - S * (len div S div u)) * u"
    using le by (simp add: algebra_simps flip: add_mult_distrib)
  finally show "len = S * (len div S div u) * u + (len div u - S * (len div S div u)) * u" .
qed

lemma slice_start_mono:
  assumes "0 < S" and "0 < u" and "u dvd len" and "r \<le> s" and "s \<le> S"
  shows "slice_start S u len r \<le> slice_start S u len s"
proof (cases "s = S")
  case True
  have "r * (len div S div u) * u \<le> S * (len div S div u) * u" using assms(4,5) by simp
  also have "\<dots> \<le> len" using slice_elems(2) [OF assms(1-3)] by linarith
  finally show ?thesis using True by (simp add: slice_start_def)
next
  case False
  then show ?thesis using assms by (simp add: slice_start_def)
qed

lemma copy_slice_last:
  assumes "len = S * q * u + l * u" and "S = Suc r"
  shows "q * u + l * u = len - r * q * u"
  using assms by (simp add: algebra_simps)

lemma copy_slice_eq:
  "copy_slice groot rank u num left =
    (nat rank * num * u, num * u + (if groot = rank then left * u else 0))"
  by (simp add: copy_slice_def)

lemma copy_slice_start:
  assumes "0 < u" and "u dvd len" and "r < S"
  shows "copy_slice (int S - 1) (int r) u (len div S div u) (len div u - len div S div u * S) =
    (slice_start S u len r, slice_start S u len (Suc r) - slice_start S u len r)"
proof (cases "Suc r = S")
  case True
  then have "0 < S" "int S - 1 = int r" by auto
  moreover have "len div S div u * u + (len div u - len div S div u * S) * u = len - r * (len div S div u) * u"
    using slice_elems(2) [OF \<open>0 < S\<close> assms(1,2)] True by (intro copy_slice_last [of _ S]) (simp_all add: mult.commute)
  ultimately show ?thesis using True by (simp add: copy_slice_eq slice_start_def)
next
  case False
  then have "int S - 1 \<noteq> int r" by linarith
  then show ?thesis using False assms by (simp add: copy_slice_eq slice_start_def algebra_simps)
qed

lemma bytes_append: "0 \<le> m \<Longrightarrow> 0 \<le> n \<Longrightarrow> bytes a m \<union> bytes (a + m) n = bytes a (m + n)"
  by (auto simp: bytes_def)

text \<open>
  The slices the GPUs of a switch copy, to the host after a reduction and back before a
  broadcast, tile the task's bytes: the ranks' slices follow each other, the first starts at 0,
  the last ends at the length, whatever the number of ranks and however the elements divide.
\<close>

theorem slices_tile:
  assumes "unit_length x = Inr u" and "0 < u" and "u dvd len"
    and "nm_size nm = int S" and "nm_pcie_size nm = S" and "0 < S" and "S < 2 ^ 31"
    and "\<not> w_using_reduce w"
  shows "\<exists>start. start 0 = 0 \<and> start S = len \<and> (\<forall>r < S. start r \<le> start (Suc r)) \<and>
    (\<forall>r < S. copy_range (w\<lparr>w_local_rank := int r\<rparr>) nm op key x len =
       Inr (start r, start (Suc r) - start r))"
proof (intro exI [of _ "slice_start S u len"] conjI allI impI)
  fix r assume r: "r < S"
  then show "slice_start S u len r \<le> slice_start S u len (Suc r)"
    using slice_start_mono [OF assms(6,2,3), of r "Suc r"] by simp
  have "size_t_of (int r) = r" using r assms(7) by (simp add: size_t_of_def)
  then show "copy_range (w\<lparr>w_local_rank := int r\<rparr>) nm op key x len =
      Inr (slice_start S u len r, slice_start S u len (Suc r) - slice_start S u len r)"
    using assms r copy_slice_start [OF assms(2,3) r]
    by (simp add: copy_range_def split_elems_def GetRoot_def GetRank_def Let_def)
qed (use assms(6) in \<open>simp_all add: slice_start_def\<close>)

definition demo_switch :: nccl_manager where
  "demo_switch = \<lparr>nm_group_size = 4, nm_pcie_size = 4, nm_pcie_num = 1, nm_num_rings = 1, nm_size = 4,
     nm_pipeline = [], nm_signal = demo_comm 3 0, nm_rings = []\<rparr>"

definition demo_floats :: tensor where
  "demo_floats = \<lparr>tensor_id = 1, tensor_dtype = BYTEPS_FLOAT32, tensor_shp = [10], tensor_data = 4096, tensor_size = 40\<rparr>"

lemma demo_floats_unit: "unit_length demo_floats = Inr 4"
  by (simp add: demo_floats_def unit_length_def num_elements_def i64_def)

theorem slices_tile_witness:
  "\<exists>start :: nat \<Rightarrow> nat. start 0 = 0 \<and> start 4 = 40 \<and>
    copy_range (initial_worker\<lparr>w_local_rank := 3\<rparr>) demo_switch REDUCE 0 demo_floats 40 =
      Inr (start 3, start 4 - start 3)"
proof -
  obtain start where s: "start 0 = 0" "start 4 = 40"
    "\<forall>r < 4. copy_range (initial_worker\<lparr>w_local_rank := int r\<rparr>) demo_switch REDUCE 0 demo_floats 40 =
       Inr (start r, start (Suc r) - start r)"
    using slices_tile [OF demo_floats_unit, of 40 demo_switch 4 initial_worker REDUCE 0]
    by (auto simp: demo_switch_def initial_worker_def)
  then show ?thesis using s(1,2) spec [OF s(3), of 3] by (intro exI [of _ start]) simp
qed

lemma reduce_calls_bytes:
  assumes "len = S * q * u + l * u" and "r < S"
  shows "(\<Union>e \<in> set (reduce_calls cs p out dt (int S - 1) (int r) len u q l). reduced_bytes (int r) u e) =
    bytes (out + int (r * q * u)) (int (q * u + (if int S - 1 = int r then l * u else 0)))"
proof -
  have *: "(\<Union>e \<in> set (reduce_calls cs p out dt (int S - 1) (int r) len u q l). reduced_bytes (int r) u e) =
      bytes (out + int (r * q * u)) (int (q * u)) \<union>
      (if int S - 1 = int r then bytes (out + int len - int (l * u)) (int (l * u)) else {})"
    by (auto simp: reduce_calls_def bytes_def algebra_simps)
  show ?thesis
  proof (cases "int S - 1 = int r")
    case True
    then have "S = Suc r" by linarith
    then have "out + int len - int (l * u) = out + int (r * q * u) + int (q * u)"
      unfolding assms(1) by (simp add: algebra_simps)
    then show ?thesis
      unfolding * using True bytes_append [of "int (q * u)" "int (l * u)" "out + int (r * q * u)"]
      by (simp only: if_True of_nat_add of_nat_0_le_iff simp_thms)
  qed (simp add: *)
qed

text \<open>
  What a GPU copies to the host after a reduction is what the reduction left there: the bytes
  in which the NCCL calls of its rank put reduced values are, as offsets into the output, exactly
  the bytes of the slice it copies, for every rank.
\<close>

theorem reduced_slice_is_copied:
  assumes "unit_length x = Inr u" and "0 < u" and "u dvd len"
    and "nm_size nm = int S" and "nm_pcie_size nm = S" and "0 < S" and "S < 2 ^ 31"
    and "\<not> w_using_reduce w" and "r < S" and "w_local_rank w = int r"
  shows "\<exists>groot num left off n. nccl_split w nm REDUCE key u len = Inr (groot, num, left) \<and>
    copy_range w nm REDUCE key x len = Inr (off, n) \<and>
    (\<Union>e \<in> set (reduce_calls cs p out dt groot (GetRank nm (w_local_rank w) key REDUCE) len u num left).
       reduced_bytes (int r) u e) = bytes (out + int off) (int n)"
proof -
  let ?num = "len div S div u"
  let ?left = "len div u - ?num * S"
  have sz: "size_t_of (int r) = r" using assms(7,9) by (simp add: size_t_of_def)
  then have rank: "GetRank nm (w_local_rank w) key REDUCE = int r" using assms by (simp add: GetRank_def)
  have split: "nccl_split w nm REDUCE key u len = Inr (int S - 1, ?num, ?left)"
    using assms by (simp add: nccl_split_def split_elems_def GetRoot_def Let_def)
  have copy: "copy_range w nm REDUCE key x len = Inr (copy_slice (int S - 1) (int r) u ?num ?left)"
    using assms rank by (simp add: copy_range_def split_elems_def GetRoot_def Let_def)
  have len: "len = S * ?num * u + ?left * u"
    using slice_elems(2) [OF assms(6,2,3)] by (simp add: mult.commute)
  show ?thesis
    using split copy rank reduce_calls_bytes [OF len assms(9), of cs p out dt]
    by (simp add: copy_slice_eq)
qed

theorem reduced_slice_is_copied_witness:
  "\<exists>off n. copy_range (initial_worker\<lparr>w_local_rank := 3\<rparr>) demo_switch REDUCE 0 demo_floats 40 = Inr (off, n) \<and>
    (\<Union>e \<in> set (reduce_calls (0, 0) 0 1000 (getNcclDataType BYTEPS_FLOAT32) 3 3 40 4 2 2). reduced_bytes 3 4 e) =
      bytes (1000 + int off) (int n)"
  using reduced_slice_is_copied [OF demo_floats_unit, of 40 demo_switch 4 "initial_worker\<lparr>w_local_rank := 3\<rparr>" 3 0
      "(0, 0)" 0 1000 "getNcclDataType BYTEPS_FLOAT32"]
  by (auto simp: demo_switch_def initial_worker_def nccl_split_def split_elems_def GetRoot_def GetRank_def
        size_t_of_def)

end
