(* ===== verification/Compressor_Base.thy ===== *)
theory Compressor_Base
  imports Cpu_Reducer
begin

section \<open>The common part of the compressors\<close>

text \<open>
  Models \<open>deep_inc/common/compressor/compressor.h\<close> and \<open>common.h\<close>, and the half precision type of
  \<open>deep_inc/common/half.h\<close>. Memory is a list of bytes; an element is the bit pattern of a scalar.
  What IEEE 754 fixes of a bit pattern (sign, magnitude, NaN, order of magnitudes) is written out;
  the rounded operations are those of the record of float operations.
\<close>

subsection \<open>Half precision in mshadow\<close>

text \<open>
  The constants of the class: the bit patterns of the \<open>float\<close>s at which the conversion changes, the
  same shifted down to half precision, and the distances between the ranges. The build defines
  neither CUDA halves nor F16C, and rounds to nearest.
\<close>

definition fp32FractionBits :: nat where "fp32FractionBits = 23"
definition fp16FractionBits :: nat where "fp16FractionBits = 10"
definition fp32FractionMask :: u32 where "fp32FractionMask = NOT (push_bit fp32FractionBits (NOT 0))"
definition fp32HiddenBit :: u32 where "fp32HiddenBit = push_bit fp32FractionBits 1"
definition half_shift :: nat where "half_shift = fp32FractionBits - fp16FractionBits"
definition shiftSign :: nat where "shiftSign = 16"
definition expAdjust :: u32 where "expAdjust = 127 - 15"
definition infN :: u32 where "infN = 0x7F800000"
definition maxN :: u32 where "maxN = 0x477FFFFF"
definition minN :: u32 where "minN = 0x38800000"
definition maxZ :: u32 where "maxZ = 0x33000000"
definition signN :: u32 where "signN = 0x80000000"
definition infC :: u32 where "infC = drop_bit half_shift infN"
definition nanN :: u32 where "nanN = push_bit half_shift (infC + 1)"
definition maxC :: u32 where "maxC = drop_bit half_shift maxN"
definition minC :: u32 where "minC = drop_bit half_shift minN"
definition signC :: u32 where "signC = signed_drop_bit shiftSign signN"
definition mulC :: u32 where "mulC = 0x33800000"
definition subC :: u32 where "subC = 0x003FF"
definition norC :: u32 where "norC = 0x00400"
definition maxD :: u32 where "maxD = infC - maxC - 1"
definition minD :: u32 where "minD = minC - subC - 1"

definition float2half :: "u32 \<Rightarrow> u16" where
  "float2half value =
     (let sign = value AND signN;
          v = value XOR sign;
          v' = (if v \<le> maxZ then 0
                else if v < minN
                then (let exp32 = drop_bit fp32FractionBits v;
                          vshift = 1 - (exp32 - expAdjust);
                          significand = fp32HiddenBit OR (v AND fp32FractionMask);
                          u = drop_bit (unat vshift) significand
                      in u + (if u AND 0x3FFF \<noteq> 0x1000 \<or> significand AND 0x7FF \<noteq> 0 then 0x1000 else 0))
                else if v \<le> maxN
                then v + (if v AND 0x3FFF \<noteq> 0x1000 then 0x1000 else 0) - push_bit fp32FractionBits expAdjust
                else if v \<le> infN then infN
                else if v < nanN then nanN
                else v)
      in ucast (drop_bit shiftSign sign) OR ucast (drop_bit half_shift v' AND 0x7FFF))"

text \<open>The arithmetic on \<open>int32_t\<close> is bitwise; \<open>-(b)\<close> is the mask of all ones when \<open>b\<close> holds.\<close>

definition all_ones :: "bool \<Rightarrow> u32" where
  "all_ones b = (if b then - 1 else 0)"

definition half2float :: "float_ops \<Rightarrow> u16 \<Rightarrow> u32" where
  "half2float fo value =
     (let v0 = ucast value :: u32;
          sign = v0 AND signC;
          v1 = v0 XOR sign;
          v2 = v1 XOR (((v1 + minD) XOR v1) AND all_ones (v1 > subC));
          v3 = v2 XOR (((v2 + maxD) XOR v2) AND all_ones (v2 > maxC));
          s = f32_mul fo mulC (int_to_f32 fo (sint v3));
          mask = all_ones (norC > v3);
          v4 = push_bit half_shift v3;
          v5 = v4 XOR ((s XOR v4) AND mask)
      in v5 OR push_bit shiftSign sign)"

text \<open>The constants evaluated.\<close>

lemma half_constants:
  "fp32FractionBits = 23" "fp16FractionBits = 10" "fp32FractionMask = 0x7FFFFF" "fp32HiddenBit = 0x800000" "half_shift = 13" "shiftSign = 16"
  "expAdjust = 112" "infN = 0x7F800000" "maxN = 0x477FFFFF" "minN = 0x38800000" "maxZ = 0x33000000" "signN = 0x80000000"
  "infC = 0x3FC00" "nanN = 0x7F802000" "maxC = 0x23BFF" "minC = 0x1C400" "signC = 0xFFFF8000" "mulC = 0x33800000"
  "subC = 0x3FF" "norC = 0x400" "maxD = 0x1C000" "minD = 0x1C000"
  by (simp_all add: fp32FractionBits_def fp16FractionBits_def fp32FractionMask_def
    fp32HiddenBit_def half_shift_def shiftSign_def expAdjust_def infN_def maxN_def minN_def maxZ_def
    signN_def infC_def nanN_def maxC_def minC_def signC_def mulC_def subC_def norC_def maxD_def
    minD_def mask_eq_exp_minus_1)

subsection \<open>Scalars\<close>

text \<open>
  What the compressors ask of a scalar of the three floating-point types, on its bit pattern: the
  magnitude, whether it is not a number, \<open>x < 0\<close> and \<open>abs(a) > abs(b)\<close>. A half is compared and
  computed with as the \<open>float\<close> it converts to.
\<close>

definition magnitude :: "nat \<Rightarrow> nat \<Rightarrow> nat" where
  "magnitude w x = x mod 2 ^ (8 * w - 1)"

definition infinity_bits :: "nat \<Rightarrow> nat" where
  "infinity_bits w = (if w = 4 then 0x7F800000 else 0x7FF0000000000000)"

definition is_nan :: "nat \<Rightarrow> nat \<Rightarrow> bool" where
  "is_nan w x \<longleftrightarrow> infinity_bits w < magnitude w x"

definition is_less_0 :: "nat \<Rightarrow> nat \<Rightarrow> bool" where
  "is_less_0 w x \<longleftrightarrow> \<not> is_nan w x \<and> 2 ^ (8 * w - 1) \<le> x \<and> magnitude w x \<noteq> 0"

text \<open>The pattern a scalar is compared as, with its width.\<close>

definition compared_as :: "float_ops \<Rightarrow> data_type \<Rightarrow> nat \<Rightarrow> nat \<times> nat" where
  "compared_as fo dtype x =
     (if dtype = BYTEPS_FLOAT16 then (4, unat (half2float fo (of_nat x)))
      else if dtype = BYTEPS_FLOAT32 then (4, x) else (8, x))"

definition scalar_neg :: "float_ops \<Rightarrow> data_type \<Rightarrow> nat \<Rightarrow> bool" where
  "scalar_neg fo dtype x = (case compared_as fo dtype x of (w, y) \<Rightarrow> is_less_0 w y)"

definition scalar_nan :: "float_ops \<Rightarrow> data_type \<Rightarrow> nat \<Rightarrow> bool" where
  "scalar_nan fo dtype x = (case compared_as fo dtype x of (w, y) \<Rightarrow> is_nan w y)"

definition scalar_mag :: "float_ops \<Rightarrow> data_type \<Rightarrow> nat \<Rightarrow> nat" where
  "scalar_mag fo dtype x = (case compared_as fo dtype x of (w, y) \<Rightarrow> magnitude w y)"

definition scalar_abs_greater :: "float_ops \<Rightarrow> data_type \<Rightarrow> nat \<Rightarrow> nat \<Rightarrow> bool" where
  "scalar_abs_greater fo dtype a b \<longleftrightarrow>
     \<not> scalar_nan fo dtype a \<and> \<not> scalar_nan fo dtype b \<and> scalar_mag fo dtype b < scalar_mag fo dtype a"

text \<open>
  Further operations of the compiler: conversions and \<open>double\<close> arithmetic. A \<open>double\<close> is converted
  from an absolute value; \<open>of_float\<close> assigns a \<open>float\<close> to a scalar.
\<close>

record double_ops = float_ops +
  f32_sub :: "u32 \<Rightarrow> u32 \<Rightarrow> u32"
  f32_div :: "u32 \<Rightarrow> u32 \<Rightarrow> u32"
  f32_floor :: "u32 \<Rightarrow> u32"
  f64_sub :: "u64 \<Rightarrow> u64 \<Rightarrow> u64"
  f64_div :: "u64 \<Rightarrow> u64 \<Rightarrow> u64"
  f64_sqrt :: "u64 \<Rightarrow> u64"
  f64_ceil :: "u64 \<Rightarrow> u64"
  f64_to_f32 :: "u64 \<Rightarrow> u32"
  f64_to_u32 :: "u64 \<Rightarrow> u32 option"
  nat_to_f64 :: "nat \<Rightarrow> u64"
  f64_less :: "u64 \<Rightarrow> u64 \<Rightarrow> bool"

definition ops_of :: "'a float_ops_scheme \<Rightarrow> float_ops" where
  "ops_of fo = float_ops.truncate fo"

definition abs_double :: "double_ops \<Rightarrow> data_type \<Rightarrow> nat \<Rightarrow> u64" where
  "abs_double fo dtype x =
     (let m = scalar_mag (ops_of fo) dtype x
      in if dtype = BYTEPS_FLOAT64 then of_nat m else f32_to_f64 fo (of_nat m))"

definition of_float :: "double_ops \<Rightarrow> data_type \<Rightarrow> u32 \<Rightarrow> nat" where
  "of_float fo dtype f =
     (if dtype = BYTEPS_FLOAT16 then unat (float2half f)
      else if dtype = BYTEPS_FLOAT32 then unat f else unat (f32_to_f64 fo f))"

definition add_float :: "double_ops \<Rightarrow> data_type \<Rightarrow> nat \<Rightarrow> u32 \<Rightarrow> nat" where
  "add_float fo dtype x f =
     (if dtype = BYTEPS_FLOAT16
      then unat (float2half (f32_add fo (half2float (ops_of fo) (of_nat x)) f))
      else if dtype = BYTEPS_FLOAT32 then unat (f32_add fo (of_nat x) f)
      else unat (f64_add fo (of_nat x) (f32_to_f64 fo f)))"

definition sub_float :: "double_ops \<Rightarrow> data_type \<Rightarrow> nat \<Rightarrow> u32 \<Rightarrow> nat" where
  "sub_float fo dtype x f =
     (if dtype = BYTEPS_FLOAT16
      then unat (float2half (f32_sub fo (half2float (ops_of fo) (of_nat x)) f))
      else if dtype = BYTEPS_FLOAT32 then unat (f32_sub fo (of_nat x) f)
      else unat (f64_sub fo (of_nat x) (f32_to_f64 fo f)))"

text \<open>The square in the scalar's own type, as a \<open>double\<close>; the absolute value as a \<open>float\<close>.\<close>

definition square_double :: "double_ops \<Rightarrow> data_type \<Rightarrow> nat \<Rightarrow> u64" where
  "square_double fo dtype x =
     (if dtype = BYTEPS_FLOAT16
      then (let f = half2float (ops_of fo) (of_nat x)
            in f32_to_f64 fo (half2float (ops_of fo) (float2half (f32_mul fo f f))))
      else if dtype = BYTEPS_FLOAT32 then f32_to_f64 fo (f32_mul fo (of_nat x) (of_nat x))
      else f64_mul fo (of_nat x) (of_nat x))"

definition abs_float :: "double_ops \<Rightarrow> data_type \<Rightarrow> nat \<Rightarrow> u32" where
  "abs_float fo dtype x =
     (let m = scalar_mag (ops_of fo) dtype x
      in if dtype = BYTEPS_FLOAT64 then f64_to_f32 fo (of_nat m) else of_nat m)"

definition sign_bit :: "float_ops \<Rightarrow> data_type \<Rightarrow> nat \<Rightarrow> bool" where
  "sign_bit fo dtype x = (case compared_as fo dtype x of (w, y) \<Rightarrow> 2 ^ (8 * w - 1) \<le> y)"

subsection \<open>The class\<close>

text \<open>
  \<open>_size\<close>, \<open>_dtype\<close> and the buffer, whose bytes are not initialised; and the tensor a compressor is
  given or returns. The memory behind a tensor's pointer may be longer than its size.
\<close>

record compressor_base =
  cb_size :: nat
  cb_dtype :: data_type
  cb_buf :: "u8 list"

definition Compressor :: "(nat \<Rightarrow> u8) \<Rightarrow> nat \<Rightarrow> data_type \<Rightarrow> compressor_base" where
  "Compressor fresh n dtype = \<lparr>cb_size = n, cb_dtype = dtype, cb_buf = map fresh [0..<n]\<rparr>"

record bps_tensor =
  bt_data :: "u8 list"
  bt_size :: nat
  bt_dtype :: int

text \<open>
  The type switch shared by the compressors: the three floating-point types go on, with the width
  of their elements.
\<close>

definition impl_switch :: "int \<Rightarrow> (data_type \<Rightarrow> 'a res) \<Rightarrow> 'a res" where
  "impl_switch dtype f =
     (case data_type_of dtype of
        Some BYTEPS_FLOAT16 \<Rightarrow> f BYTEPS_FLOAT16
      | Some BYTEPS_FLOAT32 \<Rightarrow> f BYTEPS_FLOAT32
      | Some BYTEPS_FLOAT64 \<Rightarrow> f BYTEPS_FLOAT64
      | _ \<Rightarrow> Inl (CheckFailed ''Unsupported data type:''))"

definition put_at :: "u8 list \<Rightarrow> nat \<Rightarrow> u8 list \<Rightarrow> u8 list res" where
  "put_at buf off bs =
     (if off + length bs \<le> length buf then Inr (take off buf @ bs @ drop (off + length bs) buf)
      else Inl (Undefined ''buffer overrun''))"

definition get_at :: "u8 list \<Rightarrow> nat \<Rightarrow> nat \<Rightarrow> u8 list res" where
  "get_at buf off n =
     (if off + n \<le> length buf then Inr (take n (drop off buf)) else Inl (Undefined ''buffer overrun''))"

definition put_float :: "u8 list \<Rightarrow> nat \<Rightarrow> u32 \<Rightarrow> u8 list res" where
  "put_float buf off f = put_at buf off (le_bytes 4 (unat f))"

definition get_float :: "u8 list \<Rightarrow> nat \<Rightarrow> u32 res" where
  "get_float buf off = rbind (get_at buf off 4) (\<lambda>bs. Inr (of_nat (le_value bs)))"

text \<open>
  The input of a decompression. On the server the result goes to the compressor's buffer; on a
  worker it replaces the input, which is first copied to the buffer. The memory the result goes to,
  and the place the compressed data is read from, which the same loops then use.
\<close>

definition decompress_src :: "bool \<Rightarrow> compressor_base \<Rightarrow> bps_tensor \<Rightarrow> (compressor_base \<times> u8 list \<times> u8 list) res" where
  "decompress_src server cb t =
     (if server then Inr (cb, cb_buf cb, bt_data t)
      else rbind (get_at (bt_data t) 0 (bt_size t)) (\<lambda>src.
           rbind (put_at (cb_buf cb) 0 src) (\<lambda>buf. Inr (cb\<lparr>cb_buf := buf\<rparr>, bt_data t, buf))))"

definition decompress_dst :: "bool \<Rightarrow> compressor_base \<Rightarrow> u8 list \<Rightarrow> compressor_base \<times> bps_tensor" where
  "decompress_dst server cb out =
     ((if server then cb\<lparr>cb_buf := out\<rparr> else cb), \<lparr>bt_data = out, bt_size = cb_size cb, bt_dtype = 0\<rparr>)"

end
