(* ===== verification/Onebit.thy ===== *)
theory Onebit
  imports Compressor_Base
begin

section \<open>The one-bit compressor\<close>

text \<open>
  Models \<open>deep_inc/common/compressor/impl/onebit.cc\<close>: the signs of the scalars packed into words of
  the scalars' width, most significant bit first, and behind them one \<open>float\<close>, the mean of the
  absolute values or 1. The loops over the chunks are parallel; their iterations write disjoint
  elements, and the model runs them in one order. Lengths are below \<open>2 ^ 31\<close> elements, so the \<open>int\<close>
  indices of the loops are exact.
\<close>

subsection \<open>Compression\<close>

definition packing_size :: "nat \<Rightarrow> nat" where
  "packing_size w = w * 8"

definition chunk_count :: "nat \<Rightarrow> nat \<Rightarrow> nat" where
  "chunk_count P len =
     (let padding_len = (P - len mod P) mod P in (len + padding_len) div P)"

definition pack_chunk :: "float_ops \<Rightarrow> data_type \<Rightarrow> nat \<Rightarrow> u8 list \<Rightarrow> nat \<Rightarrow> nat \<Rightarrow> nat res" where
  "pack_chunk fo dtype w src P i =
     foldl (\<lambda>r j. rbind r (\<lambda>x. rbind (elt w src (i * P + j)) (\<lambda>v.
       Inr (2 * x + of_bool (scalar_neg fo dtype v))))) (Inr 0) [0..<P]"

text \<open>\<open>sum += std::abs(src[i])\<close> in \<open>double\<close>, and the mean as a \<open>float\<close>.\<close>

definition mean_scale :: "double_ops \<Rightarrow> data_type \<Rightarrow> nat \<Rightarrow> u8 list \<Rightarrow> nat \<Rightarrow> u32 res" where
  "mean_scale fo dtype w src len =
     rbind (foldl (\<lambda>r i. rbind r (\<lambda>sum. rbind (elt w src i) (\<lambda>v.
              Inr (f64_add fo sum (abs_double fo dtype v))))) (Inr (f32_to_f64 fo 0)) [0..<len])
       (\<lambda>sum. Inr (f64_to_f32 fo (f64_div fo sum (nat_to_f64 fo len))))"

definition float_one :: u32 where
  "float_one = 0x3F800000"

definition Onebit_CompressImpl :: "double_ops \<Rightarrow> bool \<Rightarrow> data_type \<Rightarrow> u8 list \<Rightarrow> u8 list \<Rightarrow> nat \<Rightarrow>
    (u8 list \<times> nat) res" where
  "Onebit_CompressImpl fo use_scale dtype dst src len =
     (let w = type_width dtype; P = packing_size w; chunk_len = chunk_count P len
      in rbind (if use_scale then mean_scale fo dtype w src len else Inr float_one) (\<lambda>scale.
         rbind (elt_loop w (\<lambda>d. pack_chunk (ops_of fo) dtype w src P) [0..<chunk_len] dst) (\<lambda>dst1.
         rbind (put_float dst1 (chunk_len * w) scale) (\<lambda>dst2.
           Inr (dst2, chunk_len * w + 4)))))"

definition Onebit_Compress :: "double_ops \<Rightarrow> bool \<Rightarrow> compressor_base \<Rightarrow> bps_tensor \<Rightarrow>
    (compressor_base \<times> bps_tensor) res" where
  "Onebit_Compress fo use_scale cb grad =
     impl_switch (bt_dtype grad) (\<lambda>dt.
       rbind (Onebit_CompressImpl fo use_scale dt (cb_buf cb) (bt_data grad) (bt_size grad div type_width dt))
         (\<lambda>(dst, n). Inr (cb\<lparr>cb_buf := dst\<rparr>, \<lparr>bt_data = dst, bt_size = n, bt_dtype = 0\<rparr>)))"

subsection \<open>Decompression\<close>

text \<open>
  \<open>(x & 1) << 1\<close> is read at the position of the element, after the bits of the elements behind it
  in the chunk have been shifted out; \<open>sign\<close> is 1 or \<open>-1\<close>.
\<close>

definition chunk_sign :: "nat \<Rightarrow> nat \<Rightarrow> u8 list \<Rightarrow> nat \<Rightarrow> int res" where
  "chunk_sign w P src k =
     rbind (elt w src (k div P)) (\<lambda>x.
       Inr (1 - 2 * of_bool (odd (x div 2 ^ (P - 1 - k mod P)))))"

definition chunks_in :: "nat \<Rightarrow> nat \<Rightarrow> nat res" where
  "chunks_in w compressed_size =
     check (4 \<le> compressed_size) (Undefined ''size wraps'') (Inr ((compressed_size - 4) div w))"

definition signed_scale :: "double_ops \<Rightarrow> int \<Rightarrow> u32 \<Rightarrow> u32" where
  "signed_scale fo sign scale = f32_mul fo (int_to_f32 fo sign) scale"

definition Onebit_Decompress :: "bool \<Rightarrow> double_ops \<Rightarrow> compressor_base \<Rightarrow> bps_tensor \<Rightarrow>
    (compressor_base \<times> bps_tensor) res" where
  "Onebit_Decompress server fo cb t =
     impl_switch (data_type_value (cb_dtype cb)) (\<lambda>dt.
       let w = type_width dt; P = packing_size w
       in rbind (chunks_in w (bt_size t)) (\<lambda>chunk_len.
          rbind (get_float (bt_data t) (chunk_len * w)) (\<lambda>scale.
          rbind (decompress_src server cb t) (\<lambda>(cb1, dst, src).
          rbind (elt_loop w (\<lambda>d k. rbind (chunk_sign w P src k) (\<lambda>sign.
                    Inr (of_float fo dt (signed_scale fo sign scale)))) (rev [0..<chunk_len * P]) dst) (\<lambda>out.
            Inr (decompress_dst server cb1 out))))))"

text \<open>The error is the corrected gradient plus the scale with the opposite sign.\<close>

definition Onebit_FastUpdateError :: "double_ops \<Rightarrow> compressor_base \<Rightarrow> u8 list \<Rightarrow> u8 list \<Rightarrow> bps_tensor \<Rightarrow>
    u8 list res" where
  "Onebit_FastUpdateError fo cb error corrected t =
     impl_switch (data_type_value (cb_dtype cb)) (\<lambda>dt.
       let w = type_width dt; P = packing_size w
       in rbind (chunks_in w (bt_size t)) (\<lambda>chunk_len.
          rbind (get_float (bt_data t) (chunk_len * w)) (\<lambda>scale.
            elt_loop w (\<lambda>e k. rbind (chunk_sign w P (bt_data t) k) (\<lambda>sign.
              rbind (elt w corrected k) (\<lambda>c. Inr (add_float fo dt c (signed_scale fo (- sign) scale)))))
              (rev [0..<chunk_len * P]) error)))"

subsection \<open>Lemmas\<close>

text \<open>A chunk's bits, as a number.\<close>

lemma foldl_bits_append:
  "foldl (\<lambda>x b. 2 * x + of_bool b) a (bs @ [b]) = 2 * foldl (\<lambda>x b. 2 * x + of_bool b) a bs + (of_bool b :: nat)"
  by simp

lemma foldl_bits_less: "foldl (\<lambda>x b. 2 * x + of_bool b) 0 bs < (2 :: nat) ^ length bs"
proof (induction bs rule: rev_induct)
  case (snoc b bs)
  then have "2 * foldl (\<lambda>x b. 2 * x + of_bool b) 0 bs + of_bool b < 2 * (2 :: nat) ^ length bs"
    by (cases b) simp_all
  then show ?case by simp
qed simp

lemma foldl_bits_bit:
  "j < length bs \<Longrightarrow> odd (foldl (\<lambda>x b. 2 * x + of_bool b) (0 :: nat) bs div 2 ^ (length bs - 1 - j)) = bs ! j"
proof (induction bs rule: rev_induct)
  case (snoc b bs)
  show ?case
  proof (cases "j = length bs")
    case False
    then have j: "j < length bs" using snoc.prems by simp
    let ?v = "foldl (\<lambda>x b. 2 * x + of_bool b) (0 :: nat) bs"
    have "length (bs @ [b]) - 1 - j = Suc (length bs - 1 - j)" using j by simp
    moreover have "(2 * ?v + of_bool b) div 2 ^ Suc n = ?v div 2 ^ n" for n
      by (simp add: div_mult2_eq)
    ultimately show ?thesis using snoc.IH [OF j] j by (simp add: nth_append)
  qed (simp add: nth_append)
qed simp

lemma pack_chunk_value:
  assumes "\<And>j. j < P \<Longrightarrow> elt w src (i * P + j) = Inr (v j)"
  shows "pack_chunk fo dtype w src P i =
    Inr (foldl (\<lambda>x b. 2 * x + of_bool b) 0 (map (\<lambda>j. scalar_neg fo dtype (v j)) [0..<P]))"
proof -
  have "m \<le> P \<Longrightarrow> foldl (\<lambda>r j. rbind r (\<lambda>x. rbind (elt w src (i * P + j)) (\<lambda>v.
      Inr (2 * x + of_bool (scalar_neg fo dtype v))))) (Inr (0 :: nat)) [0..<m] =
    Inr (foldl (\<lambda>x b. 2 * x + of_bool b) 0 (map (\<lambda>j. scalar_neg fo dtype (v j)) [0..<m]))" for m
    by (induction m) (simp_all add: assms)
  then show ?thesis by (simp add: pack_chunk_def)
qed

text \<open>
  What a buffer of compressed data says: the sign of each scalar, and the scale.
\<close>

definition onebit_data :: "nat \<Rightarrow> nat \<Rightarrow> u8 list \<Rightarrow> (nat \<Rightarrow> bool) \<Rightarrow> u32 \<Rightarrow> bool" where
  "onebit_data w chunk_len buf negative scale \<longleftrightarrow>
     get_float buf (chunk_len * w) = Inr scale \<and>
     (\<forall>k < chunk_len * packing_size w. chunk_sign w (packing_size w) buf k = Inr (if negative k then -1 else 1))"

lemma take_drop_within:
  assumes "off + n \<le> m" and "m \<le> length buf"
  shows "take n (drop off (take m buf @ rest)) = take n (drop off buf)"
proof -
  obtain k where m: "m = off + k" "n \<le> k" using assms(1) by (metis le_add_diff_inverse2 add.commute add_leD1 nat_add_left_cancel_le)
  then have "drop off (take m buf @ rest) = take k (drop off buf) @ rest"
    using assms(2) by (simp add: drop_take)
  moreover have "length (take k (drop off buf)) = k" using m assms(2) by simp
  ultimately show ?thesis using m(2) by (simp add: min_absorb1)
qed

lemma get_at_take:
  assumes "off + n \<le> m" and "m \<le> length buf"
  shows "get_at (take m buf @ rest) off n = get_at buf off n"
  unfolding get_at_def take_drop_within [OF assms] using assms by simp

lemma elt_get_at: "elt w buf i = rbind (get_at buf (i * w) w) (\<lambda>bs. Inr (le_value bs))"
  by (simp add: elt_def get_at_def add.commute)

lemma onebit_data_take:
  assumes "onebit_data w chunk_len buf negative scale" and "chunk_len * w + 4 \<le> length buf"
  shows "onebit_data w chunk_len (take (chunk_len * w + 4) buf @ rest) negative scale"
proof -
  have "elt w (take (chunk_len * w + 4) buf @ rest) i = elt w buf i" if "i < chunk_len" for i
  proof -
    have "(i + 1) * w \<le> chunk_len * w" using that by (intro mult_le_mono1) simp
    then show ?thesis unfolding elt_get_at using assms(2) by (simp add: get_at_take)
  qed
  moreover have "k div packing_size w < chunk_len" if "k < chunk_len * packing_size w" for k
    using that by (simp add: less_mult_imp_div_less)
  ultimately show ?thesis
    using assms by (simp add: onebit_data_def get_float_def get_at_take chunk_sign_def)
qed

lemma chunk_count_pos: "0 < P \<Longrightarrow> len \<le> chunk_count P len * P \<and> chunk_count P len * P < len + P"
proof -
  assume P: "0 < P"
  have d: "P dvd len + (P - len mod P) mod P" and l: "(P - len mod P) mod P < P"
    using round_up_nat [OF P, of len] by blast+
  then have "chunk_count P len * P = len + (P - len mod P) mod P" by (simp add: chunk_count_def)
  then show ?thesis using l by simp
qed

lemma put_float_data:
  assumes "put_float buf off f = Inr buf'"
  shows "length buf' = length buf" "get_float buf' off = Inr f"
    "(i + 1) * w \<le> off \<Longrightarrow> elt w buf' i = elt w buf i"
proof -
  have b: "off + 4 \<le> length buf" "buf' = take off buf @ le_bytes 4 (unat f) @ drop (off + 4) buf"
    using assms by (auto simp: put_float_def put_at_def split: if_splits)
  then show "length buf' = length buf" by simp
  have "unat f < 256 ^ 4" using unsigned_less [of f] by simp
  then show "get_float buf' off = Inr f" using b by (simp add: get_float_def get_at_def le_value_bytes)
  show "elt w buf' i = elt w buf i" if "(i + 1) * w \<le> off"
    using that b take_drop_within [of "i * w" w off buf "le_bytes 4 (unat f) @ drop (off + 4) buf"]
    by (simp add: elt_def add.commute)
qed

lemma Onebit_CompressImpl_ok:
  assumes w: "w = type_width dt" and c: "chunk_len = chunk_count (packing_size w) len"
    and src: "chunk_len * packing_size w * w \<le> length src" and dst: "chunk_len * w + 4 \<le> length dst"
    and v: "\<And>k. k < chunk_len * packing_size w \<Longrightarrow> elt w src k = Inr (v k)"
  shows "\<exists>out scale. Onebit_CompressImpl fo use_scale dt dst src len = Inr (out, chunk_len * w + 4) \<and>
    length out = length dst \<and>
    (if use_scale then mean_scale fo dt w src len else Inr float_one) = Inr scale \<and>
    onebit_data w chunk_len out (\<lambda>k. scalar_neg (ops_of fo) dt (v k)) scale"
proof -
  let ?P = "packing_size w" and ?neg = "\<lambda>k. scalar_neg (ops_of fo) dt (v k)"
  let ?val = "\<lambda>i. foldl (\<lambda>x b. 2 * x + of_bool b) (0 :: nat) (map (\<lambda>j. ?neg (i * ?P + j)) [0..<?P])"
  have w0: "0 < w" using w by (cases dt) simp_all
  then have P: "0 < ?P" by (simp add: packing_size_def)
  have len: "len \<le> chunk_len * ?P" using chunk_count_pos [OF P] c by blast
  have idx: "i * ?P + j < chunk_len * ?P" if "i < chunk_len" "j < ?P" for i j
  proof -
    have "i * ?P + j < (i + 1) * ?P" using that(2) by simp
    also have "\<dots> \<le> chunk_len * ?P" using that(1) by (intro mult_le_mono1) simp
    finally show ?thesis .
  qed
  have "\<exists>s. foldl (\<lambda>r i. rbind r (\<lambda>sum. rbind (elt w src i) (\<lambda>x. Inr (f64_add fo sum (abs_double fo dt x)))))
      (Inr a) [0..<m] = Inr s" if "m \<le> len" for m a
    using that
  proof (induction m)
    case (Suc m)
    then have "m < chunk_len * ?P" using len by linarith
    with Suc show ?case by (auto simp: v)
  qed simp
  from this [of len "f32_to_f64 fo 0"] have "\<exists>scale. mean_scale fo dt w src len = Inr scale"
    unfolding mean_scale_def by fastforce
  then obtain scale where sc: "(if use_scale then mean_scale fo dt w src len else Inr float_one) = Inr scale"
    by (cases use_scale) auto
  have body: "pack_chunk (ops_of fo) dt w src ?P i = Inr (?val i)" if "i < chunk_len" for i
    using that idx by (intro pack_chunk_value) (simp add: v)
  have slot: "(i + 1) * w \<le> chunk_len * w" if "i < chunk_len" for i
    using that by (intro mult_le_mono1) simp
  obtain d1 where d1: "elt_loop w (\<lambda>d. pack_chunk (ops_of fo) dt w src ?P) [0..<chunk_len] dst = Inr d1"
    "length d1 = length dst"
    "\<And>i. elt w d1 i = (if i \<in> set [0..<chunk_len] then Inr (?val i mod 256 ^ w) else elt w dst i)"
    using elt_loop_spec [of w "\<lambda>d. pack_chunk (ops_of fo) dt w src ?P" "[0..<chunk_len]" dst ?val] body slot dst
    by fastforce
  have "?val i < 2 ^ ?P" for i using foldl_bits_less [of "map (\<lambda>j. ?neg (i * ?P + j)) [0..<?P]"] by simp
  moreover have "(2 :: nat) ^ ?P = 256 ^ w" by (simp add: packing_size_def mult.commute [of w 8] power_mult)
  ultimately have e1: "elt w d1 i = Inr (?val i)" if "i < chunk_len" for i using d1(3) that by simp
  obtain d2 where d2: "put_float d1 (chunk_len * w) scale = Inr d2"
    using dst d1(2) by (simp add: put_float_def put_at_def)
  have sign: "chunk_sign w ?P d2 k = Inr (if ?neg k then -1 else 1)" if "k < chunk_len * ?P" for k
  proof -
    have i: "k div ?P < chunk_len" using that by (simp add: less_mult_imp_div_less)
    have j: "k mod ?P < ?P" using P by simp
    have "elt w d2 (k div ?P) = Inr (?val (k div ?P))"
      using put_float_data(3) [OF d2 slot [OF i]] e1 [OF i] by simp
    moreover have "odd (?val (k div ?P) div 2 ^ (?P - 1 - k mod ?P)) = ?neg k"
      using foldl_bits_bit [of "k mod ?P" "map (\<lambda>j. ?neg (k div ?P * ?P + j)) [0..<?P]"] j by simp
    ultimately show ?thesis by (simp add: chunk_sign_def)
  qed
  have "onebit_data w chunk_len d2 ?neg scale"
    using sign put_float_data(2) [OF d2] by (simp add: onebit_data_def)
  moreover have "Onebit_CompressImpl fo use_scale dt dst src len = Inr (d2, chunk_len * w + 4)"
    using d1(1) d2 sc by (simp add: Onebit_CompressImpl_def Let_def flip: w c)
  ultimately show ?thesis using sc d1(2) put_float_data(1) [OF d2] by auto
qed

definition float_type :: "data_type \<Rightarrow> bool" where
  "float_type dt \<longleftrightarrow> dt \<in> {BYTEPS_FLOAT16, BYTEPS_FLOAT32, BYTEPS_FLOAT64}"

lemma impl_switch_float [simp]: "float_type dt \<Longrightarrow> impl_switch (data_type_value dt) f = f dt"
  by (auto simp: impl_switch_def float_type_def)

lemma scalar_less: "float_type dt \<Longrightarrow> of_float fo dt f < 256 ^ type_width dt"
  using unsigned_less [of "float2half f"] unsigned_less [of f] unsigned_less [of "f32_to_f64 fo f"]
  by (auto simp: float_type_def of_float_def)

lemma add_float_less: "float_type dt \<Longrightarrow> add_float fo dt x f < 256 ^ type_width dt"
  using unsigned_less [of "float2half (f32_add fo (half2float (ops_of fo) (of_nat x)) f)"]
    unsigned_less [of "f32_add fo (of_nat x) f"] unsigned_less [of "f64_add fo (of_nat x) (f32_to_f64 fo f)"]
  by (auto simp: float_type_def add_float_def)

lemma chunks_in_exact: "0 < w \<Longrightarrow> chunks_in w (chunk_len * w + 4) = Inr chunk_len"
  by (simp add: chunks_in_def)

lemma type_width_pos [simp]: "0 < type_width dt"
  by (cases dt) simp_all

text \<open>A loop over all elements up to \<open>n\<close>, in descending order.\<close>

lemma elt_loop_all:
  assumes "\<And>d d' k. elt w d k = elt w d' k \<Longrightarrow> g d k = g d' k"
    and "n * w \<le> length dst" and "\<And>k. k < n \<Longrightarrow> g dst k = Inr (c k)" and "\<And>k. c k < 256 ^ w"
  shows "\<exists>r. elt_loop w g (rev [0..<n]) dst = Inr r \<and> length r = length dst \<and> (\<forall>k < n. elt w r k = Inr (c k))"
proof -
  have "(k + 1) * w \<le> length dst" if "k < n" for k
    using mult_le_mono1 [of "k + 1" n w] that assms(2) by simp
  then have "(i + 1) * w \<le> length dst \<and> g dst i = Inr (c i)" if "i \<in> set (rev [0..<n])" for i
    using that assms(3) by simp
  then obtain r where r: "elt_loop w g (rev [0..<n]) dst = Inr r" "length r = length dst"
    "\<forall>j. elt w r j = (if j \<in> set (rev [0..<n]) then Inr (c j mod 256 ^ w) else elt w dst j)"
    using elt_loop_spec [of w g "rev [0..<n]" dst c, OF assms(1)] by auto
  have "elt w r k = Inr (c k)" if "k < n" for k using r(3) that assms(4) [of k] by simp
  then show ?thesis using r(1,2) by blast
qed

lemma Onebit_Decompress_data:
  assumes dt: "float_type dt" "cb_dtype cb = dt" "w = type_width dt"
    and data: "onebit_data w chunk_len (bt_data t) negative scale" "bt_size t = chunk_len * w + 4"
    and fits: "bt_size t \<le> length (bt_data t)" "\<not> server \<Longrightarrow> bt_size t \<le> length (cb_buf cb)"
      "chunk_len * packing_size w * w \<le> length (if server then cb_buf cb else bt_data t)"
  shows "\<exists>cb' t'. Onebit_Decompress server fo cb t = Inr (cb', t') \<and> bt_size t' = cb_size cb \<and>
    length (bt_data t') = length (if server then cb_buf cb else bt_data t) \<and>
    (\<forall>k < chunk_len * packing_size w. elt w (bt_data t') k =
       Inr (of_float fo dt (signed_scale fo (if negative k then -1 else 1) scale)))"
proof -
  let ?P = "packing_size w"
  let ?c = "\<lambda>k. of_float fo dt (signed_scale fo (if negative k then -1 else 1) scale)"
  have w0: "0 < w" using dt by simp
  obtain cb1 src where s: "decompress_src server cb t = Inr (cb1, if server then cb_buf cb else bt_data t, src)"
    and src: "onebit_data w chunk_len src negative scale" and cb1: "cb_size cb1 = cb_size cb"
  proof (cases server)
    case True
    then show ?thesis using that [of cb "bt_data t"] data(1) by (simp add: decompress_src_def)
  next
    case False
    let ?buf = "take (chunk_len * w + 4) (bt_data t) @ drop (bt_size t) (cb_buf cb)"
    have "decompress_src server cb t = Inr (cb\<lparr>cb_buf := ?buf\<rparr>, bt_data t, ?buf)"
      using False fits(1,2) data(2) by (simp add: decompress_src_def get_at_def put_at_def)
    moreover have "onebit_data w chunk_len ?buf negative scale"
      using onebit_data_take [OF data(1)] fits(1) data(2) by simp
    ultimately show ?thesis using that [of "cb\<lparr>cb_buf := ?buf\<rparr>" ?buf] False by simp
  qed
  let ?dst = "if server then cb_buf cb else bt_data t"
  let ?g = "\<lambda>d k. rbind (chunk_sign w ?P src k) (\<lambda>sign. Inr (of_float fo dt (signed_scale fo sign scale)))"
  have "\<exists>out. elt_loop w ?g (rev [0..<chunk_len * ?P]) ?dst = Inr out \<and> length out = length ?dst \<and>
      (\<forall>k < chunk_len * ?P. elt w out k = Inr (?c k))"
    by (rule elt_loop_all) (use src fits(3) scalar_less [OF dt(1)] dt(3) in \<open>auto simp: onebit_data_def\<close>)
  then obtain out where out: "elt_loop w ?g (rev [0..<chunk_len * ?P]) ?dst = Inr out"
    "length out = length ?dst" "\<forall>k < chunk_len * ?P. elt w out k = Inr (?c k)" by blast
  have "Onebit_Decompress server fo cb t = Inr (decompress_dst server cb1 out)"
    using dt(1) w0 data out(1) s
    by (simp add: Onebit_Decompress_def Let_def dt(2) chunks_in_exact onebit_data_def flip: dt(3))
  then show ?thesis using out(2,3) cb1 by (simp add: decompress_dst_def)
qed

lemma Onebit_FastUpdateError_data:
  assumes dt: "float_type dt" "cb_dtype cb = dt" "w = type_width dt"
    and data: "onebit_data w chunk_len (bt_data t) negative scale" "bt_size t = chunk_len * w + 4"
    and fits: "chunk_len * packing_size w * w \<le> length err"
    and p: "\<And>k. k < chunk_len * packing_size w \<Longrightarrow> elt w corrected k = Inr (v k)"
  shows "\<exists>err'. Onebit_FastUpdateError fo cb err corrected t = Inr err' \<and> length err' = length err \<and>
    (\<forall>k < chunk_len * packing_size w. elt w err' k =
       Inr (add_float fo dt (v k) (signed_scale fo (if negative k then 1 else -1) scale)))"
proof -
  let ?P = "packing_size w"
  let ?c = "\<lambda>k. add_float fo dt (v k) (signed_scale fo (if negative k then 1 else -1) scale)"
  have w0: "0 < w" using dt by simp
  have neg: "- (if b then - 1 else 1) = (if b then 1 else - 1 :: int)" for b by simp
  let ?g = "\<lambda>e k. rbind (chunk_sign w ?P (bt_data t) k) (\<lambda>sign.
      rbind (elt w corrected k) (\<lambda>c. Inr (add_float fo dt c (signed_scale fo (- sign) scale))))"
  have "\<exists>out. elt_loop w ?g (rev [0..<chunk_len * ?P]) err = Inr out \<and> length out = length err \<and>
      (\<forall>k < chunk_len * ?P. elt w out k = Inr (?c k))"
    by (rule elt_loop_all) (use data fits add_float_less [OF dt(1)] dt(3) p in \<open>auto simp: onebit_data_def neg\<close>)
  then obtain out where out: "elt_loop w ?g (rev [0..<chunk_len * ?P]) err = Inr out"
    "length out = length err" "\<forall>k < chunk_len * ?P. elt w out k = Inr (?c k)" by blast
  have "Onebit_FastUpdateError fo cb err corrected t = Inr out"
    using dt(1) w0 data out(1)
    by (simp add: Onebit_FastUpdateError_def Let_def dt(2) chunks_in_exact onebit_data_def flip: dt(3))
  then show ?thesis using out(2,3) by blast
qed

end
