(* ===== verification/Sparse.thy ===== *)
theory Sparse
  imports Onebit Std_Algorithms Compressor_Utils
begin

section \<open>The sparse compressors\<close>

text \<open>
  Models \<open>deep_inc/common/compressor/impl/topk.cc\<close> and \<open>randomk.cc\<close>: \<open>k\<close> pairs of an index and a
  scalar, the scalars of largest magnitude or drawn at random. A pair is two elements of the
  scalars' width, so an index is cut to that width. The heap of \<open>topk\<close> lives in the buffer; the
  model keeps it as a list of pairs and stores it when it is complete.
\<close>

subsection \<open>Pairs\<close>

type_synonym pair_t = "nat \<times> nat"

definition make_pair :: "nat \<Rightarrow> nat \<Rightarrow> nat \<Rightarrow> pair_t" where
  "make_pair w i x = (i mod 2 ^ (8 * w), x)"

definition put_pairs :: "nat \<Rightarrow> pair_t list \<Rightarrow> u8 list \<Rightarrow> u8 list res" where
  "put_pairs w prs buf = put_at buf 0 (concat (map (\<lambda>(i, x). le_bytes w i @ le_bytes w x) prs))"

definition get_pair :: "nat \<Rightarrow> u8 list \<Rightarrow> nat \<Rightarrow> pair_t res" where
  "get_pair w buf j =
     rbind (elt w buf (2 * j)) (\<lambda>i. rbind (elt w buf (2 * j + 1)) (\<lambda>x. Inr (i, x)))"

subsection \<open>Top k\<close>

definition by_abs :: "float_ops \<Rightarrow> data_type \<Rightarrow> pair_t \<Rightarrow> pair_t \<Rightarrow> bool" where
  "by_abs fo dt lhs rhs = scalar_abs_greater fo dt (snd lhs) (snd rhs)"

definition topk_step :: "float_ops \<Rightarrow> data_type \<Rightarrow> nat \<Rightarrow> u8 list \<Rightarrow> nat \<Rightarrow> pair_t list \<Rightarrow> pair_t list res" where
  "topk_step fo dt k src i h =
     (let w = type_width dt; comp = by_abs fo dt
      in rbind (elt w src i) (\<lambda>x.
         if i < k then Inr (push_heap comp (h @ [make_pair w i x]))
         else (case h of
                 [] \<Rightarrow> Inl (Undefined ''uninitialised pair'')
               | pt # _ \<Rightarrow>
                   if scalar_abs_greater fo dt x (snd pt)
                   then Inr (push_heap comp (butlast (pop_heap comp h) @ [make_pair w i x]))
                   else Inr h)))"

definition Topk_CompressImpl :: "float_ops \<Rightarrow> nat \<Rightarrow> data_type \<Rightarrow> u8 list \<Rightarrow> u8 list \<Rightarrow> nat \<Rightarrow>
    (u8 list \<times> nat) res" where
  "Topk_CompressImpl fo k dt dst src len =
     check (k \<le> len div 2) (CheckFailed ''this->_k <= len / 2'')
       (rbind (foldl (\<lambda>r i. rbind r (topk_step fo dt k src i)) (Inr []) [0..<len]) (\<lambda>h.
        rbind (put_pairs (type_width dt) h dst) (\<lambda>dst1. Inr (dst1, k * (2 * type_width dt)))))"

definition Topk_Compress :: "float_ops \<Rightarrow> nat \<Rightarrow> compressor_base \<Rightarrow> bps_tensor \<Rightarrow>
    (compressor_base \<times> bps_tensor) res" where
  "Topk_Compress fo k cb grad =
     impl_switch (bt_dtype grad) (\<lambda>dt.
       rbind (Topk_CompressImpl fo k dt (cb_buf cb) (bt_data grad) (bt_size grad div type_width dt))
         (\<lambda>(dst, n). Inr (cb\<lparr>cb_buf := dst\<rparr>, \<lparr>bt_data = dst, bt_size = n, bt_dtype = 0\<rparr>)))"

text \<open>The zeroes of \<open>memset\<close>, and the assignments \<open>dst[pair.first] = pair.second\<close>.\<close>

definition memset_zero :: "u8 list \<Rightarrow> nat \<Rightarrow> u8 list res" where
  "memset_zero dst n = put_at dst 0 (replicate n 0)"

definition scatter :: "nat \<Rightarrow> u8 list \<Rightarrow> (nat \<Rightarrow> nat) \<Rightarrow> nat \<Rightarrow> u8 list \<Rightarrow> u8 list res" where
  "scatter w src f n dst =
     foldl (\<lambda>r j. rbind r (\<lambda>d. rbind (get_pair w src j) (\<lambda>(i, x). put_elt w d i (f x)))) (Inr dst) [0..<n]"

definition Topk_Decompress :: "bool \<Rightarrow> compressor_base \<Rightarrow> bps_tensor \<Rightarrow> (compressor_base \<times> bps_tensor) res" where
  "Topk_Decompress server cb t =
     impl_switch (data_type_value (cb_dtype cb)) (\<lambda>dt.
       let w = type_width dt
       in rbind (decompress_src server cb t) (\<lambda>(cb1, dst, src).
          rbind (memset_zero dst (cb_size cb)) (\<lambda>zeroed.
          rbind (scatter w src (\<lambda>x. x) (bt_size t div (2 * w)) zeroed) (\<lambda>out.
            Inr (decompress_dst server cb1 out)))))"

text \<open>The error: the corrected gradient without the scalars that were sent.\<close>

definition Topk_FastUpdateError :: "nat \<Rightarrow> compressor_base \<Rightarrow> u8 list \<Rightarrow> u8 list \<Rightarrow> bps_tensor \<Rightarrow>
    u8 list res" where
  "Topk_FastUpdateError k cb error corrected t =
     impl_switch (data_type_value (cb_dtype cb)) (\<lambda>dt.
       rbind (memcpy_at error corrected 0 (cb_size cb)) (\<lambda>e.
         scatter (type_width dt) (bt_data t) (\<lambda>x. 0) k e))"

subsection \<open>Random k\<close>

definition randomk_draw :: "nat \<Rightarrow> u8 list \<Rightarrow> nat \<Rightarrow> pair_t list \<times> rng \<Rightarrow> (pair_t list \<times> rng) res" where
  "randomk_draw w src len =
     (\<lambda>(prs, st). rbind (Randint 0 (of_nat len) st) (\<lambda>(index, st').
        rbind (elt w src (unat index)) (\<lambda>x. Inr (prs @ [make_pair w (unat index) x], st'))))"

definition Randomk_CompressImpl :: "nat \<Rightarrow> rng \<Rightarrow> data_type \<Rightarrow> u8 list \<Rightarrow> u8 list \<Rightarrow> nat \<Rightarrow>
    (rng \<times> u8 list \<times> nat) res" where
  "Randomk_CompressImpl k st dt dst src len =
     check (k \<le> len div 2) (CheckFailed ''this->_k <= len / 2'')
       (rbind (foldl (\<lambda>r i. rbind r (randomk_draw (type_width dt) src len)) (Inr ([], st)) [0..<k]) (\<lambda>(prs, st').
        rbind (put_pairs (type_width dt) prs dst) (\<lambda>dst1. Inr (st', dst1, k * (2 * type_width dt)))))"

definition Randomk_Compress :: "nat \<Rightarrow> rng \<Rightarrow> compressor_base \<Rightarrow> bps_tensor \<Rightarrow>
    (rng \<times> compressor_base \<times> bps_tensor) res" where
  "Randomk_Compress k st cb grad =
     impl_switch (bt_dtype grad) (\<lambda>dt.
       rbind (Randomk_CompressImpl k st dt (cb_buf cb) (bt_data grad) (bt_size grad div type_width dt))
         (\<lambda>(st', dst, n). Inr (st', cb\<lparr>cb_buf := dst\<rparr>, \<lparr>bt_data = dst, bt_size = n, bt_dtype = 0\<rparr>)))"

definition Randomk_Decompress :: "bool \<Rightarrow> compressor_base \<Rightarrow> bps_tensor \<Rightarrow> (compressor_base \<times> bps_tensor) res" where
  "Randomk_Decompress server cb t =
     impl_switch (data_type_value (cb_dtype cb)) (\<lambda>dt.
       let w = type_width dt
       in rbind (decompress_src server cb t) (\<lambda>(cb1, dst, src).
          rbind (memset_zero dst (cb_size cb)) (\<lambda>zeroed.
          rbind (scatter w src (\<lambda>x. x) (bt_size t div (2 * w)) zeroed) (\<lambda>out.
            Inr (decompress_dst server cb1 out)))))"

definition Randomk_FastUpdateError :: "nat \<Rightarrow> compressor_base \<Rightarrow> u8 list \<Rightarrow> u8 list \<Rightarrow> bps_tensor \<Rightarrow>
    u8 list res" where
  "Randomk_FastUpdateError k cb error corrected t =
     impl_switch (data_type_value (cb_dtype cb)) (\<lambda>dt.
       rbind (memcpy_at error corrected 0 (cb_size cb)) (\<lambda>e.
         scatter (type_width dt) (bt_data t) (\<lambda>x. 0) k e))"

lemma Randomk_same_as_Topk:
  "Randomk_Decompress = Topk_Decompress" "Randomk_FastUpdateError = Topk_FastUpdateError"
  by (simp_all add: fun_eq_iff Randomk_Decompress_def Topk_Decompress_def Randomk_FastUpdateError_def
        Topk_FastUpdateError_def)

subsection \<open>Keeping the largest\<close>

text \<open>
  A heap with a bounded size, for any comparator and heap functions that satisfy the standard: it
  ends up with the \<open>k\<close> elements that come first in the order.
\<close>

locale bounded_heap = strict_weak_order lt + std_heap lt push pop heap
  for lt :: "'a \<Rightarrow> 'a \<Rightarrow> bool" and push :: "'a list \<Rightarrow> 'a list" and pop :: "'a list \<Rightarrow> 'a list"
    and heap :: "'a list \<Rightarrow> bool"
begin

definition keep :: "nat \<Rightarrow> 'a list \<Rightarrow> 'a \<Rightarrow> 'a list" where
  "keep k h x =
     (if length h < k then push (h @ [x])
      else if lt x (hd h) then push (butlast (pop h) @ [x]) else h)"

definition kept :: "nat \<Rightarrow> 'a list \<Rightarrow> 'a list \<Rightarrow> bool" where
  "kept k xs h \<longleftrightarrow> heap h \<and> length h = min k (length xs) \<and>
     (\<exists>rest. mset xs = mset h + rest \<and> (\<forall>a \<in> set h. \<forall>b \<in># rest. \<not> lt b a))"

lemma kept_keep:
  assumes "kept k xs h" and "0 < k"
  shows "kept k (xs @ [x]) (keep k h x)"
proof -
  obtain rest where h: "heap h" "length h = min k (length xs)"
    and rest: "mset xs = mset h + rest" "\<forall>a \<in> set h. \<forall>b \<in># rest. \<not> lt b a"
    using assms(1) by (auto simp: kept_def)
  consider "length h < k" | "k \<le> length h" "lt x (hd h)" | "k \<le> length h" "\<not> lt x (hd h)" by linarith
  then show ?thesis
  proof cases
    case 1
    then have "rest = {#}" using h(2) arg_cong [OF rest(1), of size] by (simp add: min_def split: if_splits)
    moreover have "length (push (h @ [x])) = Suc (length h)"
      using arg_cong [OF push_mset [of "h @ [x]"], of size] by simp
    ultimately show ?thesis
      using 1 h rest(1) push_keeps [OF h(1), of x] by (auto simp: kept_def keep_def push_mset)
  next
    case 2
    let ?h = "push (butlast (pop h) @ [x])"
    have ne: "h \<noteq> []" using 2(1) assms(2) by auto
    have sp: "mset h = add_mset (hd h) (mset (butlast (pop h)))"
      using pop_split [OF ne] pop_last [OF ne] by simp
    have m: "mset ?h = add_mset x (mset (butlast (pop h)))" by (simp add: push_mset)
    have "size (mset ?h) = size (mset h)" unfolding m sp by simp
    then have len: "length ?h = length h" by simp
    have "\<not> lt b a" if "a \<in> set ?h" "b \<in># add_mset (hd h) rest" for a b
    proof -
      have a: "a = x \<or> a \<in> set h" using that(1) m sp by (metis insert_iff set_mset_add_mset_insert set_mset_mset)
      have top: "hd h \<in> set h" using ne by simp
      show ?thesis
      proof (cases "b = hd h")
        case True
        then show ?thesis using a asym [OF 2(2)] root_max [OF h(1)] by blast
      next
        case False
        then have b: "b \<in># rest" using that(2) by simp
        then have "\<not> lt b (hd h)" using rest(2) top by blast
        then show ?thesis using a b rest(2) ltrans [OF _ 2(2)] by blast
      qed
    qed
    moreover have "mset (xs @ [x]) = mset ?h + add_mset (hd h) rest" unfolding m using rest(1) sp by simp
    moreover have "heap ?h" using push_keeps pop_keeps [OF h(1) ne] by blast
    ultimately show ?thesis using 2 h(2) len by (auto simp: kept_def keep_def)
  next
    case 3
    have "\<not> lt b a" if "a \<in> set h" "b \<in># add_mset x rest" for a b
      using that rest(2) le_trans [OF root_max [OF h(1) that(1)] 3(2)] by auto
    then show ?thesis
      using 3 h rest(1) unfolding kept_def keep_def by (intro conjI exI [of _ "add_mset x rest"]) auto
  qed
qed

lemma kept_all: "0 < k \<Longrightarrow> kept k xs (foldl (keep k) [] xs)"
proof (induction xs rule: rev_induct)
  case (snoc x xs)
  then show ?case using kept_keep by simp
qed (simp add: kept_def heap_empty)

end

text \<open>
  The comparator of the code is the order of magnitudes on scalars that are numbers; on others it
  is no strict weak order.
\<close>

definition by_magnitude :: "float_ops \<Rightarrow> data_type \<Rightarrow> pair_t \<Rightarrow> pair_t \<Rightarrow> bool" where
  "by_magnitude fo dt lhs rhs \<longleftrightarrow> scalar_mag fo dt (snd rhs) < scalar_mag fo dt (snd lhs)"

interpretation mag_order: strict_weak_order "by_magnitude fo dt" for fo dt
  by unfold_locales (auto simp: by_magnitude_def)

interpretation mag: bounded_heap "by_magnitude fo dt" "push_heap (by_magnitude fo dt)"
  "pop_heap (by_magnitude fo dt)" "is_heap (by_magnitude fo dt)" for fo dt
  by (intro bounded_heap.intro mag_order.strict_weak_order_axioms mag_order.hp.std_heap_axioms)

lemma sift_up_cong:
  assumes "\<forall>a \<in> set xs. \<forall>b \<in> set xs. lt a b = lt' a b" and "i < length xs"
  shows "sift_up lt xs i = sift_up lt' xs i"
  using assms
proof (induction i arbitrary: xs rule: less_induct)
  case (less i)
  let ?p = "(i - 1) div 2"
  have p: "?p < length xs" "0 < i \<Longrightarrow> ?p < i" using less.prems(2) by auto
  have "set (swap xs i ?p) = set xs" using less.prems(2) p(1) by (metis mset_swap' set_mset_mset)
  then have "0 < i \<Longrightarrow> sift_up lt (swap xs i ?p) ?p = sift_up lt' (swap xs i ?p) ?p"
    using less.prems p by (intro less.IH) simp_all
  moreover have "lt (xs ! ?p) (xs ! i) = lt' (xs ! ?p) (xs ! i)" using less.prems p(1) by simp
  ultimately show ?case by (simp add: sift_up.simps [of _ xs i])
qed

lemma push_heap_cong:
  "\<forall>a \<in> set xs. \<forall>b \<in> set xs. lt a b = lt' a b \<Longrightarrow> push_heap lt xs = push_heap lt' xs"
  by (cases "xs = []") (simp_all add: push_heap_def sift_up.simps [of _ "[]"] sift_up_cong)

lemma sift_down_cong:
  assumes "\<forall>a \<in> set xs. \<forall>b \<in> set xs. lt a b = lt' a b"
  shows "sift_down lt xs i = sift_down lt' xs i"
  using assms
proof (induction "length xs - i" arbitrary: xs i rule: less_induct)
  case less
  let ?m = "max_child lt xs i"
  show ?case
  proof (cases "2 * i + 1 < length xs")
    case True
    have m: "max_child lt' xs i = ?m" using less.prems True by (auto simp: max_child_def)
    have c: "?m < length xs" "i < ?m" using True by (auto simp: max_child_def)
    then have "set (swap xs i ?m) = set xs" by (metis mset_swap' set_mset_mset order.strict_trans)
    then have "sift_down lt (swap xs i ?m) ?m = sift_down lt' (swap xs i ?m) ?m"
      using less.prems c by (intro less.hyps) simp_all
    moreover have "lt (xs ! i) (xs ! ?m) = lt' (xs ! i) (xs ! ?m)" using less.prems c by simp
    ultimately show ?thesis using m by (simp add: sift_down.simps [of _ xs i])
  qed (simp add: sift_down.simps [of _ xs i])
qed

lemma pop_heap_cong:
  assumes "\<forall>a \<in> set xs. \<forall>b \<in> set xs. lt a b = lt' a b"
  shows "pop_heap lt xs = pop_heap lt' xs"
proof (cases "length xs \<le> 1")
  case False
  then have "set (last xs # butlast (tl xs)) \<subseteq> set xs"
    by (cases xs) (auto dest: in_set_butlastD)
  then have "sift_down lt (last xs # butlast (tl xs)) 0 = sift_down lt' (last xs # butlast (tl xs)) 0"
    using assms by (intro sift_down_cong) blast
  then show ?thesis using False by (simp add: pop_heap_def)
qed (simp add: pop_heap_def)

subsection \<open>The loop of top k\<close>

definition numbers :: "float_ops \<Rightarrow> data_type \<Rightarrow> pair_t list \<Rightarrow> bool" where
  "numbers fo dt prs \<longleftrightarrow> (\<forall>p \<in> set prs. \<not> scalar_nan fo dt (snd p))"

lemma by_abs_numbers:
  "numbers fo dt prs \<Longrightarrow> \<forall>a \<in> set prs. \<forall>b \<in> set prs. by_abs fo dt a b = by_magnitude fo dt a b"
  by (auto simp: numbers_def by_abs_def by_magnitude_def scalar_abs_greater_def)

lemma topk_step_keep:
  assumes "numbers fo dt h" and "elt (type_width dt) src i = Inr x" and "\<not> scalar_nan fo dt x"
    and "length h = min k i" and "0 < k"
  shows "topk_step fo dt k src i h = Inr (mag.keep fo dt k h (make_pair (type_width dt) i x))"
proof -
  let ?p = "make_pair (type_width dt) i x" and ?lt = "by_magnitude fo dt"
  have n: "numbers fo dt (h @ [?p])" using assms(1,3) by (simp add: numbers_def make_pair_def)
  have push: "push_heap (by_abs fo dt) xs = push_heap ?lt xs" if "set xs \<subseteq> set (h @ [?p])" for xs
    using by_abs_numbers [OF n] that by (intro push_heap_cong) blast
  have pop: "pop_heap (by_abs fo dt) h = pop_heap ?lt h" by (rule pop_heap_cong [OF by_abs_numbers [OF assms(1)]])
  show ?thesis
  proof (cases "i < k")
    case True
    then show ?thesis using assms push [of "h @ [?p]"] by (simp add: topk_step_def mag.keep_def)
  next
    case False
    then obtain pt h' where h: "h = pt # h'" using assms(4,5) by (cases h) simp_all
    have "set (butlast (pop_heap ?lt h) @ [?p]) \<subseteq> set (h @ [?p])" by (auto dest: in_set_butlastD)
    then have "push_heap (by_abs fo dt) (butlast (pop_heap ?lt h) @ [?p]) =
        push_heap ?lt (butlast (pop_heap ?lt h) @ [?p])" by (rule push)
    moreover have "scalar_abs_greater fo dt x (snd pt) \<longleftrightarrow> ?lt ?p (hd h)"
      using assms(1,3) h by (simp add: scalar_abs_greater_def by_magnitude_def numbers_def make_pair_def)
    ultimately show ?thesis
      using False assms(2,4) h pop by (simp add: topk_step_def mag.keep_def Let_def)
  qed
qed

lemma topk_loop_keep:
  assumes "0 < k" and "\<And>i. i < m \<Longrightarrow> elt (type_width dt) src i = Inr (v i)"
    and "\<And>i. i < m \<Longrightarrow> \<not> scalar_nan fo dt (v i)"
  shows "foldl (\<lambda>r i. rbind r (topk_step fo dt k src i)) (Inr []) [0..<m] =
    Inr (foldl (mag.keep fo dt k) [] (map (\<lambda>i. make_pair (type_width dt) i (v i)) [0..<m]))"
  using assms(2,3)
proof (induction m)
  case (Suc m)
  let ?xs = "map (\<lambda>i. make_pair (type_width dt) i (v i)) [0..<m]"
  let ?h = "foldl (mag.keep fo dt k) [] ?xs"
  have kept: "mag.kept fo dt k ?xs ?h" by (rule mag.kept_all [OF assms(1)])
  then have "length ?h = min k m" "set ?h \<subseteq> set ?xs"
    by (auto simp: mag.kept_def dest!: arg_cong [where f = set_mset])
  moreover have "numbers fo dt ?xs" using Suc.prems(2) by (auto simp: numbers_def make_pair_def)
  ultimately have "topk_step fo dt k src m ?h = Inr (mag.keep fo dt k ?h (make_pair (type_width dt) m (v m)))"
    using Suc.prems assms(1) by (intro topk_step_keep) (auto simp: numbers_def)
  then show ?case using Suc by simp
qed simp

text \<open>
  What the heap holds at the end, as a set of positions: \<open>k\<close> of them, none with a scalar smaller
  than one that is left out.
\<close>

definition selects :: "float_ops \<Rightarrow> data_type \<Rightarrow> (nat \<Rightarrow> nat) \<Rightarrow> nat \<Rightarrow> nat \<Rightarrow> nat set \<Rightarrow> bool" where
  "selects fo dt v len k S \<longleftrightarrow> S \<subseteq> {..<len} \<and> card S = min k len \<and>
     (\<forall>a \<in> S. \<forall>b \<in> {..<len} - S. scalar_mag fo dt (v b) \<le> scalar_mag fo dt (v a))"

lemma kept_selects:
  assumes "mag.kept fo dt k (map (\<lambda>i. (i, v i)) [0..<len]) h"
  shows "\<exists>S. selects fo dt v len k S \<and> distinct h \<and> set h = (\<lambda>i. (i, v i)) ` S"
proof -
  let ?xs = "map (\<lambda>i. (i, v i)) [0..<len]"
  obtain rest where r: "mset ?xs = mset h + rest" "length h = min k len"
    "\<forall>a \<in> set h. \<forall>b \<in># rest. \<not> by_magnitude fo dt b a"
    using assms by (auto simp: mag.kept_def)
  have "distinct ?xs" by (simp add: distinct_map inj_on_def)
  then have "count (mset h + rest) x \<le> 1" for x
    unfolding r(1) [symmetric] distinct_count_atmost_1 count_mset by (cases "x \<in> set ?xs") (auto simp: count_list_0_iff)
  then have c: "count (mset h) x + count rest x \<le> 1" for x by simp
  have d: "distinct h" using c by (metis add_leD1 count_eq_zero_iff distinct_count_atmost_1 le_antisym less_one not_in_iff not_le set_mset_mset)
  have hx: "set h \<subseteq> set ?xs" using r(1) by (metis mset_subset_eq_add_left set_mset_mono set_mset_mset)
  have rx: "x \<in># rest \<longleftrightarrow> x \<in> set ?xs \<and> x \<notin> set h" for x
  proof -
    have "x \<in> set ?xs \<longleftrightarrow> x \<in> set h \<or> x \<in># rest" using arg_cong [OF r(1), of set_mset] by auto
    moreover have "\<not> (x \<in> set h \<and> x \<in># rest)" using c [of x] by (metis add_mono_thms_linordered_semiring(1) count_greater_eq_one_iff not_one_le_zero numeral_le_one_iff one_add_one order.trans semiring_norm(69) set_mset_mset)
    ultimately show ?thesis by blast
  qed
  let ?S = "fst ` set h"
  have eq: "set h = (\<lambda>i. (i, v i)) ` ?S" using hx by (force simp: image_image)
  have "y = (fst y, v (fst y))" if "y \<in> set h" for y using that hx by auto
  then have "inj_on fst (set h)" by (metis inj_onI)
  then have "card ?S = length h" using d by (simp add: card_image distinct_card)
  moreover have "?S \<subseteq> {..<len}" using hx by auto
  moreover have "scalar_mag fo dt (v b) \<le> scalar_mag fo dt (v a)" if "a \<in> ?S" "b \<in> {..<len} - ?S" for a b
  proof -
    have "(a, v a) \<in> set h" using that(1) eq by auto
    moreover have "(b, v b) \<in># rest" unfolding rx using that(2) by (auto intro: rev_image_eqI)
    ultimately show ?thesis using r(3) by (fastforce simp: by_magnitude_def)
  qed
  ultimately have "selects fo dt v len k ?S" using r(2) by (simp add: selects_def)
  then show ?thesis using d eq by blast
qed

subsection \<open>Storing and scattering pairs\<close>

definition sparse_data :: "nat \<Rightarrow> u8 list \<Rightarrow> pair_t list \<Rightarrow> bool" where
  "sparse_data w buf prs \<longleftrightarrow> (\<forall>j < length prs. get_pair w buf j = Inr (prs ! j))"

lemma elt_append:
  assumes "length xs = i * w"
  shows "elt w (xs @ ys) (i + j) = elt w ys j"
  using assms by (simp add: elt_def add_mult_distrib)

lemma elt_head: "w \<le> length xs \<Longrightarrow> elt w xs 0 = Inr (le_value (take w xs))"
  by (simp add: elt_def)

definition pair_bytes :: "nat \<Rightarrow> pair_t \<Rightarrow> u8 list" where
  "pair_bytes w = (\<lambda>(i, x). le_bytes w i @ le_bytes w x)"

lemma length_pair_bytes [simp]: "length (pair_bytes w p) = 2 * w"
  by (simp add: pair_bytes_def split: prod.split)

lemma length_pairs_bytes [simp]: "length (concat (map (pair_bytes w) prs)) = length prs * (2 * w)"
  by (induction prs) simp_all

lemma get_pair_bytes:
  assumes "\<forall>p \<in> set prs. fst p < 256 ^ w \<and> snd p < 256 ^ w" and "j < length prs"
  shows "get_pair w (concat (map (pair_bytes w) prs) @ rest) j = Inr (prs ! j)"
  using assms
proof (induction prs arbitrary: j)
  case (Cons p prs)
  obtain i x where p: "p = (i, x)" by (cases p)
  let ?rest = "concat (map (pair_bytes w) prs) @ rest"
  show ?case
  proof (cases j)
    case 0
    have "elt w (le_bytes w i @ le_bytes w x @ ?rest) 0 = Inr i"
      using Cons.prems p by (simp add: elt_head le_value_bytes)
    moreover have "elt w (le_bytes w i @ le_bytes w x @ ?rest) (1 + 0) = Inr x"
      using Cons.prems p by (subst elt_append) (simp_all add: elt_head le_value_bytes)
    ultimately show ?thesis using 0 p by (simp add: get_pair_def pair_bytes_def)
  next
    case (Suc m)
    have "elt w (pair_bytes w p @ ?rest) (2 + k) = elt w ?rest k" for k by (rule elt_append) simp
    from this [of "2 * m"] this [of "2 * m + 1"]
    have "get_pair w (pair_bytes w p @ ?rest) j = get_pair w ?rest m"
      using Suc by (simp add: get_pair_def add.commute)
    then show ?thesis using Cons Suc by simp
  qed
qed simp

lemma put_pairs_data:
  assumes "length prs * (2 * w) \<le> length buf" and "\<forall>p \<in> set prs. fst p < 256 ^ w \<and> snd p < 256 ^ w"
  shows "\<exists>buf'. put_pairs w prs buf = Inr buf' \<and> length buf' = length buf \<and>
    (\<forall>m rest. length prs * (2 * w) \<le> m \<longrightarrow> m \<le> length buf \<longrightarrow> sparse_data w (take m buf' @ rest) prs)"
proof (intro exI conjI allI impI)
  let ?buf = "concat (map (pair_bytes w) prs) @ drop (length prs * (2 * w)) buf"
  have f: "(\<lambda>(i, x). le_bytes w i @ le_bytes w x) = pair_bytes w" by (simp add: pair_bytes_def)
  show "put_pairs w prs buf = Inr ?buf" using assms(1) by (simp add: put_pairs_def put_at_def f)
  show "length ?buf = length buf" using assms(1) by simp
  fix m rest assume m: "length prs * (2 * w) \<le> m" "m \<le> length buf"
  have "take m ?buf @ rest = concat (map (pair_bytes w) prs) @
      take (m - length prs * (2 * w)) (drop (length prs * (2 * w)) buf) @ rest" using m by simp
  then show "sparse_data w (take m ?buf @ rest) prs"
    unfolding sparse_data_def using get_pair_bytes [OF assms(2)] by simp
qed

text \<open>
  Scattering pairs that agree with a function \<open>g\<close> of the index: those positions get its values,
  the others keep theirs.
\<close>

lemma scatter_data:
  assumes "sparse_data w src prs" and "n = length prs"
    and "\<forall>p \<in> set prs. (fst p + 1) * w \<le> length dst \<and> f (snd p) = g (fst p) \<and> g (fst p) < 256 ^ w"
  shows "\<exists>out. scatter w src f n dst = Inr out \<and> length out = length dst \<and>
    (\<forall>i. elt w out i = (if i \<in> fst ` set prs then Inr (g i) else elt w dst i))"
proof -
  have "m \<le> length prs \<Longrightarrow> \<exists>out. scatter w src f m dst = Inr out \<and> length out = length dst \<and>
    (\<forall>i. elt w out i = (if i \<in> fst ` set (take m prs) then Inr (g i) else elt w dst i))" for m
  proof (induction m)
    case (Suc m)
    then obtain out where out: "scatter w src f m dst = Inr out" "length out = length dst"
      "\<And>i. elt w out i = (if i \<in> fst ` set (take m prs) then Inr (g i) else elt w dst i)" by auto
    obtain i x where p: "prs ! m = (i, x)" by (cases "prs ! m")
    have m: "m < length prs" using Suc.prems by simp
    then have "(i, x) \<in> set prs" using p by (metis nth_mem)
    then have ix: "(i + 1) * w \<le> length dst" "f x = g i" "g i < 256 ^ w" using assms(3) by auto
    obtain out' where out': "put_elt w out i (f x) = Inr out'" using ix(1) out(2) by (simp add: put_elt_def)
    have "scatter w src f (Suc m) dst = Inr out'"
      using out(1) out' assms(1) p m by (simp add: scatter_def sparse_data_def)
    moreover have "elt w out' j = (if j \<in> fst ` set (take (Suc m) prs) then Inr (g j) else elt w dst j)" for j
      using elt_put_same [OF out'] elt_put_other [OF out', of j] out(3) [of j] ix m p
      by (cases "j = i") (auto simp: take_Suc_conv_app_nth)
    ultimately show ?case using length_put_elt [OF out'] out(2) by simp
  qed (simp add: scatter_def)
  from this [of n] show ?thesis using assms(2) by simp
qed

lemma memset_zero_elts:
  assumes "n \<le> length dst"
  shows "\<exists>d. memset_zero dst n = Inr d \<and> length d = length dst \<and> (\<forall>i. (i + 1) * w \<le> n \<longrightarrow> elt w d i = Inr 0)"
proof -
  let ?d = "replicate n 0 @ drop n dst"
  have z: "le_value (replicate m 0) = 0" for m by (induction m) simp_all
  have "elt w ?d i = Inr 0" if "(i + 1) * w \<le> n" for i
    using that assms by (simp add: elt_def z add.commute min_def)
  then show ?thesis using assms by (intro exI [of _ ?d]) (simp add: memset_zero_def put_at_def)
qed

lemma memcpy_elts:
  assumes "n \<le> length dst" and "n \<le> length src"
  shows "\<exists>d. memcpy_at dst src 0 n = Inr d \<and> length d = length dst \<and>
    (\<forall>i. (i + 1) * w \<le> n \<longrightarrow> elt w d i = elt w src i)"
proof -
  let ?d = "take n src @ drop n dst"
  have "elt w ?d i = elt w src i" if "(i + 1) * w \<le> n" for i
    using that assms by (simp only: elt_get_at) (simp add: get_at_take add.commute)
  then show ?thesis using assms by (intro exI [of _ ?d]) (simp add: memcpy_at_def)
qed

text \<open>
  A compressed tensor that carries the scalars at the positions \<open>S\<close>: so does every copy of its
  first bytes, wherever the copy lives.
\<close>

definition carries :: "nat \<Rightarrow> bps_tensor \<Rightarrow> (nat \<Rightarrow> nat) \<Rightarrow> nat set \<Rightarrow> bool" where
  "carries w c v S \<longleftrightarrow> bt_size c \<le> length (bt_data c) \<and>
     (\<exists>prs. set prs = (\<lambda>i. (i, v i)) ` S \<and> bt_size c = length prs * (2 * w) \<and>
        (\<forall>m rest. bt_size c \<le> m \<longrightarrow> m \<le> length (bt_data c) \<longrightarrow> sparse_data w (take m (bt_data c) @ rest) prs))"

lemma Topk_Decompress_carries:
  assumes dt: "float_type dt" "cb_dtype cb = dt" "w = type_width dt"
    and c: "carries w c v S" "\<And>i. i \<in> S \<Longrightarrow> i < cb_size cb div w \<and> v i < 256 ^ w"
    and fits: "\<not> server \<Longrightarrow> bt_size c \<le> length (cb_buf cb)"
      "cb_size cb \<le> length (if server then cb_buf cb else bt_data c)"
  shows "\<exists>cb' t'. Topk_Decompress server cb c = Inr (cb', t') \<and> bt_size t' = cb_size cb \<and>
    length (bt_data t') = length (if server then cb_buf cb else bt_data c) \<and>
    (\<forall>i < cb_size cb div w. elt w (bt_data t') i = Inr (if i \<in> S then v i else 0))"
proof -
  let ?dst = "if server then cb_buf cb else bt_data c"
  have w0: "0 < w" using dt by simp
  obtain prs where prs: "set prs = (\<lambda>i. (i, v i)) ` S" "bt_size c = length prs * (2 * w)"
    and sp: "\<And>m rest. bt_size c \<le> m \<Longrightarrow> m \<le> length (bt_data c) \<Longrightarrow> sparse_data w (take m (bt_data c) @ rest) prs"
    and sz: "bt_size c \<le> length (bt_data c)"
    using c(1) by (auto simp: carries_def)
  obtain cb1 src where s: "decompress_src server cb c = Inr (cb1, ?dst, src)" "sparse_data w src prs"
    "cb_size cb1 = cb_size cb"
  proof (cases server)
    case True
    then show ?thesis
      using that [of cb "bt_data c"] sp [of "length (bt_data c)" "[]"] sz by (simp add: decompress_src_def)
  next
    case False
    let ?buf = "take (bt_size c) (bt_data c) @ drop (bt_size c) (cb_buf cb)"
    have "decompress_src server cb c = Inr (cb\<lparr>cb_buf := ?buf\<rparr>, bt_data c, ?buf)"
      using False fits(1) sz by (simp add: decompress_src_def get_at_def put_at_def)
    then show ?thesis using that [of "cb\<lparr>cb_buf := ?buf\<rparr>" ?buf] sp [of "bt_size c"] sz False by simp
  qed
  obtain z where z: "memset_zero ?dst (cb_size cb) = Inr z" "length z = length ?dst"
    "\<And>i. (i + 1) * w \<le> cb_size cb \<Longrightarrow> elt w z i = Inr 0"
    using memset_zero_elts [OF fits(2), of w] by blast
  have in_size: "i < cb_size cb div w \<Longrightarrow> (i + 1) * w \<le> cb_size cb" for i by (rule index_fits)
  have "\<forall>p \<in> set prs. (fst p + 1) * w \<le> length z \<and> snd p = v (fst p) \<and> v (fst p) < 256 ^ w"
    using prs(1) c(2) in_size fits(2) z(2) by fastforce
  then obtain out where out: "scatter w src (\<lambda>x. x) (length prs) z = Inr out" "length out = length z"
    "\<And>i. elt w out i = (if i \<in> fst ` set prs then Inr (v i) else elt w z i)"
    using scatter_data [OF s(2) refl, of z "\<lambda>x. x" v] by blast
  have "fst ` set prs = S" using prs(1) by force
  moreover have "bt_size c div (2 * w) = length prs" using prs(2) w0 by simp
  ultimately show ?thesis
    using dt(1) s z in_size out
    by (simp add: Topk_Decompress_def Let_def dt(2) decompress_dst_def flip: dt(3))
qed

lemma Topk_FastUpdateError_carries:
  assumes dt: "float_type dt" "cb_dtype cb = dt" "w = type_width dt"
    and c: "carries w c v S" "\<And>i. i \<in> S \<Longrightarrow> i < cb_size cb div w" "bt_size c = k * (2 * w)"
    and fits: "cb_size cb \<le> length err" "cb_size cb \<le> length corrected"
    and p: "\<And>i. i < cb_size cb div w \<Longrightarrow> elt w corrected i = Inr (v i)"
  shows "\<exists>err'. Topk_FastUpdateError k cb err corrected c = Inr err' \<and> length err' = length err \<and>
    (\<forall>i < cb_size cb div w. elt w err' i = Inr (if i \<in> S then 0 else v i))"
proof -
  have w0: "0 < w" using dt by simp
  obtain prs where prs: "set prs = (\<lambda>i. (i, v i)) ` S" "bt_size c = length prs * (2 * w)"
    and sp: "sparse_data w (bt_data c) prs"
    using c(1) unfolding carries_def by (metis append_Nil2 order_refl take_all)
  have k: "k = length prs" using prs(2) c(3) w0 by simp
  obtain e where e: "memcpy_at err corrected 0 (cb_size cb) = Inr e" "length e = length err"
    "\<And>i. (i + 1) * w \<le> cb_size cb \<Longrightarrow> elt w e i = elt w corrected i"
    using memcpy_elts [OF fits, of w] by blast
  have in_size: "i < cb_size cb div w \<Longrightarrow> (i + 1) * w \<le> cb_size cb" for i by (rule index_fits)
  have "\<forall>p \<in> set prs. (fst p + 1) * w \<le> length e \<and> (0 :: nat) = 0 \<and> (0 :: nat) < 256 ^ w"
    using prs(1) c(2) in_size fits(1) e(2) by fastforce
  then obtain out where out: "scatter w (bt_data c) (\<lambda>x. 0) k e = Inr out" "length out = length e"
    "\<And>i. elt w out i = (if i \<in> fst ` set prs then Inr 0 else elt w e i)"
    using scatter_data [OF sp k, of e "\<lambda>x. 0" "\<lambda>i. 0"] by blast
  have "fst ` set prs = S" using prs(1) by force
  then show ?thesis
    using dt(1) e in_size out p by (simp add: Topk_FastUpdateError_def dt(2) flip: dt(3))
qed

lemma elt_less: "elt w buf i = Inr x \<Longrightarrow> x < 256 ^ w"
proof -
  assume e: "elt w buf i = Inr x"
  then have "length (take w (drop (i * w) buf)) = w" by (auto simp: res_simps)
  then show "x < 256 ^ w" using e le_value_less [of "take w (drop (i * w) buf)"] by (simp add: res_simps)
qed

lemma store_pairs:
  assumes "length prs * (2 * w) \<le> length buf" and "\<forall>p \<in> set prs. fst p < 256 ^ w \<and> snd p < 256 ^ w"
    and "set prs = (\<lambda>i. (i, v i)) ` S"
  shows "\<exists>buf'. put_pairs w prs buf = Inr buf' \<and> length buf' = length buf \<and>
    carries w \<lparr>bt_data = buf', bt_size = length prs * (2 * w), bt_dtype = 0\<rparr> v S"
proof -
  obtain buf' where b: "put_pairs w prs buf = Inr buf'" "length buf' = length buf"
    "\<forall>m rest. length prs * (2 * w) \<le> m \<longrightarrow> m \<le> length buf \<longrightarrow> sparse_data w (take m buf' @ rest) prs"
    using put_pairs_data [OF assms(1,2)] by blast
  then have "carries w \<lparr>bt_data = buf', bt_size = length prs * (2 * w), bt_dtype = 0\<rparr> v S"
    unfolding carries_def using assms(1,3) by (intro conjI exI [of _ prs]) simp_all
  with b(1,2) show ?thesis by blast
qed

lemma make_pair_fits: "i < 256 ^ w \<Longrightarrow> make_pair w i x = (i, x)"
  by (simp add: make_pair_def power_mult)

lemma Topk_Compress_carries:
  assumes dt: "float_type dt" "bt_dtype g = data_type_value dt" "w = type_width dt"
    and len: "len = bt_size g div w" "0 < k" "k \<le> len div 2" "len \<le> 256 ^ w" "bt_size g \<le> length (cb_buf cb)"
    and v: "\<And>i. i < len \<Longrightarrow> elt w (bt_data g) i = Inr (v i) \<and> \<not> scalar_nan fo dt (v i)"
  shows "\<exists>cb' c S. Topk_Compress fo k cb g = Inr (cb', c) \<and> bt_size c = k * (2 * w) \<and>
    cb_size cb' = cb_size cb \<and> cb_dtype cb' = cb_dtype cb \<and> length (cb_buf cb') = length (cb_buf cb) \<and>
    length (bt_data c) = length (cb_buf cb) \<and>
    selects fo dt v len k S \<and> carries w c v S"
proof -
  let ?xs = "map (\<lambda>i. make_pair w i (v i)) [0..<len]"
  let ?h = "foldl (mag.keep fo dt k) [] ?xs"
  have xs: "?xs = map (\<lambda>i. (i, v i)) [0..<len]" using len(4) by (auto simp: make_pair_fits)
  have loop: "foldl (\<lambda>r i. rbind r (topk_step fo dt k (bt_data g) i)) (Inr []) [0..<len] = Inr ?h"
    unfolding dt(3) by (rule topk_loop_keep [OF len(2)]) (use v dt(3) in auto)
  have "mag.kept fo dt k ?xs ?h" by (rule mag.kept_all [OF len(2)])
  then obtain S where S: "selects fo dt v len k S" "distinct ?h" "set ?h = (\<lambda>i. (i, v i)) ` S"
    unfolding xs using kept_selects by blast
  have "length ?h = k"
    using mag.kept_all [OF len(2), of fo dt ?xs] len(3) by (simp add: mag.kept_def)
  then obtain h where h: "length h = k" "set h = (\<lambda>i. (i, v i)) ` S"
    and loop: "foldl (\<lambda>r i. rbind r (topk_step fo dt k (bt_data g) i)) (Inr []) [0..<len] = Inr h"
    using loop S(3) by blast
  have small: "\<forall>p \<in> set h. fst p < 256 ^ w \<and> snd p < 256 ^ w"
  proof
    fix p assume "p \<in> set h"
    then obtain i where i: "p = (i, v i)" "i < len" using S(1) h(2) by (auto simp: selects_def)
    then have "v i < 256 ^ w" using v elt_less by blast
    then show "fst p < 256 ^ w \<and> snd p < 256 ^ w" using i len(4) by simp
  qed
  have "k * (2 * w) \<le> length (cb_buf cb)"
  proof -
    have "k * (2 * w) \<le> len div 2 * 2 * w" using len(3) by simp
    also have "\<dots> \<le> len * w" by (intro mult_le_mono1) simp
    also have "\<dots> \<le> bt_size g" using len(1) by simp
    finally show ?thesis using len(5) by simp
  qed
  then obtain buf where b: "put_pairs w h (cb_buf cb) = Inr buf" "length buf = length (cb_buf cb)"
    "carries w \<lparr>bt_data = buf, bt_size = k * (2 * w), bt_dtype = 0\<rparr> v S"
    using store_pairs [OF _ small h(2), of "cb_buf cb"] unfolding h(1) by blast
  have "Topk_CompressImpl fo k dt (cb_buf cb) (bt_data g) len = Inr (buf, k * (2 * w))"
    using loop b(1) len(3) dt(3) by (simp add: Topk_CompressImpl_def)
  then have "Topk_Compress fo k cb g =
      Inr (cb\<lparr>cb_buf := buf\<rparr>, \<lparr>bt_data = buf, bt_size = k * (2 * w), bt_dtype = 0\<rparr>)"
    using dt len(1) by (simp add: Topk_Compress_def)
  then show ?thesis using S(1) b(2,3) by auto
qed

lemma randomk_loop:
  assumes "0 < len" "len < 2 ^ 64" "len \<le> 256 ^ w"
    and "\<And>i. i < len \<Longrightarrow> elt w src i = Inr (v i)"
  shows "\<exists>prs st'. foldl (\<lambda>r i. rbind r (randomk_draw w src len)) (Inr ([], st)) [0..<k] = Inr (prs, st') \<and>
    length prs = k \<and> set prs \<subseteq> (\<lambda>i. (i, v i)) ` {..<len}"
proof (induction k)
  case (Suc k)
  then obtain prs st1 where p: "foldl (\<lambda>r i. rbind r (randomk_draw w src len)) (Inr ([], st)) [0..<k] = Inr (prs, st1)"
    "length prs = k" "set prs \<subseteq> (\<lambda>i. (i, v i)) ` {..<len}" by blast
  obtain x st2 where x: "xorshift128p st1 = (x, st2)" by (cases "xorshift128p st1")
  let ?i = "unat (x mod of_nat len)"
  have u: "unat (of_nat len :: u64) = len" using assms(2) by (simp add: unat_of_nat)
  then have nz: "(of_nat len :: u64) \<noteq> 0" using assms(1) by (metis not_less_zero unat_0)
  have i: "?i < len" using assms(1) u by (simp add: unat_mod)
  then have "randomk_draw w src len (prs, st1) = Inr (prs @ [(?i, v ?i)], st2)"
    using nz x assms(3,4) by (simp add: randomk_draw_def Randint_def make_pair_fits)
  then show ?case using p i by auto
qed simp

lemma Randomk_Compress_carries:
  assumes dt: "float_type dt" "bt_dtype g = data_type_value dt" "w = type_width dt"
    and len: "len = bt_size g div w" "0 < k" "k \<le> len div 2" "len \<le> 256 ^ w" "bt_size g \<le> length (cb_buf cb)"
      "len < 2 ^ 64"
    and v: "\<And>i. i < len \<Longrightarrow> elt w (bt_data g) i = Inr (v i)"
  shows "\<exists>st' cb' c S. Randomk_Compress k st cb g = Inr (st', cb', c) \<and> bt_size c = k * (2 * w) \<and>
    cb_size cb' = cb_size cb \<and> cb_dtype cb' = cb_dtype cb \<and> length (cb_buf cb') = length (cb_buf cb) \<and>
    length (bt_data c) = length (cb_buf cb) \<and>
    S \<subseteq> {..<len} \<and> card S \<le> k \<and> carries w c v S"
proof -
  have l0: "0 < len" using len(2,3) by (cases len) simp_all
  obtain prs st' where p: "foldl (\<lambda>r i. rbind r (randomk_draw w (bt_data g) len)) (Inr ([], st)) [0..<k] = Inr (prs, st')"
    "length prs = k" "set prs \<subseteq> (\<lambda>i. (i, v i)) ` {..<len}"
    using randomk_loop [OF l0 len(6,4), of "bt_data g" v st k] v by auto
  let ?S = "fst ` set prs"
  have S: "set prs = (\<lambda>i. (i, v i)) ` ?S" "?S \<subseteq> {..<len}" using p(3) by force+
  have c: "card ?S \<le> k" using p(2) by (metis card_image_le card_length finite_set order.trans)
  have small: "\<forall>q \<in> set prs. fst q < 256 ^ w \<and> snd q < 256 ^ w"
  proof
    fix q assume "q \<in> set prs"
    then obtain i where i: "q = (i, v i)" "i < len" using p(3) by auto
    then have "v i < 256 ^ w" using v elt_less by blast
    then show "fst q < 256 ^ w \<and> snd q < 256 ^ w" using i len(4) by simp
  qed
  have "k * (2 * w) \<le> length (cb_buf cb)"
  proof -
    have "k * (2 * w) \<le> len div 2 * 2 * w" using len(3) by simp
    also have "\<dots> \<le> len * w" by (intro mult_le_mono1) simp
    also have "\<dots> \<le> bt_size g" using len(1) by simp
    finally show ?thesis using len(5) by simp
  qed
  then obtain buf where b: "put_pairs w prs (cb_buf cb) = Inr buf" "length buf = length (cb_buf cb)"
    "carries w \<lparr>bt_data = buf, bt_size = k * (2 * w), bt_dtype = 0\<rparr> v ?S"
    using store_pairs [OF _ small S(1), of "cb_buf cb"] unfolding p(2) by blast
  have "Randomk_CompressImpl k st dt (cb_buf cb) (bt_data g) len = Inr (st', buf, k * (2 * w))"
    using p(1) b(1) len(3) dt(3) by (simp add: Randomk_CompressImpl_def)
  then have "Randomk_Compress k st cb g =
      Inr (st', cb\<lparr>cb_buf := buf\<rparr>, \<lparr>bt_data = buf, bt_size = k * (2 * w), bt_dtype = 0\<rparr>)"
    using dt len(1) by (simp add: Randomk_Compress_def)
  then show ?thesis using S(2) c b(2,3) by auto
qed

end
