(* ===== verification/Dithering.thy ===== *)
theory Dithering
  imports Sparse
begin

section \<open>The dithering compressor\<close>

text \<open>
  Models \<open>deep_inc/common/compressor/impl/dithering.cc\<close>: each scalar is divided by a common scale
  and rounded at random to one of the levels; the levels that are not zero are written as a bit
  stream of the distance to the previous one, the sign and the level, in Elias delta code, and
  behind the stream stand its length in bits, cut to the width of a scalar, and the scale.
\<close>

datatype partition_type = LINEAR | NATURAL
datatype normalize_type = NORM_MAX | NORM_L2

record dither_params =
  dp_s :: nat
  dp_ptype :: partition_type
  dp_ntype :: normalize_type

text \<open>
  What the compiler computes beside the float operations: \<open>floor(log2(x))\<close> for the code, and the
  rounding of the number of bits to \<open>float\<close>.
\<close>

record dither_ops = double_ops +
  flog2_of :: "nat \<Rightarrow> nat"
  round_f32 :: "nat \<Rightarrow> nat"

definition dops :: "dither_ops \<Rightarrow> double_ops" where
  "dops fo = double_ops.truncate fo"

subsection \<open>The scale\<close>

definition max_scale :: "dither_ops \<Rightarrow> data_type \<Rightarrow> nat \<Rightarrow> u8 list \<Rightarrow> nat \<Rightarrow> u64 res" where
  "max_scale fo dt w src len =
     foldl (\<lambda>r i. rbind r (\<lambda>scale. rbind (elt w src i) (\<lambda>x.
       let a = abs_double (dops fo) dt x
       in Inr (if scalar_abs_greater (ops_of fo) BYTEPS_FLOAT64 (unat scale) (unat a) then scale else a))))
       (Inr (f32_to_f64 fo 0)) [0..<len]"

definition l2_scale :: "dither_ops \<Rightarrow> data_type \<Rightarrow> nat \<Rightarrow> u8 list \<Rightarrow> nat \<Rightarrow> u64 res" where
  "l2_scale fo dt w src len =
     rbind (foldl (\<lambda>r i. rbind r (\<lambda>scale. rbind (elt w src i) (\<lambda>x.
              Inr (f64_add fo scale (square_double (dops fo) dt x))))) (Inr (f32_to_f64 fo 0)) [0..<len])
       (\<lambda>sum. Inr (f64_sqrt fo sum))"

subsection \<open>Quantisation\<close>

text \<open>\<open>Bernoulli(p)\<close> compares the next random number with \<open>p * MAX\<close> in \<open>double\<close>.\<close>

definition below_p :: "dither_ops \<Rightarrow> u64 \<Rightarrow> u64 \<Rightarrow> bool" where
  "below_p fo p x = f64_less fo (nat_to_f64 fo (unat x)) (f64_mul fo p (nat_to_f64 fo (2 ^ 64 - 1)))"

definition quantize_linear :: "dither_ops \<Rightarrow> nat \<Rightarrow> data_type \<Rightarrow> u64 \<Rightarrow> nat \<Rightarrow> rng \<Rightarrow> (u32 \<times> rng) res" where
  "quantize_linear fo s dt scale x st =
     (let abs_x = abs_float (dops fo) dt x;
          normalized = f64_to_f32 fo (f64_mul fo (f64_div fo (f32_to_f64 fo abs_x) scale) (nat_to_f64 fo s));
          flr = f32_floor fo normalized;
          (b, st') = Bernoulli (below_p fo (f32_to_f64 fo (f32_sub fo normalized flr))) st
      in case f32_to_int fo (f32_add fo flr (int_to_f32 fo (of_bool b))) of
           None \<Rightarrow> Inl (Undefined ''float to unsigned'')
         | Some q \<Rightarrow> check (- 1 < q \<and> q < 2 ^ 32) (Undefined ''float to unsigned'') (Inr (of_int q, st')))"

definition natural_level :: "nat \<Rightarrow> nat res" where
  "natural_level s = check (0 < s \<and> s \<le> 32) (Undefined ''shift'') (Inr (2 ^ (s - 1)))"

definition quantize_natural :: "dither_ops \<Rightarrow> nat \<Rightarrow> data_type \<Rightarrow> u64 \<Rightarrow> nat \<Rightarrow> rng \<Rightarrow> (u32 \<times> rng) res" where
  "quantize_natural fo s dt scale x st =
     rbind (natural_level s) (\<lambda>level.
       let abs_x = abs_float (dops fo) dt x;
           normalized = f64_mul fo (f64_div fo (f32_to_f64 fo abs_x) scale) (nat_to_f64 fo level)
       in case f64_to_u32 fo (f64_ceil fo normalized) of
            None \<Rightarrow> Inl (Undefined ''double to unsigned'')
          | Some c \<Rightarrow>
              (let flr = drop_bit 1 (RoundNextPow2 c);
                   len = (if flr \<noteq> 0 then flr else 1);
                   p = f64_div fo (f64_sub fo normalized (nat_to_f64 fo (unat flr))) (nat_to_f64 fo (unat len));
                   (b, st') = Bernoulli (below_p fo p) st
               in Inr (flr + len * of_bool b, st')))"

definition quantize :: "dither_ops \<Rightarrow> dither_params \<Rightarrow> data_type \<Rightarrow> u64 \<Rightarrow> nat \<Rightarrow> rng \<Rightarrow> (u32 \<times> rng) res" where
  "quantize fo dp dt scale x st =
     (case dp_ptype dp of
        LINEAR \<Rightarrow> quantize_linear fo (dp_s dp) dt scale x st
      | NATURAL \<Rightarrow> quantize_natural fo (dp_s dp) dt scale x st)"

subsection \<open>Compression\<close>

text \<open>The distance is taken modulo \<open>2 ^ 64\<close>: the position before the first is \<open>-1\<close>.\<close>

fun dither_loop :: "dither_ops \<Rightarrow> dither_params \<Rightarrow> data_type \<Rightarrow> nat \<Rightarrow> u8 list \<Rightarrow> u64 \<Rightarrow> nat list \<Rightarrow>
    u64 \<Rightarrow> rng \<Rightarrow> 'w::len word bit_writer \<Rightarrow> (rng \<times> 'w word bit_writer) res" where
  "dither_loop fo dp dt w src scale [] prev st bw = Inr (st, bw)"
| "dither_loop fo dp dt w src scale (i # is) prev st bw =
     rbind (elt w src i) (\<lambda>x.
     rbind (quantize fo dp dt scale x st) (\<lambda>(q, st').
       if q = 0 then dither_loop fo dp dt w src scale is prev st' bw
       else rbind (EliasDeltaEncode (flog2_of fo) (unat (of_nat i - prev)) bw) (\<lambda>bw1.
            rbind (Put (sign_bit (ops_of fo) dt x) bw1) (\<lambda>bw2.
            rbind (EliasDeltaEncode (flog2_of fo) (unat q) bw2) (\<lambda>bw3.
              dither_loop fo dp dt w src scale is (of_nat i) st' bw3)))))"

text \<open>A buffer as blocks of the stream, and the blocks stored back over it.\<close>

definition blocks_of :: "nat \<Rightarrow> u8 list \<Rightarrow> 'w::len word list" where
  "blocks_of w buf = map (\<lambda>i. of_nat (le_value (take w (drop (i * w) buf)))) [0..<length buf div w]"

definition store_blocks :: "nat \<Rightarrow> 'w::len word list \<Rightarrow> u8 list \<Rightarrow> u8 list" where
  "store_blocks w bs buf = concat (map (\<lambda>b. le_bytes w (unat b)) bs) @ drop (length bs * w) buf"

definition Dithering_CompressImpl :: "dither_ops \<Rightarrow> dither_params \<Rightarrow> data_type \<Rightarrow> 'w::len word list \<Rightarrow>
    u8 list \<Rightarrow> u8 list \<Rightarrow> nat \<Rightarrow> rng \<Rightarrow> (rng \<times> u8 list \<times> nat) res" where
  "Dithering_CompressImpl fo dp dt blocks dst src len st =
     (let w = type_width dt
      in rbind (case dp_ntype dp of NORM_MAX \<Rightarrow> max_scale fo dt w src len | NORM_L2 \<Rightarrow> l2_scale fo dt w src len) (\<lambda>scale.
         rbind (dither_loop fo dp dt w src scale [0..<len] (- 1) st (BitWriter blocks)) (\<lambda>(st', bw).
         rbind (Flush bw) (\<lambda>bw'.
           let n = writer_blocks (round_f32 fo) bw
           in rbind (put_elt w (store_blocks w (bw_data bw') dst) n (writer_bits bw)) (\<lambda>dst1.
              rbind (put_float dst1 ((n + 1) * w) (f64_to_f32 fo scale)) (\<lambda>dst2.
                Inr (st', dst2, n * w + w + 4)))))))"

definition Dithering_Compress :: "dither_ops \<Rightarrow> dither_params \<Rightarrow> rng \<Rightarrow> compressor_base \<Rightarrow> bps_tensor \<Rightarrow>
    (rng \<times> compressor_base \<times> bps_tensor) res" where
  "Dithering_Compress fo dp st cb grad =
     impl_switch (bt_dtype grad) (\<lambda>dt.
       let buf = cb_buf cb; len = bt_size grad div type_width dt
       in rbind (if dt = BYTEPS_FLOAT16
                 then Dithering_CompressImpl fo dp dt (blocks_of 2 buf :: u16 list) buf (bt_data grad) len st
                 else if dt = BYTEPS_FLOAT32
                 then Dithering_CompressImpl fo dp dt (blocks_of 4 buf :: u32 list) buf (bt_data grad) len st
                 else Dithering_CompressImpl fo dp dt (blocks_of 8 buf :: u64 list) buf (bt_data grad) len st)
            (\<lambda>(st', dst, n). Inr (st', cb\<lparr>cb_buf := dst\<rparr>, \<lparr>bt_data = dst, bt_size = n, bt_dtype = 0\<rparr>)))"

subsection \<open>Decompression\<close>

lemma leading_zeros_left: "leading_zeros n r = Inr (k, r') \<Longrightarrow> bits_left r' < bits_left r"
proof (induction n r rule: leading_zeros.induct)
  case (1 n r)
  show ?case
  proof (cases "GetBit r")
    case (Inl e)
    then show ?thesis using "1.prems" by (subst (asm) leading_zeros.simps) simp
  next
    case (Inr br)
    obtain b r1 where b: "br = (b, r1)" by (cases br)
    have l: "bits_left r1 < bits_left r" using Inr b by (intro GetBit_left) simp
    show ?thesis
    proof (cases b)
      case True
      then show ?thesis using "1.prems" Inr b l by (subst (asm) leading_zeros.simps) simp
    next
      case False
      then have "leading_zeros (n + 1) r1 = Inr (k, r')"
        using "1.prems" Inr b by (subst (asm) leading_zeros.simps) simp
      then show ?thesis using "1.IH" [OF Inr b [symmetric] False] l by simp
    qed
  qed
qed

lemma read_bits_left: "read_bits n acc r = Inr (x, r') \<Longrightarrow> bits_left r' \<le> bits_left r"
proof (induction n arbitrary: acc r)
  case (Suc n)
  then obtain b r1 where "GetBit r = Inr (b, r1)" "read_bits n (2 * acc + of_bool b) r1 = Inr (x, r')"
    by (auto simp: res_simps)
  then show ?case using Suc.IH GetBit_left by fastforce
qed simp

lemma EliasDeltaDecode_left: "EliasDeltaDecode r = Inr (x, r') \<Longrightarrow> bits_left r' < bits_left r"
  unfolding EliasDeltaDecode_def
  by (fastforce simp: res_simps dest: leading_zeros_left read_bits_left)

text \<open>
  The loop over the entries of the stream; \<open>act\<close> is what is done with the position, the sign and
  the level of one. It ends because every turn reads bits of a finite buffer.
\<close>

definition next_entry :: "u64 \<Rightarrow> 'w::len word bit_reader \<Rightarrow> (u64 \<times> bool \<times> nat \<times> 'w word bit_reader) res" where
  "next_entry prev r =
     rbind (EliasDeltaDecode r) (\<lambda>(diff, r1).
     rbind (GetBit r1) (\<lambda>(neg, r2).
     rbind (EliasDeltaDecode r2) (\<lambda>(q, r3). Inr (prev + of_nat diff, neg, q mod 2 ^ 32, r3))))"

lemma next_entry_left: "next_entry prev r = Inr (i, neg, q, r') \<Longrightarrow> bits_left r' < bits_left r"
  unfolding next_entry_def by (fastforce simp: res_simps dest: EliasDeltaDecode_left GetBit_left)

function dither_decode :: "(nat \<Rightarrow> bool \<Rightarrow> nat \<Rightarrow> u8 list \<Rightarrow> u8 list res) \<Rightarrow> nat \<Rightarrow> u64 \<Rightarrow>
    'w::len word bit_reader \<Rightarrow> u8 list \<Rightarrow> u8 list res" where
  "dither_decode act bits prev r out =
     (if reader_bits r < bits
      then (case next_entry prev r of
              Inl e \<Rightarrow> Inl e
            | Inr (i, neg, q, r') \<Rightarrow>
                (case act (unat i) neg q out of
                   Inl e \<Rightarrow> Inl e
                 | Inr out' \<Rightarrow> dither_decode act bits i r' out'))
      else Inr out)"
  by pat_completeness auto
termination
  by (relation "measure (\<lambda>(act, bits, prev, r, out). bits_left r)") (auto intro: next_entry_left)

declare dither_decode.simps [simp del]

text \<open>\<open>quantized * scale / s\<close>, and \<open>(1 - (signbit << 1)) * num\<close>.\<close>

definition dither_value :: "dither_ops \<Rightarrow> u32 \<Rightarrow> nat \<Rightarrow> bool \<Rightarrow> nat \<Rightarrow> u32" where
  "dither_value fo scale s neg q =
     f32_mul fo (int_to_f32 fo (1 - 2 * of_bool neg))
       (f32_div fo (f32_mul fo (int_to_f32 fo (int q)) scale) (int_to_f32 fo (int s)))"

definition level_count :: "dither_params \<Rightarrow> nat res" where
  "level_count dp = (case dp_ptype dp of LINEAR \<Rightarrow> Inr (dp_s dp) | NATURAL \<Rightarrow> natural_level (dp_s dp))"

text \<open>The two numbers behind the stream: the length of the stream in bits and the scale.\<close>

definition dither_trailer :: "nat \<Rightarrow> bps_tensor \<Rightarrow> (nat \<times> u32) res" where
  "dither_trailer w t =
     check (4 + w \<le> bt_size t) (Undefined ''size wraps'')
       (let blocks = (bt_size t - 4 - w) div w
        in rbind (elt w (bt_data t) blocks) (\<lambda>bits.
           rbind (get_float (bt_data t) ((blocks + 1) * w)) (\<lambda>scale. Inr (bits, scale))))"

definition Dithering_DecompressImpl :: "bool \<Rightarrow> dither_ops \<Rightarrow> dither_params \<Rightarrow> data_type \<Rightarrow> compressor_base \<Rightarrow>
    bps_tensor \<Rightarrow> (u8 list \<Rightarrow> 'w::len word list) \<Rightarrow> (compressor_base \<times> bps_tensor) res" where
  "Dithering_DecompressImpl server fo dp dt cb t blocks =
     (let w = type_width dt
      in rbind (dither_trailer w t) (\<lambda>(bits, scale).
         rbind (decompress_src server cb t) (\<lambda>(cb1, dst, src).
         rbind (memset_zero dst (cb_size cb)) (\<lambda>zeroed.
         rbind (level_count dp) (\<lambda>s.
         rbind (dither_decode (\<lambda>i neg q out. put_elt w out i (of_float (dops fo) dt (dither_value fo scale s neg q)))
                  bits (- 1) (BitReader (blocks src)) zeroed) (\<lambda>out.
           Inr (decompress_dst server cb1 out)))))))"

definition Dithering_Decompress :: "bool \<Rightarrow> dither_ops \<Rightarrow> dither_params \<Rightarrow> compressor_base \<Rightarrow> bps_tensor \<Rightarrow>
    (compressor_base \<times> bps_tensor) res" where
  "Dithering_Decompress server fo dp cb t =
     impl_switch (data_type_value (cb_dtype cb)) (\<lambda>dt.
       if dt = BYTEPS_FLOAT16
       then Dithering_DecompressImpl server fo dp dt cb t (blocks_of 2 :: u8 list \<Rightarrow> u16 list)
       else if dt = BYTEPS_FLOAT32
       then Dithering_DecompressImpl server fo dp dt cb t (blocks_of 4 :: u8 list \<Rightarrow> u32 list)
       else Dithering_DecompressImpl server fo dp dt cb t (blocks_of 8 :: u8 list \<Rightarrow> u64 list))"

definition Dithering_FastUpdateErrorImpl :: "dither_ops \<Rightarrow> dither_params \<Rightarrow> data_type \<Rightarrow> compressor_base \<Rightarrow>
    u8 list \<Rightarrow> u8 list \<Rightarrow> bps_tensor \<Rightarrow> (u8 list \<Rightarrow> 'w::len word list) \<Rightarrow> u8 list res" where
  "Dithering_FastUpdateErrorImpl fo dp dt cb error corrected t blocks =
     (let w = type_width dt
      in rbind (dither_trailer w t) (\<lambda>(bits, scale).
         rbind (memcpy_at error corrected 0 (cb_size cb)) (\<lambda>e.
         rbind (level_count dp) (\<lambda>s.
           dither_decode (\<lambda>i neg q out. rbind (elt w out i) (\<lambda>x.
               put_elt w out i (sub_float (dops fo) dt x (dither_value fo scale s neg q))))
             bits (- 1) (BitReader (blocks (bt_data t))) e))))"

definition Dithering_FastUpdateError :: "dither_ops \<Rightarrow> dither_params \<Rightarrow> compressor_base \<Rightarrow> u8 list \<Rightarrow>
    u8 list \<Rightarrow> bps_tensor \<Rightarrow> u8 list res" where
  "Dithering_FastUpdateError fo dp cb error corrected t =
     impl_switch (data_type_value (cb_dtype cb)) (\<lambda>dt.
       if dt = BYTEPS_FLOAT16
       then Dithering_FastUpdateErrorImpl fo dp dt cb error corrected t (blocks_of 2 :: u8 list \<Rightarrow> u16 list)
       else if dt = BYTEPS_FLOAT32
       then Dithering_FastUpdateErrorImpl fo dp dt cb error corrected t (blocks_of 4 :: u8 list \<Rightarrow> u32 list)
       else Dithering_FastUpdateErrorImpl fo dp dt cb error corrected t (blocks_of 8 :: u8 list \<Rightarrow> u64 list))"

subsection \<open>The stream\<close>

text \<open>The entries of the stream, and the bits they are coded as.\<close>

type_synonym entry = "nat \<times> bool \<times> nat"

fun dither_entries :: "dither_ops \<Rightarrow> dither_params \<Rightarrow> data_type \<Rightarrow> nat \<Rightarrow> u8 list \<Rightarrow> u64 \<Rightarrow> nat list \<Rightarrow>
    rng \<Rightarrow> (entry list \<times> rng) res" where
  "dither_entries fo dp dt w src scale [] st = Inr ([], st)"
| "dither_entries fo dp dt w src scale (i # is) st =
     rbind (elt w src i) (\<lambda>x.
     rbind (quantize fo dp dt scale x st) (\<lambda>(q, st').
     rbind (dither_entries fo dp dt w src scale is st') (\<lambda>(es, st'').
       Inr (if q = 0 then es else (i, sign_bit (ops_of fo) dt x, unat q) # es, st''))))"

fun entry_bits :: "(nat \<Rightarrow> nat) \<Rightarrow> nat \<Rightarrow> entry list \<Rightarrow> bool list" where
  "entry_bits flog2 p [] = []"
| "entry_bits flog2 p ((i, neg, q) # es) =
     elias_bits flog2 (i + 1 - p) @ neg # elias_bits flog2 q @ entry_bits flog2 (i + 1) es"

fun entries_ok :: "nat \<Rightarrow> entry list \<Rightarrow> bool" where
  "entries_ok p [] = True"
| "entries_ok p ((i, neg, q) # es) \<longleftrightarrow> p \<le> i \<and> 0 < q \<and> q < 2 ^ 32 \<and> entries_ok (i + 1) es"

lemma entries_ok_mono: "entries_ok p es \<Longrightarrow> p' \<le> p \<Longrightarrow> entries_ok p' es"
  by (cases es) auto

lemma dither_entries_ok:
  "dither_entries fo dp dt w src scale [p..<len] st = Inr (es, st') \<Longrightarrow> entries_ok p es \<and> fst ` set es \<subseteq> {p..<len}"
proof (induction "len - p" arbitrary: p st es)
  case (Suc n)
  then have up: "[p..<len] = p # [p + 1..<len]" by (simp add: upt_conv_Cons)
  obtain x q st1 es1 where e: "quantize fo dp dt scale x st = Inr (q, st1)"
    "dither_entries fo dp dt w src scale [p + 1..<len] st1 = Inr (es1, st')"
    "es = (if q = 0 then es1 else (p, sign_bit (ops_of fo) dt x, unat q) # es1)"
    using Suc.prems unfolding up by (auto simp: res_simps)
  have IH: "entries_ok (p + 1) es1" "fst ` set es1 \<subseteq> {p + 1..<len}"
    using Suc.hyps(1) [of "p + 1"] Suc.hyps(2) e(2) by auto
  have "0 < unat q" if "q \<noteq> 0" using that by (simp add: unat_gt_0)
  moreover have "unat q < 2 ^ 32" using unsigned_less [of q] by simp
  moreover have "p < len" using Suc.hyps(2) by simp
  ultimately show ?case using IH e(3) entries_ok_mono [OF IH(1), of p] by (auto split: if_splits)
qed simp

lemma distance:
  assumes "p \<le> i" and "i + 1 < 2 ^ 64"
  shows "unat (of_nat i - (of_nat p - 1) :: u64) = i + 1 - p"
proof -
  have "(of_nat i - (of_nat p - 1) :: u64) = of_nat (i + 1 - p)" using assms(1) by (simp add: of_nat_diff)
  moreover have "i + 1 - p < 2 ^ 64" using assms(2) by linarith
  ultimately show ?thesis by (simp add: unat_of_nat)
qed

lemma dither_loop_stream:
  fixes bw :: "'w::len word bit_writer"
  assumes "dither_entries fo dp dt w src scale [p..<len] st = Inr (es, st')" and "prev = of_nat p'  - 1"
    and "p' \<le> p" and "len < 2 ^ 64"
  shows "dither_loop fo dp dt w src scale [p..<len] prev st bw =
    rbind (put_all (entry_bits (flog2_of fo) p' es) bw) (\<lambda>bw'. Inr (st', bw'))"
  using assms
proof (induction "len - p" arbitrary: p p' prev st es bw)
  case (Suc n)
  then have up: "[p..<len] = p # [p + 1..<len]" by (simp add: upt_conv_Cons)
  obtain x q st1 es1 where x: "elt w src p = Inr x"
    and e: "quantize fo dp dt scale x st = Inr (q, st1)"
    "dither_entries fo dp dt w src scale [p + 1..<len] st1 = Inr (es1, st')"
    "es = (if q = 0 then es1 else (p, sign_bit (ops_of fo) dt x, unat q) # es1)"
    using Suc.prems(1) unfolding up by (auto simp: res_simps)
  have IH: "dither_loop fo dp dt w src scale [p + 1..<len] prv st1 bw1 =
      rbind (put_all (entry_bits (flog2_of fo) p1 es1) bw1) (\<lambda>bw'. Inr (st', bw'))"
    if "prv = of_nat p1 - 1" "p1 \<le> p + 1" for prv p1 and bw1 :: "'w word bit_writer"
    using Suc.hyps(1) [of "p + 1" st1 es1 prv p1 bw1] Suc.hyps(2) e(2) that Suc.prems(4) by simp
  show ?case
  proof (cases "q = 0")
    case True
    then show ?thesis using IH [of prev p' bw] Suc.prems x e unfolding up by simp
  next
    case False
    have p: "p + 1 < 2 ^ 64" "p < len" using Suc.hyps(2) Suc.prems(4) by simp_all
    have "unat (of_nat p - prev) = p + 1 - p'" using distance [OF Suc.prems(3) p(1)] Suc.prems(2) by simp
    moreover have "p + 1 - p' \<noteq> 0" using Suc.prems(3) by simp
    moreover have "unat q \<noteq> 0" using False by (simp add: unat_eq_0)
    moreover have "dither_loop fo dp dt w src scale [p + 1..<len] (of_nat p) st1 =
        (\<lambda>bw1 :: 'w word bit_writer. rbind (put_all (entry_bits (flog2_of fo) (p + 1) es1) bw1) (\<lambda>bw'. Inr (st', bw')))"
      using IH [of "of_nat p" "p + 1"] by (intro ext) simp
    ultimately show ?thesis
      using x e False unfolding up by (simp add: encode_put_all put_all_append rbind_assoc)
  qed
qed simp

text \<open>Where a reader stands, and that reading moves it.\<close>

definition reader_inv :: "'w::len word bit_reader \<Rightarrow> bool" where
  "reader_inv r \<longleftrightarrow> reader_ok r \<and> br_used r \<le> br_blocks r * LENGTH('w)"

lemma reader_bits_pending:
  fixes r :: "'w::len word bit_reader"
  assumes "reader_inv r"
  shows "reader_bits r + length (pending r) = length (br_data r) * LENGTH('w)"
proof -
  have "length (concat (map word_bits (drop (br_blocks r) (br_data r)))) = (length (br_data r) - br_blocks r) * LENGTH('w)"
    by (induction "drop (br_blocks r) (br_data r)" arbitrary: r) (simp_all add: length_concat comp_def sum_list_triv)
  then have "length (pending r) = br_used r + (length (br_data r) * LENGTH('w) - br_blocks r * LENGTH('w))"
    by (simp add: pending_def diff_mult_distrib)
  moreover have "reader_bits r = br_blocks r * LENGTH('w) - br_used r" by (simp add: reader_bits_def)
  moreover have "br_blocks r * LENGTH('w) \<le> length (br_data r) * LENGTH('w)"
    using assms by (intro mult_le_mono1) (simp add: reader_inv_def reader_ok_def)
  moreover have "br_used r \<le> br_blocks r * LENGTH('w)" using assms by (simp add: reader_inv_def)
  ultimately show ?thesis by linarith
qed

lemma GetBit_inv:
  assumes "GetBit r = Inr (b, r')" and "reader_inv r"
  shows "reader_inv r' \<and> br_data r' = br_data r"
  using assms by (auto simp: GetBit_def res_simps reader_inv_def reader_ok_def vec_get_def split: if_splits)

lemma leading_zeros_inv:
  "leading_zeros n r = Inr (k, r') \<Longrightarrow> reader_inv r \<Longrightarrow> reader_inv r' \<and> br_data r' = br_data r"
proof (induction n r rule: leading_zeros.induct)
  case (1 n r)
  show ?case
  proof (cases "GetBit r")
    case (Inl e)
    then show ?thesis using "1.prems" by (subst (asm) leading_zeros.simps) simp
  next
    case (Inr br)
    obtain b r1 where b: "br = (b, r1)" by (cases br)
    have l: "reader_inv r1" "br_data r1 = br_data r" using GetBit_inv Inr b "1.prems"(2) by blast+
    show ?thesis
    proof (cases b)
      case True
      then show ?thesis using "1.prems" Inr b l by (subst (asm) leading_zeros.simps) simp
    next
      case False
      then have "leading_zeros (n + 1) r1 = Inr (k, r')"
        using "1.prems" Inr b by (subst (asm) leading_zeros.simps) simp
      then show ?thesis using "1.IH" [OF Inr b [symmetric] False] l by simp
    qed
  qed
qed

lemma read_bits_inv:
  "read_bits n acc r = Inr (x, r') \<Longrightarrow> reader_inv r \<Longrightarrow> reader_inv r' \<and> br_data r' = br_data r"
proof (induction n arbitrary: acc r)
  case (Suc n)
  then obtain b r1 where "GetBit r = Inr (b, r1)" "read_bits n (2 * acc + of_bool b) r1 = Inr (x, r')"
    by (auto simp: res_simps)
  then show ?case using Suc.IH Suc.prems(2) GetBit_inv by metis
qed simp

lemma EliasDeltaDecode_inv:
  "EliasDeltaDecode r = Inr (x, r') \<Longrightarrow> reader_inv r \<Longrightarrow> reader_inv r' \<and> br_data r' = br_data r"
  unfolding EliasDeltaDecode_def
  by (auto simp: res_simps dest!: leading_zeros_inv read_bits_inv)

lemma next_entry_inv:
  "next_entry prev r = Inr (i, neg, q, r') \<Longrightarrow> reader_inv r \<Longrightarrow> reader_inv r' \<and> br_data r' = br_data r"
  unfolding next_entry_def
  by (auto simp: res_simps dest!: EliasDeltaDecode_inv GetBit_inv)

lemma next_entry_pending:
  fixes r :: "'w::len word bit_reader"
  assumes "reader_inv r" and w: "LENGTH('w) \<le> 32" and log: "exact_log2 flog2 m" "64 < m" "len < m" "2 ^ 32 \<le> m"
    and len: "len + 1 < 2 ^ 64"
    and "pending r = entry_bits flog2 p ((i, neg, q) # es) @ pad"
    and "p \<le> i" "i < len" "0 < q" "q < 2 ^ 32" and prev: "prev = of_nat p - 1"
  shows "\<exists>r'. next_entry prev r = Inr (of_nat i, neg, q, r') \<and> reader_inv r' \<and> br_data r' = br_data r \<and>
    pending r' = entry_bits flog2 (i + 1) es @ pad"
proof -
  have ok: "reader_ok r" using assms(1) by (simp add: reader_inv_def)
  let ?b2 = "entry_bits flog2 (i + 1) es @ pad"
  have d: "0 < i + 1 - p" "i + 1 - p < m" "i + 1 - p < 2 ^ 64" "q < m"
    using assms(9-12) log(3,4) len by linarith+
  have q: "q < 2 ^ 64" using assms(12) by simp
  have p: "pending r = elias_bits flog2 (i + 1 - p) @ neg # elias_bits flog2 q @ ?b2" using assms(8) by simp
  obtain r1 where r1: "EliasDeltaDecode r = Inr (i + 1 - p, r1)" "reader_ok r1"
    "pending r1 = neg # elias_bits flog2 q @ ?b2"
    using elias_decode_pending [OF ok w p log(1) d(1-3) log(2)] by blast
  obtain r2 where r2: "GetBit r1 = Inr (neg, r2)" "reader_ok r2" "pending r2 = elias_bits flog2 q @ ?b2"
    using GetBit_pending [OF r1(2) w r1(3)] by blast
  obtain r3 where r3: "EliasDeltaDecode r2 = Inr (q, r3)" "reader_ok r3" "pending r3 = ?b2"
    using elias_decode_pending [OF r2(2) w r2(3) log(1) assms(11) d(4) q log(2)] by blast
  have "(of_nat (i + 1 - p) :: u64) = of_nat i - prev" using prev assms(9) by (simp add: of_nat_diff)
  then have "next_entry prev r = Inr (of_nat i, neg, q, r3)"
    using r1(1) r2(1) r3(1) assms(12) by (simp add: next_entry_def)
  with next_entry_inv [OF this assms(1)] r3(3) show ?thesis by blast
qed

text \<open>So the loop over the stream does with the entries what \<open>act\<close> does, in order.\<close>

fun act_on :: "(nat \<Rightarrow> bool \<Rightarrow> nat \<Rightarrow> u8 list \<Rightarrow> u8 list res) \<Rightarrow> entry list \<Rightarrow> u8 list \<Rightarrow> u8 list res" where
  "act_on act [] out = Inr out"
| "act_on act ((i, neg, q) # es) out = rbind (act i neg q out) (act_on act es)"

lemma dither_decode_stream:
  fixes r :: "'w::len word bit_reader"
  assumes "reader_inv r" and w: "LENGTH('w) \<le> 32" and log: "exact_log2 flog2 m" "64 < m" "len < m" "2 ^ 32 \<le> m"
    and len: "len + 1 < 2 ^ 64"
    and "pending r = entry_bits flog2 p es @ pad" and "entries_ok p es" and "fst ` set es \<subseteq> {..<len}"
    and "prev = of_nat p - 1" and "reader_bits r + length (entry_bits flog2 p es) = bits"
    and "act_on act es out = Inr out'"
  shows "dither_decode act bits prev r out = Inr out'"
  using assms(1,8-)
proof (induction es arbitrary: p r prev out)
  case Nil
  then show ?case by (subst dither_decode.simps) simp
next
  case (Cons e es)
  obtain i neg q where e: "e = (i, neg, q)" by (cases e)
  obtain r' where r': "next_entry prev r = Inr (of_nat i, neg, q, r')" "reader_inv r'" "br_data r' = br_data r"
    "pending r' = entry_bits flog2 (i + 1) es @ pad"
    using next_entry_pending [OF Cons.prems(1) w log len, of p i neg q es pad prev] Cons.prems e by auto
  obtain out1 where out1: "act i neg q out = Inr out1" "act_on act es out1 = Inr out'"
    using Cons.prems e by (auto simp: res_simps)
  have "i < 2 ^ 64" using Cons.prems(4) e len by simp
  then have i: "unat (of_nat i :: u64) = i" by (simp add: unat_of_nat)
  have pos: "reader_bits r + length (pending r) = reader_bits r' + length (pending r')"
    using reader_bits_pending [OF Cons.prems(1)] reader_bits_pending [OF r'(2)] r'(3) by simp
  then have "reader_bits r' + length (entry_bits flog2 (i + 1) es) = bits"
    using Cons.prems(2,6) r'(4) by simp
  moreover have "reader_bits r < bits" using Cons.prems(6) e by simp
  moreover have "entries_ok (i + 1) es" "fst ` set es \<subseteq> {..<len}" using Cons.prems e by auto
  moreover have "(of_nat i :: u64) = of_nat (i + 1) - 1" by simp
  ultimately show ?case
    using Cons.IH [OF r'(2,4), of "of_nat i" out1] r'(1) out1 i
    by (subst dither_decode.simps) simp
qed

subsection \<open>The buffer\<close>

lemma elt_store_blocks:
  assumes "j < length bs" and "LENGTH('w) = 8 * w"
  shows "elt w (store_blocks w (bs :: 'w::len word list) buf) j = Inr (unat (bs ! j))"
  using assms(1)
proof (induction bs arbitrary: j buf)
  case (Cons b bs)
  have s: "store_blocks w (b # bs) buf = le_bytes w (unat b) @ store_blocks w bs (drop w buf)"
    by (simp add: store_blocks_def add.commute)
  show ?case
  proof (cases j)
    case 0
    have "unat b < 2 ^ (8 * w)" using unsigned_less [of b] assms(2) by simp
    then show ?thesis unfolding s using 0 by (simp add: elt_head le_value_bytes power_mult)
  next
    case (Suc m)
    have "elt w (le_bytes w (unat b) @ store_blocks w bs (drop w buf)) (1 + m) = elt w (store_blocks w bs (drop w buf)) m"
      by (rule elt_append) simp
    then show ?thesis unfolding s using Cons Suc by simp
  qed
qed simp

lemma length_blocks_of [simp]: "length (blocks_of w buf) = length buf div w"
  by (simp add: blocks_of_def)

lemma length_store_blocks:
  assumes "length bs * w \<le> length buf"
  shows "length (store_blocks w bs buf) = length buf"
proof -
  have "length (concat (map (\<lambda>b. le_bytes w (unat b)) bs)) = length bs * w" by (induction bs) simp_all
  then show ?thesis using assms by (simp add: store_blocks_def)
qed

lemma blocks_of_nth:
  assumes "elt w buf j = Inr (unat (x :: 'w::len word))" and "0 < w"
  shows "j < length buf div w \<and> (blocks_of w buf :: 'w word list) ! j = x"
proof -
  have e: "(j + 1) * w \<le> length buf" "unat x = le_value (take w (drop (j * w) buf))"
    using assms(1) by (simp_all add: res_simps)
  then have "(j + 1) * w div w \<le> length buf div w" using div_le_mono by blast
  then have j: "j < length buf div w" using assms(2) by simp
  then show ?thesis using e(2) by (simp add: blocks_of_def flip: e(2))
qed

text \<open>
  A compressed tensor that holds the entries \<open>es\<close> and the scale, whatever follows its first bytes.
\<close>

definition dither_data :: "(u8 list \<Rightarrow> 'w::len word list) \<Rightarrow> nat \<Rightarrow> (nat \<Rightarrow> nat) \<Rightarrow> bps_tensor \<Rightarrow>
    entry list \<Rightarrow> u32 \<Rightarrow> bool" where
  "dither_data blocks w flog2 c es scale \<longleftrightarrow> bt_size c \<le> length (bt_data c) \<and>
     (\<forall>m rest. bt_size c \<le> m \<longrightarrow> m \<le> length (bt_data c) \<longrightarrow>
        dither_trailer w (c\<lparr>bt_data := take m (bt_data c) @ rest\<rparr>) = Inr (length (entry_bits flog2 0 es), scale) \<and>
        (\<exists>pad. pending (BitReader (blocks (take m (bt_data c) @ rest))) = entry_bits flog2 0 es @ pad))"

lemma elt_take:
  "(i + 1) * w \<le> m \<Longrightarrow> m \<le> length buf \<Longrightarrow> elt w (take m buf @ rest) i = elt w buf i"
  by (simp add: elt_get_at get_at_take add.commute)

lemma pending_start: "pending (BitReader data) = concat (map word_bits data)"
  by (simp add: pending_def BitReader_def)

lemma stream_prefix:
  fixes A B :: "'w::len word list"
  assumes "concat (map word_bits A) = bs @ pad" and "length bs \<le> n * LENGTH('w)" and "n \<le> length A"
    and "n \<le> length B" and "\<And>j. j < n \<Longrightarrow> B ! j = A ! j"
  shows "\<exists>pad'. concat (map word_bits B) = bs @ pad'"
proof -
  have t: "take n B = take n A" using assms(3-5) by (intro nth_equalityI) simp_all
  have "length (concat (map word_bits (take n A))) = n * LENGTH('w)"
    using assms(3) by (simp add: length_concat comp_def sum_list_triv)
  moreover have "concat (map word_bits A) = concat (map word_bits (take n A)) @ concat (map word_bits (drop n A))"
    by (metis append_take_drop_id concat_append map_append)
  ultimately obtain us where "concat (map word_bits (take n A)) = bs @ us"
    using assms(1,2) by (metis append_eq_append_conv_if append_take_drop_id)
  moreover have "concat (map word_bits B) = concat (map word_bits (take n B)) @ concat (map word_bits (drop n B))"
    by (metis append_take_drop_id concat_append map_append)
  ultimately show ?thesis using t by simp
qed

lemma Dithering_CompressImpl_data:
  fixes dst :: "u8 list" and dt :: data_type
  defines "bl \<equiv> blocks_of (type_width dt) :: u8 list \<Rightarrow> 'w::len word list"
  assumes w: "w = type_width dt" "LENGTH('w) = 8 * w"
    and scale: "(case dp_ntype dp of NORM_MAX \<Rightarrow> max_scale fo dt w src len | NORM_L2 \<Rightarrow> l2_scale fo dt w src len) = Inr sc"
    and es: "dither_entries fo dp dt w src sc [0..<len] st = Inr (es, st')" and len: "len < 2 ^ 64"
    and bits: "bits = length (entry_bits (flog2_of fo) 0 es)" "bits < 256 ^ w" "round_f32 fo bits = bits"
    and n: "n = (bits + 8 * w - 1) div (8 * w)" and room: "(n + 1) * w + 4 \<le> length dst"
  shows "\<exists>out. Dithering_CompressImpl fo dp dt (bl dst) dst src len st = Inr (st', out, n * w + w + 4) \<and>
    length out = length dst \<and>
    dither_data bl w (flog2_of fo) \<lparr>bt_data = out, bt_size = n * w + w + 4, bt_dtype = 0\<rparr> es (f64_to_f32 fo sc)"
proof -
  have bl: "bl = blocks_of w" by (simp add: bl_def w(1))
  have w0: "0 < w" using w(1) by simp
  have fit: "bits \<le> n * (8 * w)"
  proof -
    have "bits + 8 * w - 1 = n * (8 * w) + (bits + 8 * w - 1) mod (8 * w)"
      unfolding n by (rule div_mult_mod_eq [symmetric])
    moreover have "(bits + 8 * w - 1) mod (8 * w) < 8 * w" using w0 by simp
    ultimately show ?thesis by linarith
  qed
  have nw: "n * w + w + 4 \<le> length dst" using room by simp
  then have "(n + 1) * w div w \<le> length dst div w" by (intro div_le_mono) simp
  then have nl: "n < length dst div w" using w0 by simp
  then have "n * (8 * w) \<le> length (bl dst) * LENGTH('w)" unfolding bl w(2) by (intro mult_le_mono1) simp
  then have "length (entry_bits (flog2_of fo) 0 es) \<le> length (bl dst) * LENGTH('w)" using fit bits(1) by linarith
  then obtain bw bw' pad where bw: "put_all (entry_bits (flog2_of fo) 0 es) (BitWriter (bl dst)) = Inr bw"
    "Flush bw = Inr bw'" "writer_bits bw = bits" "length (bw_data bw') = length (bl dst)"
    "pending (BitReader (bw_data bw')) = entry_bits (flog2_of fo) 0 es @ pad"
    using put_all_flush [of "entry_bits (flog2_of fo) 0 es" "bl dst"] bits(1) by metis
  have loop: "dither_loop fo dp dt w src sc [0..<len] (- 1) st (BitWriter (bl dst)) = Inr (st', bw)"
    using dither_loop_stream [OF es, of "- 1" 0 "BitWriter (bl dst)"] len bw(1) by simp
  have wb: "writer_blocks (round_f32 fo) bw = n" using bw(3) bits(3) n w(2) by (simp add: writer_blocks_def)
  let ?st = "store_blocks w (bw_data bw') dst"
  have lst: "length ?st = length dst"
    by (rule length_store_blocks) (simp add: bw(4) bl)
  obtain d1 where d1: "put_elt w ?st n bits = Inr d1" using nw lst by (simp add: put_elt_def algebra_simps)
  have l1: "length d1 = length dst" using length_put_elt [OF d1] lst by simp
  obtain d2 where d2: "put_float d1 ((n + 1) * w) (f64_to_f32 fo sc) = Inr d2"
    using l1 nw by (simp add: put_float_def put_at_def algebra_simps)
  have l2: "length d2 = length dst" using put_float_data(1) [OF d2] l1 by simp
  have run: "Dithering_CompressImpl fo dp dt (bl dst) dst src len st = Inr (st', d2, n * w + w + 4)"
    using scale loop bw(2,3) wb d1 d2 by (simp add: Dithering_CompressImpl_def Let_def flip: w(1))
  have e2: "elt w d2 n = Inr bits"
    using put_float_data(3) [OF d2, of n w] elt_put_same [OF d1] bits(2) by simp
  have ej: "elt w d2 j = Inr (unat (bw_data bw' ! j))" if "j < n" for j
  proof -
    have "(j + 1) * w \<le> (n + 1) * w" using that by (intro mult_le_mono1) simp
    then have "elt w d2 j = elt w d1 j" by (rule put_float_data(3) [OF d2])
    also have "\<dots> = elt w ?st j" using elt_put_other [OF d1] that by simp
    also have "\<dots> = Inr (unat (bw_data bw' ! j))"
      using that nl bw(4) w(2) by (intro elt_store_blocks) (simp_all add: bl)
    finally show ?thesis .
  qed
  have "dither_data bl w (flog2_of fo) \<lparr>bt_data = d2, bt_size = n * w + w + 4, bt_dtype = 0\<rparr> es (f64_to_f32 fo sc)"
    unfolding dither_data_def
  proof (intro conjI allI impI)
    show "bt_size \<lparr>bt_data = d2, bt_size = n * w + w + 4, bt_dtype = 0\<rparr>
        \<le> length (bt_data \<lparr>bt_data = d2, bt_size = n * w + w + 4, bt_dtype = 0\<rparr>)" using nw l2 by simp
    fix m and rest :: "u8 list"
    assume "bt_size \<lparr>bt_data = d2, bt_size = n * w + w + 4, bt_dtype = 0\<rparr> \<le> m"
      "m \<le> length (bt_data \<lparr>bt_data = d2, bt_size = n * w + w + 4, bt_dtype = 0\<rparr>)"
    then have m: "n * w + w + 4 \<le> m" "m \<le> length d2" by simp_all
    let ?b = "take m d2 @ rest"
    have small: "elt w ?b j = elt w d2 j" if "j \<le> n" for j
    proof (rule elt_take)
      have "(j + 1) * w \<le> (n + 1) * w" using that by (intro mult_le_mono1) simp
      also have "\<dots> \<le> m" using m(1) by simp
      finally show "(j + 1) * w \<le> m" .
    qed (rule m(2))
    have "get_float ?b ((n + 1) * w) = get_float d2 ((n + 1) * w)"
      using m by (simp add: get_float_def get_at_take)
    then have "get_float ?b ((n + 1) * w) = Inr (f64_to_f32 fo sc)" using put_float_data(2) [OF d2] by simp
    then show "dither_trailer w (\<lparr>bt_data = d2, bt_size = n * w + w + 4, bt_dtype = 0\<rparr>\<lparr>bt_data := take m (bt_data
        \<lparr>bt_data = d2, bt_size = n * w + w + 4, bt_dtype = 0\<rparr>) @ rest\<rparr>) =
        Inr (length (entry_bits (flog2_of fo) 0 es), f64_to_f32 fo sc)"
      using small [of n] e2 w0 by (simp add: dither_trailer_def bits(1))
    have nth: "j < length ?b div w \<and> (blocks_of w ?b :: 'w word list) ! j = bw_data bw' ! j" if "j < n" for j
      using ej [OF that] small [of j] that w0 by (intro blocks_of_nth) simp_all
    have "n \<le> length ?b div w"
    proof (cases n)
      case (Suc k)
      then show ?thesis using nth [of k] by simp
    qed simp
    then have "\<exists>pad'. concat (map word_bits (blocks_of w ?b :: 'w word list)) = entry_bits (flog2_of fo) 0 es @ pad'"
      using bw(4,5) fit nl nth w(2) bits(1)
      by (intro stream_prefix [of "bw_data bw'" _ pad n]) (simp_all add: pending_start bl)
    then show "\<exists>pad. pending (BitReader (bl (take m (bt_data \<lparr>bt_data = d2, bt_size = n * w + w + 4, bt_dtype = 0\<rparr>) @ rest))) =
        entry_bits (flog2_of fo) 0 es @ pad"
      by (simp add: pending_start bl)
  qed
  then show ?thesis using run l2 by blast
qed

subsection \<open>Reading the buffer back\<close>

lemma reader_start: "reader_inv (BitReader data) \<and> reader_bits (BitReader data) = 0"
  by (simp add: reader_inv_def reader_start_ok reader_bits_def) (simp add: BitReader_def)

text \<open>Writing one value at each entry's position.\<close>

lemma act_on_put:
  assumes "entries_ok p es" and "\<And>i. i \<in> fst ` set es \<Longrightarrow> (i + 1) * w \<le> length out"
    and "\<And>i neg q d. elt w d i = elt w out i \<Longrightarrow> length d = length out \<Longrightarrow> (i, neg, q) \<in> set es \<Longrightarrow>
      act i neg q d = put_elt w d i (g i neg q) \<and> g i neg q < 256 ^ w"
  shows "\<exists>r. act_on act es out = Inr r \<and> length r = length out \<and>
    (\<forall>i. elt w r i = (case map_of es i of None \<Rightarrow> elt w out i | Some (neg, q) \<Rightarrow> Inr (g i neg q)))"
  using assms
proof (induction es arbitrary: p out)
  case (Cons e es)
  obtain i neg q where e: "e = (i, neg, q)" by (cases e)
  have ok: "entries_ok (i + 1) es" using Cons.prems(1) e by simp
  have above: "entries_ok k es \<Longrightarrow> j \<in> fst ` set es \<Longrightarrow> k \<le> j" for k j
  proof (induction es arbitrary: k)
    case (Cons e' es')
    then show ?case by (cases e') fastforce
  qed simp
  have act: "act i neg q out = put_elt w out i (g i neg q)" "g i neg q < 256 ^ w"
    using Cons.prems(3) [of out i neg q] e by auto
  obtain out1 where out1: "put_elt w out i (g i neg q) = Inr out1"
    using Cons.prems(2) [of i] e by (simp add: put_elt_def)
  have l1: "length out1 = length out" by (rule length_put_elt [OF out1])
  have other: "elt w out1 j = elt w out j" if "j \<noteq> i" for j using elt_put_other [OF out1] that by simp
  have ne: "j \<noteq> i" if "(j, ng, qq) \<in> set es" for j ng qq using above [OF ok, of j] that by force
  have "\<exists>r. act_on act es out1 = Inr r \<and> length r = length out1 \<and>
      (\<forall>j. elt w r j = (case map_of es j of None \<Rightarrow> elt w out1 j | Some (neg, q) \<Rightarrow> Inr (g j neg q)))"
  proof (rule Cons.IH [OF ok])
    show "(j + 1) * w \<le> length out1" if "j \<in> fst ` set es" for j using Cons.prems(2) [of j] that l1 by simp
    show "act j ng qq d = put_elt w d j (g j ng qq) \<and> g j ng qq < 256 ^ w"
      if "elt w d j = elt w out1 j" "length d = length out1" "(j, ng, qq) \<in> set es" for j ng qq d
      using Cons.prems(3) [of d j ng qq] that other [OF ne [OF that(3)]] l1 by simp
  qed
  then obtain r where r: "act_on act es out1 = Inr r" "length r = length out1"
    "\<And>j. elt w r j = (case map_of es j of None \<Rightarrow> elt w out1 j | Some (neg, q) \<Rightarrow> Inr (g j neg q))" by blast
  have "i \<notin> fst ` set es" using above [OF ok, of i] by auto
  then have "map_of es i = None" by (simp add: map_of_eq_None_iff)
  then have "elt w r i = Inr (g i neg q)" using r(3) [of i] elt_put_same [OF out1] act(2) by simp
  then have "elt w r j = (case map_of (e # es) j of None \<Rightarrow> elt w out j | Some (neg, q) \<Rightarrow> Inr (g j neg q))" for j
    using r(3) [of j] other [of j] e by (cases "j = i") (simp_all split: option.split)
  moreover have "act_on act (e # es) out = Inr r" using e act(1) out1 r(1) by simp
  ultimately show ?case using r(2) l1 by auto
qed simp

lemma decode_entries:
  fixes data :: "'w::len word list"
  assumes "LENGTH('w) \<le> 32" and log: "exact_log2 flog2 m" "64 < m" "len < m" "2 ^ 32 \<le> m" "len + 1 < 2 ^ 64"
    and "pending (BitReader data) = entry_bits flog2 0 es @ pad" and "entries_ok 0 es"
    and "fst ` set es \<subseteq> {..<len}" and "act_on act es out = Inr out'"
  shows "dither_decode act (length (entry_bits flog2 0 es)) (- 1) (BitReader data) out = Inr out'"
  by (rule dither_decode_stream [OF _ assms(1) log assms(7) assms(8,9) _ _ assms(10)])
    (simp_all add: reader_start)

text \<open>What the logarithm must be on the numbers a tensor of \<open>len\<close> scalars is coded with.\<close>

definition log_fits :: "(nat \<Rightarrow> nat) \<Rightarrow> nat \<Rightarrow> bool" where
  "log_fits flog2 len \<longleftrightarrow> exact_log2 flog2 (max (2 ^ 32) (len + 1)) \<and> len + 1 < 2 ^ 64"

lemma decode_entries_fits:
  fixes data :: "'w::len word list"
  assumes "LENGTH('w) \<le> 32" and "log_fits flog2 len"
    and "pending (BitReader data) = entry_bits flog2 0 es @ pad" and "entries_ok 0 es"
    and "fst ` set es \<subseteq> {..<len}" and "act_on act es out = Inr out'"
  shows "dither_decode act (length (entry_bits flog2 0 es)) (- 1) (BitReader data) out = Inr out'"
  using assms by (intro decode_entries [of flog2 "max (2 ^ 32) (len + 1)" len]) (simp_all add: log_fits_def)

lemma Dithering_DecompressImpl_data:
  fixes bl :: "u8 list \<Rightarrow> 'w::len word list"
  assumes dt: "float_type dt" "w = type_width dt" "LENGTH('w) \<le> 32"
    and c: "dither_data bl w (flog2_of fo) c es scale" "entries_ok 0 es" "fst ` set es \<subseteq> {..<cb_size cb div w}"
      "log_fits (flog2_of fo) (cb_size cb div w)" "level_count dp = Inr s"
    and fits: "\<not> server \<Longrightarrow> bt_size c \<le> length (cb_buf cb)"
      "cb_size cb \<le> length (if server then cb_buf cb else bt_data c)"
  shows "\<exists>cb' t'. Dithering_DecompressImpl server fo dp dt cb c bl = Inr (cb', t') \<and> bt_size t' = cb_size cb \<and>
    length (bt_data t') = length (if server then cb_buf cb else bt_data c) \<and>
    (\<forall>i < cb_size cb div w. elt w (bt_data t') i =
       Inr (case map_of es i of None \<Rightarrow> 0
            | Some (neg, q) \<Rightarrow> of_float (dops fo) dt (dither_value fo scale s neg q)))"
proof -
  let ?dst = "if server then cb_buf cb else bt_data c"
  let ?g = "\<lambda>i neg q. of_float (dops fo) dt (dither_value fo scale s neg q)"
  have sz: "bt_size c \<le> length (bt_data c)" using c(1) by (simp add: dither_data_def)
  have tr: "dither_trailer w c = Inr (length (entry_bits (flog2_of fo) 0 es), scale)"
  proof -
    have "dither_trailer w (c\<lparr>bt_data := take (length (bt_data c)) (bt_data c) @ []\<rparr>) =
        Inr (length (entry_bits (flog2_of fo) 0 es), scale)" using c(1) sz unfolding dither_data_def by blast
    then show ?thesis by simp
  qed
  obtain cb1 src pad where s1: "decompress_src server cb c = Inr (cb1, ?dst, src)"
    and src: "pending (BitReader (bl src)) = entry_bits (flog2_of fo) 0 es @ pad" and cb1: "cb_size cb1 = cb_size cb"
  proof (cases server)
    case True
    have "\<exists>pad. pending (BitReader (bl (take (length (bt_data c)) (bt_data c) @ []))) = entry_bits (flog2_of fo) 0 es @ pad"
      using c(1) sz unfolding dither_data_def by blast
    then show ?thesis using that [of cb "bt_data c"] True by (auto simp: decompress_src_def)
  next
    case False
    let ?buf = "take (bt_size c) (bt_data c) @ drop (bt_size c) (cb_buf cb)"
    have "decompress_src server cb c = Inr (cb\<lparr>cb_buf := ?buf\<rparr>, bt_data c, ?buf)"
      using False fits(1) sz by (simp add: decompress_src_def get_at_def put_at_def)
    moreover have "\<exists>pad. pending (BitReader (bl ?buf)) = entry_bits (flog2_of fo) 0 es @ pad"
      using c(1) sz unfolding dither_data_def by blast
    ultimately show ?thesis using that [of "cb\<lparr>cb_buf := ?buf\<rparr>" ?buf] False by auto
  qed
  obtain z where z: "memset_zero ?dst (cb_size cb) = Inr z" "length z = length ?dst"
    "\<And>i. (i + 1) * w \<le> cb_size cb \<Longrightarrow> elt w z i = Inr 0"
    using memset_zero_elts [OF fits(2), of w] by blast
  have in_size: "i < cb_size cb div w \<Longrightarrow> (i + 1) * w \<le> cb_size cb" for i by (rule index_fits)
  let ?act = "\<lambda>i neg q out. put_elt w out i (?g i neg q)"
  have "\<exists>out. act_on ?act es z = Inr out \<and> length out = length z \<and>
      (\<forall>i. elt w out i = (case map_of es i of None \<Rightarrow> elt w z i | Some (neg, q) \<Rightarrow> Inr (?g i neg q)))"
  proof (rule act_on_put [OF c(2)])
    show "(i + 1) * w \<le> length z" if "i \<in> fst ` set es" for i
      using that c(3) in_size [of i] fits(2) z(2) by fastforce
  qed (simp add: scalar_less [OF dt(1)] dt(2))
  then obtain out where out: "act_on ?act es z = Inr out" "length out = length z"
    "\<And>i. elt w out i = (case map_of es i of None \<Rightarrow> elt w z i | Some (neg, q) \<Rightarrow> Inr (?g i neg q))" by blast
  have "dither_decode ?act (length (entry_bits (flog2_of fo) 0 es)) (- 1) (BitReader (bl src)) z = Inr out"
    by (rule decode_entries_fits [OF dt(3) c(4) src c(2,3) out(1)])
  then have "Dithering_DecompressImpl server fo dp dt cb c bl = Inr (decompress_dst server cb1 out)"
    using tr s1 z(1) c(5) by (simp add: Dithering_DecompressImpl_def Let_def flip: dt(2))
  moreover have "elt w out i = Inr (case map_of es i of None \<Rightarrow> 0
      | Some (neg, q) \<Rightarrow> of_float (dops fo) dt (dither_value fo scale s neg q))" if "i < cb_size cb div w" for i
    using out(3) [of i] z(3) [OF in_size [OF that]] by (simp split: option.split)
  ultimately show ?thesis using out(2) z(2) cb1 by (simp add: decompress_dst_def)
qed

lemma sub_float_less: "float_type dt \<Longrightarrow> sub_float fo dt x f < 256 ^ type_width dt"
  using unsigned_less [of "float2half (f32_sub fo (half2float (ops_of fo) (of_nat x)) f)"]
    unsigned_less [of "f32_sub fo (of_nat x) f"] unsigned_less [of "f64_sub fo (of_nat x) (f32_to_f64 fo f)"]
  by (auto simp: float_type_def sub_float_def)

lemma Dithering_FastUpdateErrorImpl_data:
  fixes bl :: "u8 list \<Rightarrow> 'w::len word list"
  assumes dt: "float_type dt" "w = type_width dt" "LENGTH('w) \<le> 32"
    and c: "dither_data bl w (flog2_of fo) c es scale" "entries_ok 0 es" "fst ` set es \<subseteq> {..<cb_size cb div w}"
      "log_fits (flog2_of fo) (cb_size cb div w)" "level_count dp = Inr s"
    and fits: "cb_size cb \<le> length err" "cb_size cb \<le> length corrected"
    and p: "\<And>i. i < cb_size cb div w \<Longrightarrow> elt w corrected i = Inr (v i)"
  shows "\<exists>err'. Dithering_FastUpdateErrorImpl fo dp dt cb err corrected c bl = Inr err' \<and> length err' = length err \<and>
    (\<forall>i < cb_size cb div w. elt w err' i =
       Inr (case map_of es i of None \<Rightarrow> v i
            | Some (neg, q) \<Rightarrow> sub_float (dops fo) dt (v i) (dither_value fo scale s neg q)))"
proof -
  let ?g = "\<lambda>i neg q. sub_float (dops fo) dt (v i) (dither_value fo scale s neg q)"
  have sz: "bt_size c \<le> length (bt_data c)" using c(1) by (simp add: dither_data_def)
  have all: "take (length (bt_data c)) (bt_data c) @ [] = bt_data c" by simp
  have tr: "dither_trailer w c = Inr (length (entry_bits (flog2_of fo) 0 es), scale)"
  proof -
    have "dither_trailer w (c\<lparr>bt_data := take (length (bt_data c)) (bt_data c) @ []\<rparr>) =
        Inr (length (entry_bits (flog2_of fo) 0 es), scale)" using c(1) sz unfolding dither_data_def by blast
    then show ?thesis by simp
  qed
  obtain pad where src: "pending (BitReader (bl (bt_data c))) = entry_bits (flog2_of fo) 0 es @ pad"
    using c(1) sz unfolding dither_data_def by (metis all order_refl)
  obtain e where e: "memcpy_at err corrected 0 (cb_size cb) = Inr e" "length e = length err"
    "\<And>i. (i + 1) * w \<le> cb_size cb \<Longrightarrow> elt w e i = elt w corrected i"
    using memcpy_elts [OF fits, of w] by blast
  have in_size: "i < cb_size cb div w \<Longrightarrow> (i + 1) * w \<le> cb_size cb" for i by (rule index_fits)
  have ei: "elt w e i = Inr (v i)" if "i < cb_size cb div w" for i using e(3) [OF in_size [OF that]] p [OF that] by simp
  let ?act = "\<lambda>i neg q out. rbind (elt w out i) (\<lambda>x.
    put_elt w out i (sub_float (dops fo) dt x (dither_value fo scale s neg q)))"
  have "\<exists>out. act_on ?act es e = Inr out \<and> length out = length e \<and>
      (\<forall>i. elt w out i = (case map_of es i of None \<Rightarrow> elt w e i | Some (neg, q) \<Rightarrow> Inr (?g i neg q)))"
  proof (rule act_on_put [OF c(2)])
    show "(i + 1) * w \<le> length e" if "i \<in> fst ` set es" for i
      using that c(3) in_size [of i] fits(1) e(2) by fastforce
    show "?act i neg q d = put_elt w d i (?g i neg q) \<and> ?g i neg q < 256 ^ w"
      if "elt w d i = elt w e i" "(i, neg, q) \<in> set es" for i neg q d
    proof -
      have "i < cb_size cb div w" using that(2) c(3) by force
      then show ?thesis using that(1) ei sub_float_less [OF dt(1)] dt(2) by simp
    qed
  qed
  then obtain out where out: "act_on ?act es e = Inr out" "length out = length e"
    "\<And>i. elt w out i = (case map_of es i of None \<Rightarrow> elt w e i | Some (neg, q) \<Rightarrow> Inr (?g i neg q))" by blast
  have "dither_decode ?act (length (entry_bits (flog2_of fo) 0 es)) (- 1) (BitReader (bl (bt_data c))) e = Inr out"
    by (rule decode_entries_fits [OF dt(3) c(4) src c(2,3) out(1)])
  then have "Dithering_FastUpdateErrorImpl fo dp dt cb err corrected c bl = Inr out"
    using tr e(1) c(5) by (simp add: Dithering_FastUpdateErrorImpl_def Let_def flip: dt(2))
  moreover have "elt w out i = Inr (case map_of es i of None \<Rightarrow> v i
      | Some (neg, q) \<Rightarrow> sub_float (dops fo) dt (v i) (dither_value fo scale s neg q))" if "i < cb_size cb div w" for i
    using out(3) [of i] ei [OF that] by (simp split: option.split)
  ultimately show ?thesis using out(2) e(2) by simp
qed

end
