(* ===== verification/Compressors.thy ===== *)
theory Compressors
  imports Dithering
begin

section \<open>Compressors, their decorators and the registry\<close>

text \<open>
  Models \<open>deep_inc/common/compressor/error_feedback.cc\<close>, \<open>momentum.cc\<close>,
  \<open>impl/vanilla_error_feedback.cc\<close>, \<open>impl/nesterov_momentum.cc\<close>, \<open>compressor_registry.cc\<close> and the
  constructors each compressor registers. The class hierarchy is a datatype, the virtual functions
  are recursive functions on it. The error is what a contract between the decorator and a
  compressor fixes; the contract is a locale, interpreted on the compressors.
\<close>

subsection \<open>What the compressors use of the system\<close>

text \<open>
  Beside the arithmetic: the build of the reducer, the learning rate found in the file \<open>lr.s\<close> (none
  if it cannot be opened or mapped), the seed of a generator that is given none, the bytes of
  memory that is not initialised, and the stream extraction of the parameters' types.
\<close>

record compress_env = dither_ops +
  ce_server :: bool
  ce_build :: reducer_build
  ce_lr :: "u64 option"
  ce_rng :: rng
  ce_fresh :: "nat \<Rightarrow> u8"
  ce_bool :: "string \<Rightarrow> bool"
  ce_int :: "string \<Rightarrow> int"
  ce_unsigned :: "string \<Rightarrow> u32"
  ce_float :: "string \<Rightarrow> u32"

definition dith_ops :: "compress_env \<Rightarrow> dither_ops" where
  "dith_ops env = dither_ops.truncate env"

definition dbl_ops :: "compress_env \<Rightarrow> double_ops" where
  "dbl_ops env = double_ops.truncate env"

datatype compressor =
    OnebitCompressor compressor_base bool
  | TopkCompressor compressor_base nat
  | RandomkCompressor compressor_base nat rng
  | DitheringCompressor compressor_base dither_params rng
  | VanillaErrorFeedback compressor_base "u8 list" u64 compressor
  | NesterovMomentum compressor_base "u8 list" u32 compressor

subsection \<open>The interface\<close>

text \<open>Decorators forward a decompression; only the compressors proper update an error.\<close>

fun Decompress :: "compress_env \<Rightarrow> compressor \<Rightarrow> bps_tensor \<Rightarrow> (compressor \<times> bps_tensor) res" where
  "Decompress env (OnebitCompressor cb sc) t =
     rbind (Onebit_Decompress (ce_server env) (dbl_ops env) cb t) (\<lambda>(cb', r). Inr (OnebitCompressor cb' sc, r))"
| "Decompress env (TopkCompressor cb k) t =
     rbind (Topk_Decompress (ce_server env) cb t) (\<lambda>(cb', r). Inr (TopkCompressor cb' k, r))"
| "Decompress env (RandomkCompressor cb k st) t =
     rbind (Randomk_Decompress (ce_server env) cb t) (\<lambda>(cb', r). Inr (RandomkCompressor cb' k st, r))"
| "Decompress env (DitheringCompressor cb dp st) t =
     rbind (Dithering_Decompress (ce_server env) (dith_ops env) dp cb t)
       (\<lambda>(cb', r). Inr (DitheringCompressor cb' dp st, r))"
| "Decompress env (VanillaErrorFeedback cb e lr c) t =
     rbind (Decompress env c t) (\<lambda>(c', r). Inr (VanillaErrorFeedback cb e lr c', r))"
| "Decompress env (NesterovMomentum cb m mu c) t =
     rbind (Decompress env c t) (\<lambda>(c', r). Inr (NesterovMomentum cb m mu c', r))"

fun FastUpdateError :: "compress_env \<Rightarrow> compressor \<Rightarrow> u8 list \<Rightarrow> u8 list \<Rightarrow> bps_tensor \<Rightarrow> u8 list res" where
  "FastUpdateError env (OnebitCompressor cb sc) err corrected t =
     Onebit_FastUpdateError (dbl_ops env) cb err corrected t"
| "FastUpdateError env (TopkCompressor cb k) err corrected t = Topk_FastUpdateError k cb err corrected t"
| "FastUpdateError env (RandomkCompressor cb k st) err corrected t = Randomk_FastUpdateError k cb err corrected t"
| "FastUpdateError env (DitheringCompressor cb dp st) err corrected t =
     Dithering_FastUpdateError (dith_ops env) dp cb err corrected t"
| "FastUpdateError env (VanillaErrorFeedback cb e lr c) err corrected t =
     Inl (CheckFailed ''FastUpdateError is not implemented'')"
| "FastUpdateError env (NesterovMomentum cb m mu c) err corrected t =
     Inl (CheckFailed ''FastUpdateError is not implemented'')"

text \<open>
  \<open>UpdateGradient\<close> of the error feedback: the gradient plus the error, scaled by the ratio of the
  last learning rate and the current one. \<open>UpdateMom\<close> and \<open>UpdateGradient\<close> of the momentum.
\<close>

definition reduce_switch :: "int \<Rightarrow> (data_type \<Rightarrow> 'a res) \<Rightarrow> 'a res" where
  "reduce_switch dtype f =
     (case data_type_of dtype of None \<Rightarrow> Inl (CheckFailed ''Unsupported data type'') | Some dt \<Rightarrow> f dt)"

definition current_lr :: "compress_env \<Rightarrow> u64 res" where
  "current_lr env = (case ce_lr env of None \<Rightarrow> Inl (Undefined ''unmapped memory'') | Some lr \<Rightarrow> Inr lr)"

definition EF_UpdateGradient :: "compress_env \<Rightarrow> u8 list \<Rightarrow> u64 \<Rightarrow> bps_tensor \<Rightarrow> (u64 \<times> bps_tensor) res" where
  "EF_UpdateGradient env err pre_lr grad =
     rbind (current_lr env) (\<lambda>cur_lr.
     rbind (reduce_switch (bt_dtype grad) (\<lambda>dt.
              sum_into_scaled (ce_build env) (ops_of env) (bt_data grad) err (bt_size grad) dt
                (f64_to_f32 env (f64_div env pre_lr cur_lr)))) (\<lambda>data.
       Inr (cur_lr, grad\<lparr>bt_data := data\<rparr>)))"

definition Momentum_UpdateMom :: "compress_env \<Rightarrow> u8 list \<Rightarrow> u32 \<Rightarrow> bps_tensor \<Rightarrow> u8 list res" where
  "Momentum_UpdateMom env m mu grad =
     reduce_switch (bt_dtype grad) (\<lambda>dt.
       sum_of_scaled (ce_build env) (ops_of env) m (bt_data grad) m (bt_size grad) dt mu)"

definition Momentum_UpdateGradient :: "compress_env \<Rightarrow> u8 list \<Rightarrow> u32 \<Rightarrow> bps_tensor \<Rightarrow> bps_tensor res" where
  "Momentum_UpdateGradient env m mu grad =
     rbind (reduce_switch (bt_dtype grad) (\<lambda>dt.
              sum_into_scaled (ce_build env) (ops_of env) (bt_data grad) m (bt_size grad) dt mu))
       (\<lambda>data. Inr (grad\<lparr>bt_data := data\<rparr>))"

text \<open>The result: the compressor, the gradient (which the decorators change in place), the tensor.\<close>

definition ErrorFeedback_Compress :: "compress_env \<Rightarrow> (bps_tensor \<Rightarrow> (compressor \<times> bps_tensor \<times> bps_tensor) res) \<Rightarrow>
    compressor_base \<Rightarrow> u8 list \<Rightarrow> u64 \<Rightarrow> bps_tensor \<Rightarrow> (compressor \<times> bps_tensor \<times> bps_tensor) res" where
  [simp]: "ErrorFeedback_Compress env inner cb e lr grad =
     rbind (EF_UpdateGradient env e lr grad) (\<lambda>(lr', corrected).
     rbind (inner corrected) (\<lambda>(c', corrected', t).
     rbind (FastUpdateError env c' e (bt_data corrected') t) (\<lambda>e'.
       Inr (VanillaErrorFeedback cb e' lr' c', corrected', t))))"

definition Momentum_Compress :: "compress_env \<Rightarrow> (bps_tensor \<Rightarrow> (compressor \<times> bps_tensor \<times> bps_tensor) res) \<Rightarrow>
    compressor_base \<Rightarrow> u8 list \<Rightarrow> u32 \<Rightarrow> bps_tensor \<Rightarrow> (compressor \<times> bps_tensor \<times> bps_tensor) res" where
  [simp]: "Momentum_Compress env inner cb m mu grad =
     rbind (Momentum_UpdateMom env m mu grad) (\<lambda>m'.
     rbind (Momentum_UpdateGradient env m' mu grad) (\<lambda>grad'.
     rbind (inner grad') (\<lambda>(c', grad'', t).
       Inr (NesterovMomentum cb m' mu c', grad'', t))))"

fun Compress :: "compress_env \<Rightarrow> compressor \<Rightarrow> bps_tensor \<Rightarrow> (compressor \<times> bps_tensor \<times> bps_tensor) res" where
  "Compress env (OnebitCompressor cb sc) grad =
     rbind (Onebit_Compress (dbl_ops env) sc cb grad) (\<lambda>(cb', t). Inr (OnebitCompressor cb' sc, grad, t))"
| "Compress env (TopkCompressor cb k) grad =
     rbind (Topk_Compress (ops_of env) k cb grad) (\<lambda>(cb', t). Inr (TopkCompressor cb' k, grad, t))"
| "Compress env (RandomkCompressor cb k st) grad =
     rbind (Randomk_Compress k st cb grad) (\<lambda>(st', cb', t). Inr (RandomkCompressor cb' k st', grad, t))"
| "Compress env (DitheringCompressor cb dp st) grad =
     rbind (Dithering_Compress (dith_ops env) dp st cb grad)
       (\<lambda>(st', cb', t). Inr (DitheringCompressor cb' dp st', grad, t))"
| "Compress env (VanillaErrorFeedback cb e lr c) grad = ErrorFeedback_Compress env (Compress env c) cb e lr grad"
| "Compress env (NesterovMomentum cb m mu c) grad = Momentum_Compress env (Compress env c) cb m mu grad"

subsection \<open>The registry\<close>

datatype ctor = Onebit_ctor | Topk_ctor | Randomk_ctor | Dithering_ctor | VanillaEF_ctor | Nesterov_ctor

text \<open>The check asks for the name, the entry is made under the name with a suffix.\<close>

definition Register :: "string \<Rightarrow> ctor \<Rightarrow> (string \<rightharpoonup> ctor) \<Rightarrow> (string \<rightharpoonup> ctor) res" where
  "Register name c m =
     check (m name = None) (CheckFailed ''Duplicate registration of compressor'')
       (Inr (if m (name @ ''_type'') = None then m(name @ ''_type'' \<mapsto> c) else m))"

definition registrations :: "(string \<times> ctor) list" where
  "registrations = [(''onebit_compressor'', Onebit_ctor), (''topk_compressor'', Topk_ctor),
     (''randomk_compressor'', Randomk_ctor), (''dithering_compressor'', Dithering_ctor),
     (''vanilla_ef'', VanillaEF_ctor), (''nesterov_momentum'', Nesterov_ctor)]"

definition ctor_map :: "string \<rightharpoonup> ctor" where
  "ctor_map = [''onebit_compressor_type'' \<mapsto> Onebit_ctor, ''topk_compressor_type'' \<mapsto> Topk_ctor,
     ''randomk_compressor_type'' \<mapsto> Randomk_ctor, ''dithering_compressor_type'' \<mapsto> Dithering_ctor,
     ''vanilla_ef_type'' \<mapsto> VanillaEF_ctor, ''nesterov_momentum_type'' \<mapsto> Nesterov_ctor]"

text \<open>The static constructors run before anything else and leave this map.\<close>

lemma ctor_map_registered:
  "foldl (\<lambda>r (n, c). rbind r (Register n c)) (Inr Map.empty) registrations = Inr ctor_map"
  by (simp add: registrations_def Register_def ctor_map_def)

definition Find :: "string \<Rightarrow> ctor res" where
  "Find name = (case ctor_map name of None \<Rightarrow> Inl (CheckFailed ''No compressor registered under name'') | Some c \<Rightarrow> Inr c)"

definition compressor_types :: "bool \<Rightarrow> string list" where
  "compressor_types server =
     (if server then [''ef_type'', ''compressor_type''] else [''momentum_type'', ''ef_type'', ''compressor_type''])"

definition first_type :: "bool \<Rightarrow> (string \<rightharpoonup> string) \<Rightarrow> (string \<times> string) option" where
  "first_type server kw =
     (case filter (\<lambda>t. kw t \<noteq> None) (compressor_types server) of [] \<Rightarrow> None | t # _ \<Rightarrow> Some (t, the (kw t)))"

text \<open>
  The constructors. A \<open>compressor_k\<close> below 1 is a share of the elements, at least one; \<open>unsigned\<close>
  truncates the \<open>float\<close>.
\<close>

definition float_positive :: "u32 \<Rightarrow> bool" where
  "float_positive f \<longleftrightarrow> \<not> is_nan 4 (unat f) \<and> unat f < 2 ^ 31 \<and> f \<noteq> 0"

definition float_below_one :: "u32 \<Rightarrow> bool" where
  "float_below_one f \<longleftrightarrow> \<not> is_nan 4 (unat f) \<and> (2 ^ 31 \<le> unat f \<or> f < float_one)"

definition float_to_unsigned :: "compress_env \<Rightarrow> u32 \<Rightarrow> nat res" where
  "float_to_unsigned env f =
     (case f32_to_int env f of
        None \<Rightarrow> Inl (Undefined ''float to unsigned'')
      | Some x \<Rightarrow> check (- 1 < x \<and> x < 2 ^ 32) (Undefined ''float to unsigned'') (Inr (nat x)))"

definition k_of_factor :: "compress_env \<Rightarrow> u32 \<Rightarrow> nat \<Rightarrow> data_type \<Rightarrow> nat res" where
  "k_of_factor env factor n dtype =
     (if float_below_one factor
      then rbind (getDataTypeLength (data_type_value dtype)) (\<lambda>l.
           rbind (float_to_unsigned env
                    (f32_div env (f32_mul env factor (int_to_f32 env (int n))) (int_to_f32 env (int l)))) (\<lambda>k.
             Inr (if k = 0 then 1 else k)))
      else float_to_unsigned env factor)"

definition seeded :: "compress_env \<Rightarrow> u32 \<Rightarrow> rng" where
  "seeded env seed = (if seed \<noteq> 0 then set_seed (ucast seed) else ce_rng env)"

definition onebit_ctor :: "compress_env \<Rightarrow> (string \<rightharpoonup> string) \<Rightarrow> nat \<Rightarrow> data_type \<Rightarrow> compressor res" where
  "onebit_ctor env kw n dtype =
     rbind (HyperParamFinder False (ce_bool env) kw ''compressor_onebit_scaling'' True (\<lambda>x. True)) (\<lambda>scaled.
       Inr (OnebitCompressor (Compressor (ce_fresh env) n dtype) scaled))"

definition topk_ctor :: "compress_env \<Rightarrow> (string \<rightharpoonup> string) \<Rightarrow> nat \<Rightarrow> data_type \<Rightarrow> compressor res" where
  "topk_ctor env kw n dtype =
     rbind (HyperParamFinder 0 (ce_float env) kw ''compressor_k'' False float_positive) (\<lambda>factor.
     rbind (k_of_factor env factor n dtype) (\<lambda>k.
       Inr (TopkCompressor (Compressor (ce_fresh env) n dtype) k)))"

definition randomk_ctor :: "compress_env \<Rightarrow> (string \<rightharpoonup> string) \<Rightarrow> nat \<Rightarrow> data_type \<Rightarrow> compressor res" where
  "randomk_ctor env kw n dtype =
     rbind (HyperParamFinder 0 (ce_float env) kw ''compressor_k'' False float_positive) (\<lambda>factor.
     rbind (k_of_factor env factor n dtype) (\<lambda>k.
     rbind (HyperParamFinder 0 (ce_unsigned env) kw ''seed'' True (\<lambda>x. x \<noteq> 0)) (\<lambda>seed.
       Inr (RandomkCompressor (Compressor (ce_fresh env) n dtype) k (seeded env seed)))))"

definition dithering_ctor :: "compress_env \<Rightarrow> (string \<rightharpoonup> string) \<Rightarrow> nat \<Rightarrow> data_type \<Rightarrow> compressor res" where
  "dithering_ctor env kw n dtype =
     rbind (HyperParamFinder 0 (ce_unsigned env) kw ''compressor_k'' False (\<lambda>x. True)) (\<lambda>k.
     rbind (HyperParamFinder 0 (ce_unsigned env) kw ''seed'' True (\<lambda>x. x \<noteq> 0)) (\<lambda>seed.
     rbind (HyperParamFinder 0 (ce_int env) kw ''dithering_partition'' True (\<lambda>x. x = 0 \<or> x = 1)) (\<lambda>ptype.
     rbind (HyperParamFinder 0 (ce_int env) kw ''dithering_normalize'' True (\<lambda>x. x = 0 \<or> x = 1)) (\<lambda>ntype.
       Inr (DitheringCompressor (Compressor (ce_fresh env) n dtype)
              \<lparr>dp_s = unat k, dp_ptype = (if ptype = 0 then LINEAR else NATURAL),
               dp_ntype = (if ntype = 0 then NORM_MAX else NORM_L2)\<rparr> (seeded env seed))))))"

text \<open>The decorators are made around the compressor created for the remaining parameters.\<close>

definition vanilla_ef_ctor :: "compress_env \<Rightarrow> nat \<Rightarrow> data_type \<Rightarrow> compressor option \<Rightarrow> compressor res" where
  "vanilla_ef_ctor env n dtype cptr =
     (case cptr of
        None \<Rightarrow> Inl (CheckFailed ''cptr'')
      | Some c \<Rightarrow>
          (case ce_lr env of
             None \<Rightarrow> Inl (CheckFailed ''open lr.s failed'')
           | Some lr \<Rightarrow> Inr (VanillaErrorFeedback (Compressor (ce_fresh env) n dtype) (replicate n 0) lr c)))"

definition nesterov_ctor :: "compress_env \<Rightarrow> (string \<rightharpoonup> string) \<Rightarrow> nat \<Rightarrow> data_type \<Rightarrow> compressor option \<Rightarrow>
    compressor res" where
  "nesterov_ctor env kw n dtype cptr =
     (case cptr of
        None \<Rightarrow> Inl (CheckFailed ''cptr'')
      | Some c \<Rightarrow>
          rbind (HyperParamFinder 0 (ce_float env) kw ''momentum_mu'' False (\<lambda>x. True)) (\<lambda>mu.
            Inr (NesterovMomentum (Compressor (ce_fresh env) n dtype) (replicate n 0) mu c)))"

text \<open>Each decorator is only found under its own parameter, which it removes.\<close>

lemma ctor_names:
  assumes "ctor_map (v @ ''_'' @ t) = Some c" and "t \<in> set (compressor_types server)"
  shows "(t, v, c) \<in> {(''compressor_type'', ''onebit'', Onebit_ctor), (''compressor_type'', ''topk'', Topk_ctor),
    (''compressor_type'', ''randomk'', Randomk_ctor), (''compressor_type'', ''dithering'', Dithering_ctor),
    (''ef_type'', ''vanilla'', VanillaEF_ctor), (''momentum_type'', ''nesterov'', Nesterov_ctor)}"
proof -
  have n: "v @ ''_'' @ t = x \<longleftrightarrow> rev t @ ''_'' @ rev v = rev x" for x
    by (metis append.assoc rev_append rev_rev_ident rev_singleton_conv)
  show ?thesis
    using assms by (auto simp: ctor_map_def compressor_types_def n rev_swap split: if_splits)
qed

lemma first_type_SomeD:
  assumes "first_type server kw = Some (t, v)"
  shows "t \<in> set (compressor_types server) \<and> kw t = Some v"
proof -
  obtain ts where f: "filter (\<lambda>t. kw t \<noteq> None) (compressor_types server) = t # ts" "v = the (kw t)"
    using assms by (auto simp: first_type_def split: list.splits)
  then have "t \<in> set (filter (\<lambda>t. kw t \<noteq> None) (compressor_types server))" by (simp only: f) simp
  then show ?thesis using f(2) by auto
qed

definition decorators :: "(string \<rightharpoonup> string) \<Rightarrow> nat" where
  "decorators kw = of_bool (kw ''momentum_type'' \<noteq> None) + of_bool (kw ''ef_type'' \<noteq> None)"

lemma decorators_less:
  assumes "first_type server kw = Some (t, v)" and "Find (v @ ''_'' @ t) = Inr c"
  shows "c = VanillaEF_ctor \<Longrightarrow> decorators (kw(''ef_type'' := None)) < decorators kw"
    and "c = Nesterov_ctor \<Longrightarrow> decorators (kw(''momentum_type'' := None)) < decorators kw"
  using first_type_SomeD [OF assms(1)] assms(2) ctor_names [of v t c server]
  by (auto simp: Find_def decorators_def split: option.splits)

function Create :: "compress_env \<Rightarrow> (string \<rightharpoonup> string) \<Rightarrow> nat \<Rightarrow> data_type \<Rightarrow> compressor option res" where
  "Create env kw n dtype =
     (case first_type (ce_server env) kw of
        None \<Rightarrow> Inr None
      | Some (t, v) \<Rightarrow>
          (case Find (v @ ''_'' @ t) of
             Inl e \<Rightarrow> Inl e
           | Inr Onebit_ctor \<Rightarrow> rbind (onebit_ctor env kw n dtype) (\<lambda>c. Inr (Some c))
           | Inr Topk_ctor \<Rightarrow> rbind (topk_ctor env kw n dtype) (\<lambda>c. Inr (Some c))
           | Inr Randomk_ctor \<Rightarrow> rbind (randomk_ctor env kw n dtype) (\<lambda>c. Inr (Some c))
           | Inr Dithering_ctor \<Rightarrow> rbind (dithering_ctor env kw n dtype) (\<lambda>c. Inr (Some c))
           | Inr VanillaEF_ctor \<Rightarrow>
               rbind (Create env (kw(''ef_type'' := None)) n dtype) (\<lambda>cptr.
               rbind (vanilla_ef_ctor env n dtype cptr) (\<lambda>c. Inr (Some c)))
           | Inr Nesterov_ctor \<Rightarrow>
               rbind (Create env (kw(''momentum_type'' := None)) n dtype) (\<lambda>cptr.
               rbind (nesterov_ctor env kw n dtype cptr) (\<lambda>c. Inr (Some c)))))"
  by pat_completeness auto

termination
  by (relation "measure (\<lambda>(env, kw, n, dtype). decorators kw)") (auto dest: decorators_less)

declare Create.simps [simp del]

text \<open>The classes of a chain from the outside in, and what every object of it was made with.\<close>

fun chain :: "compressor \<Rightarrow> string list" where
  "chain (OnebitCompressor cb sc) = [''onebit'']"
| "chain (TopkCompressor cb k) = [''topk'']"
| "chain (RandomkCompressor cb k st) = [''randomk'']"
| "chain (DitheringCompressor cb dp st) = [''dithering'']"
| "chain (VanillaErrorFeedback cb e lr c) = ''vanilla'' # chain c"
| "chain (NesterovMomentum cb m mu c) = ''nesterov'' # chain c"

fun made_with :: "nat \<Rightarrow> data_type \<Rightarrow> compressor \<Rightarrow> bool" where
  "made_with n dt (OnebitCompressor cb sc) \<longleftrightarrow> cb_size cb = n \<and> cb_dtype cb = dt \<and> length (cb_buf cb) = n"
| "made_with n dt (TopkCompressor cb k) \<longleftrightarrow> cb_size cb = n \<and> cb_dtype cb = dt \<and> length (cb_buf cb) = n"
| "made_with n dt (RandomkCompressor cb k st) \<longleftrightarrow> cb_size cb = n \<and> cb_dtype cb = dt \<and> length (cb_buf cb) = n"
| "made_with n dt (DitheringCompressor cb dp st) \<longleftrightarrow> cb_size cb = n \<and> cb_dtype cb = dt \<and> length (cb_buf cb) = n"
| "made_with n dt (VanillaErrorFeedback cb e lr c) \<longleftrightarrow> cb_size cb = n \<and> cb_dtype cb = dt \<and> length (cb_buf cb) = n \<and>
     e = replicate n 0 \<and> made_with n dt c"
| "made_with n dt (NesterovMomentum cb m mu c) \<longleftrightarrow> cb_size cb = n \<and> cb_dtype cb = dt \<and> length (cb_buf cb) = n \<and>
     m = replicate n 0 \<and> made_with n dt c"

text \<open>The value of a parameter, if it is given; and what the parameters ask for.\<close>

definition given :: "(string \<rightharpoonup> string) \<Rightarrow> string \<Rightarrow> string list" where
  "given kw t = (case kw t of None \<Rightarrow> [] | Some v \<Rightarrow> [v])"

definition requested :: "bool \<Rightarrow> (string \<rightharpoonup> string) \<Rightarrow> string list" where
  "requested server kw = (if server then [] else given kw ''momentum_type'') @ given kw ''ef_type'' @ given kw ''compressor_type''"

lemmas ctor_defs = onebit_ctor_def topk_ctor_def randomk_ctor_def dithering_ctor_def Compressor_def

lemma requested_first:
  "first_type server kw = None \<longleftrightarrow> requested server kw = []"
  "first_type server kw = Some (t, v) \<Longrightarrow>
     (t = ''compressor_type'' \<longrightarrow> requested server kw = [v]) \<and>
     (t = ''ef_type'' \<longrightarrow> requested server kw = v # requested server (kw(''ef_type'' := None))) \<and>
     (t = ''momentum_type'' \<longrightarrow> requested server kw = v # requested server (kw(''momentum_type'' := None)))"
  by (auto simp: first_type_def requested_def compressor_types_def given_def split: if_splits option.splits)

lemma Create_chain:
  "Create env kw n dtype = Inr r \<Longrightarrow>
     (case r of None \<Rightarrow> requested (ce_server env) kw = []
      | Some c \<Rightarrow> chain c = requested (ce_server env) kw \<and> kw ''compressor_type'' \<noteq> None \<and> made_with n dtype c)"
proof (induction env kw n dtype arbitrary: r rule: Create.induct)
  case (1 env kw n dtype)
  show ?case
  proof (cases "first_type (ce_server env) kw")
    case None
    then have "r = None" using "1.prems" by (subst (asm) Create.simps) simp
    then show ?thesis using None requested_first(1) [of "ce_server env" kw] by simp
  next
    case (Some tv)
    obtain t v where tv: "tv = (t, v)" by (cases tv)
    note ft = Some [unfolded tv]
    obtain c where c: "Find (v @ ''_'' @ t) = Inr c"
      using "1.prems" ft by (cases "Find (v @ ''_'' @ t)") (simp_all add: Create.simps [of env kw])
    have names: "(t, v, c) \<in> {(''compressor_type'', ''onebit'', Onebit_ctor), (''compressor_type'', ''topk'', Topk_ctor),
      (''compressor_type'', ''randomk'', Randomk_ctor), (''compressor_type'', ''dithering'', Dithering_ctor),
      (''ef_type'', ''vanilla'', VanillaEF_ctor), (''momentum_type'', ''nesterov'', Nesterov_ctor)}"
      using ctor_names [of v t c "ce_server env"] first_type_SomeD [OF ft] c by (auto simp: Find_def split: option.splits)
    note req = requested_first(2) [OF ft]
    show ?thesis
    proof (cases c)
      case VanillaEF_ctor
      then have t: "t = ''ef_type''" "v = ''vanilla''" using names by auto
      obtain cptr cc where cc: "Create env (kw(''ef_type'' := None)) n dtype = Inr cptr"
        "vanilla_ef_ctor env n dtype cptr = Inr cc" "r = Some cc"
        using "1.prems" ft c VanillaEF_ctor by (auto simp: Create.simps [of env kw] res_simps)
      have "case cptr of None \<Rightarrow> requested (ce_server env) (kw(''ef_type'' := None)) = []
        | Some c \<Rightarrow> chain c = requested (ce_server env) (kw(''ef_type'' := None)) \<and> kw ''compressor_type'' \<noteq> None \<and> made_with n dtype c"
        using "1.IH"(1) [OF ft refl _ _ cc(1)] c VanillaEF_ctor by (cases cptr) simp_all
      then show ?thesis
        using cc(2,3) req t by (auto simp: vanilla_ef_ctor_def Compressor_def split: option.splits)
    next
      case Nesterov_ctor
      then have t: "t = ''momentum_type''" "v = ''nesterov''" using names by auto
      obtain cptr cc where cc: "Create env (kw(''momentum_type'' := None)) n dtype = Inr cptr"
        "nesterov_ctor env kw n dtype cptr = Inr cc" "r = Some cc"
        using "1.prems" ft c Nesterov_ctor by (auto simp: Create.simps [of env kw] res_simps)
      have "case cptr of None \<Rightarrow> requested (ce_server env) (kw(''momentum_type'' := None)) = []
        | Some c \<Rightarrow> chain c = requested (ce_server env) (kw(''momentum_type'' := None)) \<and> kw ''compressor_type'' \<noteq> None \<and> made_with n dtype c"
        using "1.IH"(2) [OF ft refl _ _ cc(1)] c Nesterov_ctor by (cases cptr) simp_all
      then show ?thesis
        using cc(2,3) req t by (auto simp: nesterov_ctor_def Compressor_def res_simps split: option.splits)
    qed (use "1.prems" ft c names req first_type_SomeD [OF ft] in \<open>auto simp: Create.simps [of env kw] res_simps ctor_defs\<close>)
  qed
qed

subsection \<open>The contract of error feedback\<close>

text \<open>
  What the decorator needs of a compressor: a tensor it accepts is compressed, a peer with the same
  parameters can decompress the result, and the error is updated such that every scalar splits
  into the value the peer gets and the error that is kept, in the sense of \<open>splits\<close>.
\<close>

locale lossy_compressor =
  fixes compress :: "'s \<Rightarrow> bps_tensor \<Rightarrow> ('s \<times> bps_tensor) res"
    and decompress :: "'s \<Rightarrow> bps_tensor \<Rightarrow> ('s \<times> bps_tensor) res"
    and update :: "'s \<Rightarrow> u8 list \<Rightarrow> u8 list \<Rightarrow> bps_tensor \<Rightarrow> u8 list res"
    and accepts :: "'s \<Rightarrow> bps_tensor \<Rightarrow> bool"
    and base :: "'s \<Rightarrow> compressor_base"
    and splits :: "'s \<Rightarrow> nat \<Rightarrow> nat \<Rightarrow> nat \<Rightarrow> bool"
  assumes lossy: "accepts s p \<Longrightarrow> cb_size (base s) \<le> length err \<Longrightarrow>
    \<exists>s' t s'' d err'. compress s p = Inr (s', t) \<and> decompress s t = Inr (s'', d) \<and>
      update s' err (bt_data p) t = Inr err' \<and> length err' = length err \<and>
      (\<forall>i < cb_size (base s) div type_width (cb_dtype (base s)). \<exists>pv dv ev.
         elt (type_width (cb_dtype (base s))) (bt_data p) i = Inr pv \<and>
         elt (type_width (cb_dtype (base s))) (bt_data d) i = Inr dv \<and>
         elt (type_width (cb_dtype (base s))) err' i = Inr ev \<and> splits s pv dv ev)"
begin

text \<open>Compression followed by the update of the error: the second and third step of the decorator.\<close>

definition feedback :: "'s \<Rightarrow> u8 list \<Rightarrow> bps_tensor \<Rightarrow> ('s \<times> u8 list \<times> bps_tensor) res" where
  "feedback s err p =
     rbind (compress s p) (\<lambda>(s', t). rbind (update s' err (bt_data p) t) (\<lambda>err'. Inr (s', err', t)))"

lemma feedback_splits:
  assumes "accepts s p" and "cb_size (base s) \<le> length err"
  shows "\<exists>s' err' t s'' d. feedback s err p = Inr (s', err', t) \<and> length err' = length err \<and>
    decompress s t = Inr (s'', d) \<and>
    (\<forall>i < cb_size (base s) div type_width (cb_dtype (base s)). \<exists>pv dv ev.
       elt (type_width (cb_dtype (base s))) (bt_data p) i = Inr pv \<and>
       elt (type_width (cb_dtype (base s))) (bt_data d) i = Inr dv \<and>
       elt (type_width (cb_dtype (base s))) err' i = Inr ev \<and> splits s pv dv ev)"
  using lossy [OF assms] by (fastforce simp: feedback_def)

end

definition compress_only :: "compress_env \<Rightarrow> compressor \<Rightarrow> bps_tensor \<Rightarrow> (compressor \<times> bps_tensor) res" where
  "compress_only env c p = rbind (Compress env c p) (\<lambda>(c', p', t). Inr (c', t))"

definition decompress_peer :: "compress_env \<Rightarrow> compressor \<Rightarrow> bps_tensor \<Rightarrow> (compressor \<times> bps_tensor) res" where
  "decompress_peer env = Decompress (env\<lparr>ce_server := True\<rparr>)"

fun base_of :: "compressor \<Rightarrow> compressor_base" where
  "base_of (OnebitCompressor cb sc) = cb"
| "base_of (TopkCompressor cb k) = cb"
| "base_of (RandomkCompressor cb k st) = cb"
| "base_of (DitheringCompressor cb dp st) = cb"
| "base_of (VanillaErrorFeedback cb e lr c) = cb"
| "base_of (NesterovMomentum cb m mu c) = cb"

text \<open>A tensor of the compressor's size and type, and a compressor whose buffer has its size.\<close>

definition sized :: "compressor_base \<Rightarrow> bps_tensor \<Rightarrow> bool" where
  "sized cb p \<longleftrightarrow> float_type (cb_dtype cb) \<and> bt_dtype p = data_type_value (cb_dtype cb) \<and>
     bt_size p = cb_size cb \<and> cb_size cb \<le> length (bt_data p) \<and> length (cb_buf cb) = cb_size cb"

definition count_of :: "compressor_base \<Rightarrow> nat" where
  "count_of cb = cb_size cb div type_width (cb_dtype cb)"

definition scalar_at :: "compressor_base \<Rightarrow> bps_tensor \<Rightarrow> nat \<Rightarrow> nat" where
  "scalar_at cb p i = le_value (take (type_width (cb_dtype cb)) (drop (i * type_width (cb_dtype cb)) (bt_data p)))"

lemma scalar_at_elt:
  "sized cb p \<Longrightarrow> i < count_of cb \<Longrightarrow> elt (type_width (cb_dtype cb)) (bt_data p) i = Inr (scalar_at cb p i)"
  using index_fits [of i "cb_size cb" "type_width (cb_dtype cb)"]
  by (simp add: scalar_at_def count_of_def sized_def elt_def)

fun sparse_accepts :: "compress_env \<Rightarrow> compressor \<Rightarrow> bps_tensor \<Rightarrow> bool" where
  "sparse_accepts env (TopkCompressor cb k) p \<longleftrightarrow> sized cb p \<and> 0 < k \<and> k \<le> count_of cb div 2 \<and>
     count_of cb \<le> 256 ^ type_width (cb_dtype cb) \<and>
     (\<forall>i < count_of cb. \<not> scalar_nan (ops_of env) (cb_dtype cb) (scalar_at cb p i))"
| "sparse_accepts env (RandomkCompressor cb k st) p \<longleftrightarrow> sized cb p \<and> 0 < k \<and> k \<le> count_of cb div 2 \<and>
     count_of cb \<le> 256 ^ type_width (cb_dtype cb) \<and> count_of cb < 2 ^ 64"
| "sparse_accepts env _ p \<longleftrightarrow> False"

definition all_or_nothing :: "compressor \<Rightarrow> nat \<Rightarrow> nat \<Rightarrow> nat \<Rightarrow> bool" where
  "all_or_nothing c pv dv ev \<longleftrightarrow> dv = pv \<and> ev = 0 \<or> dv = 0 \<and> ev = pv"

lemma carries_splits:
  assumes s: "sized cb p" and c: "carries (type_width (cb_dtype cb)) t (scalar_at cb p) S" "S \<subseteq> {..<count_of cb}"
    and t: "bt_size t = k * (2 * type_width (cb_dtype cb))" "cb_size cb' = cb_size cb" "cb_dtype cb' = cb_dtype cb"
    and err: "cb_size cb \<le> length err"
  shows "\<exists>cb'' d err'. Topk_Decompress True cb t = Inr (cb'', d) \<and>
    Topk_FastUpdateError k cb' err (bt_data p) t = Inr err' \<and> length err' = length err \<and>
    (\<forall>i < count_of cb. \<exists>pv dv ev. elt (type_width (cb_dtype cb)) (bt_data p) i = Inr pv \<and>
       elt (type_width (cb_dtype cb)) (bt_data d) i = Inr dv \<and>
       elt (type_width (cb_dtype cb)) err' i = Inr ev \<and> all_or_nothing x pv dv ev)"
proof -
  let ?w = "type_width (cb_dtype cb)"
  have v: "i < count_of cb \<Longrightarrow> elt ?w (bt_data p) i = Inr (scalar_at cb p i)" for i by (rule scalar_at_elt [OF s])
  have "\<exists>cb'' d. Topk_Decompress True cb t = Inr (cb'', d) \<and> bt_size d = cb_size cb \<and>
      length (bt_data d) = length (if True then cb_buf cb else bt_data t) \<and>
      (\<forall>i < cb_size cb div ?w. elt ?w (bt_data d) i = Inr (if i \<in> S then scalar_at cb p i else 0))"
  proof (rule Topk_Decompress_carries [OF _ refl refl c(1)])
    show "i < cb_size cb div ?w \<and> scalar_at cb p i < 256 ^ ?w" if "i \<in> S" for i
      using that c(2) elt_less [OF v] by (auto simp: count_of_def)
  qed (use s in \<open>simp_all add: sized_def\<close>)
  moreover have "\<exists>err'. Topk_FastUpdateError k cb' err (bt_data p) t = Inr err' \<and> length err' = length err \<and>
      (\<forall>i < cb_size cb' div ?w. elt ?w err' i = Inr (if i \<in> S then 0 else scalar_at cb p i))"
    using s c t err v
    by (intro Topk_FastUpdateError_carries [OF _ t(3)]) (auto simp: sized_def count_of_def)
  ultimately show ?thesis using v t(2) by (fastforce simp: count_of_def all_or_nothing_def)
qed

lemma sparse_lossy:
  assumes "sparse_accepts env c p" and "cb_size (base_of c) \<le> length err"
  shows "\<exists>c' t c'' d err'. compress_only env c p = Inr (c', t) \<and> decompress_peer env c t = Inr (c'', d) \<and>
    FastUpdateError env c' err (bt_data p) t = Inr err' \<and> length err' = length err \<and>
    (\<forall>i < cb_size (base_of c) div type_width (cb_dtype (base_of c)). \<exists>pv dv ev.
       elt (type_width (cb_dtype (base_of c))) (bt_data p) i = Inr pv \<and>
       elt (type_width (cb_dtype (base_of c))) (bt_data d) i = Inr dv \<and>
       elt (type_width (cb_dtype (base_of c))) err' i = Inr ev \<and> all_or_nothing c pv dv ev)"
proof (cases c)
  case (TopkCompressor cb k)
  let ?w = "type_width (cb_dtype cb)"
  have a: "sized cb p" "0 < k" "k \<le> count_of cb div 2" "count_of cb \<le> 256 ^ ?w"
    "\<And>i. i < count_of cb \<Longrightarrow> \<not> scalar_nan (ops_of env) (cb_dtype cb) (scalar_at cb p i)"
    using assms(1) TopkCompressor by simp_all
  obtain cb' t S where t: "Topk_Compress (ops_of env) k cb p = Inr (cb', t)" "bt_size t = k * (2 * ?w)"
    "cb_size cb' = cb_size cb" "cb_dtype cb' = cb_dtype cb"
    "selects (ops_of env) (cb_dtype cb) (scalar_at cb p) (count_of cb) k S" "carries ?w t (scalar_at cb p) S"
    using Topk_Compress_carries [of "cb_dtype cb" p ?w "count_of cb" k cb "scalar_at cb p" "ops_of env"] a
      scalar_at_elt [OF a(1)]
    by (auto simp: sized_def count_of_def)
  have "S \<subseteq> {..<count_of cb}" using t(5) by (simp add: selects_def)
  from carries_splits [OF a(1) t(6) this t(2-4), of err] show ?thesis
    using TopkCompressor assms(2) t(1)
    by (auto simp: compress_only_def decompress_peer_def count_of_def all_or_nothing_def)
next
  case (RandomkCompressor cb k st)
  let ?w = "type_width (cb_dtype cb)"
  have a: "sized cb p" "0 < k" "k \<le> count_of cb div 2" "count_of cb \<le> 256 ^ ?w" "count_of cb < 2 ^ 64"
    using assms(1) RandomkCompressor by simp_all
  obtain st' cb' t S where t: "Randomk_Compress k st cb p = Inr (st', cb', t)" "bt_size t = k * (2 * ?w)"
    "cb_size cb' = cb_size cb" "cb_dtype cb' = cb_dtype cb" "S \<subseteq> {..<count_of cb}" "carries ?w t (scalar_at cb p) S"
    using Randomk_Compress_carries [of "cb_dtype cb" p ?w "count_of cb" k cb "scalar_at cb p" st] a
      scalar_at_elt [OF a(1)]
    by (auto simp: sized_def count_of_def)
  from carries_splits [OF a(1) t(6,5,2-4), of err] show ?thesis
    using RandomkCompressor assms(2) t(1)
    by (auto simp: compress_only_def decompress_peer_def count_of_def all_or_nothing_def Randomk_same_as_Topk)
qed (use assms(1) in simp_all)

interpretation sparse: lossy_compressor "compress_only env" "decompress_peer env" "FastUpdateError env"
  "sparse_accepts env" base_of all_or_nothing for env
  by unfold_locales (rule sparse_lossy)

subsection \<open>Properties\<close>

lemma elt_loop_inv:
  assumes "elt_loop w g is dst = Inr r" and "distinct is" and "i \<in> set is"
    and "\<And>d d' i. elt w d i = elt w d' i \<Longrightarrow> g d i = g d' i"
  shows "\<exists>v. g dst i = Inr v \<and> elt w r i = Inr (v mod 256 ^ w)"
  using assms(1-3)
proof (induction "is" arbitrary: dst)
  case (Cons j js)
  then obtain v d1 where v: "g dst j = Inr v" "put_elt w dst j v = Inr d1" "elt_loop w g js d1 = Inr r"
    by (auto simp: res_simps)
  have other: "elt w r j = elt w d1 j" if "j \<notin> set js"
    using that v(3)
  proof (induction js arbitrary: d1)
    case (Cons k ks)
    then obtain u d2 where u: "put_elt w d1 k u = Inr d2" "elt_loop w g ks d2 = Inr r" by (auto simp: res_simps)
    then show ?case using Cons elt_put_other [OF u(1), of j] by simp
  qed simp
  show ?case
  proof (cases "i = j")
    case True
    then show ?thesis using v other Cons.prems(2) elt_put_same [OF v(2)] by simp
  next
    case False
    then have "\<exists>v. g d1 i = Inr v \<and> elt w r i = Inr (v mod 256 ^ w)" using Cons v(3) by simp
    moreover have "g d1 i = g dst i" using assms(4) elt_put_other [OF v(2)] False by metis
    ultimately show ?thesis by simp
  qed
qed simp

lemma sum_into_scaled_elts:
  assumes "sum_into_scaled bld fo dst src n dt alpha = Inr r" and "dt \<noteq> BYTEPS_FLOAT16 \<or> \<not> avx_build bld"
    and "i < n div type_width dt"
  shows "\<exists>a b c. elt (type_width dt) dst i = Inr a \<and> elt (type_width dt) src i = Inr b \<and>
    elem_add_scaled fo alpha dt a b = Inr c \<and> elt (type_width dt) r i = Inr (c mod 256 ^ type_width dt)"
proof -
  let ?w = "type_width dt" and ?g = "\<lambda>d. pairwise (type_width dt) (elem_add_scaled fo alpha dt) d src"
  have "elt_loop ?w ?g [0..<n div ?w] dst = Inr r"
    using assms(1,2) by (cases "dt = BYTEPS_FLOAT16") (auto simp: sum_into_scaled_def sum_loops)
  from elt_loop_inv [OF this _ _ pairwise_cong, of i] assms(3)
  obtain c where "?g dst i = Inr c" "elt ?w r i = Inr (c mod 256 ^ ?w)" by auto
  then show ?thesis by (auto simp: pairwise_def rbind_eq_Inr)
qed

lemma float_scaled_less: "float_type dt \<Longrightarrow> elem_add_scaled fo alpha dt a b = Inr c \<Longrightarrow> c < 256 ^ type_width dt"
  by (auto simp: float_type_def intro!: order.strict_trans2 [OF unsigned_less])

lemma Compress_plain:
  "sparse_accepts env c p \<Longrightarrow> Compress env c p = Inr (c', p', t) \<Longrightarrow> p' = p"
  by (cases c) (auto simp: res_simps)

text \<open>
  C31. Error feedback loses nothing. Around top k or random k, and for every scalar of the
  partition, the corrected gradient (the gradient plus the old error, scaled by the ratio of the
  learning rates) is either what the peer decompresses, and the new error is zero, or the peer
  gets zero and the new error is the whole value. This is for a corrected gradient the compressor
  accepts: of the size and type the compressor was made for (a partition whose length is the
  aligned one), of one of the three floating-point types, with \<open>k\<close> at least one and
  at most half of the scalars, with no more scalars than positions fit the width of a scalar
  (65536 for halves), and for top k without a NaN. In a build with AVX and F16C it is for single
  and double precision only.
\<close>

theorem error_feedback_loses_nothing:
  assumes "EF_UpdateGradient env e lr g = Inr (lr', p)" and "sparse_accepts env c p"
    and "cb_size (base_of c) \<le> length e"
    and "cb_dtype (base_of c) \<noteq> BYTEPS_FLOAT16 \<or> \<not> avx_build (ce_build env)"
  shows "\<exists>c' e' t c'' d. Compress env (VanillaErrorFeedback cb e lr c) g =
      Inr (VanillaErrorFeedback cb e' lr' c', p, t) \<and> length e' = length e \<and>
    decompress_peer env c t = Inr (c'', d) \<and>
    (let w = type_width (cb_dtype (base_of c))
     in \<forall>i < cb_size (base_of c) div w. \<exists>gv ev pv dv ev'.
          elt w (bt_data g) i = Inr gv \<and> elt w e i = Inr ev \<and>
          elem_add_scaled (ops_of env) (f64_to_f32 env (f64_div env lr lr')) (cb_dtype (base_of c)) gv ev = Inr pv \<and>
          elt w (bt_data d) i = Inr dv \<and> elt w e' i = Inr ev' \<and>
          (dv = pv \<and> ev' = 0 \<or> dv = 0 \<and> ev' = pv))"
proof -
  let ?cb = "base_of c"
  let ?w = "type_width (cb_dtype ?cb)" and ?alpha = "f64_to_f32 env (f64_div env lr lr')"
  have sz: "sized ?cb p" using assms(2) by (cases c) simp_all
  then have ft: "float_type (cb_dtype ?cb)" by (simp add: sized_def)
  obtain c' e' t c'' d where f: "sparse.feedback env c e p = Inr (c', e', t)" "length e' = length e"
    "decompress_peer env c t = Inr (c'', d)"
    "\<forall>i < cb_size ?cb div ?w. \<exists>pv dv ev. elt ?w (bt_data p) i = Inr pv \<and> elt ?w (bt_data d) i = Inr dv \<and>
       elt ?w e' i = Inr ev \<and> all_or_nothing c pv dv ev"
    using sparse.feedback_splits [OF assms(2,3)] by blast
  obtain p' where cp: "Compress env c p = Inr (c', p', t)" "FastUpdateError env c' e (bt_data p) t = Inr e'"
    using f(1) by (auto simp: sparse.feedback_def compress_only_def res_simps)
  have p': "p' = p" by (rule Compress_plain [OF assms(2) cp(1)])
  have run: "Compress env (VanillaErrorFeedback cb e lr c) g = Inr (VanillaErrorFeedback cb e' lr' c', p, t)"
    using assms(1) cp p' by simp
  obtain data dt where sum: "sum_into_scaled (ce_build env) (ops_of env) (bt_data g) e (bt_size g) dt ?alpha = Inr data"
    "p = g\<lparr>bt_data := data\<rparr>" "data_type_of (bt_dtype g) = Some dt"
    using assms(1) by (auto simp: EF_UpdateGradient_def reduce_switch_def res_simps split: option.splits)
  have dt: "dt = cb_dtype ?cb" using sz sum(2,3) by (auto simp: sized_def)
  have "\<exists>gv ev pv dv ev'. elt ?w (bt_data g) i = Inr gv \<and> elt ?w e i = Inr ev \<and>
      elem_add_scaled (ops_of env) ?alpha (cb_dtype ?cb) gv ev = Inr pv \<and>
      elt ?w (bt_data d) i = Inr dv \<and> elt ?w e' i = Inr ev' \<and> (dv = pv \<and> ev' = 0 \<or> dv = 0 \<and> ev' = pv)"
    if i: "i < cb_size ?cb div ?w" for i
  proof -
    have "bt_size g = cb_size ?cb" using sz sum(2) by (simp add: sized_def)
    then obtain gv ev pv where s: "elt ?w (bt_data g) i = Inr gv" "elt ?w e i = Inr ev"
      "elem_add_scaled (ops_of env) ?alpha (cb_dtype ?cb) gv ev = Inr pv" "elt ?w (bt_data p) i = Inr (pv mod 256 ^ ?w)"
      using sum_into_scaled_elts [OF sum(1), of i] assms(4) i sum(2) dt by auto
    then have "elt ?w (bt_data p) i = Inr pv" using float_scaled_less [OF ft s(3)] by simp
    then show ?thesis using s f(4) i by (fastforce simp: all_or_nothing_def)
  qed
  then show ?thesis using run f(2,3) unfolding Let_def by blast
qed

definition demo_cenv :: compress_env where
  "demo_cenv = \<lparr>f32_add = (\<lambda>a b. if b = 0 then a else b), f32_mul = (\<lambda>a b. if a = 0 then 0 else b),
     f64_add = (\<lambda>a b. a + b), f64_mul = (\<lambda>a b. a), f32_to_f64 = ucast, int_to_f32 = of_int,
     f32_to_int = (\<lambda>f. Some (uint f)), hw_to_f32 = ucast, hw_to_f16 = ucast,
     f32_sub = (\<lambda>a b. a - b), f32_div = (\<lambda>a b. a), f32_floor = (\<lambda>a. a),
     f64_sub = (\<lambda>a b. a - b), f64_div = (\<lambda>a b. a), f64_sqrt = (\<lambda>a. a), f64_ceil = (\<lambda>a. a),
     f64_to_f32 = ucast, f64_to_u32 = (\<lambda>a. Some (ucast a)), nat_to_f64 = of_nat, f64_less = (\<lambda>a b. a < b),
     flog2_of = ilog2, round_f32 = (\<lambda>n. n),
     ce_server = False, ce_build = \<lparr>avx_build = False, avx_cpu = False\<rparr>, ce_lr = Some 1, ce_rng = (1, 2),
     ce_fresh = (\<lambda>_. 0), ce_bool = (\<lambda>s. s = ''true''), ce_int = (\<lambda>_. 0), ce_unsigned = (\<lambda>_. 1), ce_float = (\<lambda>_. 1)\<rparr>"

text \<open>The four floats 1, -3, 2 and 0.5.\<close>

definition demo_grad :: bps_tensor where
  "demo_grad = \<lparr>bt_data = [0, 0, 0x80, 0x3F, 0, 0, 0x40, 0xC0, 0, 0, 0, 0x40, 0, 0, 0, 0x3F], bt_size = 16, bt_dtype = 0\<rparr>"

definition demo_cbase :: compressor_base where
  "demo_cbase = Compressor (\<lambda>_. 0) 16 BYTEPS_FLOAT32"

lemma put_elt_same: "elt w buf i = Inr v \<Longrightarrow> put_elt w buf i v = Inr buf"
proof -
  assume e: "elt w buf i = Inr v"
  then have b: "i * w + w \<le> length buf" "v = le_value (take w (drop (i * w) buf))" by (simp_all add: res_simps add.commute)
  then have "le_bytes w v = take w (drop (i * w) buf)"
    using le_bytes_value [of "take w (drop (i * w) buf)"] by simp
  moreover have "take (i * w) buf @ take w (drop (i * w) buf) @ drop (i * w + w) buf = buf"
    by (metis append_assoc append_take_drop_id take_add)
  ultimately show ?thesis using b(1) by (simp add: put_elt_def algebra_simps)
qed

lemma elt_loop_same: "(\<And>i. i \<in> set is \<Longrightarrow> \<exists>v. g buf i = Inr v \<and> elt w buf i = Inr v) \<Longrightarrow> elt_loop w g is buf = Inr buf"
proof (induction "is")
  case (Cons i "is")
  then obtain v where "g buf i = Inr v" "elt w buf i = Inr v" by (meson list.set_intros(1))
  then show ?case using Cons put_elt_same [of w buf i v] by simp
qed simp

lemma elt_replicate_zero: "(i + 1) * w \<le> n \<Longrightarrow> elt w (replicate n 0) i = Inr 0"
proof -
  have z: "le_value (replicate m 0) = 0" for m by (induction m) simp_all
  show "(i + 1) * w \<le> n \<Longrightarrow> elt w (replicate n 0) i = Inr 0" by (simp add: elt_def z min_def)
qed

lemma demo_corrected: "EF_UpdateGradient demo_cenv (replicate 16 0) 1 demo_grad = Inr (1, demo_grad)"
proof -
  let ?g = "\<lambda>d. pairwise 4 (elem_add_scaled (ops_of demo_cenv) 1 BYTEPS_FLOAT32) d (replicate 16 0)"
  have "elt_loop 4 ?g [0..<4] (bt_data demo_grad) = Inr (bt_data demo_grad)"
  proof (rule elt_loop_same)
    fix i assume "i \<in> set [0..<4]"
    then have i: "(i + 1) * 4 \<le> 16" by simp
    then obtain v where v: "elt 4 (bt_data demo_grad) i = Inr v" by (simp add: elt_def demo_grad_def)
    have "unat (of_nat v :: u32) = v" using elt_less [OF v] by (simp add: unat_of_nat)
    then have "?g (bt_data demo_grad) i = Inr v"
      using v elt_replicate_zero [OF i]
      by (simp add: pairwise_def) (simp add: demo_cenv_def ops_of_def float_ops.truncate_def)
    then show "\<exists>v. ?g (bt_data demo_grad) i = Inr v \<and> elt 4 (bt_data demo_grad) i = Inr v" using v by blast
  qed
  then show ?thesis
    by (simp add: EF_UpdateGradient_def reduce_switch_def current_lr_def demo_cenv_def demo_grad_def data_type_of_def
        sum_into_scaled_def sum_typed_scaled_def ops_of_def)
qed

lemma all_less_4: "(\<forall>i < 4. P i) \<longleftrightarrow> P 0 \<and> P 1 \<and> P 2 \<and> P (3 :: nat)"
  by (simp add: numeral_eq_Suc All_less_Suc) blast

lemma demo_accepts: "sparse_accepts demo_cenv (TopkCompressor demo_cbase 1) demo_grad"
proof -
  have "count_of demo_cbase = 4" by (simp add: count_of_def demo_cbase_def Compressor_def)
  then show ?thesis
    by (simp add: all_less_4)
      (simp add: demo_grad_def demo_cbase_def Compressor_def sized_def float_type_def scalar_at_def
        scalar_nan_def compared_as_def is_nan_def magnitude_def infinity_bits_def)
qed

theorem error_feedback_loses_nothing_witness:
  "\<exists>c' e' t c'' d. Compress demo_cenv (VanillaErrorFeedback demo_cbase (replicate 16 0) 1 (TopkCompressor demo_cbase 1))
      demo_grad = Inr (VanillaErrorFeedback demo_cbase e' 1 c', demo_grad, t) \<and> length e' = 16 \<and>
    decompress_peer demo_cenv (TopkCompressor demo_cbase 1) t = Inr (c'', d)"
  using error_feedback_loses_nothing [OF demo_corrected demo_accepts, of demo_cbase]
  by (auto simp: demo_cbase_def Compressor_def)

subsection \<open>Round trips\<close>

text \<open>
  C32. Top k is what its name says: the compressed tensor has \<open>k\<close> pairs, and a peer
  gets from it the gradient with \<open>k\<close> scalars in place and all others zero, where no
  scalar that is dropped has a larger magnitude than one that is kept; on the server, or in place
  on a worker. The scalars must be numbers, and the positions must fit the width of a scalar.
\<close>

theorem topk_keeps_largest:
  assumes "sized cb p" and "0 < k" and "k \<le> count_of cb div 2"
    and "count_of cb \<le> 256 ^ type_width (cb_dtype cb)"
    and "\<And>i. i < count_of cb \<Longrightarrow> \<not> scalar_nan fo (cb_dtype cb) (scalar_at cb p i)"
  shows "\<exists>cb' t S cb'' d. Topk_Compress fo k cb p = Inr (cb', t) \<and> bt_size t = k * (2 * type_width (cb_dtype cb)) \<and>
    S \<subseteq> {..<count_of cb} \<and> card S = k \<and>
    (\<forall>a \<in> S. \<forall>b \<in> {..<count_of cb} - S.
       scalar_mag fo (cb_dtype cb) (scalar_at cb p b) \<le> scalar_mag fo (cb_dtype cb) (scalar_at cb p a)) \<and>
    Topk_Decompress server cb t = Inr (cb'', d) \<and>
    (\<forall>i < count_of cb. elt (type_width (cb_dtype cb)) (bt_data d) i = Inr (if i \<in> S then scalar_at cb p i else 0))"
proof -
  let ?w = "type_width (cb_dtype cb)"
  have v: "i < count_of cb \<Longrightarrow> elt ?w (bt_data p) i = Inr (scalar_at cb p i)" for i
    by (rule scalar_at_elt [OF assms(1)])
  obtain cb' t S where t: "Topk_Compress fo k cb p = Inr (cb', t)" "bt_size t = k * (2 * ?w)"
    "length (bt_data t) = length (cb_buf cb)" "selects fo (cb_dtype cb) (scalar_at cb p) (count_of cb) k S"
    "carries ?w t (scalar_at cb p) S"
    using Topk_Compress_carries [of "cb_dtype cb" p ?w "count_of cb" k cb "scalar_at cb p" fo] assms v
    by (auto simp: sized_def count_of_def)
  have S: "S \<subseteq> {..<count_of cb}" "card S = k" using t(4) assms(3) by (simp_all add: selects_def)
  have "k * (2 * ?w) \<le> count_of cb * ?w" using assms(3) by simp
  also have "\<dots> \<le> cb_size cb" by (simp add: count_of_def)
  finally have size: "bt_size t \<le> cb_size cb" using t(2) by simp
  have "\<exists>cb'' d. Topk_Decompress server cb t = Inr (cb'', d) \<and> bt_size d = cb_size cb \<and>
      length (bt_data d) = length (if server then cb_buf cb else bt_data t) \<and>
      (\<forall>i < cb_size cb div ?w. elt ?w (bt_data d) i = Inr (if i \<in> S then scalar_at cb p i else 0))"
  proof (rule Topk_Decompress_carries [OF _ refl refl t(5)])
    show "i < cb_size cb div ?w \<and> scalar_at cb p i < 256 ^ ?w" if "i \<in> S" for i
      using that S(1) elt_less [OF v] by (auto simp: count_of_def)
  qed (use assms(1) t(3) size in \<open>auto simp: sized_def\<close>)
  then show ?thesis using t S by (fastforce simp: selects_def count_of_def)
qed

theorem topk_keeps_largest_witness:
  "\<exists>cb' t cb'' d. Topk_Compress (ops_of demo_cenv) 1 demo_cbase demo_grad = Inr (cb', t) \<and> bt_size t = 8 \<and>
    Topk_Decompress False demo_cbase t = Inr (cb'', d)"
proof -
  have c: "count_of demo_cbase = 4" "type_width (cb_dtype demo_cbase) = 4"
    by (simp_all add: count_of_def demo_cbase_def Compressor_def)
  show ?thesis
    using topk_keeps_largest [of demo_cbase demo_grad 1 "ops_of demo_cenv" False] demo_accepts c by fastforce
qed

text \<open>
  C34. One bit per scalar: for a tensor whose length is a multiple of the packing size (as
  \<open>Align\<close> makes it), the compressed tensor has an eighth of a byte for each scalar
  and four bytes more, and a peer gets, at every position, the common scale with the sign of the
  scalar.
\<close>

theorem onebit_roundtrip:
  assumes "sized cb p" and "0 < count_of cb" and "packing_size (type_width (cb_dtype cb)) dvd count_of cb"
  shows "\<exists>cb' t scale cb'' d. Onebit_Compress fo use_scale cb p = Inr (cb', t) \<and>
    bt_size t = count_of cb div 8 + 4 \<and>
    (if use_scale then mean_scale fo (cb_dtype cb) (type_width (cb_dtype cb)) (bt_data p) (count_of cb)
     else Inr float_one) = Inr scale \<and>
    Onebit_Decompress server fo cb t = Inr (cb'', d) \<and>
    (\<forall>i < count_of cb. elt (type_width (cb_dtype cb)) (bt_data d) i =
       Inr (of_float fo (cb_dtype cb) (signed_scale fo
         (if scalar_neg (ops_of fo) (cb_dtype cb) (scalar_at cb p i) then -1 else 1) scale)))"
proof -
  let ?dt = "cb_dtype cb"
  let ?w = "type_width ?dt" and ?P = "packing_size (type_width ?dt)"
  have ft: "float_type ?dt" using assms(1) by (simp add: sized_def)
  then have w: "2 \<le> ?w" by (auto simp: float_type_def)
  obtain c where c: "count_of cb = c * ?P" using assms(3) by (metis dvd_def mult.commute)
  then have c0: "0 < c" using assms(2) by (cases c) simp_all
  have cc: "chunk_count ?P (count_of cb) = c" using c w by (simp add: chunk_count_def packing_size_def)
  have bytes: "c * ?P * ?w \<le> cb_size cb" using c by (metis count_of_def div_times_less_eq_dividend)
  have "?w + 4 \<le> ?P * ?w" using ft by (auto simp: float_type_def packing_size_def)
  then have "c * (?w + 4) \<le> c * (?P * ?w)" by (rule mult_le_mono2)
  moreover have "c * ?w + 4 \<le> c * (?w + 4)" using c0 by (simp add: add_mult_distrib2)
  ultimately have "c * ?w + 4 \<le> c * (?P * ?w)" by linarith
  then have room: "c * ?w + 4 \<le> cb_size cb" using bytes by simp
  have v: "i < count_of cb \<Longrightarrow> elt ?w (bt_data p) i = Inr (scalar_at cb p i)" for i
    by (rule scalar_at_elt [OF assms(1)])
  obtain out scale where o: "Onebit_CompressImpl fo use_scale ?dt (cb_buf cb) (bt_data p) (count_of cb) = Inr (out, c * ?w + 4)"
    "length out = length (cb_buf cb)"
    "(if use_scale then mean_scale fo ?dt ?w (bt_data p) (count_of cb) else Inr float_one) = Inr scale"
    "onebit_data ?w c out (\<lambda>k. scalar_neg (ops_of fo) ?dt (scalar_at cb p k)) scale"
    using Onebit_CompressImpl_ok [of ?w ?dt c "count_of cb" "bt_data p" "cb_buf cb" "scalar_at cb p" fo use_scale]
      cc c bytes room v assms(1) by (auto simp: sized_def)
  let ?t = "\<lparr>bt_data = out, bt_size = c * ?w + 4, bt_dtype = 0\<rparr>"
  have "Onebit_Compress fo use_scale cb p = Inr (cb\<lparr>cb_buf := out\<rparr>, ?t)"
    using o(1) assms(1) by (simp add: Onebit_Compress_def sized_def count_of_def)
  moreover have "bt_size ?t = count_of cb div 8 + 4" using c by (simp add: packing_size_def)
  moreover have "\<exists>cb'' d. Onebit_Decompress server fo cb ?t = Inr (cb'', d) \<and> bt_size d = cb_size cb \<and>
      length (bt_data d) = length (if server then cb_buf cb else bt_data ?t) \<and>
      (\<forall>k < c * ?P. elt ?w (bt_data d) k = Inr (of_float fo ?dt (signed_scale fo
         (if scalar_neg (ops_of fo) ?dt (scalar_at cb p k) then -1 else 1) scale)))"
  proof (rule Onebit_Decompress_data [OF ft refl refl])
    show "onebit_data ?w c (bt_data ?t) (\<lambda>k. scalar_neg (ops_of fo) ?dt (scalar_at cb p k)) scale" using o(4) by simp
  qed (use o(2) room bytes assms(1) in \<open>auto simp: sized_def\<close>)
  ultimately show ?thesis using o(3) unfolding c by blast
qed

definition demo_signs :: bps_tensor where
  "demo_signs = \<lparr>bt_data = [0, 0, 0x40, 0xC0] @ replicate 124 0, bt_size = 128, bt_dtype = 0\<rparr>"

definition demo_onebit :: compressor_base where
  "demo_onebit = Compressor (\<lambda>_. 0) 128 BYTEPS_FLOAT32"

theorem onebit_roundtrip_witness:
  "\<exists>cb' t cb'' d. Onebit_Compress (dbl_ops demo_cenv) False demo_onebit demo_signs = Inr (cb', t) \<and> bt_size t = 8 \<and>
    Onebit_Decompress False (dbl_ops demo_cenv) demo_onebit t = Inr (cb'', d) \<and>
    elt 4 (bt_data d) 0 = Inr (of_float (dbl_ops demo_cenv) BYTEPS_FLOAT32 (signed_scale (dbl_ops demo_cenv) (-1) float_one))"
proof -
  have c: "count_of demo_onebit = 32" "cb_dtype demo_onebit = BYTEPS_FLOAT32"
    by (simp_all add: count_of_def demo_onebit_def Compressor_def)
  have s: "sized demo_onebit demo_signs"
    by (simp add: sized_def demo_onebit_def demo_signs_def Compressor_def float_type_def)
  have "scalar_at demo_onebit demo_signs 0 = 0xC0400000"
    by (simp add: scalar_at_def c demo_signs_def)
  then have "scalar_neg fo BYTEPS_FLOAT32 (scalar_at demo_onebit demo_signs 0)" for fo
    by (simp add: scalar_neg_def compared_as_def is_less_0_def is_nan_def magnitude_def infinity_bits_def)
  then show ?thesis
    using onebit_roundtrip [OF s, of "dbl_ops demo_cenv" False False] c by (fastforce simp: packing_size_def)
qed

lemma dithering_impl_roundtrip:
  fixes bl :: "u8 list \<Rightarrow> 'w::len word list"
  assumes "sized cb p" and bl: "bl = blocks_of (type_width (cb_dtype cb))"
    and w: "w = type_width (cb_dtype cb)" "LENGTH('w) = 8 * w" "LENGTH('w) \<le> 32"
    and sc: "(case dp_ntype dp of NORM_MAX \<Rightarrow> max_scale fo (cb_dtype cb) w (bt_data p) (count_of cb)
          | NORM_L2 \<Rightarrow> l2_scale fo (cb_dtype cb) w (bt_data p) (count_of cb)) = Inr sc"
    and es: "dither_entries fo dp (cb_dtype cb) w (bt_data p) sc [0..<count_of cb] st = Inr (es, st')"
    and bits: "bits = length (entry_bits (flog2_of fo) 0 es)" "bits < 256 ^ w" "round_f32 fo bits = bits"
    and room: "bits div 8 + 2 * w + 4 \<le> cb_size cb"
    and log: "log_fits (flog2_of fo) (count_of cb)" and s: "level_count dp = Inr s"
  shows "\<exists>out n cb'' d. Dithering_CompressImpl fo dp (cb_dtype cb) (bl (cb_buf cb)) (cb_buf cb) (bt_data p) (count_of cb) st =
      Inr (st', out, n) \<and>
    Dithering_DecompressImpl server fo dp (cb_dtype cb) cb \<lparr>bt_data = out, bt_size = n, bt_dtype = 0\<rparr> bl = Inr (cb'', d) \<and>
    (\<forall>i < count_of cb. elt w (bt_data d) i =
       Inr (case map_of es i of None \<Rightarrow> 0
            | Some (neg, q) \<Rightarrow> of_float (dops fo) (cb_dtype cb) (dither_value fo (f64_to_f32 fo sc) s neg q)))"
proof -
  let ?dt = "cb_dtype cb"
  let ?n = "(bits + 8 * w - 1) div (8 * w)"
  have ft: "float_type ?dt" using assms(1) by (simp add: sized_def)
  have eso: "entries_ok 0 es" "fst ` set es \<subseteq> {..<count_of cb}" using dither_entries_ok [OF es] by auto
  have len: "count_of cb < 2 ^ 64" using log by (simp add: log_fits_def)
  have "?n * w \<le> bits div 8 + w"
  proof -
    have "?n * (8 * w) \<le> bits + 8 * w - 1" by (rule div_times_less_eq_dividend)
    then have "?n * w * 8 \<le> bits + 8 * w - 1" by (simp add: algebra_simps)
    then show ?thesis by linarith
  qed
  then have fit: "(?n + 1) * w + 4 \<le> cb_size cb" using room by simp
  have "\<exists>out. Dithering_CompressImpl fo dp ?dt (blocks_of (type_width ?dt) (cb_buf cb) :: 'w word list) (cb_buf cb)
        (bt_data p) (count_of cb) st = Inr (st', out, ?n * w + w + 4) \<and>
      length out = length (cb_buf cb) \<and>
      dither_data (blocks_of (type_width ?dt) :: u8 list \<Rightarrow> 'w word list) w (flog2_of fo)
        \<lparr>bt_data = out, bt_size = ?n * w + w + 4, bt_dtype = 0\<rparr> es (f64_to_f32 fo sc)"
    by (rule Dithering_CompressImpl_data [OF w(1,2) sc es len bits refl]) (use fit assms(1) in \<open>simp add: sized_def\<close>)
  then obtain out where out: "Dithering_CompressImpl fo dp ?dt (bl (cb_buf cb)) (cb_buf cb) (bt_data p) (count_of cb) st =
      Inr (st', out, ?n * w + w + 4)" "length out = length (cb_buf cb)"
    "dither_data bl w (flog2_of fo) \<lparr>bt_data = out, bt_size = ?n * w + w + 4, bt_dtype = 0\<rparr> es (f64_to_f32 fo sc)"
    unfolding bl by blast
  let ?t = "\<lparr>bt_data = out, bt_size = ?n * w + w + 4, bt_dtype = 0\<rparr>"
  have "\<exists>cb'' d. Dithering_DecompressImpl server fo dp ?dt cb ?t bl = Inr (cb'', d) \<and> bt_size d = cb_size cb \<and>
      length (bt_data d) = length (if server then cb_buf cb else bt_data ?t) \<and>
      (\<forall>i < cb_size cb div w. elt w (bt_data d) i = Inr (case map_of es i of None \<Rightarrow> 0
         | Some (neg, q) \<Rightarrow> of_float (dops fo) ?dt (dither_value fo (f64_to_f32 fo sc) s neg q)))"
    by (rule Dithering_DecompressImpl_data [OF ft w(1,3) out(3) eso(1) _ _ s])
      (use eso(2) assms(1) log out(2) fit w(1) in \<open>auto simp: sized_def count_of_def\<close>)
  then show ?thesis using out(1) w(1) unfolding count_of_def by blast
qed

text \<open>
  C33. Dithering with a linear or natural partition, for halves and floats: a peer gets exactly
  the levels the compressor chose. Let \<open>es\<close> be the positions, signs and levels of the
  scalars that were not rounded to zero; if the buffer has room for their code, its length is a
  number the trailer and the \<open>float\<close> it goes through can hold, and the logarithm is
  exact, the peer's tensor is zero but at these positions, where it is the sign times the scale
  times the level over the number of levels.
\<close>

theorem dithering_roundtrip:
  assumes "sized cb p" and "cb_dtype cb \<noteq> BYTEPS_FLOAT64"
    and "(case dp_ntype dp of NORM_MAX \<Rightarrow> max_scale fo (cb_dtype cb) (type_width (cb_dtype cb)) (bt_data p) (count_of cb)
          | NORM_L2 \<Rightarrow> l2_scale fo (cb_dtype cb) (type_width (cb_dtype cb)) (bt_data p) (count_of cb)) = Inr sc"
    and "dither_entries fo dp (cb_dtype cb) (type_width (cb_dtype cb)) (bt_data p) sc [0..<count_of cb] st = Inr (es, st')"
    and "bits = length (entry_bits (flog2_of fo) 0 es)" and "bits < 256 ^ type_width (cb_dtype cb)"
    and "round_f32 fo bits = bits" and "bits div 8 + 2 * type_width (cb_dtype cb) + 4 \<le> cb_size cb"
    and "log_fits (flog2_of fo) (count_of cb)" and "level_count dp = Inr s"
  shows "\<exists>cb' t cb'' d. Dithering_Compress fo dp st cb p = Inr (st', cb', t) \<and>
    Dithering_Decompress server fo dp cb t = Inr (cb'', d) \<and>
    (\<forall>i < count_of cb. elt (type_width (cb_dtype cb)) (bt_data d) i =
       Inr (case map_of es i of None \<Rightarrow> 0
            | Some (neg, q) \<Rightarrow> of_float (dops fo) (cb_dtype cb) (dither_value fo (f64_to_f32 fo sc) s neg q)))"
proof -
  let ?dt = "cb_dtype cb"
  let ?w = "type_width ?dt"
  have "float_type ?dt" using assms(1) by (simp add: sized_def)
  then consider "?dt = BYTEPS_FLOAT16" | "?dt = BYTEPS_FLOAT32" using assms(2) by (auto simp: float_type_def)
  then show ?thesis
  proof cases
    case 1
    then obtain out n cb'' d where "Dithering_CompressImpl fo dp ?dt (blocks_of 2 (cb_buf cb) :: u16 list) (cb_buf cb)
        (bt_data p) (count_of cb) st = Inr (st', out, n)"
      "Dithering_DecompressImpl server fo dp ?dt cb \<lparr>bt_data = out, bt_size = n, bt_dtype = 0\<rparr>
        (blocks_of 2 :: u8 list \<Rightarrow> u16 list) = Inr (cb'', d)"
      "\<forall>i < count_of cb. elt ?w (bt_data d) i = Inr (case map_of es i of None \<Rightarrow> 0
         | Some (neg, q) \<Rightarrow> of_float (dops fo) ?dt (dither_value fo (f64_to_f32 fo sc) s neg q))"
      using dithering_impl_roundtrip [where 'w = 16, OF assms(1) refl refl _ _ assms(3-10), of server] by auto
    then show ?thesis
      using 1 assms(1)
      by (simp add: Dithering_Compress_def Dithering_Decompress_def sized_def count_of_def Let_def
        impl_switch_def data_type_of_def)
  next
    case 2
    then obtain out n cb'' d where "Dithering_CompressImpl fo dp ?dt (blocks_of 4 (cb_buf cb) :: u32 list) (cb_buf cb)
        (bt_data p) (count_of cb) st = Inr (st', out, n)"
      "Dithering_DecompressImpl server fo dp ?dt cb \<lparr>bt_data = out, bt_size = n, bt_dtype = 0\<rparr>
        (blocks_of 4 :: u8 list \<Rightarrow> u32 list) = Inr (cb'', d)"
      "\<forall>i < count_of cb. elt ?w (bt_data d) i = Inr (case map_of es i of None \<Rightarrow> 0
         | Some (neg, q) \<Rightarrow> of_float (dops fo) ?dt (dither_value fo (f64_to_f32 fo sc) s neg q))"
      using dithering_impl_roundtrip [where 'w = 32, OF assms(1) refl refl _ _ assms(3-10), of server] by auto
    then show ?thesis
      using 2 assms(1)
      by (simp add: Dithering_Compress_def Dithering_Decompress_def sized_def count_of_def Let_def
        impl_switch_def data_type_of_def)
  qed
qed


lemma ilog2_fits: "n + 1 < 2 ^ 64 \<Longrightarrow> log_fits ilog2 n"
  using ilog2_exact by (auto simp: log_fits_def exact_log2_def)

definition demo_levels :: bps_tensor where
  "demo_levels = \<lparr>bt_data = [5, 0, 0, 0x80] @ replicate 28 0, bt_size = 32, bt_dtype = 0\<rparr>"

definition demo_dither :: compressor_base where
  "demo_dither = Compressor (\<lambda>_. 0) 32 BYTEPS_FLOAT32"

definition demo_dparams :: dither_params where
  "demo_dparams = \<lparr>dp_s = 1, dp_ptype = LINEAR, dp_ntype = NORM_MAX\<rparr>"

lemmas demo_dops = demo_cenv_def dith_ops_def dops_def dither_ops.truncate_def double_ops.truncate_def ops_of_def
  float_ops.truncate_def

lemma demo_quantize:
  assumes "x < 2 ^ 32"
  shows "quantize (dith_ops demo_cenv) demo_dparams BYTEPS_FLOAT32 sc x st =
    Inr (of_nat (x mod 2 ^ 31), snd (xorshift128p st))"
proof -
  have small: "x mod 2 ^ 31 < 2 ^ 32" by (rule order.strict_trans [of _ "2 ^ 31"]) simp_all
  then have "uint (of_nat (x mod 2 ^ 31) :: u32) = int (x mod 2 ^ 31)" by (simp add: uint_nat unat_of_nat)
  moreover have "(ucast (ucast y :: u64) :: u32) = y" for y :: u32
    by (rule bit_word_eqI) (auto simp: bit_simps)
  ultimately show ?thesis
    using assms small
    by (simp add: quantize_def demo_dparams_def quantize_linear_def abs_float_def scalar_mag_def compared_as_def
        magnitude_def Bernoulli_def below_p_def demo_dops case_prod_beta)
qed

lemma demo_level_elts:
  "elt 4 (bt_data demo_levels) 0 = Inr 0x80000005" "0 < i \<Longrightarrow> i < 8 \<Longrightarrow> elt 4 (bt_data demo_levels) i = Inr 0"
proof -
  show "elt 4 (bt_data demo_levels) 0 = Inr 0x80000005" by (simp add: demo_levels_def elt_def)
  assume i: "0 < i" "i < 8"
  have "elt 4 ([5, 0, 0, 0x80] @ replicate 28 0) (1 + (i - 1)) = elt 4 (replicate 28 0) (i - 1)"
    by (rule elt_append) simp
  also have "\<dots> = Inr 0" using i by (intro elt_replicate_zero) simp
  finally show "elt 4 (bt_data demo_levels) i = Inr 0" using i by (simp add: demo_levels_def)
qed

lemma demo_dither_entries:
  "\<exists>st'. dither_entries (dith_ops demo_cenv) demo_dparams BYTEPS_FLOAT32 4 (bt_data demo_levels) sc [0..<8] st =
    Inr ([(0, True, 5)], st')"
proof -
  have rest: "\<exists>st'. dither_entries (dith_ops demo_cenv) demo_dparams BYTEPS_FLOAT32 4 (bt_data demo_levels) sc is st =
      Inr ([], st')" if "set is \<subseteq> {1..<8}" for "is" st
    using that
  proof (induction "is" arbitrary: st)
    case (Cons i "is")
    then obtain st' where "dither_entries (dith_ops demo_cenv) demo_dparams BYTEPS_FLOAT32 4 (bt_data demo_levels) sc is
        (snd (xorshift128p st)) = Inr ([], st')" by (metis insert_subset list.set(2))
    then show ?case using Cons.prems by (simp add: demo_level_elts demo_quantize)
  qed simp
  have "[0..<8] = 0 # [1..<8]" by (simp add: upt_rec)
  moreover obtain st' where "dither_entries (dith_ops demo_cenv) demo_dparams BYTEPS_FLOAT32 4 (bt_data demo_levels) sc
      [1..<8] (snd (xorshift128p st)) = Inr ([], st')" using rest [of "[1..<8]" "snd (xorshift128p st)"] by auto
  ultimately show ?thesis
    by (simp add: demo_level_elts demo_quantize sign_bit_def compared_as_def)
qed

theorem dithering_roundtrip_witness:
  "\<exists>st' cb' t cb'' d. Dithering_Compress (dith_ops demo_cenv) demo_dparams (1, 2) demo_dither demo_levels = Inr (st', cb', t) \<and>
    Dithering_Decompress False (dith_ops demo_cenv) demo_dparams demo_dither t = Inr (cb'', d) \<and>
    elt 4 (bt_data d) 1 = Inr 0"
proof -
  have b: "cb_dtype demo_dither = BYTEPS_FLOAT32" "count_of demo_dither = 8" "cb_size demo_dither = 32"
    by (simp_all add: count_of_def demo_dither_def Compressor_def)
  have s: "sized demo_dither demo_levels"
    by (simp add: sized_def demo_dither_def demo_levels_def Compressor_def float_type_def)
  have "\<exists>sc. foldl (\<lambda>r i. rbind r (\<lambda>scale. rbind (elt 4 (bt_data demo_levels) i) (\<lambda>x. Inr (f scale x)))) (Inr a) [0..<m] =
      Inr sc" if "m \<le> 8" for m f and a :: u64
    using that
  proof (induction m)
    case (Suc m)
    then show ?case using demo_level_elts(1) demo_level_elts(2) [of m] by (cases "m = 0") auto
  qed simp
  then obtain sc where sc: "max_scale (dith_ops demo_cenv) BYTEPS_FLOAT32 4 (bt_data demo_levels) 8 = Inr sc"
    unfolding max_scale_def Let_def by (meson order_refl)
  obtain st' where es: "dither_entries (dith_ops demo_cenv) demo_dparams BYTEPS_FLOAT32 4 (bt_data demo_levels) sc [0..<8] (1, 2) =
      Inr ([(0, True, 5)], st')" using demo_dither_entries by blast
  have ops: "flog2_of (dith_ops demo_cenv) = ilog2" "round_f32 (dith_ops demo_cenv) n = n" for n
    by (simp_all add: demo_dops)
  have bits: "length (entry_bits ilog2 0 [(0, True, 5)]) = 7"
    by (simp add: elias_bits_def ilog2.simps Let_def)
  show ?thesis
    using dithering_roundtrip [OF s, where dp = demo_dparams and fo = "dith_ops demo_cenv" and sc = sc and st = "(1, 2)"
        and es = "[(0, True, 5)]" and st' = st' and bits = 7 and s = 1 and server = False]
      sc es bits ops ilog2_fits [of 8] by (fastforce simp: b demo_dparams_def level_count_def)
qed

subsection \<open>What the registry creates\<close>

text \<open>
  C35. When \<open>Create\<close> gives a result, it is what the parameters name, in this order
  from the outside in: the momentum of \<open>momentum_type\<close>, which is ignored on a server,
  the error feedback of \<open>ef_type\<close>, the compressor of \<open>compressor_type\<close>,
  which must be named. Every object of the chain, decorators included, has the size and type asked
  for and a buffer of that size, and the memory of a decorator is cleared. The result is the null
  pointer exactly if none of the parameters that count is given.
\<close>

theorem created_chain:
  assumes "Create env kw n dtype = Inr r"
  shows "(r = None \<longleftrightarrow> (ce_server env \<or> kw ''momentum_type'' = None) \<and> kw ''ef_type'' = None \<and>
      kw ''compressor_type'' = None) \<and>
    (\<forall>c. r = Some c \<longrightarrow>
       chain c = (if ce_server env then [] else given kw ''momentum_type'') @ given kw ''ef_type'' @ given kw ''compressor_type'' \<and>
       kw ''compressor_type'' \<noteq> None \<and> made_with n dtype c)"
  using Create_chain [OF assms] by (cases r) (auto simp: requested_def given_def split: option.splits if_splits)

definition demo_kwargs :: "string \<rightharpoonup> string" where
  "demo_kwargs = [''compressor_type'' \<mapsto> ''onebit'', ''ef_type'' \<mapsto> ''vanilla'']"

lemma demo_create:
  "\<exists>c. Create demo_cenv demo_kwargs 128 BYTEPS_FLOAT32 = Inr (Some c)"
proof -
  have f: "first_type False demo_kwargs = Some (''ef_type'', ''vanilla'')"
    "first_type False (demo_kwargs(''ef_type'' := None)) = Some (''compressor_type'', ''onebit'')"
    by (simp_all add: first_type_def compressor_types_def demo_kwargs_def)
  have n: "Find ''vanilla_ef_type'' = Inr VanillaEF_ctor" "Find ''onebit_compressor_type'' = Inr Onebit_ctor"
    by (simp_all add: Find_def ctor_map_def)
  have e: "ce_server demo_cenv = False" "ce_lr demo_cenv = Some 1" by (simp_all add: demo_cenv_def)
  have k: "demo_kwargs ''compressor_onebit_scaling'' = None" by (simp add: demo_kwargs_def)
  have "\<exists>c. Create demo_cenv (demo_kwargs(''ef_type'' := None)) 128 BYTEPS_FLOAT32 = Inr (Some c)"
    by (subst Create.simps) (simp add: f n e k onebit_ctor_def HyperParamFinder_def)
  then show ?thesis by (subst Create.simps) (auto simp: f n e vanilla_ef_ctor_def)
qed

theorem created_chain_witness:
  "\<exists>c. Create demo_cenv demo_kwargs 128 BYTEPS_FLOAT32 = Inr (Some c) \<and> chain c = [''vanilla'', ''onebit'']"
proof -
  obtain c where c: "Create demo_cenv demo_kwargs 128 BYTEPS_FLOAT32 = Inr (Some c)" using demo_create by blast
  show ?thesis using created_chain [OF c] c by (simp add: given_def demo_kwargs_def demo_cenv_def)
qed

end
