(* ===== verification/Engine_Queue.thy ===== *)
theory Engine_Queue
  imports Std_Algorithms Common_Types
begin

section \<open>The message queues of the server's engine\<close>

text \<open>
  Models \<open>deep_inc/server/msg.h\<close> and \<open>queue.h\<close>. A message names the memory it copies or sums from
  and to; memory is named, not copied, because the server shares it between the engine, the handler
  and the responses. A queue is first in, first out, or, with scheduling, a heap ordered by how
  often a key was pushed. The mutex makes each operation atomic; waiting on an empty queue is no
  step.
\<close>

subsection \<open>Messages\<close>

text \<open>
  The memory a pointer may point to: the page-aligned buffer of a key in the store, the buffer of
  the compressor of a key, or the memory of a received request, which nothing else writes to.
\<close>

datatype mem_ptr = NullPtr | StoreMem u64 | CompressorMem u64 | RecvMem "u8 list"

record sarray =
  sa_data :: mem_ptr
  sa_size :: nat

record kv_pairs =
  kp_keys :: "u64 list"
  kp_vals :: sarray
  kp_lens :: "int list"

definition empty_kvs :: kv_pairs where
  "empty_kvs = \<lparr>kp_keys = [], kp_vals = \<lparr>sa_data = NullPtr, sa_size = 0\<rparr>, kp_lens = []\<rparr>"

text \<open>What the server reads of a request's \<open>KVMeta\<close>; the rest only identifies the request.\<close>

record kv_meta =
  km_cmd :: int
  km_push :: bool
  km_sender :: int
  km_id :: nat

datatype engine_op = SUM_RECV | COPY_FIRST | ALL_RECV | TERMINATE

record data_handle_type =
  requestType :: int
  dht_dtype :: int

record engine_msg =
  em_id :: u64
  em_type :: data_handle_type
  em_key :: u64
  em_dst :: mem_ptr
  em_src :: mem_ptr
  em_len :: nat
  em_ops :: engine_op
  em_sarray :: kv_pairs
  em_req_meta :: kv_meta

record bps_array =
  ba_tensor :: mem_ptr
  ba_len :: nat
  ba_dtype :: int
  ba_tmp :: kv_pairs

subsection \<open>The queue\<close>

record engine_queue =
  pq_queue :: "engine_msg list"
  pq_push_cnt :: "u64 \<rightharpoonup> u64"
  pq_schedule :: bool

definition PriorityQueue :: "bool \<Rightarrow> engine_queue" where
  "PriorityQueue is_schedule = \<lparr>pq_queue = [], pq_push_cnt = Map.empty, pq_schedule = is_schedule\<rparr>"

definition ComparePriority :: "(u64 \<rightharpoonup> u64) \<Rightarrow> engine_msg \<Rightarrow> engine_msg \<Rightarrow> bool" where
  "ComparePriority cnt a b =
     (if map_at 0 cnt (em_key a) = map_at 0 cnt (em_key b) then em_id a > em_id b
      else map_at 0 cnt (em_key a) > map_at 0 cnt (em_key b))"

text \<open>The counter is raised before the comparisons of \<open>push_heap\<close>, which read it.\<close>

definition Push :: "engine_msg \<Rightarrow> engine_queue \<Rightarrow> engine_queue" where
  "Push m q =
     (if pq_schedule q
      then (let cnt = (pq_push_cnt q)(em_key m \<mapsto> map_at 0 (pq_push_cnt q) (em_key m) + 1)
            in q\<lparr>pq_push_cnt := cnt, pq_queue := push_heap (ComparePriority cnt) (pq_queue q @ [m])\<rparr>)
      else q\<lparr>pq_queue := pq_queue q @ [m]\<rparr>)"

definition WaitAndPop :: "engine_queue \<Rightarrow> (engine_msg \<times> engine_queue) option" where
  "WaitAndPop q =
     (if pq_queue q = [] then None
      else if pq_schedule q
      then (let h = pop_heap (ComparePriority (pq_push_cnt q)) (pq_queue q)
            in Some (last h, q\<lparr>pq_queue := butlast h\<rparr>))
      else Some (hd (pq_queue q), q\<lparr>pq_queue := tl (pq_queue q)\<rparr>))"

definition ClearCounter :: "u64 \<Rightarrow> engine_queue \<Rightarrow> engine_queue" where
  "ClearCounter key q = (if pq_schedule q then q\<lparr>pq_push_cnt := (pq_push_cnt q)(key \<mapsto> 0)\<rparr> else q)"

subsection \<open>First in, first out\<close>

text \<open>
  What the engine needs of a queue: messages come out in the order they went in, so the messages
  of one key are a queue of their own.
\<close>

locale message_queue =
  fixes push :: "'m \<Rightarrow> 'q \<Rightarrow> 'q"
    and pop :: "'q \<Rightarrow> ('m \<times> 'q) option"
    and items :: "'q \<Rightarrow> 'm list"
    and ok :: "'q \<Rightarrow> bool"
  assumes push_ok: "ok q \<Longrightarrow> ok (push m q)"
    and push_items: "ok q \<Longrightarrow> items (push m q) = items q @ [m]"
    and pop_none: "ok q \<Longrightarrow> pop q = None \<longleftrightarrow> items q = []"
    and pop_ok: "ok q \<Longrightarrow> pop q = Some (m, q') \<Longrightarrow> ok q'"
    and pop_items: "ok q \<Longrightarrow> pop q = Some (m, q') \<Longrightarrow> items q = m # items q'"
begin

definition pending :: "('m \<Rightarrow> bool) \<Rightarrow> 'q \<Rightarrow> 'm list" where
  "pending P q = filter P (items q)"

lemma pending_push: "ok q \<Longrightarrow> pending P (push m q) = pending P q @ (if P m then [m] else [])"
  by (simp add: pending_def push_items)

lemma pending_pop:
  "ok q \<Longrightarrow> pop q = Some (m, q') \<Longrightarrow> pending P q = (if P m then [m] else []) @ pending P q'"
  by (simp add: pending_def pop_items)

lemma pending_pop_other: "ok q \<Longrightarrow> pop q = Some (m, q') \<Longrightarrow> \<not> P m \<Longrightarrow> pending P q' = pending P q"
  by (simp add: pending_pop)

fun drain :: "nat \<Rightarrow> 'q \<Rightarrow> 'm list \<times> 'q" where
  "drain 0 q = ([], q)"
| "drain (Suc n) q =
     (case pop q of None \<Rightarrow> ([], q) | Some (m, q') \<Rightarrow> (case drain n q' of (ms, q'') \<Rightarrow> (m # ms, q'')))"

lemma drain_items:
  "ok q \<Longrightarrow> drain n q = (ms, q') \<Longrightarrow> ok q' \<and> ms = take n (items q) \<and> items q' = drop n (items q)"
proof (induction n arbitrary: q ms q')
  case (Suc n)
  show ?case
  proof (cases "pop q")
    case None
    then show ?thesis using Suc.prems pop_none [OF Suc.prems(1)] by simp
  next
    case (Some mq)
    obtain m q1 where m: "mq = (m, q1)" by (cases mq)
    obtain ms1 q2 where d: "drain n q1 = (ms1, q2)" by (cases "drain n q1")
    have i: "items q = m # items q1" and o: "ok q1"
      using Suc.prems(1) Some m pop_items pop_ok by blast+
    show ?thesis using Suc.IH [OF o d] Suc.prems(2) Some m d i by simp
  qed
qed simp

end

definition unscheduled :: "engine_queue \<Rightarrow> bool" where
  "unscheduled q \<longleftrightarrow> \<not> pq_schedule q"

interpretation eq: message_queue Push WaitAndPop pq_queue unscheduled
  by unfold_locales
    (auto simp: Push_def WaitAndPop_def unscheduled_def split: if_splits)

lemma unscheduled_new [simp]: "unscheduled (PriorityQueue False)" "pq_queue (PriorityQueue b) = []"
  by (simp_all add: unscheduled_def PriorityQueue_def)

lemma ClearCounter_unscheduled [simp]: "unscheduled q \<Longrightarrow> ClearCounter k q = q"
  by (simp add: ClearCounter_def unscheduled_def)

subsection \<open>With scheduling\<close>

text \<open>For fixed counters the comparison is the order a heap needs.\<close>

interpretation prio: strict_weak_order "ComparePriority cnt"
  by unfold_locales (auto simp: ComparePriority_def split: if_splits)

text \<open>
  The queue's range is a heap for the counters it has now. Then a message with the smallest counter
  and, among those, the smallest number comes out, and the rest is a heap again.
\<close>

definition in_heap_order :: "engine_queue \<Rightarrow> bool" where
  "in_heap_order q \<longleftrightarrow> is_heap (ComparePriority (pq_push_cnt q)) (pq_queue q)"

text \<open>
  With scheduling, while the queue is a heap for its counters, the engine gets a message of a
  key with the fewest pushes, and of the earliest among the messages of such keys; the other
  messages stay, in a heap.
\<close>

theorem scheduled_pop_least:
  assumes "pq_schedule q" and "in_heap_order q" and "WaitAndPop q = Some (m, q')"
  shows "(\<forall>x \<in> set (pq_queue q).
      map_at 0 (pq_push_cnt q) (em_key m) < map_at 0 (pq_push_cnt q) (em_key x) \<or>
      map_at 0 (pq_push_cnt q) (em_key m) = map_at 0 (pq_push_cnt q) (em_key x) \<and> em_id m \<le> em_id x) \<and>
    mset (pq_queue q) = add_mset m (mset (pq_queue q')) \<and> in_heap_order q'"
proof -
  let ?lt = "ComparePriority (pq_push_cnt q)" and ?h = "pop_heap (ComparePriority (pq_push_cnt q)) (pq_queue q)"
  have ne: "pq_queue q \<noteq> []" and m: "m = last ?h" and q': "q' = q\<lparr>pq_queue := butlast ?h\<rparr>"
    using assms(1,3) by (auto simp: WaitAndPop_def Let_def split: if_splits)
  have h: "is_heap ?lt (pq_queue q)" using assms(2) by (simp add: in_heap_order_def)
  have "\<not> ?lt m x" if "x \<in> set (pq_queue q)" for x
    using prio.hp.pop_max [OF h ne that] m by simp
  then have "\<forall>x \<in> set (pq_queue q). map_at 0 (pq_push_cnt q) (em_key m) < map_at 0 (pq_push_cnt q) (em_key x) \<or>
      map_at 0 (pq_push_cnt q) (em_key m) = map_at 0 (pq_push_cnt q) (em_key x) \<and> em_id m \<le> em_id x"
    by (fastforce simp: ComparePriority_def split: if_splits)
  moreover have "mset (pq_queue q) = add_mset m (mset (pq_queue q'))"
    using prio.hp.pop_split [OF ne] m q' by simp
  moreover have "in_heap_order q'"
    using prio.hp.pop_keeps [OF h ne] q' by (simp add: in_heap_order_def)
  ultimately show ?thesis by blast
qed

definition demo_msg :: "u64 \<Rightarrow> u64 \<Rightarrow> engine_op \<Rightarrow> engine_msg" where
  "demo_msg i k p = \<lparr>em_id = i, em_type = \<lparr>requestType = 0, dht_dtype = 0\<rparr>, em_key = k, em_dst = StoreMem k,
     em_src = RecvMem [], em_len = 0, em_ops = p, em_sarray = empty_kvs,
     em_req_meta = \<lparr>km_cmd = 0, km_push = True, km_sender = 9, km_id = 0\<rparr>\<rparr>"

definition two_pushes :: "engine_msg list" where
  "two_pushes = [demo_msg 4 7 COPY_FIRST, demo_msg 3 8 SUM_RECV]"

theorem scheduled_pop_least_witness:
  "\<exists>m q'. WaitAndPop (fold Push two_pushes (PriorityQueue True)) = Some (m, q') \<and> in_heap_order q' \<and>
     m = two_pushes ! 1"
proof -
  have q: "fold Push two_pushes (PriorityQueue True) =
      \<lparr>pq_queue = [two_pushes ! 1, two_pushes ! 0], pq_push_cnt = [7 \<mapsto> 1, 8 \<mapsto> 1], pq_schedule = True\<rparr>"
    by (simp add: two_pushes_def PriorityQueue_def Push_def push_heap_def sift_up.simps swap_def
      ComparePriority_def demo_msg_def Let_def)
  have o: "in_heap_order (fold Push two_pushes (PriorityQueue True))"
    unfolding q by (simp add: in_heap_order_def is_heap_def ComparePriority_def two_pushes_def demo_msg_def)
  obtain q' where p: "WaitAndPop (fold Push two_pushes (PriorityQueue True)) = Some (two_pushes ! 1, q')"
    unfolding q by (simp add: WaitAndPop_def pop_heap_def sift_down.simps Let_def)
  have "pq_schedule (fold Push two_pushes (PriorityQueue True))" by (simp add: q)
  from scheduled_pop_least [OF this o p] p show ?thesis by blast
qed

text \<open>Any sequence of operations on a queue; taking from an empty queue waits and is no step.\<close>

datatype queue_op = QPush engine_msg | QPop | QClear u64

fun pqueue_run :: "queue_op list \<Rightarrow> engine_queue \<Rightarrow> engine_msg list \<times> engine_queue" where
  "pqueue_run [] q = ([], q)"
| "pqueue_run (QPush m # os) q = pqueue_run os (Push m q)"
| "pqueue_run (QClear k # os) q = pqueue_run os (ClearCounter k q)"
| "pqueue_run (QPop # os) q =
     (case WaitAndPop q of
        None \<Rightarrow> pqueue_run os q
      | Some (m, q') \<Rightarrow> (case pqueue_run os q' of (ms, q'') \<Rightarrow> (m # ms, q'')))"

fun pushed_msgs :: "queue_op list \<Rightarrow> engine_msg list" where
  "pushed_msgs [] = []"
| "pushed_msgs (QPush m # os) = m # pushed_msgs os"
| "pushed_msgs (_ # os) = pushed_msgs os"

text \<open>
  C28. Without scheduling an engine queue is first in, first out: over any sequence of pushes,
  pops and resets of counters, the messages taken out are those that went in, each once and in
  their order, and the rest is in the queue.
\<close>

theorem unscheduled_fifo:
  assumes "\<not> pq_schedule q" and "pqueue_run os q = (ms, q')"
  shows "pq_queue q @ pushed_msgs os = ms @ pq_queue q' \<and> \<not> pq_schedule q'"
  using assms
proof (induction os q arbitrary: ms rule: pqueue_run.induct)
  case (2 m os q)
  then have u: "unscheduled q" by (simp add: unscheduled_def)
  from eq.push_ok [OF u, of m] have "\<not> pq_schedule (Push m q)" by (simp add: unscheduled_def)
  with "2.IH" "2.prems" show ?case using eq.push_items [OF u] by simp
next
  case (3 k os q)
  then have "ClearCounter k q = q" by (simp add: unscheduled_def)
  with 3 show ?case by simp
next
  case (4 os q)
  then have u: "unscheduled q" by (simp add: unscheduled_def)
  show ?case
  proof (cases "WaitAndPop q")
    case None
    with 4 show ?thesis by simp
  next
    case (Some mq)
    obtain m q1 where m: "mq = (m, q1)" by (cases mq)
    obtain ms1 q2 where r: "pqueue_run os q1 = (ms1, q2)" by (cases "pqueue_run os q1")
    have "pq_queue q = m # pq_queue q1" "\<not> pq_schedule q1"
      using eq.pop_items [OF u Some [unfolded m]] eq.pop_ok [OF u Some [unfolded m]] by (simp_all add: unscheduled_def)
    then show ?thesis using "4.IH"(2) [OF Some [unfolded m] refl, of ms1] "4.prems"(2) Some m r by simp
  qed
qed simp

theorem unscheduled_fifo_witness:
  "fst (pqueue_run [QPop, QPush (demo_msg 1 7 COPY_FIRST), QPush (demo_msg 2 8 SUM_RECV), QPop] (PriorityQueue False)) =
     [demo_msg 1 7 COPY_FIRST]"
proof -
  let ?os = "[QPop, QPush (demo_msg 1 7 COPY_FIRST), QPush (demo_msg 2 8 SUM_RECV), QPop]"
  obtain ms q' where r: "pqueue_run ?os (PriorityQueue False) = (ms, q')" by (cases "pqueue_run ?os (PriorityQueue False)")
  have "length ms = 1" using arg_cong [OF r, of "\<lambda>x. length (fst x)"] by (simp add: PriorityQueue_def WaitAndPop_def Push_def)
  moreover have "pq_queue (PriorityQueue False) @ pushed_msgs ?os = ms @ pq_queue q' \<and> \<not> pq_schedule q'"
    by (rule unscheduled_fifo [OF _ r]) (simp add: PriorityQueue_def)
  ultimately show ?thesis using r by (cases ms) (auto simp: PriorityQueue_def)
qed

text \<open>Three messages of a key and then three of another, to an engine thread that is busy meanwhile.\<close>

lemma six_ids:
  assumes "em_id a0 < em_id a1" "em_id a1 < em_id a2" "em_id a2 < em_id b0" "em_id b0 < em_id b1" "em_id b1 < em_id b2"
  shows
    "em_id a0 < em_id a1" "em_id a0 < em_id a2" "em_id a0 < em_id b0" "em_id a0 < em_id b1" "em_id a0 < em_id b2"
    "em_id a1 < em_id a2" "em_id a1 < em_id b0" "em_id a1 < em_id b1" "em_id a1 < em_id b2" "em_id a2 < em_id b0"
    "em_id a2 < em_id b1" "em_id a2 < em_id b2" "em_id b0 < em_id b1" "em_id b0 < em_id b2" "em_id b1 < em_id b2"
    "\<not> em_id a1 < em_id a0" "\<not> em_id a2 < em_id a0" "\<not> em_id b0 < em_id a0"
    "\<not> em_id b1 < em_id a0" "\<not> em_id b2 < em_id a0" "\<not> em_id a2 < em_id a1"
    "\<not> em_id b0 < em_id a1" "\<not> em_id b1 < em_id a1" "\<not> em_id b2 < em_id a1"
    "\<not> em_id b0 < em_id a2" "\<not> em_id b1 < em_id a2" "\<not> em_id b2 < em_id a2"
    "\<not> em_id b1 < em_id b0" "\<not> em_id b2 < em_id b0" "\<not> em_id b2 < em_id b1"
  using assms by simp_all

lemma six_pushes_queue:
  assumes "em_key a0 = k" "em_key a1 = k" "em_key a2 = k" "em_key b0 = k'" "em_key b1 = k'" "em_key b2 = k'" "k \<noteq> k'"
    and "em_id a0 < em_id a1" "em_id a1 < em_id a2" "em_id a2 < em_id b0" "em_id b0 < em_id b1" "em_id b1 < em_id b2"
  shows "fold Push [a0, a1, a2, b0, b1, b2] (PriorityQueue True) =
     \<lparr>pq_queue = [b0, b1, a2, a1, a0, b2], pq_push_cnt = [k \<mapsto> 3, k' \<mapsto> 3], pq_schedule = True\<rparr>"
  using six_ids [OF assms(8-12)] assms(1-7)
  by (simp add: PriorityQueue_def Push_def push_heap_def sift_up.simps swap_def ComparePriority_def Let_def)



end
