(* ===== verification/Server.thy ===== *)
theory Server
  imports Engine_Queue Key_Hash Compressors
begin

section \<open>The server\<close>

text \<open>
  Models \<open>deep_inc/server/server.cc\<close> and the state of \<open>server.h\<close>: the request handler, the turns of
  the engine threads, start and end. The handler runs under \<open>handle_mu_\<close>; a turn of an engine
  thread processes one message, and is a step of its own: what it shares with the handler is
  guarded by \<open>flag_mu_\<close> and \<open>pullresp_mu_\<close>, or is only touched through the queue. Logging is left
  out, the checks made for it are not. The parameter-server library (\<open>ps\<close>) is outside: the number
  of workers, the key ranges and the own rank come from the environment, and what is handed to it
  is recorded, with the bytes the response's memory has at that moment.
\<close>

subsection \<open>State\<close>

record update_buf =
  ub_request :: "kv_meta list"
  ub_merged :: bps_array

definition null_array :: bps_array where
  "null_array = \<lparr>ba_tensor = NullPtr, ba_len = 0, ba_dtype = 0, ba_tmp = empty_kvs\<rparr>"

definition empty_update :: update_buf where
  "empty_update = \<lparr>ub_request = [], ub_merged = null_array\<rparr>"

record response =
  rp_meta :: kv_meta
  rp_keys :: "u64 list"
  rp_lens :: "int list"
  rp_data :: "u8 list"

text \<open>
  The vectors \<open>flag_mu_\<close>, \<open>is_push_finished_\<close>, \<open>q_pull_reqmeta_\<close>, \<open>seen_sender_\<close> and \<open>pull_cnt_\<close> are
  all indexed with the number of an engine thread, the mutex first; the model keeps them as one
  vector of records, as long as the vector of mutexes.
\<close>

record thread_flags =
  is_push_finished :: "u64 \<rightharpoonup> bool"
  q_pull_reqmeta :: "u64 \<rightharpoonup> kv_meta list"
  seen_sender :: "u64 \<rightharpoonup> int set"
  pull_cnt :: "u64 \<rightharpoonup> nat"

definition no_flags :: thread_flags where
  "no_flags = \<lparr>is_push_finished = Map.empty, q_pull_reqmeta = Map.empty, seen_sender = Map.empty,
     pull_cnt = Map.empty\<rparr>"

record server_state =
  sv_timestamp :: u64
  sv_threads :: nat
  sv_blocking :: bool
  sv_log :: bool
  sv_sync :: bool
  sv_schedule :: bool
  sv_is_server :: bool
  sv_preferred_rank :: int
  sv_push_response :: "u64 \<rightharpoonup> kv_pairs"
  sv_pull_response :: "u64 \<rightharpoonup> kv_pairs"
  sv_compressors :: "u64 \<rightharpoonup> compressor"
  sv_hash_cache :: "u64 \<rightharpoonup> nat"
  sv_acc_load :: "u64 list"
  sv_update :: "u64 \<rightharpoonup> update_buf"
  sv_store :: "u64 \<rightharpoonup> bps_array"
  sv_mem :: "u64 \<rightharpoonup> u8 list"
  sv_flags :: "thread_flags list"
  sv_queues :: "engine_queue list"
  sv_sent :: "response list"

text \<open>
  The environment: the compressors' (with the build and the float operations), the number of
  workers, the key ranges and the own rank, and the page size.
\<close>

record server_env =
  se_cenv :: compress_env
  se_workers :: nat
  se_ranges :: "(u64 \<times> u64) list"
  se_rank :: nat
  se_page :: int

text \<open>
  \<open>update_buf_[key]\<close> and \<open>store_[key]\<close> create a value-initialised element; no code asks whether a
  key is there, so the maps of the model only hold what was assigned.
\<close>

definition GetUpdateBuf :: "u64 \<Rightarrow> server_state \<Rightarrow> update_buf" where
  "GetUpdateBuf key st = map_at empty_update (sv_update st) key"

definition set_update :: "u64 \<Rightarrow> update_buf \<Rightarrow> server_state \<Rightarrow> server_state" where
  "set_update key u st = st\<lparr>sv_update := (sv_update st)(key \<mapsto> u)\<rparr>"

definition GetStore :: "u64 \<Rightarrow> server_state \<Rightarrow> bps_array" where
  "GetStore key st = map_at null_array (sv_store st) key"

subsection \<open>Memory\<close>

text \<open>The buffer a chain of compressors returns its results in is the innermost one's.\<close>

fun result_buffer :: "compressor \<Rightarrow> u8 list" where
  "result_buffer (VanillaErrorFeedback cb e lr c) = result_buffer c"
| "result_buffer (NesterovMomentum cb m mu c) = result_buffer c"
| "result_buffer c = cb_buf (base_of c)"

fun set_result_buffer :: "u8 list \<Rightarrow> compressor \<Rightarrow> compressor" where
  "set_result_buffer b (VanillaErrorFeedback cb e lr c) = VanillaErrorFeedback cb e lr (set_result_buffer b c)"
| "set_result_buffer b (NesterovMomentum cb m mu c) = NesterovMomentum cb m mu (set_result_buffer b c)"
| "set_result_buffer b (OnebitCompressor cb sc) = OnebitCompressor (cb\<lparr>cb_buf := b\<rparr>) sc"
| "set_result_buffer b (TopkCompressor cb k) = TopkCompressor (cb\<lparr>cb_buf := b\<rparr>) k"
| "set_result_buffer b (RandomkCompressor cb k r) = RandomkCompressor (cb\<lparr>cb_buf := b\<rparr>) k r"
| "set_result_buffer b (DitheringCompressor cb dp r) = DitheringCompressor (cb\<lparr>cb_buf := b\<rparr>) dp r"

fun deref :: "server_state \<Rightarrow> mem_ptr \<Rightarrow> u8 list res" where
  "deref st NullPtr = Inl (Undefined ''null pointer'')"
| "deref st (StoreMem k) = (case sv_mem st k of None \<Rightarrow> Inl (Undefined ''dangling pointer'') | Some m \<Rightarrow> Inr m)"
| "deref st (CompressorMem k) =
     (case sv_compressors st k of None \<Rightarrow> Inl (Undefined ''dangling pointer'') | Some c \<Rightarrow> Inr (result_buffer c))"
| "deref st (RecvMem b) = Inr b"

fun write_mem :: "mem_ptr \<Rightarrow> u8 list \<Rightarrow> server_state \<Rightarrow> server_state res" where
  "write_mem NullPtr b st = Inl (Undefined ''null pointer'')"
| "write_mem (StoreMem k) b st = Inr (st\<lparr>sv_mem := (sv_mem st)(k \<mapsto> b)\<rparr>)"
| "write_mem (CompressorMem k) b st =
     (case sv_compressors st k of
        None \<Rightarrow> Inl (Undefined ''dangling pointer'')
      | Some c \<Rightarrow> Inr (st\<lparr>sv_compressors := (sv_compressors st)(k \<mapsto> set_result_buffer b c)\<rparr>))"
| "write_mem (RecvMem r) b st = Inr st"

definition sarray_bytes :: "server_state \<Rightarrow> sarray \<Rightarrow> u8 list res" where
  "sarray_bytes st a =
     (if sa_size a = 0 then Inr [] else rbind (deref st (sa_data a)) (\<lambda>m. get_at m 0 (sa_size a)))"

text \<open>\<open>copy\<close> and \<open>sum\<close> of the reducer between two places.\<close>

definition copy_mem :: "mem_ptr \<Rightarrow> mem_ptr \<Rightarrow> nat \<Rightarrow> server_state \<Rightarrow> server_state res" where
  "copy_mem dst src len st =
     rbind (deref st dst) (\<lambda>d. rbind (deref st src) (\<lambda>s. rbind (cpu_copy d s len) (\<lambda>d'. write_mem dst d' st)))"

definition sum_mem :: "server_env \<Rightarrow> mem_ptr \<Rightarrow> mem_ptr \<Rightarrow> nat \<Rightarrow> int \<Rightarrow> server_state \<Rightarrow> server_state res" where
  "sum_mem env dst src len dtype st =
     rbind (deref st dst) (\<lambda>d. rbind (deref st src) (\<lambda>s.
     rbind (reduce_switch dtype (\<lambda>dt. sum_into (ce_build (se_cenv env)) (ops_of (se_cenv env)) d s len dt)) (\<lambda>d'.
       write_mem dst d' st)))"

text \<open>
  \<open>DivUp\<close> and \<open>RoundUp\<close> on \<open>int\<close>, to which \<open>PageAlignedMalloc\<close> passes a size and the page size; a
  negative rounded size is a huge request that fails.
\<close>

definition to_i32 :: "nat \<Rightarrow> int" where
  "to_i32 n = sint (of_nat n :: u32)"

definition DivUp :: "int \<Rightarrow> int \<Rightarrow> int res" where
  "DivUp x y =
     rbind (i32 (x + y)) (\<lambda>s. rbind (i32 (s - 1)) (\<lambda>n.
       check (y \<noteq> 0) (Undefined ''division by zero'') (Inr (sgn n * sgn y * (\<bar>n\<bar> div \<bar>y\<bar>)))))"

definition server_RoundUp :: "int \<Rightarrow> int \<Rightarrow> int res" where
  "server_RoundUp x y = rbind (DivUp x y) (\<lambda>d. i32 (d * y))"

definition PageAlignedMalloc :: "server_env \<Rightarrow> nat \<Rightarrow> u8 list res" where
  "PageAlignedMalloc env n =
     rbind (server_RoundUp (to_i32 n) (se_page env)) (\<lambda>size_aligned.
       check (0 \<le> size_aligned) (CheckFailed ''posix_memalign error'')
         (memset_zero (map (ce_fresh (se_cenv env)) [0..<nat size_aligned]) n))"

subsection \<open>Responses\<close>

definition Response :: "kv_meta \<Rightarrow> kv_pairs \<Rightarrow> server_state \<Rightarrow> server_state res" where
  "Response req kvs st =
     rbind (sarray_bytes st (kp_vals kvs)) (\<lambda>bs.
       Inr (st\<lparr>sv_sent := sv_sent st @ [\<lparr>rp_meta = req, rp_keys = kp_keys kvs, rp_lens = kp_lens kvs, rp_data = bs\<rparr>]\<rparr>))"

definition SendPushResponse :: "u64 \<Rightarrow> kv_meta \<Rightarrow> server_state \<Rightarrow> server_state res" where
  "SendPushResponse key req st =
     (case sv_push_response st key of
        None \<Rightarrow> Response req empty_kvs (st\<lparr>sv_push_response := (sv_push_response st)(key \<mapsto> empty_kvs)\<rparr>)
      | Some r \<Rightarrow> Response req r st)"

definition SendPullResponse :: "server_env \<Rightarrow> u64 \<Rightarrow> kv_meta \<Rightarrow> server_state \<Rightarrow> server_state res" where
  "SendPullResponse env key req st =
     (let merged = ub_merged (GetUpdateBuf key st); len = ba_len merged
      in check (ba_tensor merged \<noteq> NullPtr) (CheckFailed ''init key first'')
           (rbind (case sv_pull_response st key of
                     None \<Rightarrow> rbind (EncodeKey (se_ranges env) (se_rank env) key) (\<lambda>k. Inr (empty_kvs\<lparr>kp_keys := [k]\<rparr>))
                   | Some r \<Rightarrow> Inr r) (\<lambda>r.
              let r' = r\<lparr>kp_lens := [to_i32 len], kp_vals := \<lparr>sa_data = ba_tensor merged, sa_size = len\<rparr>\<rparr>
              in Response req r' (st\<lparr>sv_pull_response := (sv_pull_response st)(key \<mapsto> r')\<rparr>))))"

fun respond_all :: "u64 \<Rightarrow> kv_meta list \<Rightarrow> server_state \<Rightarrow> server_state res" where
  "respond_all key [] st = Inr st"
| "respond_all key (r # rs) st = rbind (SendPushResponse key r st) (respond_all key rs)"

subsection \<open>The thread of a key\<close>

text \<open>The least loaded thread, the first of several; a pull has no length and needs the cache.\<close>

definition least_loaded :: "u64 list \<Rightarrow> nat \<Rightarrow> int \<times> u64" where
  "least_loaded loads n =
     foldl (\<lambda>(mi, ml) i. if loads ! i < ml then (int i, loads ! i) else (mi, ml)) (-1, -1) [0..<n]"

definition GetThreadID :: "u64 \<Rightarrow> nat \<Rightarrow> server_state \<Rightarrow> (nat \<times> server_state) res" where
  "GetThreadID key len st =
     (case sv_hash_cache st key of
        Some t \<Rightarrow> Inr (t, st)
      | None \<Rightarrow>
          check (0 < len) (CheckFailed ''hash_cache_.find(key) != hash_cache_.end()'')
            (check (length (sv_acc_load st) = sv_threads st) (CheckFailed ''acc_load_.size()'')
              (let mi = fst (least_loaded (sv_acc_load st) (sv_threads st))
               in check (0 \<le> mi \<and> mi < int (sv_threads st)) (CheckFailed ''min_index'')
                    (Inr (nat mi, st\<lparr>sv_acc_load := (sv_acc_load st)[nat mi := sv_acc_load st ! nat mi + of_nat len],
                                     sv_hash_cache := (sv_hash_cache st)(key \<mapsto> nat mi)\<rparr>)))))"

definition push_to :: "nat \<Rightarrow> engine_msg \<Rightarrow> server_state \<Rightarrow> server_state res" where
  "push_to tid m st =
     rbind (vec_get (sv_queues st) tid) (\<lambda>q. Inr (st\<lparr>sv_queues := (sv_queues st)[tid := Push m q]\<rparr>))"

subsection \<open>The engine\<close>

text \<open>Pull requests that wait are answered once per sender, until all workers have been served.\<close>

definition init_flags :: "u64 \<Rightarrow> thread_flags \<Rightarrow> thread_flags" where
  "init_flags key tf =
     (if is_push_finished tf key = None
      then tf\<lparr>is_push_finished := (is_push_finished tf)(key \<mapsto> False), pull_cnt := (pull_cnt tf)(key \<mapsto> 0),
              seen_sender := (seen_sender tf)(key \<mapsto> {})\<rparr>
      else tf)"

definition count_pull :: "u64 \<Rightarrow> int \<Rightarrow> thread_flags \<Rightarrow> thread_flags" where
  "count_pull key sender tf =
     tf\<lparr>pull_cnt := (pull_cnt tf)(key \<mapsto> map_at 0 (pull_cnt tf) key + 1),
        seen_sender := (seen_sender tf)(key \<mapsto> insert sender (map_at {} (seen_sender tf) key))\<rparr>"

definition all_pulled :: "server_env \<Rightarrow> u64 \<Rightarrow> thread_flags \<Rightarrow> bool" where
  "all_pulled env key tf \<longleftrightarrow> map_at 0 (pull_cnt tf) key = se_workers env"

definition end_round :: "u64 \<Rightarrow> thread_flags \<Rightarrow> thread_flags" where
  "end_round key tf =
     tf\<lparr>is_push_finished := (is_push_finished tf)(key \<mapsto> False), pull_cnt := (pull_cnt tf)(key \<mapsto> 0),
        seen_sender := (seen_sender tf)(key \<mapsto> {})\<rparr>"

text \<open>The loop over the waiting requests; \<open>kept\<close> are those it has passed.\<close>

fun answer_loop :: "server_env \<Rightarrow> u64 \<Rightarrow> kv_meta list \<Rightarrow> kv_meta list \<Rightarrow> thread_flags \<Rightarrow> server_state \<Rightarrow>
    (kv_meta list \<times> thread_flags \<times> server_state) res" where
  "answer_loop env key kept [] tf st = Inr (kept, tf, st)"
| "answer_loop env key kept (m # ms) tf st =
     (if km_sender m \<notin> map_at {} (seen_sender tf) key
      then rbind (SendPullResponse env key m st) (\<lambda>st'.
             let tf' = count_pull key (km_sender m) tf
             in if all_pulled env key tf' then Inr (kept @ ms, end_round key tf', st')
                else answer_loop env key kept ms tf' st')
      else if all_pulled env key tf then Inr (kept @ m # ms, end_round key tf, st)
      else answer_loop env key (kept @ [m]) ms tf st)"

definition answer_pulls :: "server_env \<Rightarrow> nat \<Rightarrow> u64 \<Rightarrow> server_state \<Rightarrow> server_state res" where
  "answer_pulls env i key st =
     rbind (vec_get (sv_flags st) i) (\<lambda>tf0.
       let tf1 = init_flags key tf0;
           tf2 = tf1\<lparr>is_push_finished := (is_push_finished tf1)(key \<mapsto> True)\<rparr>
       in rbind (answer_loop env key [] (map_at [] (q_pull_reqmeta tf2) key) tf2 st) (\<lambda>(waiting, tf3, st').
            Inr (st'\<lparr>sv_flags := (sv_flags st')[i := tf3\<lparr>q_pull_reqmeta := (q_pull_reqmeta tf3)(key \<mapsto> waiting)\<rparr>]\<rparr>)))"

text \<open>
  Before the operation: with a compressor for the key, the merged gradient is compressed or the
  received one decompressed; the result is where the operation then reads.
\<close>

definition set_merged :: "u64 \<Rightarrow> mem_ptr \<Rightarrow> nat \<Rightarrow> server_state \<Rightarrow> server_state" where
  "set_merged key p n st =
     (let u = GetUpdateBuf key st
      in set_update key (u\<lparr>ub_merged := (ub_merged u)\<lparr>ba_tensor := p, ba_len := n\<rparr>\<rparr>) st)"

definition set_compressor :: "u64 \<Rightarrow> compressor \<Rightarrow> server_state \<Rightarrow> server_state" where
  "set_compressor key c st = st\<lparr>sv_compressors := (sv_compressors st)(key \<mapsto> c)\<rparr>"

definition compress_merged :: "server_env \<Rightarrow> engine_msg \<Rightarrow> compressor \<Rightarrow> server_state \<Rightarrow> server_state res" where
  "compress_merged env m c st =
     rbind (deref st (em_src m)) (\<lambda>data.
     rbind (Compress (se_cenv env) c \<lparr>bt_data = data, bt_size = em_len m, bt_dtype = dht_dtype (em_type m)\<rparr>)
       (\<lambda>(c', grad', compressed).
     rbind (write_mem (em_src m) (bt_data grad') (set_compressor (em_key m) c' st)) (\<lambda>st'.
       Inr (set_merged (em_key m) (CompressorMem (em_key m)) (bt_size compressed) st'))))"

definition decompress_received :: "server_env \<Rightarrow> engine_msg \<Rightarrow> compressor \<Rightarrow> server_state \<Rightarrow>
    (mem_ptr \<times> server_state) res" where
  "decompress_received env m c st =
     rbind (vec_get (kp_lens (em_sarray m)) 0) (\<lambda>l.
       let compressed_len = unat (of_int l :: u64)
       in check (compressed_len \<le> em_len m) (CheckFailed ''compressed_len <= msg.len'')
            (rbind (deref st (em_src m)) (\<lambda>data.
             rbind (Decompress (se_cenv env) c
                      \<lparr>bt_data = data, bt_size = compressed_len, bt_dtype = dht_dtype (em_type m)\<rparr>) (\<lambda>(c', d).
               Inr (if ce_server (se_cenv env) then CompressorMem (em_key m) else RecvMem (bt_data d),
                    set_compressor (em_key m) c' st)))))"

definition prepare_message :: "server_env \<Rightarrow> engine_msg \<Rightarrow> server_state \<Rightarrow> (mem_ptr \<times> server_state) res" where
  "prepare_message env m st =
     (case sv_compressors st (em_key m) of
        Some c \<Rightarrow>
          (if em_ops m = ALL_RECV then rbind (compress_merged env m c st) (\<lambda>st'. Inr (em_src m, st'))
           else decompress_received env m c st)
      | None \<Rightarrow>
          Inr (em_src m, if em_ops m = ALL_RECV then set_merged (em_key m) (em_src m) (em_len m) st else st))"

definition process_message :: "server_env \<Rightarrow> nat \<Rightarrow> engine_msg \<Rightarrow> server_state \<Rightarrow> server_state res" where
  "process_message env i m st =
     check (em_dst m \<noteq> NullPtr) (CheckFailed ''msg.dst'') (check (em_src m \<noteq> NullPtr) (CheckFailed ''msg.src'')
       (rbind (prepare_message env m st) (\<lambda>(src, st1).
          case em_ops m of
            COPY_FIRST \<Rightarrow> copy_mem (em_dst m) src (em_len m) st1
          | SUM_RECV \<Rightarrow> sum_mem env (em_dst m) src (em_len m) (dht_dtype (em_type m)) st1
          | ALL_RECV \<Rightarrow> answer_pulls env i (em_key m) st1
          | TERMINATE \<Rightarrow> Inl (CheckFailed ''0''))))"

text \<open>
  One turn of \<open>DeepIncServerEngineThread\<close>: whether the thread goes on, and the state. On an empty
  queue the thread waits.
\<close>

definition engine_turn :: "server_env \<Rightarrow> nat \<Rightarrow> server_state \<Rightarrow> (bool \<times> server_state) res" where
  "engine_turn env i st =
     rbind (vec_get (sv_queues st) i) (\<lambda>q.
       case WaitAndPop q of
         None \<Rightarrow> Inr (True, st)
       | Some (m, q') \<Rightarrow>
           (let st1 = st\<lparr>sv_queues := (sv_queues st)[i := q']\<rparr>
            in if em_ops m = TERMINATE then Inr (False, st1)
               else rbind (process_message env i m st1) (\<lambda>st2. Inr (True, st2))))"

subsection \<open>Requests\<close>

text \<open>The inverse of \<open>GetCommandType\<close>; the floor of the square root in \<open>double\<close> is exact below \<open>2 ^ 52\<close>.\<close>

function isqrt_from :: "nat \<Rightarrow> nat \<Rightarrow> nat" where
  "isqrt_from n m = (if (m + 1) * (m + 1) \<le> n then isqrt_from n (m + 1) else m)"
  by pat_completeness auto
termination
proof (relation "measure (\<lambda>(n, m). n - m)")
  fix n m :: nat
  assume "(m + 1) * (m + 1) \<le> n"
  then have "m < n" by (metis le_eq_less_or_eq less_add_one mult_le_mono1 mult_1 not_less order.trans le_add2)
  then show "((n, m + 1), (n, m)) \<in> measure (\<lambda>(n, m). n - m)" by simp
qed simp

declare isqrt_from.simps [simp del]

definition DepairDataHandleType :: "int \<Rightarrow> data_handle_type res" where
  "DepairDataHandleType cmd =
     rbind (i32 (8 * cmd)) (\<lambda>e. rbind (i32 (e + 1)) (\<lambda>d.
     check (0 \<le> d) (Undefined ''conversion of NaN'')
       (let w = (int (isqrt_from (nat d) 0) - 1) div 2;
            t = (w * w + w) div 2;
            y = cmd - t;
            x = w - y
        in check (0 \<le> x) (CheckFailed ''x >= 0'') (check (0 \<le> y) (CheckFailed ''y >= 0'')
             (Inr \<lparr>requestType = x, dht_dtype = y\<rparr>)))))"

definition add_request :: "u64 \<Rightarrow> kv_meta \<Rightarrow> server_state \<Rightarrow> server_state" where
  "add_request key req st =
     (let u = GetUpdateBuf key st in set_update key (u\<lparr>ub_request := ub_request u @ [req]\<rparr>) st)"

definition clear_request :: "u64 \<Rightarrow> server_state \<Rightarrow> server_state" where
  "clear_request key st = set_update key ((GetUpdateBuf key st)\<lparr>ub_request := []\<rparr>) st"

definition request_count :: "u64 \<Rightarrow> server_state \<Rightarrow> nat" where
  "request_count key st = length (ub_request (GetUpdateBuf key st))"

text \<open>
  A request of the compressed type registers the compressor of the key, once; its parameters are
  the text in the request. The requests of all workers are answered together.
\<close>

definition make_compressor :: "server_env \<Rightarrow> u64 \<Rightarrow> kv_pairs \<Rightarrow> server_state \<Rightarrow> server_state res" where
  "make_compressor env key kvs st =
     (case sv_compressors st key of
        Some c \<Rightarrow> Inr st
      | None \<Rightarrow>
          rbind (vec_get (kp_lens kvs) 0) (\<lambda>l.
          rbind (sarray_bytes st ((kp_vals kvs)\<lparr>sa_size := unat (of_int l :: u64)\<rparr>)) (\<lambda>content.
          let kw = Deserialize (map (\<lambda>b. char_of (unat b)) content); stored = GetStore key st
          in rbind (Align (of_nat (ba_len stored)) (ba_dtype stored)) (\<lambda>aligned_size.
             rbind (reduce_switch (ba_dtype stored) (Create (se_cenv env) kw (unat aligned_size))) (\<lambda>c.
               case c of
                 None \<Rightarrow> Inl (CheckFailed ''compressor_ptr != nullptr'')
               | Some c' \<Rightarrow> Inr (set_compressor key c' st))))))"

definition register_compressor :: "server_env \<Rightarrow> u64 \<Rightarrow> kv_meta \<Rightarrow> kv_pairs \<Rightarrow> server_state \<Rightarrow> server_state res" where
  "register_compressor env key req kvs st =
     rbind (make_compressor env key kvs st) (\<lambda>st1.
       let st2 = add_request key req st1
       in if request_count key st2 < se_workers env then Inr st2
          else rbind (respond_all key (ub_request (GetUpdateBuf key st2)) st2) (\<lambda>st3. Inr (clear_request key st3)))"

text \<open>
  The first push of every worker: the buffer of the key is made when all have come, with the data
  of the last one, and only then are they answered.
\<close>

definition init_push :: "server_env \<Rightarrow> data_handle_type \<Rightarrow> u64 \<Rightarrow> kv_meta \<Rightarrow> mem_ptr \<Rightarrow> nat \<Rightarrow> server_state \<Rightarrow>
    server_state res" where
  "init_push env type key req recved len st =
     (let u = GetUpdateBuf key st;
          st1 = (if sv_sync st
                 then set_update key (u\<lparr>ub_merged := (ub_merged u)\<lparr>ba_len := len, ba_dtype := dht_dtype type\<rparr>\<rparr>) st
                 else st);
          st2 = add_request key req st1
      in if request_count key st2 < se_workers env then Inr st2
         else rbind (Align (of_nat len) (dht_dtype type)) (\<lambda>aligned_size.
              rbind (PageAlignedMalloc env (unat aligned_size)) (\<lambda>m.
              let stored = (GetStore key st2)\<lparr>ba_tensor := StoreMem key, ba_len := len, ba_dtype := dht_dtype type\<rparr>;
                  st3 = st2\<lparr>sv_mem := (sv_mem st2)(key \<mapsto> m), sv_store := (sv_store st2)(key \<mapsto> stored)\<rparr>
              in rbind (copy_mem (StoreMem key) recved len st3) (\<lambda>st4.
                 rbind (respond_all key (ub_request (GetUpdateBuf key st4)) st4) (\<lambda>st5.
                   Inr (clear_request key st5))))))"

definition default_meta :: kv_meta where
  "default_meta = \<lparr>km_cmd = 0, km_push = False, km_sender = 0, km_id = 0\<rparr>"

text \<open>A message to the engine takes the next number and works on the buffer of the key.\<close>

definition send_message :: "nat \<Rightarrow> data_handle_type \<Rightarrow> u64 \<Rightarrow> mem_ptr \<Rightarrow> engine_op \<Rightarrow> kv_pairs \<Rightarrow> kv_meta \<Rightarrow>
    server_state \<Rightarrow> server_state res" where
  "send_message tid type key src ops kvs req st =
     (let stored = GetStore key st;
          m = \<lparr>em_id = sv_timestamp st, em_type = type, em_key = key, em_dst = ba_tensor stored, em_src = src,
               em_len = ba_len stored, em_ops = ops, em_sarray = kvs, em_req_meta = req\<rparr>
      in push_to tid m (st\<lparr>sv_timestamp := sv_timestamp st + 1\<rparr>))"

text \<open>A push: the first of a round overwrites the buffer, the others are added to it.\<close>

definition first_push :: "server_env \<Rightarrow> data_handle_type \<Rightarrow> u64 \<Rightarrow> nat \<Rightarrow> kv_meta \<Rightarrow> kv_pairs \<Rightarrow> mem_ptr \<Rightarrow> nat \<Rightarrow>
    server_state \<Rightarrow> server_state res" where
  "first_push env type key tid req kvs recved len st =
     (if sv_sync st
      then (let u = GetUpdateBuf key st;
                st1 = set_update key (u\<lparr>ub_merged := (ub_merged u)\<lparr>ba_tmp := kvs\<rparr>\<rparr>) st
            in send_message tid type key recved COPY_FIRST kvs req st1)
      else sum_mem env (ba_tensor (GetStore key st)) recved len (ba_dtype (GetStore key st)) st)"

definition other_push :: "server_env \<Rightarrow> data_handle_type \<Rightarrow> u64 \<Rightarrow> nat \<Rightarrow> kv_meta \<Rightarrow> kv_pairs \<Rightarrow> mem_ptr \<Rightarrow> nat \<Rightarrow>
    server_state \<Rightarrow> server_state res" where
  "other_push env type key tid req kvs recved len st =
     check (sv_sync st) (CheckFailed ''sync_mode_'')
       (if sv_blocking st
        then (let merged = ub_merged (GetUpdateBuf key st)
              in sum_mem env (ba_tensor merged) recved len (ba_dtype merged) st)
        else send_message tid type key recved SUM_RECV kvs req st)"

text \<open>When the last worker has pushed, the result is ready for the pulls.\<close>

definition round_complete :: "nat \<Rightarrow> data_handle_type \<Rightarrow> u64 \<Rightarrow> nat \<Rightarrow> server_state \<Rightarrow> server_state res" where
  "round_complete tid type key len st =
     (if sv_blocking st
      then copy_mem (ba_tensor (GetStore key st)) (ba_tensor (ub_merged (GetUpdateBuf key st))) len st
      else rbind (send_message tid type key (ba_tensor (GetStore key st)) ALL_RECV empty_kvs default_meta st) (\<lambda>st1.
           rbind (vec_get (sv_queues st1) tid) (\<lambda>q.
             Inr (st1\<lparr>sv_queues := (sv_queues st1)[tid := ClearCounter key q]\<rparr>))))"

definition round_push :: "server_env \<Rightarrow> data_handle_type \<Rightarrow> u64 \<Rightarrow> kv_meta \<Rightarrow> kv_pairs \<Rightarrow> mem_ptr \<Rightarrow> nat \<Rightarrow>
    server_state \<Rightarrow> server_state res" where
  "round_push env type key req kvs recved len st =
     rbind (GetThreadID key len st) (\<lambda>(tid, st1).
     rbind (if request_count key st1 = 0 then first_push env type key tid req kvs recved len st1
            else other_push env type key tid req kvs recved len st1) (\<lambda>st2.
     rbind (SendPushResponse key req (add_request key req st2)) (\<lambda>st3.
       if sv_sync st3 \<and> request_count key st3 = se_workers env
       then rbind (round_complete tid type key len st3) (\<lambda>st4. Inr (clear_request key st4))
       else Inr (if sv_sync st3 then st3 else clear_request key st3))))"

definition handle_push :: "server_env \<Rightarrow> data_handle_type \<Rightarrow> u64 \<Rightarrow> kv_meta \<Rightarrow> kv_pairs \<Rightarrow> server_state \<Rightarrow>
    server_state res" where
  "handle_push env type key req kvs st =
     check (length (kp_lens kvs) = 1) (CheckFailed ''lens.size() == 1'')
       (let len = unat (of_int (hd (kp_lens kvs)) :: u64); recved = sa_data (kp_vals kvs)
        in check (sa_size (kp_vals kvs) = len) (CheckFailed ''vals.size() == lens[0]'')
             (if ba_tensor (GetStore key st) = NullPtr then init_push env type key req recved len st
              else round_push env type key req kvs recved len st))"

text \<open>
  A pull is answered at once when the round is finished and the sender has not yet been served in
  it, and waits otherwise.
\<close>

definition handle_pull :: "server_env \<Rightarrow> u64 \<Rightarrow> kv_meta \<Rightarrow> server_state \<Rightarrow> server_state res" where
  "handle_pull env key req st =
     check (ba_tensor (GetStore key st) \<noteq> NullPtr) (CheckFailed ''Should init the buffer for key first'')
       (if sv_blocking st \<or> \<not> sv_sync st then SendPullResponse env key req st
        else rbind (GetThreadID key 0 st) (\<lambda>(tid, st1).
             rbind (vec_get (sv_flags st1) tid) (\<lambda>tf0.
               let tf1 = init_flags key tf0
               in if map_at False (is_push_finished tf1) key \<and> km_sender req \<notin> map_at {} (seen_sender tf1) key
                  then rbind (SendPullResponse env key req st1) (\<lambda>st2.
                         let tf2 = count_pull key (km_sender req) tf1
                         in Inr (st2\<lparr>sv_flags := (sv_flags st2)
                                  [tid := if all_pulled env key tf2 then end_round key tf2 else tf2]\<rparr>))
                  else Inr (st1\<lparr>sv_flags := (sv_flags st1)
                              [tid := tf1\<lparr>q_pull_reqmeta := (q_pull_reqmeta tf1)
                                 (key \<mapsto> map_at [] (q_pull_reqmeta tf1) key @ [req])\<rparr>]\<rparr>))))"

definition log_checks :: "kv_meta \<Rightarrow> kv_pairs \<Rightarrow> bool" where
  "log_checks req kvs \<longleftrightarrow>
     km_push req \<longrightarrow> length (kp_lens kvs) = 1 \<and> sa_size (kp_vals kvs) = unat (of_int (hd (kp_lens kvs)) :: u64)"

definition DeepIncServerHandle :: "server_env \<Rightarrow> kv_meta \<Rightarrow> kv_pairs \<Rightarrow> server_state \<Rightarrow> server_state res" where
  "DeepIncServerHandle env req kvs st =
     rbind (DepairDataHandleType (km_cmd req)) (\<lambda>type.
     check (length (kp_keys kvs) = 1) (CheckFailed ''keys.size() == 1'')
     (check (sv_log st \<longrightarrow> log_checks req kvs) (CheckFailed ''lens'')
       (rbind (DecodeKey (se_ranges env) (se_rank env) (hd (kp_keys kvs))) (\<lambda>key.
          if requestType type = request_type_value kCompressedPushPull then register_compressor env key req kvs st
          else if km_push req then handle_push env type key req kvs st
          else handle_pull env key req st))))"

subsection \<open>Start and end\<close>

definition server_globals :: server_state where
  "server_globals =
     \<lparr>sv_timestamp = 0, sv_threads = 4, sv_blocking = False, sv_log = False, sv_sync = True, sv_schedule = False,
      sv_is_server = True, sv_preferred_rank = -1, sv_push_response = Map.empty, sv_pull_response = Map.empty,
      sv_compressors = Map.empty, sv_hash_cache = Map.empty, sv_acc_load = [], sv_update = Map.empty,
      sv_store = Map.empty, sv_mem = Map.empty, sv_flags = [], sv_queues = [], sv_sent = []\<rparr>"

definition init_global_env :: "environ \<Rightarrow> server_state \<Rightarrow> server_state res" where
  "init_global_env genv st =
     rbind (env_int genv ''PS_KEY_LOG'' 0) (\<lambda>log.
     let server = (genv ''DMLC_ROLE'' = None \<or> genv ''DMLC_ROLE'' = Some ''server'')
     in rbind (env_int genv ''ENABLE_ASYNC'' 0) (\<lambda>async.
        rbind (env_int genv ''SERVER_ENGINE_THREAD'' 4) (\<lambda>threads.
        rbind (env_int genv ''SERVER_ENABLE_SCHEDULE'' 0) (\<lambda>schedule.
          Inr (st\<lparr>sv_log := (log \<noteq> 0), sv_is_server := server,
                  sv_preferred_rank := (if server then -1 else 0), sv_sync := (async = 0),
                  sv_threads := unat (of_int threads :: u64), sv_schedule := (schedule \<noteq> 0)\<rparr>)))))"

text \<open>
  Up to the registration of the handler; the queues have their threads. At the end every queue gets
  a last message, of which only the operation is set, and the buffers are freed.
\<close>

definition start_server :: "environ \<Rightarrow> server_state \<Rightarrow> server_state res" where
  "start_server genv st =
     rbind (init_global_env genv st) (\<lambda>st1.
       let st2 = st1\<lparr>sv_acc_load := sv_acc_load st1 @ replicate (sv_threads st1) 0\<rparr>
       in Inr (if sv_sync st2
               then st2\<lparr>sv_queues := sv_queues st2 @ replicate (sv_threads st2) (PriorityQueue (sv_schedule st2))\<rparr>
               else st2))"

definition stop_engines :: "engine_msg \<Rightarrow> server_state \<Rightarrow> server_state" where
  "stop_engines msg st = st\<lparr>sv_queues := map (Push (msg\<lparr>em_ops := TERMINATE\<rparr>)) (sv_queues st)\<rparr>"

definition free_store :: "server_state \<Rightarrow> server_state" where
  "free_store st =
     st\<lparr>sv_mem := (\<lambda>k. case sv_store st k of
          None \<Rightarrow> sv_mem st k
        | Some a \<Rightarrow> if ba_tensor a \<noteq> NullPtr then None else sv_mem st k)\<rparr>"

subsection \<open>Runs\<close>

text \<open>A run is a sequence of requests and of turns of the engine threads, in any order.\<close>

datatype server_event = Request kv_meta kv_pairs | EngineTurn nat

fun server_step :: "server_env \<Rightarrow> server_event \<Rightarrow> server_state \<Rightarrow> server_state res" where
  "server_step env (Request req kvs) st = DeepIncServerHandle env req kvs st"
| "server_step env (EngineTurn i) st = rbind (engine_turn env i st) (\<lambda>(on, st'). Inr st')"

fun server_run :: "server_env \<Rightarrow> server_event list \<Rightarrow> server_state \<Rightarrow> server_state res" where
  "server_run env [] st = Inr st"
| "server_run env (e # es) st = rbind (server_step env e st) (server_run env es)"

end
