(* ===== verification/Server_Keys.thy ===== *)
theory Server_Keys
  imports Server
begin

section \<open>Each key of the server on its own\<close>

text \<open>
  Everything the server keeps is kept per key, except the numbers of the messages and the load of
  the threads. This theory cuts the state of one key out of the server's and shows that a step for
  a key only changes that key's part; the component invariant \<open>server_ok\<close> says that pointers and
  responses stay with their key.
\<close>

lemma rbindE:
  assumes "rbind r f = Inr y"
  obtains x where "r = Inr x" "f x = Inr y"
  using assms by (cases r) auto

lemma checkE:
  assumes "check b e r = Inr y"
  obtains "b" "r = Inr y"
  using assms by (auto simp: check_def split: if_splits)

subsection \<open>The part of a key\<close>

record key_state =
  ks_store :: bps_array
  ks_mem :: "u8 list option"
  ks_compressor :: "compressor option"
  ks_update :: update_buf
  ks_thread :: "nat option"
  ks_pull_response :: "kv_pairs option"
  ks_msgs :: "engine_msg list list"
  ks_flags :: "(bool option \<times> kv_meta list \<times> int set \<times> nat) list"
  ks_answers :: "response list"

definition key_base :: "server_env \<Rightarrow> u64" where
  "key_base env = fst (se_ranges env ! se_rank env)"

definition flags_of :: "u64 \<Rightarrow> thread_flags \<Rightarrow> bool option \<times> kv_meta list \<times> int set \<times> nat" where
  "flags_of k tf = (is_push_finished tf k, map_at [] (q_pull_reqmeta tf) k, map_at {} (seen_sender tf) k,
     map_at 0 (pull_cnt tf) k)"

definition msgs_of :: "u64 \<Rightarrow> engine_queue \<Rightarrow> engine_msg list" where
  "msgs_of k q = filter (\<lambda>m. em_key m = k) (pq_queue q)"

definition answers_of :: "server_env \<Rightarrow> u64 \<Rightarrow> server_state \<Rightarrow> response list" where
  "answers_of env k st = filter (\<lambda>r. rp_keys r = [k + key_base env]) (sv_sent st)"

definition key_state :: "server_env \<Rightarrow> u64 \<Rightarrow> server_state \<Rightarrow> key_state" where
  "key_state env k st =
     \<lparr>ks_store = GetStore k st, ks_mem = sv_mem st k, ks_compressor = sv_compressors st k,
      ks_update = GetUpdateBuf k st, ks_thread = sv_hash_cache st k, ks_pull_response = sv_pull_response st k,
      ks_msgs = map (msgs_of k) (sv_queues st), ks_flags = map (flags_of k) (sv_flags st),
      ks_answers = answers_of env k st\<rparr>"

definition modes :: "server_state \<Rightarrow> bool \<times> bool \<times> bool \<times> nat" where
  "modes st = (sv_sync st, sv_blocking st, sv_log st, sv_threads st)"

subsection \<open>Pointers and responses stay with their key\<close>

definition ptr_of :: "u64 \<Rightarrow> mem_ptr \<Rightarrow> bool" where
  "ptr_of k p \<longleftrightarrow> (case p of StoreMem k' \<Rightarrow> k' = k | CompressorMem k' \<Rightarrow> k' = k | _ \<Rightarrow> True)"

lemma ptr_of_simps [simp]:
  "ptr_of k NullPtr" "ptr_of k (RecvMem b)" "ptr_of k (StoreMem k') \<longleftrightarrow> k' = k" "ptr_of k (CompressorMem k') \<longleftrightarrow> k' = k"
  by (simp_all add: ptr_of_def)

definition msg_ok :: "engine_msg \<Rightarrow> bool" where
  "msg_ok m \<longleftrightarrow> ptr_of (em_key m) (em_dst m) \<and> ptr_of (em_key m) (em_src m)"

definition server_ok :: "server_env \<Rightarrow> server_state \<Rightarrow> bool" where
  "server_ok env st \<longleftrightarrow>
     (\<forall>q \<in> set (sv_queues st). unscheduled q \<and> (\<forall>m \<in> set (pq_queue q). msg_ok m)) \<and>
     (\<forall>k r. sv_push_response st k = Some r \<longrightarrow> r = empty_kvs) \<and>
     (\<forall>k r. sv_pull_response st k = Some r \<longrightarrow> kp_keys r = [k + key_base env]) \<and>
     (\<forall>k. ptr_of k (ba_tensor (GetStore k st))) \<and>
     (\<forall>k. ptr_of k (ba_tensor (ub_merged (GetUpdateBuf k st))))"

text \<open>A step that belongs to a key.\<close>

definition keyed :: "server_env \<Rightarrow> u64 \<Rightarrow> server_state \<Rightarrow> server_state \<Rightarrow> bool" where
  "keyed env k st st' \<longleftrightarrow>
     (server_ok env st \<longrightarrow>
        server_ok env st' \<and> modes st' = modes st \<and> (\<forall>k'. k' \<noteq> k \<longrightarrow> key_state env k' st' = key_state env k' st))"

lemma keyed_refl [simp]: "keyed env k st st"
  by (simp add: keyed_def)

lemma keyed_trans [trans]: "keyed env k st st1 \<Longrightarrow> keyed env k st1 st2 \<Longrightarrow> keyed env k st st2"
  by (simp add: keyed_def)

lemma keyedI:
  assumes "server_ok env st \<Longrightarrow> server_ok env st'" and "modes st' = modes st"
    and "\<And>k'. server_ok env st \<Longrightarrow> k' \<noteq> k \<Longrightarrow> key_state env k' st' = key_state env k' st"
  shows "keyed env k st st'"
  using assms by (simp add: keyed_def)

lemma server_ok_msgD:
  "server_ok env st \<Longrightarrow> i < length (sv_queues st) \<Longrightarrow> m \<in> set (pq_queue (sv_queues st ! i)) \<Longrightarrow> msg_ok m"
  by (meson nth_mem server_ok_def)

lemma server_ok_queueD: "server_ok env st \<Longrightarrow> i < length (sv_queues st) \<Longrightarrow> unscheduled (sv_queues st ! i)"
  by (meson nth_mem server_ok_def)

lemma server_ok_pushD: "server_ok env st \<Longrightarrow> sv_push_response st k = Some r \<Longrightarrow> r = empty_kvs"
  by (simp add: server_ok_def)

lemma server_ok_pullD: "server_ok env st \<Longrightarrow> sv_pull_response st k = Some r \<Longrightarrow> kp_keys r = [k + key_base env]"
  by (simp add: server_ok_def)

lemma server_ok_storeD: "server_ok env st \<Longrightarrow> ptr_of k (ba_tensor (GetStore k st))"
  by (simp add: server_ok_def)

lemma server_ok_mergedD: "server_ok env st \<Longrightarrow> ptr_of k (ba_tensor (ub_merged (GetUpdateBuf k st)))"
  by (simp add: server_ok_def)

lemmas part_simps = key_state_def modes_def answers_of_def GetStore_def GetUpdateBuf_def

subsection \<open>The operations\<close>

lemma keyed_set_update:
  assumes "ptr_of k (ba_tensor (ub_merged u))"
  shows "keyed env k st (set_update k u st)"
  by (rule keyedI) (use assms in \<open>auto simp: set_update_def part_simps server_ok_def\<close>)

lemma keyed_add_request: "keyed env k st (add_request k req st)"
  by (rule keyedI) (auto simp: add_request_def set_update_def part_simps server_ok_def Let_def)

lemma keyed_clear_request: "keyed env k st (clear_request k st)"
  by (rule keyedI) (auto simp: clear_request_def set_update_def part_simps server_ok_def)

lemma keyed_set_merged:
  assumes "ptr_of k p"
  shows "keyed env k st (set_merged k p n st)"
  using assms by (simp add: set_merged_def Let_def keyed_set_update)

lemma keyed_set_compressor: "keyed env k st (set_compressor k c st)"
  by (rule keyedI) (auto simp: set_compressor_def part_simps server_ok_def)

lemma keyed_write_mem:
  assumes "write_mem p b st = Inr st'" and "ptr_of k p"
  shows "keyed env k st st'"
  using assms
  by (cases p; intro keyedI) (auto simp: part_simps server_ok_def split: option.splits)

lemma keyed_copy_mem:
  assumes "copy_mem dst src len st = Inr st'" and "ptr_of k dst"
  shows "keyed env k st st'"
  using assms by (auto simp: copy_mem_def res_simps intro: keyed_write_mem)

lemma keyed_sum_mem:
  assumes "sum_mem env dst src len dt st = Inr st'" and "ptr_of k dst"
  shows "keyed env k st st'"
  using assms by (auto simp: sum_mem_def res_simps intro: keyed_write_mem)

lemma keyed_Response:
  assumes "Response req kvs st = Inr st'" and "kp_keys kvs = [] \<or> kp_keys kvs = [k + key_base env]"
  shows "keyed env k st st'"
  by (rule keyedI) (use assms in \<open>auto simp: Response_def res_simps part_simps server_ok_def\<close>)

lemma empty_kvs_keys [simp]: "kp_keys empty_kvs = []"
  by (simp add: empty_kvs_def)

lemma keyed_SendPushResponse:
  assumes "SendPushResponse k req st = Inr st'"
  shows "keyed env k st st'"
proof (cases "server_ok env st")
  case True
  have s: "keyed env k st (st\<lparr>sv_push_response := (sv_push_response st)(k \<mapsto> empty_kvs)\<rparr>)"
    by (rule keyedI) (auto simp: part_simps server_ok_def)
  show ?thesis
  proof (cases "sv_push_response st k")
    case None
    then show ?thesis using assms keyed_trans [OF s keyed_Response] by (simp add: SendPushResponse_def)
  next
    case (Some r)
    then have "r = empty_kvs" using server_ok_pushD [OF True] by simp
    then show ?thesis using assms Some keyed_Response by (simp add: SendPushResponse_def)
  qed
qed (simp add: keyed_def)

lemma EncodeKey_base: "EncodeKey (se_ranges env) (se_rank env) k = Inr k' \<Longrightarrow> k' = k + key_base env"
  by (auto simp: EncodeKey_def key_base_def res_simps split: prod.splits)

lemma keyed_SendPullResponse:
  assumes "SendPullResponse env k req st = Inr st'"
  shows "keyed env k st st'"
proof (cases "server_ok env st")
  case True
  let ?merged = "ub_merged (GetUpdateBuf k st)"
  obtain r where r: "kp_keys r = [k + key_base env]"
    and R: "Response req (r\<lparr>kp_lens := [to_i32 (ba_len ?merged)],
        kp_vals := \<lparr>sa_data = ba_tensor ?merged, sa_size = ba_len ?merged\<rparr>\<rparr>)
      (st\<lparr>sv_pull_response := (sv_pull_response st)(k \<mapsto> r\<lparr>kp_lens := [to_i32 (ba_len ?merged)],
        kp_vals := \<lparr>sa_data = ba_tensor ?merged, sa_size = ba_len ?merged\<rparr>\<rparr>)\<rparr>) = Inr st'"
  proof (cases "sv_pull_response st k")
    case None
    then obtain k' where "EncodeKey (se_ranges env) (se_rank env) k = Inr k'"
      using assms by (auto simp: SendPullResponse_def Let_def res_simps)
    then show ?thesis using assms None EncodeKey_base that [of "empty_kvs\<lparr>kp_keys := [k']\<rparr>"]
      by (auto simp: SendPullResponse_def Let_def res_simps)
  next
    case (Some r)
    then show ?thesis using assms that [of r] server_ok_pullD [OF True Some]
      by (auto simp: SendPullResponse_def Let_def res_simps)
  qed
  have "keyed env k st (st\<lparr>sv_pull_response := (sv_pull_response st)(k \<mapsto> r\<lparr>kp_lens := [to_i32 (ba_len ?merged)],
        kp_vals := \<lparr>sa_data = ba_tensor ?merged, sa_size = ba_len ?merged\<rparr>\<rparr>)\<rparr>)"
    by (rule keyedI) (use r in \<open>auto simp: part_simps server_ok_def\<close>)
  from keyed_trans [OF this keyed_Response [OF R]] r show ?thesis by simp
qed (simp add: keyed_def)

lemma keyed_respond_all: "respond_all k rs st = Inr st' \<Longrightarrow> keyed env k st st'"
  by (induction rs arbitrary: st) (auto simp: res_simps intro: keyed_trans keyed_SendPushResponse)

lemma keyed_GetThreadID:
  assumes "GetThreadID k len st = Inr (t, st')"
  shows "keyed env k st st'"
  using assms
  by (intro keyedI) (auto simp: GetThreadID_def Let_def res_simps part_simps server_ok_def split: option.splits)

lemma map_update_same: "i < length xs \<Longrightarrow> f y = f (xs ! i) \<Longrightarrow> map f (xs[i := y]) = map f xs"
  by (simp add: map_update list_update_same_conv)

lemma keyed_set_queue:
  assumes "i < length (sv_queues st)" and "\<And>k'. k' \<noteq> k \<Longrightarrow> msgs_of k' q' = msgs_of k' (sv_queues st ! i)"
    and "server_ok env st \<Longrightarrow> unscheduled q' \<and> (\<forall>m \<in> set (pq_queue q'). msg_ok m)"
  shows "keyed env k st (st\<lparr>sv_queues := (sv_queues st)[i := q']\<rparr>)"
proof (rule keyedI)
  assume ok: "server_ok env st"
  then have "\<forall>q \<in> set ((sv_queues st)[i := q']). unscheduled q \<and> (\<forall>m \<in> set (pq_queue q). msg_ok m)"
    using assms(3) set_update_subset_insert [of "sv_queues st" i q'] by (auto simp: server_ok_def)
  then show "server_ok env (st\<lparr>sv_queues := (sv_queues st)[i := q']\<rparr>)"
    using ok by (simp add: server_ok_def part_simps)
qed (auto simp: part_simps map_update_same assms(1,2))

lemma keyed_push_to:
  assumes "push_to i m st = Inr st'" and "em_key m = k" and "msg_ok m"
  shows "keyed env k st st'"
proof (cases "server_ok env st")
  case True
  have i: "i < length (sv_queues st)" and st': "st' = st\<lparr>sv_queues := (sv_queues st)[i := Push m (sv_queues st ! i)]\<rparr>"
    using assms(1) by (auto simp: push_to_def res_simps)
  have u: "unscheduled (sv_queues st ! i)" using server_ok_queueD [OF True i] .
  have q: "pq_queue (Push m (sv_queues st ! i)) = pq_queue (sv_queues st ! i) @ [m]"
    using eq.push_items [OF u] .
  show ?thesis unfolding st'
    by (rule keyed_set_queue [OF i])
      (use assms(2,3) q eq.push_ok [OF u] server_ok_msgD [OF _ i] in \<open>auto simp: msgs_of_def\<close>)
qed (simp add: keyed_def)

lemma keyed_timestamp [simp]: "keyed env k st (st\<lparr>sv_timestamp := n\<rparr>)"
  by (rule keyedI) (auto simp: part_simps server_ok_def)

lemma keyed_send_message:
  assumes "send_message tid type k src ops kvs req st = Inr st'" and "ptr_of k src"
  shows "keyed env k st st'"
proof (cases "server_ok env st")
  case True
  then show ?thesis
    using assms server_ok_storeD [OF True, of k]
    by (auto simp: send_message_def Let_def msg_ok_def intro!: keyed_trans [OF keyed_timestamp keyed_push_to])
qed (simp add: keyed_def)

lemma keyed_set_flags:
  assumes "i < length (sv_flags st)" and "\<And>k'. k' \<noteq> k \<Longrightarrow> flags_of k' tf = flags_of k' (sv_flags st ! i)"
  shows "keyed env k st (st\<lparr>sv_flags := (sv_flags st)[i := tf]\<rparr>)"
  by (rule keyedI) (use assms in \<open>auto simp: part_simps server_ok_def map_update_same\<close>)

lemma flags_of_other:
  assumes "k' \<noteq> k"
  shows "flags_of k' (init_flags k tf) = flags_of k' tf"
    and "flags_of k' (count_pull k s tf) = flags_of k' tf"
    and "flags_of k' (end_round k tf) = flags_of k' tf"
    and "flags_of k' (tf\<lparr>is_push_finished := (is_push_finished tf)(k \<mapsto> b)\<rparr>) = flags_of k' tf"
    and "flags_of k' (tf\<lparr>q_pull_reqmeta := (q_pull_reqmeta tf)(k \<mapsto> ms)\<rparr>) = flags_of k' tf"
  using assms by (simp_all add: flags_of_def init_flags_def count_pull_def end_round_def)

lemma SendPullResponse_keeps:
  assumes "SendPullResponse env k req st = Inr st'"
  shows "sv_flags st' = sv_flags st" "sv_queues st' = sv_queues st"
  using assms by (auto simp: SendPullResponse_def Response_def Let_def res_simps)

lemma keyed_answer_loop:
  assumes "answer_loop env k kept ms tf st = Inr (w, tf', st')"
  shows "keyed env k st st' \<and> sv_flags st' = sv_flags st \<and> sv_queues st' = sv_queues st \<and>
    (\<forall>k'. k' \<noteq> k \<longrightarrow> flags_of k' tf' = flags_of k' tf)"
  using assms
proof (induction env k kept ms tf st rule: answer_loop.induct)
  case (2 env key kept m ms tf st)
  show ?case
  proof (cases "km_sender m \<notin> map_at {} (seen_sender tf) key")
    case True
    then obtain st1 where s: "SendPullResponse env key m st = Inr st1"
      and r: "(let tf' = count_pull key (km_sender m) tf
             in if all_pulled env key tf' then Inr (kept @ ms, end_round key tf', st1)
                else answer_loop env key kept ms tf' st1) = Inr (w, tf', st')"
      using "2.prems" by (auto simp: res_simps)
    note k1 = keyed_SendPullResponse [OF s] SendPullResponse_keeps [OF s]
    show ?thesis
    proof (cases "all_pulled env key (count_pull key (km_sender m) tf)")
      case True
      then show ?thesis using r k1 by (auto simp: Let_def flags_of_other)
    next
      case False
      with r have "answer_loop env key kept ms (count_pull key (km_sender m) tf) st1 = Inr (w, tf', st')"
        by (simp add: Let_def)
      from "2.IH"(1) [OF \<open>km_sender m \<notin> map_at {} (seen_sender tf) key\<close> refl False this] k1
      show ?thesis by (auto simp: flags_of_other intro: keyed_trans)
    qed
  next
    case False
    then show ?thesis using "2.prems" "2.IH"(2) by (auto simp: flags_of_other split: if_splits)
  qed
qed simp

lemma keyed_answer_pulls:
  assumes "answer_pulls env i k st = Inr st'"
  shows "keyed env k st st'"
proof -
  let ?tf1 = "init_flags k (sv_flags st ! i)"
  let ?tf2 = "?tf1\<lparr>is_push_finished := (is_push_finished ?tf1)(k \<mapsto> True)\<rparr>"
  obtain w tf3 st1 where i: "i < length (sv_flags st)"
    and a: "answer_loop env k [] (map_at [] (q_pull_reqmeta ?tf2) k) ?tf2 st = Inr (w, tf3, st1)"
    and st': "st' = st1\<lparr>sv_flags := (sv_flags st1)[i := tf3\<lparr>q_pull_reqmeta := (q_pull_reqmeta tf3)(k \<mapsto> w)\<rparr>]\<rparr>"
    using assms by (auto simp: answer_pulls_def Let_def res_simps)
  note l = keyed_answer_loop [OF a]
  have "keyed env k st st1" using l by simp
  also have "keyed env k st1 st'"
    unfolding st' by (rule keyed_set_flags) (use l i in \<open>auto simp: flags_of_other\<close>)
  finally show ?thesis .
qed

lemma keyed_compress_merged:
  assumes "compress_merged env m c st = Inr st'" and "ptr_of (em_key m) (em_src m)"
  shows "keyed env (em_key m) st st'"
proof -
  obtain x :: "compressor \<times> bps_tensor \<times> bps_tensor" where "(case x of (c', grad', compressed) \<Rightarrow>
       rbind (write_mem (em_src m) (bt_data grad') (set_compressor (em_key m) c' st)) (\<lambda>st1.
         Inr (set_merged (em_key m) (CompressorMem (em_key m)) (bt_size compressed) st1))) = Inr st'"
    using assms(1) unfolding compress_merged_def by (elim rbindE) (erule that)
  then obtain st1 where w: "write_mem (em_src m) (bt_data (fst (snd x))) (set_compressor (em_key m) (fst x) st) = Inr st1"
    and st': "st' = set_merged (em_key m) (CompressorMem (em_key m)) (bt_size (snd (snd x))) st1"
    by (cases x) (auto simp: rbind_eq_Inr)
  have "keyed env (em_key m) st (set_compressor (em_key m) (fst x) st)" by (rule keyed_set_compressor)
  also have "keyed env (em_key m) \<dots> st1" using keyed_write_mem [OF w assms(2)] .
  also have "keyed env (em_key m) st1 st'" by (simp add: st' keyed_set_merged)
  finally show ?thesis .
qed

lemma keyed_decompress_received:
  assumes "decompress_received env m c st = Inr (src, st')"
  shows "keyed env (em_key m) st st' \<and> ptr_of (em_key m) src"
proof -
  obtain x :: "compressor \<times> bps_tensor" where "(case x of (c', d) \<Rightarrow>
       Inr (if ce_server (se_cenv env) then CompressorMem (em_key m) else RecvMem (bt_data d),
            set_compressor (em_key m) c' st)) = (Inr (src, st') :: (mem_ptr \<times> server_state) res)"
    using assms unfolding decompress_received_def Let_def by (elim rbindE checkE) (erule that)
  then show ?thesis by (cases x) (auto simp: keyed_set_compressor)
qed

lemma keyed_prepare_message:
  assumes "prepare_message env m st = Inr (src, st')" and "msg_ok m"
  shows "keyed env (em_key m) st st' \<and> ptr_of (em_key m) src"
proof (cases "sv_compressors st (em_key m)")
  case None
  then show ?thesis using assms by (auto simp: prepare_message_def msg_ok_def keyed_set_merged)
next
  case (Some c)
  show ?thesis
  proof (cases "em_ops m = ALL_RECV")
    case True
    then have "compress_merged env m c st = Inr st'" "src = em_src m"
      using assms(1) Some by (auto simp: prepare_message_def rbind_eq_Inr)
    then show ?thesis using assms(2) keyed_compress_merged by (simp add: msg_ok_def)
  next
    case False
    then have "decompress_received env m c st = Inr (src, st')"
      using assms(1) Some by (simp add: prepare_message_def)
    then show ?thesis by (rule keyed_decompress_received)
  qed
qed

lemma keyed_process_message:
  assumes "process_message env i m st = Inr st'" and "msg_ok m"
  shows "keyed env (em_key m) st st'"
proof -
  obtain src st1 where p: "prepare_message env m st = Inr (src, st1)"
    and r: "(case em_ops m of
            COPY_FIRST \<Rightarrow> copy_mem (em_dst m) src (em_len m) st1
          | SUM_RECV \<Rightarrow> sum_mem env (em_dst m) src (em_len m) (dht_dtype (em_type m)) st1
          | ALL_RECV \<Rightarrow> answer_pulls env i (em_key m) st1
          | TERMINATE \<Rightarrow> Inl (CheckFailed ''0'')) = Inr st'"
    using assms(1) by (auto simp: process_message_def res_simps)
  have "keyed env (em_key m) st st1" using keyed_prepare_message [OF p assms(2)] by simp
  also have "keyed env (em_key m) st1 st'"
    using r assms(2) keyed_copy_mem keyed_sum_mem keyed_answer_pulls
    by (cases "em_ops m") (auto simp: msg_ok_def)
  finally show ?thesis .
qed

lemma keyed_pop:
  assumes "i < length (sv_queues st)" and "WaitAndPop (sv_queues st ! i) = Some (m, q')"
  shows "keyed env (em_key m) st (st\<lparr>sv_queues := (sv_queues st)[i := q']\<rparr>)"
    and "server_ok env st \<Longrightarrow> msg_ok m \<and> pq_queue (sv_queues st ! i) = m # pq_queue q'"
proof -
  have p: "msg_ok m \<and> pq_queue (sv_queues st ! i) = m # pq_queue q' \<and> unscheduled q'" if "server_ok env st"
    using eq.pop_items [OF server_ok_queueD [OF that assms(1)] assms(2)]
      eq.pop_ok [OF server_ok_queueD [OF that assms(1)] assms(2)] server_ok_msgD [OF that assms(1), of m] by simp
  show "server_ok env st \<Longrightarrow> msg_ok m \<and> pq_queue (sv_queues st ! i) = m # pq_queue q'" using p by simp
  show "keyed env (em_key m) st (st\<lparr>sv_queues := (sv_queues st)[i := q']\<rparr>)"
  proof (cases "server_ok env st")
    case True
    then show ?thesis
      using assms(1) p server_ok_msgD [OF True assms(1)] by (intro keyed_set_queue) (auto simp: msgs_of_def)
  qed (simp add: keyed_def)
qed

lemma keyed_engine_turn:
  assumes "engine_turn env i st = Inr (on, st')" and "server_ok env st" and "msgs = pq_queue (sv_queues st ! i)"
  shows "if msgs = [] then st' = st else keyed env (em_key (hd msgs)) st st'"
proof -
  have i: "i < length (sv_queues st)"
    using assms(1) by (auto simp: engine_turn_def res_simps)
  note u = server_ok_queueD [OF assms(2) i]
  show ?thesis
  proof (cases "WaitAndPop (sv_queues st ! i)")
    case None
    then show ?thesis using assms(1,3) i eq.pop_none [OF u] by (simp add: engine_turn_def)
  next
    case (Some mq)
    obtain m q' where mq: "mq = (m, q')" by (cases mq)
    note pop = keyed_pop [OF i Some [unfolded mq], of env]
    have h: "msgs \<noteq> []" "hd msgs = m" and ok: "msg_ok m" using pop(2) [OF assms(2)] assms(3) by simp_all
    let ?st1 = "st\<lparr>sv_queues := (sv_queues st)[i := q']\<rparr>"
    have "st' = ?st1 \<or> process_message env i m ?st1 = Inr st'"
      using assms(1) i Some mq by (auto simp: engine_turn_def Let_def res_simps split: if_splits)
    then have "keyed env (em_key m) st st'"
      using pop(1) keyed_trans [OF pop(1) keyed_process_message [OF _ ok]] by blast
    then show ?thesis using h by simp
  qed
qed

lemma keyed_make_compressor:
  assumes "make_compressor env k kvs st = Inr st'"
  shows "keyed env k st st'"
proof (cases "sv_compressors st k")
  case None
  obtain c :: "compressor option" where
    "(case c of None \<Rightarrow> Inl (CheckFailed ''compressor_ptr != nullptr'') | Some c' \<Rightarrow> Inr (set_compressor k c' st)) = Inr st'"
    using assms unfolding make_compressor_def Let_def None option.case by (elim rbindE) (erule that)
  then show ?thesis by (cases c) (auto simp: keyed_set_compressor)
qed (use assms in \<open>simp add: make_compressor_def\<close>)

lemma keyed_register_compressor:
  assumes "register_compressor env k req kvs st = Inr st'"
  shows "keyed env k st st'"
proof -
  obtain st1 where m: "make_compressor env k kvs st = Inr st1"
    and r: "st' = add_request k req st1 \<or>
      (\<exists>rs st3. respond_all k rs (add_request k req st1) = Inr st3 \<and> st' = clear_request k st3)"
    using assms by (auto simp: register_compressor_def Let_def res_simps split: if_splits)
  have "keyed env k st (add_request k req st1)"
    using keyed_trans [OF keyed_make_compressor [OF m] keyed_add_request] .
  then show ?thesis
    using r keyed_respond_all keyed_clear_request keyed_trans by metis
qed

lemma keyed_set_store:
  "ba_tensor a = StoreMem k \<Longrightarrow> keyed env k st (st\<lparr>sv_mem := (sv_mem st)(k \<mapsto> b), sv_store := (sv_store st)(k \<mapsto> a)\<rparr>)"
  by (rule keyedI) (auto simp: part_simps server_ok_def)

lemma keyed_init_push:
  assumes "init_push env type k req recved len st = Inr st'"
  shows "keyed env k st st'"
proof (cases "server_ok env st")
  case True
  let ?u = "GetUpdateBuf k st"
  define st1 where "st1 = (if sv_sync st
      then set_update k (?u\<lparr>ub_merged := (ub_merged ?u)\<lparr>ba_len := len, ba_dtype := dht_dtype type\<rparr>\<rparr>) st else st)"
  define st2 where "st2 = add_request k req st1"
  have "keyed env k st st1"
    unfolding st1_def using server_ok_mergedD [OF True, of k] by (simp add: keyed_set_update)
  then have k2: "keyed env k st st2" unfolding st2_def by (rule keyed_trans [OF _ keyed_add_request])
  show ?thesis
  proof (cases "request_count k st2 < se_workers env")
    case True
    then have "st' = st2" using assms unfolding init_push_def Let_def st2_def st1_def by simp
    then show ?thesis using k2 by simp
  next
    case False
    obtain m st4 st5 where c: "copy_mem (StoreMem k) recved len (st2\<lparr>sv_mem := (sv_mem st2)(k \<mapsto> m),
        sv_store := (sv_store st2)(k \<mapsto> (GetStore k st2)
          \<lparr>ba_tensor := StoreMem k, ba_len := len, ba_dtype := dht_dtype type\<rparr>)\<rparr>) = Inr st4"
      and r: "respond_all k (ub_request (GetUpdateBuf k st4)) st4 = Inr st5" and st': "st' = clear_request k st5"
      using assms False unfolding init_push_def Let_def st2_def [symmetric] st1_def [symmetric]
      by (auto simp: res_simps)
    show ?thesis unfolding st'
      by (rule keyed_trans [OF k2 keyed_trans [OF keyed_set_store keyed_trans [OF keyed_copy_mem [OF c]
        keyed_trans [OF keyed_respond_all [OF r] keyed_clear_request]]]]) simp_all
  qed
qed (simp add: keyed_def)

lemma keyed_first_push:
  assumes "first_push env type k tid req kvs recved len st = Inr st'" and "ptr_of k recved"
  shows "keyed env k st st'"
proof (cases "server_ok env st")
  case True
  let ?u = "GetUpdateBuf k st"
  have "keyed env k st (set_update k (?u\<lparr>ub_merged := (ub_merged ?u)\<lparr>ba_tmp := kvs\<rparr>\<rparr>) st)"
    using server_ok_mergedD [OF True, of k] by (simp add: keyed_set_update)
  then show ?thesis
    using assms server_ok_storeD [OF True, of k]
    by (auto simp: first_push_def Let_def split: if_splits
      intro: keyed_trans keyed_send_message keyed_sum_mem)
qed (simp add: keyed_def)

lemma keyed_other_push:
  assumes "other_push env type k tid req kvs recved len st = Inr st'" and "ptr_of k recved"
  shows "keyed env k st st'"
proof (cases "server_ok env st")
  case True
  then show ?thesis
    using assms server_ok_mergedD [OF True, of k]
    by (auto simp: other_push_def Let_def res_simps split: if_splits intro: keyed_send_message keyed_sum_mem)
qed (simp add: keyed_def)

lemma keyed_ClearCounter: "keyed env k st (st\<lparr>sv_queues := (sv_queues st)[i := ClearCounter k (sv_queues st ! i)]\<rparr>)"
  if "i < length (sv_queues st)"
proof (cases "server_ok env st")
  case True
  then show ?thesis using server_ok_queueD [OF True that] by simp
qed (simp add: keyed_def)

lemma keyed_round_complete:
  assumes "round_complete tid type k len st = Inr st'"
  shows "keyed env k st st'"
proof (cases "server_ok env st")
  case True
  note p = server_ok_storeD [OF True, of k]
  show ?thesis
  proof (cases "sv_blocking st")
    case True
    then show ?thesis using assms p by (auto simp: round_complete_def intro: keyed_copy_mem)
  next
    case False
    then obtain st1 where s: "send_message tid type k (ba_tensor (GetStore k st)) ALL_RECV empty_kvs default_meta st = Inr st1"
      and t: "tid < length (sv_queues st1)"
      and st': "st' = st1\<lparr>sv_queues := (sv_queues st1)[tid := ClearCounter k (sv_queues st1 ! tid)]\<rparr>"
      using assms by (auto simp: round_complete_def res_simps)
    show ?thesis unfolding st' using keyed_trans [OF keyed_send_message [OF s p] keyed_ClearCounter [OF t]] .
  qed
qed (simp add: keyed_def)

lemma keyed_round_push:
  assumes "round_push env type k req kvs recved len st = Inr st'" and "ptr_of k recved"
  shows "keyed env k st st'"
proof -
  obtain tid st1 st2 st3 where t: "GetThreadID k len st = Inr (tid, st1)"
    and p: "(if request_count k st1 = 0 then first_push env type k tid req kvs recved len st1
            else other_push env type k tid req kvs recved len st1) = Inr st2"
    and s: "SendPushResponse k req (add_request k req st2) = Inr st3"
    and r: "(if sv_sync st3 \<and> request_count k st3 = se_workers env
       then rbind (round_complete tid type k len st3) (\<lambda>st4. Inr (clear_request k st4))
       else Inr (if sv_sync st3 then st3 else clear_request k st3)) = Inr st'"
    using assms(1) by (auto simp: round_push_def res_simps)
  have "keyed env k st st1" using keyed_GetThreadID [OF t] .
  also have "keyed env k st1 st2"
    using p assms(2) by (auto split: if_splits intro: keyed_first_push keyed_other_push)
  also have "keyed env k st2 (add_request k req st2)" by (rule keyed_add_request)
  also have "keyed env k \<dots> st3" using keyed_SendPushResponse [OF s] .
  also have "keyed env k st3 st'"
    using r by (auto simp: res_simps split: if_splits
      intro: keyed_clear_request keyed_trans [OF keyed_round_complete keyed_clear_request])
  finally show ?thesis .
qed

lemma keyed_handle_push:
  assumes "handle_push env type k req kvs st = Inr st'" and "ptr_of k (sa_data (kp_vals kvs))"
  shows "keyed env k st st'"
  using assms
  by (auto simp: handle_push_def Let_def res_simps split: if_splits intro: keyed_init_push keyed_round_push)

lemma keyed_handle_pull:
  assumes "handle_pull env k req st = Inr st'"
  shows "keyed env k st st'"
proof (cases "sv_blocking st \<or> \<not> sv_sync st")
  case True
  then show ?thesis using assms by (auto simp: handle_pull_def res_simps intro: keyed_SendPullResponse)
next
  case False
  then obtain tid st1 where t: "GetThreadID k 0 st = Inr (tid, st1)" and i: "tid < length (sv_flags st1)"
    and r: "(let tf1 = init_flags k (sv_flags st1 ! tid)
                in if map_at False (is_push_finished tf1) k \<and> km_sender req \<notin> map_at {} (seen_sender tf1) k
                  then rbind (SendPullResponse env k req st1) (\<lambda>st2.
                         let tf2 = count_pull k (km_sender req) tf1
                         in Inr (st2\<lparr>sv_flags := (sv_flags st2)
                                  [tid := if all_pulled env k tf2 then end_round k tf2 else tf2]\<rparr>))
                  else Inr (st1\<lparr>sv_flags := (sv_flags st1)
                              [tid := tf1\<lparr>q_pull_reqmeta := (q_pull_reqmeta tf1)
                                 (k \<mapsto> map_at [] (q_pull_reqmeta tf1) k @ [req])\<rparr>]\<rparr>)) = Inr st'"
    using assms by (auto simp: handle_pull_def res_simps)
  have "keyed env k st1 st'"
    using r i SendPullResponse_keeps
    by (auto simp: Let_def res_simps flags_of_other split: if_splits
      intro!: keyed_set_flags keyed_trans [OF keyed_SendPullResponse keyed_set_flags])
  then show ?thesis by (rule keyed_trans [OF keyed_GetThreadID [OF t]])
qed

subsection \<open>Steps and runs\<close>

text \<open>The key a step is for; the data of a request lies in memory of its own.\<close>

fun event_key :: "server_env \<Rightarrow> server_state \<Rightarrow> server_event \<Rightarrow> u64 option" where
  "event_key env st (Request req kvs) = Some (hd (kp_keys kvs) - key_base env)"
| "event_key env st (EngineTurn i) =
     (case pq_queue (sv_queues st ! i) of [] \<Rightarrow> None | m # ms \<Rightarrow> Some (em_key m))"

fun event_ok :: "server_event \<Rightarrow> bool" where
  "event_ok (Request req kvs) \<longleftrightarrow> (\<exists>b. sa_data (kp_vals kvs) = RecvMem b)"
| "event_ok (EngineTurn i) \<longleftrightarrow> True"

lemma DecodeKey_base: "DecodeKey (se_ranges env) (se_rank env) k = Inr k' \<Longrightarrow> k' = k - key_base env"
  by (auto simp: DecodeKey_def key_base_def res_simps split: prod.splits)

lemma keyed_handle:
  assumes "DeepIncServerHandle env req kvs st = Inr st'" and "event_ok (Request req kvs)"
  shows "keyed env (hd (kp_keys kvs) - key_base env) st st'"
proof -
  have p: "ptr_of k (sa_data (kp_vals kvs))" for k using assms(2) by auto
  obtain type k where "DecodeKey (se_ranges env) (se_rank env) (hd (kp_keys kvs)) = Inr k"
    and h: "(if requestType type = request_type_value kCompressedPushPull then register_compressor env k req kvs st
          else if km_push req then handle_push env type k req kvs st else handle_pull env k req st) = Inr st'"
    using assms(1) unfolding DeepIncServerHandle_def by (elim rbindE checkE) (erule that)
  moreover from this have "k = hd (kp_keys kvs) - key_base env" by (intro DecodeKey_base)
  ultimately show ?thesis
    using p by (auto split: if_splits intro: keyed_register_compressor keyed_handle_push keyed_handle_pull)
qed

lemma step_ok:
  assumes "server_step env e st = Inr st'" and "server_ok env st" and "event_ok e"
  shows "server_ok env st' \<and> modes st' = modes st \<and>
    (\<forall>k. event_key env st e \<noteq> Some k \<longrightarrow> key_state env k st' = key_state env k st)"
proof (cases e)
  case (Request req kvs)
  then have "keyed env (hd (kp_keys kvs) - key_base env) st st'"
    using assms keyed_handle by simp
  then show ?thesis using assms(2) Request by (simp add: keyed_def)
next
  case (EngineTurn i)
  obtain on where t: "engine_turn env i st = Inr (on, st')"
    using assms(1) EngineTurn by (auto simp: res_simps)
  show ?thesis
    using keyed_engine_turn [OF t assms(2) refl] assms(2) EngineTurn
    by (cases "pq_queue (sv_queues st ! i)") (simp_all add: keyed_def)
qed

lemma run_ok:
  assumes "server_run env es st = Inr st'" and "server_ok env st" and "\<forall>e \<in> set es. event_ok e"
  shows "server_ok env st' \<and> modes st' = modes st"
  using assms
proof (induction es arbitrary: st)
  case (Cons e es)
  then obtain st1 where s: "server_step env e st = Inr st1" and r: "server_run env es st1 = Inr st'"
    by (auto simp: res_simps)
  have "server_ok env st1 \<and> modes st1 = modes st" using step_ok [OF s] Cons.prems by simp
  then show ?case using Cons.IH [OF r] Cons.prems by simp
qed simp

text \<open>The keys the steps of a run are for.\<close>

fun run_keys :: "server_env \<Rightarrow> server_event list \<Rightarrow> server_state \<Rightarrow> u64 list" where
  "run_keys env [] st = []"
| "run_keys env (e # es) st =
     (case event_key env st e of None \<Rightarrow> [] | Some k \<Rightarrow> [k]) @
     (case server_step env e st of Inl x \<Rightarrow> [] | Inr st' \<Rightarrow> run_keys env es st')"

lemma run_leaves_key:
  assumes "server_run env es st = Inr st'" and "server_ok env st" and "\<forall>e \<in> set es. event_ok e"
    and "k \<notin> set (run_keys env es st)"
  shows "key_state env k st' = key_state env k st"
  using assms
proof (induction es arbitrary: st)
  case (Cons e es)
  then obtain st1 where s: "server_step env e st = Inr st1" and r: "server_run env es st1 = Inr st'"
    by (auto simp: res_simps)
  have "event_key env st e \<noteq> Some k" using Cons.prems(4) by auto
  then have "server_ok env st1" "key_state env k st1 = key_state env k st"
    using step_ok [OF s] Cons.prems(2,3) by simp_all
  then show ?case using Cons.IH [OF r] Cons.prems(3,4) s by simp
qed simp

lemma server_run_append: "server_run env (es @ fs) st = rbind (server_run env es st) (server_run env fs)"
proof (induction es arbitrary: st)
  case (Cons e es)
  then have "server_run env (es @ fs) = (\<lambda>s. rbind (server_run env es s) (server_run env fs))" by (rule ext)
  then show ?case by (simp add: rbind_assoc)
qed simp

subsection \<open>The started server\<close>

lemma start_fields:
  assumes "start_server genv server_globals = Inr st"
  shows "sv_flags st = []" "sv_blocking st = False" "sv_store st = Map.empty" "sv_update st = Map.empty"
    "sv_push_response st = Map.empty" "sv_pull_response st = Map.empty" "sv_hash_cache st = Map.empty"
    "sv_compressors st = Map.empty" "sv_mem st = Map.empty" "sv_sent st = []"
    "sv_acc_load st = replicate (sv_threads st) 0"
    "sv_queues st = (if sv_sync st then replicate (sv_threads st) (PriorityQueue (sv_schedule st)) else [])"
proof -
  obtain st1 where i: "init_global_env genv server_globals = Inr st1"
    and st: "st = (let st2 = st1\<lparr>sv_acc_load := sv_acc_load st1 @ replicate (sv_threads st1) 0\<rparr>
       in if sv_sync st2
          then st2\<lparr>sv_queues := sv_queues st2 @ replicate (sv_threads st2) (PriorityQueue (sv_schedule st2))\<rparr>
          else st2)"
    using assms unfolding start_server_def Let_def by (auto simp: rbind_eq_Inr)
  obtain log b r async n s where st1: "st1 = server_globals\<lparr>sv_log := log, sv_is_server := b,
      sv_preferred_rank := r, sv_sync := async, sv_threads := n, sv_schedule := s\<rparr>"
    using i unfolding init_global_env_def Let_def rbind_eq_Inr by blast
  show "sv_flags st = []" "sv_blocking st = False" "sv_store st = Map.empty" "sv_update st = Map.empty"
    "sv_push_response st = Map.empty" "sv_pull_response st = Map.empty" "sv_hash_cache st = Map.empty"
    "sv_compressors st = Map.empty" "sv_mem st = Map.empty" "sv_sent st = []"
    "sv_acc_load st = replicate (sv_threads st) 0"
    "sv_queues st = (if sv_sync st then replicate (sv_threads st) (PriorityQueue (sv_schedule st)) else [])"
    unfolding st st1 Let_def by (simp_all add: server_globals_def)
qed

lemma server_ok_start:
  assumes "start_server genv server_globals = Inr st" and "\<not> sv_schedule st"
  shows "server_ok env (st\<lparr>sv_flags := fl\<rparr>)"
  using start_fields [OF assms(1)] assms(2)
  by (auto simp: server_ok_def GetStore_def GetUpdateBuf_def null_array_def empty_update_def)

text \<open>The vectors of flags keep their length.\<close>

lemma flags_length:
  assumes "server_step env e st = Inr st'" and "server_ok env st" and "event_ok e"
  shows "length (sv_flags st') = length (sv_flags st)"
proof -
  obtain k where k: "event_key env st e \<noteq> Some k"
  proof (cases "event_key env st e")
    case (Some k0)
    then show ?thesis using that [of "k0 + 1"] by simp
  qed simp
  then have "key_state env k st' = key_state env k st" using step_ok [OF assms] by simp
  then have "map (flags_of k) (sv_flags st') = map (flags_of k) (sv_flags st)" by (simp add: key_state_def)
  then show ?thesis by (rule map_eq_imp_length_eq)
qed

lemma run_flags_length:
  assumes "server_run env es st = Inr st'" and "server_ok env st" and "\<forall>e \<in> set es. event_ok e"
  shows "length (sv_flags st') = length (sv_flags st)"
  using assms
proof (induction es arbitrary: st)
  case (Cons e es)
  then obtain st1 where s: "server_step env e st = Inr st1" and r: "server_run env es st1 = Inr st'"
    by (auto simp: res_simps)
  have "server_ok env st1" using step_ok [OF s] Cons.prems by simp
  then show ?case using Cons.IH [OF r] flags_length [OF s] Cons.prems by simp
qed simp

subsection \<open>Properties\<close>

definition demo_senv :: server_env where
  "demo_senv = \<lparr>se_cenv = demo_cenv, se_workers = 2, se_ranges = [(100, 200)], se_rank = 0, se_page = 4096\<rparr>"

definition demo_meta :: "bool \<Rightarrow> int \<Rightarrow> nat \<Rightarrow> kv_meta" where
  "demo_meta push sender n = \<lparr>km_cmd = 0, km_push = push, km_sender = sender, km_id = n\<rparr>"

definition demo_kvs :: "u64 \<Rightarrow> u8 list \<Rightarrow> kv_pairs" where
  "demo_kvs k b = \<lparr>kp_keys = [k + 100], kp_vals = \<lparr>sa_data = RecvMem b, sa_size = length b\<rparr>, kp_lens = [int (length b)]\<rparr>"

definition demo_started :: server_state where
  "demo_started = server_globals\<lparr>sv_acc_load := replicate 4 0, sv_queues := replicate 4 (PriorityQueue False)\<rparr>"

lemma demo_started: "start_server (\<lambda>_. None) server_globals = Inr demo_started"
  by (simp add: start_server_def init_global_env_def env_int_def demo_started_def server_globals_def Let_def)

lemma demo_type: "DepairDataHandleType 0 = Inr \<lparr>requestType = 0, dht_dtype = 0\<rparr>"
proof -
  have "isqrt_from 1 0 = 1" by (simp add: isqrt_from.simps)
  then show ?thesis by (simp add: DepairDataHandleType_def i32_def Let_def)
qed

text \<open>
  C12. Keys do not interfere: when a server was started without scheduling, whatever has run
  before, a run of requests and engine turns in any order leaves everything the server keeps for a
  key as it is (its buffer, compressor, counters, waiting pulls, thread, messages in all queues
  and answers) if none of the run's steps is for that key, and pointers and responses stay with
  their keys. With scheduling the queues reorder the messages of all keys, and this is not
  claimed.
\<close>

theorem keys_do_not_interfere:
  assumes "start_server genv server_globals = Inr st0" and "\<not> sv_schedule st0"
    and "server_run env es st0 = Inr st" and "\<forall>e \<in> set (es @ fs). event_ok e"
    and "server_run env fs st = Inr st'" and "k \<notin> set (run_keys env fs st)"
  shows "key_state env k st' = key_state env k st \<and> server_ok env st'"
proof -
  have "server_ok env st0" using server_ok_start [OF assms(1,2), of env "sv_flags st0"] by simp
  then have ok: "server_ok env st" using run_ok [OF assms(3)] assms(4) by simp
  then show ?thesis using run_leaves_key [OF assms(5) ok _ assms(6)] run_ok [OF assms(5) ok] assms(4) by simp
qed

theorem keys_do_not_interfere_witness:
  "\<exists>st'. server_run demo_senv [Request (demo_meta True 9 1) (demo_kvs 7 [1, 2, 3, 4]), EngineTurn 0] demo_started = Inr st' \<and>
     st' \<noteq> demo_started \<and> key_state demo_senv 8 st' = key_state demo_senv 8 demo_started"
proof -
  let ?e = "Request (demo_meta True 9 1) (demo_kvs 7 [1, 2, 3, 4])"
  obtain st1 where s: "server_step demo_senv ?e demo_started = Inr st1" and q: "pq_queue (sv_queues st1 ! 0) = []"
    and l: "length (sv_queues st1) = 4" and n: "sv_update st1 \<noteq> Map.empty"
    by (simp add: DeepIncServerHandle_def demo_type demo_meta_def demo_kvs_def demo_senv_def DecodeKey_def
      demo_started_def server_globals_def log_checks_def handle_push_def init_push_def GetStore_def null_array_def
      GetUpdateBuf_def empty_update_def add_request_def set_update_def request_count_def Let_def PriorityQueue_def)
  have t: "server_step demo_senv (EngineTurn 0) st1 = Inr st1"
    using q l by (simp add: engine_turn_def WaitAndPop_def)
  have r: "server_run demo_senv [] demo_started = Inr demo_started" by simp
  have f: "server_run demo_senv [?e, EngineTurn 0] demo_started = Inr st1" using s t by simp
  have "key_state demo_senv 8 st1 = key_state demo_senv 8 demo_started \<and> server_ok demo_senv st1"
    by (rule keys_do_not_interfere [OF demo_started _ r _ f])
      (use s q t in \<open>simp_all add: demo_started_def server_globals_def demo_kvs_def key_base_def demo_senv_def\<close>)
  moreover have "st1 \<noteq> demo_started" using n by (auto simp: demo_started_def server_globals_def)
  ultimately show ?thesis using f by blast
qed



end
