(* ===== verification/Server_Round.thy ===== *)
theory Server_Round
  imports Server_Keys
begin

section \<open>A push-pull round of one key\<close>

text \<open>
  The promise of the server about a key, as a small machine: pushes are queued as jobs, the engine
  does the jobs in order, pulls are answered once per round and sender, and the round is over when
  all workers have been answered. The server's step on the key is this machine's step, seen
  through the abstraction function \<open>round_of\<close>; what a round delivers is proved on the machine. The
  vectors of flags may have any length: an entry that is not there counts as a fresh one.
\<close>

subsection \<open>The machine\<close>

datatype job = CopyJob "u8 list" | SumJob int "u8 list" | DoneJob

record round_state =
  rd_pushed :: nat
  rd_todo :: "job list"
  rd_value :: "u8 list"
  rd_finished :: bool
  rd_waiting :: "kv_meta list"
  rd_seen :: "int set"
  rd_count :: nat
  rd_answers :: "(kv_meta \<times> u8 list) list"

definition close_round :: "round_state \<Rightarrow> round_state" where
  "close_round r = r\<lparr>rd_finished := False, rd_count := 0, rd_seen := {}\<rparr>"

definition give :: "kv_meta \<Rightarrow> u8 list \<Rightarrow> round_state \<Rightarrow> round_state" where
  "give m d r = r\<lparr>rd_answers := rd_answers r @ [(m, d)], rd_count := rd_count r + 1,
     rd_seen := insert (km_sender m) (rd_seen r)\<rparr>"

fun serve :: "nat \<Rightarrow> u8 list \<Rightarrow> kv_meta list \<Rightarrow> kv_meta list \<Rightarrow> round_state \<Rightarrow> round_state" where
  "serve N d kept [] r = r\<lparr>rd_waiting := kept\<rparr>"
| "serve N d kept (m # ms) r =
     (if km_sender m \<notin> rd_seen r
      then (if rd_count r + 1 = N then (close_round (give m d r))\<lparr>rd_waiting := kept @ ms\<rparr>
            else serve N d kept ms (give m d r))
      else if rd_count r = N then (close_round r)\<lparr>rd_waiting := kept @ m # ms\<rparr>
      else serve N d (kept @ [m]) ms r)"

datatype round_event = APush int "u8 list" | APull kv_meta | AEngine | AOther

definition push_round :: "nat \<Rightarrow> int \<Rightarrow> u8 list \<Rightarrow> round_state \<Rightarrow> round_state" where
  "push_round N dt b r =
     r\<lparr>rd_todo := rd_todo r @ [if rd_pushed r = 0 then CopyJob b else SumJob dt b] @
         (if rd_pushed r + 1 = N then [DoneJob] else []),
       rd_pushed := (if rd_pushed r + 1 = N then 0 else rd_pushed r + 1)\<rparr>"

definition pull_round :: "nat \<Rightarrow> nat \<Rightarrow> kv_meta \<Rightarrow> round_state \<Rightarrow> round_state" where
  "pull_round N len m r =
     (if rd_finished r \<and> km_sender m \<notin> rd_seen r
      then (let r' = give m (take len (rd_value r)) r in if rd_count r + 1 = N then close_round r' else r')
      else r\<lparr>rd_waiting := rd_waiting r @ [m]\<rparr>)"

fun do_job :: "server_env \<Rightarrow> nat \<Rightarrow> job \<Rightarrow> round_state \<Rightarrow> round_state res" where
  "do_job env len (CopyJob b) r = rbind (cpu_copy (rd_value r) b len) (\<lambda>v. Inr (r\<lparr>rd_value := v\<rparr>))"
| "do_job env len (SumJob dt b) r =
     rbind (reduce_switch dt (sum_into (ce_build (se_cenv env)) (ops_of (se_cenv env)) (rd_value r) b len))
       (\<lambda>v. Inr (r\<lparr>rd_value := v\<rparr>))"
| "do_job env len DoneJob r =
     Inr (serve (se_workers env) (take len (rd_value r)) [] (rd_waiting r) (r\<lparr>rd_finished := True\<rparr>))"

fun round_step :: "server_env \<Rightarrow> nat \<Rightarrow> round_event \<Rightarrow> round_state \<Rightarrow> round_state res" where
  "round_step env len (APush dt b) r = Inr (push_round (se_workers env) dt b r)"
| "round_step env len (APull m) r = Inr (pull_round (se_workers env) len m r)"
| "round_step env len AEngine r =
     (case rd_todo r of [] \<Rightarrow> Inr r | j # js \<Rightarrow> do_job env len j (r\<lparr>rd_todo := js\<rparr>))"
| "round_step env len AOther r = Inr r"

subsection \<open>The abstraction\<close>

definition recv_bytes :: "mem_ptr \<Rightarrow> u8 list" where
  "recv_bytes p = (case p of RecvMem b \<Rightarrow> b | _ \<Rightarrow> [])"

definition job_of :: "engine_msg \<Rightarrow> job" where
  "job_of m =
     (case em_ops m of
        COPY_FIRST \<Rightarrow> CopyJob (recv_bytes (em_src m))
      | SUM_RECV \<Rightarrow> SumJob (dht_dtype (em_type m)) (recv_bytes (em_src m))
      | _ \<Rightarrow> DoneJob)"

definition fresh_flags :: "bool option \<times> kv_meta list \<times> int set \<times> nat" where
  "fresh_flags = (None, [], {}, 0)"

definition msgs_at :: "key_state \<Rightarrow> engine_msg list" where
  "msgs_at ks = (case ks_thread ks of None \<Rightarrow> [] | Some t \<Rightarrow> ks_msgs ks ! t)"

definition vec_at :: "'a \<Rightarrow> 'a list \<Rightarrow> nat \<Rightarrow> 'a" where
  "vec_at d xs i = (if i < length xs then xs ! i else d)"

definition flags_at :: "key_state \<Rightarrow> bool option \<times> kv_meta list \<times> int set \<times> nat" where
  "flags_at ks = (case ks_thread ks of None \<Rightarrow> fresh_flags | Some t \<Rightarrow> vec_at fresh_flags (ks_flags ks) t)"

definition finished_flag :: "bool option \<Rightarrow> bool" where
  "finished_flag x = (case x of None \<Rightarrow> False | Some b \<Rightarrow> b)"

definition round_view :: "key_state \<Rightarrow> round_state" where
  "round_view ks =
     (case flags_at ks of (fin, w, seen, n) \<Rightarrow>
       \<lparr>rd_pushed = length (ub_request (ks_update ks)), rd_todo = map job_of (msgs_at ks),
        rd_value = (case ks_mem ks of None \<Rightarrow> [] | Some m \<Rightarrow> m), rd_finished = finished_flag fin,
        rd_waiting = w, rd_seen = seen, rd_count = n,
        rd_answers = map (\<lambda>r. (rp_meta r, rp_data r)) (ks_answers ks)\<rparr>)"

definition round_of :: "server_env \<Rightarrow> u64 \<Rightarrow> server_state \<Rightarrow> round_state" where
  "round_of env k st = round_view (key_state env k st)"

text \<open>
  The key is in use: its buffer is made, it has no compressor, its messages are in the queue of its
  thread and carry what they should, and the flags of other threads are untouched. The vectors of
  flags may have any length: the code never gives them one, so that they are empty in a server that
  was started, and a thread without an entry has the flags of a new one.
\<close>

definition job_msg :: "u64 \<Rightarrow> nat \<Rightarrow> engine_msg \<Rightarrow> bool" where
  "job_msg k len m \<longleftrightarrow> em_key m = k \<and> em_dst m = StoreMem k \<and> em_len m = len \<and>
     (em_ops m = ALL_RECV \<and> em_src m = StoreMem k \<or>
      em_ops m \<in> {COPY_FIRST, SUM_RECV} \<and> (\<exists>b. em_src m = RecvMem b))"

definition key_inv :: "u64 \<Rightarrow> nat \<Rightarrow> nat \<Rightarrow> key_state \<Rightarrow> bool" where
  "key_inv k n len ks \<longleftrightarrow>
     ba_tensor (ks_store ks) = StoreMem k \<and> ba_len (ks_store ks) = len \<and> ks_compressor ks = None \<and>
     (\<exists>v. ks_mem ks = Some v \<and> len \<le> length v) \<and> length (ks_msgs ks) = n \<and>
     (\<forall>t. ks_thread ks = Some t \<longrightarrow> t < n) \<and>
     (\<forall>i < n. ks_thread ks \<noteq> Some i \<longrightarrow> ks_msgs ks ! i = []) \<and>
     (\<forall>i < length (ks_flags ks). ks_thread ks \<noteq> Some i \<longrightarrow> ks_flags ks ! i = fresh_flags) \<and>
     (\<forall>m \<in> set (msgs_at ks). job_msg k len m) \<and>
     (fst (flags_at ks) = None \<longrightarrow> flags_at ks = fresh_flags) \<and>
     (fst (flags_at ks) = Some True \<longrightarrow>
        ba_tensor (ub_merged (ks_update ks)) = StoreMem k \<and> ba_len (ub_merged (ks_update ks)) = len)"

definition serving :: "server_env \<Rightarrow> u64 \<Rightarrow> nat \<Rightarrow> server_state \<Rightarrow> bool" where
  "serving env k len st \<longleftrightarrow> server_ok env st \<and> sv_sync st \<and> \<not> sv_blocking st \<and>
     key_inv k (sv_threads st) len (key_state env k st)"

subsection \<open>Effects on the own key\<close>

lemma ks_set_update: "key_state env k (set_update k u st) = (key_state env k st)\<lparr>ks_update := u\<rparr>"
  by (simp add: key_state_def set_update_def GetUpdateBuf_def GetStore_def answers_of_def)

lemma ks_update_of: "ks_update (key_state env k st) = GetUpdateBuf k st"
  by (simp add: key_state_def)

lemma ks_add_request:
  "key_state env k (add_request k req st) = (key_state env k st)
     \<lparr>ks_update := (GetUpdateBuf k st)\<lparr>ub_request := ub_request (GetUpdateBuf k st) @ [req]\<rparr>\<rparr>"
  by (simp add: add_request_def ks_set_update Let_def)

lemma ks_clear_request:
  "key_state env k (clear_request k st) = (key_state env k st)\<lparr>ks_update := (GetUpdateBuf k st)\<lparr>ub_request := []\<rparr>\<rparr>"
  by (simp add: clear_request_def ks_set_update)

lemma ks_write_mem:
  assumes "write_mem (StoreMem k) b st = Inr st'"
  shows "key_state env k st' = (key_state env k st)\<lparr>ks_mem := Some b\<rparr>"
  using assms by (auto simp: key_state_def GetUpdateBuf_def GetStore_def answers_of_def)

lemma ks_SendPushResponse:
  assumes "SendPushResponse k req st = Inr st'" and "server_ok env st"
  shows "key_state env k' st' = key_state env k' st"
proof -
  have r: "Response req empty_kvs s = Inr st' \<Longrightarrow> key_state env k' st' = key_state env k' s" for s
    by (auto simp: Response_def empty_kvs_def sarray_bytes_def key_state_def GetUpdateBuf_def GetStore_def answers_of_def)
  show ?thesis
  proof (cases "sv_push_response st k")
    case None
    then show ?thesis using assms(1) r
      by (auto simp: SendPushResponse_def key_state_def GetUpdateBuf_def GetStore_def answers_of_def)
  next
    case (Some x)
    then have "x = empty_kvs" by (rule server_ok_pushD [OF assms(2)])
    then show ?thesis using assms(1) r Some by (simp add: SendPushResponse_def)
  qed
qed

lemma ks_SendPullResponse:
  assumes "SendPullResponse env k req st = Inr st'" and "server_ok env st"
    and "ba_tensor (ub_merged (GetUpdateBuf k st)) = StoreMem k" and "ba_len (ub_merged (GetUpdateBuf k st)) = len"
    and "sv_mem st k = Some v"
  shows "\<exists>d ans pr. get_at v 0 len = Inr d \<and> rp_meta ans = req \<and> rp_data ans = d \<and>
    key_state env k st' = (key_state env k st)\<lparr>ks_pull_response := pr, ks_answers := ks_answers (key_state env k st) @ [ans]\<rparr>"
proof -
  have E: "\<exists>r. kp_keys r = [k + key_base env] \<and> Response req (r\<lparr>kp_lens := [to_i32 len],
      kp_vals := \<lparr>sa_data = StoreMem k, sa_size = len\<rparr>\<rparr>) (st\<lparr>sv_pull_response := (sv_pull_response st)
      (k \<mapsto> r\<lparr>kp_lens := [to_i32 len], kp_vals := \<lparr>sa_data = StoreMem k, sa_size = len\<rparr>\<rparr>)\<rparr>) = Inr st'"
  proof (cases "sv_pull_response st k")
    case None
    then obtain k' where k': "EncodeKey (se_ranges env) (se_rank env) k = Inr k'"
      using assms(1) by (auto simp: SendPullResponse_def Let_def res_simps)
    then show ?thesis using assms(1,3,4) None EncodeKey_base [OF k']
      by (intro exI [of _ "empty_kvs\<lparr>kp_keys := [k']\<rparr>"]) (auto simp: SendPullResponse_def Let_def)
  next
    case (Some r)
    then show ?thesis using assms(1,3,4) server_ok_pullD [OF assms(2) Some]
      by (intro exI [of _ r]) (auto simp: SendPullResponse_def Let_def)
  qed
  then obtain r where r: "kp_keys r = [k + key_base env]" and R: "Response req (r\<lparr>kp_lens := [to_i32 len],
      kp_vals := \<lparr>sa_data = StoreMem k, sa_size = len\<rparr>\<rparr>) (st\<lparr>sv_pull_response := (sv_pull_response st)
      (k \<mapsto> r\<lparr>kp_lens := [to_i32 len], kp_vals := \<lparr>sa_data = StoreMem k, sa_size = len\<rparr>\<rparr>)\<rparr>) = Inr st'" by blast
  have g: "get_at v 0 0 = Inr []" by (simp add: get_at_def)
  obtain d where d: "get_at v 0 len = Inr d" and st': "st' = st\<lparr>sv_pull_response := (sv_pull_response st)
      (k \<mapsto> r\<lparr>kp_lens := [to_i32 len], kp_vals := \<lparr>sa_data = StoreMem k, sa_size = len\<rparr>\<rparr>),
      sv_sent := sv_sent st @ [\<lparr>rp_meta = req, rp_keys = kp_keys r, rp_lens = [to_i32 len], rp_data = d\<rparr>]\<rparr>"
    using R assms(5) g by (auto simp: Response_def sarray_bytes_def res_simps split: if_splits)
  show ?thesis
    using d r unfolding st'
    by (intro exI [of _ d] exI [of _ "\<lparr>rp_meta = req, rp_keys = kp_keys r, rp_lens = [to_i32 len], rp_data = d\<rparr>"])
      (auto simp: key_state_def GetUpdateBuf_def GetStore_def answers_of_def)
qed

lemma ks_push_to:
  assumes "push_to t m st = Inr st'" and "em_key m = k" and "server_ok env st"
  shows "t < length (sv_queues st) \<and> key_state env k st' =
    (key_state env k st)\<lparr>ks_msgs := (ks_msgs (key_state env k st))[t := ks_msgs (key_state env k st) ! t @ [m]]\<rparr>"
proof -
  have t: "t < length (sv_queues st)" and st': "st' = st\<lparr>sv_queues := (sv_queues st)[t := Push m (sv_queues st ! t)]\<rparr>"
    using assms(1) by (auto simp: push_to_def res_simps)
  have "msgs_of k (Push m (sv_queues st ! t)) = msgs_of k (sv_queues st ! t) @ [m]"
    using eq.push_items [OF server_ok_queueD [OF assms(3) t]] assms(2) by (simp add: msgs_of_def)
  then show ?thesis
    using t unfolding st' by (simp add: key_state_def GetUpdateBuf_def GetStore_def answers_of_def map_update)
qed

lemma ks_timestamp: "key_state env k (st\<lparr>sv_timestamp := x\<rparr>) = key_state env k st"
  by (simp add: key_state_def GetUpdateBuf_def GetStore_def answers_of_def)

lemma ks_send_message:
  assumes "send_message t type k src ops kvs req st = Inr st'" and "server_ok env st"
  shows "\<exists>m. em_key m = k \<and> em_dst m = ba_tensor (GetStore k st) \<and> em_src m = src \<and> em_len m = ba_len (GetStore k st) \<and>
    em_ops m = ops \<and> em_type m = type \<and> t < length (sv_queues st) \<and> key_state env k st' =
      (key_state env k st)\<lparr>ks_msgs := (ks_msgs (key_state env k st))[t := ks_msgs (key_state env k st) ! t @ [m]]\<rparr>"
proof -
  let ?st1 = "st\<lparr>sv_timestamp := sv_timestamp st + 1\<rparr>"
  let ?m = "\<lparr>em_id = sv_timestamp st, em_type = type, em_key = k, em_dst = ba_tensor (GetStore k st), em_src = src,
    em_len = ba_len (GetStore k st), em_ops = ops, em_sarray = kvs, em_req_meta = req\<rparr>"
  have p: "push_to t ?m ?st1 = Inr st'" using assms(1) by (simp add: send_message_def Let_def)
  have "server_ok env ?st1" using assms(2) by (simp add: server_ok_def GetStore_def GetUpdateBuf_def)
  from ks_push_to [OF p _ this] show ?thesis by (intro exI [of _ ?m]) (simp add: ks_timestamp)
qed

lemma ks_ClearCounter:
  assumes "server_ok env st" and "t < length (sv_queues st)"
  shows "st\<lparr>sv_queues := (sv_queues st)[t := ClearCounter k (sv_queues st ! t)]\<rparr> = st"
  using server_ok_queueD [OF assms] by simp

subsection \<open>Pushes\<close>

lemma key_inv_thread: "key_inv k n len ks \<Longrightarrow> ks_thread ks = Some t \<Longrightarrow> t < n"
  by (simp add: key_inv_def)

text \<open>Getting a thread changes nothing the machine sees.\<close>

lemma own_thread:
  assumes "GetThreadID k x st = Inr (t, st1)" and "serving env k len st"
  shows "serving env k len st1 \<and> round_of env k st1 = round_of env k st \<and> sv_hash_cache st1 k = Some t \<and>
    t < sv_threads st \<and> GetUpdateBuf k st1 = GetUpdateBuf k st"
proof (cases "sv_hash_cache st k")
  case (Some t')
  then have "st1 = st" "t' = t" using assms(1) by (auto simp: GetThreadID_def)
  moreover have "t' < sv_threads st"
    using assms(2) Some key_inv_thread by (auto simp: serving_def key_state_def)
  ultimately show ?thesis using assms(2) Some by simp
next
  case None
  let ?ks = "key_state env k st"
  have st1: "st1 = st\<lparr>sv_acc_load := sv_acc_load st1, sv_hash_cache := (sv_hash_cache st)(k \<mapsto> t)\<rparr>" and t: "t < sv_threads st"
    using assms(1) None by (auto simp: GetThreadID_def Let_def res_simps)
  have ks: "key_state env k st1 = ?ks\<lparr>ks_thread := Some t\<rparr>"
    by (subst st1) (simp add: key_state_def GetUpdateBuf_def GetStore_def answers_of_def)
  have n: "ks_thread ?ks = None" using None by (simp add: key_state_def)
  have inv: "key_inv k (sv_threads st) len ?ks" using assms(2) by (simp add: serving_def)
  then have e: "ks_msgs ?ks ! t = []" "vec_at fresh_flags (ks_flags ?ks) t = fresh_flags"
    using n t by (auto simp: key_inv_def vec_at_def)
  then have at: "msgs_at (?ks\<lparr>ks_thread := Some t\<rparr>) = msgs_at ?ks" "flags_at (?ks\<lparr>ks_thread := Some t\<rparr>) = flags_at ?ks"
    by (simp_all add: msgs_at_def flags_at_def n)
  have "key_inv k (sv_threads st) len (?ks\<lparr>ks_thread := Some t\<rparr>)"
    using inv t n unfolding key_inv_def at by simp
  moreover have "round_view (?ks\<lparr>ks_thread := Some t\<rparr>) = round_view ?ks"
    unfolding round_view_def at by simp
  moreover have "keyed env k st st1" by (rule keyed_GetThreadID [OF assms(1)])
  moreover have "sv_hash_cache st1 k = Some t" using arg_cong [OF st1, of sv_hash_cache] by simp
  moreover have "GetUpdateBuf k st1 = GetUpdateBuf k st" using arg_cong [OF ks, of ks_update] by (simp add: ks_update_of)
  ultimately show ?thesis
    using assms(2) t ks by (simp add: serving_def keyed_def round_of_def modes_def)
qed

lemma inv_append:
  assumes "key_inv k n len ks" and "ks_thread ks = Some t" and "job_msg k len m"
  shows "key_inv k n len (ks\<lparr>ks_msgs := (ks_msgs ks)[t := ks_msgs ks ! t @ [m]]\<rparr>)"
    and "round_view (ks\<lparr>ks_msgs := (ks_msgs ks)[t := ks_msgs ks ! t @ [m]]\<rparr>) =
      (round_view ks)\<lparr>rd_todo := rd_todo (round_view ks) @ [job_of m]\<rparr>"
proof -
  let ?ks = "ks\<lparr>ks_msgs := (ks_msgs ks)[t := ks_msgs ks ! t @ [m]]\<rparr>"
  have t: "t < length (ks_msgs ks)" using assms(1,2) by (simp add: key_inv_def)
  then have m: "msgs_at ?ks = msgs_at ks @ [m]" using assms(2) by (simp add: msgs_at_def)
  have f: "flags_at ?ks = flags_at ks" by (simp add: flags_at_def split: option.splits)
  show "key_inv k n len ?ks"
    using assms unfolding key_inv_def m f by (auto simp: nth_list_update)
  show "round_view ?ks = (round_view ks)\<lparr>rd_todo := rd_todo (round_view ks) @ [job_of m]\<rparr>"
    unfolding round_view_def m f by (simp split: prod.splits)
qed

lemma inv_update:
  assumes "key_inv k n len ks" and "ba_tensor (ub_merged u) = ba_tensor (ub_merged (ks_update ks))"
    and "ba_len (ub_merged u) = ba_len (ub_merged (ks_update ks))"
  shows "key_inv k n len (ks\<lparr>ks_update := u\<rparr>)"
    and "round_view (ks\<lparr>ks_update := u\<rparr>) = (round_view ks)\<lparr>rd_pushed := length (ub_request u)\<rparr>"
proof -
  have e: "msgs_at (ks\<lparr>ks_update := u\<rparr>) = msgs_at ks" "flags_at (ks\<lparr>ks_update := u\<rparr>) = flags_at ks"
    by (simp_all add: msgs_at_def flags_at_def split: option.splits)
  show "key_inv k n len (ks\<lparr>ks_update := u\<rparr>)"
    using assms unfolding key_inv_def e by simp
  show "round_view (ks\<lparr>ks_update := u\<rparr>) = (round_view ks)\<lparr>rd_pushed := length (ub_request u)\<rparr>"
    unfolding round_view_def e by (simp split: prod.splits)
qed

lemma serving_keyed:
  assumes "serving env k len st" and "keyed env k st st'" and "key_inv k (sv_threads st) len (key_state env k st')"
  shows "serving env k len st'"
  using assms by (simp add: serving_def keyed_def modes_def)

lemma own_update:
  assumes "serving env k len st" and "ba_tensor (ub_merged u) = ba_tensor (ub_merged (GetUpdateBuf k st))"
    and "ba_len (ub_merged u) = ba_len (ub_merged (GetUpdateBuf k st))"
  shows "serving env k len (set_update k u st)"
    and "round_of env k (set_update k u st) = (round_of env k st)\<lparr>rd_pushed := length (ub_request u)\<rparr>"
proof -
  have ok: "server_ok env st" and inv: "key_inv k (sv_threads st) len (key_state env k st)"
    using assms(1) by (simp_all add: serving_def)
  have "ptr_of k (ba_tensor (ub_merged u))" using server_ok_mergedD [OF ok] assms(2) by simp
  then have "keyed env k st (set_update k u st)" by (rule keyed_set_update)
  with serving_keyed [OF assms(1) this] inv_update(1) [OF inv, of u] assms(2,3)
  show "serving env k len (set_update k u st)" by (simp add: ks_set_update ks_update_of)
  show "round_of env k (set_update k u st) = (round_of env k st)\<lparr>rd_pushed := length (ub_request u)\<rparr>"
    using inv_update(2) [OF inv, of u] assms(2,3) by (simp add: round_of_def ks_set_update ks_update_of)
qed

lemma own_send:
  assumes "send_message t type k src ops kvs req st = Inr st'" and "serving env k len st"
    and "sv_hash_cache st k = Some t"
    and "ops = ALL_RECV \<and> src = StoreMem k \<or> ops \<in> {COPY_FIRST, SUM_RECV} \<and> (\<exists>b. src = RecvMem b)"
  shows "serving env k len st'"
    and "round_of env k st' = (round_of env k st)\<lparr>rd_todo := rd_todo (round_of env k st) @
      [case ops of COPY_FIRST \<Rightarrow> CopyJob (recv_bytes src) | SUM_RECV \<Rightarrow> SumJob (dht_dtype type) (recv_bytes src) | _ \<Rightarrow> DoneJob]\<rparr>"
    and "GetUpdateBuf k st' = GetUpdateBuf k st" and "t < length (sv_queues st')" and "modes st' = modes st"
    and "GetStore k st' = GetStore k st" and "sv_hash_cache st' k = Some t"
proof -
  let ?ks = "key_state env k st"
  have ok: "server_ok env st" and inv: "key_inv k (sv_threads st) len ?ks" using assms(2) by (simp_all add: serving_def)
  then obtain m where m: "em_key m = k" "em_dst m = ba_tensor (GetStore k st)" "em_src m = src"
      "em_len m = ba_len (GetStore k st)" "em_ops m = ops" "em_type m = type" and t: "t < length (sv_queues st)"
    and ks: "key_state env k st' = ?ks\<lparr>ks_msgs := (ks_msgs ?ks)[t := ks_msgs ?ks ! t @ [m]]\<rparr>"
    using ks_send_message [OF assms(1) ok] by blast
  have s: "ks_store ?ks = GetStore k st" "ks_thread ?ks = Some t" using assms(3) by (simp_all add: key_state_def)
  then have j: "job_msg k len m"
    using inv m assms(4) unfolding job_msg_def key_inv_def by auto
  have p: "ptr_of k src" using assms(4) by auto
  note a = inv_append [OF inv s(2) j]
  show "serving env k len st'"
    using serving_keyed [OF assms(2) keyed_send_message [OF assms(1) p]] a(1) ks by simp
  show "round_of env k st' = (round_of env k st)\<lparr>rd_todo := rd_todo (round_of env k st) @
      [case ops of COPY_FIRST \<Rightarrow> CopyJob (recv_bytes src) | SUM_RECV \<Rightarrow> SumJob (dht_dtype type) (recv_bytes src) | _ \<Rightarrow> DoneJob]\<rparr>"
    using a(2) ks m by (cases ops) (simp_all add: round_of_def job_of_def)
  show "GetUpdateBuf k st' = GetUpdateBuf k st" using arg_cong [OF ks, of ks_update] by (simp add: ks_update_of)
  show "GetStore k st' = GetStore k st" using arg_cong [OF ks, of ks_store] by (simp add: key_state_def)
  show "sv_hash_cache st' k = Some t" using arg_cong [OF ks, of ks_thread] assms(3) by (simp add: key_state_def)
  show "modes st' = modes st" using keyed_send_message [OF assms(1) p, of env] ok by (simp add: keyed_def)
  have "length (ks_msgs (key_state env k st')) = length (ks_msgs ?ks)" using ks by simp
  then show "t < length (sv_queues st')" using t by (simp add: key_state_def)
qed

lemma own_SendPushResponse:
  assumes "SendPushResponse k req st = Inr st'" and "serving env k len st"
  shows "serving env k len st'" and "round_of env k st' = round_of env k st"
    and "GetUpdateBuf k st' = GetUpdateBuf k st" and "modes st' = modes st" and "GetStore k st' = GetStore k st"
    and "sv_hash_cache st' k = sv_hash_cache st k"
proof -
  have ok: "server_ok env st" using assms(2) by (simp add: serving_def)
  have ks: "key_state env k st' = key_state env k st" by (rule ks_SendPushResponse [OF assms(1) ok])
  note kd = keyed_SendPushResponse [OF assms(1), of env]
  show "modes st' = modes st" using kd ok by (simp add: keyed_def)
  show "serving env k len st'" using serving_keyed [OF assms(2) kd] ks assms(2) by (simp add: serving_def)
  show "round_of env k st' = round_of env k st" using ks by (simp add: round_of_def)
  show "GetUpdateBuf k st' = GetUpdateBuf k st" using arg_cong [OF ks, of ks_update] by (simp add: ks_update_of)
  show "GetStore k st' = GetStore k st" "sv_hash_cache st' k = sv_hash_cache st k"
    using arg_cong [OF ks, of ks_store] arg_cong [OF ks, of ks_thread] by (simp_all add: key_state_def)
qed

lemma own_round_push:
  assumes "round_push env type k req kvs (RecvMem b) x st = Inr st'" and "serving env k len st"
  shows "serving env k len st'"
    and "round_of env k st' = push_round (se_workers env) (dht_dtype type) b (round_of env k st)"
proof -
  let ?N = "se_workers env" and ?r = "round_of env k st"
  obtain t st1 st2 st3 where g: "GetThreadID k x st = Inr (t, st1)"
    and p: "(if request_count k st1 = 0 then first_push env type k t req kvs (RecvMem b) x st1
            else other_push env type k t req kvs (RecvMem b) x st1) = Inr st2"
    and q: "SendPushResponse k req (add_request k req st2) = Inr st3"
    and f: "(if sv_sync st3 \<and> request_count k st3 = ?N
       then rbind (round_complete t type k x st3) (\<lambda>st4. Inr (clear_request k st4))
       else Inr (if sv_sync st3 then st3 else clear_request k st3)) = Inr st'"
    using assms(1) by (auto simp: round_push_def res_simps)
  note g' = own_thread [OF g assms(2)]
  have sync: "sv_sync st1" "\<not> sv_blocking st1" using g' by (auto simp: serving_def)
  have pr: "rd_pushed (round_of env k s) = request_count k s" for s
    by (simp add: round_of_def round_view_def request_count_def ks_update_of split: prod.splits)
  have n0: "request_count k st1 = rd_pushed ?r" using g' pr [of st1] by simp
  define j where "j = (if rd_pushed ?r = 0 then CopyJob b else SumJob (dht_dtype type) b)"
  have two: "serving env k len st2 \<and> round_of env k st2 = ?r\<lparr>rd_todo := rd_todo ?r @ [j]\<rparr> \<and>
      ub_request (GetUpdateBuf k st2) = ub_request (GetUpdateBuf k st) \<and> modes st2 = modes st1 \<and>
      sv_hash_cache st2 k = Some t"
  proof (cases "rd_pushed ?r = 0")
    case True
    let ?u = "(GetUpdateBuf k st1)\<lparr>ub_merged := (ub_merged (GetUpdateBuf k st1))\<lparr>ba_tmp := kvs\<rparr>\<rparr>"
    have u: "serving env k len (set_update k ?u st1)"
      "round_of env k (set_update k ?u st1) = (round_of env k st1)\<lparr>rd_pushed := length (ub_request ?u)\<rparr>"
      using own_update [of env k len st1 ?u] g' by simp_all
    have s: "send_message t type k (RecvMem b) COPY_FIRST kvs req (set_update k ?u st1) = Inr st2"
      using p True n0 sync by (simp add: first_push_def Let_def)
    have "sv_hash_cache (set_update k ?u st1) k = Some t" using g' by (simp add: set_update_def)
    note o = own_send [OF s u(1) this]
    have "length (ub_request ?u) = rd_pushed (round_of env k st1)" using pr [of st1] by (simp add: request_count_def)
    then have "round_of env k (set_update k ?u st1) = ?r" using u(2) g' by simp
    moreover have "GetUpdateBuf k (set_update k ?u st1) = ?u" "modes (set_update k ?u st1) = modes st1"
      by (simp_all add: GetUpdateBuf_def set_update_def modes_def)
    ultimately show ?thesis using o g' True by (simp add: j_def recv_bytes_def)
  next
    case False
    then have s: "send_message t type k (RecvMem b) SUM_RECV kvs req st1 = Inr st2"
      using p n0 sync by (simp add: other_push_def)
    have "serving env k len st1" "sv_hash_cache st1 k = Some t" using g' by simp_all
    from own_send [OF s this] show ?thesis using g' False by (simp add: j_def recv_bytes_def)
  qed
  let ?u = "(GetUpdateBuf k st2)\<lparr>ub_request := ub_request (GetUpdateBuf k st2) @ [req]\<rparr>"
  have a: "add_request k req st2 = set_update k ?u st2" by (simp add: add_request_def Let_def)
  have three: "serving env k len (set_update k ?u st2)"
    "round_of env k (set_update k ?u st2) = (round_of env k st2)\<lparr>rd_pushed := rd_pushed ?r + 1\<rparr>"
    using own_update [of env k len st2 ?u] two pr [of st] by (simp_all add: request_count_def)
  note o3 = own_SendPushResponse [OF q [unfolded a] three(1)]
  have c3: "request_count k st3 = rd_pushed ?r + 1" using o3(2) three(2) pr [of st3] by simp
  have r3: "round_of env k st3 = ?r\<lparr>rd_todo := rd_todo ?r @ [j], rd_pushed := rd_pushed ?r + 1\<rparr>"
    using o3(2) three(2) two by simp
  have m3: "sv_sync st3" "\<not> sv_blocking st3" using o3(1) by (simp_all add: serving_def)
  have h3: "sv_hash_cache st3 k = Some t" using o3(6) two by (simp add: set_update_def)
  have "serving env k len st' \<and> round_of env k st' = push_round ?N (dht_dtype type) b ?r"
  proof (cases "rd_pushed ?r + 1 = ?N")
    case True
    then obtain st4 st5 where s: "send_message t type k (ba_tensor (GetStore k st3)) ALL_RECV empty_kvs default_meta st3 = Inr st4"
      and t4: "t < length (sv_queues st4)"
      and st5: "st5 = st4\<lparr>sv_queues := (sv_queues st4)[t := ClearCounter k (sv_queues st4 ! t)]\<rparr>"
      and st': "st' = clear_request k st5"
      using f c3 m3 by (auto simp: round_complete_def res_simps)
    have "ba_tensor (GetStore k st3) = StoreMem k"
      using o3(1) by (simp add: serving_def key_inv_def key_state_def)
    note o4 = own_send [OF s o3(1) h3, unfolded this]
    have "server_ok env st4" using o4(1) by (simp add: serving_def)
    then have "st5 = st4" unfolding st5 using t4 by (rule ks_ClearCounter)
    then have st': "st' = set_update k ((GetUpdateBuf k st4)\<lparr>ub_request := []\<rparr>) st4"
      using st' by (simp add: clear_request_def)
    show ?thesis
      using own_update [of env k len st4 "(GetUpdateBuf k st4)\<lparr>ub_request := []\<rparr>"] o4(1,2) r3 True
      unfolding st' by (simp add: push_round_def j_def)
  next
    case False
    then have "st' = st3" using f c3 m3 by simp
    then show ?thesis using o3(1) r3 False by (simp add: push_round_def j_def)
  qed
  then show "serving env k len st'" "round_of env k st' = push_round ?N (dht_dtype type) b ?r" by simp_all
qed

subsection \<open>Pulls\<close>

lemma ks_set_flags:
  "key_state env k (st\<lparr>sv_flags := (sv_flags st)[t := tf]\<rparr>) =
     (key_state env k st)\<lparr>ks_flags := (ks_flags (key_state env k st))[t := flags_of k tf]\<rparr>"
  by (simp add: key_state_def GetUpdateBuf_def GetStore_def answers_of_def map_update)

lemma inv_flags:
  assumes "key_inv k n len ks" and "ks_thread ks = Some t" and "fin \<noteq> None" and t: "t < length (ks_flags ks)"
    and "fin = Some True \<Longrightarrow> ba_tensor (ub_merged (ks_update ks)) = StoreMem k \<and> ba_len (ub_merged (ks_update ks)) = len"
  shows "key_inv k n len (ks\<lparr>ks_flags := (ks_flags ks)[t := (fin, w, seen, c)]\<rparr>)"
    and "round_view (ks\<lparr>ks_flags := (ks_flags ks)[t := (fin, w, seen, c)]\<rparr>) =
      (round_view ks)\<lparr>rd_finished := finished_flag fin, rd_waiting := w, rd_seen := seen, rd_count := c\<rparr>"
proof -
  let ?ks = "ks\<lparr>ks_flags := (ks_flags ks)[t := (fin, w, seen, c)]\<rparr>"
  have f: "flags_at ?ks = (fin, w, seen, c)" using t assms(2) by (simp add: flags_at_def vec_at_def)
  have m: "msgs_at ?ks = msgs_at ks" by (simp add: msgs_at_def split: option.splits)
  show "key_inv k n len ?ks"
    using assms unfolding key_inv_def m f by (auto simp: nth_list_update)
  show "round_view ?ks = (round_view ks)
      \<lparr>rd_finished := finished_flag fin, rd_waiting := w, rd_seen := seen, rd_count := c\<rparr>"
    unfolding round_view_def m f by (simp split: prod.splits)
qed

lemma inv_answers:
  assumes "key_inv k n len ks"
  shows "key_inv k n len (ks\<lparr>ks_pull_response := pr, ks_answers := a\<rparr>)"
    and "round_view (ks\<lparr>ks_pull_response := pr, ks_answers := a\<rparr>) =
      (round_view ks)\<lparr>rd_answers := map (\<lambda>r. (rp_meta r, rp_data r)) a\<rparr>"
proof -
  have e: "msgs_at (ks\<lparr>ks_pull_response := pr, ks_answers := a\<rparr>) = msgs_at ks"
    "flags_at (ks\<lparr>ks_pull_response := pr, ks_answers := a\<rparr>) = flags_at ks"
    by (simp_all add: msgs_at_def flags_at_def split: option.splits)
  show "key_inv k n len (ks\<lparr>ks_pull_response := pr, ks_answers := a\<rparr>)"
    using assms unfolding key_inv_def e by simp
  show "round_view (ks\<lparr>ks_pull_response := pr, ks_answers := a\<rparr>) =
      (round_view ks)\<lparr>rd_answers := map (\<lambda>r. (rp_meta r, rp_data r)) a\<rparr>"
    unfolding round_view_def e by (simp split: prod.splits)
qed

text \<open>The flags of the key in its thread, as the machine sees them.\<close>

lemma view_flags:
  assumes "ks_thread ks = Some t" and "t < length (ks_flags ks)" and "ks_flags ks ! t = (fin, w, seen, c)"
  shows "rd_finished (round_view ks) = finished_flag fin" "rd_waiting (round_view ks) = w"
    "rd_seen (round_view ks) = seen" "rd_count (round_view ks) = c"
  using assms by (simp_all add: round_view_def flags_at_def vec_at_def)

lemma view_mem: "ks_mem ks = Some v \<Longrightarrow> rd_value (round_view ks) = v"
  by (simp add: round_view_def split: prod.splits)

lemma init_flags_of:
  assumes "flags_of k tf = (fin, w, seen, c)" and "fin = None \<Longrightarrow> w = [] \<and> seen = {} \<and> c = 0"
  shows "flags_of k (init_flags k tf) = (Some (finished_flag fin), w, seen, c)"
  using assms by (auto simp: flags_of_def init_flags_def finished_flag_def)

lemma own_pull_response:
  assumes "SendPullResponse env k req st = Inr st'" and "serving env k len st"
    and "ba_tensor (ub_merged (GetUpdateBuf k st)) = StoreMem k" and "ba_len (ub_merged (GetUpdateBuf k st)) = len"
  shows "serving env k len st'"
    and "round_of env k st' = (round_of env k st)\<lparr>rd_answers := rd_answers (round_of env k st) @
      [(req, take len (rd_value (round_of env k st)))]\<rparr>"
    and "GetUpdateBuf k st' = GetUpdateBuf k st" "sv_hash_cache st' k = sv_hash_cache st k" "modes st' = modes st"
proof -
  let ?ks = "key_state env k st"
  have ok: "server_ok env st" and inv: "key_inv k (sv_threads st) len ?ks" using assms(2) by (simp_all add: serving_def)
  then obtain v where v: "ks_mem ?ks = Some v" "len \<le> length v" by (auto simp: key_inv_def)
  then have sv: "sv_mem st k = Some v" by (simp add: key_state_def)
  obtain d ans pr where d: "get_at v 0 len = Inr d" "rp_meta ans = req" "rp_data ans = d"
    and ks: "key_state env k st' = ?ks\<lparr>ks_pull_response := pr, ks_answers := ks_answers ?ks @ [ans]\<rparr>"
    using ks_SendPullResponse [OF assms(1) ok assms(3,4) sv] by blast
  have d': "d = take len v" using d(1) v(2) by (simp add: get_at_def)
  note a = inv_answers [OF inv, where pr = pr and a = "ks_answers ?ks @ [ans]"]
  show "serving env k len st'"
    using serving_keyed [OF assms(2) keyed_SendPullResponse [OF assms(1)]] a(1) ks by simp
  have "rd_answers (round_view ?ks) = map (\<lambda>r. (rp_meta r, rp_data r)) (ks_answers ?ks)"
    by (simp add: round_view_def split: prod.splits)
  then show "round_of env k st' = (round_of env k st)\<lparr>rd_answers := rd_answers (round_of env k st) @
      [(req, take len (rd_value (round_of env k st)))]\<rparr>"
    using a(2) ks d d' view_mem [OF v(1)] by (simp add: round_of_def)
  show "GetUpdateBuf k st' = GetUpdateBuf k st" using arg_cong [OF ks, of ks_update] by (simp add: ks_update_of)
  show "sv_hash_cache st' k = sv_hash_cache st k" using arg_cong [OF ks, of ks_thread] by (simp add: key_state_def)
  show "modes st' = modes st" using keyed_SendPullResponse [OF assms(1)] ok by (simp add: keyed_def)
qed

lemma own_set_flags:
  assumes "serving env k len st" and "sv_hash_cache st k = Some t" and "flags_of k tf = (fin, w, seen, c)" and "fin \<noteq> None"
    and "fin = Some True \<Longrightarrow>
      ba_tensor (ub_merged (GetUpdateBuf k st)) = StoreMem k \<and> ba_len (ub_merged (GetUpdateBuf k st)) = len"
    and "\<And>k'. k' \<noteq> k \<Longrightarrow> flags_of k' tf = flags_of k' (sv_flags st ! t)" and t: "t < length (sv_flags st)"
  shows "serving env k len (st\<lparr>sv_flags := (sv_flags st)[t := tf]\<rparr>)"
    and "round_of env k (st\<lparr>sv_flags := (sv_flags st)[t := tf]\<rparr>) = (round_of env k st)
      \<lparr>rd_finished := finished_flag fin, rd_waiting := w, rd_seen := seen, rd_count := c\<rparr>"
proof -
  have inv: "key_inv k (sv_threads st) len (key_state env k st)" using assms(1) by (simp add: serving_def)
  have th: "ks_thread (key_state env k st) = Some t" using assms(2) by (simp add: key_state_def)
  have "t < length (ks_flags (key_state env k st))" using t by (simp add: key_state_def)
  note f = inv_flags [OF inv th assms(4) this, of w seen c]
  have kd: "keyed env k st (st\<lparr>sv_flags := (sv_flags st)[t := tf]\<rparr>)" by (rule keyed_set_flags [OF t assms(6)])
  show "serving env k len (st\<lparr>sv_flags := (sv_flags st)[t := tf]\<rparr>)"
    using serving_keyed [OF assms(1) kd] f(1) assms(3,5) by (simp add: ks_set_flags ks_update_of)
  show "round_of env k (st\<lparr>sv_flags := (sv_flags st)[t := tf]\<rparr>) = (round_of env k st)
      \<lparr>rd_finished := finished_flag fin, rd_waiting := w, rd_seen := seen, rd_count := c\<rparr>"
    using f(2) assms(3,5) by (simp add: round_of_def ks_set_flags ks_update_of)
qed

text \<open>What \<open>serving\<close> says about the flags of the key's thread.\<close>

lemma serving_flags:
  assumes "serving env k len st" and "sv_hash_cache st k = Some t" and t: "t < length (sv_flags st)"
  obtains fin w seen c where "flags_of k (sv_flags st ! t) = (fin, w, seen, c)"
    and "rd_finished (round_of env k st) = finished_flag fin" "rd_waiting (round_of env k st) = w"
    "rd_seen (round_of env k st) = seen" "rd_count (round_of env k st) = c"
    and "fin = None \<Longrightarrow> w = [] \<and> seen = {} \<and> c = 0"
    and "fin = Some True \<Longrightarrow>
      ba_tensor (ub_merged (GetUpdateBuf k st)) = StoreMem k \<and> ba_len (ub_merged (GetUpdateBuf k st)) = len"
proof -
  let ?ks = "key_state env k st"
  obtain fin w seen c where f: "flags_of k (sv_flags st ! t) = (fin, w, seen, c)" by (metis prod.exhaust)
  have inv: "key_inv k (sv_threads st) len ?ks" using assms(1) by (simp add: serving_def)
  have th: "ks_thread ?ks = Some t" using assms(2) by (simp add: key_state_def)
  have t': "t < length (ks_flags ?ks)" using t by (simp add: key_state_def)
  have ks: "ks_flags ?ks ! t = (fin, w, seen, c)" using t f by (simp add: key_state_def)
  then have at: "flags_at ?ks = (fin, w, seen, c)" using th t' by (simp add: flags_at_def vec_at_def)
  have "fin = None \<Longrightarrow> w = [] \<and> seen = {} \<and> c = 0"
    and "fin = Some True \<Longrightarrow>
      ba_tensor (ub_merged (GetUpdateBuf k st)) = StoreMem k \<and> ba_len (ub_merged (GetUpdateBuf k st)) = len"
    using inv unfolding key_inv_def at by (auto simp: fresh_flags_def ks_update_of)
  then show ?thesis using that [OF f] view_flags [OF th t' ks] by (simp add: round_of_def)
qed

lemma flags_of_own:
  assumes "flags_of k tf = (fin, w, seen, c)"
  shows "flags_of k (count_pull k s tf) = (fin, w, insert s seen, c + 1)"
    and "flags_of k (end_round k tf) = (Some False, w, {}, 0)"
    and "flags_of k (tf\<lparr>is_push_finished := (is_push_finished tf)(k \<mapsto> b)\<rparr>) = (Some b, w, seen, c)"
    and "flags_of k (tf\<lparr>q_pull_reqmeta := (q_pull_reqmeta tf)(k \<mapsto> ms)\<rparr>) = (fin, ms, seen, c)"
    and "all_pulled env k tf \<longleftrightarrow> c = se_workers env"
  using assms by (auto simp: flags_of_def count_pull_def end_round_def all_pulled_def)

lemma own_pull:
  assumes "handle_pull env k req st = Inr st'" and "serving env k len st"
  shows "serving env k len st'" and "round_of env k st' = pull_round (se_workers env) len req (round_of env k st)"
proof -
  let ?N = "se_workers env" and ?r = "round_of env k st"
  have m: "sv_sync st" "\<not> sv_blocking st" using assms(2) by (simp_all add: serving_def)
  obtain t st1 where g: "GetThreadID k 0 st = Inr (t, st1)" and t: "t < length (sv_flags st1)"
    and p: "(let tf1 = init_flags k (sv_flags st1 ! t)
                in if map_at False (is_push_finished tf1) k \<and> km_sender req \<notin> map_at {} (seen_sender tf1) k
                  then rbind (SendPullResponse env k req st1) (\<lambda>st2.
                         let tf2 = count_pull k (km_sender req) tf1
                         in Inr (st2\<lparr>sv_flags := (sv_flags st2)
                                  [t := if all_pulled env k tf2 then end_round k tf2 else tf2]\<rparr>))
                  else Inr (st1\<lparr>sv_flags := (sv_flags st1)
                              [t := tf1\<lparr>q_pull_reqmeta := (q_pull_reqmeta tf1)
                                 (k \<mapsto> map_at [] (q_pull_reqmeta tf1) k @ [req])\<rparr>]\<rparr>)) = Inr st'"
    using assms(1) m by (auto simp: handle_pull_def res_simps)
  have s1: "serving env k len st1" and r1: "round_of env k st1 = ?r" and h1: "sv_hash_cache st1 k = Some t"
    using own_thread [OF g assms(2)] by simp_all
  obtain fin w seen c where f0: "flags_of k (sv_flags st1 ! t) = (fin, w, seen, c)"
    and v: "rd_finished ?r = finished_flag fin" "rd_waiting ?r = w" "rd_seen ?r = seen" "rd_count ?r = c"
    and dflt: "fin = None \<Longrightarrow> w = [] \<and> seen = {} \<and> c = 0"
    and mg: "fin = Some True \<Longrightarrow>
      ba_tensor (ub_merged (GetUpdateBuf k st1)) = StoreMem k \<and> ba_len (ub_merged (GetUpdateBuf k st1)) = len"
    using serving_flags [OF s1 h1 t, unfolded r1, of thesis] by blast
  define tf1 where "tf1 = init_flags k (sv_flags st1 ! t)"
  have f1: "flags_of k tf1 = (Some (finished_flag fin), w, seen, c)"
    unfolding tf1_def by (rule init_flags_of [OF f0 dflt])
  then have rd: "map_at False (is_push_finished tf1) k = finished_flag fin" "map_at {} (seen_sender tf1) k = seen"
    "map_at [] (q_pull_reqmeta tf1) k = w"
    by (auto simp: flags_of_def map_at_def)
  have ot: "flags_of k' tf1 = flags_of k' (sv_flags st1 ! t)" if "k' \<noteq> k" for k'
    unfolding tf1_def using flags_of_other(1) [OF that] by simp
  have fin: "finished_flag fin \<Longrightarrow> fin = Some True" by (auto simp: finished_flag_def split: option.splits)
  have "serving env k len st' \<and> round_of env k st' = pull_round ?N len req ?r"
  proof (cases "finished_flag fin \<and> km_sender req \<notin> seen")
    case True
    then obtain st2 where s: "SendPullResponse env k req st1 = Inr st2"
      and st': "st' = st2\<lparr>sv_flags := (sv_flags st2)[t := if all_pulled env k (count_pull k (km_sender req) tf1)
          then end_round k (count_pull k (km_sender req) tf1) else count_pull k (km_sender req) tf1]\<rparr>"
      using p rd unfolding tf1_def [symmetric] Let_def by (auto simp: res_simps)
    have mg': "ba_tensor (ub_merged (GetUpdateBuf k st1)) = StoreMem k" "ba_len (ub_merged (GetUpdateBuf k st1)) = len"
      using mg fin True by auto
    note o = own_pull_response [OF s s1 mg']
    have h2: "sv_hash_cache st2 k = Some t" using o(4) h1 by simp
    have t2: "t < length (sv_flags st2)" using SendPullResponse_keeps [OF s] t by simp
    let ?tf2 = "count_pull k (km_sender req) tf1"
    have f2: "flags_of k ?tf2 = (Some True, w, insert (km_sender req) seen, c + 1)"
      using flags_of_own(1) [OF f1] True by simp
    define tf3 where "tf3 = (if c + 1 = ?N then end_round k ?tf2 else ?tf2)"
    have st': "st' = st2\<lparr>sv_flags := (sv_flags st2)[t := tf3]\<rparr>"
      using st' flags_of_own(5) [OF f2, of env] by (simp add: tf3_def)
    have f3: "flags_of k tf3 = (if c + 1 = ?N then (Some False, w, {}, 0)
        else (Some True, w, insert (km_sender req) seen, c + 1))"
      using f2 flags_of_own(2) [OF f2] by (simp add: tf3_def)
    have ot3: "flags_of k' tf3 = flags_of k' (sv_flags st2 ! t)" if "k' \<noteq> k" for k'
      using flags_of_other [OF that] ot [OF that] SendPullResponse_keeps [OF s] by (simp add: tf3_def)
    show ?thesis
    proof (cases "c + 1 = ?N")
      case last: True
      then have "flags_of k tf3 = (Some False, w, {}, 0)" using f3 by simp
      note oo = own_set_flags [OF o(1) h2 this _ _ ot3 t2, folded st']
      show ?thesis
        using oo o(2) r1 v True last
        by (simp add: pull_round_def close_round_def give_def finished_flag_def Let_def)
    next
      case False
      then have "flags_of k tf3 = (Some True, w, insert (km_sender req) seen, c + 1)" using f3 by simp
      note oo = own_set_flags [OF o(1) h2 this _ _ ot3 t2, folded st']
      show ?thesis
        using oo o(2,3) r1 v True False mg'
        by (simp add: pull_round_def give_def finished_flag_def Let_def)
    qed
  next
    case False
    then have st': "st' = st1\<lparr>sv_flags := (sv_flags st1)[t := tf1\<lparr>q_pull_reqmeta := (q_pull_reqmeta tf1)(k \<mapsto> w @ [req])\<rparr>]\<rparr>"
      using p rd unfolding tf1_def [symmetric] Let_def by auto
    have ot3: "flags_of k' (tf1\<lparr>q_pull_reqmeta := (q_pull_reqmeta tf1)(k \<mapsto> w @ [req])\<rparr>) = flags_of k' (sv_flags st1 ! t)"
      if "k' \<noteq> k" for k'
      using flags_of_other(5) [OF that] ot [OF that] by simp
    note oo = own_set_flags [OF s1 h1 flags_of_own(4) [OF f1] _ _ ot3 t, folded st']
    have "serving env k len st' \<and> round_of env k st' = (round_of env k st1)
        \<lparr>rd_finished := finished_flag fin, rd_waiting := w @ [req], rd_seen := seen, rd_count := c\<rparr>"
      using oo mg fin by (simp add: finished_flag_def)
    then show ?thesis using r1 False unfolding v [symmetric] pull_round_def by auto
  qed
  then show "serving env k len st'" "round_of env k st' = pull_round ?N len req ?r" by simp_all
qed

subsection \<open>The engine\<close>

lemma elt_loop_length: "elt_loop w g is dst = Inr d \<Longrightarrow> length d = length dst"
  by (induction "is" arbitrary: dst) (auto simp: res_simps dest!: length_put_elt)

lemma memcpy_at_length: "memcpy_at dst src off n = Inr d \<Longrightarrow> length d = length dst"
  by (auto simp: memcpy_at_def split: if_splits)

lemma cpu_copy_length: "cpu_copy dst src n = Inr d \<Longrightarrow> length d = length dst"
  by (auto simp: cpu_copy_def res_simps dest!: elt_loop_length memcpy_at_length split: if_splits)

lemma sum_into_length: "sum_into bld fo dst src n dt = Inr d \<Longrightarrow> length d = length dst"
  by (auto simp: sum_into_def sum_loops res_simps dest!: elt_loop_length split: if_splits)

text \<open>The loop over the waiting pulls is the machine's.\<close>

lemma own_answer_loop:
  assumes "answer_loop env k kept ms tf st = Inr (w', tf', st')" and "serving env k len st"
    and "ba_tensor (ub_merged (GetUpdateBuf k st)) = StoreMem k" and "ba_len (ub_merged (GetUpdateBuf k st)) = len"
    and "flags_of k tf = (Some True, w, seen, c)"
    and "rd_seen r = seen" and "rd_count r = c" and "rd_finished r" and "rd_answers r = rd_answers (round_of env k st)"
    and "d = take len (rd_value (round_of env k st))"
  shows "serving env k len st' \<and> GetUpdateBuf k st' = GetUpdateBuf k st \<and> sv_hash_cache st' k = sv_hash_cache st k \<and>
    round_of env k st' = (round_of env k st)\<lparr>rd_answers := rd_answers (serve (se_workers env) d kept ms r)\<rparr> \<and>
    rd_waiting (serve (se_workers env) d kept ms r) = w' \<and>
    flags_of k tf' = (Some (rd_finished (serve (se_workers env) d kept ms r)), w,
      rd_seen (serve (se_workers env) d kept ms r), rd_count (serve (se_workers env) d kept ms r))"
  using assms
proof (induction env k kept ms tf st arbitrary: r seen c rule: answer_loop.induct)
  case (1 env key kept tf st)
  then show ?case by simp
next
  case (2 env key kept m ms tf st)
  note F = flags_of_own [OF "2.prems"(5)]
  have sn: "map_at {} (seen_sender tf) key = seen" using "2.prems"(5) by (simp add: flags_of_def)
  show ?case
  proof (cases "km_sender m \<notin> seen")
    case True
    then obtain st1 where s: "SendPullResponse env key m st = Inr st1"
      and R: "(if all_pulled env key (count_pull key (km_sender m) tf)
                then Inr (kept @ ms, end_round key (count_pull key (km_sender m) tf), st1)
                else answer_loop env key kept ms (count_pull key (km_sender m) tf) st1) = Inr (w', tf', st')"
      using "2.prems"(1) sn by (auto simp: res_simps Let_def)
    note o = own_pull_response [OF s "2.prems"(2,3,4)]
    have f: "flags_of key (count_pull key (km_sender m) tf) = (Some True, w, insert (km_sender m) seen, c + 1)"
      by (rule F(1))
    note F2 = flags_of_own [OF f]
    show ?thesis
    proof (cases "c + 1 = se_workers env")
      case last: True
      then have "w' = kept @ ms" "tf' = end_round key (count_pull key (km_sender m) tf)" "st' = st1"
        using R F2(5) [of env] by simp_all
      then show ?thesis
        using o F2(2) True last "2.prems"(6-10) by (simp add: give_def close_round_def)
    next
      case False
      then have np: "\<not> all_pulled env key (count_pull key (km_sender m) tf)" using F2(5) by simp
      then have a: "answer_loop env key kept ms (count_pull key (km_sender m) tf) st1 = Inr (w', tf', st')"
        using R by simp
      have mg: "ba_tensor (ub_merged (GetUpdateBuf key st1)) = StoreMem key" "ba_len (ub_merged (GetUpdateBuf key st1)) = len"
        using o(3) "2.prems"(3,4) by simp_all
      have ih: "serving env key len st' \<and> GetUpdateBuf key st' = GetUpdateBuf key st1 \<and>
        sv_hash_cache st' key = sv_hash_cache st1 key \<and>
        round_of env key st' = (round_of env key st1)
          \<lparr>rd_answers := rd_answers (serve (se_workers env) d kept ms (give m d r))\<rparr> \<and>
        rd_waiting (serve (se_workers env) d kept ms (give m d r)) = w' \<and>
        flags_of key tf' = (Some (rd_finished (serve (se_workers env) d kept ms (give m d r))), w,
          rd_seen (serve (se_workers env) d kept ms (give m d r)), rd_count (serve (se_workers env) d kept ms (give m d r)))"
        by (rule "2.IH"(1) [OF _ refl np a o(1) mg f])
          (use True sn "2.prems"(6-10) o(2) in \<open>simp_all add: give_def\<close>)
      have sv: "serve (se_workers env) d kept (m # ms) r = serve (se_workers env) d kept ms (give m d r)"
        using True False "2.prems"(6,7) by simp
      show ?thesis unfolding sv using ih o by simp
    qed
  next
    case False
    show ?thesis
    proof (cases "c = se_workers env")
      case True
      then have "w' = kept @ m # ms" "tf' = end_round key tf" "st' = st"
        using "2.prems"(1) False sn F(5) [of env] by simp_all
      then show ?thesis
        using F(2) True False "2.prems"(2,6-10) by (simp add: close_round_def)
    next
      case ne: False
      then have np: "\<not> all_pulled env key tf" using F(5) by simp
      have a: "answer_loop env key (kept @ [m]) ms tf st = Inr (w', tf', st')"
        using "2.prems"(1) False sn np by simp
      have sv: "serve (se_workers env) d kept (m # ms) r = serve (se_workers env) d (kept @ [m]) ms r"
        using False ne "2.prems"(6,7) by simp
      show ?thesis unfolding sv
        by (rule "2.IH"(2) [OF _ np a "2.prems"(2-10)]) (use False sn in simp)
    qed
  qed
qed

lemma serve_keeps [simp]:
  "rd_pushed (serve N d kept ms r) = rd_pushed r" "rd_todo (serve N d kept ms r) = rd_todo r"
  "rd_value (serve N d kept ms r) = rd_value r"
proof -
  have g: "rd_pushed (give m d r) = rd_pushed r" "rd_todo (give m d r) = rd_todo r" "rd_value (give m d r) = rd_value r"
    "rd_pushed (close_round r) = rd_pushed r" "rd_todo (close_round r) = rd_todo r" "rd_value (close_round r) = rd_value r"
    for m d r by (simp_all add: give_def close_round_def)
  show "rd_pushed (serve N d kept ms r) = rd_pushed r" "rd_todo (serve N d kept ms r) = rd_todo r"
    "rd_value (serve N d kept ms r) = rd_value r"
    by (induction N d kept ms r rule: serve.induct) (simp_all add: g)
qed

lemma inv_pop:
  assumes "key_inv k n len ks" and "ks_thread ks = Some t" and "ks_msgs ks ! t = m # ms"
  shows "key_inv k n len (ks\<lparr>ks_msgs := (ks_msgs ks)[t := ms]\<rparr>)"
    and "round_view (ks\<lparr>ks_msgs := (ks_msgs ks)[t := ms]\<rparr>) = (round_view ks)\<lparr>rd_todo := map job_of ms\<rparr>"
    and "rd_todo (round_view ks) = job_of m # map job_of ms" and "job_msg k len m"
proof -
  let ?ks = "ks\<lparr>ks_msgs := (ks_msgs ks)[t := ms]\<rparr>"
  have t: "t < length (ks_msgs ks)" using assms(1,2) by (simp add: key_inv_def)
  then have m: "msgs_at ?ks = ms" "msgs_at ks = m # ms" using assms(2,3) by (simp_all add: msgs_at_def)
  have f: "flags_at ?ks = flags_at ks" by (simp add: flags_at_def split: option.splits)
  show "key_inv k n len ?ks"
    using assms unfolding key_inv_def m f by (auto simp: nth_list_update)
  show "round_view ?ks = (round_view ks)\<lparr>rd_todo := map job_of ms\<rparr>"
    unfolding round_view_def m f by (simp split: prod.splits)
  show "rd_todo (round_view ks) = job_of m # map job_of ms"
    unfolding round_view_def m by (simp split: prod.splits)
  show "job_msg k len m" using assms(1) unfolding key_inv_def m by simp
qed

lemma inv_mem:
  assumes "key_inv k n len ks" and "len \<le> length v"
  shows "key_inv k n len (ks\<lparr>ks_mem := Some v\<rparr>)"
    and "round_view (ks\<lparr>ks_mem := Some v\<rparr>) = (round_view ks)\<lparr>rd_value := v\<rparr>"
proof -
  have e: "msgs_at (ks\<lparr>ks_mem := Some v\<rparr>) = msgs_at ks" "flags_at (ks\<lparr>ks_mem := Some v\<rparr>) = flags_at ks"
    by (simp_all add: msgs_at_def flags_at_def split: option.splits)
  show "key_inv k n len (ks\<lparr>ks_mem := Some v\<rparr>)"
    using assms unfolding key_inv_def e by simp
  show "round_view (ks\<lparr>ks_mem := Some v\<rparr>) = (round_view ks)\<lparr>rd_value := v\<rparr>"
    unfolding round_view_def e by (simp split: prod.splits)
qed

lemma own_merged:
  assumes "serving env k len st"
  shows "serving env k len (set_merged k (StoreMem k) len st)"
    and "round_of env k (set_merged k (StoreMem k) len st) = round_of env k st"
    and "ba_tensor (ub_merged (GetUpdateBuf k (set_merged k (StoreMem k) len st))) = StoreMem k"
    and "ba_len (ub_merged (GetUpdateBuf k (set_merged k (StoreMem k) len st))) = len"
    and "sv_flags (set_merged k (StoreMem k) len st) = sv_flags st"
    and "sv_hash_cache (set_merged k (StoreMem k) len st) = sv_hash_cache st"
proof -
  let ?u = "(GetUpdateBuf k st)\<lparr>ub_merged := (ub_merged (GetUpdateBuf k st))\<lparr>ba_tensor := StoreMem k, ba_len := len\<rparr>\<rparr>"
  let ?ks = "key_state env k st"
  have s: "set_merged k (StoreMem k) len st = set_update k ?u st" by (simp add: set_merged_def Let_def)
  have e: "msgs_at (?ks\<lparr>ks_update := ?u\<rparr>) = msgs_at ?ks" "flags_at (?ks\<lparr>ks_update := ?u\<rparr>) = flags_at ?ks"
    by (simp_all add: msgs_at_def flags_at_def split: option.splits)
  have "key_inv k (sv_threads st) len (?ks\<lparr>ks_update := ?u\<rparr>)"
    using assms unfolding serving_def key_inv_def e by simp
  then show "serving env k len (set_merged k (StoreMem k) len st)"
    using serving_keyed [OF assms keyed_set_merged [of k "StoreMem k" env st len]] by (simp add: s ks_set_update)
  have "round_view (?ks\<lparr>ks_update := ?u\<rparr>) = round_view ?ks"
    unfolding round_view_def e by (simp add: ks_update_of split: prod.splits)
  then show "round_of env k (set_merged k (StoreMem k) len st) = round_of env k st"
    by (simp add: s round_of_def ks_set_update)
  show "ba_tensor (ub_merged (GetUpdateBuf k (set_merged k (StoreMem k) len st))) = StoreMem k"
    "ba_len (ub_merged (GetUpdateBuf k (set_merged k (StoreMem k) len st))) = len"
    "sv_flags (set_merged k (StoreMem k) len st) = sv_flags st"
    "sv_hash_cache (set_merged k (StoreMem k) len st) = sv_hash_cache st"
    by (simp_all add: s set_update_def GetUpdateBuf_def)
qed

lemma own_write:
  assumes "serving env k len st" and "write_mem (StoreMem k) v st = Inr st'" and "length v = length (rd_value (round_of env k st))"
  shows "serving env k len st'" and "round_of env k st' = (round_of env k st)\<lparr>rd_value := v\<rparr>"
proof -
  have inv: "key_inv k (sv_threads st) len (key_state env k st)" using assms(1) by (simp add: serving_def)
  then obtain v0 where "ks_mem (key_state env k st) = Some v0" "len \<le> length v0" by (auto simp: key_inv_def)
  then have l: "len \<le> length v" using assms(3) view_mem by (simp add: round_of_def)
  note m = inv_mem [OF inv l] and w = ks_write_mem [OF assms(2), of env]
  show "serving env k len st'"
    using serving_keyed [OF assms(1) keyed_write_mem [OF assms(2), of k]] m(1) w by simp
  show "round_of env k st' = (round_of env k st)\<lparr>rd_value := v\<rparr>" using m(2) w by (simp add: round_of_def)
qed

lemma own_answer_pulls:
  assumes "answer_pulls env t k st = Inr st'" and "serving env k len st" and "sv_hash_cache st k = Some t"
    and "ba_tensor (ub_merged (GetUpdateBuf k st)) = StoreMem k" and "ba_len (ub_merged (GetUpdateBuf k st)) = len"
  shows "serving env k len st'"
    and "round_of env k st' = serve (se_workers env) (take len (rd_value (round_of env k st))) []
      (rd_waiting (round_of env k st)) ((round_of env k st)\<lparr>rd_finished := True\<rparr>)"
proof -
  let ?N = "se_workers env" and ?r = "round_of env k st"
  define tf1 where "tf1 = init_flags k (sv_flags st ! t)"
  define tf2 where "tf2 = tf1\<lparr>is_push_finished := (is_push_finished tf1)(k \<mapsto> True)\<rparr>"
  obtain w' tf3 st1 where t: "t < length (sv_flags st)"
    and a: "answer_loop env k [] (map_at [] (q_pull_reqmeta tf2) k) tf2 st = Inr (w', tf3, st1)"
    and st': "st' = st1\<lparr>sv_flags := (sv_flags st1)[t := tf3\<lparr>q_pull_reqmeta := (q_pull_reqmeta tf3)(k \<mapsto> w')\<rparr>]\<rparr>"
    using assms(1) unfolding answer_pulls_def Let_def tf2_def tf1_def by (auto simp: res_simps)
  obtain fin w seen c where f0: "flags_of k (sv_flags st ! t) = (fin, w, seen, c)"
    and v: "rd_finished ?r = finished_flag fin" "rd_waiting ?r = w" "rd_seen ?r = seen" "rd_count ?r = c"
    and dflt: "fin = None \<Longrightarrow> w = [] \<and> seen = {} \<and> c = 0"
    using serving_flags [OF assms(2,3) t, of thesis] by blast
  have "flags_of k tf1 = (Some (finished_flag fin), w, seen, c)" unfolding tf1_def by (rule init_flags_of [OF f0 dflt])
  then have f2: "flags_of k tf2 = (Some True, w, seen, c)" unfolding tf2_def by (rule flags_of_own(3))
  then have w: "map_at [] (q_pull_reqmeta tf2) k = w" by (simp add: flags_of_def)
  let ?d = "take len (rd_value ?r)"
  let ?r' = "serve ?N ?d [] w (?r\<lparr>rd_finished := True\<rparr>)"
  have l: "serving env k len st1 \<and> GetUpdateBuf k st1 = GetUpdateBuf k st \<and> sv_hash_cache st1 k = sv_hash_cache st k \<and>
    round_of env k st1 = ?r\<lparr>rd_answers := rd_answers ?r'\<rparr> \<and> rd_waiting ?r' = w' \<and>
    flags_of k tf3 = (Some (rd_finished ?r'), w, rd_seen ?r', rd_count ?r')"
    by (rule own_answer_loop [OF a [unfolded w] assms(2,4,5) f2]) (simp_all add: v)
  then have s1: "serving env k len st1" and h1: "sv_hash_cache st1 k = Some t"
    and f3: "flags_of k tf3 = (Some (rd_finished ?r'), w, rd_seen ?r', rd_count ?r')" using assms(3) by simp_all
  have t1: "t < length (sv_flags st1)" using keyed_answer_loop [OF a] t by simp
  have ot: "flags_of k' (tf3\<lparr>q_pull_reqmeta := (q_pull_reqmeta tf3)(k \<mapsto> w')\<rparr>) = flags_of k' (sv_flags st1 ! t)"
    if "k' \<noteq> k" for k'
    using keyed_answer_loop [OF a] flags_of_other [OF that] that by (simp add: tf2_def tf1_def)
  note o = own_set_flags [OF s1 h1 flags_of_own(4) [OF f3] _ _ ot t1, folded st']
  show "serving env k len st'" using o(1) l assms(4,5) by simp
  have "round_of env k st' = (round_of env k st1)\<lparr>rd_finished := rd_finished ?r', rd_waiting := w',
      rd_seen := rd_seen ?r', rd_count := rd_count ?r'\<rparr>"
    using o(2) l assms(4,5) by (simp add: finished_flag_def)
  also have "\<dots> = ?r'" using l by (intro round_state.equality) simp_all
  finally show "round_of env k st' = serve ?N ?d [] (rd_waiting ?r) (?r\<lparr>rd_finished := True\<rparr>)" using v(2) by simp
qed

lemma own_message:
  assumes "process_message env t m st = Inr st'" and "serving env k len st" and "sv_hash_cache st k = Some t"
    and "job_msg k len m"
  shows "serving env k len st'" and "do_job env len (job_of m) (round_of env k st) = Inr (round_of env k st')"
proof -
  have inv: "key_inv k (sv_threads st) len (key_state env k st)" using assms(2) by (simp add: serving_def)
  then have c: "sv_compressors st (em_key m) = None"
    using assms(4) by (simp add: key_inv_def key_state_def job_msg_def)
  have m: "em_key m = k" "em_dst m = StoreMem k" "em_len m = len" using assms(4) by (simp_all add: job_msg_def)
  obtain v where v: "sv_mem st k = Some v" using inv by (auto simp: key_inv_def key_state_def)
  then have rv: "rd_value (round_of env k st) = v" by (simp add: round_of_def view_mem key_state_def)
  have "serving env k len st' \<and> do_job env len (job_of m) (round_of env k st) = Inr (round_of env k st')"
  proof (cases "em_ops m = ALL_RECV")
    case True
    then have src: "em_src m = StoreMem k" using assms(4) by (auto simp: job_msg_def)
    have "answer_pulls env t k (set_merged k (StoreMem k) len st) = Inr st'"
      using assms(1) True c m src by (simp add: process_message_def prepare_message_def)
    note a = own_answer_pulls [OF this own_merged(1) [OF assms(2)]] and o = own_merged [OF assms(2)]
    show ?thesis using a o True assms(3) by (simp add: job_of_def)
  next
    case False
    then obtain b where b: "em_src m = RecvMem b" "em_ops m \<in> {COPY_FIRST, SUM_RECV}"
      using assms(4) by (auto simp: job_msg_def)
    then have p: "prepare_message env m st = Inr (RecvMem b, st)" using c by (auto simp: prepare_message_def)
    show ?thesis
    proof (cases "em_ops m = COPY_FIRST")
      case True
      then obtain v' where e: "cpu_copy v b len = Inr v'" and w: "write_mem (StoreMem k) v' st = Inr st'"
        using assms(1) p m v b(1) by (auto simp: process_message_def copy_mem_def res_simps)
      have "length v' = length (rd_value (round_of env k st))" using cpu_copy_length [OF e] rv by simp
      from own_write [OF assms(2) w this] e True b(1) rv show ?thesis by (simp add: job_of_def recv_bytes_def)
    next
      case False
      then have s: "em_ops m = SUM_RECV" using b(2) by simp
      then obtain v' where e: "reduce_switch (dht_dtype (em_type m))
            (sum_into (ce_build (se_cenv env)) (ops_of (se_cenv env)) v b len) = Inr v'"
        and w: "write_mem (StoreMem k) v' st = Inr st'"
        using assms(1) p m v b(1) by (auto simp: process_message_def sum_mem_def res_simps)
      have "length v' = length v" using e by (auto simp: reduce_switch_def split: option.splits dest: sum_into_length)
      then have "length v' = length (rd_value (round_of env k st))" using rv by simp
      from own_write [OF assms(2) w this] e s b(1) rv show ?thesis by (simp add: job_of_def recv_bytes_def)
    qed
  qed
  then show "serving env k len st'" "do_job env len (job_of m) (round_of env k st) = Inr (round_of env k st')" by simp_all
qed

text \<open>The first message of a queue, when it is the key's.\<close>

lemma key_head:
  assumes "serving env k len st" and "i < length (sv_queues st)"
    and "pq_queue (sv_queues st ! i) = m # ms" and "em_key m = k"
  obtains q' js where "WaitAndPop (sv_queues st ! i) = Some (m, q')" and "sv_hash_cache st k = Some i"
    and "serving env k len (st\<lparr>sv_queues := (sv_queues st)[i := q']\<rparr>)"
    and "round_of env k (st\<lparr>sv_queues := (sv_queues st)[i := q']\<rparr>) = (round_of env k st)\<lparr>rd_todo := js\<rparr>"
    and "rd_todo (round_of env k st) = job_of m # js" and "job_msg k len m"
proof -
  let ?ks = "key_state env k st"
  have ok: "server_ok env st" and inv: "key_inv k (sv_threads st) len ?ks" using assms(1) by (simp_all add: serving_def)
  obtain q' where w: "WaitAndPop (sv_queues st ! i) = Some (m, q')"
    and q': "q' = (sv_queues st ! i)\<lparr>pq_queue := ms\<rparr>"
    using assms(3) server_ok_queueD [OF ok assms(2)] by (auto simp: WaitAndPop_def unscheduled_def)
  let ?st1 = "st\<lparr>sv_queues := (sv_queues st)[i := q']\<rparr>"
  have mk: "ks_msgs ?ks ! i = m # msgs_of k q'"
    using assms(2-4) q' by (simp add: key_state_def msgs_of_def)
  have th: "ks_thread ?ks = Some i"
  proof (rule ccontr)
    assume "ks_thread ?ks \<noteq> Some i"
    moreover have "i < sv_threads st" using inv assms(2) by (simp add: key_inv_def key_state_def)
    ultimately have "ks_msgs ?ks ! i = []" using inv unfolding key_inv_def by blast
    then show False using mk by simp
  qed
  have ks1: "key_state env k ?st1 = ?ks\<lparr>ks_msgs := (ks_msgs ?ks)[i := msgs_of k q']\<rparr>"
    by (simp add: key_state_def GetUpdateBuf_def GetStore_def answers_of_def map_update)
  note p = inv_pop [OF inv th mk]
  show ?thesis
  proof (rule that [OF w])
    show "sv_hash_cache st k = Some i" using th by (simp add: key_state_def)
    show "serving env k len ?st1"
      using serving_keyed [OF assms(1) keyed_pop(1) [OF assms(2) w, unfolded assms(4)]] p(1) ks1 by simp
    show "round_of env k ?st1 = (round_of env k st)\<lparr>rd_todo := map job_of (msgs_of k q')\<rparr>"
      using p(2) ks1 by (simp add: round_of_def)
    show "rd_todo (round_of env k st) = job_of m # map job_of (msgs_of k q')" using p(3) by (simp add: round_of_def)
  qed (rule p(4))
qed

lemma own_engine_turn:
  assumes "engine_turn env i st = Inr (on, st')" and "serving env k len st"
    and "pq_queue (sv_queues st ! i) = m # ms" and "em_key m = k"
  shows "serving env k len st'" and "round_step env len AEngine (round_of env k st) = Inr (round_of env k st')"
proof -
  have i: "i < length (sv_queues st)" using assms(1) by (auto simp: engine_turn_def res_simps)
  obtain q' js where w: "WaitAndPop (sv_queues st ! i) = Some (m, q')" and h: "sv_hash_cache st k = Some i"
    and s1: "serving env k len (st\<lparr>sv_queues := (sv_queues st)[i := q']\<rparr>)"
    and r1: "round_of env k (st\<lparr>sv_queues := (sv_queues st)[i := q']\<rparr>) = (round_of env k st)\<lparr>rd_todo := js\<rparr>"
    and td: "rd_todo (round_of env k st) = job_of m # js" and j: "job_msg k len m"
    by (rule key_head [OF assms(2) i assms(3,4)])
  have "em_ops m \<noteq> TERMINATE" using j by (auto simp: job_msg_def)
  then have "process_message env i m (st\<lparr>sv_queues := (sv_queues st)[i := q']\<rparr>) = Inr st'"
    using assms(1) i w by (auto simp: engine_turn_def Let_def res_simps)
  note o = own_message [OF this s1 _ j]
  show "serving env k len st'" "round_step env len AEngine (round_of env k st) = Inr (round_of env k st')"
    using o h r1 td by simp_all
qed

subsection \<open>The refinement\<close>

text \<open>What an event is for the key.\<close>

fun event_view :: "server_env \<Rightarrow> u64 \<Rightarrow> server_state \<Rightarrow> server_event \<Rightarrow> round_event" where
  "event_view env k st (Request req kvs) =
     (if hd (kp_keys kvs) - key_base env \<noteq> k then AOther
      else if km_push req
      then APush (case DepairDataHandleType (km_cmd req) of Inl e \<Rightarrow> 0 | Inr t \<Rightarrow> dht_dtype t) (recv_bytes (sa_data (kp_vals kvs)))
      else APull req)"
| "event_view env k st (EngineTurn i) =
     (case pq_queue (sv_queues st ! i) of [] \<Rightarrow> AOther | m # ms \<Rightarrow> if em_key m = k then AEngine else AOther)"

text \<open>No request registers a compressor for the key.\<close>

fun uncompressed :: "server_env \<Rightarrow> u64 \<Rightarrow> server_event \<Rightarrow> bool" where
  "uncompressed env k (Request req kvs) \<longleftrightarrow>
     (hd (kp_keys kvs) - key_base env = k \<longrightarrow>
       (case DepairDataHandleType (km_cmd req) of
          Inl e \<Rightarrow> True | Inr t \<Rightarrow> requestType t \<noteq> request_type_value kCompressedPushPull))"
| "uncompressed env k (EngineTurn i) \<longleftrightarrow> True"

lemma round_other:
  assumes "serving env k len st" and "server_step env e st = Inr st'" and "event_ok e" and "event_key env st e \<noteq> Some k"
  shows "serving env k len st'" and "round_of env k st' = round_of env k st"
proof -
  have "server_ok env st" using assms(1) by (simp add: serving_def)
  note s = step_ok [OF assms(2) this assms(3)]
  then have "key_state env k st' = key_state env k st" using assms(4) by simp
  then show "serving env k len st'" "round_of env k st' = round_of env k st"
    using s assms(1) by (simp_all add: serving_def round_of_def modes_def)
qed

lemma step_refines:
  assumes "serving env k len st" and "server_step env e st = Inr st'" and "event_ok e" and "uncompressed env k e"
  shows "serving env k len st' \<and>
    round_step env len (event_view env k st e) (round_of env k st) = Inr (round_of env k st')"
proof (cases e)
  case (EngineTurn i)
  show ?thesis
  proof (cases "\<exists>m ms. pq_queue (sv_queues st ! i) = m # ms \<and> em_key m = k")
    case True
    then obtain m ms where q: "pq_queue (sv_queues st ! i) = m # ms" "em_key m = k" by blast
    obtain on where "engine_turn env i st = Inr (on, st')" using assms(2) EngineTurn by (auto simp: res_simps)
    from own_engine_turn [OF this assms(1) q] q EngineTurn show ?thesis by simp
  next
    case False
    then have "event_key env st e \<noteq> Some k" "event_view env k st e = AOther"
      using EngineTurn by (auto split: list.splits)
    then show ?thesis using round_other [OF assms(1-3)] by simp
  qed
next
  case (Request req kvs)
  show ?thesis
  proof (cases "hd (kp_keys kvs) - key_base env = k")
    case False
    then have "event_key env st e \<noteq> Some k" "event_view env k st e = AOther" using Request by simp_all
    then show ?thesis using round_other [OF assms(1-3)] by simp
  next
    case True
    obtain b where b: "sa_data (kp_vals kvs) = RecvMem b" using assms(3) Request by auto
    obtain type k' where ty: "DepairDataHandleType (km_cmd req) = Inr type"
      and k': "DecodeKey (se_ranges env) (se_rank env) (hd (kp_keys kvs)) = Inr k'"
      and h: "(if requestType type = request_type_value kCompressedPushPull then register_compressor env k' req kvs st
            else if km_push req then handle_push env type k' req kvs st else handle_pull env k' req st) = Inr st'"
      using assms(2) unfolding Request server_step.simps DeepIncServerHandle_def
      by (elim rbindE checkE) (erule (2) that)
    have kk: "k' = k" using DecodeKey_base [OF k'] True by simp
    have nc: "requestType type \<noteq> request_type_value kCompressedPushPull" using assms(4) Request True ty by simp
    have st: "ba_tensor (GetStore k st) = StoreMem k"
      using assms(1) by (simp add: serving_def key_inv_def key_state_def)
    show ?thesis
    proof (cases "km_push req")
      case True
      then have "round_push env type k req kvs (RecvMem b) (unat (of_int (hd (kp_lens kvs)) :: u64)) st = Inr st'"
        using h nc kk st b by (auto simp: handle_push_def Let_def res_simps)
      from own_round_push [OF this assms(1)] Request True ty b \<open>hd (kp_keys kvs) - key_base env = k\<close>
      show ?thesis by (simp add: recv_bytes_def)
    next
      case False
      then have "handle_pull env k req st = Inr st'" using h nc kk by simp
      from own_pull [OF this assms(1)] Request False \<open>hd (kp_keys kvs) - key_base env = k\<close>
      show ?thesis by simp
    qed
  qed
qed

end
