(* ===== verification/Server_Delivery.thy ===== *)
theory Server_Delivery
  imports Server_Round
begin

section \<open>What a round delivers\<close>

text \<open>
  On the machine of a key: once every worker has pushed and pulled and the engine has done the
  key's jobs, every pull has been answered exactly once with the sum of the pushes, and the key is
  ready for the next round; and at any time before, its buffer holds what the jobs done make of the
  pushes. The refinement carries this to runs of the server, in any order of requests and engine
  turns and among the traffic of other keys. A run of the server as it is has no pull.
\<close>

subsection \<open>Runs\<close>

fun round_run :: "server_env \<Rightarrow> nat \<Rightarrow> round_event list \<Rightarrow> round_state \<Rightarrow> round_state res" where
  "round_run env len [] r = Inr r"
| "round_run env len (e # es) r = rbind (round_step env len e r) (round_run env len es)"

lemma round_run_append:
  "round_run env len (es @ fs) r = rbind (round_run env len es r) (round_run env len fs)"
proof (induction es arbitrary: r)
  case (Cons e es)
  then have "round_run env len (es @ fs) = (\<lambda>x. rbind (round_run env len es x) (round_run env len fs))" by (rule ext)
  then show ?case by (simp add: rbind_assoc)
qed simp

text \<open>What the events of a run are for the key.\<close>

fun run_view :: "server_env \<Rightarrow> u64 \<Rightarrow> server_state \<Rightarrow> server_event list \<Rightarrow> round_event list" where
  "run_view env k st [] = []"
| "run_view env k st (e # es) =
     event_view env k st e # (case server_step env e st of Inl x \<Rightarrow> [] | Inr st' \<Rightarrow> run_view env k st' es)"

lemma run_refines:
  assumes "serving env k len st" and "server_run env es st = Inr st'"
    and "\<forall>e \<in> set es. event_ok e \<and> uncompressed env k e"
  shows "serving env k len st' \<and> round_run env len (run_view env k st es) (round_of env k st) = Inr (round_of env k st')"
  using assms
proof (induction es arbitrary: st)
  case (Cons e es)
  then obtain st1 where s: "server_step env e st = Inr st1" and r: "server_run env es st1 = Inr st'"
    by (auto simp: res_simps)
  have "serving env k len st1 \<and> round_step env len (event_view env k st e) (round_of env k st) = Inr (round_of env k st1)"
    using step_refines [OF Cons.prems(1) s] Cons.prems(3) by simp
  then show ?case using Cons.IH [OF _ r] Cons.prems(3) s by simp
qed simp

fun pushes :: "round_event list \<Rightarrow> (int \<times> u8 list) list" where
  "pushes [] = []"
| "pushes (APush dt b # es) = (dt, b) # pushes es"
| "pushes (_ # es) = pushes es"

fun pulls :: "round_event list \<Rightarrow> kv_meta list" where
  "pulls [] = []"
| "pulls (APull m # es) = m # pulls es"
| "pulls (_ # es) = pulls es"

lemma pushes_append [simp]: "pushes (es @ fs) = pushes es @ pushes fs"
  by (induction es rule: pushes.induct) auto

lemma pulls_append [simp]: "pulls (es @ fs) = pulls es @ pulls fs"
  by (induction es rule: pulls.induct) auto

subsection \<open>The jobs of a round\<close>

definition script :: "nat \<Rightarrow> (int \<times> u8 list) list \<Rightarrow> job list" where
  "script N ps =
     (case ps of [] \<Rightarrow> [] | (dt, b) # qs \<Rightarrow> CopyJob b # map (\<lambda>(dt, b). SumJob dt b) qs) @
     (if length ps = N then [DoneJob] else [])"

lemma script_Nil [simp]: "0 < N \<Longrightarrow> script N [] = []"
  by (simp add: script_def)

lemma script_snoc:
  assumes "length ps < N"
  shows "script N (ps @ [(dt, b)]) =
    script N ps @ (if ps = [] then CopyJob b else SumJob dt b) # (if length ps + 1 = N then [DoneJob] else [])"
  using assms by (cases ps) (auto simp: script_def)

lemma script_Done: "DoneJob \<in> set (script N ps) \<longleftrightarrow> length ps = N"
  by (auto simp: script_def split: list.splits)

lemma script_Done_last:
  assumes "script N ps = xs @ DoneJob # ys"
  shows "ys = [] \<and> length ps = N \<and> DoneJob \<notin> set xs"
proof -
  let ?work = "case ps of [] \<Rightarrow> [] | (dt, b) # qs \<Rightarrow> CopyJob b # map (\<lambda>(dt, b). SumJob dt b) qs"
  have w: "DoneJob \<notin> set ?work" by (auto split: list.splits)
  have n: "length ps = N" using script_Done [of N ps] assms by simp
  then have e: "?work @ [DoneJob] = xs @ DoneJob # ys" using assms by (simp add: script_def)
  show ?thesis
  proof (cases ys rule: rev_cases)
    case Nil
    then show ?thesis using e w n by simp
  next
    case (snoc zs z)
    then have "?work = xs @ DoneJob # zs" using e by simp
    then have "DoneJob \<in> set ?work" by (simp only: set_append) simp
    then show ?thesis using w by simp
  qed
qed

text \<open>The value the jobs make of the buffer: the first push copied, the others added in order.\<close>

fun value_job :: "server_env \<Rightarrow> nat \<Rightarrow> job \<Rightarrow> u8 list \<Rightarrow> u8 list res" where
  "value_job env len (CopyJob b) v = cpu_copy v b len"
| "value_job env len (SumJob dt b) v =
     reduce_switch dt (sum_into (ce_build (se_cenv env)) (ops_of (se_cenv env)) v b len)"
| "value_job env len DoneJob v = Inr v"

fun value_jobs :: "server_env \<Rightarrow> nat \<Rightarrow> job list \<Rightarrow> u8 list \<Rightarrow> u8 list res" where
  "value_jobs env len [] v = Inr v"
| "value_jobs env len (j # js) v = rbind (value_job env len j v) (value_jobs env len js)"

lemma value_jobs_snoc: "value_jobs env len (js @ [j]) v = rbind (value_jobs env len js v) (value_job env len j)"
proof (induction js arbitrary: v)
  case Nil
  show ?case by (cases "value_job env len j v") simp_all
next
  case (Cons i js)
  then have "value_jobs env len (js @ [j]) = (\<lambda>v. rbind (value_jobs env len js v) (value_job env len j))" by (rule ext)
  then show ?case by (simp add: rbind_assoc)
qed

definition sum_pushes :: "server_env \<Rightarrow> nat \<Rightarrow> u8 list \<Rightarrow> (int \<times> u8 list) list \<Rightarrow> u8 list res" where
  "sum_pushes env len v ps = value_jobs env len (script (length ps + 1) ps) v"

lemma value_script: "value_jobs env len (script N ps) v = sum_pushes env len v ps"
proof (cases "length ps = N")
  case True
  have "value_jobs env len (js @ [DoneJob]) v = value_jobs env len js v" for js
    by (subst value_jobs_snoc) (cases "value_jobs env len js v"; simp)
  then show ?thesis using True by (simp add: sum_pushes_def script_def)
qed (simp add: sum_pushes_def script_def)

subsection \<open>The invariant of a round\<close>

definition idle :: "round_state \<Rightarrow> bool" where
  "idle r \<longleftrightarrow> rd_pushed r = 0 \<and> rd_todo r = [] \<and> \<not> rd_finished r \<and> rd_waiting r = [] \<and> rd_seen r = {} \<and> rd_count r = 0"

definition answered :: "(kv_meta \<times> u8 list) list \<Rightarrow> u8 list \<Rightarrow> kv_meta list \<Rightarrow> nat \<Rightarrow> round_state \<Rightarrow> bool" where
  "answered a0 d qs N r \<longleftrightarrow> rd_waiting r = [] \<and> rd_answers r = a0 @ map (\<lambda>m. (m, d)) qs \<and>
     (if length qs = N then \<not> rd_finished r \<and> rd_seen r = {} \<and> rd_count r = 0
      else rd_finished r \<and> rd_seen r = km_sender ` set qs \<and> rd_count r = length qs)"

definition unanswered :: "(kv_meta \<times> u8 list) list \<Rightarrow> kv_meta list \<Rightarrow> round_state \<Rightarrow> bool" where
  "unanswered a0 qs r \<longleftrightarrow> \<not> rd_finished r \<and> rd_waiting r = qs \<and> rd_seen r = {} \<and> rd_count r = 0 \<and> rd_answers r = a0"

definition in_round :: "server_env \<Rightarrow> nat \<Rightarrow> u8 list \<Rightarrow> (kv_meta \<times> u8 list) list \<Rightarrow> (int \<times> u8 list) list \<Rightarrow>
    kv_meta list \<Rightarrow> job list \<Rightarrow> round_state \<Rightarrow> bool" where
  "in_round env len v0 a0 ps qs done r \<longleftrightarrow>
     script (se_workers env) ps = done @ rd_todo r \<and> value_jobs env len done v0 = Inr (rd_value r) \<and>
     rd_pushed r = (if length ps = se_workers env then 0 else length ps) \<and>
     (if DoneJob \<in> set done then answered a0 (take len (rd_value r)) qs (se_workers env) r else unanswered a0 qs r)"

text \<open>Serving pulls of distinct senders answers all of them, in order.\<close>

lemma serve_distinct:
  assumes "distinct (map km_sender ms)" and "km_sender ` set ms \<inter> rd_seen r = {}"
    and "rd_count r + length ms \<le> N" and "rd_count r < N"
  shows "rd_waiting (serve N d [] ms r) = []"
    and "rd_answers (serve N d [] ms r) = rd_answers r @ map (\<lambda>m. (m, d)) ms"
    and "rd_finished (serve N d [] ms r) = (rd_finished r \<and> rd_count r + length ms \<noteq> N)"
    and "rd_seen (serve N d [] ms r) = (if rd_count r + length ms = N then {} else rd_seen r \<union> km_sender ` set ms)"
    and "rd_count (serve N d [] ms r) = (if rd_count r + length ms = N then 0 else rd_count r + length ms)"
proof -
  have "rd_waiting (serve N d [] ms r) = [] \<and>
    rd_answers (serve N d [] ms r) = rd_answers r @ map (\<lambda>m. (m, d)) ms \<and>
    rd_finished (serve N d [] ms r) = (rd_finished r \<and> rd_count r + length ms \<noteq> N) \<and>
    rd_seen (serve N d [] ms r) = (if rd_count r + length ms = N then {} else rd_seen r \<union> km_sender ` set ms) \<and>
    rd_count (serve N d [] ms r) = (if rd_count r + length ms = N then 0 else rd_count r + length ms)"
    using assms
  proof (induction ms arbitrary: r)
    case (Cons m ms)
    have new: "km_sender m \<notin> rd_seen r" using Cons.prems(2) by simp
    show ?case
    proof (cases "rd_count r + 1 = N")
      case True
      then have "ms = []" using Cons.prems(3) by (cases ms) simp_all
      then show ?thesis using True new by (simp add: give_def close_round_def)
    next
      case False
      have "rd_waiting (serve N d [] ms (give m d r)) = [] \<and>
        rd_answers (serve N d [] ms (give m d r)) = rd_answers (give m d r) @ map (\<lambda>m. (m, d)) ms \<and>
        rd_finished (serve N d [] ms (give m d r)) = (rd_finished (give m d r) \<and> rd_count (give m d r) + length ms \<noteq> N) \<and>
        rd_seen (serve N d [] ms (give m d r)) =
          (if rd_count (give m d r) + length ms = N then {} else rd_seen (give m d r) \<union> km_sender ` set ms) \<and>
        rd_count (serve N d [] ms (give m d r)) =
          (if rd_count (give m d r) + length ms = N then 0 else rd_count (give m d r) + length ms)"
        using Cons.prems False by (intro Cons.IH) (auto simp: give_def)
      then show ?thesis using new False by (simp add: give_def)
    qed
  qed simp
  then show "rd_waiting (serve N d [] ms r) = []"
    and "rd_answers (serve N d [] ms r) = rd_answers r @ map (\<lambda>m. (m, d)) ms"
    and "rd_finished (serve N d [] ms r) = (rd_finished r \<and> rd_count r + length ms \<noteq> N)"
    and "rd_seen (serve N d [] ms r) = (if rd_count r + length ms = N then {} else rd_seen r \<union> km_sender ` set ms)"
    and "rd_count (serve N d [] ms r) = (if rd_count r + length ms = N then 0 else rd_count r + length ms)"
    by simp_all
qed

text \<open>Each event keeps the invariant; a push or pull too many is excluded.\<close>

lemma in_round_push:
  assumes "in_round env len v0 a0 ps qs done r" and "length ps < se_workers env"
  shows "in_round env len v0 a0 (ps @ [(dt, b)]) qs done (push_round (se_workers env) dt b r)"
proof -
  have nd: "DoneJob \<notin> set done"
  proof
    assume "DoneJob \<in> set done"
    then have "DoneJob \<in> set (script (se_workers env) ps)" using assms(1) by (simp add: in_round_def)
    then show False using assms(2) by (simp add: script_Done)
  qed
  have pd: "rd_pushed r = length ps" using assms by (simp add: in_round_def)
  show ?thesis
    using assms nd pd
    by (auto simp: in_round_def push_round_def script_snoc unanswered_def)
qed

lemma in_round_pull:
  assumes "in_round env len v0 a0 ps qs done r" and "length qs < se_workers env" and "km_sender m \<notin> km_sender ` set qs"
  shows "in_round env len v0 a0 ps (qs @ [m]) done (pull_round (se_workers env) len m r)"
proof (cases "DoneJob \<in> set done")
  case True
  then have a: "answered a0 (take len (rd_value r)) qs (se_workers env) r" using assms(1) by (simp add: in_round_def)
  then have f: "rd_finished r" "rd_seen r = km_sender ` set qs" "rd_count r = length qs"
    using assms(2) by (simp_all add: answered_def)
  show ?thesis
    using assms a f True by (auto simp: in_round_def pull_round_def answered_def give_def close_round_def Let_def)
next
  case False
  then show ?thesis
    using assms by (auto simp: in_round_def pull_round_def unanswered_def)
qed

lemma do_job_value:
  assumes "j \<noteq> DoneJob"
  shows "do_job env len j r = rbind (value_job env len j (rd_value r)) (\<lambda>v. Inr (r\<lparr>rd_value := v\<rparr>))"
  using assms by (cases j) simp_all

lemma in_round_engine:
  assumes "in_round env len v0 a0 ps qs done r" and "round_step env len AEngine r = Inr r'"
    and "length qs \<le> se_workers env" and "distinct (map km_sender qs)" and "0 < se_workers env"
  shows "\<exists>done'. in_round env len v0 a0 ps qs done' r'"
proof (cases "rd_todo r")
  case Nil
  then show ?thesis using assms(1,2) by auto
next
  case (Cons j js)
  have sc: "script (se_workers env) ps = done @ j # js" and vd: "value_jobs env len done v0 = Inr (rd_value r)"
    using assms(1) Cons by (simp_all add: in_round_def)
  have nd: "DoneJob \<notin> set done"
  proof
    assume "DoneJob \<in> set done"
    then obtain xs ys where "done = xs @ DoneJob # ys" by (meson split_list)
    then show False using script_Done_last [of "se_workers env" ps xs "ys @ j # js"] sc by simp
  qed
  then have u: "unanswered a0 qs r" using assms(1) by (simp add: in_round_def)
  have dj: "do_job env len j (r\<lparr>rd_todo := js\<rparr>) = Inr r'" using assms(2) Cons by simp
  show ?thesis
  proof (cases "j = DoneJob")
    case False
    then obtain v where v: "value_job env len j (rd_value r) = Inr v" "r' = r\<lparr>rd_todo := js, rd_value := v\<rparr>"
      using dj by (auto simp: do_job_value res_simps)
    have "in_round env len v0 a0 ps qs (done @ [j]) r'"
      using assms(1) sc vd v u nd False by (simp add: in_round_def value_jobs_snoc unanswered_def)
    then show ?thesis ..
  next
    case True
    let ?r = "r\<lparr>rd_todo := js, rd_finished := True\<rparr>" and ?d = "take len (rd_value r)"
    have js: "js = []" and n: "length ps = se_workers env"
      using script_Done_last [of "se_workers env" ps "done" js] sc True by simp_all
    have r': "r' = serve (se_workers env) ?d [] qs ?r" using dj True u by (simp add: unanswered_def)
    have "answered a0 ?d qs (se_workers env) r'"
      using serve_distinct [of qs ?r "se_workers env" ?d] assms(3-5) u
      unfolding r' answered_def unanswered_def by auto
    moreover have "value_jobs env len (done @ [j]) v0 = Inr (rd_value r)"
      using vd True by (subst value_jobs_snoc) simp
    moreover have "rd_value r' = rd_value r" "rd_todo r' = []" "rd_pushed r' = rd_pushed r" using r' js by simp_all
    moreover have "rd_pushed r = 0" using assms(1) n by (simp add: in_round_def)
    moreover have "DoneJob \<in> set (done @ [j])" using True by simp
    ultimately have "in_round env len v0 a0 ps qs (done @ [j]) r'"
      unfolding in_round_def using sc js n by auto
    then show ?thesis ..
  qed
qed

lemma in_round_run:
  assumes "round_run env len es r = Inr r'" and "in_round env len v0 a0 ps qs done r" and "0 < se_workers env"
    and "length (ps @ pushes es) \<le> se_workers env" and "length (qs @ pulls es) \<le> se_workers env"
    and "distinct (map km_sender (qs @ pulls es))"
  shows "\<exists>done'. in_round env len v0 a0 (ps @ pushes es) (qs @ pulls es) done' r'"
  using assms
proof (induction es arbitrary: r ps qs "done")
  case (Cons e es)
  then obtain r1 where s: "round_step env len e r = Inr r1" and rn: "round_run env len es r1 = Inr r'"
    by (auto simp: res_simps)
  show ?case
  proof (cases e)
    case (APush dt b)
    have "in_round env len v0 a0 (ps @ [(dt, b)]) qs done r1"
      using in_round_push [OF Cons.prems(2), of dt b] s APush Cons.prems(4) by simp
    from Cons.IH [OF rn this Cons.prems(3)] Cons.prems APush show ?thesis by simp
  next
    case (APull m)
    have "in_round env len v0 a0 ps (qs @ [m]) done r1"
      using in_round_pull [OF Cons.prems(2), of m] s APull Cons.prems(5,6) by auto
    from Cons.IH [OF rn this Cons.prems(3)] Cons.prems APull show ?thesis by simp
  next
    case AEngine
    have "length qs \<le> se_workers env" "distinct (map km_sender qs)" using Cons.prems(5,6) by simp_all
    then obtain done' where "in_round env len v0 a0 ps qs done' r1"
      using in_round_engine [OF Cons.prems(2)] s AEngine Cons.prems(3) by blast
    from Cons.IH [OF rn this Cons.prems(3)] Cons.prems AEngine show ?thesis by simp
  next
    case AOther
    then have "r1 = r" using s by simp
    with Cons.IH [OF rn _ Cons.prems(3)] Cons.prems AOther show ?thesis by simp
  qed
qed auto

lemma in_round_idle:
  assumes "idle r" and "0 < se_workers env"
  shows "in_round env len (rd_value r) (rd_answers r) [] [] [] r"
  using assms by (simp add: in_round_def idle_def unanswered_def)

end
