(* ===== verification/Server_Progress.thy ===== *)
theory Server_Progress
  imports Server_Delivery
begin

section \<open>The server goes on\<close>

text \<open>
  The other direction of the refinement: for well-formed requests of a key and turns of its thread,
  whatever the machine of the key can do the server does, without an error, up to the first event
  that needs the flags of the thread: a pull, or the end of a round. That event fails exactly if the
  vectors of flags are too short.
\<close>

subsection \<open>Requests\<close>

text \<open>
  A well-formed request for a key: one key, one length, the data of that length. Under the
  invariant it is accepted, once the key has a thread; the engine's turn then only depends on the
  jobs of the key.
\<close>

definition shaped :: "server_env \<Rightarrow> u64 \<Rightarrow> kv_pairs \<Rightarrow> bool" where
  "shaped env k kvs \<longleftrightarrow> (\<exists>b. kvs = \<lparr>kp_keys = [k + key_base env], kp_vals = \<lparr>sa_data = RecvMem b, sa_size = length b\<rparr>,
     kp_lens = [int (length b)]\<rparr> \<and> length b < 2 ^ 31)"

definition plain_type :: "kv_meta \<Rightarrow> bool" where
  "plain_type req \<longleftrightarrow> (\<exists>t. DepairDataHandleType (km_cmd req) = Inr t \<and>
     requestType t \<noteq> request_type_value kCompressedPushPull)"

lemma shaped_simps:
  assumes "shaped env k kvs"
  shows "kp_keys kvs = [k + key_base env]" "length (kp_lens kvs) = 1" "log_checks req kvs"
    "sa_size (kp_vals kvs) = unat (of_int (hd (kp_lens kvs)) :: u64)" "\<exists>b. sa_data (kp_vals kvs) = RecvMem b"
proof -
  obtain b where b: "kvs = \<lparr>kp_keys = [k + key_base env], kp_vals = \<lparr>sa_data = RecvMem b, sa_size = length b\<rparr>,
     kp_lens = [int (length b)]\<rparr>" "length b < 2 ^ 31"
    using assms by (auto simp: shaped_def)
  have "unat (of_int (int (length b)) :: u64) = length b"
    using b(2) by (simp add: unat_of_nat take_bit_nat_eq_self)
  then show "kp_keys kvs = [k + key_base env]" "length (kp_lens kvs) = 1" "log_checks req kvs"
    "sa_size (kp_vals kvs) = unat (of_int (hd (kp_lens kvs)) :: u64)" "\<exists>b. sa_data (kp_vals kvs) = RecvMem b"
    using b(1) by (simp_all add: log_checks_def)
qed

lemma SendPushResponse_ok: "server_ok env st \<Longrightarrow> \<exists>st'. SendPushResponse k req st = Inr st'"
proof -
  assume ok: "server_ok env st"
  have r: "\<exists>st'. Response req empty_kvs s = Inr st'" for s
    by (simp add: Response_def empty_kvs_def sarray_bytes_def)
  then show ?thesis
    using server_ok_pushD [OF ok, of k] by (cases "sv_push_response st k") (auto simp: SendPushResponse_def)
qed

lemma send_message_ok: "t < length (sv_queues st) \<Longrightarrow> \<exists>st'. send_message t ty k src ops kvs req st = Inr st'"
  by (simp add: send_message_def push_to_def Let_def)

lemma serving_thread:
  assumes "serving env k len st" and "sv_hash_cache st k = Some t"
  shows "t < length (sv_queues st)" "t < sv_threads st"
  using assms by (auto simp: serving_def key_inv_def key_state_def)

lemma round_push_ok:
  assumes "serving env k len st" and "sv_hash_cache st k = Some t"
  shows "\<exists>st'. round_push env ty k req kvs (RecvMem b) x st = Inr st'"
proof -
  have m: "sv_sync st" "\<not> sv_blocking st" using assms(1) by (simp_all add: serving_def)
  have g: "GetThreadID k x st = Inr (t, st)" using assms(2) by (simp add: GetThreadID_def)
  note tq = serving_thread(1) [OF assms]
  obtain st2 where p: "(if request_count k st = 0 then first_push env ty k t req kvs (RecvMem b) x st
      else other_push env ty k t req kvs (RecvMem b) x st) = Inr st2"
  proof (cases "request_count k st = 0")
    case True
    have "t < length (sv_queues (set_update k ((GetUpdateBuf k st)
        \<lparr>ub_merged := (ub_merged (GetUpdateBuf k st))\<lparr>ba_tmp := kvs\<rparr>\<rparr>) st))"
      using tq by (simp add: set_update_def)
    from send_message_ok [OF this, of ty k "RecvMem b" COPY_FIRST kvs req] obtain s2 where
      "send_message t ty k (RecvMem b) COPY_FIRST kvs req (set_update k ((GetUpdateBuf k st)
        \<lparr>ub_merged := (ub_merged (GetUpdateBuf k st))\<lparr>ba_tmp := kvs\<rparr>\<rparr>) st) = Inr s2" ..
    then show ?thesis using that True m by (simp add: first_push_def Let_def)
  next
    case False
    from send_message_ok [OF tq, of ty k "RecvMem b" SUM_RECV kvs req] obtain s2 where
      "send_message t ty k (RecvMem b) SUM_RECV kvs req st = Inr s2" ..
    then show ?thesis using that False m by (simp add: other_push_def)
  qed
  have c2: "keyed env k st st2"
    using p by (auto split: if_splits intro: keyed_first_push keyed_other_push)
  have ok2: "server_ok env (add_request k req st2)" and m2: "modes (add_request k req st2) = modes st"
    using keyed_trans [OF c2 keyed_add_request] assms(1) by (simp_all add: keyed_def serving_def)
  obtain st3 where q: "SendPushResponse k req (add_request k req st2) = Inr st3" using SendPushResponse_ok [OF ok2] by blast
  have l3: "length (sv_queues st3) = length (sv_queues st)"
  proof -
    obtain k' :: u64 where "k' \<noteq> k" by (metis add_cancel_left_right zero_neq_one)
    then have "key_state env k' st3 = key_state env k' st"
      using keyed_trans [OF keyed_trans [OF c2 keyed_add_request] keyed_SendPushResponse [OF q]] assms(1)
      by (simp add: keyed_def serving_def)
    then have "map (msgs_of k') (sv_queues st3) = map (msgs_of k') (sv_queues st)" by (simp add: key_state_def)
    then show ?thesis by (rule map_eq_imp_length_eq)
  qed
  have "modes st3 = modes st" using keyed_SendPushResponse [OF q, of env] ok2 m2 by (simp add: keyed_def)
  then have b3: "\<not> sv_blocking st3" using m by (simp add: modes_def)
  obtain st4 where s4: "send_message t ty k (ba_tensor (GetStore k st3)) ALL_RECV empty_kvs default_meta st3 = Inr st4"
    using send_message_ok tq l3 by metis
  then have "t < length (sv_queues st4)" using tq l3 by (auto simp: send_message_def push_to_def Let_def res_simps)
  then have "\<exists>st5. round_complete t ty k x st3 = Inr st5" using s4 b3 by (simp add: round_complete_def)
  then show ?thesis using g p q by (auto simp: round_push_def)
qed

lemma SendPullResponse_ok:
  assumes "serving env k len st" and "se_rank env < length (se_ranges env)"
    and "ba_tensor (ub_merged (GetUpdateBuf k st)) = StoreMem k" and "ba_len (ub_merged (GetUpdateBuf k st)) = len"
  shows "\<exists>st'. SendPullResponse env k req st = Inr st'"
proof -
  obtain v where v: "sv_mem st k = Some v" "len \<le> length v"
    using assms(1) by (auto simp: serving_def key_inv_def key_state_def)
  have "\<exists>k'. EncodeKey (se_ranges env) (se_rank env) k = Inr k'"
    using assms(2) by (simp add: EncodeKey_def split: prod.splits)
  then obtain r where "(case sv_pull_response st k of
      None \<Rightarrow> rbind (EncodeKey (se_ranges env) (se_rank env) k) (\<lambda>k. Inr (empty_kvs\<lparr>kp_keys := [k]\<rparr>))
    | Some r \<Rightarrow> Inr r) = Inr r"
    by (cases "sv_pull_response st k") auto
  then show ?thesis
    using assms(3,4) v by (simp add: SendPullResponse_def Response_def sarray_bytes_def get_at_def Let_def)
qed

lemma handle_pull_ok:
  assumes "serving env k len st" and "sv_hash_cache st k = Some t" and "se_rank env < length (se_ranges env)"
    and t: "t < length (sv_flags st)"
  shows "\<exists>st'. handle_pull env k req st = Inr st'"
proof -
  have m: "sv_sync st" "\<not> sv_blocking st" "ba_tensor (GetStore k st) = StoreMem k"
    using assms(1) by (simp_all add: serving_def key_inv_def key_state_def)
  have g: "GetThreadID k 0 st = Inr (t, st)" using assms(2) by (simp add: GetThreadID_def)
  let ?tf1 = "init_flags k (sv_flags st ! t)"
  have "\<exists>st2. SendPullResponse env k req st = Inr st2" if "map_at False (is_push_finished ?tf1) k"
  proof -
    have "fst (flags_of k (sv_flags st ! t)) = Some True"
      using that by (auto simp: flags_of_def init_flags_def map_at_def split: if_splits option.splits)
    then have "ba_tensor (ub_merged (GetUpdateBuf k st)) = StoreMem k \<and> ba_len (ub_merged (GetUpdateBuf k st)) = len"
      using serving_flags [OF assms(1,2) t, of ?thesis] by (metis fst_conv)
    then show ?thesis using SendPullResponse_ok [OF assms(1,3)] by blast
  qed
  then show ?thesis using m g t by (auto simp: handle_pull_def Let_def)
qed

subsection \<open>Turns of the engine\<close>

lemma answer_loop_ok:
  assumes "serving env k len st" and "se_rank env < length (se_ranges env)"
    and "ba_tensor (ub_merged (GetUpdateBuf k st)) = StoreMem k" and "ba_len (ub_merged (GetUpdateBuf k st)) = len"
  shows "\<exists>x. answer_loop env k kept ms tf st = Inr x"
  using assms
proof (induction env k kept ms tf st rule: answer_loop.induct)
  case (2 env key kept m ms tf st)
  note prems = "2.prems"
  show ?case
  proof (cases "km_sender m \<notin> map_at {} (seen_sender tf) key")
    case True
    obtain st1 :: server_state where s: "SendPullResponse env key m st = Inr st1"
      using SendPullResponse_ok [OF prems] by blast
    note o = own_pull_response [OF s prems(1,3,4)]
    show ?thesis
      using "2.IH"(1) [OF True, of "count_pull key (km_sender m) tf" st1] s True o(1,3) prems
      by (simp add: Let_def)
  next
    case False
    then show ?thesis using "2.IH"(2) prems by simp
  qed
qed simp

lemma answer_pulls_ok:
  assumes "serving env k len st" and "se_rank env < length (se_ranges env)" and "t < length (sv_flags st)"
    and "ba_tensor (ub_merged (GetUpdateBuf k st)) = StoreMem k" and "ba_len (ub_merged (GetUpdateBuf k st)) = len"
  shows "\<exists>st'. answer_pulls env t k st = Inr st'"
proof -
  let ?tf = "(init_flags k (sv_flags st ! t))\<lparr>is_push_finished := (is_push_finished (init_flags k (sv_flags st ! t)))(k \<mapsto> True)\<rparr>"
  have "\<exists>x. answer_loop env k [] w tf st = Inr x" for w tf
    by (rule answer_loop_ok [OF assms(1,2,4,5)])
  then obtain x where x: "answer_loop env k [] (map_at [] (q_pull_reqmeta ?tf) k) ?tf st = Inr x" by blast
  show ?thesis using assms(3) x by (cases x) (simp add: answer_pulls_def Let_def)
qed

lemma message_ok:
  assumes "do_job env len (job_of m) (round_of env k st) = Inr r'" and "serving env k len st"
    and "sv_hash_cache st k = Some t" and "job_msg k len m" and "se_rank env < length (se_ranges env)"
    and t: "job_of m = DoneJob \<Longrightarrow> t < length (sv_flags st)"
  shows "\<exists>st'. process_message env t m st = Inr st'"
proof -
  have inv: "key_inv k (sv_threads st) len (key_state env k st)" using assms(2) by (simp add: serving_def)
  then have c: "sv_compressors st (em_key m) = None"
    using assms(4) by (simp add: key_inv_def key_state_def job_msg_def)
  have m: "em_key m = k" "em_dst m = StoreMem k" "em_len m = len" using assms(4) by (simp_all add: job_msg_def)
  obtain v where v: "sv_mem st k = Some v" using inv by (auto simp: key_inv_def key_state_def)
  then have rv: "rd_value (round_of env k st) = v" by (simp add: round_of_def view_mem key_state_def)
  show ?thesis
  proof (cases "em_ops m = ALL_RECV")
    case True
    then have src: "em_src m = StoreMem k" using assms(4) by (auto simp: job_msg_def)
    note o = own_merged(1) [OF assms(2)]
    have "t < length (sv_flags (set_merged k (StoreMem k) len st))"
      using t True by (simp add: job_of_def set_merged_def set_update_def Let_def)
    then have "\<exists>st'. answer_pulls env t k (set_merged k (StoreMem k) len st) = Inr st'"
      by (rule answer_pulls_ok [OF o assms(5)]) (simp_all add: set_merged_def GetUpdateBuf_def set_update_def Let_def)
    then show ?thesis using True c m src by (simp add: process_message_def prepare_message_def)
  next
    case False
    then obtain b where b: "em_src m = RecvMem b" "em_ops m \<in> {COPY_FIRST, SUM_RECV}"
      using assms(4) by (auto simp: job_msg_def)
    then have p: "prepare_message env m st = Inr (RecvMem b, st)" using c by (auto simp: prepare_message_def)
    then show ?thesis
      using b assms(1) m v rv
      by (auto simp: process_message_def copy_mem_def sum_mem_def job_of_def recv_bytes_def res_simps)
  qed
qed

lemma engine_ok:
  assumes "round_step env len AEngine (round_of env k st) = Inr r'" and "serving env k len st"
    and "pq_queue (sv_queues st ! i) = m # ms" and "em_key m = k" and "i < length (sv_queues st)"
    and "se_rank env < length (se_ranges env)" and t: "job_of m = DoneJob \<Longrightarrow> i < length (sv_flags st)"
  shows "\<exists>st'. server_step env (EngineTurn i) st = Inr st'"
proof -
  obtain q' js where w: "WaitAndPop (sv_queues st ! i) = Some (m, q')" and h: "sv_hash_cache st k = Some i"
    and s1: "serving env k len (st\<lparr>sv_queues := (sv_queues st)[i := q']\<rparr>)"
    and r1: "round_of env k (st\<lparr>sv_queues := (sv_queues st)[i := q']\<rparr>) = (round_of env k st)\<lparr>rd_todo := js\<rparr>"
    and td: "rd_todo (round_of env k st) = job_of m # js" and j: "job_msg k len m"
    by (rule key_head [OF assms(2,5,3,4)])
  have "do_job env len (job_of m) (round_of env k (st\<lparr>sv_queues := (sv_queues st)[i := q']\<rparr>)) = Inr r'"
    using assms(1) r1 td by simp
  then obtain st2 where "process_message env i m (st\<lparr>sv_queues := (sv_queues st)[i := q']\<rparr>) = Inr st2"
    using message_ok [OF _ s1 _ j assms(6)] h t by auto
  then show ?thesis
    using w assms(5) j by (auto simp: engine_turn_def Let_def job_msg_def)
qed

subsection \<open>The thread of a key stays\<close>

lemma thread_write_mem: "write_mem p b st = Inr st' \<Longrightarrow> sv_hash_cache st' = sv_hash_cache st"
  by (cases p) (auto split: option.splits)

lemma thread_Response: "Response req kvs st = Inr st' \<Longrightarrow> sv_hash_cache st' = sv_hash_cache st"
  by (auto simp: Response_def res_simps)

lemma thread_push_response: "SendPushResponse k req st = Inr st' \<Longrightarrow> sv_hash_cache st' = sv_hash_cache st"
  by (auto simp: SendPushResponse_def split: option.splits dest!: thread_Response)

lemma thread_pull_response: "SendPullResponse env k req st = Inr st' \<Longrightarrow> sv_hash_cache st' = sv_hash_cache st"
  by (auto simp: SendPullResponse_def Let_def res_simps dest!: thread_Response)

lemma thread_send: "send_message t ty k src ops kvs req st = Inr st' \<Longrightarrow> sv_hash_cache st' = sv_hash_cache st"
  by (auto simp: send_message_def push_to_def Let_def res_simps)

lemma thread_copy_mem: "copy_mem dst src len st = Inr st' \<Longrightarrow> sv_hash_cache st' = sv_hash_cache st"
  by (auto simp: copy_mem_def res_simps dest!: thread_write_mem)

lemma thread_sum_mem: "sum_mem env dst src len dt st = Inr st' \<Longrightarrow> sv_hash_cache st' = sv_hash_cache st"
  by (auto simp: sum_mem_def res_simps dest!: thread_write_mem)

lemma thread_answer_loop:
  "answer_loop env k kept ms tf st = Inr (w, tf', st') \<Longrightarrow> sv_hash_cache st' = sv_hash_cache st"
  by (induction env k kept ms tf st rule: answer_loop.induct)
    (auto simp: Let_def res_simps split: if_splits dest!: thread_pull_response)

lemma thread_answer_pulls: "answer_pulls env i k st = Inr st' \<Longrightarrow> sv_hash_cache st' = sv_hash_cache st"
  by (auto simp: answer_pulls_def Let_def res_simps dest!: thread_answer_loop)

lemmas thread_keeps = thread_write_mem thread_push_response thread_pull_response thread_send thread_copy_mem
  thread_sum_mem thread_answer_pulls

lemma thread_GetThreadID: "GetThreadID k x st = Inr (t, st') \<Longrightarrow> sv_hash_cache st k' = Some i \<Longrightarrow> sv_hash_cache st' k' = Some i"
  by (auto simp: GetThreadID_def Let_def res_simps split: option.splits)

lemma thread_round_push:
  assumes "round_push env ty k req kvs p x st = Inr st'" and "sv_hash_cache st k' = Some i"
  shows "sv_hash_cache st' k' = Some i"
proof -
  have u: "sv_hash_cache (set_update k u s) = sv_hash_cache s" "sv_hash_cache (add_request k req s) = sv_hash_cache s"
    "sv_hash_cache (clear_request k s) = sv_hash_cache s" for u s
    by (simp_all add: set_update_def add_request_def clear_request_def Let_def)
  have f: "sv_hash_cache s2 = sv_hash_cache s1" if "first_push env ty k t req kvs p x s1 = Inr s2" for t s1 s2
    using that u by (auto simp: first_push_def Let_def split: if_splits dest!: thread_keeps)
  have o: "sv_hash_cache s2 = sv_hash_cache s1" if "other_push env ty k t req kvs p x s1 = Inr s2" for t s1 s2
    using that u by (auto simp: other_push_def Let_def res_simps split: if_splits dest!: thread_keeps)
  have c: "sv_hash_cache s2 = sv_hash_cache s1" if "round_complete t ty k x s1 = Inr s2" for t s1 s2
    using that u by (auto simp: round_complete_def Let_def res_simps split: if_splits dest!: thread_keeps)
  obtain t st1 st2 st3 where g: "GetThreadID k x st = Inr (t, st1)"
    and a: "(if request_count k st1 = 0 then first_push env ty k t req kvs p x st1
            else other_push env ty k t req kvs p x st1) = Inr st2"
    and b: "SendPushResponse k req (add_request k req st2) = Inr st3"
    and d: "(if sv_sync st3 \<and> request_count k st3 = se_workers env
       then rbind (round_complete t ty k x st3) (\<lambda>st4. Inr (clear_request k st4))
       else Inr (if sv_sync st3 then st3 else clear_request k st3)) = Inr st'"
    using assms(1) unfolding round_push_def by (auto simp: rbind_eq_Inr)
  have "sv_hash_cache st2 = sv_hash_cache st1" using a f o by (auto split: if_splits)
  moreover have "sv_hash_cache st3 = sv_hash_cache st2" using thread_push_response [OF b] u by simp
  moreover have "sv_hash_cache st' = sv_hash_cache st3" using d c u by (auto split: if_splits simp: res_simps)
  ultimately show ?thesis using thread_GetThreadID [OF g assms(2)] by simp
qed

lemma thread_handle_pull:
  assumes "handle_pull env k req st = Inr st'" and "sv_hash_cache st k' = Some i"
  shows "sv_hash_cache st' k' = Some i"
  using assms
  by (auto simp: handle_pull_def Let_def res_simps split: if_splits dest!: thread_keeps dest: thread_GetThreadID)

lemma thread_process: "process_message env i m st = Inr st' \<Longrightarrow> sv_hash_cache st' = sv_hash_cache st"
  by (auto simp: process_message_def prepare_message_def compress_merged_def decompress_received_def
    set_merged_def set_update_def set_compressor_def Let_def res_simps
    split: option.splits if_splits engine_op.splits dest!: thread_keeps)

lemma thread_engine: "server_step env (EngineTurn i) st = Inr st' \<Longrightarrow> sv_hash_cache st' = sv_hash_cache st"
  by (auto simp: engine_turn_def Let_def res_simps split: option.splits if_splits dest!: thread_process)

subsection \<open>Steps\<close>

text \<open>The requests of the workers for a key, and the turns of its thread; what they are for the machine.\<close>

fun key_event :: "server_env \<Rightarrow> u64 \<Rightarrow> nat \<Rightarrow> server_event \<Rightarrow> bool" where
  "key_event env k t (Request req kvs) \<longleftrightarrow> plain_type req \<and>
     (if km_push req then shaped env k kvs
      else kp_keys kvs = [k + key_base env] \<and> (\<exists>b. sa_data (kp_vals kvs) = RecvMem b))"
| "key_event env k t (EngineTurn i) \<longleftrightarrow> i = t"

fun key_view :: "server_event \<Rightarrow> round_event" where
  "key_view (Request req kvs) =
     (if km_push req
      then APush (case DepairDataHandleType (km_cmd req) of Inl e \<Rightarrow> 0 | Inr t \<Rightarrow> dht_dtype t) (recv_bytes (sa_data (kp_vals kvs)))
      else APull req)"
| "key_view (EngineTurn i) = AEngine"

definition own_queue :: "u64 \<Rightarrow> nat \<Rightarrow> server_state \<Rightarrow> bool" where
  "own_queue k t st \<longleftrightarrow> (\<forall>m \<in> set (pq_queue (sv_queues st ! t)). em_key m = k)"

lemma own_queue_iff:
  assumes "t < length (sv_queues st)"
  shows "own_queue k t st \<longleftrightarrow> (\<forall>k'. k' \<noteq> k \<longrightarrow> ks_msgs (key_state env k' st) ! t = [])"
  using assms by (auto simp: own_queue_def key_state_def msgs_of_def filter_empty_conv)

lemma key_event_facts:
  assumes "key_event env k t e"
  shows "event_ok e" "uncompressed env k e"
  using assms by (cases e; auto simp: shaped_def plain_type_def split: if_splits)+

lemma request_ok:
  assumes "serving env k len st" and "sv_hash_cache st k = Some t" and "key_event env k t (Request req kvs)"
    and "se_rank env < length (se_ranges env)" and t: "\<not> km_push req \<Longrightarrow> t < length (sv_flags st)"
  shows "\<exists>st'. server_step env (Request req kvs) st = Inr st'"
proof -
  obtain ty where ty: "DepairDataHandleType (km_cmd req) = Inr ty" "requestType ty \<noteq> request_type_value kCompressedPushPull"
    using assms(3) by (auto simp: plain_type_def)
  have ks: "kp_keys kvs = [k + key_base env]" using assms(3) by (auto simp: shaped_def split: if_splits)
  have d: "DecodeKey (se_ranges env) (se_rank env) (k + key_base env) = Inr k"
    using assms(4) by (simp add: DecodeKey_def key_base_def split: prod.splits)
  have lc: "log_checks req kvs"
    using assms(3) shaped_simps(3) by (cases "km_push req") (auto simp: log_checks_def)
  have st: "ba_tensor (GetStore k st) = StoreMem k"
    using assms(1) by (simp add: serving_def key_inv_def key_state_def)
  show ?thesis
  proof (cases "km_push req")
    case True
    then have sh: "shaped env k kvs" using assms(3) by simp
    obtain b where b: "sa_data (kp_vals kvs) = RecvMem b" using shaped_simps(5) [OF sh] ..
    obtain st' where "round_push env ty k req kvs (RecvMem b) (unat (of_int (hd (kp_lens kvs)) :: u64)) st = Inr st'"
      using round_push_ok [OF assms(1,2)] by blast
    then show ?thesis
      using ty ks d lc st b True shaped_simps(2,4) [OF sh]
      by (simp add: DeepIncServerHandle_def handle_push_def Let_def)
  next
    case False
    then show ?thesis
      using ty ks d lc handle_pull_ok [OF assms(1,2,4) t, of req] by (simp add: DeepIncServerHandle_def)
  qed
qed

lemma thread_request:
  assumes "server_step env (Request req kvs) st = Inr st'" and "serving env k len st" and "sv_hash_cache st k = Some t"
    and "key_event env k t (Request req kvs)"
  shows "sv_hash_cache st' k = Some t"
proof -
  have st: "ba_tensor (GetStore k st) = StoreMem k"
    using assms(2) by (simp add: serving_def key_inv_def key_state_def)
  obtain ty k' where ty: "DepairDataHandleType (km_cmd req) = Inr ty"
    and k': "DecodeKey (se_ranges env) (se_rank env) (hd (kp_keys kvs)) = Inr k'"
    and h: "(if requestType ty = request_type_value kCompressedPushPull then register_compressor env k' req kvs st
          else if km_push req then handle_push env ty k' req kvs st else handle_pull env k' req st) = Inr st'"
    using assms(1) unfolding server_step.simps DeepIncServerHandle_def
    by (elim rbindE checkE) (erule (2) that)
  have "k' = k" using DecodeKey_base [OF k'] assms(4) by (auto simp: shaped_def split: if_splits)
  moreover have "requestType ty \<noteq> request_type_value kCompressedPushPull"
    using assms(4) ty by (auto simp: plain_type_def)
  ultimately show ?thesis
    using h st assms(3)
    by (auto simp: handle_push_def Let_def res_simps split: if_splits dest: thread_round_push thread_handle_pull)
qed

text \<open>
  A pull and the end of a round look at the vectors of flags. The server does what the machine does
  if the key's thread has an entry there, and up to the first event that needs one if it has none.
\<close>

fun needs_flags :: "round_event \<Rightarrow> round_state \<Rightarrow> bool" where
  "needs_flags (APush dt b) r = False"
| "needs_flags (APull m) r = True"
| "needs_flags AEngine r = (case rd_todo r of DoneJob # js \<Rightarrow> True | _ \<Rightarrow> False)"
| "needs_flags AOther r = False"

fun quiet :: "server_env \<Rightarrow> nat \<Rightarrow> round_event list \<Rightarrow> round_state \<Rightarrow> bool" where
  "quiet env len [] r = True"
| "quiet env len (e # es) r =
     (\<not> needs_flags e r \<and> (case round_step env len e r of Inl x \<Rightarrow> True | Inr r' \<Rightarrow> quiet env len es r'))"

lemma round_todo:
  assumes "serving env k len st" and "sv_hash_cache st k = Some t" and "own_queue k t st"
  shows "rd_todo (round_of env k st) = map job_of (pq_queue (sv_queues st ! t))"
proof -
  have "rd_todo (round_of env k st) = map job_of (msgs_of k (sv_queues st ! t))"
    using assms(2) serving_thread(1) [OF assms(1,2)]
    by (simp add: round_of_def round_view_def msgs_at_def key_state_def split: prod.splits)
  then show ?thesis using assms(3) by (simp add: own_queue_def msgs_of_def filter_id_conv)
qed

lemma step_follows:
  assumes "serving env k len st" and "sv_hash_cache st k = Some t" and "own_queue k t st" and "key_event env k t e"
    and "se_rank env < length (se_ranges env)" and "round_step env len (key_view e) (round_of env k st) = Inr r'"
    and flags: "needs_flags (key_view e) (round_of env k st) \<Longrightarrow> t < length (sv_flags st)"
  shows "\<exists>st'. server_step env e st = Inr st' \<and> serving env k len st' \<and> sv_hash_cache st' k = Some t \<and>
    own_queue k t st' \<and> round_of env k st' = r' \<and> length (sv_flags st') = length (sv_flags st)"
proof -
  have tq: "t < length (sv_queues st)" by (rule serving_thread(1) [OF assms(1,2)])
  note todo = round_todo [OF assms(1-3)]
  have "\<exists>st'. server_step env e st = Inr st' \<and> sv_hash_cache st' k = Some t"
  proof (cases e)
    case (Request req kvs)
    then have "\<exists>st'. server_step env (Request req kvs) st = Inr st'"
      using assms(4) flags by (intro request_ok [OF assms(1,2) _ assms(5)]) simp_all
    then show ?thesis using Request thread_request [OF _ assms(1,2)] assms(4) by blast
  next
    case (EngineTurn i)
    then have i: "i = t" using assms(4) by simp
    have "\<exists>st'. server_step env (EngineTurn t) st = Inr st'"
    proof (cases "pq_queue (sv_queues st ! t)")
      case Nil
      then have "WaitAndPop (sv_queues st ! t) = None" by (simp add: WaitAndPop_def)
      then show ?thesis using tq by (simp add: engine_turn_def)
    next
      case (Cons m ms)
      then have "em_key m = k" using assms(3) by (simp add: own_queue_def)
      from engine_ok [OF _ assms(1) Cons this tq assms(5)] assms(6) EngineTurn flags todo Cons show ?thesis by simp
    qed
    then show ?thesis using EngineTurn i thread_engine [of env t st] assms(2) by auto
  qed
  then obtain st' where s: "server_step env e st = Inr st'" and h: "sv_hash_cache st' k = Some t" by blast
  note f = key_event_facts [OF assms(4)]
  have sr: "serving env k len st'" and rr: "round_step env len (event_view env k st e) (round_of env k st) = Inr (round_of env k st')"
    using step_refines [OF assms(1) s f] by simp_all
  have "round_step env len (key_view e) (round_of env k st) = round_step env len (event_view env k st e) (round_of env k st)"
  proof (cases e)
    case (Request req kvs)
    then have "hd (kp_keys kvs) - key_base env = k" using assms(4) by (auto simp: shaped_def split: if_splits)
    then show ?thesis using Request by simp
  next
    case (EngineTurn i)
    then show ?thesis using assms(3,4) todo by (auto simp: own_queue_def split: list.splits)
  qed
  then have r': "round_of env k st' = r'" using rr assms(6) by simp
  have "server_ok env st" using assms(1) by (simp add: serving_def)
  note st = step_ok [OF s this f(1)]
  have ek: "event_key env st e \<noteq> Some k'" if "k' \<noteq> k" for k'
    using assms(3,4) that by (cases e) (auto simp: shaped_def own_queue_def split: if_splits list.splits)
  have "own_queue k t st'"
    using assms(3) st ek own_queue_iff [OF serving_thread(1) [OF sr h], of k env] own_queue_iff [OF tq, of k env] by simp
  moreover have "length (sv_flags st') = length (sv_flags st)" by (rule flags_length [OF s _ f(1)]) fact
  ultimately show ?thesis using s sr h r' by blast
qed

lemma run_follows:
  assumes "serving env k len st" and "sv_hash_cache st k = Some t" and "own_queue k t st"
    and "\<forall>e \<in> set es. key_event env k t e" and "se_rank env < length (se_ranges env)"
    and "round_run env len (map key_view es) (round_of env k st) = Inr r'"
    and "t < length (sv_flags st) \<or> quiet env len (map key_view es) (round_of env k st)"
  shows "\<exists>st'. server_run env es st = Inr st' \<and> serving env k len st' \<and> sv_hash_cache st' k = Some t \<and>
    own_queue k t st' \<and> round_of env k st' = r' \<and> length (sv_flags st') = length (sv_flags st)"
  using assms
proof (induction es arbitrary: st)
  case (Cons e es)
  obtain r1 where r1: "round_step env len (key_view e) (round_of env k st) = Inr r1"
    and rr: "round_run env len (map key_view es) r1 = Inr r'"
    using Cons.prems(6) by (auto simp: res_simps)
  have k: "key_event env k t e" using Cons.prems(4) by simp
  have "needs_flags (key_view e) (round_of env k st) \<Longrightarrow> t < length (sv_flags st)" using Cons.prems(7) by auto
  from step_follows [OF Cons.prems(1-3) k Cons.prems(5) r1 this] obtain st1 where
    s: "server_step env e st = Inr st1" and "serving env k len st1" "sv_hash_cache st1 k = Some t" "own_queue k t st1"
    "round_of env k st1 = r1" and l: "length (sv_flags st1) = length (sv_flags st)" by blast
  moreover have "t < length (sv_flags st1) \<or> quiet env len (map key_view es) r1" using Cons.prems(7) r1 l by auto
  ultimately show ?case using Cons.IH [of st1] Cons.prems(4,5) rr by simp
qed simp

text \<open>Without an entry for the thread, the events that need one fail.\<close>

lemma step_stops:
  assumes "serving env k len st" and "sv_hash_cache st k = Some t" and "own_queue k t st" and "key_event env k t e"
    and "needs_flags (key_view e) (round_of env k st)" and "\<not> t < length (sv_flags st)"
  shows "\<exists>x. server_step env e st = Inl x"
proof (cases "server_step env e st")
  case (Inr st')
  have m: "sv_sync st" "\<not> sv_blocking st" using assms(1) by (simp_all add: serving_def)
  have False
  proof (cases e)
    case (Request req kvs)
    then have p: "\<not> km_push req" and ks: "kp_keys kvs = [k + key_base env]" and pt: "plain_type req"
      using assms(4,5) by (auto split: if_splits)
    obtain ty k' where ty: "DepairDataHandleType (km_cmd req) = Inr ty"
      and k': "DecodeKey (se_ranges env) (se_rank env) (hd (kp_keys kvs)) = Inr k'"
      and h: "(if requestType ty = request_type_value kCompressedPushPull then register_compressor env k' req kvs st
            else if km_push req then handle_push env ty k' req kvs st else handle_pull env k' req st) = Inr st'"
      using Inr unfolding Request server_step.simps DeepIncServerHandle_def
      by (elim rbindE checkE) (erule (2) that)
    have "k' = k" using DecodeKey_base [OF k'] ks by simp
    then have "handle_pull env k req st = Inr st'" using h p pt ty by (auto simp: plain_type_def)
    moreover have "GetThreadID k 0 st = Inr (t, st)" using assms(2) by (simp add: GetThreadID_def)
    ultimately show False using m assms(6) by (auto simp: handle_pull_def res_simps)
  next
    case (EngineTurn i)
    then have i: "i = t" using assms(4) by simp
    have tq: "t < length (sv_queues st)" by (rule serving_thread(1) [OF assms(1,2)])
    obtain q ms where q: "pq_queue (sv_queues st ! t) = q # ms" and d: "job_of q = DoneJob"
      using assms(5) EngineTurn round_todo [OF assms(1-3)] by (auto split: list.splits job.splits)
    have kq: "em_key q = k" using assms(3) q by (simp add: own_queue_def)
    obtain q' js where w: "WaitAndPop (sv_queues st ! t) = Some (q, q')" and j: "job_msg k len q"
      and s1: "serving env k len (st\<lparr>sv_queues := (sv_queues st)[t := q']\<rparr>)"
      by (rule key_head [OF assms(1) tq q kq])
    have a: "em_ops q = ALL_RECV" "em_src q = StoreMem k" using d j by (auto simp: job_of_def job_msg_def)
    have c: "sv_compressors st k = None" using assms(1) by (simp add: serving_def key_inv_def key_state_def)
    have "process_message env t q (st\<lparr>sv_queues := (sv_queues st)[t := q']\<rparr>) = Inr st'"
      using Inr EngineTurn i tq w a by (auto simp: engine_turn_def Let_def res_simps)
    then show False
      using a c kq assms(6)
      by (auto simp: process_message_def prepare_message_def answer_pulls_def set_merged_def set_update_def Let_def res_simps)
  qed
  then show ?thesis ..
qed simp

subsection \<open>What is sent\<close>

definition ack :: "kv_meta \<Rightarrow> response" where
  "ack r = \<lparr>rp_meta = r, rp_keys = [], rp_lens = [], rp_data = []\<rparr>"

lemma sent_push_response:
  assumes "SendPushResponse k req st = Inr st'" and "server_ok env st"
  shows "sv_sent st' = sv_sent st @ [ack req]"
  using assms server_ok_pushD [OF assms(2), of k]
  by (cases "sv_push_response st k") (auto simp: SendPushResponse_def Response_def empty_kvs_def sarray_bytes_def ack_def)

lemma sent_write_mem: "write_mem p b st = Inr st' \<Longrightarrow> sv_sent st' = sv_sent st"
  by (cases p) (auto split: option.splits)

lemma sent_send: "send_message t ty k src ops kvs req st = Inr st' \<Longrightarrow> sv_sent st' = sv_sent st"
  by (auto simp: send_message_def push_to_def Let_def res_simps)

lemma sent_round_push:
  assumes "round_push env ty k req kvs (RecvMem b) x st = Inr st'" and "serving env k len st"
  shows "sv_sent st' = sv_sent st @ [ack req]"
proof -
  have u: "sv_sent (set_update k u s) = sv_sent s" "sv_sent (add_request k req s) = sv_sent s"
    "sv_sent (clear_request k s) = sv_sent s" for u s
    by (simp_all add: set_update_def add_request_def clear_request_def Let_def)
  obtain t st1 st2 st3 where g: "GetThreadID k x st = Inr (t, st1)"
    and a: "(if request_count k st1 = 0 then first_push env ty k t req kvs (RecvMem b) x st1
            else other_push env ty k t req kvs (RecvMem b) x st1) = Inr st2"
    and b: "SendPushResponse k req (add_request k req st2) = Inr st3"
    and d: "(if sv_sync st3 \<and> request_count k st3 = se_workers env
       then rbind (round_complete t ty k x st3) (\<lambda>st4. Inr (clear_request k st4))
       else Inr (if sv_sync st3 then st3 else clear_request k st3)) = Inr st'"
    using assms(1) unfolding round_push_def by (auto simp: rbind_eq_Inr)
  have g1: "sv_sent st1 = sv_sent st"
    using g by (auto simp: GetThreadID_def Let_def res_simps split: option.splits)
  have m1: "sv_sync st1" "\<not> sv_blocking st1" using own_thread [OF g assms(2)] by (simp_all add: serving_def)
  have g2: "sv_sent st2 = sv_sent st1"
    using a m1 by (auto simp: first_push_def other_push_def Let_def u split: if_splits dest!: sent_send)
  have "keyed env k st st2"
    by (rule keyed_trans [OF keyed_GetThreadID [OF g]])
      (use a in \<open>auto split: if_splits intro: keyed_first_push keyed_other_push\<close>)
  from keyed_trans [OF this keyed_add_request [of env k st2 req]]
  have o2: "server_ok env (add_request k req st2)" and "modes (add_request k req st2) = modes st"
    using assms(2) by (simp_all add: keyed_def serving_def)
  then have "modes st3 = modes st" using keyed_SendPushResponse [OF b, of env] o2 by (simp add: keyed_def)
  then have m3: "\<not> sv_blocking st3" using assms(2) by (simp add: serving_def modes_def)
  have "sv_sent st3 = sv_sent st2 @ [ack req]" using sent_push_response [OF b o2] u by simp
  moreover have "sv_sent st' = sv_sent st3"
    using d u m3 by (auto simp: round_complete_def res_simps split: if_splits dest!: sent_send)
  ultimately show ?thesis using g1 g2 by simp
qed

text \<open>A push is acknowledged at once; the engine answers nothing before the end of the round.\<close>

fun acks :: "server_event \<Rightarrow> response list" where
  "acks (Request req kvs) = [ack req]"
| "acks (EngineTurn i) = []"

lemma step_sends:
  assumes "server_step env e st = Inr st'" and "serving env k len st" and "sv_hash_cache st k = Some t"
    and "own_queue k t st" and "key_event env k t e" and "\<not> needs_flags (key_view e) (round_of env k st)"
  shows "sv_sent st' = sv_sent st @ acks e"
proof (cases e)
  case (Request req kvs)
  then have p: "km_push req" and sh: "shaped env k kvs" and pt: "plain_type req"
    using assms(5,6) by (auto split: if_splits)
  obtain b where b: "sa_data (kp_vals kvs) = RecvMem b" using shaped_simps(5) [OF sh] ..
  obtain ty k' where ty: "DepairDataHandleType (km_cmd req) = Inr ty"
    and k': "DecodeKey (se_ranges env) (se_rank env) (hd (kp_keys kvs)) = Inr k'"
    and h: "(if requestType ty = request_type_value kCompressedPushPull then register_compressor env k' req kvs st
          else if km_push req then handle_push env ty k' req kvs st else handle_pull env k' req st) = Inr st'"
    using assms(1) unfolding Request server_step.simps DeepIncServerHandle_def
    by (elim rbindE checkE) (erule (2) that)
  have "k' = k" using DecodeKey_base [OF k'] shaped_simps(1) [OF sh] by simp
  then have "handle_push env ty k req kvs st = Inr st'" using h p pt ty by (auto simp: plain_type_def)
  moreover have "ba_tensor (GetStore k st) = StoreMem k"
    using assms(2) by (simp add: serving_def key_inv_def key_state_def)
  ultimately obtain x where "round_push env ty k req kvs (RecvMem b) x st = Inr st'"
    using b by (auto simp: handle_push_def Let_def res_simps)
  from sent_round_push [OF this assms(2)] show ?thesis using Request by simp
next
  case (EngineTurn i)
  then have i: "i = t" using assms(5) by simp
  have tq: "t < length (sv_queues st)" by (rule serving_thread(1) [OF assms(2,3)])
  show ?thesis
  proof (cases "pq_queue (sv_queues st ! t)")
    case Nil
    then have "WaitAndPop (sv_queues st ! t) = None" by (simp add: WaitAndPop_def)
    then show ?thesis using assms(1) EngineTurn i by (auto simp: engine_turn_def res_simps)
  next
    case (Cons q ms)
    have kq: "em_key q = k" using assms(4) Cons by (simp add: own_queue_def)
    obtain q' js where w: "WaitAndPop (sv_queues st ! t) = Some (q, q')" and j: "job_msg k len q"
      by (rule key_head [OF assms(2) tq Cons kq])
    have "job_of q \<noteq> DoneJob"
      using assms(6) EngineTurn round_todo [OF assms(2-4)] Cons by (auto split: job.splits)
    then obtain b where b: "em_ops q \<in> {COPY_FIRST, SUM_RECV}" "em_src q = RecvMem b"
      using j by (auto simp: job_of_def job_msg_def)
    have c: "sv_compressors st k = None" using assms(2) by (simp add: serving_def key_inv_def key_state_def)
    have "process_message env t q (st\<lparr>sv_queues := (sv_queues st)[t := q']\<rparr>) = Inr st'"
      using assms(1) EngineTurn i tq w b by (auto simp: engine_turn_def Let_def res_simps)
    then show ?thesis
      using b c kq EngineTurn
      by (auto simp: process_message_def prepare_message_def copy_mem_def sum_mem_def res_simps dest!: sent_write_mem)
  qed
qed

subsection \<open>The machine goes on\<close>

lemma value_jobs_append: "value_jobs env len (xs @ ys) v = rbind (value_jobs env len xs v) (value_jobs env len ys)"
proof (induction xs arbitrary: v)
  case (Cons x xs)
  then have "value_jobs env len (xs @ ys) = (\<lambda>v. rbind (value_jobs env len xs v) (value_jobs env len ys))" by (rule ext)
  then show ?case by (simp add: rbind_assoc)
qed simp

lemma sum_pushes_prefix:
  assumes "sum_pushes env len v (ps @ qs) = Inr y"
  shows "\<exists>x. sum_pushes env len v ps = Inr x"
  using assms
proof (induction qs arbitrary: y rule: rev_induct)
  case (snoc q qs)
  obtain dt b where q: "q = (dt, b)" by (cases q)
  let ?n = "length (ps @ qs) + 2"
  have "script ?n ((ps @ qs) @ [(dt, b)]) = script ?n (ps @ qs) @ [if ps @ qs = [] then CopyJob b else SumJob dt b]"
    by (subst script_snoc) simp_all
  then have "rbind (value_jobs env len (script ?n (ps @ qs)) v)
      (value_jobs env len [if ps @ qs = [] then CopyJob b else SumJob dt b]) = Inr y"
    using snoc.prems q value_script [of env len ?n "(ps @ qs) @ [(dt, b)]" v] by (simp only: value_jobs_append append_assoc)
  then obtain x where "value_jobs env len (script ?n (ps @ qs)) v = Inr x"
    by (cases "value_jobs env len (script ?n (ps @ qs)) v") auto
  then show ?case using snoc.IH by (simp add: value_script)
qed simp

lemma in_round_goes:
  assumes "in_round env len v0 a0 ps qs done r" and "0 < se_workers env"
    and "length (ps @ pushes es) \<le> se_workers env" and "length (qs @ pulls es) \<le> se_workers env"
    and "distinct (map km_sender (qs @ pulls es))" and "sum_pushes env len v0 (ps @ pushes es) = Inr v"
  shows "\<exists>r'. round_run env len es r = Inr r'"
  using assms
proof (induction es arbitrary: r ps qs "done")
  case (Cons e es)
  have "\<exists>r1. round_step env len e r = Inr r1"
  proof (cases e)
    case AEngine
    show ?thesis
    proof (cases "rd_todo r")
      case Nil
      then show ?thesis using AEngine by simp
    next
      case (Cons j js)
      obtain x where "sum_pushes env len v0 ps = Inr x" using sum_pushes_prefix [OF Cons.prems(6)] by blast
      then have "value_jobs env len (script (se_workers env) ps) v0 = Inr x" by (simp add: value_script)
      moreover have "script (se_workers env) ps = done @ j # js" "value_jobs env len done v0 = Inr (rd_value r)"
        using Cons.prems(1) Cons by (simp_all add: in_round_def)
      ultimately have "\<exists>w. value_job env len j (rd_value r) = Inr w"
        by (cases "value_job env len j (rd_value r)") (simp_all add: value_jobs_append)
      then show ?thesis using Cons AEngine by (cases j) auto
    qed
  qed simp_all
  then obtain r1 where r1: "round_step env len e r = Inr r1" ..
  have one: "round_run env len [e] r = Inr r1" using r1 by simp
  have ln: "length (ps @ pushes [e]) \<le> se_workers env" "length (qs @ pulls [e]) \<le> se_workers env"
    "distinct (map km_sender (qs @ pulls [e]))"
    "(ps @ pushes [e]) @ pushes es = ps @ pushes (e # es)" "(qs @ pulls [e]) @ pulls es = qs @ pulls (e # es)"
    using Cons.prems(3-5) by (cases e; simp)+
  obtain done' where "in_round env len v0 a0 (ps @ pushes [e]) (qs @ pulls [e]) done' r1"
    using in_round_run [OF one Cons.prems(1,2) ln(1-3)] by blast
  from Cons.IH [OF this Cons.prems(2)] Cons.prems(3-6) r1 show ?case by (simp only: ln) simp
qed simp

lemma engines_todo:
  assumes "round_run env len (replicate n AEngine) r = Inr r'"
  shows "rd_todo r' = drop n (rd_todo r)"
  using assms
proof (induction n arbitrary: r)
  case (Suc n)
  then obtain r1 where s: "round_step env len AEngine r = Inr r1" and r: "round_run env len (replicate n AEngine) r1 = Inr r'"
    by (auto simp: res_simps)
  have "rd_todo r1 = tl (rd_todo r)"
  proof (cases "rd_todo r")
    case (Cons j js)
    then show ?thesis using s by (cases j) (auto simp: res_simps)
  qed (use s in simp)
  then show ?case using Suc.IH [OF r] by (simp add: drop_Suc)
qed simp

lemma no_more [simp]: "pushes (replicate n AEngine) = []" "pulls (replicate n AEngine) = []"
  by (induction n) simp_all

text \<open>
  Without pulls, and with no more turns than there are workers, nothing needs the vectors of flags:
  the message that ends the round stays in the queue.
\<close>

fun turns :: "round_event list \<Rightarrow> nat" where
  "turns [] = 0"
| "turns (AEngine # es) = Suc (turns es)"
| "turns (_ # es) = turns es"

lemma turns_append [simp]: "turns (es @ fs) = turns es + turns fs"
  by (induction es rule: turns.induct) simp_all

lemma turns_replicate [simp]: "turns (replicate n AEngine) = n"
  by (induction n) simp_all

lemma script_nth:
  assumes "i < length (script N ps)" and "script N ps ! i = DoneJob"
  shows "i = length ps \<and> length ps = N"
proof -
  define work where "work = (case ps of [] \<Rightarrow> [] | (dt, b) # qs \<Rightarrow> CopyJob b # map (\<lambda>(dt, b). SumJob dt b) qs)"
  have w: "DoneJob \<notin> set work" "length work = length ps" by (auto simp: work_def split: list.splits)
  have sc: "script N ps = work @ (if length ps = N then [DoneJob] else [])" by (simp add: script_def work_def)
  show ?thesis
  proof (cases "i < length work")
    case True
    then have "work ! i = DoneJob" using assms(2) sc by (simp add: nth_append)
    then show ?thesis using w(1) True nth_mem by force
  next
    case False
    then show ?thesis using assms(1) sc w(2) by (auto split: if_splits)
  qed
qed

lemma script_length_eq: "length (script N ps) = length ps + (if length ps = N then 1 else 0)"
  by (simp add: script_def split: list.splits)

lemma script_drop_last: "length ps = N \<Longrightarrow> drop N (script N ps) = [DoneJob]"
  by (auto simp: script_def drop_Cons split: list.splits nat.splits)

lemma engine_todo:
  assumes "round_step env len AEngine r = Inr r1"
  shows "rd_todo r1 = tl (rd_todo r)" "rd_pushed r1 = rd_pushed r"
proof -
  have "rd_todo r1 = tl (rd_todo r) \<and> rd_pushed r1 = rd_pushed r"
  proof (cases "rd_todo r")
    case (Cons j js)
    then show ?thesis using assms by (cases j) (auto simp: res_simps)
  qed (use assms in simp)
  then show "rd_todo r1 = tl (rd_todo r)" "rd_pushed r1 = rd_pushed r" by simp_all
qed

lemma quiet_run:
  assumes "round_run env len es r = Inr r'" and "rd_todo r = drop d (script (se_workers env) ps)"
    and "d \<le> length (script (se_workers env) ps)"
    and "rd_pushed r = (if length ps = se_workers env then 0 else length ps)"
    and "length (ps @ pushes es) \<le> se_workers env" and "pulls es = []" and "d + turns es \<le> se_workers env"
  shows "quiet env len es r \<and> (\<exists>d' \<le> d + turns es. rd_todo r' = drop d' (script (se_workers env) (ps @ pushes es)))"
  using assms
proof (induction es arbitrary: r ps d)
  case Nil
  then show ?case by (auto intro: exI [of _ d])
next
  case (Cons e es)
  let ?N = "se_workers env"
  obtain r1 where s: "round_step env len e r = Inr r1" and rn: "round_run env len es r1 = Inr r'"
    using Cons.prems(1) by (auto simp: res_simps)
  show ?case
  proof (cases e)
    case (APush dt b)
    have l: "length ps < ?N" using Cons.prems(5) APush by simp
    have sc: "script ?N (ps @ [(dt, b)]) =
        script ?N ps @ (if ps = [] then CopyJob b else SumJob dt b) # (if length ps + 1 = ?N then [DoneJob] else [])"
      by (rule script_snoc [OF l])
    have r1: "r1 = push_round ?N dt b r" using s APush by simp
    have "rd_todo r1 = drop d (script ?N (ps @ [(dt, b)]))" "rd_pushed r1 = (if length (ps @ [(dt, b)]) = ?N then 0 else length (ps @ [(dt, b)]))"
      using Cons.prems(2-4) l unfolding r1 by (simp_all add: push_round_def sc)
    moreover have "d \<le> length (script ?N (ps @ [(dt, b)]))" using Cons.prems(3) sc by simp
    ultimately show ?thesis using Cons.IH [OF rn, of d "ps @ [(dt, b)]"] Cons.prems(5-7) APush s by simp
  next
    case (APull m)
    then show ?thesis using Cons.prems(6) by simp
  next
    case AEngine
    have nf: "\<not> needs_flags AEngine r"
    proof
      assume "needs_flags AEngine r"
      then obtain js where js: "drop d (script ?N ps) = DoneJob # js" using Cons.prems(2) by (auto split: list.splits job.splits)
      then have "d < length (script ?N ps)" by (metis drop_all list.distinct(1) not_le)
      moreover from this have "script ?N ps ! d = DoneJob" using js by (metis Cons_nth_drop_Suc list.inject)
      ultimately have "d = ?N" using script_nth by blast
      then show False using Cons.prems(7) AEngine by simp
    qed
    define d1 where "d1 = min (Suc d) (length (script ?N ps))"
    have "rd_todo r1 = drop d1 (script ?N ps)"
      using engine_todo(1) [OF s [unfolded AEngine]] Cons.prems(2,3)
      by (cases "d = length (script ?N ps)") (simp_all add: d1_def drop_Suc tl_drop min_def)
    moreover have "rd_pushed r1 = (if length ps = ?N then 0 else length ps)"
      using engine_todo(2) [OF s [unfolded AEngine]] Cons.prems(4) by simp
    moreover have "d1 \<le> length (script ?N ps)" "d1 \<le> Suc d" by (simp_all add: d1_def)
    ultimately have "quiet env len es r1 \<and> (\<exists>d' \<le> d1 + turns es. rd_todo r' = drop d' (script ?N (ps @ pushes es)))"
      using Cons.prems(5-7) AEngine by (intro Cons.IH [OF rn]) simp_all
    then obtain d' where q: "quiet env len es r1" and d': "d' \<le> d1 + turns es"
      and t: "rd_todo r' = drop d' (script ?N (ps @ pushes es))" by blast
    have "d' \<le> d + turns (e # es)" using d' \<open>d1 \<le> Suc d\<close> AEngine by simp
    moreover have "quiet env len (e # es) r" using s AEngine nf q by simp
    moreover have "pushes (e # es) = pushes es" using AEngine by simp
    ultimately show ?thesis using t by metis
  next
    case AOther
    then have "r1 = r" using s by simp
    then show ?thesis using Cons.IH [OF rn, of d ps] Cons.prems(2-7) AOther s by simp
  qed
qed

lemma machine_served:
  assumes "idle r" and "0 < se_workers env" and "length (pushes es) = se_workers env" and "pulls es = []"
    and "turns es \<le> se_workers env" and "sum_pushes env len (rd_value r) (pushes es) = Inr v"
  shows "\<exists>m r'. m \<le> se_workers env \<and> round_run env len (es @ replicate m AEngine) r = Inr r' \<and>
    quiet env len (es @ replicate m AEngine) r \<and> rd_todo r' = [DoneJob] \<and> rd_value r' = v"
proof -
  let ?N = "se_workers env"
  note i = in_round_idle [OF assms(1,2), of len]
  have id: "rd_todo r = drop 0 (script ?N [])" "rd_pushed r = (if length [] = ?N then 0 else length [])"
    using assms(1,2) by (simp_all add: idle_def)
  have go: "\<exists>r'. round_run env len (es @ replicate m AEngine) r = Inr r'" for m
    by (rule in_round_goes [OF i assms(2)]) (use assms(3,4,6) in simp_all)
  obtain r1 where r1: "round_run env len es r = Inr r1" using go [of 0] by auto
  have "quiet env len es r \<and> (\<exists>d' \<le> 0 + turns es. rd_todo r1 = drop d' (script ?N ([] @ pushes es)))"
    using assms(3-5) by (intro quiet_run [OF r1 id(1) _ id(2)]) simp_all
  then obtain d where "d \<le> turns es" and d2: "rd_todo r1 = drop d (script ?N (pushes es))" by auto
  then have d: "d \<le> ?N" "rd_todo r1 = drop d (script ?N (pushes es))" using assms(5) by simp_all
  define m where "m = ?N - d"
  have m: "m \<le> ?N" "d + m = ?N" using d(1) by (simp_all add: m_def)
  obtain r' where r': "round_run env len (es @ replicate m AEngine) r = Inr r'" using go by blast
  then have e: "round_run env len (replicate m AEngine) r1 = Inr r'" using r1 by (simp add: round_run_append)
  have todo: "rd_todo r' = [DoneJob]"
    using engines_todo [OF e] d(2) m(2) script_drop_last [OF assms(3)] by (simp add: add.commute)
  obtain done' where dn: "in_round env len (rd_value r) (rd_answers r) (pushes es) [] done' r'"
    using in_round_run [OF r' i assms(2)] assms(3,4) by auto
  then have sc: "script ?N (pushes es) = done' @ [DoneJob]" "value_jobs env len done' (rd_value r) = Inr (rd_value r')"
    using todo by (simp_all add: in_round_def)
  have "value_jobs env len (script ?N (pushes es)) (rd_value r) = Inr (rd_value r')"
    unfolding sc(1) by (simp add: value_jobs_snoc sc(2))
  then have v: "rd_value r' = v" using assms(6) by (simp add: value_script)
  have pr1: "quiet env len (replicate n AEngine) x"
    if "round_run env len (replicate n AEngine) x = Inr y" "rd_todo x = drop c (script ?N (pushes es))" "c + n \<le> ?N" for n c x y
    using that
  proof (induction n arbitrary: x c)
    case (Suc n)
    obtain x1 where x1: "round_step env len AEngine x = Inr x1" and y: "round_run env len (replicate n AEngine) x1 = Inr y"
      using Suc.prems(1) by (auto simp: res_simps)
    have c: "c < length (script ?N (pushes es))" using Suc.prems(3) assms(3) by (simp add: script_length_eq)
    have "\<not> needs_flags AEngine x"
    proof
      assume "needs_flags AEngine x"
      then have "script ?N (pushes es) ! c = DoneJob"
        using Suc.prems(2) Cons_nth_drop_Suc [OF c] by (auto split: list.splits job.splits)
      then show False using script_nth [OF c] Suc.prems(3) assms(3) by simp
    qed
    moreover have "rd_todo x1 = drop (Suc c) (script ?N (pushes es))"
      using engine_todo(1) [OF x1] Suc.prems(2) by (simp add: drop_Suc tl_drop)
    ultimately show ?case using Suc.IH [OF y, of "Suc c"] Suc.prems(3) x1 by simp
  qed simp
  have qa: "quiet env len (xs @ ys) x" if "quiet env len xs x" "round_run env len xs x = Inr y" "quiet env len ys y" for xs ys x y
    using that by (induction xs arbitrary: x) (auto simp: res_simps)
  have "quiet env len (es @ replicate m AEngine) r"
    using m \<open>quiet env len es r \<and> _\<close> by (intro qa [OF _ r1 pr1 [OF e d(2)]]) simp_all
  then show ?thesis using m(1) r' todo v by blast
qed

text \<open>The first push of a key gives it its thread, and is then like any other.\<close>

lemma push_of_thread:
  assumes "serving env k len st" and "GetThreadID k (sa_size (kp_vals kvs)) st = Inr (t, st1)"
    and "km_push req" and "key_event env k t (Request req kvs)"
  shows "server_step env (Request req kvs) st = server_step env (Request req kvs) st1"
proof -
  have sh: "shaped env k kvs" using assms(3,4) by simp
  obtain ty where ty: "DepairDataHandleType (km_cmd req) = Inr ty" "requestType ty \<noteq> request_type_value kCompressedPushPull"
    using assms(4) by (auto simp: plain_type_def)
  have s1: "serving env k len st1" and h1: "sv_hash_cache st1 k = Some t"
    using own_thread [OF assms(2,1)] by simp_all
  have st: "ba_tensor (GetStore k s) = StoreMem k" if "serving env k len s" for s
    using that by (simp add: serving_def key_inv_def key_state_def)
  have "GetThreadID k (sa_size (kp_vals kvs)) st1 = Inr (t, st1)" using h1 by (simp add: GetThreadID_def)
  then have "round_push env y k req kvs p (sa_size (kp_vals kvs)) st = round_push env y k req kvs p (sa_size (kp_vals kvs)) st1" for y p
    using assms(2) by (simp add: round_push_def)
  moreover have "k' = k" if "DecodeKey (se_ranges env) (se_rank env) (hd (kp_keys kvs)) = Inr k'" for k'
    using DecodeKey_base [OF that] shaped_simps(1) [OF sh] by simp
  moreover have "sv_log st1 = sv_log st"
    using assms(2) by (auto simp: GetThreadID_def Let_def res_simps split: option.splits)
  ultimately show ?thesis
    using ty shaped_simps(1,2,3,4) [OF sh] st [OF assms(1)] st [OF s1] assms(3)
    by (cases "DecodeKey (se_ranges env) (se_rank env) (hd (kp_keys kvs))")
      (auto simp: DeepIncServerHandle_def handle_push_def Let_def)
qed

end
