(* ===== verification/Server_Service.thy ===== *)
theory Server_Service
  imports Server_Progress
begin

section \<open>The service of the server\<close>

text \<open>
  The sum of the pushes element by element, the first pushes that open a key, and the properties
  of the server's rounds.
\<close>

subsection \<open>The sum, element by element\<close>

definition elem_at :: "data_type \<Rightarrow> u8 list \<Rightarrow> nat \<Rightarrow> nat" where
  "elem_at dtype b i = le_value (take (type_width dtype) (drop (i * type_width dtype) b))"

fun sum_elems :: "float_ops \<Rightarrow> data_type \<Rightarrow> nat \<Rightarrow> u8 list list \<Rightarrow> nat \<Rightarrow> nat res" where
  "sum_elems fo dtype i [] x = Inr x"
| "sum_elems fo dtype i (b # bs) x = rbind (elem_add fo dtype x (elem_at dtype b i)) (sum_elems fo dtype i bs)"

lemma sum_jobs:
  assumes "data_type_of dt = Some dtype" and "dtype \<noteq> BYTEPS_FLOAT16 \<or> \<not> avx_build (ce_build (se_cenv env))"
    and "len \<le> length v" and "\<forall>b \<in> set bs. len \<le> length b"
    and "\<forall>i < len div type_width dtype. sum_elems (ops_of (se_cenv env)) dtype i bs (elem_at dtype v i) = Inr (c i)"
  shows "\<exists>r. value_jobs env len (map (SumJob dt) bs) v = Inr r \<and> length r = length v \<and>
    (\<forall>i < len div type_width dtype. elem_at dtype r i = c i)"
  using assms(3-5)
proof (induction bs arbitrary: v)
  case (Cons b bs)
  let ?fo = "ops_of (se_cenv env)" and ?n = "len div type_width dtype"
  define d where "d i = projr (elem_add ?fo dtype (elem_at dtype v i) (elem_at dtype b i))" for i
  have d: "elem_add ?fo dtype (elem_at dtype v i) (elem_at dtype b i) = Inr (d i)"
    and ds: "sum_elems ?fo dtype i bs (d i) = Inr (c i)" if "i < ?n" for i
    using Cons.prems(3) that by (auto simp: res_simps d_def)
  obtain r where r: "sum_into (ce_build (se_cenv env)) ?fo v b len dtype = Inr r" "length r = length v"
    "\<forall>i < ?n. elt (type_width dtype) r i = Inr (d i)"
    using sum_into_spec [OF assms(2) Cons.prems(1), of b ?fo d] Cons.prems(2) d by (auto simp: elem_at_def)
  have "elem_at dtype r i = d i" if "i < ?n" for i
    using r(3) that by (auto simp: elt_def elem_at_def split: if_splits)
  then obtain r' where "value_jobs env len (map (SumJob dt) bs) r = Inr r'" "length r' = length r"
    "\<forall>i < ?n. elem_at dtype r' i = c i"
    using Cons.IH [of r] Cons.prems(1,2) r(2) ds by auto
  then show ?case using r(1,2) assms(1) by (auto simp: reduce_switch_def)
qed simp

lemma sum_pushes_spec:
  assumes "data_type_of dt = Some dtype" and "dtype \<noteq> BYTEPS_FLOAT16 \<or> \<not> avx_build (ce_build (se_cenv env))"
    and "len \<le> length v" and "\<forall>x \<in> set (b # bs). len \<le> length x"
    and "\<forall>i < len div type_width dtype. sum_elems (ops_of (se_cenv env)) dtype i bs (elem_at dtype b i) = Inr (c i)"
  shows "\<exists>r. sum_pushes env len v (map (Pair dt) (b # bs)) = Inr r \<and> length r = length v \<and>
    (\<forall>i < len div type_width dtype. elem_at dtype r i = c i)"
proof -
  let ?v = "take len b @ drop len v" and ?w = "type_width dtype"
  have c: "cpu_copy v b len = Inr ?v" using assms(3,4) by (intro copy_exact) auto
  have "elem_at dtype ?v i = elem_at dtype b i" if "i < len div ?w" for i
  proof -
    have "(i + 1) * ?w \<le> len" by (rule index_fits [OF that])
    moreover have "len \<le> length b" using assms(4) by simp
    moreover from calculation have "?w \<le> length b - i * ?w" by (simp add: algebra_simps)
    ultimately have "take ?w (drop (i * ?w) ?v) = take ?w (drop (i * ?w) b)"
      using assms(4) by (auto simp: drop_take min_def)
    then show ?thesis by (simp add: elem_at_def)
  qed
  then obtain r where "value_jobs env len (map (SumJob dt) bs) ?v = Inr r" "length r = length ?v"
    "\<forall>i < len div ?w. elem_at dtype r i = c i"
    using sum_jobs [OF assms(1,2), of len ?v bs c] assms(3-5) by auto
  moreover have "sum_pushes env len v (map (Pair dt) (b # bs)) = value_jobs env len (map (SumJob dt) bs) ?v"
    using c by (simp add: sum_pushes_def script_def comp_def)
  ultimately show ?thesis using assms(3,4) by auto
qed

subsection \<open>The first pushes\<close>

lemma to_i32_small: "n < 2 ^ 31 \<Longrightarrow> to_i32 n = int n"
  by (simp add: to_i32_def sint_uint uint_nat unat_of_nat take_bit_nat_eq_self signed_take_bit_int_eq_self)

lemma PageAlignedMalloc_ok:
  assumes "0 < se_page env" and "int n + se_page env < 2 ^ 31"
  shows "\<exists>m. PageAlignedMalloc env n = Inr m \<and> n \<le> length m"
proof -
  let ?p = "se_page env"
  define d where "d = (int n + ?p - 1) div ?p"
  have t: "to_i32 n = int n" using assms by (intro to_i32_small) simp
  have e: "d * ?p + (int n + ?p - 1) mod ?p = int n + ?p - 1" unfolding d_def by (rule div_mult_mod_eq)
  have "0 \<le> (int n + ?p - 1) mod ?p" "(int n + ?p - 1) mod ?p < ?p" using assms(1) by simp_all
  then have dp: "d * ?p \<le> int n + ?p - 1" and dn: "int n \<le> d * ?p" using e by linarith+
  have d0: "0 \<le> d" unfolding d_def using assms(1) by (simp add: pos_imp_zdiv_nonneg_iff)
  have "DivUp (int n) ?p = Inr d"
    using assms by (auto simp: DivUp_def i32_def d_def sgn_if)
  then have r: "server_RoundUp (int n) ?p = Inr (d * ?p)"
    using dp dn assms by (simp add: server_RoundUp_def i32_def)
  have "n \<le> nat (d * ?p)" using dn by simp
  then have "\<exists>m. memset_zero (map (ce_fresh (se_cenv env)) [0..<nat (d * ?p)]) n = Inr m \<and> n \<le> length m"
    by (simp add: memset_zero_def put_at_def)
  then show ?thesis using r t dn by (simp add: PageAlignedMalloc_def)
qed

lemma Align_ok:
  assumes "data_type_of dt = Some dtype" and "n < 2 ^ 31"
  obtains a where "Align (of_nat n) dt = Inr a" "n \<le> unat a" "unat a < n + 512"
proof -
  obtain l where l: "getDataTypeLength dt = Inr l"
    using assms(1) by (cases dtype) (simp_all add: getDataTypeLength_def)
  obtain a where a: "Align (of_nat n) dt = Inr a" using l by (simp add: Align_def Let_def)
  have n: "unat (of_nat n :: u64) = n" using assms(2) by (simp add: unat_of_nat take_bit_nat_eq_self)
  have m: "0 < 8 * l * l" "8 * l * l \<le> 512" using getDataTypeLength_cases [OF l] by auto
  have "unat a = n + (8 * l * l - n mod (8 * l * l)) mod (8 * l * l)"
    using Align_unat [OF a l] n assms(2) by simp
  moreover have "(8 * l * l - n mod (8 * l * l)) mod (8 * l * l) < 8 * l * l" using m(1) by (rule mod_less_divisor)
  ultimately have "n \<le> unat a" "unat a < n + 512" using m(2) by linarith+
  then show ?thesis by (rule that [OF a])
qed

text \<open>A key before its first push is answered; \<open>rs\<close> are the pushes that wait.\<close>

definition unopened :: "server_env \<Rightarrow> u64 \<Rightarrow> kv_meta list \<Rightarrow> server_state \<Rightarrow> bool" where
  "unopened env k rs st \<longleftrightarrow> server_ok env st \<and> sv_sync st \<and> \<not> sv_blocking st \<and>
     (case key_state env k st of ks \<Rightarrow>
        ks_store ks = null_array \<and> ks_compressor ks = None \<and> ks_thread ks = None \<and>
        ks_msgs ks = replicate (sv_threads st) [] \<and> (\<forall>f \<in> set (ks_flags ks). f = fresh_flags) \<and>
        ub_request (ks_update ks) = rs)"

text \<open>What the first pushes leave alone: the queues, the loads and the choice of the threads.\<close>

definition engine_part :: "server_state \<Rightarrow> engine_queue list \<times> u64 list \<times> (u64 \<rightharpoonup> nat) \<times> nat \<times> thread_flags list" where
  "engine_part st = (sv_queues st, sv_acc_load st, sv_hash_cache st, sv_threads st, sv_flags st)"

lemma started_unopened:
  assumes "start_server genv server_globals = Inr st" and "\<not> sv_schedule st" and "sv_sync st"
  shows "unopened env k [] st"
proof -
  have "server_ok env st" using server_ok_start [OF assms(1,2), of env "sv_flags st"] by simp
  then show ?thesis using start_fields [OF assms(1)] assms(2,3)
    by (simp add: unopened_def key_state_def GetStore_def GetUpdateBuf_def empty_update_def msgs_of_def)
qed

lemma push_response_sent:
  assumes "server_ok env st"
  shows "\<exists>st'. SendPushResponse k req st = Inr st' \<and> sv_sent st' = sv_sent st @ [ack req] \<and> server_ok env st' \<and>
    modes st' = modes st \<and> key_state env k st' = key_state env k st \<and> engine_part st' = engine_part st"
proof -
  obtain st' where s: "SendPushResponse k req st = Inr st'" using SendPushResponse_ok [OF assms] by blast
  have "engine_part st' = engine_part st"
    using s by (auto simp: SendPushResponse_def Response_def engine_part_def res_simps split: option.splits)
  then show ?thesis
    using s sent_push_response [OF s assms] ks_SendPushResponse [OF s assms] keyed_SendPushResponse [OF s, of env] assms
    by (auto simp: keyed_def)
qed

lemma respond_all_sent:
  assumes "server_ok env st"
  shows "\<exists>st'. respond_all k rs st = Inr st' \<and> sv_sent st' = sv_sent st @ map ack rs \<and> server_ok env st' \<and>
    modes st' = modes st \<and> key_state env k st' = key_state env k st \<and> engine_part st' = engine_part st"
  using assms
proof (induction rs arbitrary: st)
  case (Cons r rs)
  from push_response_sent [OF Cons.prems, of k r] obtain st1 where
    s: "SendPushResponse k r st = Inr st1" "sv_sent st1 = sv_sent st @ [ack r]" "server_ok env st1"
    "modes st1 = modes st" "key_state env k st1 = key_state env k st" "engine_part st1 = engine_part st" by blast
  then show ?case using Cons.IH [OF s(3)] by fastforce
qed simp

definition init_request :: "server_env \<Rightarrow> u64 \<Rightarrow> kv_meta \<Rightarrow> kv_pairs \<Rightarrow> bool" where
  "init_request env k req kvs \<longleftrightarrow> km_push req \<and> plain_type req \<and> shaped env k kvs"

lemma init_request_push:
  assumes "init_request env k req kvs" and "unopened env k rs st" and "se_rank env < length (se_ranges env)"
  obtains ty b where "DepairDataHandleType (km_cmd req) = Inr ty" and "sa_data (kp_vals kvs) = RecvMem b"
    and "length b < 2 ^ 31" and "server_step env (Request req kvs) st = init_push env ty k req (RecvMem b) (length b) st"
proof -
  obtain ty where ty: "DepairDataHandleType (km_cmd req) = Inr ty" "requestType ty \<noteq> request_type_value kCompressedPushPull"
    using assms(1) by (auto simp: init_request_def plain_type_def)
  obtain b where b: "kvs = \<lparr>kp_keys = [k + key_base env], kp_vals = \<lparr>sa_data = RecvMem b, sa_size = length b\<rparr>,
     kp_lens = [int (length b)]\<rparr>" "length b < 2 ^ 31"
    using assms(1) by (auto simp: init_request_def shaped_def)
  have l: "unat (of_int (int (length b)) :: u64) = length b"
    using b(2) by (simp add: unat_of_nat take_bit_nat_eq_self)
  have d: "DecodeKey (se_ranges env) (se_rank env) (k + key_base env) = Inr k"
    using assms(3) by (simp add: DecodeKey_def key_base_def split: prod.splits)
  have n: "ba_tensor (GetStore k st) = NullPtr"
    using assms(2) by (simp add: unopened_def key_state_def null_array_def)
  have "server_step env (Request req kvs) st = init_push env ty k req (RecvMem b) (length b) st"
    using ty d l n assms(1) b
    by (simp add: DeepIncServerHandle_def handle_push_def Let_def log_checks_def init_request_def)
  then show ?thesis using that ty(1) b by auto
qed

lemma init_push_more:
  assumes "unopened env k rs st" and "length rs + 1 < se_workers env"
  shows "\<exists>st'. init_push env ty k req p len st = Inr st' \<and> unopened env k (rs @ [req]) st' \<and> sv_sent st' = sv_sent st \<and>
    engine_part st' = engine_part st"
proof -
  let ?u = "(GetUpdateBuf k st)\<lparr>ub_merged := (ub_merged (GetUpdateBuf k st))\<lparr>ba_len := len, ba_dtype := dht_dtype ty\<rparr>\<rparr>"
  let ?st = "add_request k req (set_update k ?u st)"
  have ok: "server_ok env st" and y: "sv_sync st" and r: "ub_request (GetUpdateBuf k st) = rs"
    using assms(1) by (simp_all add: unopened_def key_state_def)
  have u: "GetUpdateBuf k (set_update k ?u st) = ?u" by (simp add: GetUpdateBuf_def set_update_def)
  have n: "request_count k ?st = length rs + 1"
    using r u by (simp add: request_count_def add_request_def Let_def) (simp add: GetUpdateBuf_def set_update_def)
  have ks: "key_state env k ?st = (key_state env k st)\<lparr>ks_update := ?u\<lparr>ub_request := rs @ [req]\<rparr>\<rparr>"
    using r u by (simp add: ks_add_request ks_set_update)
  have i: "init_push env ty k req p len st = Inr ?st"
    using assms(2) y n by (simp add: init_push_def Let_def)
  have "server_ok env ?st" "modes ?st = modes st" using keyed_init_push [OF i] ok by (simp_all add: keyed_def)
  then have "unopened env k (rs @ [req]) ?st"
    using assms(1) ks by (simp add: unopened_def modes_def)
  moreover have "sv_sent ?st = sv_sent st" "engine_part ?st = engine_part st"
    by (simp_all add: add_request_def set_update_def Let_def engine_part_def)
  ultimately show ?thesis using i by blast
qed

lemma init_push_last:
  assumes "unopened env k rs st" and "length rs + 1 = se_workers env" and "data_type_of (dht_dtype ty) = Some dtype"
    and "0 < se_page env" and "int (length b) + 512 + se_page env < 2 ^ 31"
  shows "\<exists>st' v. init_push env ty k req (RecvMem b) (length b) st = Inr st' \<and> serving env k (length b) st' \<and>
    idle (round_of env k st') \<and> rd_value (round_of env k st') = v \<and> take (length b) v = b \<and>
    rd_answers (round_of env k st') = rd_answers (round_of env k st) \<and> sv_sent st' = sv_sent st @ map ack (rs @ [req]) \<and>
    engine_part st' = engine_part st"
proof -
  let ?u = "(GetUpdateBuf k st)\<lparr>ub_merged := (ub_merged (GetUpdateBuf k st))\<lparr>ba_len := length b, ba_dtype := dht_dtype ty\<rparr>\<rparr>"
  let ?st2 = "add_request k req (set_update k ?u st)"
  let ?sto = "(GetStore k st)\<lparr>ba_tensor := StoreMem k, ba_len := length b, ba_dtype := dht_dtype ty\<rparr>"
  have y: "sv_sync st" "\<not> sv_blocking st" and r: "ub_request (GetUpdateBuf k st) = rs" and ok: "server_ok env st"
    using assms(1) by (simp_all add: unopened_def key_state_def)
  have g: "GetStore k ?st2 = GetStore k st" by (simp add: GetStore_def add_request_def set_update_def Let_def)
  have u: "GetUpdateBuf k (set_update k ?u st) = ?u" by (simp add: GetUpdateBuf_def set_update_def)
  have u2: "GetUpdateBuf k ?st2 = ?u\<lparr>ub_request := rs @ [req]\<rparr>"
    using r u by (simp add: add_request_def Let_def) (simp add: GetUpdateBuf_def set_update_def)
  then have n: "request_count k ?st2 = length rs + 1" by (simp add: request_count_def)
  have "length b < 2 ^ 31" using assms(4,5) by simp
  from Align_ok [OF assms(3) this] obtain a where a: "Align (of_nat (length b)) (dht_dtype ty) = Inr a"
    "length b \<le> unat a" "unat a < length b + 512" .
  have "int (unat a) + se_page env < 2 ^ 31" using a(3) assms(5) by linarith
  from PageAlignedMalloc_ok [OF assms(4) this] obtain m where m: "PageAlignedMalloc env (unat a) = Inr m" "length b \<le> length m"
    using a(2) by auto
  let ?v = "b @ drop (length b) m"
  let ?st3 = "?st2\<lparr>sv_mem := (sv_mem ?st2)(k \<mapsto> m), sv_store := (sv_store ?st2)(k \<mapsto> ?sto)\<rparr>"
  let ?st4 = "?st3\<lparr>sv_mem := (sv_mem ?st3)(k \<mapsto> ?v)\<rparr>"
  have c: "copy_mem (StoreMem k) (RecvMem b) (length b) ?st3 = Inr ?st4"
    using copy_exact [of "length b" m b] m(2) by (simp add: copy_mem_def)
  have "keyed env k st ?st2"
    using server_ok_mergedD [OF ok, of k] by (intro keyed_trans [OF keyed_set_update keyed_add_request]) simp
  then have k4: "keyed env k st ?st4" by (rule keyed_trans [OF _ keyed_trans [OF keyed_set_store keyed_copy_mem [OF c]]]) simp_all
  have ks4: "key_state env k ?st4 = (key_state env k st)\<lparr>ks_store := ?sto, ks_mem := Some ?v, ks_update := ?u\<lparr>ub_request := rs @ [req]\<rparr>\<rparr>"
    using u2 by (simp add: key_state_def GetUpdateBuf_def GetStore_def answers_of_def add_request_def set_update_def Let_def)
  have ok4: "server_ok env ?st4" and m4: "modes ?st4 = modes st" using k4 ok by (simp_all add: keyed_def)
  have r4: "ub_request (GetUpdateBuf k ?st4) = rs @ [req]" using arg_cong [OF ks4, of ks_update] by (simp add: ks_update_of)
  from respond_all_sent [OF ok4, of k "rs @ [req]"] obtain st5 where
    s5: "respond_all k (rs @ [req]) ?st4 = Inr st5" "sv_sent st5 = sv_sent ?st4 @ map ack (rs @ [req])" "server_ok env st5"
    "modes st5 = modes ?st4" "key_state env k st5 = key_state env k ?st4" "engine_part st5 = engine_part ?st4" by blast
  let ?st' = "clear_request k st5"
  have i: "init_push env ty k req (RecvMem b) (length b) st = Inr ?st'"
    using y n assms(2) a(1) m(1) c s5(1) r4 g unfolding init_push_def Let_def by simp
  have ok': "server_ok env ?st'" and m': "modes ?st' = modes st" using keyed_init_push [OF i] ok by (simp_all add: keyed_def)
  note k5 = trans [OF s5(5) ks4]
  have u5: "GetUpdateBuf k st5 = ?u\<lparr>ub_request := rs @ [req]\<rparr>"
    using arg_cong [OF k5, of ks_update] by (simp add: ks_update_of)
  have ks': "key_state env k ?st' = (key_state env k st)\<lparr>ks_store := ?sto, ks_mem := Some ?v, ks_update := ?u\<lparr>ub_request := []\<rparr>\<rparr>"
    using u5 k5 by (simp add: ks_clear_request)
  have un: "ks_compressor (key_state env k st) = None" "ks_thread (key_state env k st) = None"
    "ks_msgs (key_state env k st) = replicate (sv_threads st) []"
    "\<forall>f \<in> set (ks_flags (key_state env k st)). f = fresh_flags"
    using assms(1) by (simp_all add: unopened_def)
  have "key_inv k (sv_threads st) (length b) (key_state env k ?st')"
    using un m(2) unfolding ks' by (auto simp: key_inv_def msgs_at_def flags_at_def fresh_flags_def)
  then have "serving env k (length b) ?st'" using ok' m' y by (simp add: serving_def modes_def)
  moreover have rv: "round_of env k ?st' = (round_of env k st)\<lparr>rd_pushed := 0, rd_todo := [], rd_value := ?v,
      rd_finished := False, rd_waiting := [], rd_seen := {}, rd_count := 0\<rparr>"
    using un unfolding round_of_def ks' by (simp add: round_view_def msgs_at_def flags_at_def fresh_flags_def finished_flag_def)
  moreover have "sv_sent ?st' = sv_sent st @ map ack (rs @ [req])"
    using s5(2) by (simp add: clear_request_def add_request_def set_update_def Let_def)
  moreover have "engine_part ?st' = engine_part st"
    using s5(6) by (simp add: clear_request_def add_request_def set_update_def Let_def engine_part_def)
  ultimately show ?thesis
    using i by (intro exI [of _ ?st'] exI [of _ ?v]) (simp add: idle_def)
qed

lemma init_run:
  assumes "unopened env k rs st" and "se_rank env < length (se_ranges env)"
    and "\<forall>(req, kvs) \<in> set qs. init_request env k req kvs" and "length rs + length qs < se_workers env"
  shows "\<exists>s. server_run env (map (\<lambda>(req, kvs). Request req kvs) qs) st = Inr s \<and>
    unopened env k (rs @ map fst qs) s \<and> sv_sent s = sv_sent st \<and> engine_part s = engine_part st"
  using assms
proof (induction qs arbitrary: rs st)
  case (Cons q qs)
  obtain req kvs where q: "q = (req, kvs)" by (cases q)
  have ir: "init_request env k req kvs" using Cons.prems(3) q by simp
  obtain ty b where "server_step env (Request req kvs) st = init_push env ty k req (RecvMem b) (length b) st"
    by (rule init_request_push [OF ir Cons.prems(1,2)])
  moreover obtain st1 where "init_push env ty k req (RecvMem b) (length b) st = Inr st1"
    "unopened env k (rs @ [req]) st1" "sv_sent st1 = sv_sent st" "engine_part st1 = engine_part st"
    using init_push_more [OF Cons.prems(1)] Cons.prems(4) by fastforce
  ultimately show ?case using Cons.IH [of "rs @ [req]" st1] Cons.prems q by simp
qed simp

lemma opens:
  assumes "unopened env k [] st" and "se_rank env < length (se_ranges env)" and "0 < se_page env"
    and "\<forall>(r, x) \<in> set (qs @ [(req, kvs)]). init_request env k r x" and "length qs + 1 = se_workers env"
    and "DepairDataHandleType (km_cmd req) = Inr ty" and "data_type_of (dht_dtype ty) = Some dtype"
    and "sa_data (kp_vals kvs) = RecvMem b" and "int (length b) + 512 + se_page env < 2 ^ 31"
  shows "(\<forall>n < se_workers env. \<exists>s. server_run env (map (\<lambda>(r, x). Request r x) (take n qs)) st = Inr s \<and> sv_sent s = sv_sent st) \<and>
    (\<exists>st'. server_run env (map (\<lambda>(r, x). Request r x) (qs @ [(req, kvs)])) st = Inr st' \<and> serving env k (length b) st' \<and>
       idle (round_of env k st') \<and> take (length b) (rd_value (round_of env k st')) = b \<and>
       sv_sent st' = sv_sent st @ map (ack \<circ> fst) (qs @ [(req, kvs)]) \<and> engine_part st' = engine_part st)"
proof (intro conjI allI impI)
  fix n assume "n < se_workers env"
  moreover have "\<forall>(r, x) \<in> set (take n qs). init_request env k r x" using assms(4) by (auto dest: in_set_takeD)
  ultimately show "\<exists>s. server_run env (map (\<lambda>(r, x). Request r x) (take n qs)) st = Inr s \<and> sv_sent s = sv_sent st"
    using init_run [OF assms(1,2), of "take n qs"] assms(5) by fastforce
next
  obtain s where s: "server_run env (map (\<lambda>(r, x). Request r x) qs) st = Inr s" "unopened env k (map fst qs) s"
    "sv_sent s = sv_sent st" "engine_part s = engine_part st"
    using init_run [OF assms(1,2), of qs] assms(4,5) by auto
  have ir: "init_request env k req kvs" using assms(4) by simp
  obtain ty' b' where "DepairDataHandleType (km_cmd req) = Inr ty'" "sa_data (kp_vals kvs) = RecvMem b'"
    and "server_step env (Request req kvs) s = init_push env ty' k req (RecvMem b') (length b') s"
    by (rule init_request_push [OF ir s(2) assms(2)])
  then have e: "server_step env (Request req kvs) s = init_push env ty k req (RecvMem b) (length b) s"
    using assms(6,8) by simp
  from init_push_last [OF s(2) _ assms(7,3,9), of req] assms(5) obtain st' where
    i: "init_push env ty k req (RecvMem b) (length b) s = Inr st'" and c: "serving env k (length b) st'"
    "idle (round_of env k st')" "take (length b) (rd_value (round_of env k st')) = b"
    "sv_sent st' = sv_sent s @ map ack (map fst qs @ [req])" "engine_part st' = engine_part s" by auto
  show "\<exists>st'. server_run env (map (\<lambda>(r, x). Request r x) (qs @ [(req, kvs)])) st = Inr st' \<and> serving env k (length b) st' \<and>
       idle (round_of env k st') \<and> take (length b) (rd_value (round_of env k st')) = b \<and>
       sv_sent st' = sv_sent st @ map (ack \<circ> fst) (qs @ [(req, kvs)]) \<and> engine_part st' = engine_part st"
    using s(1,3,4) e i c by (intro exI [of _ st']) (simp add: server_run_append)
qed

subsection \<open>A whole round\<close>

lemma run_sends:
  assumes "server_run env es st = Inr st'" and "serving env k len st" and "sv_hash_cache st k = Some t"
    and "own_queue k t st" and "\<forall>e \<in> set es. key_event env k t e" and "se_rank env < length (se_ranges env)"
    and "round_run env len (map key_view es) (round_of env k st) = Inr r'"
    and "quiet env len (map key_view es) (round_of env k st)"
  shows "sv_sent st' = sv_sent st @ concat (map acks es)"
  using assms
proof (induction es arbitrary: st)
  case (Cons e es)
  obtain r1 where r1: "round_step env len (key_view e) (round_of env k st) = Inr r1"
    and rr: "round_run env len (map key_view es) r1 = Inr r'"
    using Cons.prems(7) by (auto simp: res_simps)
  have k: "key_event env k t e" and nf: "\<not> needs_flags (key_view e) (round_of env k st)" and q: "quiet env len (map key_view es) r1"
    using Cons.prems(5,8) r1 by simp_all
  from step_follows [OF Cons.prems(2-4) k Cons.prems(6) r1] nf obtain st1 where
    s: "server_step env e st = Inr st1" and s1: "serving env k len st1" "sv_hash_cache st1 k = Some t" "own_queue k t st1"
    and e: "round_of env k st1 = r1" by blast
  have "server_run env es st1 = Inr st'" using Cons.prems(1) s by simp
  then have "sv_sent st' = sv_sent st1 @ concat (map acks es)"
    using Cons.prems(5,6) rr q e by (intro Cons.IH [OF _ s1]) simp_all
  then show ?case using step_sends [OF s Cons.prems(2-4) k nf] by simp
qed simp

text \<open>
  The pushes of a round and the turns that sum them up, whatever size the vectors of flags have;
  then the turn that takes the message that ends the round needs an entry of the thread.
\<close>

lemma served:
  assumes "serving env k len st" and "idle (round_of env k st)" and "0 < se_workers env"
    and "se_rank env < length (se_ranges env)" and "es = Request req kvs # fs" and "km_push req"
    and "GetThreadID k (sa_size (kp_vals kvs)) st = Inr (t, st1)" and "own_queue k t st"
    and "\<forall>e \<in> set es. key_event env k t e"
    and "length (pushes (map key_view es)) = se_workers env" and "pulls (map key_view es) = []"
    and "turns (map key_view es) \<le> se_workers env"
    and "sum_pushes env len (rd_value (round_of env k st)) (pushes (map key_view es)) = Inr v"
  shows "\<exists>m st'. m \<le> se_workers env \<and> server_run env (es @ replicate m (EngineTurn t)) st = Inr st' \<and>
    sv_mem st' k = Some v \<and> sv_sent st' = sv_sent st @ concat (map acks es) \<and>
    rd_todo (round_of env k st') = [DoneJob] \<and> serving env k len st' \<and> sv_hash_cache st' k = Some t \<and>
    own_queue k t st' \<and> length (sv_flags st') = length (sv_flags st) \<and>
    ((\<exists>st''. server_step env (EngineTurn t) st' = Inr st'') \<longleftrightarrow> t < length (sv_flags st))"
proof -
  have s1: "serving env k len st1" and r1: "round_of env k st1 = round_of env k st" and h1: "sv_hash_cache st1 k = Some t"
    using own_thread [OF assms(7,1)] by simp_all
  have e1: "sv_queues st1 = sv_queues st" "sv_flags st1 = sv_flags st" "sv_sent st1 = sv_sent st"
    using assms(7) by (auto simp: GetThreadID_def Let_def res_simps split: option.splits)
  then have q1: "own_queue k t st1" using assms(8) by (simp add: own_queue_def)
  obtain m r' where m: "m \<le> se_workers env"
    and r': "round_run env len (map key_view es @ replicate m AEngine) (round_of env k st) = Inr r'"
    and q: "quiet env len (map key_view es @ replicate m AEngine) (round_of env k st)"
    and td: "rd_todo r' = [DoneJob]" and v: "rd_value r' = v"
    using machine_served [OF assms(2,3,10-13)] by blast
  define es' where "es' = es @ replicate m (EngineTurn t)"
  have kv: "map key_view es' = map key_view es @ replicate m AEngine" by (simp add: es'_def)
  have ke: "\<forall>e \<in> set es'. key_event env k t e" using assms(9) by (auto simp: es'_def)
  from run_follows [OF s1 h1 q1 ke assms(4), of r'] obtain st' where
    st': "server_run env es' st1 = Inr st'" "serving env k len st'" "sv_hash_cache st' k = Some t" "own_queue k t st'"
    "round_of env k st' = r'" "length (sv_flags st') = length (sv_flags st1)"
    using r' q r1 kv by auto
  have "sv_sent st' = sv_sent st1 @ concat (map acks es')"
    using r' q r1 kv by (intro run_sends [OF st'(1) s1 h1 q1 ke assms(4)]) simp_all
  moreover have "concat (map acks es') = concat (map acks es)" by (simp add: es'_def map_replicate_const)
  moreover have "key_event env k t (Request req kvs)" using assms(5,9) by simp
  from push_of_thread [OF assms(1,7,6) this] have "server_run env es' st = Inr st'"
    using st'(1) assms(5) by (simp add: es'_def)
  moreover have "sv_mem st' k = Some v"
    using st'(2,5) v view_mem by (auto simp: serving_def key_inv_def key_state_def round_of_def round_view_def split: prod.splits)
  moreover have "(\<exists>st''. server_step env (EngineTurn t) st' = Inr st'') \<longleftrightarrow> t < length (sv_flags st)"
  proof
    assume "t < length (sv_flags st)"
    then have t: "t < length (sv_flags st')" using st'(6) e1 by simp
    have "\<exists>x. round_step env len (key_view (EngineTurn t)) (round_of env k st') = Inr x" using td st'(5) by simp
    then show "\<exists>st''. server_step env (EngineTurn t) st' = Inr st''"
      using step_follows [OF st'(2-4) _ assms(4), of "EngineTurn t"] t by fastforce
  next
    assume "\<exists>st''. server_step env (EngineTurn t) st' = Inr st''"
    then have "t < length (sv_flags st')"
      using step_stops [OF st'(2-4), of "EngineTurn t"] td st'(5) by fastforce
    then show "t < length (sv_flags st)" using st'(6) e1 by simp
  qed
  ultimately show ?thesis using m st'(2-6) td e1(2,3) unfolding es'_def by auto
qed

lemma sum_of_pushes:
  assumes "serving env k len st" and "data_type_of dt = Some dtype"
    and "dtype \<noteq> BYTEPS_FLOAT16 \<or> \<not> avx_build (ce_build (se_cenv env))" and "\<forall>x \<in> set (b # bs). len \<le> length x"
    and "\<forall>i < len div type_width dtype. sum_elems (ops_of (se_cenv env)) dtype i bs (elem_at dtype b i) = Inr (c i)"
  obtains v where "sum_pushes env len (rd_value (round_of env k st)) (map (Pair dt) (b # bs)) = Inr v"
    and "\<forall>i < len div type_width dtype. elem_at dtype v i = c i"
proof -
  obtain m where "sv_mem st k = Some m" "len \<le> length m"
    using assms(1) by (auto simp: serving_def key_inv_def key_state_def)
  then have "len \<le> length (rd_value (round_of env k st))" by (simp add: round_of_def view_mem key_state_def)
  from sum_pushes_spec [OF assms(2,3) this assms(4,5)] show ?thesis using that by blast
qed

lemma round_sums:
  assumes "serving env k len st" and "idle (round_of env k st)" and "0 < se_workers env"
    and "server_run env es st = Inr st'" and "\<forall>e \<in> set es. event_ok e \<and> uncompressed env k e"
    and "length (pushes (run_view env k st es)) \<le> se_workers env"
    and "length (pulls (run_view env k st es)) \<le> se_workers env"
    and "distinct (map km_sender (pulls (run_view env k st es)))"
    and "set (rd_todo (round_of env k st')) \<subseteq> {DoneJob}"
  shows "\<exists>v. sv_mem st' k = Some v \<and>
    sum_pushes env len (rd_value (round_of env k st)) (pushes (run_view env k st es)) = Inr v \<and>
    rd_answers (round_of env k st') = rd_answers (round_of env k st) @
      (if length (pushes (run_view env k st es)) = se_workers env \<and> rd_todo (round_of env k st') = []
       then map (\<lambda>m. (m, take len v)) (pulls (run_view env k st es)) else [])"
proof -
  let ?N = "se_workers env" and ?r = "round_of env k st" and ?r' = "round_of env k st'"
  let ?ps = "pushes (run_view env k st es)" and ?qs = "pulls (run_view env k st es)"
  have s: "serving env k len st'" and r: "round_run env len (run_view env k st es) ?r = Inr ?r'"
    using run_refines [OF assms(1,4,5)] by simp_all
  obtain d where d: "in_round env len (rd_value ?r) (rd_answers ?r) ?ps ?qs d ?r'"
    using in_round_run [OF r in_round_idle [OF assms(2,3)] assms(3)] assms(6-8) by auto
  have "value_jobs env len js v = Inr v" if "set js \<subseteq> {DoneJob}" for js v
    using that by (induction js) simp_all
  then have "value_jobs env len (d @ rd_todo ?r') (rd_value ?r) = Inr (rd_value ?r')"
    using d assms(9) by (simp add: in_round_def value_jobs_append)
  then have sum: "sum_pushes env len (rd_value ?r) ?ps = Inr (rd_value ?r')"
    using d value_script [of env len ?N ?ps] by (simp add: in_round_def)
  have "DoneJob \<in> set d \<longleftrightarrow> length ?ps = ?N \<and> rd_todo ?r' = []"
  proof
    assume "DoneJob \<in> set d"
    then obtain xs ys where "d = xs @ DoneJob # ys" by (meson split_list)
    then show "length ?ps = ?N \<and> rd_todo ?r' = []"
      using d script_Done_last [of ?N ?ps xs "ys @ rd_todo ?r'"] by (simp add: in_round_def)
  next
    assume "length ?ps = ?N \<and> rd_todo ?r' = []"
    then show "DoneJob \<in> set d" using d script_Done [of ?N ?ps] by (simp add: in_round_def)
  qed
  then have "rd_answers ?r' = rd_answers ?r @ (if length ?ps = ?N \<and> rd_todo ?r' = []
       then map (\<lambda>m. (m, take len (rd_value ?r'))) ?qs else [])"
    using d by (auto simp: in_round_def answered_def unanswered_def)
  moreover have "sv_mem st' k = Some (rd_value ?r')"
    using s view_mem by (auto simp: serving_def key_inv_def key_state_def round_of_def round_view_def split: prod.splits)
  ultimately show ?thesis using sum by blast
qed

subsection \<open>An example: a server as it is started\<close>

definition demo_inits :: "(kv_meta \<times> kv_pairs) list" where
  "demo_inits = [(demo_meta True 9 1, demo_kvs 7 [5, 0, 0, 0]), (demo_meta True 11 1, demo_kvs 7 [6, 0, 0, 0])]"

definition demo_round :: "server_event list" where
  "demo_round = [Request (demo_meta True 9 2) (demo_kvs 7 [1, 0, 0, 0]), EngineTurn 0,
     Request (demo_meta True 11 2) (demo_kvs 7 [2, 0, 0, 0])]"

lemmas demo_defs = demo_senv_def demo_meta_def demo_kvs_def demo_started_def server_globals_def

lemma demo_unopened: "unopened demo_senv 7 [] demo_started"
  using started_unopened [OF demo_started, of demo_senv 7] by (simp add: demo_started_def server_globals_def)

lemma demo_plain: "plain_type (demo_meta p s n)"
  by (simp add: plain_type_def demo_meta_def demo_type)

lemma demo_opened:
  obtains st where "server_run demo_senv (map (\<lambda>(r, x). Request r x) demo_inits) demo_started = Inr st"
    and "serving demo_senv 7 4 st" and "idle (round_of demo_senv 7 st)" and "take 4 (rd_value (round_of demo_senv 7 st)) = [6, 0, 0, 0]"
    and "sv_sent st = map (ack \<circ> fst) demo_inits" and "engine_part st = engine_part demo_started"
proof -
  let ?qs = "[(demo_meta True 9 1, demo_kvs 7 [5, 0, 0, 0])]" and ?l = "length [6::u8, 0, 0, 0]"
  have e: "?qs @ [(demo_meta True 11 1, demo_kvs 7 [6, 0, 0, 0])] = demo_inits" by (simp add: demo_inits_def)
  have "(\<forall>n < se_workers demo_senv. \<exists>s. server_run demo_senv (map (\<lambda>(r, x). Request r x) (take n ?qs)) demo_started = Inr s \<and>
      sv_sent s = sv_sent demo_started) \<and>
    (\<exists>st'. server_run demo_senv (map (\<lambda>(r, x). Request r x) (?qs @ [(demo_meta True 11 1, demo_kvs 7 [6, 0, 0, 0])])) demo_started = Inr st' \<and>
       serving demo_senv 7 ?l st' \<and> idle (round_of demo_senv 7 st') \<and> take ?l (rd_value (round_of demo_senv 7 st')) = [6, 0, 0, 0] \<and>
       sv_sent st' = sv_sent demo_started @ map (ack \<circ> fst) (?qs @ [(demo_meta True 11 1, demo_kvs 7 [6, 0, 0, 0])]) \<and>
       engine_part st' = engine_part demo_started)"
    by (rule opens [OF demo_unopened, where ty = "\<lparr>requestType = 0, dht_dtype = 0\<rparr>" and dtype = BYTEPS_FLOAT32])
      (simp_all add: init_request_def demo_plain, simp_all add: demo_senv_def demo_meta_def demo_kvs_def demo_type
        data_type_of_def shaped_def key_base_def)
  moreover have l: "?l = 4" and z: "sv_sent demo_started = []" by (simp_all add: demo_defs)
  ultimately show ?thesis using that unfolding e l z append_Nil by blast
qed

lemma demo_engine:
  assumes "engine_part st = engine_part demo_started"
  shows "\<exists>st1. GetThreadID 7 4 st = Inr (0, st1)" "own_queue 7 0 st" "sv_flags st = []"
  using assms
  by (simp_all add: engine_part_def demo_started_def server_globals_def GetThreadID_def own_queue_def least_loaded_def
    upt_rec Let_def word_gt_0 PriorityQueue_def)

lemma demo_key_events: "\<forall>e \<in> set demo_round. key_event demo_senv 7 0 e"
  by (simp add: demo_round_def demo_plain) (simp add: demo_meta_def demo_kvs_def shaped_def key_base_def demo_senv_def)

lemma demo_views:
  "pushes (map key_view demo_round) = map (Pair 0) [[1, 0, 0, 0], [2, 0, 0, 0]]"
  "pulls (map key_view demo_round) = []" "turns (map key_view demo_round) = 1"
  by (simp_all add: demo_round_def recv_bytes_def demo_meta_def demo_kvs_def demo_type)

lemma demo_elems: "sum_elems (ops_of (se_cenv demo_senv)) BYTEPS_FLOAT32 i [[2, 0, 0, 0]] (elem_at BYTEPS_FLOAT32 [1, 0, 0, 0] i) = Inr 2"
  if "i < 4 div type_width BYTEPS_FLOAT32"
  using that by (simp add: elem_at_def demo_senv_def demo_cenv_def ops_of_def float_ops.truncate_def)

lemma demo_no_float16: "BYTEPS_FLOAT32 \<noteq> BYTEPS_FLOAT16 \<or> \<not> avx_build (ce_build (se_cenv demo_senv))"
  by simp

lemma views_agree:
  assumes "server_run env es st = Inr st'" and "\<forall>e \<in> set es. key_event env k t e"
  shows "pushes (run_view env k st es) = pushes (map key_view es)" "pulls (run_view env k st es) = pulls (map key_view es)"
proof -
  have "pushes (run_view env k st es) = pushes (map key_view es) \<and> pulls (run_view env k st es) = pulls (map key_view es)"
    using assms
  proof (induction es arbitrary: st)
    case (Cons e es)
    obtain st1 where s: "server_step env e st = Inr st1" and r: "server_run env es st1 = Inr st'"
      using Cons.prems(1) by (auto simp: res_simps)
    have "key_event env k t e" using Cons.prems(2) by simp
    then show ?case
    proof (cases e)
      case (Request req kvs)
      then have "hd (kp_keys kvs) - key_base env = k"
        using Cons.prems(2) by (auto simp: shaped_def split: if_splits)
      then show ?thesis using Cons.IH [OF r] Cons.prems(2) s Request by simp
    next
      case (EngineTurn i)
      then show ?thesis using Cons.IH [OF r] Cons.prems(2) s by (simp split: list.splits)
    qed
  qed simp
  then show "pushes (run_view env k st es) = pushes (map key_view es)" "pulls (run_view env k st es) = pulls (map key_view es)"
    by simp_all
qed

subsection \<open>Properties\<close>

text \<open>
  C6. The server, seen at one key, is the machine of a push-pull round: a run of requests and
  engine turns, in any order and mixed with the traffic of other keys, is a run of the machine on
  what its events are for the key, as long as the run goes on and no request registers a
  compressor for it. This holds of the server as it is, from the moment the first pushes of all
  workers have opened the key (the vectors of flags may have any length, and have none); in the
  server as it is a run goes on until the first pull or end of a round.
\<close>

theorem server_refines_round:
  assumes "serving env k len st" and "server_run env es st = Inr st'"
    and "\<forall>e \<in> set es. event_ok e \<and> uncompressed env k e"
  shows "serving env k len st' \<and> round_run env len (run_view env k st es) (round_of env k st) = Inr (round_of env k st')"
  using assms by (rule run_refines)

text \<open>A server as it is started, opened by the first pushes, through the pushes of a round and their sum.\<close>

lemma demo_served:
  obtains st m st' v where "server_run demo_senv (map (\<lambda>(r, x). Request r x) demo_inits) demo_started = Inr st"
    and "serving demo_senv 7 4 st" and "idle (round_of demo_senv 7 st)" and "m \<le> 2"
    and "server_run demo_senv (demo_round @ replicate m (EngineTurn 0)) st = Inr st'"
    and "rd_todo (round_of demo_senv 7 st') = [DoneJob]"
    and "\<forall>e \<in> set (demo_round @ replicate m (EngineTurn 0)). event_ok e \<and> uncompressed demo_senv 7 e"
    and "pushes (run_view demo_senv 7 st (demo_round @ replicate m (EngineTurn 0))) = map (Pair 0) [[1, 0, 0, 0], [2, 0, 0, 0]]"
    and "pulls (run_view demo_senv 7 st (demo_round @ replicate m (EngineTurn 0))) = []"
proof (rule demo_opened)
  fix st
  assume i: "server_run demo_senv (map (\<lambda>(r, x). Request r x) demo_inits) demo_started = Inr st"
    and s: "serving demo_senv 7 4 st" and id: "idle (round_of demo_senv 7 st)"
    and e: "engine_part st = engine_part demo_started"
  obtain st1 where g: "GetThreadID 7 (sa_size (kp_vals (demo_kvs 7 [1, 0, 0, 0]))) st = Inr (0, st1)"
    using demo_engine(1) [OF e] by (auto simp: demo_kvs_def eval_nat_numeral)
  have d: "data_type_of 0 = Some BYTEPS_FLOAT32" by (simp add: data_type_of_def)
  have l: "\<forall>x \<in> set ([1::u8, 0, 0, 0] # [[2, 0, 0, 0]]). 4 \<le> length x" by simp
  have c: "\<forall>i < 4 div type_width BYTEPS_FLOAT32. sum_elems (ops_of (se_cenv demo_senv)) BYTEPS_FLOAT32 i [[2, 0, 0, 0]]
      (elem_at BYTEPS_FLOAT32 [1, 0, 0, 0] i) = Inr ((\<lambda>i. 2) i)"
    using demo_elems by simp
  obtain v where "sum_pushes demo_senv 4 (rd_value (round_of demo_senv 7 st)) (map (Pair 0) ([1, 0, 0, 0] # [[2, 0, 0, 0]])) = Inr v"
    by (rule sum_of_pushes [OF s d demo_no_float16 l c])
  then have v: "sum_pushes demo_senv 4 (rd_value (round_of demo_senv 7 st)) (pushes (map key_view demo_round)) = Inr v"
    by (simp only: demo_views)
  have w: "se_workers demo_senv = 2" "se_rank demo_senv < length (se_ranges demo_senv)" by (simp_all add: demo_senv_def)
  have "\<exists>m st'. m \<le> se_workers demo_senv \<and> server_run demo_senv (demo_round @ replicate m (EngineTurn 0)) st = Inr st' \<and>
    sv_mem st' 7 = Some v \<and> sv_sent st' = sv_sent st @ concat (map acks demo_round) \<and>
    rd_todo (round_of demo_senv 7 st') = [DoneJob] \<and> serving demo_senv 7 4 st' \<and> sv_hash_cache st' 7 = Some 0 \<and>
    own_queue 7 0 st' \<and> length (sv_flags st') = length (sv_flags st) \<and>
    ((\<exists>st''. server_step demo_senv (EngineTurn 0) st' = Inr st'') \<longleftrightarrow> 0 < length (sv_flags st))"
    by (rule served [OF s id _ w(2) demo_round_def _ g demo_engine(2) [OF e] demo_key_events _ _ _ v])
      (simp_all add: demo_views, simp_all add: demo_senv_def demo_meta_def)
  then obtain m st' where m: "m \<le> 2" and r: "server_run demo_senv (demo_round @ replicate m (EngineTurn 0)) st = Inr st'"
    and t: "rd_todo (round_of demo_senv 7 st') = [DoneJob]" using w(1) by auto
  have k: "\<forall>e \<in> set (demo_round @ replicate m (EngineTurn 0)). key_event demo_senv 7 0 e" using demo_key_events by auto
  have ev: "\<forall>e \<in> set (demo_round @ replicate m (EngineTurn 0)). event_ok e \<and> uncompressed demo_senv 7 e"
    using k key_event_facts by blast
  have "map key_view (demo_round @ replicate m (EngineTurn 0)) = map key_view demo_round @ replicate m AEngine" by simp
  then show thesis
    by (intro that [OF i s id m r t ev]) (simp_all only: views_agree [OF r k] pushes_append pulls_append demo_views no_more append_Nil2)
qed

theorem server_refines_round_witness:
  "\<exists>st m st'. server_run demo_senv (map (\<lambda>(r, x). Request r x) demo_inits) demo_started = Inr st \<and>
     server_run demo_senv (demo_round @ replicate m (EngineTurn 0)) st = Inr st' \<and>
     round_run demo_senv 4 (run_view demo_senv 7 st (demo_round @ replicate m (EngineTurn 0)))
       (round_of demo_senv 7 st) = Inr (round_of demo_senv 7 st')"
proof (rule demo_served)
  fix st m st'
  assume "server_run demo_senv (map (\<lambda>(r, x). Request r x) demo_inits) demo_started = Inr st" "serving demo_senv 7 4 st"
    and r: "server_run demo_senv (demo_round @ replicate m (EngineTurn 0)) st = Inr st'"
    and "\<forall>e \<in> set (demo_round @ replicate m (EngineTurn 0)). event_ok e \<and> uncompressed demo_senv 7 e"
  then show ?thesis using server_refines_round by blast
qed

text \<open>
  C7. The sum of a round. Pushes of a round for an open key, at most one per worker, in any order,
  among any traffic of other keys and however the engine threads interleave: when the engine has
  no copy or sum of the key left, the key's buffer holds the element-wise sum of the pushed data,
  in the order of the pushes and in the arithmetic of the data type, whatever the buffer held
  before. A pull is answered with this buffer or not at all. In the server as it is no run
  contains a pull, so the conditions on the pulls hold of every run and no answer is given; with
  vectors of flags they say that every worker pulls once. Half precision sums in a build with AVX
  are not covered, nor a sum that is undefined (as by an overflow of a signed integer).
\<close>

theorem round_sums_pushes:
  assumes "serving env k len st" and "idle (round_of env k st)" and "0 < se_workers env"
    and "server_run env es st = Inr st'" and "\<forall>e \<in> set es. event_ok e \<and> uncompressed env k e"
    and "pushes (run_view env k st es) = map (Pair dt) (b # bs)" and "length (b # bs) \<le> se_workers env"
    and "length (pulls (run_view env k st es)) \<le> se_workers env"
    and "distinct (map km_sender (pulls (run_view env k st es)))"
    and "set (rd_todo (round_of env k st')) \<subseteq> {DoneJob}"
    and "data_type_of dt = Some dtype" and "dtype \<noteq> BYTEPS_FLOAT16 \<or> \<not> avx_build (ce_build (se_cenv env))"
    and "\<forall>x \<in> set (b # bs). len \<le> length x"
    and "\<forall>i < len div type_width dtype. sum_elems (ops_of (se_cenv env)) dtype i bs (elem_at dtype b i) = Inr (c i)"
  shows "\<exists>v. sv_mem st' k = Some v \<and> (\<forall>i < len div type_width dtype. elem_at dtype v i = c i) \<and>
    rd_answers (round_of env k st') = rd_answers (round_of env k st) @
      (if length (b # bs) = se_workers env \<and> rd_todo (round_of env k st') = []
       then map (\<lambda>m. (m, take len v)) (pulls (run_view env k st es)) else [])"
proof -
  obtain v where v: "sum_pushes env len (rd_value (round_of env k st)) (map (Pair dt) (b # bs)) = Inr v"
    "\<forall>i < len div type_width dtype. elem_at dtype v i = c i"
    by (rule sum_of_pushes [OF assms(1,11-14)])
  have "length (pushes (run_view env k st es)) \<le> se_workers env" using assms(6,7) by simp
  from round_sums [OF assms(1-5) this assms(8-10)] show ?thesis
    using v unfolding assms(6) by auto
qed

theorem round_sums_pushes_witness:
  "\<exists>st m st' v. server_run demo_senv (map (\<lambda>(r, x). Request r x) demo_inits) demo_started = Inr st \<and>
     server_run demo_senv (demo_round @ replicate m (EngineTurn 0)) st = Inr st' \<and>
     sv_mem st' 7 = Some v \<and> elem_at BYTEPS_FLOAT32 v 0 = 2"
proof (rule demo_served)
  fix st m st'
  assume i: "server_run demo_senv (map (\<lambda>(r, x). Request r x) demo_inits) demo_started = Inr st"
    and s: "serving demo_senv 7 4 st" "idle (round_of demo_senv 7 st)"
    and r: "server_run demo_senv (demo_round @ replicate m (EngineTurn 0)) st = Inr st'"
    and t: "rd_todo (round_of demo_senv 7 st') = [DoneJob]"
    and ev: "\<forall>e \<in> set (demo_round @ replicate m (EngineTurn 0)). event_ok e \<and> uncompressed demo_senv 7 e"
    and ps: "pushes (run_view demo_senv 7 st (demo_round @ replicate m (EngineTurn 0))) = map (Pair 0) [[1, 0, 0, 0], [2, 0, 0, 0]]"
    and qs: "pulls (run_view demo_senv 7 st (demo_round @ replicate m (EngineTurn 0))) = []"
  have d: "data_type_of 0 = Some BYTEPS_FLOAT32" by (simp add: data_type_of_def)
  have w: "0 < se_workers demo_senv" "length ([1::u8, 0, 0, 0] # [[2, 0, 0, 0]]) \<le> se_workers demo_senv"
    by (simp_all add: demo_senv_def)
  have "\<exists>v. sv_mem st' 7 = Some v \<and> (\<forall>i < 4 div type_width BYTEPS_FLOAT32. elem_at BYTEPS_FLOAT32 v i = (\<lambda>i. 2) i) \<and>
    rd_answers (round_of demo_senv 7 st') = rd_answers (round_of demo_senv 7 st) @
      (if length ([1::u8, 0, 0, 0] # [[2, 0, 0, 0]]) = se_workers demo_senv \<and> rd_todo (round_of demo_senv 7 st') = []
       then map (\<lambda>m. (m, take 4 v)) (pulls (run_view demo_senv 7 st (demo_round @ replicate m (EngineTurn 0)))) else [])"
    by (rule round_sums_pushes [OF s w(1) r ev ps w(2) _ _ _ d demo_no_float16]) (use qs t demo_elems in auto)
  then show ?thesis using i r by fastforce
qed

text \<open>
  C8. The round goes on until the flags are needed. From an idle key, whose thread has no other
  work, the server accepts the well-formed pushes of all workers, in any order after the first and
  with turns of the thread anywhere between them (no more turns than workers), acknowledges each
  of them once and at once, and after at most as many more turns has the element-wise sum in the
  key's buffer; the message that ends the round is all that is left. The turn that takes it
  succeeds exactly if the vectors of flags have an entry for the thread; nothing in the code gives
  them one. The sum is as in the property before.
\<close>

theorem round_goes_on:
  assumes "serving env k len st" and "idle (round_of env k st)" and "0 < se_workers env"
    and "se_rank env < length (se_ranges env)" and "es = Request req kvs # fs" and "km_push req"
    and "GetThreadID k (sa_size (kp_vals kvs)) st = Inr (t, st1)" and "own_queue k t st"
    and "\<forall>e \<in> set es. key_event env k t e"
    and "pushes (map key_view es) = map (Pair dt) (b # bs)" and "length (b # bs) = se_workers env"
    and "pulls (map key_view es) = []" and "turns (map key_view es) \<le> se_workers env"
    and "data_type_of dt = Some dtype" and "dtype \<noteq> BYTEPS_FLOAT16 \<or> \<not> avx_build (ce_build (se_cenv env))"
    and "\<forall>x \<in> set (b # bs). len \<le> length x"
    and "\<forall>i < len div type_width dtype. sum_elems (ops_of (se_cenv env)) dtype i bs (elem_at dtype b i) = Inr (c i)"
  shows "\<exists>m st' v. m \<le> se_workers env \<and> server_run env (es @ replicate m (EngineTurn t)) st = Inr st' \<and>
    sv_mem st' k = Some v \<and> (\<forall>i < len div type_width dtype. elem_at dtype v i = c i) \<and>
    sv_sent st' = sv_sent st @ concat (map acks es) \<and> rd_todo (round_of env k st') = [DoneJob] \<and>
    ((\<exists>st''. server_step env (EngineTurn t) st' = Inr st'') \<longleftrightarrow> t < length (sv_flags st))"
proof -
  obtain v where v: "sum_pushes env len (rd_value (round_of env k st)) (map (Pair dt) (b # bs)) = Inr v"
    "\<forall>i < len div type_width dtype. elem_at dtype v i = c i"
    by (rule sum_of_pushes [OF assms(1,14-17)])
  have "length (pushes (map key_view es)) = se_workers env" using assms(10,11) by simp
  from served [OF assms(1-9) this assms(12,13) v(1) [folded assms(10)]] show ?thesis using v(2) by blast
qed

theorem round_goes_on_witness:
  "\<exists>st m st' v. server_run demo_senv (map (\<lambda>(r, x). Request r x) demo_inits) demo_started = Inr st \<and>
     server_run demo_senv (demo_round @ replicate m (EngineTurn 0)) st = Inr st' \<and> sv_mem st' 7 = Some v \<and>
     elem_at BYTEPS_FLOAT32 v 0 = 2 \<and>
     sv_sent st' = map ack [demo_meta True 9 1, demo_meta True 11 1, demo_meta True 9 2, demo_meta True 11 2] \<and>
     \<not> (\<exists>st''. server_step demo_senv (EngineTurn 0) st' = Inr st'')"
proof (rule demo_opened)
  fix st
  assume i: "server_run demo_senv (map (\<lambda>(r, x). Request r x) demo_inits) demo_started = Inr st"
    and s: "serving demo_senv 7 4 st" "idle (round_of demo_senv 7 st)"
    and sent: "sv_sent st = map (ack \<circ> fst) demo_inits" and e: "engine_part st = engine_part demo_started"
  obtain st1 where g: "GetThreadID 7 (sa_size (kp_vals (demo_kvs 7 [1, 0, 0, 0]))) st = Inr (0, st1)"
    using demo_engine(1) [OF e] by (auto simp: demo_kvs_def eval_nat_numeral)
  have w: "0 < se_workers demo_senv" "se_rank demo_senv < length (se_ranges demo_senv)" "km_push (demo_meta True 9 2)"
    by (simp_all add: demo_senv_def demo_meta_def)
  have ps: "pushes (map key_view demo_round) = map (Pair 0) ([1, 0, 0, 0] # [[2, 0, 0, 0]])" by (simp add: demo_views)
  have d: "data_type_of 0 = Some BYTEPS_FLOAT32" by (simp add: data_type_of_def)
  have "\<exists>m st' v. m \<le> se_workers demo_senv \<and> server_run demo_senv (demo_round @ replicate m (EngineTurn 0)) st = Inr st' \<and>
    sv_mem st' 7 = Some v \<and> (\<forall>i < 4 div type_width BYTEPS_FLOAT32. elem_at BYTEPS_FLOAT32 v i = (\<lambda>i. 2) i) \<and>
    sv_sent st' = sv_sent st @ concat (map acks demo_round) \<and> rd_todo (round_of demo_senv 7 st') = [DoneJob] \<and>
    ((\<exists>st''. server_step demo_senv (EngineTurn 0) st' = Inr st'') \<longleftrightarrow> 0 < length (sv_flags st))"
    by (rule round_goes_on [OF s w(1,2) demo_round_def w(3) g demo_engine(2) [OF e] demo_key_events ps _ _ _ d demo_no_float16])
      (use demo_elems in \<open>auto simp: demo_views demo_senv_def\<close>)
  then obtain m st' v where "server_run demo_senv (demo_round @ replicate m (EngineTurn 0)) st = Inr st'" "sv_mem st' 7 = Some v"
    and "elem_at BYTEPS_FLOAT32 v 0 = 2" and "sv_sent st' = sv_sent st @ concat (map acks demo_round)"
    and "\<not> (\<exists>st''. server_step demo_senv (EngineTurn 0) st' = Inr st'')"
    using demo_engine(3) [OF e] by auto
  then show ?thesis using i sent unfolding demo_round_def demo_inits_def by auto
qed

text \<open>
  C9. The first push of every worker for a key is a barrier. In a server started in the
  synchronous mode without scheduling, whatever other keys are in use, nobody is answered until
  the last worker has pushed; then the key has a buffer that holds the last worker's data, all
  workers are answered in the order they came, and the key is open for rounds, with its queues,
  threads and flags as they were.
\<close>

theorem first_pushes_open_key:
  assumes "unopened env k [] st" and "se_rank env < length (se_ranges env)" and "0 < se_page env"
    and "\<forall>(r, x) \<in> set (qs @ [(req, kvs)]). init_request env k r x" and "length qs + 1 = se_workers env"
    and "DepairDataHandleType (km_cmd req) = Inr ty" and "data_type_of (dht_dtype ty) = Some dtype"
    and "sa_data (kp_vals kvs) = RecvMem b" and "int (length b) + 512 + se_page env < 2 ^ 31"
  shows "(\<forall>n < se_workers env. \<exists>s. server_run env (map (\<lambda>(r, x). Request r x) (take n qs)) st = Inr s \<and> sv_sent s = sv_sent st) \<and>
    (\<exists>st'. server_run env (map (\<lambda>(r, x). Request r x) (qs @ [(req, kvs)])) st = Inr st' \<and> serving env k (length b) st' \<and>
       idle (round_of env k st') \<and> take (length b) (rd_value (round_of env k st')) = b \<and>
       sv_sent st' = sv_sent st @ map (ack \<circ> fst) (qs @ [(req, kvs)]) \<and> engine_part st' = engine_part st)"
  using assms by (rule opens)

theorem first_pushes_open_key_witness:
  "\<exists>st'. server_run demo_senv [Request (demo_meta True 9 1) (demo_kvs 7 [5, 0, 0, 0]),
       Request (demo_meta True 11 1) (demo_kvs 7 [6, 0, 0, 0])] demo_started = Inr st' \<and>
     serving demo_senv 7 4 st' \<and> take 4 (rd_value (round_of demo_senv 7 st')) = [6, 0, 0, 0] \<and>
     sv_sent st' = [ack (demo_meta True 9 1), ack (demo_meta True 11 1)]"
proof -
  have "(\<forall>n < se_workers demo_senv. \<exists>s. server_run demo_senv (map (\<lambda>(r, x). Request r x)
        (take n [(demo_meta True 9 1, demo_kvs 7 [5, 0, 0, 0])])) demo_started = Inr s \<and> sv_sent s = sv_sent demo_started) \<and>
    (\<exists>st'. server_run demo_senv (map (\<lambda>(r, x). Request r x)
         ([(demo_meta True 9 1, demo_kvs 7 [5, 0, 0, 0])] @ [(demo_meta True 11 1, demo_kvs 7 [6, 0, 0, 0])])) demo_started = Inr st' \<and>
       serving demo_senv 7 (length [6::u8, 0, 0, 0]) st' \<and> idle (round_of demo_senv 7 st') \<and>
       take (length [6::u8, 0, 0, 0]) (rd_value (round_of demo_senv 7 st')) = [6, 0, 0, 0] \<and>
       sv_sent st' = sv_sent demo_started @ map (ack \<circ> fst)
         ([(demo_meta True 9 1, demo_kvs 7 [5, 0, 0, 0])] @ [(demo_meta True 11 1, demo_kvs 7 [6, 0, 0, 0])]) \<and>
       engine_part st' = engine_part demo_started)"
    by (rule first_pushes_open_key [OF demo_unopened, where ty = "\<lparr>requestType = 0, dht_dtype = 0\<rparr>" and dtype = BYTEPS_FLOAT32])
      (simp_all add: init_request_def demo_plain, simp_all add: demo_senv_def demo_meta_def demo_kvs_def demo_type
        data_type_of_def shaped_def key_base_def)
  moreover have "length [6::u8, 0, 0, 0] = 4" "sv_sent demo_started = []" by (simp_all add: demo_defs)
  ultimately show ?thesis
    by (simp only: list.map append.simps prod.case comp_def fst_conv) blast
qed

text \<open>The square root is found: the loop stops at the root of the largest square.\<close>

lemma isqrt_from_eq:
  assumes "r * r \<le> n" and "n < (r + 1) * (r + 1)" and "m \<le> r"
  shows "isqrt_from n m = r"
  using assms(3)
proof (induction "r - m" arbitrary: m)
  case 0
  then have "m = r" by simp
  then show ?case using assms(2) by (subst isqrt_from.simps) simp
next
  case (Suc x)
  then have m: "m + 1 \<le> r" by simp
  then have "(m + 1) * (m + 1) \<le> r * r" by (intro mult_le_mono) simp_all
  then have "(m + 1) * (m + 1) \<le> n" using assms(1) by linarith
  then have "isqrt_from n m = isqrt_from n (m + 1)" by (subst isqrt_from.simps) simp
  then show ?case using Suc.hyps(1) [of "m + 1"] Suc.hyps(2) m by simp
qed

lemma command_apart:
  assumes "0 \<le> d" and "d \<le> 16000"
  shows "DepairDataHandleType (GetCommandType rt d) = Inr \<lparr>requestType = request_type_value rt, dht_dtype = d\<rparr>"
proof -
  define m where "m = request_type_value rt"
  define s where "s = m + d"
  have m: "0 \<le> m" "m \<le> 2" using request_type_value_range by (simp_all add: m_def)
  have s: "0 \<le> s" "d \<le> s" "s \<le> 16002" using m assms by (simp_all add: s_def)
  define q where "q = s * (s + 1) div 2"
  have ev: "2 * q = s * s + s" unfolding q_def by (subst dvd_mult_div_cancel) (simp_all add: algebra_simps)
  define cmd where "cmd = q + d"
  have c: "8 * cmd + 1 = (2 * s + 1) * (2 * s + 1) + 8 * d"
    using ev unfolding cmd_def by (simp add: algebra_simps)
  have "0 \<le> q" using s by (simp add: q_def)
  then have c0: "0 \<le> cmd" using assms by (simp add: cmd_def)
  have "s * s \<le> 16002 * 16002" using s by (intro mult_mono) simp_all
  then have cb: "8 * cmd + 1 < 2 ^ 31" using c s assms by (simp add: algebra_simps)
  define r where "r = (if 8 * cmd + 1 < (2 * s + 2) * (2 * s + 2) then 2 * s + 1 else 2 * s + 2)"
  have r0: "0 \<le> r" using s by (simp add: r_def)
  have r1: "r * r \<le> 8 * cmd + 1" using c assms by (auto simp: r_def algebra_simps)
  have r2: "8 * cmd + 1 < (r + 1) * (r + 1)" using c s by (auto simp: r_def algebra_simps)
  have "int (isqrt_from (nat (8 * cmd + 1)) 0) = r"
  proof -
    have "isqrt_from (nat (8 * cmd + 1)) 0 = nat r"
    proof (rule isqrt_from_eq)
      show "nat r * nat r \<le> nat (8 * cmd + 1)" using r0 r1 by (simp add: nat_mult_distrib [symmetric])
      have "nat (8 * cmd + 1) < nat ((r + 1) * (r + 1))" using r0 r2 c0 by simp
      also have "nat ((r + 1) * (r + 1)) = (nat r + 1) * (nat r + 1)" using r0 by (simp add: nat_mult_distrib nat_add_distrib)
      finally show "nat (8 * cmd + 1) < (nat r + 1) * (nat r + 1)" .
    qed simp
    then show ?thesis using r0 by simp
  qed
  moreover have "(r - 1) div 2 = s" by (simp add: r_def)
  moreover have "(s * s + s) div 2 = q" by (simp add: q_def algebra_simps)
  moreover have "cmd - q = d" by (simp add: cmd_def)
  moreover have "GetCommandType rt d = cmd" by (simp add: GetCommandType_def Let_def cmd_def q_def s_def m_def)
  ultimately show ?thesis
    using cb c0 assms m by (simp add: DepairDataHandleType_def i32_def Let_def s_def m_def [symmetric])
qed

text \<open>
  The server takes the command number of a request apart into the request type and the data
  type the worker packed into it.
\<close>

theorem command_taken_apart:
  assumes "0 \<le> d" and "d \<le> 16000"
  shows "DepairDataHandleType (GetCommandType rt d) = Inr \<lparr>requestType = request_type_value rt, dht_dtype = d\<rparr>"
  using assms by (rule command_apart)

theorem command_taken_apart_witness:
  "DepairDataHandleType (GetCommandType kCompressedPushPull 6) = Inr \<lparr>requestType = 2, dht_dtype = 6\<rparr>"
  using command_taken_apart [of 6 kCompressedPushPull] by simp

end
