(* ===== verification/Push_Pull.thy ===== *)
theory Push_Pull
  imports Core_Loops Server_Service
begin

section \<open>From the push loop to the server and back\<close>

text \<open>
  The components together: what the push and the pull loop of a worker hand to the
  parameter-server library is, when the library delivers it to the server the key was placed on,
  a well-formed request for that key; so the rounds of the server are those of the workers, and
  the server sums up the gradients of all workers. That no worker gets the sum, in the server as it
  is, is part of the property.
\<close>

subsection \<open>The encoder of a worker\<close>

text \<open>
  The invariant of the encoder: a key is on the server its hash picks, at its offset in the
  server's range, and has one length.
\<close>

definition entry_inv :: "worker_os \<Rightarrow> hash_config \<Rightarrow> u64 \<Rightarrow> pskv \<Rightarrow> bool" where
  "entry_inv os cfg k kv \<longleftrightarrow>
     (\<exists>s < length (os_krs os). pick_server (os_builtin os) (os_rnd os) cfg (int (length (os_krs os))) k = Inr (int s) \<and>
        kv_keys kv = [fst (os_krs os ! s) + k]) \<and>
     kv_lens kv = [kv_size kv] \<and> - (2 ^ 31) \<le> kv_size kv \<and> kv_size kv < 2 ^ 31"

definition encoder_inv :: "worker_os \<Rightarrow> hash_config \<Rightarrow> key_encoder \<Rightarrow> bool" where
  "encoder_inv os cfg enc \<longleftrightarrow> (\<forall>k kv. ps_kv enc k = Some kv \<longrightarrow> entry_inv os cfg k kv)"

lemma encoder_inv_upd:
  "encoder_inv os cfg enc \<Longrightarrow> entry_inv os cfg k kv \<Longrightarrow> ps_kv enc' = (ps_kv enc)(k \<mapsto> kv) \<Longrightarrow> encoder_inv os cfg enc'"
  by (simp add: encoder_inv_def)

lemma encoder_inv_new: "encoder_inv os cfg (enc\<lparr>ps_kv := Map.empty\<rparr>)"
  by (simp add: encoder_inv_def)

lemma int_less_31: "n < 2 ^ 31 \<Longrightarrow> int n < 2 ^ 31"
  by (metis of_nat_less_iff of_nat_numeral of_nat_power)

lemma of_int_size:
  assumes "of_int z = (x :: u64)" and "- (2 ^ 31) \<le> z" and "z < 2 ^ 31" and "unat x < 2 ^ 31"
  shows "z = int (unat x)"
proof -
  have u: "int (unat x) = z mod 2 ^ 64" using assms(1) [symmetric] by (simp add: uint_word_of_int)
  show ?thesis
  proof (cases "0 \<le> z")
    case True
    then show ?thesis using u assms(3) by simp
  next
    case False
    have "z mod 2 ^ 64 = (z + 2 ^ 64) mod 2 ^ 64" by simp
    also have "\<dots> = z + 2 ^ 64" using False assms(2) by (intro mod_pos_pos_trivial) simp_all
    finally have "z mod 2 ^ 64 = z + 2 ^ 64" .
    then show ?thesis using u assms(2) int_less_31 [OF assms(4)] by simp
  qed
qed

lemma to_int_range: "- (2 ^ 31) \<le> to_int x" "to_int x < 2 ^ 31"
  using sint_range_size [of "ucast x :: u32"] by (simp_all add: to_int_def word_size)

lemma encode_key_request:
  assumes "encode_key os k len w = Inr (kv, w')" and "encoder_inv os (w_hash w) (w_encoder w)"
    and "0 < unat len" and "unat len < 2 ^ 31"
  obtains s enc where "s < length (os_krs os)"
    and "pick_server (os_builtin os) (os_rnd os) (w_hash w) (int (length (os_krs os))) k = Inr (int s)"
    and "kv_keys kv = [fst (os_krs os ! s) + k]" and "kv_lens kv = [int (unat len)]"
    and "w' = w\<lparr>w_encoder := enc\<rparr>" and "encoder_inv os (w_hash w) enc"
proof -
  obtain enc where e: "EncodeDefaultKey (os_builtin os) (os_rnd os) (w_hash w) (os_krs os) (w_encoder w) k len = Inr (kv, enc)"
    and w': "w' = w\<lparr>w_encoder := enc\<rparr>"
    using assms(1) by (auto simp: encode_key_def res_simps)
  have l: "to_int len = int (unat len)" by (rule to_int_small [OF assms(4)])
  have "int (unat len) < 2 ^ 31" using assms(4) by (rule int_less_31)
  then have sz: "- (2 ^ 31) \<le> int (unat len)" "int (unat len) < 2 ^ 31" by linarith+
  have l0: "0 < len" using assms(3) by (simp add: word_less_nat_alt)
  show ?thesis
  proof (cases "ps_kv (w_encoder w) k")
    case (Some kv0)
    obtain s where s: "s < length (os_krs os)"
      "pick_server (os_builtin os) (os_rnd os) (w_hash w) (int (length (os_krs os))) k = Inr (int s)"
      "kv_keys kv0 = [fst (os_krs os ! s) + k]"
      and z: "kv_lens kv0 = [kv_size kv0]" "- (2 ^ 31) \<le> kv_size kv0" "kv_size kv0 < 2 ^ 31"
      using assms(2) Some unfolding encoder_inv_def entry_inv_def by blast
    define kv' where "kv' = (if of_int (kv_size kv0) \<noteq> len
        then kv0\<lparr>kv_size := to_int len, kv_lens := (kv_lens kv0)[0 := to_int len]\<rparr> else kv0)"
    have kv: "kv = kv'" and enc: "enc = (w_encoder w)\<lparr>ps_kv := (ps_kv (w_encoder w))(k \<mapsto> kv)\<rparr>"
      using e Some s(3) l0 by (auto simp: EncodeDefaultKey_def map_at_def Let_def kv'_def split: if_splits)
    have "kv_size kv0 = int (unat len)" if "of_int (kv_size kv0) = len"
      by (rule of_int_size [OF that z(2,3) assms(4)])
    then have f: "kv_keys kv = kv_keys kv0" "kv_lens kv = [int (unat len)]" "kv_size kv = int (unat len)"
      using kv z(1) l by (auto simp: kv'_def)
    have "entry_inv os (w_hash w) k kv" unfolding entry_inv_def f s(3) using s(1,2) sz by blast
    then have "encoder_inv os (w_hash w) enc" by (rule encoder_inv_upd [OF assms(2)]) (simp add: enc)
    then show ?thesis using that [OF s(1,2) _ f(2) w'] unfolding f(1) s(3) by blast
  next
    case None
    obtain server where p: "pick_server (os_builtin os) (os_rnd os) (w_hash w) (int (length (os_krs os))) k = Inr server"
      and q: "place_key (os_krs os) (w_encoder w) k len empty_pskv server = Inr (kv, enc)"
      using e None by (auto simp: EncodeDefaultKey_def map_at_def empty_pskv_def Let_def res_simps)
    obtain s where s: "int s = server" "s < length (os_krs os)" "kv_keys kv = [fst (os_krs os ! s) + k]"
      "enc = (w_encoder w)\<lparr>ps_kv := (ps_kv (w_encoder w))(k \<mapsto> kv),
         server_accumulated_len := (server_accumulated_len (w_encoder w))[s := server_accumulated_len (w_encoder w) ! s + len],
         total_accumulated_len := total_accumulated_len (w_encoder w) + len\<rparr>"
      using place_key_Inr [OF q] by (auto simp: empty_pskv_def)
    have f: "kv_lens kv = [int (unat len)]" "kv_size kv = int (unat len)"
      using q l by (auto simp: place_key_def empty_pskv_def Let_def res_simps)
    have "entry_inv os (w_hash w) k kv" unfolding entry_inv_def f s(3) using s(1,2) p sz by blast
    then have "encoder_inv os (w_hash w) enc" by (rule encoder_inv_upd [OF assms(2)]) (simp add: s(4))
    then show ?thesis using that [OF s(2) _ s(3) f(1) w'] p s(1) by simp
  qed
qed

subsection \<open>The requests of the loops\<close>

text \<open>
  What the parameter-server library is relied on for: a push arrives with its keys, lengths and
  command number and as many bytes as were sent, a pull with its keys and command number.
\<close>

fun delivers :: "effect \<Rightarrow> u8 list \<Rightarrow> kv_meta \<Rightarrow> kv_pairs \<Rightarrow> bool" where
  "delivers (ZPush keys data len lens cmd) b req kvs \<longleftrightarrow> km_push req \<and> km_cmd req = cmd \<and> int (length b) = len \<and>
     kvs = \<lparr>kp_keys = keys, kp_vals = \<lparr>sa_data = RecvMem b, sa_size = length b\<rparr>, kp_lens = lens\<rparr>"
| "delivers (ZPull keys data len lens cmd) b req kvs \<longleftrightarrow> \<not> km_push req \<and> km_cmd req = cmd \<and>
     kp_keys kvs = keys \<and> sa_data (kp_vals kvs) = RecvMem b"
| "delivers _ b req kvs \<longleftrightarrow> False"

text \<open>A distributed worker with a task for the key, whose hash sends the key to this server.\<close>

definition sends_here :: "server_env \<Rightarrow> u64 \<Rightarrow> nat \<Rightarrow> loop_env \<Rightarrow> tte \<Rightarrow> worker \<Rightarrow> bool" where
  "sends_here env k len le t w \<longleftrightarrow>
     os_krs (le_os le) = se_ranges env \<and> encoder_inv (le_os le) (w_hash w) (w_encoder w) \<and> w_is_distributed w \<and>
     te_key t = k \<and> unat (te_len t) = len \<and>
     pick_server (os_builtin (le_os le)) (os_rnd (le_os le)) (w_hash w) (int (length (se_ranges env))) k = Inr (int (se_rank env))"

definition pushes_gradient :: "server_env \<Rightarrow> u64 \<Rightarrow> nat \<Rightarrow> data_type \<Rightarrow> u8 list \<Rightarrow> server_event \<Rightarrow> bool" where
  "pushes_gradient env k len dt b e \<longleftrightarrow>
     (\<exists>le t w w' x req kvs. sends_here env k len le t w \<and> te_tensor t = Some x \<and> tensor_dtype x = dt \<and>
        te_compressed t = None \<and> push_task le t w = Inr w' \<and> delivers (last (w_log w')) b req kvs \<and> e = Request req kvs)"

definition pulls_gradient :: "server_env \<Rightarrow> u64 \<Rightarrow> nat \<Rightarrow> data_type \<Rightarrow> kv_meta \<Rightarrow> server_event \<Rightarrow> bool" where
  "pulls_gradient env k len dt req e \<longleftrightarrow>
     (\<exists>le t w w' x b kvs. sends_here env k len le t w \<and> te_output t = Some x \<and> tensor_dtype x = dt \<and>
        pull_task le t w = Inr w' \<and> delivers (last (w_log w')) b req kvs \<and> e = Request req kvs)"

lemma sent_request:
  fixes l :: u32
  assumes "sends_here env k len le t w" and "encode_key (le_os le) (te_key t) (ucast l) w = Inr (kv, w')"
    and "0 < unat l" and "unat l < 2 ^ 31"
  shows "se_rank env < length (se_ranges env)" "kv_keys kv = [k + key_base env]" "kv_lens kv = [int (unat l)]"
    "\<exists>enc. w' = w\<lparr>w_encoder := enc\<rparr> \<and> encoder_inv (le_os le) (w_hash w) enc"
proof -
  have u: "unat (ucast l :: u64) = unat l" by (rule unat_u32_u64)
  have b: "0 < unat (ucast l :: u64)" "unat (ucast l :: u64) < 2 ^ 31" unfolding u by (rule assms(3), rule assms(4))
  have e: "encode_key (le_os le) k (ucast l) w = Inr (kv, w')" and i: "encoder_inv (le_os le) (w_hash w) (w_encoder w)"
    and kr: "os_krs (le_os le) = se_ranges env"
    and p: "pick_server (os_builtin (le_os le)) (os_rnd (le_os le)) (w_hash w) (int (length (se_ranges env))) k = Inr (int (se_rank env))"
    using assms(1,2) by (simp_all add: sends_here_def)
  obtain s enc where s: "s < length (os_krs (le_os le))"
    "pick_server (os_builtin (le_os le)) (os_rnd (le_os le)) (w_hash w) (int (length (os_krs (le_os le)))) k = Inr (int s)"
    "kv_keys kv = [fst (os_krs (le_os le) ! s) + k]" "kv_lens kv = [int (unat (ucast l :: u64))]"
    "w' = w\<lparr>w_encoder := enc\<rparr>" "encoder_inv (le_os le) (w_hash w) enc"
    by (rule encode_key_request [OF e i b])
  have "s = se_rank env" using s(2) p kr by simp
  then show "se_rank env < length (se_ranges env)" "kv_keys kv = [k + key_base env]" "kv_lens kv = [int (unat l)]"
    using s(1,3,4) kr u by (simp_all add: key_base_def add.commute)
  show "\<exists>enc. w' = w\<lparr>w_encoder := enc\<rparr> \<and> encoder_inv (le_os le) (w_hash w) enc" using s(5,6) by blast
qed

lemma push_command:
  "DepairDataHandleType (GetCommandType kDefaultPushPull (data_type_value dt)) =
     Inr \<lparr>requestType = 0, dht_dtype = data_type_value dt\<rparr>"
  using command_apart [of "data_type_value dt" kDefaultPushPull] by (cases dt) simp_all

lemma push_served:
  assumes "pushes_gradient env k len dt b e" and "0 < len" and "len < 2 ^ 31"
  shows "key_event env k tid e" "key_view e = APush (data_type_value dt) b" "length b = len"
    "se_rank env < length (se_ranges env)" "\<exists>req kvs. e = Request req kvs \<and> km_push req \<and> sa_size (kp_vals kvs) = len"
proof -
  obtain le t w w' x req kvs where s: "sends_here env k len le t w" and x: "te_tensor t = Some x" "tensor_dtype x = dt"
    and c: "te_compressed t = None" and p: "push_task le t w = Inr w'"
    and d: "delivers (last (w_log w')) b req kvs" and e: "e = Request req kvs"
    using assms(1) unfolding pushes_gradient_def by blast
  have l: "unat (te_len t) = len" and dist: "w_is_distributed w" using s by (simp_all add: sends_here_def)
  obtain kv w1 where k: "encode_key (le_os le) (te_key t) (ucast (te_len t)) w = Inr (kv, w1)"
    and lg: "last (w_log w') = ZPush (kv_keys kv) (address (te_cpubuff t) + int (unat (te_offset t))) (int len) (kv_lens kv)
        (GetCommandType kDefaultPushPull (data_type_value dt))"
    using p x c dist l by (auto simp: push_task_def push_payload_def the_tensor_def emit_def Let_def res_simps)
  note r = sent_request [OF s k, unfolded l, OF assms(2,3)]
  have kvs: "km_push req" "km_cmd req = GetCommandType kDefaultPushPull (data_type_value dt)" "length b = len"
    "kvs = \<lparr>kp_keys = [k + key_base env], kp_vals = \<lparr>sa_data = RecvMem b, sa_size = length b\<rparr>, kp_lens = [int (length b)]\<rparr>"
    using d lg r(2,3) by auto
  show "key_event env k tid e"
    using kvs e push_command [of dt] assms(3) by (auto simp: plain_type_def shaped_def)
  show "key_view e = APush (data_type_value dt) b" using kvs e push_command [of dt] by (simp add: recv_bytes_def)
  show "length b = len" by (rule kvs(3))
  show "se_rank env < length (se_ranges env)" by (rule r(1))
  show "\<exists>req kvs. e = Request req kvs \<and> km_push req \<and> sa_size (kp_vals kvs) = len" using kvs e by auto
qed

lemma pull_served:
  assumes "pulls_gradient env k len dt req e" and "0 < len" and "len < 2 ^ 31"
  shows "key_event env k tid e" "key_view e = APull req"
proof -
  obtain le t w w' x b kvs where s: "sends_here env k len le t w" and x: "te_output t = Some x" "tensor_dtype x = dt"
    and p: "pull_task le t w = Inr w'" and d: "delivers (last (w_log w')) b req kvs" and e: "e = Request req kvs"
    using assms(1) unfolding pulls_gradient_def by blast
  have l: "unat (te_len t) = len" using s by (simp add: sends_here_def)
  obtain kv w1 where k: "encode_key (le_os le) (te_key t) (ucast (te_len t)) w = Inr (kv, w1)"
    and lg: "last (w_log w') = ZPull (kv_keys kv) (address (te_cpubuff t) + int (unat (te_offset t))) (int len) (kv_lens kv)
        (GetCommandType kDefaultPushPull (data_type_value dt))"
    using p x l by (auto simp: pull_task_def the_tensor_def emit_def Let_def res_simps)
  note r = sent_request [OF s k, unfolded l, OF assms(2,3)]
  show "key_event env k tid e" "key_view e = APull req"
    using d lg r(2) e push_command [of dt] by (auto simp: plain_type_def)
qed

subsection \<open>Properties\<close>

definition from_workers :: "server_env \<Rightarrow> u64 \<Rightarrow> nat \<Rightarrow> data_type \<Rightarrow> nat \<Rightarrow> server_event \<Rightarrow> bool" where
  "from_workers env k len dt tid e \<longleftrightarrow> e = EngineTurn tid \<or> (\<exists>b. pushes_gradient env k len dt b e)"

lemma from_workers_key_event:
  "from_workers env k len dt tid e \<Longrightarrow> 0 < len \<Longrightarrow> len < 2 ^ 31 \<Longrightarrow> key_event env k tid e"
  using push_served(1) by (auto simp: from_workers_def)

lemma from_workers_views:
  assumes "\<forall>e \<in> set es. from_workers env k len dt tid e" and "0 < len" and "len < 2 ^ 31"
  shows "pulls (map key_view es) = []" and "(d, x) \<in> set (pushes (map key_view es)) \<Longrightarrow> length x = len"
proof -
  have "pulls (map key_view es) = [] \<and> ((d, x) \<in> set (pushes (map key_view es)) \<longrightarrow> length x = len)"
    using assms(1)
  proof (induction es)
    case (Cons e es)
    then consider "e = EngineTurn tid" | b where "pushes_gradient env k len dt b e"
      unfolding from_workers_def by auto
    then show ?case
    proof cases
      case 2
      then show ?thesis using Cons push_served(2,3) [OF 2 assms(2,3)] by auto
    qed (use Cons in simp)
  qed simp
  then show "pulls (map key_view es) = []" "(d, x) \<in> set (pushes (map key_view es)) \<Longrightarrow> length x = len" by simp_all
qed

text \<open>The first key of a started server goes to the first thread.\<close>

lemma least_loaded_fresh: "0 < n \<Longrightarrow> n \<le> m \<Longrightarrow> least_loaded (replicate m 0) n = (0, 0)"
proof (induction n)
  case (Suc n)
  show ?case
  proof (cases n)
    case 0
    then show ?thesis using Suc.prems by (simp add: least_loaded_def word_gt_0)
  next
    case (Suc i)
    then have "least_loaded (replicate m 0) n = (0, 0)" using Suc.IH Suc.prems by simp
    then show ?thesis using Suc.prems(2) by (simp add: least_loaded_def)
  qed
qed simp

lemma started_engine:
  assumes "start_server genv server_globals = Inr st0" and "sv_sync st0" and "0 < sv_threads st0"
    and "engine_part st = engine_part st0" and "0 < len"
  shows "\<exists>st1. GetThreadID k len st = Inr (0, st1)" "own_queue k 0 st" "sv_flags st = []"
proof -
  note f = start_fields [OF assms(1)]
  have e: "sv_queues st = sv_queues st0" "sv_acc_load st = sv_acc_load st0" "sv_hash_cache st = sv_hash_cache st0"
    "sv_threads st = sv_threads st0" "sv_flags st = sv_flags st0" using assms(4) by (simp_all add: engine_part_def)
  show "\<exists>st1. GetThreadID k len st = Inr (0, st1)"
    using assms(3,5) f e least_loaded_fresh [of "sv_threads st0" "sv_threads st0"] by (simp add: GetThreadID_def Let_def)
  show "own_queue k 0 st" using assms(2,3) f e by (simp add: own_queue_def PriorityQueue_def)
  show "sv_flags st = []" using f e by simp
qed

text \<open>
  C5. The way of a gradient, from the push loops of the workers to its sum. A server is started in
  the synchronous mode without scheduling, with at least one engine thread, and the first pushes
  of all workers open a key; then the push loops of all workers send their gradients for it, in
  any order and with turns of the key's thread between them (no more than there are workers). The
  server accepts all of this, acknowledges every push once, and after at most as many more turns
  the key's buffer holds the element-wise sum of all workers' gradients, in the order of the
  pushes. A pull of a pull loop then fails: the vectors of flags it needs have no size. The
  parameter-server library delivers what was sent, and is the only thing between the loops and the
  server. Half precision sums in a build with AVX are not covered, nor a sum that is undefined.
\<close>

theorem gradients_are_summed:
  assumes "start_server genv server_globals = Inr st0" and "\<not> sv_schedule st0" and "sv_sync st0" and "0 < sv_threads st0"
    and "0 < se_page env" and "\<forall>(r, x) \<in> set (qs @ [(req, kvs)]). init_request env k r x" and "length qs + 1 = se_workers env"
    and "DepairDataHandleType (km_cmd req) = Inr ty" and "data_type_of (dht_dtype ty) = Some dty"
    and "sa_data (kp_vals kvs) = RecvMem a" and "length a = len" and "0 < len" and "int len + 512 + se_page env < 2 ^ 31"
    and "es = e0 # fs" and "pushes_gradient env k len dt b0 e0" and "\<forall>e \<in> set es. from_workers env k len dt 0 e"
    and "turns (map key_view es) \<le> se_workers env"
    and "pushes (map key_view es) = map (Pair (data_type_value dt)) (b # bs)" and "length (b # bs) = se_workers env"
    and "dt \<noteq> BYTEPS_FLOAT16 \<or> \<not> avx_build (ce_build (se_cenv env))"
    and "\<forall>i < len div type_width dt. sum_elems (ops_of (se_cenv env)) dt i bs (elem_at dt b i) = Inr (c i)"
  shows "\<exists>m st' v. m \<le> se_workers env \<and>
    server_run env (map (\<lambda>(r, x). Request r x) (qs @ [(req, kvs)]) @ es @ replicate m (EngineTurn 0)) st0 = Inr st' \<and>
    sv_mem st' k = Some v \<and> (\<forall>i < len div type_width dt. elem_at dt v i = c i) \<and>
    sv_sent st' = map (ack \<circ> fst) (qs @ [(req, kvs)]) @ concat (map acks es) \<and>
    (\<forall>r e. pulls_gradient env k len dt r e \<longrightarrow> (\<exists>x. server_step env e st' = Inl x))"
proof -
  have len31: "len < 2 ^ 31" using assms(5,13) by simp
  have rk: "se_rank env < length (se_ranges env)" by (rule push_served(4) [OF assms(15,12) len31])
  have "int (length a) + 512 + se_page env < 2 ^ 31" using assms(11,13) by simp
  from opens [OF started_unopened [OF assms(1-3)] rk assms(5-10) this] obtain st where
    i: "server_run env (map (\<lambda>(r, x). Request r x) (qs @ [(req, kvs)])) st0 = Inr st"
    and s: "serving env k len st" and id: "idle (round_of env k st)"
    and sent: "sv_sent st = map (ack \<circ> fst) (qs @ [(req, kvs)])" and e: "engine_part st = engine_part st0"
    using start_fields(10) [OF assms(1)] assms(11) by auto
  note g = started_engine [OF assms(1,3,4) e assms(12)]
  obtain rq x where e0: "e0 = Request rq x" "km_push rq" "sa_size (kp_vals x) = len"
    using push_served(5) [OF assms(15,12) len31] by blast
  obtain st1 where t: "GetThreadID k (sa_size (kp_vals x)) st = Inr (0, st1)" using g(1) e0(3) by auto
  have ke: "\<forall>e \<in> set es. key_event env k 0 e" using assms(16) from_workers_key_event [OF _ assms(12) len31] by blast
  have lb: "\<forall>x \<in> set (b # bs). len \<le> length x"
    using from_workers_views(2) [OF assms(16,12) len31, unfolded assms(18)] by auto
  obtain v where v: "sum_pushes env len (rd_value (round_of env k st)) (map (Pair (data_type_value dt)) (b # bs)) = Inr v"
    "\<forall>i < len div type_width dt. elem_at dt v i = c i"
    by (rule sum_of_pushes [OF s data_type_of_value assms(20) lb assms(21)])
  have N: "0 < se_workers env" "length (pushes (map key_view es)) = se_workers env" using assms(7,18,19) by simp_all
  obtain m st' where m: "m \<le> se_workers env" "server_run env (es @ replicate m (EngineTurn 0)) st = Inr st'"
    "sv_mem st' k = Some v" "sv_sent st' = sv_sent st @ concat (map acks es)"
    and st': "serving env k len st'" "sv_hash_cache st' k = Some 0" "own_queue k 0 st'" "length (sv_flags st') = length (sv_flags st)"
    using served [OF s id N(1) rk assms(14) [unfolded e0(1)] e0(2) t g(2) ke N(2) from_workers_views(1) [OF assms(16,12) len31]
        assms(17) v(1) [folded assms(18)]] by blast
  have "\<exists>x. server_step env e st' = Inl x" if "pulls_gradient env k len dt r e" for r e
    using step_stops [OF st'(1-3) pull_served(1) [OF that assms(12) len31]] pull_served(2) [OF that assms(12) len31] st'(4) g(3)
    by simp
  moreover have "server_run env (map (\<lambda>(r, x). Request r x) (qs @ [(req, kvs)]) @ es @ replicate m (EngineTurn 0)) st0 = Inr st'"
    unfolding server_run_append [of env "map (\<lambda>(r, x). Request r x) (qs @ [(req, kvs)])"] i using m(2) by simp
  ultimately show ?thesis using m v(2) sent by (intro exI [of _ m] exI [of _ st'] exI [of _ v]) simp
qed

definition pp_env :: loop_env where
  "pp_env = \<lparr>le_ready = (\<lambda>_. True), le_now = 0, le_os = demo_os\<lparr>os_krs := [(100, 200)]\<rparr>,
     le_compress = (\<lambda>_ _ _ _. \<lparr>ct_data = 0, ct_size = 0\<rparr>), le_pull_lens = (\<lambda>_ l. l)\<rparr>"

definition pp_worker :: worker where
  "pp_worker = initial_worker\<lparr>w_is_distributed := True, w_is_root_device := True, w_ps := True, w_hash := demo_hash,
     w_encoder := \<lparr>ps_kv = Map.empty, server_accumulated_len = [0], total_accumulated_len = 0\<rparr>\<rparr>"

definition pp_task :: tte where
  "pp_task = (demo_entry 4)\<lparr>te_key := 7, te_len := 4, te_output := Some (demo_tensor 4), te_cpubuff := Some 8192\<rparr>"

lemmas pp_defs = pp_env_def pp_worker_def pp_task_def demo_entry_defs demo_hash_def demo_os_def demo_senv_def

lemma pp_encode:
  "encode_key (le_os pp_env) 7 4 pp_worker = Inr (\<lparr>kv_keys = [107], kv_lens = [4], kv_size = 4\<rparr>,
     pp_worker\<lparr>w_encoder := \<lparr>ps_kv = [7 \<mapsto> \<lparr>kv_keys = [107], kv_lens = [4], kv_size = 4\<rparr>],
       server_accumulated_len = [4], total_accumulated_len = 4\<rparr>\<rparr>)"
  by (simp add: pp_defs encode_key_def EncodeDefaultKey_def map_at_def empty_pskv_def pick_server_def Hash_Naive_def
    place_key_def to_int_def Let_def)

lemma pp_sends: "sends_here demo_senv 7 4 pp_env pp_task pp_worker"
  by (simp add: sends_here_def encoder_inv_def)
    (simp add: pp_defs pick_server_def Hash_Naive_def to_int_def Let_def)

lemma pp_fields:
  "w_is_root_device pp_worker" "w_is_distributed pp_worker" "w_ps pp_worker" "te_key pp_task = 7" "te_len pp_task = 4"
  "te_cpubuff pp_task = Some 8192" "te_offset pp_task = 0" "te_compressed pp_task = None"
  "te_tensor pp_task = Some (demo_tensor 4)" "te_output pp_task = Some (demo_tensor 4)" "tensor_dtype (demo_tensor n) = BYTEPS_FLOAT32"
  by (simp_all add: pp_defs)

lemmas pp_run = pp_fields pp_encode the_tensor_def emit_def GetCommandType_def address_def

lemma pp_push:
  assumes "length b = 4"
  shows "pushes_gradient demo_senv 7 4 BYTEPS_FLOAT32 b (Request (demo_meta True i n) (demo_kvs 7 b))"
proof -
  obtain w' where "push_task pp_env pp_task pp_worker = Inr w'" "last (w_log w') = ZPush [107] 8192 4 [4] 0"
    by (simp add: push_task_def push_payload_def pp_run)
  then show ?thesis
    unfolding pushes_gradient_def using pp_sends assms
    by (intro exI [of _ pp_env] exI [of _ pp_task] exI [of _ pp_worker] exI [of _ w'] exI [of _ "demo_tensor 4"]
        exI [of _ "demo_meta True i n"] exI [of _ "demo_kvs 7 b"])
      (simp add: pp_fields demo_meta_def demo_kvs_def)
qed

lemma pp_pull: "pulls_gradient demo_senv 7 4 BYTEPS_FLOAT32 (demo_meta False i n) (Request (demo_meta False i n) (demo_kvs 7 []))"
proof -
  obtain w' where "pull_task pp_env pp_task pp_worker = Inr w'" "last (w_log w') = ZPull [107] 8192 4 [4] 0"
    by (simp add: pull_task_def pp_run)
  then show ?thesis
    unfolding pulls_gradient_def using pp_sends
    by (intro exI [of _ pp_env] exI [of _ pp_task] exI [of _ pp_worker] exI [of _ w'] exI [of _ "demo_tensor 4"]
        exI [of _ "[]"] exI [of _ "demo_kvs 7 []"])
      (simp add: pp_fields demo_meta_def demo_kvs_def)
qed

theorem gradients_are_summed_witness:
  "\<exists>m st' v. server_run demo_senv (map (\<lambda>(r, x). Request r x) demo_inits @ demo_round @ replicate m (EngineTurn 0)) demo_started =
       Inr st' \<and> sv_mem st' 7 = Some v \<and> elem_at BYTEPS_FLOAT32 v 0 = 2 \<and>
     sv_sent st' = map ack [demo_meta True 9 1, demo_meta True 11 1, demo_meta True 9 2, demo_meta True 11 2] \<and>
     (\<exists>x. server_step demo_senv (Request (demo_meta False 9 3) (demo_kvs 7 [])) st' = Inl x)"
proof -
  let ?qs = "[(demo_meta True 9 1, demo_kvs 7 [5, 0, 0, 0])]"
  have q: "?qs @ [(demo_meta True 11 1, demo_kvs 7 [6, 0, 0, 0])] = demo_inits" by (simp add: demo_inits_def)
  have w: "from_workers demo_senv 7 4 BYTEPS_FLOAT32 0 (Request (demo_meta True i n) (demo_kvs 7 b))" if "length b = 4" for b i n
    unfolding from_workers_def using pp_push [OF that] by blast
  have "from_workers demo_senv 7 4 BYTEPS_FLOAT32 0 (EngineTurn 0)" by (simp add: from_workers_def)
  then have es: "\<forall>e \<in> set demo_round. from_workers demo_senv 7 4 BYTEPS_FLOAT32 0 e"
    using w by (simp add: demo_round_def)
  have ini: "\<forall>(r, x) \<in> set (?qs @ [(demo_meta True 11 1, demo_kvs 7 [6, 0, 0, 0])]). init_request demo_senv 7 r x"
    by (simp add: init_request_def demo_plain)
      (simp add: demo_meta_def demo_kvs_def shaped_def key_base_def demo_senv_def)
  have fp: "pushes_gradient demo_senv 7 4 BYTEPS_FLOAT32 [1, 0, 0, 0] (Request (demo_meta True 9 2) (demo_kvs 7 [1, 0, 0, 0]))"
    by (rule pp_push) simp
  have st: "\<not> sv_schedule demo_started" "sv_sync demo_started" "0 < sv_threads demo_started"
    by (simp_all add: demo_started_def server_globals_def)
  have "\<exists>m st' v. m \<le> se_workers demo_senv \<and>
    server_run demo_senv (map (\<lambda>(r, x). Request r x) (?qs @ [(demo_meta True 11 1, demo_kvs 7 [6, 0, 0, 0])]) @ demo_round @
      replicate m (EngineTurn 0)) demo_started = Inr st' \<and>
    sv_mem st' 7 = Some v \<and> (\<forall>i < 4 div type_width BYTEPS_FLOAT32. elem_at BYTEPS_FLOAT32 v i = (\<lambda>i. 2) i) \<and>
    sv_sent st' = map (ack \<circ> fst) (?qs @ [(demo_meta True 11 1, demo_kvs 7 [6, 0, 0, 0])]) @ concat (map acks demo_round) \<and>
    (\<forall>r e. pulls_gradient demo_senv 7 4 BYTEPS_FLOAT32 r e \<longrightarrow> (\<exists>x. server_step demo_senv e st' = Inl x))"
    by (rule gradients_are_summed [OF demo_started st _ ini _ _ _ _ _ _ _ demo_round_def fp es,
          where ty = "\<lparr>requestType = 0, dht_dtype = 0\<rparr>" and a = "[6, 0, 0, 0]" and dty = BYTEPS_FLOAT32
            and b = "[1, 0, 0, 0]" and bs = "[[2, 0, 0, 0]]"])
      (use demo_elems in \<open>simp_all add: demo_views demo_type data_type_of_def\<close>,
       simp_all add: demo_senv_def demo_meta_def demo_kvs_def demo_type)
  then obtain m st' v where "server_run demo_senv (map (\<lambda>(r, x). Request r x) demo_inits @ demo_round @
      replicate m (EngineTurn 0)) demo_started = Inr st'" "sv_mem st' 7 = Some v" "elem_at BYTEPS_FLOAT32 v 0 = 2"
    and "sv_sent st' = map (ack \<circ> fst) demo_inits @ concat (map acks demo_round)"
    and "\<forall>r e. pulls_gradient demo_senv 7 4 BYTEPS_FLOAT32 r e \<longrightarrow> (\<exists>x. server_step demo_senv e st' = Inl x)"
    unfolding q by auto
  then show ?thesis using pp_pull by (fastforce simp: demo_inits_def demo_round_def)
qed

end
