(* ===== verification/Half_Rounding.thy ===== *)
theory Half_Rounding
  imports Cpu_Reducer
begin

section \<open>Half precision is rounded to the nearest\<close>

text \<open>
  The conversions of \<open>cpu_reducer.h\<close> against what IEEE 754 asks of them: a half precision number
  is converted to the \<open>float\<close> of the same value, and a \<open>float\<close> to the nearest half precision
  number, to the one with the even pattern when two are equally near. Magnitudes are counted in
  units of the smallest subnormal number, so everything stays in the naturals; one unit of half
  precision, \<open>2 ^ -24\<close>, is \<open>2 ^ 125\<close> units of \<open>float\<close>, \<open>2 ^ -149\<close>.
\<close>

unbundle bit_operations_syntax

subsection \<open>Patterns and magnitudes\<close>

text \<open>A pattern without its sign; the pattern of infinity continues the ladder as the number \<open>65536\<close>.\<close>

definition half_ladder :: "nat \<Rightarrow> nat" where
  "half_ladder p = (let e = p div 2 ^ 10; m = p mod 2 ^ 10 in if e = 0 then m else (2 ^ 10 + m) * 2 ^ (e - 1))"

definition float_ladder :: "nat \<Rightarrow> nat" where
  "float_ladder p = (let e = p div 2 ^ 23; m = p mod 2 ^ 23 in if e = 0 then m else (2 ^ 23 + m) * 2 ^ (e - 1))"

definition half_mag :: "u16 \<Rightarrow> nat" where
  "half_mag h = half_ladder (unat h mod 2 ^ 15)"

definition float_mag :: "u32 \<Rightarrow> nat" where
  "float_mag s = float_ladder (unat s mod 2 ^ 31)"

lemma half_ladder_step: "half_ladder (Suc p) = half_ladder p + 2 ^ (p div 2 ^ 10 - 1)"
proof (cases "p mod 2 ^ 10 = 2 ^ 10 - 1")
  case True
  then have "Suc p mod 2 ^ 10 = 0" "Suc p div 2 ^ 10 = Suc (p div 2 ^ 10)"
    by (simp_all add: mod_Suc div_Suc)
  then show ?thesis using True by (cases "p div 2 ^ 10") (simp_all add: half_ladder_def Let_def)
next
  case False
  then have "Suc p mod 2 ^ 10 = Suc (p mod 2 ^ 10)" "Suc p div 2 ^ 10 = p div 2 ^ 10"
    by (simp_all add: mod_Suc div_Suc)
  then show ?thesis by (simp add: half_ladder_def Let_def algebra_simps)
qed

lemma half_ladder_less: "p < q \<Longrightarrow> half_ladder p < half_ladder q"
  by (rule lift_Suc_mono_less) (simp_all add: half_ladder_step)

lemma half_ladder_mono: "p \<le> q \<Longrightarrow> half_ladder p \<le> half_ladder q"
  using half_ladder_less [of p q] by (cases "p = q") simp_all

lemma half_ladder_inj: "half_ladder p = half_ladder q \<Longrightarrow> p = q"
  using half_ladder_less [of p q] half_ladder_less [of q p] by (cases p q rule: linorder_cases) simp_all

text \<open>The patterns of one binade, and the first of the next.\<close>

lemma half_ladder_binade: "2 ^ 10 \<le> r \<Longrightarrow> r \<le> 2 ^ 11 \<Longrightarrow> half_ladder (e * 2 ^ 10 + r) = r * 2 ^ e"
proof (cases "r = 2 ^ 11")
  case True
  then have "e * 2 ^ 10 + r = (e + 2) * 2 ^ 10" by simp
  then have "(e * 2 ^ 10 + r) div 2 ^ 10 = e + 2" "(e * 2 ^ 10 + r) mod 2 ^ 10 = 0" by simp_all
  then show ?thesis using True by (simp add: half_ladder_def Let_def)
next
  case False
  assume r: "2 ^ 10 \<le> r" "r \<le> 2 ^ 11"
  then obtain q where q: "r = 2 ^ 10 + q" "q < 2 ^ 10" using False le_Suc_ex [OF r(1)] by auto
  then have s: "e * 2 ^ 10 + r = q + (e + 1) * 2 ^ 10" by simp
  have "(q + (e + 1) * 2 ^ 10) div 2 ^ 10 = e + 1 + q div 2 ^ 10" by (rule div_mult_self1) simp
  moreover have "(q + (e + 1) * 2 ^ 10) mod 2 ^ 10 = q mod 2 ^ 10" by (rule mod_mult_self1)
  ultimately have "(e * 2 ^ 10 + r) div 2 ^ 10 = e + 1" "(e * 2 ^ 10 + r) mod 2 ^ 10 = q"
    unfolding s using q(2) by simp_all
  then show ?thesis using q(1) by (simp add: half_ladder_def Let_def)
qed

lemma half_ladder_subnormal: "r \<le> 2 ^ 10 \<Longrightarrow> half_ladder r = r"
  by (cases "r = 2 ^ 10") (simp_all add: half_ladder_def Let_def)

subsection \<open>Rounding\<close>

text \<open>The nearest integer to \<open>m / 2 ^ Suc j\<close>, ties to even, the way \<open>Float2HalfBits\<close> decides it.\<close>

definition rne :: "nat \<Rightarrow> nat \<Rightarrow> nat" where
  "rne m j = (let q = m div 2 ^ Suc j in if odd (m div 2 ^ j) \<and> (m mod 2 ^ j \<noteq> 0 \<or> odd q) then q + 1 else q)"

lemma rne_cases:
  obtains q f where "m = q * 2 ^ Suc j + f" "f < 2 ^ Suc j" "q = m div 2 ^ Suc j"
    "rne m j = (if 2 ^ j < f \<or> f = 2 ^ j \<and> odd q then q + 1 else q)"
proof -
  define q where "q = m div 2 ^ Suc j"
  define f where "f = m mod 2 ^ Suc j"
  have m: "m = q * 2 ^ Suc j + f" "f < 2 ^ Suc j" unfolding q_def f_def by (simp_all only: div_mult_mod_eq) simp
  have "m = 2 ^ j * (2 * q) + f" using m(1) by simp
  then have d: "m div 2 ^ j = 2 * q + f div 2 ^ j" "m mod 2 ^ j = f mod 2 ^ j" by simp_all
  have f2: "f < 2 * 2 ^ j" using m(2) by simp
  have "odd (m div 2 ^ j) \<longleftrightarrow> 2 ^ j \<le> f"
  proof (cases "2 ^ j \<le> f")
    case True
    then have "f div 2 ^ j = 1" using f2 by (intro div_nat_eqI) simp_all
    then show ?thesis using d True by simp
  next
    case False
    then show ?thesis using d by simp
  qed
  moreover have "f mod 2 ^ j \<noteq> 0 \<longleftrightarrow> f \<noteq> 2 ^ j" if "2 ^ j \<le> f"
  proof -
    have "f mod 2 ^ j = f - 2 ^ j" using that f2 by (simp add: le_mod_geq)
    then show ?thesis using that by auto
  qed
  ultimately have "rne m j = (if 2 ^ j < f \<or> f = 2 ^ j \<and> odd q then q + 1 else q)"
    using d(2) unfolding rne_def Let_def q_def [symmetric] by auto
  then show ?thesis using that m q_def by blast
qed

text \<open>
  Nothing on a ladder is nearer, whose rungs around the number are at multiples of the spacing; at
  a tie the pattern is even.
\<close>

definition dist :: "nat \<Rightarrow> nat \<Rightarrow> nat" where
  "dist a b = (a - b) + (b - a)"

lemma rne_nearest:
  fixes L :: "nat \<Rightarrow> nat"
  assumes mono: "\<And>x y. x \<le> y \<Longrightarrow> L x \<le> L y" and inj: "\<And>x y. L x = L y \<Longrightarrow> x = y"
    and q: "L (b + m div 2 ^ Suc j) = (m div 2 ^ Suc j) * 2 ^ Suc j * u"
    and q1: "L (b + m div 2 ^ Suc j + 1) = (m div 2 ^ Suc j + 1) * 2 ^ Suc j * u"
    and u: "0 < u" and b: "even b"
  shows "dist (L (b + rne m j)) (m * u) \<le> dist (L x) (m * u)"
    and "dist (L x) (m * u) = dist (L (b + rne m j)) (m * u) \<Longrightarrow> x \<noteq> b + rne m j \<Longrightarrow> even (b + rne m j)"
proof -
  obtain q f where m: "m = q * 2 ^ Suc j + f" "f < 2 ^ Suc j" and qd: "q = m div 2 ^ Suc j"
    and r: "rne m j = (if 2 ^ j < f \<or> f = 2 ^ j \<and> odd q then q + 1 else q)" by (rule rne_cases)
  define D where "D = (2 :: nat) ^ j * u"
  define F where "F = f * u"
  define Q where "Q = q * 2 ^ Suc j * u"
  have mu: "m * u = Q + F" by (simp add: m(1) Q_def F_def algebra_simps)
  have Lq: "L (b + q) = Q" "L (b + q + 1) = Q + 2 * D" using q q1 unfolding qd [symmetric] by (simp_all add: Q_def D_def algebra_simps)
  have F: "F < 2 * D" "2 ^ j < f \<longleftrightarrow> D < F" "f = 2 ^ j \<longleftrightarrow> F = D"
    using m(2) u by (simp_all add: F_def D_def)
  have X: "L x \<le> Q \<or> Q + 2 * D \<le> L x"
    using mono [of x "b + q"] mono [of "b + q + 1" x] Lq by linarith
  show "dist (L (b + rne m j)) (m * u) \<le> dist (L x) (m * u)"
    using X F r Lq unfolding mu dist_def by (auto simp: add.assoc)
  assume t: "dist (L x) (m * u) = dist (L (b + rne m j)) (m * u)" and ne: "x \<noteq> b + rne m j"
  have "L x \<noteq> L (b + rne m j)" using inj ne by blast
  then have "F = D" using t X F r Lq unfolding mu dist_def by (auto simp: add.assoc split: if_splits)
  then show "even (b + rne m j)" using r F b by auto
qed

subsection \<open>The bits of the result\<close>

lemma or_is_plus:
  assumes "b < 2 ^ k"
  shows "(of_nat (a * 2 ^ k) OR of_nat b :: 'a::len word) = of_nat (a * 2 ^ k + b)"
proof -
  have "push_bit k a AND take_bit k b = 0" by (auto simp: bit_eq_iff bit_simps)
  then have "a * 2 ^ k + b = a * 2 ^ k OR b"
    using assms disjunctive_add_eq_or [of "push_bit k a" "take_bit k b"]
    by (simp add: push_bit_eq_mult take_bit_nat_eq_self)
  then show ?thesis by (simp only: of_nat_or_eq)
qed

lemma or_is_plus': "b < 2 ^ k \<Longrightarrow> (of_nat b OR of_nat (a * 2 ^ k) :: 'a::len word) = of_nat (a * 2 ^ k + b)"
  using or_is_plus [of b k a] by (simp add: or.commute)

lemma round_half_nat:
  "round_half m st (of_nat u) = of_nat (if odd (m div 2 ^ 12) \<and> (st \<or> m mod 2 ^ 12 \<noteq> 0 \<or> odd u) then u + 1 else u)"
  by (auto simp: round_half_def Let_def)

text \<open>The pattern of a \<open>float\<close> without its sign, below \<open>65536\<close>, and the half pattern it is rounded to.\<close>

definition half_round :: "nat \<Rightarrow> nat" where
  "half_round p =
     (let e = p div 2 ^ 23; m = 2 ^ 23 + p mod 2 ^ 23
      in if 113 \<le> e then (e - 113) * 2 ^ 10 + rne m 12
         else if 82 \<le> e then rne m (125 - e) else 0)"

lemma rne_le: "m < 2 ^ (Suc j + k) \<Longrightarrow> rne m j \<le> 2 ^ k"
proof -
  assume "m < 2 ^ (Suc j + k)"
  then have "m < 2 ^ k * 2 ^ Suc j" by (simp add: power_add ac_simps)
  then have "m div 2 ^ Suc j < 2 ^ k" by (rule less_mult_imp_div_less)
  then show ?thesis by (auto simp: rne_def Let_def)
qed

lemma half_round_bound: "p div 2 ^ 23 \<le> 142 \<Longrightarrow> half_round p \<le> 31 * 2 ^ 10"
proof -
  assume e: "p div 2 ^ 23 \<le> 142"
  have m: "2 ^ 23 + p mod 2 ^ 23 < (2 :: nat) ^ 24" using mod_less_divisor [of "2 ^ 23" p] by simp
  have "rne (2 ^ 23 + p mod 2 ^ 23) 12 \<le> 2 ^ 11" by (rule rne_le) (use m in simp)
  moreover have "rne (2 ^ 23 + p mod 2 ^ 23) (125 - p div 2 ^ 23) \<le> 2 ^ 10" if "p div 2 ^ 23 < 113"
  proof (rule rne_le)
    have "(2 :: nat) ^ 24 \<le> 2 ^ (Suc (125 - p div 2 ^ 23) + 10)" using that by (intro power_increasing) simp_all
    then show "2 ^ 23 + p mod 2 ^ 23 < 2 ^ (Suc (125 - p div 2 ^ 23) + 10)" using m by linarith
  qed
  ultimately show ?thesis using e by (auto simp: half_round_def Let_def)
qed

lemma rne_normal:
  assumes "m < 2 ^ 23"
  shows "rne (2 ^ 23 + m) 12 = 2 ^ 10 + (if odd (m div 2 ^ 12) \<and> (m mod 2 ^ 12 \<noteq> 0 \<or> odd (m div 2 ^ 13)) then m div 2 ^ 13 + 1 else m div 2 ^ 13)"
proof -
  have "(2 ^ 23 + m) div 2 ^ 12 = 2 ^ 11 + m div 2 ^ 12" "(2 ^ 23 + m) mod 2 ^ 12 = m mod 2 ^ 12"
    "(2 ^ 23 + m) div 2 ^ 13 = 2 ^ 10 + m div 2 ^ 13"
    using div_mult_self3 [of "2 ^ 12" "2 ^ 11" m] div_mult_self3 [of "2 ^ 13" "2 ^ 10" m]
      mod_mult_self3 [of "2 ^ 11" "2 ^ 12" m] by simp_all
  then show ?thesis by (simp add: rne_def Let_def)
qed

lemma rne_shifted:
  "rne m (12 + r) = (let q = m div 2 ^ r div 2 ^ 13 in
     if odd (m div 2 ^ r div 2 ^ 12) \<and> (m mod 2 ^ r \<noteq> 0 \<or> m div 2 ^ r mod 2 ^ 12 \<noteq> 0 \<or> odd q) then q + 1 else q)"
proof -
  have "m mod 2 ^ (12 + r) = 2 ^ r * (m div 2 ^ r mod 2 ^ 12) + m mod 2 ^ r"
    by (simp add: mod_mult2_eq power_add mult.commute)
  then have "m mod 2 ^ (12 + r) \<noteq> 0 \<longleftrightarrow> m mod 2 ^ r \<noteq> 0 \<or> m div 2 ^ r mod 2 ^ 12 \<noteq> 0" by auto
  moreover have "m div 2 ^ (12 + r) = m div 2 ^ r div 2 ^ 12" "m div 2 ^ Suc (12 + r) = m div 2 ^ r div 2 ^ 13"
    by (simp_all add: div_mult2_eq [symmetric] power_add mult.commute)
  ultimately show ?thesis by (auto simp: rne_def Let_def)
qed

lemma unat_of_nat16: "n < 2 ^ 16 \<Longrightarrow> unat (of_nat n :: u16) = n"
  by (simp add: unat_of_nat take_bit_nat_eq_self)

lemma float_fields:
  fixes s :: u32
  shows "unat s mod 2 ^ 31 div 2 ^ 23 = unat s div 2 ^ 23 mod 256" "unat s mod 2 ^ 31 mod 2 ^ 23 = unat s mod 2 ^ 23"
proof -
  have "unat s mod (2 ^ 23 * 256) = 2 ^ 23 * (unat s div 2 ^ 23 mod 256) + unat s mod 2 ^ 23" by (rule mod_mult2_eq)
  then have e: "unat s mod 2 ^ 31 = 2 ^ 23 * (unat s div 2 ^ 23 mod 256) + unat s mod 2 ^ 23" by simp
  show "unat s mod 2 ^ 31 div 2 ^ 23 = unat s div 2 ^ 23 mod 256" "unat s mod 2 ^ 31 mod 2 ^ 23 = unat s mod 2 ^ 23"
    unfolding e by simp_all
qed

lemma Float2HalfBits_bits:
  assumes "unat s mod 2 ^ 31 div 2 ^ 23 \<le> 142"
  shows "unat (Float2HalfBits s) = unat s div 2 ^ 31 * 2 ^ 15 + half_round (unat s mod 2 ^ 31)"
proof -
  define p where "p = unat s mod 2 ^ 31"
  define e where "e = p div 2 ^ 23"
  define m where "m = p mod 2 ^ 23"
  have e: "e \<le> 142" using assms by (simp add: e_def p_def)
  have m: "m < 2 ^ 23" by (simp add: m_def)
  have f: "unat s div 2 ^ 23 mod 256 = e" "unat s mod 2 ^ 23 = m" unfolding e_def m_def p_def by (simp_all only: float_fields)
  have hr: "half_round p < 2 ^ 15" using half_round_bound [of p] e by (simp add: e_def)
  have sg: "(of_nat (unat s div 2 ^ 31) * 0x8000 :: u16) = of_nat (unat s div 2 ^ 31 * 2 ^ 15)" by simp
  have "Float2HalfBits s = of_nat (half_round p) OR of_nat (unat s div 2 ^ 31 * 2 ^ 15)"
  proof (cases "p = 0")
    case True
    then show ?thesis
      using sg by (simp add: Float2HalfBits_def Let_def p_def half_round_def)
  next
    case p0: False
    show ?thesis
    proof (cases "113 \<le> e")
      case True
      define u where "u = (e - 112) * 2 ^ 10 + m div 2 ^ 13"
      have "m div 2 ^ 13 < 2 ^ 10" using m by (intro less_mult_imp_div_less) simp
      then have "(of_nat ((e - 112) * 2 ^ 10) OR of_nat (m div 2 ^ 13) :: u16) = of_nat u"
        unfolding u_def by (rule or_is_plus)
      moreover have "((int e - 127 + 15) mod 32) * 2 ^ 10 = int ((e - 112) * 2 ^ 10)" using True e by simp
      ultimately have F: "Float2HalfBits s = round_half m False (of_nat u) OR of_nat (unat s div 2 ^ 31 * 2 ^ 15)"
        using True e p0 sg unfolding Float2HalfBits_def Let_def f by (simp add: p_def of_nat_mult)
      have "odd u \<longleftrightarrow> odd (m div 2 ^ 13)" by (simp add: u_def)
      moreover have "half_round p = (e - 113) * 2 ^ 10 + rne (2 ^ 23 + m) 12"
        using True by (simp add: half_round_def Let_def e_def m_def)
      moreover have "u = (e - 113) * 2 ^ 10 + (2 ^ 10 + m div 2 ^ 13)"
      proof -
        have "e - 112 = (e - 113) + 1" using True by simp
        then show ?thesis unfolding u_def by simp
      qed
      ultimately have "half_round p = (if odd (m div 2 ^ 12) \<and> (False \<or> m mod 2 ^ 12 \<noteq> 0 \<or> odd u) then u + 1 else u)"
        unfolding rne_normal [OF m] by simp
      then show ?thesis unfolding F round_half_nat by presburger
    next
      case False
      define r where "r = 113 - e"
      have x: "nat (- 14 - (int e - 127)) = r" "\<not> 15 < int e - 127" "\<not> - 14 \<le> int e - 127"
        using False by (simp_all add: r_def)
      have f2: "Float2HalfBits s = (if r < 32
          then round_half ((m + 2 ^ 23) div 2 ^ r) ((m + 2 ^ 23) mod 2 ^ r \<noteq> 0)
            (of_nat ((m + 2 ^ 23) div 2 ^ r div 2 ^ 13 mod 2 ^ 10))
          else round_half 0 False 0) OR of_nat (unat s div 2 ^ 31 * 2 ^ 15)"
        using x p0 sg unfolding Float2HalfBits_def Let_def f by (simp add: p_def)
      show ?thesis
      proof (cases "82 \<le> e")
        case True
        define u where "u = (m + 2 ^ 23) div 2 ^ r div 2 ^ 13"
        have "(2 :: nat) ^ 24 \<le> 2 ^ 10 * (2 ^ r * 2 ^ 13)"
          unfolding power_add [symmetric] using False by (intro power_increasing) (simp_all add: r_def)
        then have "m + 2 ^ 23 < 2 ^ 10 * (2 ^ r * 2 ^ 13)" using m by simp
        then have "u < 2 ^ 10" unfolding u_def div_mult2_eq [symmetric] by (rule less_mult_imp_div_less)
        moreover have "half_round p = rne (m + 2 ^ 23) (12 + r)"
          using True False by (simp add: half_round_def Let_def e_def m_def r_def add.commute)
        moreover have "r < 32" using True by (simp add: r_def)
        ultimately show ?thesis
          unfolding f2 round_half_nat rne_shifted Let_def u_def [symmetric] by simp
      next
        case e82: False
        then have "half_round p = 0" by (simp add: half_round_def Let_def e_def)
        moreover have "round_half 0 False 0 = 0" by (simp add: round_half_def)
        moreover have "\<not> r < 32" using e82 by (simp add: r_def)
        ultimately show ?thesis unfolding f2 by simp
      qed
    qed
  qed
  then have "Float2HalfBits s = of_nat (unat s div 2 ^ 31 * 2 ^ 15 + half_round p)"
    unfolding or_is_plus' [OF hr] .
  moreover have "unat s div 2 ^ 31 * 2 ^ 15 + half_round p < 2 ^ 16"
  proof -
    have "unat s < 2 * 2 ^ 31" using unsigned_less [of s] by simp
    then have "unat s div 2 ^ 31 < 2" by (rule less_mult_imp_div_less)
    then show ?thesis using hr by simp
  qed
  ultimately show ?thesis unfolding p_def [symmetric] using unat_of_nat16 by metis
qed

subsection \<open>The nearest half precision number\<close>

lemma float_ladder_split: "float_ladder p = (if p div 2 ^ 23 = 0 then p mod 2 ^ 23 else (2 ^ 23 + p mod 2 ^ 23) * 2 ^ (p div 2 ^ 23 - 1))"
  by (simp add: float_ladder_def Let_def)

lemma half_round_nearest:
  assumes "p div 2 ^ 23 \<le> 142"
  shows "dist (half_ladder (half_round p) * 2 ^ 125) (float_ladder p) \<le> dist (half_ladder x * 2 ^ 125) (float_ladder p)"
    and "dist (half_ladder x * 2 ^ 125) (float_ladder p) = dist (half_ladder (half_round p) * 2 ^ 125) (float_ladder p) \<Longrightarrow>
      x \<noteq> half_round p \<Longrightarrow> even (half_round p)"
proof -
  define e where "e = p div 2 ^ 23"
  define m where "m = 2 ^ 23 + p mod 2 ^ 23"
  have m: "2 ^ 23 \<le> m" "m < 2 ^ 24" using mod_less_divisor [of "2 ^ 23" p] by (simp_all add: m_def)
  let ?L = "\<lambda>x. half_ladder x * 2 ^ 125"
  have mono: "x \<le> y \<Longrightarrow> ?L x \<le> ?L y" and inj: "?L x = ?L y \<Longrightarrow> x = y" for x y
    using half_ladder_mono half_ladder_inj by (simp_all add: mult_le_mono1)
  have "dist (?L (half_round p)) (float_ladder p) \<le> dist (?L x) (float_ladder p) \<and>
    (dist (?L x) (float_ladder p) = dist (?L (half_round p)) (float_ladder p) \<longrightarrow> x \<noteq> half_round p \<longrightarrow> even (half_round p))"
  proof (cases "82 \<le> e")
    case False
    then have r: "half_round p = 0" by (simp add: half_round_def Let_def e_def)
    have "float_ladder p < 2 ^ 124"
    proof (cases "e = 0")
      case True
      have "p mod 2 ^ 23 < (2 :: nat) ^ 23" by simp
      also have "\<dots> < 2 ^ 124" by simp
      finally show ?thesis using True by (simp add: float_ladder_split e_def)
    next
      case e: False
      have "m * 2 ^ (e - 1) < 2 ^ 24 * 2 ^ (e - 1)" using m(2) by simp
      also have "\<dots> = 2 ^ (24 + (e - 1))" by (simp only: power_add)
      also have "\<dots> \<le> (2 :: nat) ^ 124" using False by (intro power_increasing) simp_all
      finally show ?thesis using e by (simp add: float_ladder_split e_def m_def)
    qed
    moreover have "?L x = 0 \<or> 2 ^ 125 \<le> ?L x" by (cases "half_ladder x") simp_all
    moreover have "half_ladder 0 = 0" by (simp add: half_ladder_def)
    ultimately show ?thesis unfolding r dist_def by auto
  next
    case True
    have f: "float_ladder p = m * 2 ^ (e - 1)" using True by (simp add: float_ladder_split e_def m_def)
    show ?thesis
    proof (cases "113 \<le> e")
      case n: True
      let ?b = "(e - 113) * 2 ^ 10"
      have r: "half_round p = ?b + rne m 12" using n by (simp add: half_round_def Let_def e_def m_def)
      have q: "2 ^ 10 \<le> m div 2 ^ Suc 12" "m div 2 ^ Suc 12 < 2 ^ 11"
        using m div_le_mono [OF m(1), of "2 ^ 13"] less_mult_imp_div_less [of m "2 ^ 11" "2 ^ 13"] by simp_all
      have pw: "(2 :: nat) ^ (e - 113) * 2 ^ 125 = 2 ^ Suc 12 * 2 ^ (e - 1)"
        unfolding power_add [symmetric] using n by (intro arg_cong [of _ _ "power 2"]) simp
      have L: "?L (?b + y) = y * 2 ^ Suc 12 * 2 ^ (e - 1)" if "2 ^ 10 \<le> y" "y \<le> 2 ^ 11" for y
        unfolding half_ladder_binade [OF that] using pw by (simp only: mult.assoc)
      note nr = rne_nearest [of ?L ?b m 12 "2 ^ (e - 1)", OF mono inj]
      have "?L (?b + m div 2 ^ Suc 12) = m div 2 ^ Suc 12 * 2 ^ Suc 12 * 2 ^ (e - 1)" by (rule L) (use q in simp_all)
      moreover have "?L (?b + m div 2 ^ Suc 12 + 1) = (m div 2 ^ Suc 12 + 1) * 2 ^ Suc 12 * 2 ^ (e - 1)"
        unfolding add.assoc by (rule L) (use q in simp_all)
      ultimately show ?thesis unfolding r f using nr by auto
    next
      case n: False
      define j where "j = 125 - e"
      have j: "Suc j = 126 - e" "13 \<le> j" using True n by (simp_all add: j_def)
      have r: "half_round p = 0 + rne m j" using n True by (simp add: half_round_def Let_def e_def m_def j_def)
      have "(2 :: nat) ^ 24 \<le> 2 ^ (10 + Suc j)" using j(2) by (intro power_increasing) simp_all
      then have "m < 2 ^ 10 * 2 ^ Suc j" using m(2) unfolding power_add by linarith
      then have q: "m div 2 ^ Suc j < 2 ^ 10" by (rule less_mult_imp_div_less)
      have pw: "(2 :: nat) ^ Suc j * 2 ^ (e - 1) = 2 ^ 125"
        unfolding power_add [symmetric] using True n by (intro arg_cong [of _ _ "power 2"]) (simp add: j_def)
      have L: "?L (0 + y) = y * 2 ^ Suc j * 2 ^ (e - 1)" if "y \<le> 2 ^ 10" for y
        using half_ladder_subnormal [OF that] pw by (simp only: mult.assoc add_0)
      note nr = rne_nearest [of ?L 0 m j "2 ^ (e - 1)", OF mono inj]
      have "?L (0 + m div 2 ^ Suc j) = m div 2 ^ Suc j * 2 ^ Suc j * 2 ^ (e - 1)" by (rule L) (use q in simp)
      moreover have "?L (0 + m div 2 ^ Suc j + 1) = (m div 2 ^ Suc j + 1) * 2 ^ Suc j * 2 ^ (e - 1)"
        unfolding add.assoc by (rule L) (use q in simp)
      ultimately show ?thesis unfolding r f using nr by auto
    qed
  qed
  then show "dist (?L (half_round p)) (float_ladder p) \<le> dist (?L x) (float_ladder p)"
    and "dist (?L x) (float_ladder p) = dist (?L (half_round p)) (float_ladder p) \<Longrightarrow> x \<noteq> half_round p \<Longrightarrow> even (half_round p)"
    by blast+
qed

subsection \<open>From half to single precision\<close>

lemma norm_loop_spec:
  assumes "0 < m" and "m < 2 ^ 11"
  shows "\<exists>k. norm_loop m e = (m * 2 ^ k, e - int k) \<and> 2 ^ 10 \<le> m * 2 ^ k \<and> m * 2 ^ k < 2 ^ 11"
  using assms
proof (induction m e rule: norm_loop.induct)
  case (1 m e)
  have b: "bit m 10 \<longleftrightarrow> 2 ^ 10 \<le> m"
  proof (cases "2 ^ 10 \<le> m")
    case True
    then have "m div 2 ^ 10 = 1" using 1(3) by (intro div_nat_eqI) simp_all
    then show ?thesis using True by (simp add: bit_iff_odd)
  next
    case False
    then show ?thesis by (simp add: bit_iff_odd)
  qed
  show ?case
  proof (cases "2 ^ 10 \<le> m")
    case True
    then show ?thesis using b 1(3) by (intro exI [of _ 0]) (simp add: norm_loop.simps)
  next
    case False
    then have c: "\<not> (bit m 10 \<or> m = 0 \<or> 2 ^ 31 \<le> m)" using b 1(2) by simp
    obtain k where k: "norm_loop (2 * m) (e - 1) = (2 * m * 2 ^ k, e - 1 - int k)" "2 ^ 10 \<le> 2 * m * 2 ^ k" "2 * m * 2 ^ k < 2 ^ 11"
      using 1(1) [OF c] 1(2) False by auto
    have "norm_loop m e = norm_loop (2 * m) (e - 1)" using c by (subst norm_loop.simps) simp
    then show ?thesis using k by (intro exI [of _ "Suc k"]) simp
  qed
qed

lemma three_fields:
  assumes "s < 2" and "e < 2 ^ 8" and "m < 2 ^ 23"
  shows "unat (of_nat (s * 2 ^ 31) OR of_nat (e * 2 ^ 23) OR of_nat m :: u32) = s * 2 ^ 31 + (e * 2 ^ 23 + m)"
proof -
  have em: "e * 2 ^ 23 + m < 2 ^ 31" using assms by simp
  have "(of_nat (s * 2 ^ 31) OR of_nat (e * 2 ^ 23) OR of_nat m :: u32) = of_nat (s * 2 ^ 31) OR of_nat (e * 2 ^ 23 + m)"
    unfolding or.assoc or_is_plus [OF assms(3)] ..
  also have "\<dots> = of_nat (s * 2 ^ 31 + (e * 2 ^ 23 + m))" by (rule or_is_plus [OF em])
  finally have E: "(of_nat (s * 2 ^ 31) OR of_nat (e * 2 ^ 23) OR of_nat m :: u32) = of_nat (s * 2 ^ 31 + (e * 2 ^ 23 + m))" .
  have "s * 2 ^ 31 + (e * 2 ^ 23 + m) < 2 ^ LENGTH(32)" using em assms(1) by simp
  then show ?thesis unfolding E by (simp add: unat_of_nat take_bit_nat_eq_self del: of_nat_add of_nat_mult)
qed

lemma HalfBits2Float_bits:
  assumes "unat h div 2 ^ 10 mod 32 \<noteq> 31"
  shows "\<exists>e m. unat (HalfBits2Float h) = unat h div 2 ^ 15 * 2 ^ 31 + (e * 2 ^ 23 + m) \<and> e \<le> 142 \<and> m < 2 ^ 23 \<and>
    float_ladder (e * 2 ^ 23 + m) = half_mag h * 2 ^ 125"
proof -
  define s where "s = unat h div 2 ^ 15"
  define e where "e = unat h div 2 ^ 10 mod 32"
  define m where "m = unat h mod 2 ^ 10"
  have "unat h < 2 * 2 ^ 15" using unsigned_less [of h] by simp
  then have s: "s < 2" unfolding s_def by (rule less_mult_imp_div_less)
  have m: "m < 2 ^ 10" by (simp add: m_def)
  have e: "e < 31" using assms mod_less_divisor [of 32 "unat h div 2 ^ 10"] unfolding e_def by linarith
  have "unat h mod (2 ^ 10 * 32) = 2 ^ 10 * e + m" unfolding e_def m_def by (rule mod_mult2_eq)
  then have "unat h mod 2 ^ 15 = e * 2 ^ 10 + m" by (simp add: mult.commute)
  moreover have "(e * 2 ^ 10 + m) div 2 ^ 10 = e" "(e * 2 ^ 10 + m) mod 2 ^ 10 = m" using m by simp_all
  ultimately have hm: "half_mag h = (if e = 0 then m else (2 ^ 10 + m) * 2 ^ (e - 1))"
    by (simp add: half_mag_def half_ladder_def Let_def)
  have fl: "float_ladder (x * 2 ^ 23 + y) = (2 ^ 23 + y) * 2 ^ (x - 1)" if "0 < x" "y < 2 ^ 23" for x y
    using that by (simp add: float_ladder_def Let_def)
  have H: "HalfBits2Float h = (if 0 < e then of_nat (s * 2 ^ 31) OR of_nat ((e + 112) * 2 ^ 23) OR of_nat (m * 2 ^ 13)
      else if m \<noteq> 0 then (case norm_loop m 113 of (m, e) \<Rightarrow>
             of_nat (s * 2 ^ 31) OR of_int (e * 2 ^ 23) OR of_nat ((m mod 2 ^ 10) * 2 ^ 13))
      else of_nat (s * 2 ^ 31))"
    using e unfolding HalfBits2Float_def Let_def s_def [symmetric] e_def [symmetric] m_def [symmetric] by simp
  show ?thesis unfolding s_def [symmetric]
  proof (cases "0 < e")
    case True
    have l: "e + 112 < 2 ^ 8" "m * 2 ^ 13 < 2 ^ 23" using e m by simp_all
    have "(2 ^ 23 + m * 2 ^ 13) * 2 ^ (e + 112 - 1) = (2 ^ 10 + m) * 2 ^ 13 * 2 ^ (e + 111)" by simp
    also have "\<dots> = (2 ^ 10 + m) * (2 ^ (e - 1) * 2 ^ 125)"
      unfolding power_add [symmetric] mult.assoc using True by (intro arg_cong [of _ _ "\<lambda>x. (2 ^ 10 + m) * 2 ^ x"]) simp
    finally have "float_ladder ((e + 112) * 2 ^ 23 + m * 2 ^ 13) = half_mag h * 2 ^ 125"
      using fl [of "e + 112" "m * 2 ^ 13"] l(2) hm True by (simp only: mult.assoc) simp
    then show "\<exists>e m. unat (HalfBits2Float h) = s * 2 ^ 31 + (e * 2 ^ 23 + m) \<and> e \<le> 142 \<and> m < 2 ^ 23 \<and>
        float_ladder (e * 2 ^ 23 + m) = half_mag h * 2 ^ 125"
      using three_fields [OF s l] H True l e by (intro exI [of _ "e + 112"] exI [of _ "m * 2 ^ 13"]) simp
  next
    case e0: False
    show "\<exists>e m. unat (HalfBits2Float h) = s * 2 ^ 31 + (e * 2 ^ 23 + m) \<and> e \<le> 142 \<and> m < 2 ^ 23 \<and>
        float_ladder (e * 2 ^ 23 + m) = half_mag h * 2 ^ 125"
    proof (cases "m = 0")
      case True
      have "unat (of_nat (s * 2 ^ 31) :: u32) = s * 2 ^ 31" using three_fields [OF s, of 0 0] by simp
      then show ?thesis using H e0 True hm by (intro exI [of _ 0] exI [of _ 0]) (simp add: float_ladder_def Let_def)
    next
      case False
      obtain k where k: "norm_loop m 113 = (m * 2 ^ k, 113 - int k)" "2 ^ 10 \<le> m * 2 ^ k" "m * 2 ^ k < 2 ^ 11"
        using norm_loop_spec [of m 113] False m by auto
      define y where "y = (m * 2 ^ k) mod 2 ^ 10"
      have y: "m * 2 ^ k = 2 ^ 10 + y" using k(2,3) by (simp add: y_def le_mod_geq)
      have yl: "y * 2 ^ 13 < 2 ^ 23" by (simp add: y_def)
      have "(2 :: nat) ^ k \<le> m * 2 ^ k" using False by simp
      then have "(2 :: nat) ^ k < 2 ^ 11" using k(3) by linarith
      then have kb: "k < 11" by (intro power_less_imp_less_exp [of 2 k 11]) simp_all
      have x: "113 - k < 2 ^ 8" by simp
      have oi: "(of_int ((113 - int k) * 2 ^ 23) :: u32) = of_nat ((113 - k) * 2 ^ 23)"
      proof -
        have "(113 - int k) * 2 ^ 23 = int ((113 - k) * 2 ^ 23)" using kb by simp
        then show ?thesis by (simp only: of_int_of_nat_eq)
      qed
      have "(2 ^ 23 + y * 2 ^ 13) * 2 ^ (113 - k - 1) = m * 2 ^ k * 2 ^ 13 * 2 ^ (112 - k)" using y by simp
      also have "\<dots> = m * 2 ^ 125"
        unfolding mult.assoc power_add [symmetric] using kb by (intro arg_cong [of _ _ "\<lambda>x. m * 2 ^ x"]) simp
      finally have "float_ladder ((113 - k) * 2 ^ 23 + y * 2 ^ 13) = half_mag h * 2 ^ 125"
        using fl [of "113 - k" "y * 2 ^ 13"] yl hm e0 kb by simp
      moreover have "HalfBits2Float h = of_nat (s * 2 ^ 31) OR of_nat ((113 - k) * 2 ^ 23) OR of_nat (y * 2 ^ 13)"
        using H e0 False k(1) oi by (simp add: y_def)
      ultimately show ?thesis
        using three_fields [OF s x yl] yl by (intro exI [of _ "113 - k"] exI [of _ "y * 2 ^ 13"]) simp
    qed
  qed
qed

lemma half_fields_eq:
  fixes a b :: u16
  shows "unat a div 2 ^ 15 = unat b div 2 ^ 15 \<Longrightarrow> unat a mod 2 ^ 15 = unat b mod 2 ^ 15 \<Longrightarrow> a = b"
  by (metis div_mult_mod_eq word_unat_eq_iff)

lemma half_pattern: "half_round p \<le> 31 * 2 ^ 10 \<Longrightarrow> unat r = s * 2 ^ 15 + half_round p \<Longrightarrow>
    unat r div 2 ^ 15 = s \<and> unat r mod 2 ^ 15 = half_round p"
  by simp

lemma infinities:
  "Float2HalfBits (HalfBits2Float 0x7C00) = 0x7C00" "Float2HalfBits (HalfBits2Float 0xFC00) = 0xFC00"
proof -
  have "HalfBits2Float 0x7C00 = 0x7F800000" "HalfBits2Float 0xFC00 = 0xFF800000" by (simp_all add: HalfBits2Float_def Let_def)
  moreover have "Float2HalfBits 0x7F800000 = 0x7C00" "Float2HalfBits 0xFF800000 = 0xFC00"
    by (simp_all add: Float2HalfBits_def Let_def)
  ultimately show "Float2HalfBits (HalfBits2Float 0x7C00) = 0x7C00" "Float2HalfBits (HalfBits2Float 0xFC00) = 0xFC00"
    by simp_all
qed

subsection \<open>Properties\<close>

text \<open>
  C22. A \<open>float\<close> below \<open>65536\<close> is converted to the nearest half
  precision number: the sign is kept, no half precision magnitude is nearer, and of two that are
  equally near the one with the even pattern is taken. (The pattern above the largest finite one,
  infinity, stands for \<open>65536\<close>, as the rule of IEEE 754 has it.)
\<close>

theorem float_to_half_nearest:
  assumes "unat s mod 2 ^ 31 < 143 * 2 ^ 23"
  shows "unat (Float2HalfBits s) div 2 ^ 15 = unat s div 2 ^ 31 \<and> unat (Float2HalfBits s) mod 2 ^ 15 \<le> 31 * 2 ^ 10 \<and>
    (\<forall>x. dist (half_mag (Float2HalfBits s) * 2 ^ 125) (float_mag s) \<le> dist (half_mag x * 2 ^ 125) (float_mag s)) \<and>
    (\<forall>x. dist (half_mag x * 2 ^ 125) (float_mag s) = dist (half_mag (Float2HalfBits s) * 2 ^ 125) (float_mag s) \<longrightarrow>
       half_mag x \<noteq> half_mag (Float2HalfBits s) \<longrightarrow> even (unat (Float2HalfBits s) mod 2 ^ 15))"
proof -
  let ?p = "unat s mod 2 ^ 31"
  have "?p div 2 ^ 23 < 143" by (rule less_mult_imp_div_less [OF assms])
  then have p: "?p div 2 ^ 23 \<le> 142" by simp
  note b = half_pattern [OF half_round_bound [OF p] Float2HalfBits_bits [OF p]]
  have r: "half_mag (Float2HalfBits s) = half_ladder (half_round ?p)" unfolding half_mag_def b [THEN conjunct2] ..
  note n = half_round_nearest [OF p]
  have "even (half_round ?p)"
    if "dist (half_mag x * 2 ^ 125) (float_mag s) = dist (half_mag (Float2HalfBits s) * 2 ^ 125) (float_mag s)"
      "half_mag x \<noteq> half_mag (Float2HalfBits s)" for x
    using n(2) [of "unat x mod 2 ^ 15"] that unfolding r float_mag_def half_mag_def [of x] by metis
  moreover have "dist (half_mag (Float2HalfBits s) * 2 ^ 125) (float_mag s) \<le> dist (half_mag x * 2 ^ 125) (float_mag s)" for x
    unfolding r float_mag_def half_mag_def [of x] by (rule n(1))
  ultimately show ?thesis using b half_round_bound [OF p] by metis
qed

theorem float_to_half_nearest_witness:
  "unat (Float2HalfBits 0x3F801000) mod 2 ^ 15 \<le> 31 * 2 ^ 10 \<and>
   dist (half_mag (Float2HalfBits 0x3F801000) * 2 ^ 125) (float_mag 0x3F801000) \<le>
     dist (half_mag 0x3C01 * 2 ^ 125) (float_mag 0x3F801000)"
  using float_to_half_nearest [of "0x3F801000"] by simp

text \<open>
  C23. A finite half precision number becomes the \<open>float\<close> of the same sign and value,
  and comes back as it was; so does an infinity.
\<close>

theorem half_to_float_exact:
  assumes "unat h div 2 ^ 10 mod 32 \<noteq> 31 \<or> unat h mod 2 ^ 10 = 0"
  shows "Float2HalfBits (HalfBits2Float h) = h \<and>
    (unat h div 2 ^ 10 mod 32 \<noteq> 31 \<longrightarrow> unat (HalfBits2Float h) div 2 ^ 31 = unat h div 2 ^ 15 \<and>
       float_mag (HalfBits2Float h) = half_mag h * 2 ^ 125)"
proof (cases "unat h div 2 ^ 10 mod 32 = 31")
  case False
  obtain e m where u: "unat (HalfBits2Float h) = unat h div 2 ^ 15 * 2 ^ 31 + (e * 2 ^ 23 + m)" and e: "e \<le> 142" "m < 2 ^ 23"
    and f: "float_ladder (e * 2 ^ 23 + m) = half_mag h * 2 ^ 125"
    using HalfBits2Float_bits [OF False] by blast
  have em: "e * 2 ^ 23 + m < 2 ^ 31" using e by simp
  have d: "unat (HalfBits2Float h) div 2 ^ 31 = unat h div 2 ^ 15" "unat (HalfBits2Float h) mod 2 ^ 31 = e * 2 ^ 23 + m"
    using em unfolding u by simp_all
  have "(e * 2 ^ 23 + m) div 2 ^ 23 = e" using e(2) by simp
  then have p: "unat (HalfBits2Float h) mod 2 ^ 31 div 2 ^ 23 \<le> 142" using e(1) d(2) by simp
  let ?r = "half_round (unat (HalfBits2Float h) mod 2 ^ 31)"
  have "dist (half_ladder ?r * 2 ^ 125) (half_mag h * 2 ^ 125) \<le> dist (half_mag h * 2 ^ 125) (half_mag h * 2 ^ 125)"
    using half_round_nearest(1) [OF p, of "unat h mod 2 ^ 15"] unfolding d(2) f half_mag_def by simp
  then have "half_ladder ?r = half_ladder (unat h mod 2 ^ 15)" by (simp add: dist_def half_mag_def)
  then have "?r = unat h mod 2 ^ 15" by (rule half_ladder_inj)
  moreover note half_pattern [OF half_round_bound [OF p] Float2HalfBits_bits [OF p]]
  ultimately have "Float2HalfBits (HalfBits2Float h) = h" using d(1) by (intro half_fields_eq) simp_all
  then show ?thesis using d f by (simp add: float_mag_def)
next
  case True
  then have m: "unat h mod 2 ^ 10 = 0" using assms by simp
  have "unat h < 2 * 2 ^ 15" using unsigned_less [of h] by simp
  then have s: "unat h div 2 ^ 15 < 2" by (rule less_mult_imp_div_less)
  have "unat h mod (2 ^ 10 * 32) = 2 ^ 10 * (unat h div 2 ^ 10 mod 32) + unat h mod 2 ^ 10" by (rule mod_mult2_eq)
  then have "unat h mod 2 ^ 15 = 31 * 2 ^ 10" using True m by simp
  then have "unat h = unat h div 2 ^ 15 * 2 ^ 15 + 31 * 2 ^ 10" by (metis div_mult_mod_eq)
  then have "unat h = 0x7C00 \<or> unat h = 0xFC00" using s by (cases "unat h div 2 ^ 15 = 0") simp_all
  then have "h = 0x7C00 \<or> h = 0xFC00" by (simp add: word_unat_eq_iff)
  then have "Float2HalfBits (HalfBits2Float h) = h" using infinities by blast
  then show ?thesis using True by simp
qed

theorem half_to_float_exact_witness:
  "Float2HalfBits (HalfBits2Float 0x83FF) = 0x83FF \<and> float_mag (HalfBits2Float 0x83FF) = half_mag 0x83FF * 2 ^ 125"
  using half_to_float_exact [of "0x83FF"] by simp

end
