(* ===== verification/Half_Agree.thy ===== *)
theory Half_Agree
  imports Half_Rounding Compressor_Base
begin

section \<open>The two conversions to half precision\<close>

text \<open>
  The reducer converts with \<open>Float2HalfBits\<close> of \<open>cpu_reducer.h\<close>, the compressors with
  \<open>half_t::float2half\<close> of \<open>half.h\<close>, which rounds by adding half a unit before it shifts. Outside
  the NaNs both are the same function.
\<close>

unbundle bit_operations_syntax

subsection \<open>Rounding by adding half a unit\<close>

lemma add_half_rounds:
  "(u + (if u mod 2 ^ 14 \<noteq> 2 ^ 12 \<or> st then 2 ^ 12 else 0)) div 2 ^ 13 =
     (let q = u div 2 ^ 13 in if odd (u div 2 ^ 12) \<and> (st \<or> u mod 2 ^ 12 \<noteq> 0 \<or> odd q) then q + 1 else q)"
  for u :: nat
proof -
  define q where "q = u div 2 ^ 13"
  define f where "f = u mod 2 ^ 13"
  have u: "u = q * 2 ^ 13 + f" "f < 2 ^ 13" unfolding q_def f_def by (simp_all only: div_mult_mod_eq) simp
  have u2: "u = 2 * q * 2 ^ 12 + f" using u(1) by simp
  have "u div 2 ^ 12 = 2 * q + f div 2 ^ 12" unfolding u2 by (rule div_mult_self3) simp
  moreover have "u mod 2 ^ 12 = f mod 2 ^ 12" unfolding u2 by (rule mod_mult_self3)
  moreover have "f div 2 ^ 12 = (if 2 ^ 12 \<le> f then 1 else 0)" using u(2) by (auto intro: div_nat_eqI)
  moreover have "f mod 2 ^ 12 = (if 2 ^ 12 \<le> f then f - 2 ^ 12 else f)" using u(2) by (auto simp: le_mod_geq)
  ultimately have o: "odd (u div 2 ^ 12) \<longleftrightarrow> 2 ^ 12 \<le> f" "2 ^ 12 \<le> f \<Longrightarrow> u mod 2 ^ 12 \<noteq> 0 \<longleftrightarrow> f \<noteq> 2 ^ 12" by auto
  have "u mod (2 ^ 13 * 2) = 2 ^ 13 * (u div 2 ^ 13 mod 2) + u mod 2 ^ 13" by (rule mod_mult2_eq)
  then have "u mod 2 ^ 14 = 2 ^ 13 * (q mod 2) + f" by (simp add: q_def f_def)
  then have t: "u mod 2 ^ 14 = 2 ^ 12 \<longleftrightarrow> even q \<and> f = 2 ^ 12"
    using u(2) by (cases "even q") (auto simp: odd_iff_mod_2_eq_one)
  have a: "(u + c) div 2 ^ 13 = q + (f + c) div 2 ^ 13" for c unfolding u(1) by (simp add: add.assoc)
  have "(f + 2 ^ 12) div 2 ^ 13 = (if 2 ^ 12 \<le> f then 1 else 0)" using u(2) by (auto intro: div_nat_eqI)
  moreover have "f div 2 ^ 13 = 0" using u(2) by simp
  ultimately show ?thesis
    unfolding Let_def q_def [symmetric] using o t a [of 0] a [of "2 ^ 12"] by auto
qed

lemma sticky_bits:
  assumes "m div 2 ^ r mod 2 ^ 14 = 2 ^ 12" and "r \<le> 11"
  shows "m mod 2 ^ 11 \<noteq> 0 \<longleftrightarrow> m mod 2 ^ r \<noteq> (0 :: nat)"
proof -
  define u where "u = m div 2 ^ r"
  have "u = u div 2 ^ 14 * 2 ^ 14 + 2 ^ 12" using assms(1) unfolding u_def [symmetric] by (metis div_mult_mod_eq)
  then obtain y where y: "u = 2 ^ 11 * y" using that [of "u div 2 ^ 14 * 2 ^ 3 + 2"] by simp
  have "m = 2 ^ 11 * (y * 2 ^ r) + m mod 2 ^ r"
    using div_mult_mod_eq [of m "2 ^ r"] y unfolding u_def by (metis mult.assoc)
  moreover have "m mod 2 ^ r < 2 ^ 11"
  proof -
    have "m mod 2 ^ r < 2 ^ r" by simp
    also have "(2 :: nat) ^ r \<le> 2 ^ 11" using assms(2) by (intro power_increasing) simp_all
    finally show ?thesis .
  qed
  ultimately have "m mod 2 ^ 11 = m mod 2 ^ r" by (metis mod_less mod_mult_self4)
  then show ?thesis by simp
qed

subsection \<open>The bits\<close>

lemma unat_drop: "unat (drop_bit k v) = unat v div 2 ^ k" for v :: "'a::len word"
  unfolding unat_drop_bit_eq by (rule drop_bit_eq_div)

lemma unat_take: "k \<le> LENGTH('a) \<Longrightarrow> unat (take_bit k v) = unat v mod 2 ^ k" for v :: "'a::len word"
  unfolding unsigned_take_bit_eq by (rule take_bit_eq_mod)

lemma top_bit: "(\<And>n. bit s n \<Longrightarrow> n \<le> k) \<Longrightarrow> s AND push_bit k 1 = push_bit k (drop_bit k s)"
  for s :: "'a::len word"
  by (rule bit_word_eqI) (auto simp: bit_simps intro: antisym)

lemma top_bit_out: "(\<And>n. bit s n \<Longrightarrow> n \<le> k) \<Longrightarrow> s XOR (s AND push_bit k 1) = take_bit k s"
  for s :: "'a::len word"
  by (rule bit_word_eqI) (auto simp: bit_simps less_le)

lemma no_bit_above: "bit s n \<Longrightarrow> n \<le> 31" for s :: u32
  using bit_imp_le_length [of s n] by simp

lemma sign_mask: "(0x80000000 :: u32) = push_bit 31 1"
  by simp

lemma sign_small: "unat s div 2 ^ 31 < 2" for s :: u32
proof -
  have "unat s < 2 * 2 ^ 31" using unsigned_less [of s] by simp
  then show ?thesis by (rule less_mult_imp_div_less)
qed

lemma sign_of: "unat (drop_bit 16 (s AND 0x80000000)) = unat s div 2 ^ 31 * 2 ^ 15" for s :: u32
proof -
  have "s AND 0x80000000 = push_bit 31 (drop_bit 31 s)" unfolding sign_mask by (rule top_bit) (rule no_bit_above)
  moreover have "unat (push_bit 31 (drop_bit 31 s)) = unat s div 2 ^ 31 * 2 ^ 31"
  proof -
    have "unat (push_bit 31 (drop_bit 31 s)) = take_bit 32 (push_bit 31 (unat s div 2 ^ 31))"
      unfolding unsigned_push_bit_eq unat_drop by (rule arg_cong2 [of _ _ _ _ take_bit]) simp_all
    moreover have "unat s div 2 ^ 31 * 2 ^ 31 < 2 ^ 32" using sign_small [of s] by simp
    ultimately show ?thesis unfolding push_bit_eq_mult by (simp only: take_bit_nat_eq_self)
  qed
  moreover have "x * 2 ^ 31 div 2 ^ 16 = x * (2 :: nat) ^ 15" for x by simp
  ultimately show ?thesis by (simp only: unat_drop)
qed

lemma rest_of: "unat (s XOR (s AND 0x80000000)) = unat s mod 2 ^ 31" for s :: u32
proof -
  have "s XOR (s AND 0x80000000) = take_bit 31 s" unfolding sign_mask by (rule top_bit_out) (rule no_bit_above)
  then show ?thesis by (simp only: unat_take) (rule unat_take, simp)
qed

lemma half_of_parts:
  fixes s v :: u32
  shows "unat (ucast (drop_bit 16 (s AND 0x80000000)) OR ucast (drop_bit 13 v AND 0x7FFF) :: u16) =
    unat s div 2 ^ 31 * 2 ^ 15 + unat v div 2 ^ 13 mod 2 ^ 15"
proof -
  let ?r = "unat v div 2 ^ 13 mod 2 ^ 15"
  have r: "?r < 2 ^ 15" by simp
  have "(0x7FFF :: u32) = mask 15" by (simp add: mask_eq_exp_minus_1)
  then have "unat (drop_bit 13 v AND 0x7FFF) = take_bit 15 (unat v div 2 ^ 13)"
    by (simp only: take_bit_eq_mask [symmetric] unsigned_take_bit_eq unat_drop)
  then have a: "(ucast (drop_bit 13 v AND 0x7FFF) :: u16) = of_nat ?r"
    by (metis of_nat_unat take_bit_eq_mod)
  have b: "(ucast (drop_bit 16 (s AND 0x80000000)) :: u16) = of_nat (unat s div 2 ^ 31 * 2 ^ 15)"
    using sign_of [of s] by (metis of_nat_unat)
  have "unat s div 2 ^ 31 * 2 ^ 15 + ?r < 2 ^ 16" using r sign_small [of s] by simp
  then show ?thesis unfolding a b or_is_plus [OF r] by (rule unat_of_nat16)
qed

subsection \<open>The two roundings\<close>

text \<open>Half of the last unit is added unless the rest is exactly half and the pattern is even.\<close>

definition bump :: "nat \<Rightarrow> bool \<Rightarrow> nat" where
  "bump u st = u + (if u mod 2 ^ 14 \<noteq> 2 ^ 12 \<or> st then 2 ^ 12 else 0)"

lemma minus_mult_div:
  assumes "b * k \<le> (a :: nat)" and "0 < b"
  shows "(a - b * k) div b = a div b - k"
proof -
  obtain c where "a = b * k + c" using le_Suc_ex [OF assms(1)] by blast
  then show ?thesis using assms(2) by simp
qed

lemma bump_normal:
  assumes "113 \<le> p div 2 ^ 23"
  shows "(bump p False - 112 * 2 ^ 23) div 2 ^ 13 = half_round p"
proof -
  define m where "m = p mod 2 ^ 23"
  define e where "e = p div 2 ^ 23"
  have e: "113 \<le> e" using assms by (simp add: e_def)
  have p: "p = (e * 2 ^ 10) * 2 ^ 13 + m" unfolding e_def m_def using div_mult_mod_eq [of p "2 ^ 23"] by simp
  have "p div 2 ^ 13 = e * 2 ^ 10 + m div 2 ^ 13" unfolding p by (rule div_mult_self3) simp
  moreover have p2: "p = (e * 2 ^ 11) * 2 ^ 12 + m" using p by simp
  moreover have "p div 2 ^ 12 = e * 2 ^ 11 + m div 2 ^ 12" unfolding p2 by (rule div_mult_self3) simp
  moreover have "p mod 2 ^ 12 = m mod 2 ^ 12" unfolding p2 by (rule mod_mult_self3)
  ultimately have b: "bump p False div 2 ^ 13 = e * 2 ^ 10 +
      (if odd (m div 2 ^ 12) \<and> (m mod 2 ^ 12 \<noteq> 0 \<or> odd (m div 2 ^ 13)) then m div 2 ^ 13 + 1 else m div 2 ^ 13)"
    unfolding bump_def add_half_rounds Let_def by simp
  have "(bump p False - 112 * 2 ^ 23) div 2 ^ 13 = (bump p False - 2 ^ 13 * (112 * 2 ^ 10)) div 2 ^ 13" by simp
  also have "\<dots> = bump p False div 2 ^ 13 - 112 * 2 ^ 10" by (rule minus_mult_div) (use p e in \<open>simp_all add: bump_def\<close>)
  also have "\<dots> = half_round p"
  proof -
    obtain d where d: "e = 113 + d" using le_Suc_ex [OF e] by blast
    have "half_round p = d * 2 ^ 10 + rne (2 ^ 23 + m) 12" using d by (simp add: half_round_def Let_def e_def m_def)
    moreover have "m < 2 ^ 23" by (simp add: m_def)
    ultimately show ?thesis unfolding b d using rne_normal [of m] by simp
  qed
  finally show ?thesis .
qed

lemma bump_shifted:
  assumes "102 \<le> p div 2 ^ 23" and "p div 2 ^ 23 < 113"
  shows "bump ((2 ^ 23 + p mod 2 ^ 23) div 2 ^ (113 - p div 2 ^ 23)) (p mod 2 ^ 11 \<noteq> 0) div 2 ^ 13 = half_round p"
proof -
  define r where "r = 113 - p div 2 ^ 23"
  define m where "m = 2 ^ 23 + p mod 2 ^ 23"
  have r: "r \<le> 11" "125 - p div 2 ^ 23 = 12 + r" using assms by (simp_all add: r_def)
  have "(2 ^ 23 + p mod 2 ^ 23) mod 2 ^ 11 = p mod 2 ^ 23 mod 2 ^ 11"
    using mod_mult_self3 [of "2 ^ 12" "2 ^ 11" "p mod 2 ^ 23"] by simp
  then have "m mod 2 ^ 11 = p mod 2 ^ 11"
    unfolding m_def by (simp only: mod_mod_cancel le_imp_power_dvd)
  then have "bump (m div 2 ^ r) (p mod 2 ^ 11 \<noteq> 0) = bump (m div 2 ^ r) (m mod 2 ^ r \<noteq> 0)"
    using sticky_bits [of m r] r(1) by (simp add: bump_def)
  also have "\<dots> div 2 ^ 13 = rne m (12 + r)" unfolding bump_def add_half_rounds rne_shifted ..
  also have "\<dots> = half_round p" using assms r(2) by (simp add: half_round_def Let_def m_def)
  finally show ?thesis unfolding r_def m_def by simp
qed

lemma half_round_tiny:
  assumes "p \<le> 102 * 2 ^ 23"
  shows "half_round p = 0"
proof (cases "p = 102 * 2 ^ 23")
  case True
  then have "p div 2 ^ 23 = 102" "p mod 2 ^ 23 = 0" by simp_all
  then show ?thesis by (simp add: half_round_def rne_def Let_def)
next
  case False
  then have e: "p div 2 ^ 23 < 102" using assms by (intro less_mult_imp_div_less) simp
  define j where "j = 125 - p div 2 ^ 23"
  have "(2 :: nat) ^ 24 \<le> 2 ^ j" using e by (intro power_increasing) (simp_all add: j_def)
  moreover have "2 ^ 23 + p mod 2 ^ 23 < (2 :: nat) ^ 24" using mod_less_divisor [of "2 ^ 23" p] by simp
  ultimately have "2 ^ 23 + p mod 2 ^ 23 < 2 ^ j" by linarith
  then have "rne (2 ^ 23 + p mod 2 ^ 23) j = 0" by (simp add: rne_def Let_def)
  then show ?thesis using e by (simp add: half_round_def Let_def j_def)
qed

subsection \<open>The compressors convert like the reducer\<close>

lemma bump_word:
  fixes u :: u32
  assumes "unat u < 2 ^ 31"
  shows "unat (u + (if u AND 0x3FFF \<noteq> 0x1000 \<or> w then 0x1000 else 0)) = bump (unat u) w"
proof -
  have "(0x3FFF :: u32) = mask 14" by (simp add: mask_eq_exp_minus_1)
  then have "u AND 0x3FFF = take_bit 14 u" by (simp only: take_bit_eq_mask)
  moreover have "unat (take_bit 14 u) = unat u mod 2 ^ 14" by (rule unat_take) simp
  moreover have "take_bit 14 u = 0x1000 \<longleftrightarrow> unat (take_bit 14 u) = 2 ^ 12" by (simp add: word_unat_eq_iff)
  ultimately have "u AND 0x3FFF \<noteq> 0x1000 \<longleftrightarrow> unat u mod 2 ^ 14 \<noteq> 2 ^ 12" by simp
  moreover have "unat (u + 0x1000) = unat u + 2 ^ 12" using assms by (subst unat_plus_if') simp
  ultimately show ?thesis by (simp add: bump_def)
qed

lemma of_unat: "unat w = n \<Longrightarrow> w = of_nat n"
  by auto

lemma shifted_word:
  fixes v :: u32
  assumes "unat v = p" and "p div 2 ^ 23 < 113"
  shows "unat (drop_bit (unat (1 - (drop_bit 23 v - 112))) (0x800000 OR (v AND 0x7FFFFF))) =
    (2 ^ 23 + p mod 2 ^ 23) div 2 ^ (113 - p div 2 ^ 23)"
    and "0x800000 OR (v AND 0x7FFFFF) = of_nat (2 ^ 23 + p mod 2 ^ 23)"
proof -
  have x: "drop_bit 23 v = of_nat (p div 2 ^ 23)" by (rule of_unat) (simp only: unat_drop assms)
  have "1 - (drop_bit 23 v - 112) = of_nat (113 - p div 2 ^ 23)" unfolding x using assms(2) by (simp add: of_nat_diff)
  then have r: "unat (1 - (drop_bit 23 v - 112)) = 113 - p div 2 ^ 23"
    by (simp add: unat_of_nat take_bit_nat_eq_self)
  have "(0x7FFFFF :: u32) = mask 23" by (simp add: mask_eq_exp_minus_1)
  then have "v AND 0x7FFFFF = take_bit 23 v" by (simp only: take_bit_eq_mask)
  then have "v AND 0x7FFFFF = of_nat (p mod 2 ^ 23)" 
    using unat_take [of 23 v] assms(1) by (intro of_unat) simp
  moreover have "(0x800000 :: u32) OR of_nat (p mod 2 ^ 23) = of_nat (1 * 2 ^ 23 + p mod 2 ^ 23)"
    using or_is_plus [of "p mod 2 ^ 23" 23 1] by simp
  ultimately show s: "0x800000 OR (v AND 0x7FFFFF) = of_nat (2 ^ 23 + p mod 2 ^ 23)" by simp
  have "2 ^ 23 + p mod 2 ^ 23 < (2 :: nat) ^ 24" using mod_less_divisor [of "2 ^ 23" p] by simp
  then have "unat (of_nat (2 ^ 23 + p mod 2 ^ 23) :: u32) = 2 ^ 23 + p mod 2 ^ 23"
    by (simp only: unat_of_nat) (simp add: take_bit_nat_eq_self)
  then show "unat (drop_bit (unat (1 - (drop_bit 23 v - 112))) (0x800000 OR (v AND 0x7FFFFF))) =
    (2 ^ 23 + p mod 2 ^ 23) div 2 ^ (113 - p div 2 ^ 23)" unfolding unat_drop r s by simp
qed

lemma lost_bits:
  fixes v :: u32
  assumes "unat v = p"
  shows "(0x800000 OR (v AND 0x7FFFFF)) AND 0x7FF \<noteq> 0 \<longleftrightarrow> p mod 2 ^ 11 \<noteq> 0"
proof -
  have "(0x7FF :: u32) = mask 11" "(0x7FFFFF :: u32) = mask 23" "(0x800000 :: u32) = push_bit 23 1" by (simp_all add: mask_eq_exp_minus_1)
  moreover have "(push_bit 23 1 OR (v AND mask 23)) AND mask 11 = take_bit 11 v"
    by (rule bit_word_eqI) (auto simp: bit_simps simp del: push_bit_of_1)
  moreover have "unat (take_bit 11 v) = p mod 2 ^ 11" unfolding assms [symmetric] by (rule unat_take) simp
  ultimately show ?thesis by (simp only: unat_0_iff [symmetric])
qed

lemma u32_le: "v \<le> w \<longleftrightarrow> unat v \<le> unat w" "v < w \<longleftrightarrow> unat v < unat w" for v :: u32
  by (simp_all add: word_le_nat_alt word_less_nat_alt)

lemma float2half_bits:
  assumes "unat s mod 2 ^ 31 div 2 ^ 23 \<le> 142"
  shows "unat (float2half s) = unat s div 2 ^ 31 * 2 ^ 15 + half_round (unat s mod 2 ^ 31)"
proof -
  define v where "v = s XOR (s AND 0x80000000)"
  define p where "p = unat s mod 2 ^ 31"
  have v: "unat v = p" unfolding v_def p_def by (rule rest_of)
  have e: "p div 2 ^ 23 \<le> 142" using assms by (simp add: p_def)
  then have p: "p < 143 * 2 ^ 23" by (intro div_less_iff_less_mult [THEN iffD1]) simp_all
  define w where "w = (if v \<le> 0x33000000 then 0
    else if v < 0x38800000
    then (let u = drop_bit (unat (1 - (drop_bit 23 v - 112))) (0x800000 OR (v AND 0x7FFFFF))
          in u + (if u AND 0x3FFF \<noteq> 0x1000 \<or> (0x800000 OR (v AND 0x7FFFFF)) AND 0x7FF \<noteq> 0 then 0x1000 else 0))
    else v + (if v AND 0x3FFF \<noteq> 0x1000 \<or> False then 0x1000 else 0) - push_bit 23 112)"
  have "unat w div 2 ^ 13 = half_round p"
  proof -
    consider "v \<le> 0x33000000" | "\<not> v \<le> 0x33000000" "v < 0x38800000" | "\<not> v < 0x38800000" by blast
    then show ?thesis
    proof cases
      case 1
      then have "p \<le> 102 * 2 ^ 23" using v by (simp add: u32_le)
      then show ?thesis using 1 half_round_tiny by (simp add: w_def)
    next
      case 2
      then have "\<not> p \<le> 102 * 2 ^ 23" "p < 113 * 2 ^ 23" using v by (simp_all add: u32_le)
      then have e: "102 \<le> p div 2 ^ 23" "p div 2 ^ 23 < 113"
        by (simp_all add: less_eq_div_iff_mult_less_eq div_less_iff_less_mult)
      note u = shifted_word [OF v e(2)]
      have "(2 ^ 23 + p mod 2 ^ 23) div 2 ^ (113 - p div 2 ^ 23) \<le> 2 ^ 23 + p mod 2 ^ 23" by (rule div_le_dividend)
      also have "\<dots> < 2 ^ 31" using mod_less_divisor [of "2 ^ 23" p] by simp
      finally have "unat w = bump ((2 ^ 23 + p mod 2 ^ 23) div 2 ^ (113 - p div 2 ^ 23)) (p mod 2 ^ 11 \<noteq> 0)"
        using 2 bump_word [OF u(1) [THEN ord_eq_less_trans]] unfolding w_def Let_def lost_bits [OF v] by (simp only: if_False if_True u(1))
      then show ?thesis using bump_shifted [OF e] by simp
    next
      case 3
      then have p113: "113 * 2 ^ 23 \<le> p" using v by (simp add: u32_le)
      then have e: "113 \<le> p div 2 ^ 23" by (simp add: less_eq_div_iff_mult_less_eq)
      have "unat v < 2 ^ 31" using p v by simp
      note b = bump_word [OF this, of False]
      have "112 * 2 ^ 23 \<le> bump p False" using p113 by (simp add: bump_def)
      moreover have n: "\<not> v \<le> 0x33000000" using v p113 by (simp add: u32_le)
      moreover have "w = v + (if v AND 0x3FFF \<noteq> 0x1000 \<or> False then 0x1000 else 0) - of_nat (112 * 2 ^ 23)"
        using 3 n by (simp add: w_def)
      moreover have "unat (of_nat (112 * 2 ^ 23) :: u32) = 112 * 2 ^ 23" by simp
      ultimately have "unat w = bump p False - 112 * 2 ^ 23" using b v by (simp only: unat_sub u32_le)
      then show ?thesis using bump_normal [OF e] by simp
    qed
  qed
  moreover have "half_round p < 2 ^ 15" using half_round_bound [OF e] by simp
  moreover have "float2half s = ucast (drop_bit 16 (s AND 0x80000000)) OR ucast (drop_bit 13 w AND 0x7FFF)"
    using p v unfolding float2half_def half_constants Let_def v_def [symmetric] w_def by (simp add: u32_le)
  ultimately show ?thesis unfolding p_def by (simp only: half_of_parts mod_less)
qed

lemma float_infinite:
  assumes "142 < unat s mod 2 ^ 31 div 2 ^ 23" and "unat s mod 2 ^ 31 \<le> 0x7F800000"
  shows "unat (float2half s) = unat s div 2 ^ 31 * 2 ^ 15 + 0x7C00"
    and "unat (Float2HalfBits s) = unat s div 2 ^ 31 * 2 ^ 15 + 0x7C00"
proof -
  define v where "v = s XOR (s AND 0x80000000)"
  have v: "unat v = unat s mod 2 ^ 31" unfolding v_def by (rule rest_of)
  have "143 * 2 ^ 23 \<le> unat v" using assms(1) v by (simp add: less_eq_div_iff_mult_less_eq [symmetric])
  then have "\<not> v \<le> 0x33000000" "\<not> v < 0x38800000" "\<not> v \<le> 0x477FFFFF" "v \<le> 0x7F800000"
    using assms(2) v by (simp_all add: u32_le)
  then have f: "float2half s = ucast (drop_bit 16 (s AND 0x80000000)) OR ucast (drop_bit 13 (0x7F800000 :: u32) AND 0x7FFF)"
    unfolding float2half_def half_constants Let_def v_def [symmetric] by (simp only: if_False if_True)
  have i: "unat (0x7F800000 :: u32) div 2 ^ 13 mod 2 ^ 15 = 0x7C00" by simp
  show "unat (float2half s) = unat s div 2 ^ 31 * 2 ^ 15 + 0x7C00"
    unfolding f half_of_parts i ..
  have g: "unat s div 2 ^ 23 mod 256 = unat s mod 2 ^ 31 div 2 ^ 23" "unat s mod 2 ^ 23 = unat s mod 2 ^ 31 mod 2 ^ 23"
    by (simp_all only: float_fields)
  have "unat s mod 2 ^ 31 mod 2 ^ 23 = 0" if "unat s mod 2 ^ 31 div 2 ^ 23 = 255"
    using assms(2) div_mult_mod_eq [of "unat s mod 2 ^ 31" "2 ^ 23"] unfolding that by simp
  moreover have "unat s mod 2 ^ 31 \<noteq> 0" using assms(1) by (metis div_0 not_less_zero)
  ultimately have "Float2HalfBits s = of_nat (unat s div 2 ^ 31) * 0x8000 OR 0x7C00"
    using assms(1) unfolding Float2HalfBits_def Let_def g by auto
  also have "\<dots> = of_nat (unat s div 2 ^ 31 * 2 ^ 15) OR of_nat 0x7C00" by simp
  also have "\<dots> = of_nat (unat s div 2 ^ 31 * 2 ^ 15 + 0x7C00)" by (rule or_is_plus) simp
  finally have h: "Float2HalfBits s = of_nat (unat s div 2 ^ 31 * 2 ^ 15 + 0x7C00)" .
  have "unat s div 2 ^ 31 * 2 ^ 15 + 0x7C00 < 2 ^ 16" using sign_small [of s] by simp
  then show "unat (Float2HalfBits s) = unat s div 2 ^ 31 * 2 ^ 15 + 0x7C00" unfolding h by (rule unat_of_nat16)
qed

lemma float2half_agrees:
  assumes "unat s mod 2 ^ 31 \<le> 0x7F800000"
  shows "float2half s = Float2HalfBits s"
proof (cases "unat s mod 2 ^ 31 div 2 ^ 23 \<le> 142")
  case True
  then have "unat (float2half s) = unat (Float2HalfBits s)" by (simp only: float2half_bits Float2HalfBits_bits)
  then show ?thesis by (simp only: word_unat_eq_iff)
next
  case False
  then have "unat (float2half s) = unat (Float2HalfBits s)" by (simp only: float_infinite [OF _ assms] not_le)
  then show ?thesis by (simp only: word_unat_eq_iff)
qed

text \<open>
  The two conversions of the code to half precision, \<open>Float2HalfBits\<close> of the
  reducer and \<open>float2half\<close> of the compressors, which rounds by adding half a unit,
  give the same pattern for every \<open>float\<close> that is not a NaN: normal, subnormal,
  overflowing to infinity, of both signs.
\<close>

theorem half_conversions_agree:
  assumes "unat s mod 2 ^ 31 \<le> 0x7F800000"
  shows "float2half s = Float2HalfBits s"
  using assms by (rule float2half_agrees)

theorem half_conversions_agree_witness: "float2half 0xB9123000 = Float2HalfBits 0xB9123000"
  by (rule half_conversions_agree) simp

end
