(* ===== verification/Half_Type.thy ===== *)
theory Half_Type
  imports Half_Agree
begin

section \<open>The half precision type\<close>

text \<open>
  The class \<open>half_t\<close> of \<open>half.h\<close>: sixteen bits, converted to \<open>float\<close> for every operation and
  back. The compressors compute with it, the reducer of the workers and of the server with
  its own conversions; both come to the same sums. \<open>float\<close> arithmetic is a parameter; what
  IEEE 754 fixes of a comparison is written out.
\<close>

subsection \<open>The class\<close>

record half_t =
  half_bits :: u16

definition Binary :: "u16 \<Rightarrow> half_t" where
  "Binary value = \<lparr>half_bits = value\<rparr>"

text \<open>The constructors convert their argument to \<open>float\<close> first; and back, the conversion operator.\<close>

definition half_constructor :: "u32 \<Rightarrow> half_t" where
  "half_constructor value = \<lparr>half_bits = float2half value\<rparr>"

definition half_to_float :: "float_ops \<Rightarrow> half_t \<Rightarrow> u32" where
  "half_to_float fo h = half2float fo (half_bits h)"

text \<open>
  The two macros: \<open>RTYPE(float(a) OP float(b))\<close>, where one side may have another type, and
  \<open>*this = half_t(float(*this) OP float(a))\<close>. How an operand becomes a \<open>float\<close> is an argument.
\<close>

definition HALF_OPERATOR :: "('x \<Rightarrow> 'r) \<Rightarrow> (u32 \<Rightarrow> u32 \<Rightarrow> 'x) \<Rightarrow> ('a \<Rightarrow> u32) \<Rightarrow> ('b \<Rightarrow> u32) \<Rightarrow> 'a \<Rightarrow> 'b \<Rightarrow> 'r" where
  "HALF_OPERATOR rtype opr float_a float_b a b = rtype (opr (float_a a) (float_b b))"

definition HALF_ASSIGNOP :: "float_ops \<Rightarrow> (u32 \<Rightarrow> u32 \<Rightarrow> u32) \<Rightarrow> ('a \<Rightarrow> u32) \<Rightarrow> half_t \<Rightarrow> 'a \<Rightarrow> half_t" where
  "HALF_ASSIGNOP fo opr float_a this a = half_constructor (opr (half_to_float fo this) (float_a a))"

text \<open>Both operands halves:\<close>

definition half_plus :: "double_ops \<Rightarrow> half_t \<Rightarrow> half_t \<Rightarrow> half_t" where
  "half_plus fo = HALF_OPERATOR half_constructor (f32_add fo) (half_to_float (ops_of fo)) (half_to_float (ops_of fo))"

definition half_minus :: "double_ops \<Rightarrow> half_t \<Rightarrow> half_t \<Rightarrow> half_t" where
  "half_minus fo = HALF_OPERATOR half_constructor (f32_sub fo) (half_to_float (ops_of fo)) (half_to_float (ops_of fo))"

definition half_times :: "double_ops \<Rightarrow> half_t \<Rightarrow> half_t \<Rightarrow> half_t" where
  "half_times fo = HALF_OPERATOR half_constructor (f32_mul fo) (half_to_float (ops_of fo)) (half_to_float (ops_of fo))"

definition half_divide :: "double_ops \<Rightarrow> half_t \<Rightarrow> half_t \<Rightarrow> half_t" where
  "half_divide fo = HALF_OPERATOR half_constructor (f32_div fo) (half_to_float (ops_of fo)) (half_to_float (ops_of fo))"

definition half_plus_assign :: "double_ops \<Rightarrow> half_t \<Rightarrow> half_t \<Rightarrow> half_t" where
  "half_plus_assign fo = HALF_ASSIGNOP (ops_of fo) (f32_add fo) (half_to_float (ops_of fo))"

definition half_minus_assign :: "double_ops \<Rightarrow> half_t \<Rightarrow> half_t \<Rightarrow> half_t" where
  "half_minus_assign fo = HALF_ASSIGNOP (ops_of fo) (f32_sub fo) (half_to_float (ops_of fo))"

definition half_times_assign :: "double_ops \<Rightarrow> half_t \<Rightarrow> half_t \<Rightarrow> half_t" where
  "half_times_assign fo = HALF_ASSIGNOP (ops_of fo) (f32_mul fo) (half_to_float (ops_of fo))"

definition half_divide_assign :: "double_ops \<Rightarrow> half_t \<Rightarrow> half_t \<Rightarrow> half_t" where
  "half_divide_assign fo = HALF_ASSIGNOP (ops_of fo) (f32_div fo) (half_to_float (ops_of fo))"

text \<open>Unary plus and minus, and the assignment: the new value of the object, and what is returned.\<close>

definition half_positive :: "half_t \<Rightarrow> half_t" where
  "half_positive h = h"

definition half_negative :: "float_ops \<Rightarrow> half_t \<Rightarrow> half_t" where
  "half_negative fo h = half_constructor (half_to_float fo h XOR 0x80000000)"

definition half_assign :: "half_t \<Rightarrow> half_t \<Rightarrow> half_t \<times> half_t" where
  "half_assign this a = (this\<lparr>half_bits := half_bits a\<rparr>, a)"

definition half_assign_float :: "half_t \<Rightarrow> u32 \<Rightarrow> half_t \<times> half_t" where
  "half_assign_float this a = half_assign this (half_constructor a)"

text \<open>
  The comparisons of \<open>float\<close>: false when one side is a NaN, else by sign and magnitude, the two
  zeros being equal.
\<close>

definition float_nan :: "u32 \<Rightarrow> bool" where
  "float_nan s \<longleftrightarrow> 0x7F800000 < unat s mod 2 ^ 31"

definition float_key :: "u32 \<Rightarrow> int" where
  "float_key s = (if 2 ^ 31 \<le> unat s then - int (unat s mod 2 ^ 31) else int (unat s mod 2 ^ 31))"

definition float_less :: "u32 \<Rightarrow> u32 \<Rightarrow> bool" where
  "float_less a b \<longleftrightarrow> \<not> float_nan a \<and> \<not> float_nan b \<and> float_key a < float_key b"

definition float_less_eq :: "u32 \<Rightarrow> u32 \<Rightarrow> bool" where
  "float_less_eq a b \<longleftrightarrow> \<not> float_nan a \<and> \<not> float_nan b \<and> float_key a \<le> float_key b"

definition half_greater :: "float_ops \<Rightarrow> half_t \<Rightarrow> half_t \<Rightarrow> bool" where
  "half_greater fo = HALF_OPERATOR (\<lambda>x. x) (\<lambda>a b. float_less b a) (half_to_float fo) (half_to_float fo)"

definition half_less :: "float_ops \<Rightarrow> half_t \<Rightarrow> half_t \<Rightarrow> bool" where
  "half_less fo = HALF_OPERATOR (\<lambda>x. x) float_less (half_to_float fo) (half_to_float fo)"

definition half_greater_eq :: "float_ops \<Rightarrow> half_t \<Rightarrow> half_t \<Rightarrow> bool" where
  "half_greater_eq fo = HALF_OPERATOR (\<lambda>x. x) (\<lambda>a b. float_less_eq b a) (half_to_float fo) (half_to_float fo)"

definition half_less_eq :: "float_ops \<Rightarrow> half_t \<Rightarrow> half_t \<Rightarrow> bool" where
  "half_less_eq fo = HALF_OPERATOR (\<lambda>x. x) float_less_eq (half_to_float fo) (half_to_float fo)"

definition HALF_MIN :: half_t where
  "HALF_MIN = Binary 0xFBFF"

definition HALF_MAX :: half_t where
  "HALF_MAX = Binary 0x7BFF"

lemmas half_ops = HALF_OPERATOR_def HALF_ASSIGNOP_def half_to_float_def half_constructor_def Binary_def

subsection \<open>The conversion to float\<close>

text \<open>The product of \<open>2 ^ -24\<close> with a subnormal mantissa is exact, as IEEE 754 requires of it.\<close>

definition exact_subnormals :: "float_ops \<Rightarrow> bool" where
  "exact_subnormals fo \<longleftrightarrow>
     (\<forall>m < 2 ^ 10. let s = f32_mul fo 0x33800000 (int_to_f32 fo (int m)) in unat s < 2 ^ 31 \<and> float_mag s = m * 2 ^ 125)"

lemma float_ladder_step: "float_ladder p < float_ladder (Suc p)"
proof (cases "p mod 2 ^ 23 = 2 ^ 23 - 1")
  case True
  then have "Suc p mod 2 ^ 23 = 0" "Suc p div 2 ^ 23 = Suc (p div 2 ^ 23)"
    by (simp_all add: mod_Suc div_Suc)
  then show ?thesis using True by (cases "p div 2 ^ 23") (simp_all add: float_ladder_def Let_def)
next
  case False
  then have "Suc p mod 2 ^ 23 = Suc (p mod 2 ^ 23)" "Suc p div 2 ^ 23 = p div 2 ^ 23"
    by (simp_all add: mod_Suc div_Suc)
  then show ?thesis by (simp add: float_ladder_def Let_def)
qed

lemma float_ladder_less: "float_ladder p < float_ladder q \<longleftrightarrow> p < q"
  using strict_mono_Suc_iff [of float_ladder] float_ladder_step by (simp add: strict_mono_less)

lemma float_ladder_inj: "float_ladder p = float_ladder q \<Longrightarrow> p = q"
  using float_ladder_less [of p q] float_ladder_less [of q p] by (cases p q rule: linorder_cases) simp_all

lemma masked_choice: "v XOR ((x XOR v) AND all_ones b) = (if b then x else v)"
  by (simp add: all_ones_def) (metis xor.assoc xor.commute xor_self_eq xor.right_neutral)

text \<open>What the bits come to: the sign, and above it one of three ranges.\<close>

definition half_range :: "float_ops \<Rightarrow> nat \<Rightarrow> nat" where
  "half_range fo p =
     (if p < 2 ^ 10 then unat (f32_mul fo 0x33800000 (int_to_f32 fo (int p)))
      else if p < 31 * 2 ^ 10 then p * 2 ^ 13 + 112 * 2 ^ 23 else p * 2 ^ 13 + 224 * 2 ^ 23)"

lemma half_parts:
  fixes h :: u16
  defines "v \<equiv> ucast h :: u32"
  shows "v XOR (v AND 0xFFFF8000) = of_nat (unat h mod 2 ^ 15)"
    and "push_bit 16 (v AND 0xFFFF8000) = of_nat (unat h div 2 ^ 15 * 2 ^ 31)"
proof -
  have u: "unat v = unat h" unfolding v_def by (simp add: unsigned_ucast_eq take_bit_nat_eq_self order.strict_trans2 [OF unsigned_less])
  have m: "(0xFFFF8000 :: u32) = NOT (mask 15)" by (simp add: mask_eq_exp_minus_1)
  have "v XOR (v AND NOT (mask 15)) = take_bit 15 v" by (rule bit_word_eqI) (auto simp: bit_simps)
  then show "v XOR (v AND 0xFFFF8000) = of_nat (unat h mod 2 ^ 15)"
    unfolding m using unat_take [of 15 v] u by (intro of_unat) simp
  have "push_bit 16 (v AND NOT (mask 15)) = push_bit 31 (drop_bit 15 v)"
  proof (rule bit_word_eqI)
    fix n assume "n < LENGTH(32)"
    have b: "bit v k \<Longrightarrow> k \<le> 15" for k using bit_imp_le_length [of h k] by (simp add: v_def bit_simps)
    show "bit (push_bit 16 (v AND NOT (mask 15))) n = bit (push_bit 31 (drop_bit 15 v)) n"
    proof (cases "n = 31")
      case False
      then have "\<not> bit v (n - 16) \<or> n - 16 < 15" "\<not> bit v (15 + (n - 31)) \<or> n < 31" using b [of "n - 16"] b [of "15 + (n - 31)"] by auto
      then show ?thesis by (auto simp: bit_simps)
    qed (auto simp: bit_simps)
  qed
  also have "\<dots> = of_nat (unat h div 2 ^ 15 * 2 ^ 31)"
  proof -
    have d: "drop_bit 15 v = of_nat (unat h div 2 ^ 15)" by (rule of_unat) (simp only: unat_drop u)
    show ?thesis unfolding d push_bit_eq_mult by (simp only: of_nat_mult of_nat_power of_nat_numeral)
  qed
  finally show "push_bit 16 (v AND 0xFFFF8000) = of_nat (unat h div 2 ^ 15 * 2 ^ 31)" unfolding m .
qed

lemma unat_of_nat32: "n < 2 ^ 32 \<Longrightarrow> unat (of_nat n :: u32) = n"
  by (simp add: unat_of_nat take_bit_nat_eq_self)

lemma half2float_bits:
  assumes "unat h mod 2 ^ 15 < 2 ^ 10 \<Longrightarrow> half_range fo (unat h mod 2 ^ 15) < 2 ^ 31"
  shows "unat (half2float fo h) = unat h div 2 ^ 15 * 2 ^ 31 + half_range fo (unat h mod 2 ^ 15)"
proof -
  define p where "p = unat h mod 2 ^ 15"
  define v where "v = (of_nat p :: u32)"
  have p: "p < 2 ^ 15" by (simp add: p_def)
  have v: "unat v = p" using p by (simp add: v_def unat_of_nat take_bit_nat_eq_self)
  define v2 where "v2 = (if v > 0x3FF then v + 0x1C000 else v)"
  define v3 where "v3 = (if v2 > 0x23BFF then v2 + 0x1C000 else v2)"
  have v2: "unat v2 = (if p < 2 ^ 10 then p else p + 0x1C000)"
    using p v by (auto simp: v2_def u32_le unat_plus_if')
  have v3: "unat v3 = (if p < 2 ^ 10 then p else if p < 31 * 2 ^ 10 then p + 0x1C000 else p + 0x38000)"
    using p v2 by (auto simp: v3_def u32_le unat_plus_if')
  have "sint v3 = int p" if "p < 2 ^ 10" using that v3 by (subst sint_u32_small) simp_all
  moreover have "unat (push_bit 13 v3) = unat v3 * 2 ^ 13"
  proof -
    have "unat v3 * 2 ^ 13 < 2 ^ 32" using v3 p by (auto split: if_splits)
    then have "unat (v3 * 0x2000) = unat v3 * unat (0x2000 :: u32)" by (intro unat_mult_lem [THEN iffD1]) simp
    then show ?thesis unfolding push_bit_eq_mult by simp
  qed
  ultimately have w: "unat (if 0x400 > v3 then f32_mul fo 0x33800000 (int_to_f32 fo (sint v3)) else push_bit 13 v3) = half_range fo p"
    using v3 by (auto simp: half_range_def u32_le)
  have r: "half_range fo p < 2 ^ 31" using assms p unfolding p_def [symmetric] by (auto simp: half_range_def)
  have "half2float fo h = (if 0x400 > v3 then f32_mul fo 0x33800000 (int_to_f32 fo (sint v3)) else push_bit 13 v3) OR
      of_nat (unat h div 2 ^ 15 * 2 ^ 31)"
    unfolding half2float_def half_constants Let_def half_parts masked_choice p_def [symmetric] v_def [symmetric]
      v2_def [symmetric] v3_def [symmetric] ..
  also have "\<dots> = of_nat (unat h div 2 ^ 15 * 2 ^ 31 + half_range fo p)"
    unfolding of_unat [OF w] by (rule or_is_plus' [OF r])
  finally have b: "half2float fo h = of_nat (unat h div 2 ^ 15 * 2 ^ 31 + half_range fo p)" .
  have "unat h < 2 * 2 ^ 15" using unsigned_less [of h] by simp
  then have "unat h div 2 ^ 15 < 2" by (rule less_mult_imp_div_less)
  then have "unat h div 2 ^ 15 * 2 ^ 31 + half_range fo p < 2 ^ 32" using r by simp
  note unat_of_nat32 [OF this]
  then have "unat (half2float fo h) = unat h div 2 ^ 15 * 2 ^ 31 + half_range fo p" unfolding b .
  then show ?thesis unfolding p_def .
qed

lemma half_range_ladder:
  assumes "exact_subnormals fo" and "p < 31 * 2 ^ 10"
  shows "half_range fo p < 2 ^ 31 \<and> float_ladder (half_range fo p) = half_ladder p * 2 ^ 125"
proof (cases "p < 2 ^ 10")
  case True
  then have "unat (f32_mul fo 0x33800000 (int_to_f32 fo (int p))) < 2 ^ 31 \<and>
      float_mag (f32_mul fo 0x33800000 (int_to_f32 fo (int p))) = p * 2 ^ 125"
    using assms(1) by (simp add: exact_subnormals_def Let_def)
  then show ?thesis using True half_ladder_subnormal [of p] by (elim conjE) (simp add: half_range_def float_mag_def)
next
  case False
  define e where "e = p div 2 ^ 10"
  define m where "m = p mod 2 ^ 10"
  have p: "p = e * 2 ^ 10 + m" unfolding e_def m_def by (simp only: div_mult_mod_eq)
  have m: "m < 2 ^ 10" by (simp add: m_def)
  obtain d where d: "e = Suc d" using False by (cases e) (simp_all add: e_def)
  have q: "half_range fo p = (d + 113) * 2 ^ 23 + m * 2 ^ 13"
    using False assms(2) d by (simp add: half_range_def p algebra_simps)
  have r: "m * 2 ^ 13 < 2 ^ 23" using m by simp
  have "half_range fo p div 2 ^ 23 = d + 113 + m * 2 ^ 13 div 2 ^ 23" unfolding q by (rule div_mult_self3) simp
  moreover have "half_range fo p mod 2 ^ 23 = m * 2 ^ 13 mod 2 ^ 23" unfolding q by (rule mod_mult_self3)
  ultimately have "half_range fo p div 2 ^ 23 = d + 113" "half_range fo p mod 2 ^ 23 = m * 2 ^ 13"
    using r by (simp_all only: div_less mod_less add_0_right)
  then have "float_ladder (half_range fo p) = (2 ^ 23 + m * 2 ^ 13) * 2 ^ (d + 112)"
    by (simp only: float_ladder_def Let_def) simp
  moreover have "half_ladder p = (2 ^ 10 + m) * 2 ^ d"
    using d unfolding e_def m_def by (simp add: half_ladder_def Let_def)
  moreover have "(2 ^ 23 + m * 2 ^ 13) * 2 ^ (d + 112) = (2 ^ 10 + m) * 2 ^ d * (2 :: nat) ^ 125"
    by (simp add: power_add algebra_simps)
  moreover have "half_range fo p < 2 ^ 31" using False assms(2) by (simp add: half_range_def)
  ultimately show ?thesis by simp
qed

definition half_nan :: "u16 \<Rightarrow> bool" where
  "half_nan h \<longleftrightarrow> 0x7C00 < unat h mod 2 ^ 15"

lemma half_fields: "unat h mod 2 ^ 15 = unat h div 2 ^ 10 mod 32 * 2 ^ 10 + unat h mod 2 ^ 10" for h :: u16
proof -
  have "unat h mod (2 ^ 10 * 32) = 2 ^ 10 * (unat h div 2 ^ 10 mod 32) + unat h mod 2 ^ 10" by (rule mod_mult2_eq)
  then show ?thesis by simp
qed

text \<open>Outside the NaNs the class converts to \<open>float\<close> as the reducer does.\<close>

lemma half2float_agrees:
  assumes "exact_subnormals fo" and "\<not> half_nan h"
  shows "half2float fo h = HalfBits2Float h"
proof (cases "unat h mod 2 ^ 15 < 31 * 2 ^ 10")
  case True
  note r = half_range_ladder [OF assms(1) True]
  have "unat h div 2 ^ 10 mod 32 \<noteq> 31" using True half_fields [of h] by auto
  from HalfBits2Float_bits [OF this] obtain e m where
    em: "unat (HalfBits2Float h) = unat h div 2 ^ 15 * 2 ^ 31 + (e * 2 ^ 23 + m)"
    "float_ladder (e * 2 ^ 23 + m) = half_mag h * 2 ^ 125" by blast
  have "e * 2 ^ 23 + m = half_range fo (unat h mod 2 ^ 15)"
    by (rule float_ladder_inj) (simp only: em(2) r half_mag_def)
  then have "unat (half2float fo h) = unat (HalfBits2Float h)" using em(1) half2float_bits [of h fo] r by simp
  then show ?thesis by (simp only: word_unat_eq_iff)
next
  case False
  then have m: "unat h mod 2 ^ 15 = 0x7C00" using assms(2) by (simp add: half_nan_def)
  define s where "s = unat h div 2 ^ 15"
  have u: "unat h = s * 2 ^ 15 + 0x7C00" using m unfolding s_def by (metis div_mult_mod_eq)
  have "unat h < 2 * 2 ^ 15" using unsigned_less [of h] by simp
  then have "s < 2" unfolding s_def by (rule less_mult_imp_div_less)
  then have "s = 0 \<or> s = 1" by auto
  then have "unat h = 0x7C00 \<or> unat h = 0xFC00" using u by auto
  then have h: "h = 0x7C00 \<or> h = 0xFC00" by (simp add: word_unat_eq_iff)
  have "unat (half2float fo h) = unat h div 2 ^ 15 * 2 ^ 31 + 0x7F800000"
    using half2float_bits [of h fo] m by (simp add: half_range_def)
  moreover have "unat (HalfBits2Float h) = unat h div 2 ^ 15 * 2 ^ 31 + 0x7F800000"
    using h by (auto simp: HalfBits2Float_def Let_def)
  ultimately show ?thesis by (simp only: word_unat_eq_iff)
qed

subsection \<open>Order\<close>

text \<open>The value of a half in units of the smallest subnormal, an infinity being the next power of two.\<close>

definition half_value :: "u16 \<Rightarrow> int" where
  "half_value h = (if 2 ^ 15 \<le> unat h then - int (half_mag h) else int (half_mag h))"

lemma half_range_infinite: "half_range fo 0x7C00 = 0x7F800000"
  by (simp add: half_range_def)

lemma half_range_finite:
  assumes "exact_subnormals fo" and "p < 0x7C00"
  shows "half_range fo p < 0x7F800000"
proof -
  have "half_ladder p * 2 ^ 125 < half_ladder 0x7C00 * 2 ^ 125" using half_ladder_less [OF assms(2)] by simp
  also have "\<dots> \<le> float_ladder 0x7F800000" by (simp add: half_ladder_def float_ladder_def)
  finally have "float_ladder (half_range fo p) < float_ladder 0x7F800000"
    using half_range_ladder [OF assms(1), of p] assms(2) by simp
  then show ?thesis by (simp only: float_ladder_less)
qed

lemma half_range_less:
  assumes "exact_subnormals fo" and "p \<le> 0x7C00" and "q \<le> 0x7C00"
  shows "half_range fo p < half_range fo q \<longleftrightarrow> half_ladder p < half_ladder q"
proof -
  consider "p < 0x7C00" "q < 0x7C00" | "p < 0x7C00" "q = 0x7C00" | "p = 0x7C00" "q < 0x7C00" | "p = 0x7C00" "q = 0x7C00"
    using assms(2,3) by linarith
  then show ?thesis
  proof cases
    case 1
    then have "float_ladder (half_range fo p) < float_ladder (half_range fo q) \<longleftrightarrow> half_ladder p * 2 ^ 125 < half_ladder q * 2 ^ 125"
      using half_range_ladder [OF assms(1)] by simp
    then show ?thesis by (simp add: float_ladder_less)
  next
    case 2
    then show ?thesis using half_range_finite [OF assms(1) 2(1)] half_ladder_less [OF 2(1)] half_range_infinite [of fo] by simp
  next
    case 3
    then show ?thesis using half_range_finite [OF assms(1) 3(2)] half_ladder_less [OF 3(2)] half_range_infinite [of fo] by simp
  qed simp
qed

lemma signed_order:
  fixes p q p' q' :: nat
  assumes "p < q \<longleftrightarrow> p' < q'" and "q < p \<longleftrightarrow> q' < p'" and "0 < p \<longleftrightarrow> 0 < p'" and "0 < q \<longleftrightarrow> 0 < q'"
  shows "(if s then - int p else int p) < (if t then - int q else int q) \<longleftrightarrow>
    (if s then - int p' else int p') < (if t then - int q' else int q')"
  using assms by (cases s; cases t) auto

lemma half_key:
  assumes "exact_subnormals fo" and "\<not> half_nan h"
  shows "float_key (half2float fo h) =
      (if 2 ^ 15 \<le> unat h then - int (half_range fo (unat h mod 2 ^ 15)) else int (half_range fo (unat h mod 2 ^ 15)))"
    and "\<not> float_nan (half2float fo h)"
proof -
  let ?r = "half_range fo (unat h mod 2 ^ 15)"
  have "unat h mod 2 ^ 15 \<le> 0x7C00" using assms(2) by (simp add: half_nan_def)
  then have r: "?r \<le> 0x7F800000"
    using half_range_finite [OF assms(1), of "unat h mod 2 ^ 15"] half_range_infinite [of fo]
    by (cases "unat h mod 2 ^ 15 = 0x7C00") (simp_all only:, simp)
  then have b: "unat (half2float fo h) = unat h div 2 ^ 15 * 2 ^ 31 + ?r" by (intro half2float_bits) simp
  have m: "unat (half2float fo h) mod 2 ^ 31 = ?r" unfolding b using r by simp
  have "2 ^ 31 \<le> unat (half2float fo h) \<longleftrightarrow> 0 < unat h div 2 ^ 15" unfolding b using r by (cases "unat h div 2 ^ 15") simp_all
  also have "\<dots> \<longleftrightarrow> 2 ^ 15 \<le> unat h" by (simp add: div_greater_zero_iff)
  finally show "float_key (half2float fo h) =
      (if 2 ^ 15 \<le> unat h then - int ?r else int ?r)" by (simp only: float_key_def m)
  show "\<not> float_nan (half2float fo h)" using r by (simp only: float_nan_def m)
qed

lemma half_key_less:
  assumes "exact_subnormals fo" and "\<not> half_nan a" and "\<not> half_nan b"
  shows "float_key (half2float fo a) < float_key (half2float fo b) \<longleftrightarrow> half_value a < half_value b"
proof -
  let ?p = "unat a mod 2 ^ 15" and ?q = "unat b mod 2 ^ 15"
  have pq: "?p \<le> 0x7C00" "?q \<le> 0x7C00" using assms(2,3) by (simp_all only: half_nan_def not_less)
  have l0: "half_ladder 0 = 0" by (simp add: half_ladder_def)
  have "float_ladder (half_range fo 0) = half_ladder 0 * 2 ^ 125" using half_range_ladder [OF assms(1), of 0] by simp
  also have "\<dots> = float_ladder 0" unfolding l0 by (simp add: float_ladder_def)
  finally have r0: "half_range fo 0 = 0" by (rule float_ladder_inj)
  have z: "0 < half_range fo x \<longleftrightarrow> 0 < half_ladder x" if "x \<le> 0x7C00" for x
    using half_range_less [OF assms(1) _ that, of 0] unfolding r0 l0 by simp
  note less = half_range_less [OF assms(1)]
  show ?thesis
    unfolding half_key(1) [OF assms(1,2)] half_key(1) [OF assms(1,3)] half_value_def half_mag_def
    by (rule signed_order [OF less [OF pq] less [OF pq(2,1)] z [OF pq(1)] z [OF pq(2)]])
qed

subsection \<open>Properties\<close>

text \<open>
  C24. The two additions of half precision numbers in the code are one: what the reducer, on the
  workers and on the server, makes of two elements is the sum of the class, and what the
  compressors add, bit for bit. The numbers and the \<open>float\<close> sum must not be NaNs.
\<close>

theorem half_sums_agree:
  assumes "exact_subnormals (ops_of fo)" and "\<not> half_nan a" and "\<not> half_nan b"
    and "\<not> float_nan (f32_add fo (HalfBits2Float a) (HalfBits2Float b))"
  shows "elem_add (ops_of fo) BYTEPS_FLOAT16 (unat a) (unat b) =
      Inr (unat (half_bits (half_plus fo (Binary a) (Binary b)))) \<and>
    half_plus_assign fo (Binary a) (Binary b) = half_plus fo (Binary a) (Binary b) \<and>
    add_float fo BYTEPS_FLOAT16 (unat a) (half_to_float (ops_of fo) (Binary b)) =
      unat (half_bits (half_plus fo (Binary a) (Binary b)))"
proof -
  have s: "f32_add (ops_of fo) = f32_add fo" by (simp add: ops_of_def float_ops.truncate_def)
  have "half_plus fo (Binary a) (Binary b) = half_constructor (f32_add fo (HalfBits2Float a) (HalfBits2Float b))"
    by (simp add: half_plus_def half_ops half2float_agrees [OF assms(1)] assms(2,3))
  moreover have "float2half (f32_add fo (HalfBits2Float a) (HalfBits2Float b)) =
      Float2HalfBits (f32_add fo (HalfBits2Float a) (HalfBits2Float b))"
    using assms(4) by (intro float2half_agrees) (simp only: float_nan_def not_less)
  ultimately show ?thesis
    by (simp add: s half_plus_assign_def half_plus_def half_ops add_float_def half2float_agrees [OF assms(1)] assms(2,3))
qed

text \<open>
  C25. The comparisons of the class are those of the values, for all numbers of both signs, the
  zeros being equal; and every finite number lies between the limits of the type.
\<close>

theorem half_order_and_limits:
  assumes "exact_subnormals fo" and "\<not> half_nan a" and "\<not> half_nan b"
  shows "(half_less fo (Binary a) (Binary b) \<longleftrightarrow> half_value a < half_value b) \<and>
    (half_less_eq fo (Binary a) (Binary b) \<longleftrightarrow> half_value a \<le> half_value b) \<and>
    (half_greater fo (Binary a) (Binary b) \<longleftrightarrow> half_value b < half_value a) \<and>
    (half_greater_eq fo (Binary a) (Binary b) \<longleftrightarrow> half_value b \<le> half_value a) \<and>
    (half_mag a < half_mag 0x7C00 \<longleftrightarrow>
       half_less_eq fo HALF_MIN (Binary a) \<and> half_less_eq fo (Binary a) HALF_MAX)"
proof -
  let ?p = "unat a mod 2 ^ 15"
  have "half_mag a < half_mag 0x7C00 \<longleftrightarrow> half_ladder ?p < half_ladder 0x7C00" by (simp add: half_mag_def)
  also have "\<dots> \<longleftrightarrow> half_ladder ?p \<le> half_ladder 0x7BFF"
    using half_ladder_mono [of ?p "0x7BFF"] half_ladder_mono [of "0x7C00" ?p] half_ladder_less [of "0x7BFF" "0x7C00"] by linarith
  also have "\<dots> \<longleftrightarrow> half_value 0xFBFF \<le> half_value a \<and> half_value a \<le> half_value 0x7BFF"
    by (simp add: half_value_def half_mag_def)
  finally have l: "half_mag a < half_mag 0x7C00 \<longleftrightarrow> half_value 0xFBFF \<le> half_value a \<and> half_value a \<le> half_value 0x7BFF" .
  have n: "\<not> half_nan 0xFBFF" "\<not> half_nan 0x7BFF" by (simp_all add: half_nan_def)
  note key = half_key_less [OF assms(1)] half_key(2) [OF assms(1)]
  have le: "float_key (half2float fo x) \<le> float_key (half2float fo y) \<longleftrightarrow> half_value x \<le> half_value y"
    if "\<not> half_nan x" "\<not> half_nan y" for x y
    using key(1) [OF that(2,1)] by linarith
  show ?thesis
    unfolding l using assms(2,3) n
    by (simp add: half_less_def half_less_eq_def half_greater_def half_greater_eq_def half_ops HALF_MIN_def HALF_MAX_def
        float_less_def float_less_eq_def key le)
qed

text \<open>Operations that are exact on the subnormals, and nothing else.\<close>

definition demo_halves :: double_ops where
  "demo_halves = \<lparr>f32_add = \<lambda>a b. a, f32_mul = \<lambda>a b. HalfBits2Float (ucast b), f64_add = \<lambda>a b. a, f64_mul = \<lambda>a b. a,
     f32_to_f64 = \<lambda>a. 0, int_to_f32 = of_int, f32_to_int = \<lambda>_. None, hw_to_f32 = \<lambda>_. 0, hw_to_f16 = \<lambda>_. 0,
     f32_sub = \<lambda>a b. a, f32_div = \<lambda>a b. a, f32_floor = \<lambda>a. a, f64_sub = \<lambda>a b. a, f64_div = \<lambda>a b. a, f64_sqrt = \<lambda>a. a,
     f64_ceil = \<lambda>a. a, f64_to_f32 = \<lambda>_. 0, f64_to_u32 = \<lambda>_. None, nat_to_f64 = \<lambda>_. 0, f64_less = \<lambda>a b. False\<rparr>"

lemma demo_halves_exact: "exact_subnormals (ops_of demo_halves)"
  unfolding exact_subnormals_def Let_def
proof (intro allI impI)
  fix m :: nat
  assume m: "m < 2 ^ 10"
  define h where "h = (of_nat m :: u16)"
  have h: "unat h = m" using m by (simp add: h_def unat_of_nat take_bit_nat_eq_self)
  have e: "unat h div 2 ^ 10 mod 32 \<noteq> 31" using m h by simp
  have "unat (ucast (of_nat m :: u32) :: u16) = m"
    using m by (simp add: unsigned_ucast_eq unat_of_nat take_bit_nat_eq_self)
  then have "(ucast (of_nat m :: u32) :: u16) = h" using h by (simp add: word_unat_eq_iff)
  then have "f32_mul (ops_of demo_halves) 0x33800000 (int_to_f32 (ops_of demo_halves) (int m)) = HalfBits2Float h"
    by (simp add: ops_of_def float_ops.truncate_def demo_halves_def)
  moreover have "unat (HalfBits2Float h) < 2 ^ 31 \<and> float_mag (HalfBits2Float h) = m * 2 ^ 125"
  proof -
    obtain x y where xy: "unat (HalfBits2Float h) = unat h div 2 ^ 15 * 2 ^ 31 + (x * 2 ^ 23 + y)" "x \<le> 142" "y < 2 ^ 23"
      "float_ladder (x * 2 ^ 23 + y) = half_mag h * 2 ^ 125" using HalfBits2Float_bits [OF e] by blast
    have "unat h div 2 ^ 15 = 0" using h m by simp
    then have u: "unat (HalfBits2Float h) = x * 2 ^ 23 + y" using xy(1) by simp
    have l: "unat (HalfBits2Float h) < 2 ^ 31" unfolding u using xy(2,3) by simp
    have "half_mag h = m" using h m by (simp add: half_mag_def half_ladder_subnormal)
    then show ?thesis using l xy(4) unfolding float_mag_def mod_less [OF l] u by simp
  qed
  ultimately show "unat (f32_mul (ops_of demo_halves) 0x33800000 (int_to_f32 (ops_of demo_halves) (int m))) < 2 ^ 31 \<and>
      float_mag (f32_mul (ops_of demo_halves) 0x33800000 (int_to_f32 (ops_of demo_halves) (int m))) = m * 2 ^ 125"
    by (simp only:)
qed

lemma demo_halves_add: "f32_add demo_halves a b = a"
  by (simp add: demo_halves_def)

theorem half_sums_agree_witness:
  "elem_add (ops_of demo_halves) BYTEPS_FLOAT16 0xC3FF 0x3C00 =
     Inr (unat (half_bits (half_plus demo_halves (Binary 0xC3FF) (Binary 0x3C00))))"
  using half_sums_agree [OF demo_halves_exact, of "0xC3FF" "0x3C00", THEN conjunct1]
  by (simp add: half_nan_def float_nan_def demo_halves_add HalfBits2Float_def Let_def)

theorem half_order_and_limits_witness:
  "half_less (ops_of demo_halves) (Binary 0x83FF) (Binary 0x0001) \<and>
   half_less_eq (ops_of demo_halves) HALF_MIN (Binary 0x83FF)"
  using half_order_and_limits [OF demo_halves_exact, of "0x83FF" "0x0001"]
  by (simp add: half_nan_def half_value_def half_mag_def half_ladder_def Let_def)

end
