(* ===== verification/Trace_Output.thy ===== *)
theory Trace_Output
  imports Core_Loops
begin

section \<open>The trace file\<close>

text \<open>
  \<open>BytePSGlobal::OutputTraces\<close> of \<open>global.cc\<close>: when the last profiled tensor has reached its last
  step, a thread writes every record of every profiled tensor as JSON and empties the queues they
  stand in. The records come from \<open>EnqueueTensor\<close>, \<open>recorderTs\<close> and \<open>FinishOrProceed\<close>.
\<close>

subsection \<open>Writing\<close>

text \<open>
  The order in which an \<open>unordered_map\<close> is iterated is its own; it does not change when an element
  is erased. The orders are arguments.
\<close>

record trace_order =
  names_order :: "string list"
  parts_order :: "string \<Rightarrow> u64 list"
  types_order :: "string \<Rightarrow> u64 \<Rightarrow> queue_type list"

type_synonym trace_file = "bool \<times> string"

text \<open>One queue of records: all but the first record of the file follow a comma.\<close>

fun emit_events :: "bps_context \<Rightarrow> comm_time_rec list \<Rightarrow> trace_file \<Rightarrow> trace_file res" where
  "emit_events c [] f = Inr f"
| "emit_events c (r # rs) (first, txt) =
     rbind (EmitTrace r c) (\<lambda>s.
       emit_events c rs (False, txt @ (if first then [] else '','' @ nl) @ s))"

text \<open>The queues of one partition; a queue that has been read is erased.\<close>

fun emit_types :: "bps_context \<Rightarrow> queue_type list \<Rightarrow> (queue_type \<rightharpoonup> comm_time_rec list) \<times> trace_file \<Rightarrow>
    ((queue_type \<rightharpoonup> comm_time_rec list) \<times> trace_file) res" where
  "emit_types c [] x = Inr x"
| "emit_types c (ty # tys) (m, f) =
     (case m ty of
        None \<Rightarrow> Inl (Undefined ''iterator'')
      | Some q \<Rightarrow> check (q \<noteq> []) (CheckFailed ''_part_comm_time_queue should not be empty'')
          (rbind (emit_events c q f) (\<lambda>f'. emit_types c tys (m(ty := None), f'))))"

text \<open>The partitions of one tensor.\<close>

fun emit_parts :: "bps_context \<Rightarrow> (u64 \<Rightarrow> queue_type list) \<Rightarrow> u64 list \<Rightarrow>
    (u64 \<rightharpoonup> (queue_type \<rightharpoonup> comm_time_rec list)) \<times> trace_file \<Rightarrow>
    ((u64 \<rightharpoonup> (queue_type \<rightharpoonup> comm_time_rec list)) \<times> trace_file) res" where
  "emit_parts c types [] x = Inr x"
| "emit_parts c types (k # ks) (m, f) =
     (case m k of
        None \<Rightarrow> Inl (Undefined ''iterator'')
      | Some per_op \<Rightarrow> check (types k \<noteq> []) (CheckFailed ''type2part_comm_time should not be empty'')
          (rbind (emit_types c (types k) (per_op, f)) (\<lambda>(_, f').
             emit_parts c types ks (m(k := None), f'))))"

text \<open>\<open>_name_to_cxt[name]\<close> makes a fresh context for a name that has none.\<close>

definition emit_context :: "trace_order \<Rightarrow> string \<Rightarrow> worker \<times> trace_file \<Rightarrow> (worker \<times> trace_file) res" where
  "emit_context ord name x =
     (let w = fst x;
          c = (case ctxs w name of None \<Rightarrow> new_context [] 0 | Some c \<Rightarrow> c)
      in rbind (emit_events c (comm_time c) (snd x)) (\<lambda>f1.
         rbind (emit_parts c (types_order ord name) (parts_order ord name) (part_comm_time c, f1)) (\<lambda>(m, f2).
           Inr (set_context name (c\<lparr>comm_time := [], part_comm_time := m\<rparr>) w, f2))))"

fun emit_contexts :: "trace_order \<Rightarrow> string list \<Rightarrow> worker \<times> trace_file \<Rightarrow> (worker \<times> trace_file) res" where
  "emit_contexts ord [] x = Inr x"
| "emit_contexts ord (n # ns) x = rbind (emit_context ord n x) (emit_contexts ord ns)"

definition trace_head :: string where
  "trace_head = ''{'' @ nl @ ''    '' @ quoted ''traceEvents'' @ '': ['' @ nl"

definition trace_foot :: string where
  "trace_foot = nl @ nl @ ''    ],'' @ nl @ ''    '' @ quoted ''displayTimeUnit'' @ '': '' @ quoted ''ms'' @ nl @ ''}'' @ nl"

definition trace_path :: "string \<Rightarrow> worker \<Rightarrow> string" where
  "trace_path dir w = dir @ ''/'' @ int_to_string (w_local_rank w) @ ''/comm.json''"

text \<open>The path of the file, its text, and the worker afterwards.\<close>

definition write_traces :: "string \<Rightarrow> trace_order \<Rightarrow> worker \<Rightarrow> (string \<times> string \<times> worker) res" where
  "write_traces dir ord w =
     rbind (emit_contexts ord (names_order ord) (w, True, trace_head)) (\<lambda>(w', _, txt).
       Inr (trace_path dir w, txt @ trace_foot, w'))"

subsection \<open>What the file should hold\<close>

definition comma_lines :: "string list \<Rightarrow> string" where
  "comma_lines ss = (case ss of [] \<Rightarrow> [] | s # ss' \<Rightarrow> s @ concat (map (\<lambda>x. '','' @ nl @ x) ss'))"

definition add_lines :: "string list \<Rightarrow> trace_file \<Rightarrow> trace_file" where
  "add_lines ss f =
     (fst f \<and> ss = [],
      snd f @ (if fst f then comma_lines ss else concat (map (\<lambda>x. '','' @ nl @ x) ss)))"

lemma add_lines_Nil [simp]: "add_lines [] f = f"
  by (cases f) (simp add: add_lines_def comma_lines_def)

lemma add_lines_append: "add_lines ys (add_lines xs f) = add_lines (xs @ ys) f"
  by (cases xs; cases "fst f") (auto simp: add_lines_def comma_lines_def)

definition event_text :: "bps_context \<Rightarrow> comm_time_rec \<Rightarrow> string" where
  "event_text c r = projr (EmitTrace r c)"

definition rec_ok :: "comm_time_rec \<Rightarrow> bool" where
  "rec_ok r \<longleftrightarrow> ct_key r = -1 \<or> 0 \<le> ct_type r \<and> ct_type r < 12"

text \<open>The queues of a context hold records of real stages, and none is empty.\<close>

definition recs_ok :: "bps_context \<Rightarrow> bool" where
  "recs_ok c \<longleftrightarrow> list_all rec_ok (comm_time c) \<and>
     (\<forall>k per_op. part_comm_time c k = Some per_op \<longrightarrow>
        dom per_op \<noteq> {} \<and> (\<forall>ty q. per_op ty = Some q \<longrightarrow> q \<noteq> [] \<and> list_all rec_ok q))"

definition part_events :: "bps_context \<Rightarrow> (u64 \<Rightarrow> queue_type list) \<Rightarrow> u64 list \<Rightarrow> comm_time_rec list" where
  "part_events c types parts =
     concat (map (\<lambda>k. concat (map (\<lambda>ty. the (the (part_comm_time c k) ty)) (types k))) parts)"

definition context_events :: "trace_order \<Rightarrow> worker \<Rightarrow> string \<Rightarrow> string list" where
  "context_events ord w n =
     (let c = the (ctxs w n)
      in map (event_text c) (comm_time c @ part_events c (types_order ord n) (parts_order ord n)))"

text \<open>The orders enumerate the maps.\<close>

definition enumerates :: "'a list \<Rightarrow> 'a set \<Rightarrow> bool" where
  "enumerates xs A \<longleftrightarrow> distinct xs \<and> set xs = A"

definition order_ok :: "trace_order \<Rightarrow> worker \<Rightarrow> bool" where
  "order_ok ord w \<longleftrightarrow> enumerates (names_order ord) (set (w_name2end w)) \<and>
     (\<forall>n \<in> set (w_name2end w). \<exists>c. ctxs w n = Some c \<and>
        enumerates (parts_order ord n) (dom (part_comm_time c)) \<and>
        (\<forall>k per_op. part_comm_time c k = Some per_op \<longrightarrow> enumerates (types_order ord n k) (dom per_op)))"

subsection \<open>What is written\<close>

lemma EmitTrace_ok: "rec_ok r \<Longrightarrow> EmitTrace r c = Inr (event_text c r)"
proof -
  assume "rec_ok r"
  then have "\<exists>s. EmitTrace r c = Inr s"
    by (auto simp: EmitTrace_def rec_ok_def Let_def vec_get_def all_queue_types_def)
  then show ?thesis by (auto simp: event_text_def)
qed

lemma emit_events_ok:
  "list_all rec_ok rs \<Longrightarrow> emit_events c rs f = Inr (add_lines (map (event_text c) rs) f)"
proof (induction rs arbitrary: f)
  case (Cons r rs)
  obtain first s where f: "f = (first, s)" by (cases f)
  have "(False, s @ (if first then [] else '','' @ nl) @ event_text c r) = add_lines [event_text c r] f"
    by (simp add: f add_lines_def comma_lines_def)
  then show ?case using Cons by (simp add: f EmitTrace_ok add_lines_append)
qed simp

lemma emit_types_ok:
  assumes "distinct tys" and "\<And>ty. ty \<in> set tys \<Longrightarrow> \<exists>q. m ty = Some q \<and> q \<noteq> [] \<and> list_all rec_ok q"
  shows "emit_types c tys (m, f) =
    Inr (m |` (- set tys), add_lines (map (event_text c) (concat (map (\<lambda>ty. the (m ty)) tys))) f)"
  using assms
proof (induction tys arbitrary: m f)
  case (Cons ty tys)
  obtain q where q: "m ty = Some q" "q \<noteq> []" "list_all rec_ok q" using Cons.prems(2) [of ty] by auto
  have e: "map (\<lambda>ty'. the ((m(ty := None)) ty')) tys = map (\<lambda>ty'. the (m ty')) tys"
    using Cons.prems(1) by auto
  have "m(ty := None) |` (- set tys) = m |` (- set (ty # tys))" by (auto simp: restrict_map_def)
  moreover have "emit_types c tys (m(ty := None), g) = Inr (m(ty := None) |` (- set tys),
      add_lines (map (event_text c) (concat (map (\<lambda>ty'. the (m ty')) tys))) g)" for g
    unfolding e [symmetric] using Cons.prems by (intro Cons.IH) auto
  ultimately show ?case using q by (simp add: emit_events_ok add_lines_append)
qed (simp add: restrict_map_def)

lemma emit_parts_ok:
  assumes "distinct ks" and "\<And>k. k \<in> set ks \<Longrightarrow> \<exists>per_op. m k = Some per_op \<and> enumerates (types k) (dom per_op) \<and>
      dom per_op \<noteq> {} \<and> (\<forall>ty q. per_op ty = Some q \<longrightarrow> q \<noteq> [] \<and> list_all rec_ok q)"
  shows "emit_parts c types ks (m, f) =
    Inr (m |` (- set ks), add_lines (map (event_text c)
      (concat (map (\<lambda>k. concat (map (\<lambda>ty. the (the (m k) ty)) (types k))) ks))) f)"
  using assms
proof (induction ks arbitrary: m f)
  case (Cons k ks)
  obtain per_op where p: "m k = Some per_op" "enumerates (types k) (dom per_op)" "dom per_op \<noteq> {}"
    "\<forall>ty q. per_op ty = Some q \<longrightarrow> q \<noteq> [] \<and> list_all rec_ok q" using Cons.prems(2) [of k] by auto
  have e: "map (\<lambda>j. concat (map (\<lambda>ty. the (the ((m(k := None)) j) ty)) (types j))) ks =
      map (\<lambda>j. concat (map (\<lambda>ty. the (the (m j) ty)) (types j))) ks"
    using Cons.prems(1) by auto
  have "m(k := None) |` (- set ks) = m |` (- set (k # ks))" by (auto simp: restrict_map_def)
  moreover have "emit_parts c types ks (m(k := None), g) = Inr (m(k := None) |` (- set ks),
      add_lines (map (event_text c) (concat (map (\<lambda>j. concat (map (\<lambda>ty. the (the (m j) ty)) (types j))) ks))) g)" for g
    unfolding e [symmetric] using Cons.prems by (intro Cons.IH) auto
  moreover have "types k \<noteq> []" using p(2,3) unfolding enumerates_def by (metis list.set(1))
  moreover have "emit_types c (types k) (per_op, f) = Inr (per_op |` (- set (types k)),
      add_lines (map (event_text c) (concat (map (\<lambda>ty. the (per_op ty)) (types k)))) f)"
    using p(2,4) by (intro emit_types_ok) (auto simp: enumerates_def)
  ultimately show ?case using p(1) by (simp add: add_lines_append)
qed (simp add: restrict_map_def)

definition drained :: "bps_context \<Rightarrow> bps_context" where
  "drained c = c\<lparr>comm_time := [], part_comm_time := Map.empty\<rparr>"

lemma emit_context_ok:
  assumes "ctxs w n = Some c" and "recs_ok c"
    and "enumerates (parts_order ord n) (dom (part_comm_time c))"
    and "\<And>k per_op. part_comm_time c k = Some per_op \<Longrightarrow> enumerates (types_order ord n k) (dom per_op)"
  shows "emit_context ord n (w, f) = Inr (set_context n (drained c) w, add_lines (context_events ord w n) f)"
proof -
  have "emit_parts c (types_order ord n) (parts_order ord n) (part_comm_time c, g) =
    Inr (part_comm_time c |` (- set (parts_order ord n)), add_lines (map (event_text c)
      (part_events c (types_order ord n) (parts_order ord n))) g)" for g
    unfolding part_events_def using assms(2-4)
    by (intro emit_parts_ok) (auto simp: enumerates_def recs_ok_def)
  moreover have "part_comm_time c |` (- set (parts_order ord n)) = Map.empty"
    using assms(3) by (auto simp: enumerates_def restrict_map_def)
  moreover have "list_all rec_ok (comm_time c)" using assms(2) by (simp add: recs_ok_def)
  ultimately show ?thesis
    using assms(1) by (simp add: emit_context_def emit_events_ok add_lines_append context_events_def drained_def)
qed

definition drain :: "string list \<Rightarrow> worker \<Rightarrow> worker" where
  "drain ns w = w\<lparr>ctxs := (\<lambda>n. if n \<in> set ns then map_option drained (ctxs w n) else ctxs w n)\<rparr>"

lemma emit_contexts_ok:
  assumes "distinct ns" and "\<And>n. n \<in> set ns \<Longrightarrow> \<exists>c. ctxs w n = Some c \<and> recs_ok c \<and>
      enumerates (parts_order ord n) (dom (part_comm_time c)) \<and>
      (\<forall>k per_op. part_comm_time c k = Some per_op \<longrightarrow> enumerates (types_order ord n k) (dom per_op))"
  shows "emit_contexts ord ns (w, f) = Inr (drain ns w, add_lines (concat (map (context_events ord w) ns)) f)"
  using assms
proof (induction ns arbitrary: w f)
  case Nil
  then show ?case by (simp add: drain_def)
next
  case (Cons n ns)
  obtain c where c: "ctxs w n = Some c" "recs_ok c" "enumerates (parts_order ord n) (dom (part_comm_time c))"
    "\<forall>k per_op. part_comm_time c k = Some per_op \<longrightarrow> enumerates (types_order ord n k) (dom per_op)"
    using Cons.prems(2) [of n] by auto
  let ?w = "set_context n (drained c) w"
  have e: "context_events ord ?w j = context_events ord w j" if "j \<in> set ns" for j
    using that Cons.prems(1) by (auto simp: context_events_def set_context_def)
  have "emit_contexts ord ns (?w, g) = Inr (drain ns ?w, add_lines (concat (map (context_events ord ?w) ns)) g)" for g
    using Cons.prems by (intro Cons.IH) (auto simp: set_context_def)
  moreover have "drain ns ?w = drain (n # ns) w"
    using Cons.prems(1) c(1) by (auto simp: drain_def set_context_def fun_eq_iff)
  moreover have "map (context_events ord ?w) ns = map (context_events ord w) ns" using e by simp
  ultimately show ?case using c by (simp add: emit_context_ok add_lines_append)
qed

subsection \<open>What is recorded can be written\<close>

definition all_recs_ok :: "'z shared_scheme \<Rightarrow> bool" where
  "all_recs_ok s \<longleftrightarrow> (\<forall>n c. ctxs s n = Some c \<longrightarrow> recs_ok c)"

lemma all_recs_ok_set: "all_recs_ok w \<Longrightarrow> recs_ok c \<Longrightarrow> all_recs_ok (set_context n c w)"
  by (auto simp: all_recs_ok_def set_context_def)

lemma all_recs_ok_upd: "all_recs_ok s \<Longrightarrow> recs_ok c \<Longrightarrow> all_recs_ok (s\<lparr>ctxs := (ctxs s)(n \<mapsto> c)\<rparr>)"
  by (auto simp: all_recs_ok_def)

lemma recs_ok_put:
  assumes "recs_ok c" and "q \<noteq> []" and "list_all rec_ok q"
  shows "recs_ok (c\<lparr>part_comm_time := (part_comm_time c)(k \<mapsto> (map_at Map.empty (part_comm_time c) k)(op \<mapsto> q))\<rparr>)"
  using assms by (auto simp: recs_ok_def map_at_def split: option.splits if_splits)

lemma recs_ok_at: "recs_ok c \<Longrightarrow> list_all rec_ok (map_at [] (map_at Map.empty (part_comm_time c) k) op)"
  by (auto simp: recs_ok_def map_at_def split: option.splits)

lemma stage_rec_ok: "rec_ok (BPSCommTime\<lparr>start_t := now, ct_key := key, ct_type := queue_type_value op\<rparr>)"
  by (cases op) (simp_all add: rec_ok_def)

lemma set_last_dur_ok:
  assumes "set_last_dur now rs = Inr rs'" and "list_all rec_ok rs"
  shows "rs' \<noteq> [] \<and> list_all rec_ok rs'"
proof -
  have r: "rs \<noteq> []" "rs' = butlast rs @ [(last rs)\<lparr>dur := now - start_t (last rs)\<rparr>]"
    using assms(1) by (auto simp: set_last_dur_def res_simps)
  then obtain ys y where "rs = ys @ [y]" by (metis append_butlast_last_id)
  then show ?thesis using r assms(2) by (auto simp: rec_ok_def)
qed

lemma recorderTs_recs_ok:
  assumes "recorderTs now t s = Inr s'" and "all_recs_ok s"
  shows "all_recs_ok s'"
proof -
  obtain c where c: "ctxs s (te_context t) = Some c" "recs_ok c"
    using assms by (auto simp: recorderTs_def all_recs_ok_def split: option.splits)
  show ?thesis
  proof (cases "profile_flag c")
    case True
    obtain op ops where "te_queue_list t = op # ops"
      using assms(1) c(1) True by (auto simp: recorderTs_def split: list.splits)
    then have s': "s' = s\<lparr>ctxs := (ctxs s)(te_context t \<mapsto> c\<lparr>part_comm_time := (part_comm_time c)(te_key t \<mapsto>
        (map_at Map.empty (part_comm_time c) (te_key t))(op \<mapsto> map_at [] (map_at Map.empty (part_comm_time c) (te_key t)) op @
          [BPSCommTime\<lparr>start_t := now, ct_key := sint (ucast (te_key t) :: u32), ct_type := queue_type_value op\<rparr>]))\<rparr>)\<rparr>"
      using assms(1) c(1) True by (simp add: recorderTs_def Let_def)
    show ?thesis
      unfolding s' by (intro all_recs_ok_upd recs_ok_put assms(2) c(2)) (simp_all add: recs_ok_at [OF c(2)] stage_rec_ok)
  next
    case False
    then show ?thesis using assms c by (simp add: recorderTs_def)
  qed
qed

lemma record_stage_recs_ok:
  assumes "record_stage now t op w = Inr w'" and "all_recs_ok w"
  shows "all_recs_ok w'"
proof -
  obtain c where c: "ctxs w (te_context t) = Some c" "recs_ok c"
    using assms by (auto simp: record_stage_def all_recs_ok_def split: option.splits)
  then show ?thesis
    using assms set_last_dur_ok [OF _ recs_ok_at [OF c(2)]] recs_ok_put [OF c(2)]
    by (auto simp: record_stage_def Let_def res_simps intro!: all_recs_ok_set split: if_splits)
qed

lemma record_whole_recs_ok:
  assumes "record_whole now n w = Inr w'" and "all_recs_ok w"
  shows "all_recs_ok w'"
proof -
  obtain c where c: "ctxs w n = Some c" "recs_ok c"
    using assms by (auto simp: record_whole_def all_recs_ok_def split: option.splits)
  have "recs_ok (c\<lparr>comm_time := rs\<rparr>)" if "set_last_dur now (comm_time c) = Inr rs" for rs
    using set_last_dur_ok [OF that] c(2) by (simp add: recs_ok_def)
  then show ?thesis
    using assms c by (auto simp: record_whole_def res_simps intro!: all_recs_ok_set split: if_splits)
qed

subsection \<open>Properties\<close>

lemma mset_concat_map: "distinct xs \<Longrightarrow> mset (concat (map f xs)) = (\<Sum>x \<in> set xs. mset (f x))"
  by (induction xs) simp_all

lemma write_traces_lines:
  assumes "order_ok ord w" and "all_recs_ok w"
  shows "write_traces dir ord w = Inr (trace_path dir w,
    trace_head @ comma_lines (concat (map (context_events ord w) (names_order ord))) @ trace_foot,
    drain (w_name2end w) w)"
proof -
  have n: "distinct (names_order ord)" "set (names_order ord) = set (w_name2end w)"
    using assms(1) by (auto simp: order_ok_def enumerates_def)
  have "emit_contexts ord (names_order ord) (w, True, trace_head) = Inr (drain (names_order ord) w,
      add_lines (concat (map (context_events ord w) (names_order ord))) (True, trace_head))"
    using assms n by (intro emit_contexts_ok) (auto simp: order_ok_def all_recs_ok_def)
  moreover have "drain (names_order ord) w = drain (w_name2end w) w" using n(2) by (simp add: drain_def)
  ultimately show ?thesis by (simp add: write_traces_def add_lines_def)
qed

text \<open>
  C36. Writing the traces ends without a failed check, the file holds every record of every
  profiled tensor exactly once, separated by commas, and afterwards the queues of these tensors
  are empty and the rest of the worker is as before; this for every order in which the hash maps
  are iterated.
\<close>

theorem traces_written_once:
  assumes "order_ok ord w" and "all_recs_ok w"
  shows "\<exists>events. (\<forall>n \<in> set (w_name2end w). mset (events n) = mset (comm_time (the (ctxs w n))) +
      (\<Sum>k \<in> dom (part_comm_time (the (ctxs w n))). \<Sum>ty \<in> dom (the (part_comm_time (the (ctxs w n)) k)).
        mset (the (the (part_comm_time (the (ctxs w n)) k) ty)))) \<and>
    write_traces dir ord w = Inr (trace_path dir w,
      trace_head @ comma_lines (concat (map (\<lambda>n. map (event_text (the (ctxs w n))) (events n)) (names_order ord))) @ trace_foot,
      drain (w_name2end w) w)"
proof -
  let ?c = "\<lambda>n. the (ctxs w n)"
  let ?e = "\<lambda>n. comm_time (?c n) @ part_events (?c n) (types_order ord n) (parts_order ord n)"
  have sums: "mset (concat (map f xs)) = (\<Sum>x \<in> A. mset (f x))" if "enumerates xs A" for f :: "'x \<Rightarrow> 'y list" and xs A
    using that by (auto simp: enumerates_def mset_concat_map)
  have "mset (?e n) = mset (comm_time (?c n)) + (\<Sum>k \<in> dom (part_comm_time (?c n)).
      \<Sum>ty \<in> dom (the (part_comm_time (?c n) k)). mset (the (the (part_comm_time (?c n) k) ty)))"
    if "n \<in> set (w_name2end w)" for n
  proof -
    have o: "enumerates (parts_order ord n) (dom (part_comm_time (?c n)))"
      "\<And>k per_op. part_comm_time (?c n) k = Some per_op \<Longrightarrow> enumerates (types_order ord n k) (dom per_op)"
      using assms(1) that by (auto simp: order_ok_def)
    then show ?thesis
      by (simp add: part_events_def sums [OF o(1)] domD) (intro sum.cong refl, auto simp: sums [OF o(2)])
  qed
  then show ?thesis
    using write_traces_lines [OF assms, of dir]
    by (intro exI [of _ ?e]) (simp add: context_events_def [abs_def] Let_def)
qed

definition demo_rec :: comm_time_rec where
  "demo_rec = \<lparr>start_t = 5, dur = 3, ct_end = False, ct_key = 7, ct_type = 6\<rparr>"

definition demo_traced :: worker where
  "demo_traced = initial_worker\<lparr>w_name2end := [''t''],
     ctxs := [''t'' \<mapsto> demo_context\<lparr>profile_flag := True, part_comm_time := [7 \<mapsto> [PUSH \<mapsto> [demo_rec]]]\<rparr>]\<rparr>"

definition demo_order :: trace_order where
  "demo_order = \<lparr>names_order = [''t''], parts_order = (\<lambda>_. [7]), types_order = (\<lambda>_ _. [PUSH])\<rparr>"

lemma demo_traced_ok: "order_ok demo_order demo_traced" "all_recs_ok demo_traced"
  by (auto simp: order_ok_def demo_order_def demo_traced_def enumerates_def all_recs_ok_def recs_ok_def
      demo_rec_def rec_ok_def demo_context_def split: if_splits)

theorem traces_written_once_witness:
  "\<exists>path text. write_traces ''.'' demo_order demo_traced = Inr (path, text, drain [''t''] demo_traced)"
  using traces_written_once [OF demo_traced_ok, of "''.''"] by (auto simp: demo_traced_def)

text \<open>
  What recording does, at the start of a stage, at its end and at the end of a tensor, leaves
  every queue of records in a state the writer accepts: none is empty, and every record names a
  stage that has a log name.
\<close>

theorem recording_keeps_traces:
  assumes "all_recs_ok w"
  shows "(\<forall>w'. recorderTs now t w = Inr w' \<longrightarrow> all_recs_ok w') \<and>
    (\<forall>w'. record_stage now t op w = Inr w' \<longrightarrow> all_recs_ok w') \<and>
    (\<forall>w'. record_whole now n w = Inr w' \<longrightarrow> all_recs_ok w')"
  using assms recorderTs_recs_ok record_stage_recs_ok record_whole_recs_ok by blast

theorem recording_keeps_traces_witness:
  "\<exists>w'. recorderTs 9 (demo_task 7 0 4) demo_traced = Inr w' \<and> all_recs_ok w'"
proof -
  have "\<exists>w'. recorderTs 9 (demo_task 7 0 4) demo_traced = Inr w'"
    by (simp add: recorderTs_def demo_task_def demo_traced_def demo_context_def Let_def)
  then show ?thesis using recording_keeps_traces [OF demo_traced_ok(2), of 9 "demo_task 7 0 4"] by blast
qed

end
