(* ===== verification/Torch_Adapter.thy ===== *)
theory Torch_Adapter
  imports Common_Types
begin

section \<open>The adapter to PyTorch\<close>

text \<open>
  The sources under \<open>torch/\<close>: the handles of asynchronous operations (\<open>handle_manager.cc\<close>), the
  view of a PyTorch tensor (\<open>adapter.cc\<close>), the guard of the current device (\<open>cuda_util.cc\<close>) and
  the events that tell when a gradient has been computed (\<open>ready_event.cc\<close>). The entry points of
  \<open>ops.h\<close> are declared only: \<open>ops.cc\<close> is empty. PyTorch and CUDA are arguments.
\<close>

subsection \<open>Handles\<close>

text \<open>
  \<open>last_handle_\<close> is an atomic \<open>int\<close>: \<open>fetch_add\<close> wraps, the addition to the value it returns
  does not. It is advanced before the mutex is taken; as nobody knows the new handle before the call
  returns, the two steps are one here. \<open>results_\<close> holds a null pointer until the operation is done.
\<close>

record handle_manager =
  last_handle :: u32
  results :: "int \<rightharpoonup> status option"

definition AllocateHandle :: "handle_manager \<Rightarrow> (int \<times> handle_manager) res" where
  "AllocateHandle hm =
     rbind (i32 (sint (last_handle hm) + 1)) (\<lambda>h.
       Inr (h, hm\<lparr>last_handle := last_handle hm + 1, results := (results hm)(h \<mapsto> None)\<rparr>))"

definition MarkDone :: "int \<Rightarrow> status \<Rightarrow> handle_manager \<Rightarrow> handle_manager" where
  "MarkDone h st hm = hm\<lparr>results := (results hm)(h \<mapsto> Some st)\<rparr>"

definition unknown_handle :: "int \<Rightarrow> error" where
  "unknown_handle h = Thrown (''Handle '' @ int_to_string h @ '' was not created or has been cleared.'')"

definition PollHandle :: "int \<Rightarrow> handle_manager \<Rightarrow> bool res" where
  "PollHandle h hm =
     (case results hm h of
        None \<Rightarrow> Inl (unknown_handle h)
      | Some r \<Rightarrow> Inr (\<not> Option.is_none r))"

definition ReleaseHandle :: "int \<Rightarrow> handle_manager \<Rightarrow> (status option \<times> handle_manager) res" where
  "ReleaseHandle h hm =
     (case results hm h of
        None \<Rightarrow> Inl (unknown_handle h)
      | Some r \<Rightarrow> Inr (r, hm\<lparr>results := (results hm)(h := None)\<rparr>))"

text \<open>
  What the threads do with the manager, one call after the other under its mutex. A call that
  throws leaves the manager as it is; an overflow of the counter ends everything.
\<close>

datatype handle_op = Allocate | Mark int status | Poll int | Release int

definition caught :: "('a \<times> 's) res \<Rightarrow> 's \<Rightarrow> 's res" where
  "caught r s = (case r of Inr (_, s') \<Rightarrow> Inr s' | Inl (Thrown _) \<Rightarrow> Inr s | Inl e \<Rightarrow> Inl e)"

fun handle_call :: "handle_op \<Rightarrow> handle_manager \<Rightarrow> handle_manager res" where
  "handle_call Allocate hm = caught (AllocateHandle hm) hm"
| "handle_call (Mark h st) hm = Inr (MarkDone h st hm)"
| "handle_call (Poll h) hm = caught (rbind (PollHandle h hm) (\<lambda>b. Inr (b, hm))) hm"
| "handle_call (Release h) hm = caught (ReleaseHandle h hm) hm"

fun handle_calls :: "handle_op list \<Rightarrow> handle_manager \<Rightarrow> handle_manager res" where
  "handle_calls [] hm = Inr hm"
| "handle_calls (c # cs) hm = rbind (handle_call c hm) (handle_calls cs)"

subsection \<open>Tensors and status\<close>

datatype scalar_type = kByte | kChar | kShort | kInt | kLong | kHalf | kFloat | kDouble | kOther

record torch_tensor =
  tt_scalar_type :: scalar_type
  tt_sizes :: "int list"
  tt_data_ptr :: nat
  tt_element_size :: int
  tt_numel :: int

definition torch_dtype :: "torch_tensor \<Rightarrow> data_type res" where
  "torch_dtype t =
     (case tt_scalar_type t of
        kByte \<Rightarrow> Inr BYTEPS_UINT8
      | kChar \<Rightarrow> Inr BYTEPS_INT8
      | kInt \<Rightarrow> Inr BYTEPS_INT32
      | kLong \<Rightarrow> Inr BYTEPS_INT64
      | kHalf \<Rightarrow> Inr BYTEPS_FLOAT16
      | kFloat \<Rightarrow> Inr BYTEPS_FLOAT32
      | kDouble \<Rightarrow> Inr BYTEPS_FLOAT64
      | _ \<Rightarrow> Inl (Thrown ''Invalid or unsupported tensor type.''))"

fun shape_loop :: "tensor_shape \<Rightarrow> int list \<Rightarrow> tensor_shape" where
  "shape_loop sh [] = sh"
| "shape_loop sh (d # ds) = shape_loop (AddDim sh d) ds"

definition torch_shape :: "torch_tensor \<Rightarrow> tensor_shape" where
  "torch_shape t = shape_loop [] (tt_sizes t)"

definition torch_data :: "torch_tensor \<Rightarrow> nat" where
  "torch_data t = tt_data_ptr t"

definition torch_size :: "torch_tensor \<Rightarrow> int res" where
  "torch_size t =
     (let n = tt_element_size t * tt_numel t
      in check (- (2 ^ 63) \<le> n \<and> n < 2 ^ 63) (Undefined ''int64 overflow'') (Inr n))"

text \<open>The class of the exception stands before its text.\<close>

definition ThrowIfError :: "status \<Rightarrow> unit res" where
  "ThrowIfError s =
     (case status_kind s of
        OK \<Rightarrow> Inr ()
      | PRECONDITION_ERROR \<Rightarrow> Inl (Thrown (''logic_error: '' @ status_reason s))
      | ABORTED \<Rightarrow> Inl (Thrown (''runtime_error: '' @ status_reason s))
      | INVALID_ARGUMENT \<Rightarrow> Inl (Thrown (''invalid_argument: '' @ status_reason s))
      | _ \<Rightarrow> Inl (Thrown (''runtime_error: '' @ status_reason s)))"

subsection \<open>The guard of the current device\<close>

text \<open>
  CUDA keeps a current device per thread. A call may fail; then the checking macros throw. The
  thread's device, the events of the pool and the events CUDA has handed out are the state; the
  functions of the CUDA library are asked through \<open>cuda_calls\<close>.
\<close>

datatype cuda_call = GetDevice | SetDevice int | EventCreate | RecordEvent nat int

record torch_build =
  have_cuda :: bool
  cuda_ok :: "cuda_call \<Rightarrow> bool"

definition cuda_check :: "torch_build \<Rightarrow> cuda_call \<Rightarrow> 'a res \<Rightarrow> 'a res" where
  "cuda_check b c r = check (cuda_ok b c) (Thrown ''CUDA error'') r"

text \<open>The constructor gives \<open>restore_device_\<close> and the current device.\<close>

definition with_device :: "torch_build \<Rightarrow> int \<Rightarrow> int \<Rightarrow> (int \<times> int) res" where
  "with_device b device cur =
     (if device = CPU_DEVICE_ID then Inr (CPU_DEVICE_ID, cur)
      else if have_cuda b
      then cuda_check b GetDevice (cuda_check b (SetDevice device) (Inr (cur, device)))
      else Inl (Thrown ''Internal error. Requested device context manager with GPU device but not compiled with CUDA.''))"

text \<open>A destructor that throws ends the process.\<close>

definition leave_device :: "torch_build \<Rightarrow> int \<Rightarrow> int \<Rightarrow> int res" where
  "leave_device b restore cur =
     (if have_cuda b \<and> restore \<noteq> CPU_DEVICE_ID
      then check (cuda_ok b (SetDevice restore)) (CheckFailed ''std::terminate'') (Inr restore)
      else Inr cur)"

subsection \<open>Ready events\<close>

type_synonym event_pool = "int \<rightharpoonup> nat list"

record ready_event =
  re_device :: int
  re_event :: nat

text \<open>
  The event comes from the device's queue in the registry, or is made; under the mutex of the
  registry. The second part of the result is the registry afterwards, also when CUDA fails.
\<close>

definition take_event :: "torch_build \<Rightarrow> nat \<Rightarrow> int \<Rightarrow> event_pool \<Rightarrow> nat res \<times> event_pool" where
  "take_event b fresh device pool =
     (case map_at [] pool device of
        e # es \<Rightarrow> (Inr e, pool(device \<mapsto> es))
      | [] \<Rightarrow> (cuda_check b EventCreate (Inr fresh), pool(device \<mapsto> [])))"

text \<open>
  The constructor: guard the device, take an event, record it on the current stream. When a step
  throws, the guard is left and the object, which was never complete, has no destructor call. The
  result is the object, the thread's device and the registry.
\<close>

definition TorchReadyEvent :: "torch_build \<Rightarrow> nat \<Rightarrow> int \<Rightarrow> int \<Rightarrow> int \<Rightarrow> event_pool \<Rightarrow>
    (ready_event res \<times> int \<times> event_pool) res" where
  "TorchReadyEvent b fresh stream device cur pool =
     check (device \<noteq> CPU_DEVICE_ID) (CheckFailed ''device_ != CPU_DEVICE_ID'')
       (case with_device b device cur of
          Inl e \<Rightarrow> Inr (Inl e, cur, pool)
        | Inr (restore, dev) \<Rightarrow>
            let (r, pool') = take_event b fresh device pool;
                r' = rbind r (\<lambda>e. cuda_check b (RecordEvent e stream)
                       (Inr \<lparr>re_device = device, re_event = e\<rparr>))
            in rbind (leave_device b restore dev) (\<lambda>cur'. Inr (r', cur', pool')))"

definition destroy_event :: "ready_event \<Rightarrow> event_pool \<Rightarrow> event_pool" where
  "destroy_event re pool = pool(re_device re \<mapsto> map_at [] pool (re_device re) @ [re_event re])"

datatype cuda_status = CudaSuccess | CudaErrorNotReady | CudaError string

definition event_ready :: "(nat \<Rightarrow> cuda_status) \<Rightarrow> ready_event \<Rightarrow> bool res" where
  "event_ready query re =
     (case query (re_event re) of
        CudaErrorNotReady \<Rightarrow> Inr False
      | CudaSuccess \<Rightarrow> Inr True
      | CudaError s \<Rightarrow> Inl (Thrown s))"

text \<open>A null pointer for the CPU.\<close>

definition RecordReadyEvent :: "torch_build \<Rightarrow> nat \<Rightarrow> int \<Rightarrow> int \<Rightarrow> int \<Rightarrow> event_pool \<Rightarrow>
    (ready_event option res \<times> int \<times> event_pool) res" where
  "RecordReadyEvent b fresh stream device cur pool =
     (if device = CPU_DEVICE_ID then Inr (Inr None, cur, pool)
      else if have_cuda b
      then rbind (TorchReadyEvent b fresh stream device cur pool) (\<lambda>(r, cur', pool').
             Inr (rbind r (\<lambda>re. Inr (Some re)), cur', pool'))
      else Inr (Inl (Thrown ''Internal error. Requested ReadyEvent with GPU device but not compiled with CUDA.''), cur, pool))"

subsection \<open>Handles: lemmas\<close>

lemma sint_succ:
  fixes w :: u32
  assumes "sint w + 1 < 2 ^ 31"
  shows "sint (w + 1) = sint w + 1"
proof -
  have "- (2 ^ 31) \<le> sint w" using sint_greater_eq [of w] by simp
  then have "signed_take_bit 31 (sint w + 1) = sint w + 1" using assms by (intro signed_take_bit_int_eq_self) simp_all
  moreover have "sint (of_int (sint w + 1) :: u32) = signed_take_bit 31 (sint w + 1)" unfolding sint_sbintrunc' by simp
  ultimately show ?thesis by simp
qed

lemma AllocateHandle_Inr:
  assumes "AllocateHandle hm = Inr (h, hm')"
  shows "h = sint (last_handle hm) + 1" "sint (last_handle hm') = h" "results hm' = (results hm)(h \<mapsto> None)"
proof -
  have h: "h = sint (last_handle hm) + 1" "h < 2 ^ 31"
    "hm' = hm\<lparr>last_handle := last_handle hm + 1, results := (results hm)(h \<mapsto> None)\<rparr>"
    using assms by (auto simp: AllocateHandle_def res_simps)
  then show "h = sint (last_handle hm) + 1" "sint (last_handle hm') = h" "results hm' = (results hm)(h \<mapsto> None)"
    using sint_succ [of "last_handle hm"] by simp_all
qed

text \<open>The last status a sequence of calls stores for a handle.\<close>

fun last_mark :: "int \<Rightarrow> handle_op list \<Rightarrow> status option \<Rightarrow> status option" where
  "last_mark h [] s = s"
| "last_mark h (Mark i st # cs) s = last_mark h cs (if i = h then Some st else s)"
| "last_mark h (_ # cs) s = last_mark h cs s"

lemma handle_call_keeps:
  assumes "handle_call c hm = Inr hm'" and "c \<noteq> Release h" and "h \<le> sint (last_handle hm)"
    and "results hm h = Some s"
  shows "h \<le> sint (last_handle hm') \<and> results hm' h = Some (last_mark h [c] s)"
proof (cases c)
  case Allocate
  then obtain i where "AllocateHandle hm = Inr (i, hm')"
    using assms(1) by (auto simp: caught_def AllocateHandle_def i32_def split: sum.splits error.splits if_splits)
  from AllocateHandle_Inr [OF this] show ?thesis using Allocate assms(3,4) by simp
next
  case (Release i)
  then show ?thesis using assms
    by (auto simp: caught_def ReleaseHandle_def unknown_handle_def split: option.splits)
next
  case (Poll i)
  then show ?thesis using assms
    by (auto simp: caught_def PollHandle_def unknown_handle_def split: option.splits)
qed (use assms in \<open>auto simp: MarkDone_def\<close>)

lemma last_mark_Cons: "last_mark h (c # cs) s = last_mark h cs (last_mark h [c] s)"
  by (cases c) simp_all

lemma handle_calls_keep:
  assumes "handle_calls cs hm = Inr hm'" and "Release h \<notin> set cs" and "h \<le> sint (last_handle hm)"
    and "results hm h = Some s"
  shows "results hm' h = Some (last_mark h cs s)"
  using assms
proof (induction cs arbitrary: hm s)
  case (Cons c cs)
  then obtain hm1 where c: "handle_call c hm = Inr hm1" "handle_calls cs hm1 = Inr hm'" by (auto simp: res_simps)
  have "h \<le> sint (last_handle hm1) \<and> results hm1 h = Some (last_mark h [c] s)"
  proof (rule handle_call_keeps [OF c(1) _ Cons.prems(3,4)])
    show "c \<noteq> Release h" using Cons.prems(2) by auto
  qed
  moreover have "Release h \<notin> set cs" using Cons.prems(2) by simp
  ultimately show ?case unfolding last_mark_Cons [of h c cs] using Cons.IH [OF c(2)] by blast
qed simp

lemma last_mark_some: "last_mark h cs s \<noteq> None \<longleftrightarrow> s \<noteq> None \<or> (\<exists>st. Mark h st \<in> set cs)"
proof (induction cs arbitrary: s)
  case (Cons c cs)
  then show ?case by (cases c) auto
qed simp

subsection \<open>Ready events: lemmas\<close>

text \<open>
  All threads together: the registry, the live objects, and for every event CUDA has made the
  device it belongs to. CUDA never hands out an event twice, since the code destroys none.
\<close>

record event_world =
  ew_pool :: event_pool
  ew_live :: "ready_event list"
  ew_home :: "nat \<rightharpoonup> int"

definition no_events :: event_world where
  "no_events = \<lparr>ew_pool = Map.empty, ew_live = [], ew_home = Map.empty\<rparr>"

text \<open>A call that fails may still have made an event; then it is in nobody's hands.\<close>

inductive event_step :: "torch_build \<Rightarrow> event_world \<Rightarrow> event_world \<Rightarrow> bool" for b :: torch_build where
  ev_record: "fresh \<notin> dom (ew_home s) \<Longrightarrow>
     RecordReadyEvent b fresh stream device cur (ew_pool s) = Inr (Inr (Some re), cur', pool') \<Longrightarrow>
     event_step b s (s\<lparr>ew_pool := pool', ew_live := re # ew_live s, ew_home := (ew_home s)(fresh \<mapsto> device)\<rparr>)"
| ev_failed: "fresh \<notin> dom (ew_home s) \<Longrightarrow>
     RecordReadyEvent b fresh stream device cur (ew_pool s) = Inr (Inl e, cur', pool') \<Longrightarrow>
     event_step b s (s\<lparr>ew_pool := pool', ew_home := (ew_home s)(fresh \<mapsto> device)\<rparr>)"
| ev_destroy: "re \<in> set (ew_live s) \<Longrightarrow>
     event_step b s (s\<lparr>ew_pool := destroy_event re (ew_pool s), ew_live := remove1 re (ew_live s)\<rparr>)"

definition events_ok :: "event_world \<Rightarrow> bool" where
  "events_ok s \<longleftrightarrow> distinct (map re_event (ew_live s)) \<and>
     (\<forall>d. distinct (map_at [] (ew_pool s) d) \<and>
        (\<forall>e \<in> set (map_at [] (ew_pool s) d). ew_home s e = Some d \<and> e \<notin> re_event ` set (ew_live s))) \<and>
     (\<forall>re \<in> set (ew_live s). ew_home s (re_event re) = Some (re_device re))"

lemma take_event_cases:
  assumes "take_event b fresh device pool = (r, pool')"
  obtains e es where "map_at [] pool device = e # es" "r = Inr e" "pool' = pool(device \<mapsto> es)"
  | "map_at [] pool device = []" "r = cuda_check b EventCreate (Inr fresh)" "pool' = pool(device \<mapsto> [])"
  using assms by (auto simp: take_event_def split: list.splits)

text \<open>What recording does to the registry, and where the event of a new object comes from.\<close>

lemma RecordReadyEvent_pool:
  assumes "RecordReadyEvent b fresh stream device cur pool = Inr (r, cur', pool')"
  obtains "pool' = pool" "\<forall>re. r \<noteq> Inr (Some re)"
  | r0 where "take_event b fresh device pool = (r0, pool')"
      "\<forall>re. r = Inr (Some re) \<longrightarrow> re_device re = device \<and> r0 = Inr (re_event re)"
proof (cases "device \<noteq> CPU_DEVICE_ID \<and> have_cuda b \<and> (\<exists>x. with_device b device cur = Inr x)")
  case True
  then obtain restore dev where w: "with_device b device cur = Inr (restore, dev)" by auto
  obtain r0 p where t: "take_event b fresh device pool = (r0, p)" by fastforce
  have "pool' = p" "\<forall>re. r = Inr (Some re) \<longrightarrow> re_device re = device \<and> r0 = Inr (re_event re)"
    using assms True w t
    by (auto simp: RecordReadyEvent_def TorchReadyEvent_def cuda_check_def res_simps Let_def split: if_splits)
  then show ?thesis using that(2) t by blast
next
  case False
  then show ?thesis using assms that(1)
    by (auto simp: RecordReadyEvent_def TorchReadyEvent_def res_simps split: if_splits sum.splits)
qed

lemma events_ok_take:
  assumes "events_ok s" and "fresh \<notin> dom (ew_home s)" and "take_event b fresh device (ew_pool s) = (r0, pool')"
  shows "events_ok (s\<lparr>ew_pool := pool', ew_home := (ew_home s)(fresh \<mapsto> device)\<rparr>)"
    and "r0 = Inr (re_event re) \<Longrightarrow> re_device re = device \<Longrightarrow>
      events_ok (s\<lparr>ew_pool := pool', ew_live := re # ew_live s, ew_home := (ew_home s)(fresh \<mapsto> device)\<rparr>)"
proof -
  have n: "fresh \<notin> set (map_at [] (ew_pool s) d)" "fresh \<notin> re_event ` set (ew_live s)" for d
    using assms(1,2) by (auto simp: events_ok_def dom_def)
  have q: "distinct (map_at [] (ew_pool s) d)"
    "x \<in> set (map_at [] (ew_pool s) d) \<Longrightarrow> ew_home s x = Some d \<and> x \<notin> re_event ` set (ew_live s)" for d x
    using assms(1) by (auto simp: events_ok_def)
  have l: "distinct (map re_event (ew_live s))" "x \<in> set (ew_live s) \<Longrightarrow> ew_home s (re_event x) = Some (re_device x)" for x
    using assms(1) by (auto simp: events_ok_def)
  have p: "distinct (map_at [] pool' d)" "set (map_at [] pool' d) \<subseteq> set (map_at [] (ew_pool s) d)" for d
    using assms(3) q(1) [of d] by (auto simp: map_at_upd split: if_splits elim!: take_event_cases)
  then have h: "x \<in> set (map_at [] pool' d) \<Longrightarrow>
      ((ew_home s)(fresh \<mapsto> device)) x = Some d \<and> x \<notin> re_event ` set (ew_live s)" for d x
    using q(2) [of x d] n(1) [of d] by (metis fun_upd_other subset_iff)
  have l2: "x \<in> set (ew_live s) \<Longrightarrow> ((ew_home s)(fresh \<mapsto> device)) (re_event x) = Some (re_device x)" for x
    using l(2) n(2) by (metis fun_upd_other imageI)
  show "events_ok (s\<lparr>ew_pool := pool', ew_home := (ew_home s)(fresh \<mapsto> device)\<rparr>)"
    unfolding events_ok_def using p h l(1) l2 by simp
  assume re: "r0 = Inr (re_event re)" "re_device re = device"
  have e: "re_event re \<notin> re_event ` set (ew_live s) \<and> ((ew_home s)(fresh \<mapsto> device)) (re_event re) = Some device \<and>
      (\<forall>d. re_event re \<notin> set (map_at [] pool' d))"
    using assms(3)
  proof (rule take_event_cases)
    fix e es assume t: "map_at [] (ew_pool s) device = e # es" "r0 = Inr e" "pool' = (ew_pool s)(device \<mapsto> es)"
    have e: "ew_home s e = Some device" "e \<notin> re_event ` set (ew_live s)" "e \<notin> set es"
      using q(1) [of device] q(2) [of e device] t(1) by auto
    then have "e \<notin> set (map_at [] pool' d)" for d using q(2) [of e d] t(3) by (auto simp: map_at_upd)
    moreover have "e \<noteq> fresh" using e(1) assms(2) by auto
    ultimately show ?thesis using e t(2) re(1) by simp
  next
    assume t: "map_at [] (ew_pool s) device = []" "r0 = cuda_check b EventCreate (Inr fresh)" "pool' = (ew_pool s)(device \<mapsto> [])"
    then have "re_event re = fresh" using re by (simp add: cuda_check_def check_def split: if_splits)
    then show ?thesis using n p(2) by auto
  qed
  then show "events_ok (s\<lparr>ew_pool := pool', ew_live := re # ew_live s, ew_home := (ew_home s)(fresh \<mapsto> device)\<rparr>)"
    unfolding events_ok_def using p(1) h l(1) l2 re(2) by auto
qed

lemma events_ok_home:
  "events_ok s \<Longrightarrow> fresh \<notin> dom (ew_home s) \<Longrightarrow> events_ok (s\<lparr>ew_home := (ew_home s)(fresh \<mapsto> device)\<rparr>)"
  by (auto simp: events_ok_def dom_def)

lemma event_step_ok: "event_step b s s' \<Longrightarrow> events_ok s \<Longrightarrow> events_ok s'"
proof (induction rule: event_step.induct)
  case (ev_record fresh s stream device cur re cur' pool')
  from ev_record(2) show ?case
    by (rule RecordReadyEvent_pool) (use ev_record events_ok_take in auto)
next
  case (ev_failed fresh s stream device cur e cur' pool')
  from ev_failed(2) show ?case
    by (rule RecordReadyEvent_pool) (use ev_failed events_ok_take events_ok_home in auto)
next
  case (ev_destroy re s)
  let ?p = "destroy_event re (ew_pool s)"
  have d: "distinct (map re_event (ew_live s))" using ev_destroy(2) by (simp add: events_ok_def)
  then have "set (remove1 re (ew_live s)) = set (ew_live s) - {re}" by (simp add: distinct_map)
  then have l: "re_event ` set (remove1 re (ew_live s)) = re_event ` set (ew_live s) - {re_event re}"
    using d ev_destroy(1) by (auto simp: distinct_map inj_on_def)
  have q: "map_at [] ?p x = (if x = re_device re then map_at [] (ew_pool s) x @ [re_event re] else map_at [] (ew_pool s) x)" for x
    by (simp add: destroy_event_def map_at_upd)
  have h: "ew_home s (re_event re) = Some (re_device re)" "re_event re \<notin> set (map_at [] (ew_pool s) x)" for x
    using ev_destroy by (auto simp: events_ok_def)
  have "distinct (map re_event (remove1 re (ew_live s)))"
    using d by (simp add: distinct_map distinct_remove1 inj_on_diff)
  then show ?case using ev_destroy(2) h l q
    unfolding events_ok_def by (auto dest: notin_set_remove1)
qed

text \<open>The thread's device is the same afterwards, on the error paths as well.\<close>

lemma device_restored:
  assumes "RecordReadyEvent b fresh stream device cur pool = Inr (r, cur', pool')" and "cur \<noteq> CPU_DEVICE_ID"
  shows "cur' = cur"
  using assms
  by (auto simp: RecordReadyEvent_def TorchReadyEvent_def with_device_def leave_device_def cuda_check_def
      check_def Let_def rbind_eq_Inr split: if_splits sum.splits prod.splits)

lemma events_ok_run: "(event_step b)\<^sup>*\<^sup>* no_events s \<Longrightarrow> events_ok s"
proof (induction rule: rtranclp_induct)
  case base
  then show ?case by (simp add: events_ok_def no_events_def map_at_def)
next
  case (step s s')
  then show ?case using event_step_ok by blast
qed

subsection \<open>Properties\<close>

text \<open>
  A handle is in use from its allocation to its release: whatever other calls are made in
  between, for this handle and for others, polling it does not throw and tells whether a status
  has been stored, releasing it returns the last status stored, and afterwards it is unknown.
\<close>

theorem handle_lifecycle:
  assumes "AllocateHandle hm = Inr (h, hm1)" and "handle_calls cs hm1 = Inr hm2" and "Release h \<notin> set cs"
  shows "PollHandle h hm2 = Inr (\<exists>st. Mark h st \<in> set cs) \<and>
    (\<exists>hm3. ReleaseHandle h hm2 = Inr (last_mark h cs None, hm3) \<and>
      PollHandle h hm3 = Inl (unknown_handle h) \<and> ReleaseHandle h hm3 = Inl (unknown_handle h))"
proof -
  have "results hm2 h = Some (last_mark h cs None)"
    using AllocateHandle_Inr [OF assms(1)] by (intro handle_calls_keep [OF assms(2,3)]) simp_all
  moreover have "last_mark h cs None \<noteq> None \<longleftrightarrow> (\<exists>st. Mark h st \<in> set cs)"
    using last_mark_some [of h cs None] by blast
  ultimately show ?thesis by (auto simp: PollHandle_def ReleaseHandle_def Option.is_none_def)
qed

definition no_handles :: handle_manager where
  "no_handles = \<lparr>last_handle = 0, results = Map.empty\<rparr>"

theorem handle_lifecycle_witness:
  "\<exists>hm2. handle_calls [Allocate, Mark 2 Status_OK, Release 2, Mark 1 Status_OK] (snd (projr (AllocateHandle no_handles))) = Inr hm2 \<and>
     PollHandle 1 hm2 = Inr True"
proof -
  have a: "AllocateHandle no_handles = Inr (1, \<lparr>last_handle = 1, results = [1 \<mapsto> None]\<rparr>)"
    by (simp add: AllocateHandle_def no_handles_def i32_def)
  obtain hm2 where h: "handle_calls [Allocate, Mark 2 Status_OK, Release 2, Mark 1 Status_OK]
      \<lparr>last_handle = 1, results = [1 \<mapsto> None]\<rparr> = Inr hm2"
    by (simp add: AllocateHandle_def i32_def caught_def MarkDone_def ReleaseHandle_def)
  from handle_lifecycle [OF a h] show ?thesis using a h by auto
qed

text \<open>
  C37. However events are recorded, fail to be recorded and are destroyed, no two live events
  share a CUDA event, none of theirs is in the registry to be taken again, and each belongs to the
  device it was recorded for.
\<close>

theorem ready_events_exclusive:
  assumes "(event_step b)\<^sup>*\<^sup>* no_events s"
  shows "distinct (map re_event (ew_live s)) \<and>
    (\<forall>re \<in> set (ew_live s). ew_home s (re_event re) = Some (re_device re) \<and>
       (\<forall>d. re_event re \<notin> set (map_at [] (ew_pool s) d)))"
  using events_ok_run [OF assms] by (auto simp: events_ok_def)

theorem ready_events_exclusive_witness:
  "\<exists>s. (event_step \<lparr>have_cuda = True, cuda_ok = (\<lambda>_. True)\<rparr>)\<^sup>*\<^sup>* no_events s \<and> length (ew_live s) = 1 \<and>
     distinct (map re_event (ew_live s))"
proof -
  let ?b = "\<lparr>have_cuda = True, cuda_ok = (\<lambda>_. True)\<rparr>"
  let ?s = "no_events\<lparr>ew_pool := [3 \<mapsto> []], ew_live := [\<lparr>re_device = 3, re_event = 8\<rparr>], ew_home := [8 \<mapsto> 3]\<rparr>"
  have "RecordReadyEvent ?b 8 0 3 1 Map.empty = Inr (Inr (Some \<lparr>re_device = 3, re_event = 8\<rparr>), 1, [3 \<mapsto> []])"
    by (simp add: RecordReadyEvent_def TorchReadyEvent_def with_device_def leave_device_def take_event_def
        cuda_check_def CPU_DEVICE_ID_def map_at_def Let_def)
  then have "event_step ?b no_events ?s"
    using ev_record [of 8 no_events ?b 0 3 1] by (simp add: no_events_def)
  then have r: "(event_step ?b)\<^sup>*\<^sup>* no_events ?s" by (rule r_into_rtranclp)
  show ?thesis using ready_events_exclusive [OF r] r by (intro exI [of _ ?s]) (simp add: no_events_def)
qed

text \<open>
  What PyTorch documents of its tensors: the size of an element and the number of elements; no
  dimension is negative, and a tensor with a dimension of zero is legal and empty.
\<close>

fun scalar_size :: "scalar_type \<Rightarrow> int" where
  "scalar_size kByte = 1"
| "scalar_size kChar = 1"
| "scalar_size kShort = 2"
| "scalar_size kInt = 4"
| "scalar_size kLong = 8"
| "scalar_size kHalf = 2"
| "scalar_size kFloat = 4"
| "scalar_size kDouble = 8"
| "scalar_size kOther = 1"

definition torch_sound :: "torch_tensor \<Rightarrow> bool" where
  "torch_sound t \<longleftrightarrow> tt_element_size t = scalar_size (tt_scalar_type t) \<and>
     tt_numel t = prod_list (tt_sizes t) \<and> (\<forall>n \<in> set (tt_sizes t). 0 \<le> n)"

text \<open>The dimensions that are not zero: their product bounds every intermediate product.\<close>

definition nonzero_dims :: "int list \<Rightarrow> int list" where
  "nonzero_dims ds = filter (\<lambda>d. d \<noteq> 0) ds"

lemma nonzero_dims_pos: "\<forall>d \<in> set ds. 0 \<le> d \<Longrightarrow> 1 \<le> prod_list (nonzero_dims ds)" for ds :: "int list"
proof (induction ds)
  case (Cons d ds)
  then have p: "1 \<le> prod_list (nonzero_dims ds)" by simp
  show ?case
  proof (cases "d = 0")
    case False
    then have "1 * 1 \<le> d * prod_list (nonzero_dims ds)" using Cons.prems p by (intro mult_mono) auto
    then show ?thesis using False by (simp add: nonzero_dims_def)
  qed (use p in \<open>simp add: nonzero_dims_def\<close>)
qed (simp add: nonzero_dims_def)

lemma num_elements_loop_prod:
  assumes "\<forall>d \<in> set ds. 0 \<le> d" and "0 \<le> r" and "r * prod_list (nonzero_dims ds) < 2 ^ 63"
  shows "num_elements_loop r ds = Inr (r * prod_list ds)"
  using assms
proof (induction ds arbitrary: r)
  case (Cons d ds)
  have p: "1 \<le> prod_list (nonzero_dims ds)" using Cons.prems(1) nonzero_dims_pos [of ds] by simp
  have r: "0 \<le> r * d" using Cons.prems by simp
  have b: "r * d * prod_list (nonzero_dims ds) < 2 ^ 63"
    using Cons.prems(3) by (cases "d = 0") (simp_all add: nonzero_dims_def mult.assoc)
  have "r * d * 1 \<le> r * d * prod_list (nonzero_dims ds)" using r p by (intro mult_left_mono) auto
  then have "r * d < 2 ^ 63" using b by simp
  moreover have "- (2 ^ 63) \<le> r * d" by (rule order_trans [of _ 0]) (simp, rule r)
  ultimately show ?case using Cons.IH [OF _ r b] Cons.prems by (simp add: mult.assoc)
qed simp

lemma shape_loop_append: "shape_loop sh ds = sh @ ds"
  by (induction ds arbitrary: sh) (simp_all add: AddDim_def)

text \<open>
  C38. The adapter describes a tensor to the core consistently: where PyTorch's size in bytes does
  not overflow, the data type it reports has a length, the shape it reports has the tensor's
  dimensions, and the number of elements of that shape times that length is the size it reports.
  Empty tensors are included, with size zero; of an empty tensor the dimensions other than zero
  must not overflow when they are multiplied, since the loop of the core multiplies them first.
\<close>

theorem torch_size_fits_type:
  assumes "torch_sound t" and "torch_dtype t = Inr d" and "torch_size t = Inr n"
    and "0 \<in> set (tt_sizes t) \<longrightarrow> prod_list (nonzero_dims (tt_sizes t)) < 2 ^ 63"
  shows "\<exists>l e. getDataTypeLength (data_type_value d) = Inr l \<and> num_elements (torch_shape t) = Inr e \<and>
    n = int l * e \<and> dims (torch_shape t) = int (length (tt_sizes t)) \<and> (e = 0 \<longleftrightarrow> 0 \<in> set (tt_sizes t))"
proof -
  have s: "int (projr (getDataTypeLength (data_type_value d))) = tt_element_size t"
    "\<exists>l. getDataTypeLength (data_type_value d) = Inr l" "1 \<le> tt_element_size t"
    using assms(1,2)
    by (cases "tt_scalar_type t"; force simp: torch_sound_def torch_dtype_def getDataTypeLength_def data_type_of_def)+
  have n: "n = tt_element_size t * tt_numel t" "n < 2 ^ 63"
    using assms(3) by (auto simp: torch_size_def Let_def res_simps)
  have p: "tt_numel t = prod_list (tt_sizes t)" "\<forall>n \<in> set (tt_sizes t). 0 \<le> n"
    using assms(1) by (auto simp: torch_sound_def)
  have "prod_list (nonzero_dims (tt_sizes t)) < 2 ^ 63"
  proof (cases "0 \<in> set (tt_sizes t)")
    case False
    then have z: "nonzero_dims (tt_sizes t) = tt_sizes t" by (simp add: nonzero_dims_def filter_id_conv) (metis False)
    then have "0 \<le> tt_numel t" using nonzero_dims_pos [OF p(2)] p(1) by simp
    then have "1 * tt_numel t \<le> tt_element_size t * tt_numel t" using s(3) by (intro mult_right_mono) simp_all
    then show ?thesis using z n p(1) by simp
  qed (use assms(4) in simp)
  then have "num_elements (torch_shape t) = Inr (prod_list (tt_sizes t))"
    using p num_elements_loop_prod [of "tt_sizes t" 1]
    by (simp add: num_elements_def torch_shape_def shape_loop_append)
  then show ?thesis using s n(1) p(1) by (auto simp: dims_def torch_shape_def shape_loop_append prod_list_zero_iff)
qed

theorem torch_size_fits_type_witness:
  "num_elements (torch_shape \<lparr>tt_scalar_type = kHalf, tt_sizes = [3, 5], tt_data_ptr = 0,
     tt_element_size = 2, tt_numel = 15\<rparr>) = Inr 15 \<and>
   num_elements (torch_shape \<lparr>tt_scalar_type = kInt, tt_sizes = [3, 0, 5], tt_data_ptr = 0,
     tt_element_size = 4, tt_numel = 0\<rparr>) = Inr 0"
  using torch_size_fits_type [of "\<lparr>tt_scalar_type = kHalf, tt_sizes = [3, 5], tt_data_ptr = 0,
     tt_element_size = 2, tt_numel = 15\<rparr>" BYTEPS_FLOAT16 30]
    torch_size_fits_type [of "\<lparr>tt_scalar_type = kInt, tt_sizes = [3, 0, 5], tt_data_ptr = 0,
     tt_element_size = 4, tt_numel = 0\<rparr>" BYTEPS_INT32 0]
  by (auto simp: torch_sound_def torch_dtype_def torch_size_def getDataTypeLength_def data_type_of_def nonzero_dims_def)

end
