(* ===== verification/Logging.thy ===== *)
theory Logging
  imports Prelude
begin

section \<open>Log messages\<close>

text \<open>
  \<open>logging.cc\<close>: a message collects its text and is written when it is destroyed, if its level
  reaches the threshold; a fatal one is written always, and the process is aborted. The checks of
  all other parts end in a fatal message: their models stop with \<open>CheckFailed\<close> there. The two
  environment variables are read once; \<open>clock\<close> is the local time as \<open>strftime\<close> prints it, with the
  microseconds.
\<close>

datatype log_level = LEVEL_TRACE | LEVEL_DEBUG | LEVEL_INFO | LEVEL_WARNING | LEVEL_ERROR | LEVEL_FATAL

fun level_value :: "log_level \<Rightarrow> nat" where
  "level_value LEVEL_TRACE = 0"
| "level_value LEVEL_DEBUG = 1"
| "level_value LEVEL_INFO = 2"
| "level_value LEVEL_WARNING = 3"
| "level_value LEVEL_ERROR = 4"
| "level_value LEVEL_FATAL = 5"

definition LOG_LEVELS :: string where
  "LOG_LEVELS = ''TDIWEF''"

datatype log_stream = Cout | Cerr

record log_message =
  log_fname :: string
  log_line :: int
  log_severity :: log_level
  log_str :: string

definition LogMessage :: "string \<Rightarrow> int \<Rightarrow> log_level \<Rightarrow> log_message" where
  "LogMessage f l s = \<lparr>log_fname = f, log_line = l, log_severity = s, log_str = []\<rparr>"

definition LogMessageFatal :: "string \<Rightarrow> int \<Rightarrow> log_message" where
  "LogMessageFatal f l = LogMessage f l LEVEL_FATAL"

text \<open>\<open>std::setw\<close> pads on the left, with blanks unless another character is set.\<close>

definition setw :: "nat \<Rightarrow> string \<Rightarrow> string" where
  "setw n s = replicate (n - length s) CHR '' '' @ s"

definition GenerateLogMessage :: "bool \<Rightarrow> string \<times> nat \<Rightarrow> log_message \<Rightarrow> log_stream \<times> string" where
  "GenerateLogMessage log_time clock m =
     (let os = (if level_value (log_severity m) \<le> level_value LEVEL_INFO then Cout else Cerr);
          head = LOG_LEVELS ! level_value (log_severity m) #
            '' '' @ log_fname m @ '':'' @ int_to_string (log_line m) @ ''] '' @ log_str m @ [CHR 0x0A]
      in (os, if log_time
              then ''['' @ fst clock @ ''.'' @ setw 6 (nat_to_string (snd clock)) @ '': '' @ head
              else ''['' @ head))"

text \<open>\<open>::tolower\<close> in the C locale.\<close>

definition to_lower :: "char \<Rightarrow> char" where
  "to_lower c = (if 65 \<le> (of_char c :: nat) \<and> (of_char c :: nat) \<le> 90 then char_of ((of_char c :: nat) + 32) else c)"

definition ParseLogLevelStr :: "string \<Rightarrow> log_level" where
  "ParseLogLevelStr v =
     (let l = map to_lower v
      in if l = ''trace'' then LEVEL_TRACE
         else if l = ''debug'' then LEVEL_DEBUG
         else if l = ''info'' then LEVEL_INFO
         else if l = ''warning'' then LEVEL_WARNING
         else if l = ''error'' then LEVEL_ERROR
         else if l = ''fatal'' then LEVEL_FATAL
         else LEVEL_WARNING)"

definition MinLogLevelFromEnv :: "environ \<Rightarrow> log_level" where
  "MinLogLevelFromEnv env =
     (case env ''BYTEPS_LOG_LEVEL'' of None \<Rightarrow> LEVEL_WARNING | Some v \<Rightarrow> ParseLogLevelStr v)"

text \<open>\<open>strtol\<close> with base ten: like \<open>atoi\<close>, cut to the range of \<open>long\<close>.\<close>

definition strtol :: "string \<Rightarrow> int" where
  "strtol s =
     (case dropWhile is_space s of
        [] \<Rightarrow> 0
      | c # cs \<Rightarrow>
          let x = (if c = CHR ''-'' then - digits_value (takeWhile is_digit cs)
                   else if c = CHR ''+'' then digits_value (takeWhile is_digit cs)
                   else digits_value (takeWhile is_digit (c # cs)))
          in max (- (2 ^ 63)) (min (2 ^ 63 - 1) x))"

definition LogTimeFromEnv :: "environ \<Rightarrow> bool" where
  "LogTimeFromEnv env =
     (case env ''BYTEPS_LOG_HIDE_TIME'' of
        Some v \<Rightarrow> \<not> 0 < strtol v
      | None \<Rightarrow> True)"

text \<open>What the destructors write. After a fatal message the process is gone.\<close>

definition LogMessage_end :: "environ \<Rightarrow> string \<times> nat \<Rightarrow> log_message \<Rightarrow> (log_stream \<times> string) option" where
  "LogMessage_end env clock m =
     (if level_value (MinLogLevelFromEnv env) \<le> level_value (log_severity m)
      then Some (GenerateLogMessage (LogTimeFromEnv env) clock m)
      else None)"

definition LogMessageFatal_end :: "environ \<Rightarrow> string \<times> nat \<Rightarrow> log_message \<Rightarrow> (log_stream \<times> string) \<times> unit res" where
  "LogMessageFatal_end env clock m =
     (GenerateLogMessage (LogTimeFromEnv env) clock m, Inl (CheckFailed (log_str m)))"

fun level_name :: "log_level \<Rightarrow> string" where
  "level_name LEVEL_TRACE = ''trace''"
| "level_name LEVEL_DEBUG = ''debug''"
| "level_name LEVEL_INFO = ''info''"
| "level_name LEVEL_WARNING = ''warning''"
| "level_name LEVEL_ERROR = ''error''"
| "level_name LEVEL_FATAL = ''fatal''"

lemma level_value_inj: "level_value l = level_value k \<Longrightarrow> l = k"
  by (cases l; cases k) simp_all

lemma Parse_name: "map to_lower v = level_name l \<Longrightarrow> ParseLogLevelStr v = l"
  by (cases l) (simp_all add: ParseLogLevelStr_def)

text \<open>
  A threshold set in the environment, in any mixture of upper and lower case, lets exactly the
  messages of its level and above through; errors, warnings and fatal messages go to the error
  stream.
\<close>

theorem log_threshold:
  assumes "env ''BYTEPS_LOG_LEVEL'' = Some v" and "map to_lower v = level_name l"
  shows "LogMessage_end env clock m =
    (if level_value l \<le> level_value (log_severity m)
     then Some (if level_value (log_severity m) < 3 then Cout else Cerr, snd (GenerateLogMessage (LogTimeFromEnv env) clock m))
     else None)"
  using assms by (auto simp: LogMessage_end_def MinLogLevelFromEnv_def Parse_name GenerateLogMessage_def Let_def)

theorem log_threshold_witness:
  "LogMessage_end [''BYTEPS_LOG_LEVEL'' \<mapsto> ''Error''] ([], 0) (LogMessage ''a.cc'' 1 LEVEL_INFO) = None"
proof -
  have "map to_lower ''Error'' = level_name LEVEL_ERROR" by code_simp
  from log_threshold [OF _ this, of "[''BYTEPS_LOG_LEVEL'' \<mapsto> ''Error'']"] show ?thesis
    by (simp add: LogMessage_def)
qed

end
