(* ===== verification/Thread_Pool.thy ===== *)
theory Thread_Pool
  imports Worker_Global
begin

section \<open>The thread pool\<close>

text \<open>
  \<open>thread_pool.h\<close>: the threads that run the compression and decompression jobs. The rest of the
  development knows the pool as the queue of its jobs, \<open>w_pool\<close>; here are the threads, the mutex and
  the condition variable, the destructor, and the proof that the queue is what the rest may rely on.
  A step is what one thread does while it holds the mutex, or one notification: the code notifies after
  it has released the mutex, so others may step in between. A job is a closure that returns.
\<close>

subsection \<open>State and operations\<close>

text \<open>
  A thread is about to take the mutex and ask the predicate of its wait (\<open>Checking\<close>), blocked in the
  wait until it is notified (\<open>Waiting\<close>), running a job without the mutex, or has returned. The
  destructor has not been called, has set \<open>stop\<close> and not notified yet, or joins the threads.
  \<open>tp_notes\<close> counts the calls of \<open>enqueue\<close> that have pushed their job and not notified yet.
\<close>

datatype 'j pool_worker = Checking | Waiting | Running 'j | Returned

datatype pool_end = Alive | Stopping | Joining

record 'j thread_pool =
  tp_workers :: "'j pool_worker list"
  tp_tasks :: "'j list"
  tp_stop :: bool
  tp_notes :: nat
  tp_end :: pool_end

definition ThreadPool :: "nat \<Rightarrow> 'j thread_pool" where
  "ThreadPool n = \<lparr>tp_workers = replicate n Checking, tp_tasks = [], tp_stop = False, tp_notes = 0, tp_end = Alive\<rparr>"

definition tp_enqueue :: "'j \<Rightarrow> 'j thread_pool \<Rightarrow> 'j thread_pool res" where
  "tp_enqueue j p =
     (if tp_stop p then Inl (Thrown ''enqueue on stopped ThreadPool'')
      else Inr (p\<lparr>tp_tasks := tp_tasks p @ [j], tp_notes := Suc (tp_notes p)\<rparr>))"

text \<open>
  \<open>notify_one\<close> of a call of \<open>enqueue\<close>: it unblocks one of the threads that wait, if there is any; which
  one is up to the system.
\<close>

definition notify_one :: "nat \<Rightarrow> 'j thread_pool \<Rightarrow> 'j thread_pool option" where
  "notify_one i p =
     (if tp_notes p = 0 then None
      else if i < length (tp_workers p) \<and> tp_workers p ! i = Waiting
      then Some (p\<lparr>tp_workers := (tp_workers p)[i := Checking], tp_notes := tp_notes p - 1\<rparr>)
      else if list_all (\<lambda>w. w \<noteq> Waiting) (tp_workers p) then Some (p\<lparr>tp_notes := tp_notes p - 1\<rparr>)
      else None)"

text \<open>
  What a thread does next by itself: ask the predicate under the mutex, and then block, return, or take
  a job; or finish its job. Nothing while it waits to be notified, and after it has returned.
\<close>

definition worker_turn :: "nat \<Rightarrow> 'j thread_pool \<Rightarrow> 'j thread_pool option" where
  "worker_turn i p =
     (if i < length (tp_workers p)
      then case tp_workers p ! i of
             Checking \<Rightarrow>
               if tp_stop p \<or> tp_tasks p \<noteq> []
               then if tp_stop p \<and> tp_tasks p = []
                    then Some (p\<lparr>tp_workers := (tp_workers p)[i := Returned]\<rparr>)
                    else Some (p\<lparr>tp_workers := (tp_workers p)[i := Running (hd (tp_tasks p))],
                                 tp_tasks := tl (tp_tasks p)\<rparr>)
               else Some (p\<lparr>tp_workers := (tp_workers p)[i := Waiting]\<rparr>)
           | Waiting \<Rightarrow> None
           | Running j \<Rightarrow> Some (p\<lparr>tp_workers := (tp_workers p)[i := Checking]\<rparr>)
           | Returned \<Rightarrow> None
      else None)"

text \<open>A condition variable may also wake a thread that nobody notified.\<close>

definition wake_up :: "nat \<Rightarrow> 'j thread_pool \<Rightarrow> 'j thread_pool option" where
  "wake_up i p =
     (if i < length (tp_workers p) \<and> tp_workers p ! i = Waiting
      then Some (p\<lparr>tp_workers := (tp_workers p)[i := Checking]\<rparr>) else None)"

text \<open>
  The destructor sets \<open>stop\<close> under the mutex, notifies all threads that wait, and joins the threads:
  it returns when all have returned.
\<close>

definition stop_pool :: "'j thread_pool \<Rightarrow> 'j thread_pool" where
  "stop_pool p = p\<lparr>tp_stop := True, tp_end := Stopping\<rparr>"

definition unblock :: "'j pool_worker \<Rightarrow> 'j pool_worker" where
  "unblock w = (case w of Waiting \<Rightarrow> Checking | _ \<Rightarrow> w)"

definition notify_all :: "'j thread_pool \<Rightarrow> 'j thread_pool option" where
  "notify_all p =
     (if tp_end p = Stopping then Some (p\<lparr>tp_workers := map unblock (tp_workers p), tp_end := Joining\<rparr>)
      else None)"

definition pool_joined :: "'j thread_pool \<Rightarrow> bool" where
  "pool_joined p \<longleftrightarrow> list_all (\<lambda>w. w = Returned) (tp_workers p)"

subsection \<open>Runs\<close>

datatype 'j pool_event =
    Enqueued 'j | Notified | Started 'j | Finished 'j | Slept | Left | Woken | Stopped | Notified_All

inductive pool_step :: "'j thread_pool \<Rightarrow> 'j pool_event \<Rightarrow> 'j thread_pool \<Rightarrow> bool" where
  add: "tp_enqueue j p = Inr p' \<Longrightarrow> pool_step p (Enqueued j) p'"
| notify: "notify_one i p = Some p' \<Longrightarrow> pool_step p Notified p'"
| start: "worker_turn i p = Some p' \<Longrightarrow> tp_workers p ! i = Checking \<Longrightarrow> tp_workers p' ! i = Running j \<Longrightarrow>
    pool_step p (Started j) p'"
| sleep: "worker_turn i p = Some p' \<Longrightarrow> tp_workers p ! i = Checking \<Longrightarrow> tp_workers p' ! i = Waiting \<Longrightarrow>
    pool_step p Slept p'"
| leave: "worker_turn i p = Some p' \<Longrightarrow> tp_workers p ! i = Checking \<Longrightarrow> tp_workers p' ! i = Returned \<Longrightarrow>
    pool_step p Left p'"
| finish: "worker_turn i p = Some p' \<Longrightarrow> tp_workers p ! i = Running j \<Longrightarrow> pool_step p (Finished j) p'"
| wake: "wake_up i p = Some p' \<Longrightarrow> pool_step p Woken p'"
| stop: "tp_end p = Alive \<Longrightarrow> pool_step p Stopped (stop_pool p)"
| notify_rest: "notify_all p = Some p' \<Longrightarrow> pool_step p Notified_All p'"

inductive_cases pool_stepE: "pool_step p e p'"

inductive pool_run :: "'j thread_pool \<Rightarrow> 'j pool_event list \<Rightarrow> 'j thread_pool \<Rightarrow> bool" where
  pool_run_Nil: "pool_run p [] p"
| pool_run_snoc: "pool_run p es p' \<Longrightarrow> pool_step p' e p'' \<Longrightarrow> pool_run p (es @ [e]) p''"

text \<open>Every turn of a thread is one of the steps.\<close>

lemma worker_turn_cases:
  assumes "worker_turn i p = Some p'"
  obtains (returns) "i < length (tp_workers p)" "tp_workers p ! i = Checking" "tp_stop p" "tp_tasks p = []"
      "p' = p\<lparr>tp_workers := (tp_workers p)[i := Returned]\<rparr>"
  | (takes) j js where "i < length (tp_workers p)" "tp_workers p ! i = Checking" "tp_tasks p = j # js"
      "p' = p\<lparr>tp_workers := (tp_workers p)[i := Running j], tp_tasks := js\<rparr>"
  | (blocks) "i < length (tp_workers p)" "tp_workers p ! i = Checking" "\<not> tp_stop p" "tp_tasks p = []"
      "p' = p\<lparr>tp_workers := (tp_workers p)[i := Waiting]\<rparr>"
  | (ends) j where "i < length (tp_workers p)" "tp_workers p ! i = Running j"
      "p' = p\<lparr>tp_workers := (tp_workers p)[i := Checking]\<rparr>"
  using assms
  by (cases "tp_tasks p") (auto simp: worker_turn_def split: if_splits pool_worker.splits)

lemma notify_one_cases:
  assumes "notify_one i p = Some p'"
  obtains (one) "0 < tp_notes p" "i < length (tp_workers p)" "tp_workers p ! i = Waiting"
      "p' = p\<lparr>tp_workers := (tp_workers p)[i := Checking], tp_notes := tp_notes p - 1\<rparr>"
  | (none) "0 < tp_notes p" "Waiting \<notin> set (tp_workers p)" "p' = p\<lparr>tp_notes := tp_notes p - 1\<rparr>"
  using assms by (auto simp: notify_one_def list_all_iff split: if_splits)

definition enqueued :: "'j pool_event list \<Rightarrow> 'j list" where
  "enqueued es = concat (map (\<lambda>e. case e of Enqueued j \<Rightarrow> [j] | _ \<Rightarrow> []) es)"

definition started :: "'j pool_event list \<Rightarrow> 'j list" where
  "started es = concat (map (\<lambda>e. case e of Started j \<Rightarrow> [j] | _ \<Rightarrow> []) es)"

definition finished :: "'j pool_event list \<Rightarrow> 'j list" where
  "finished es = concat (map (\<lambda>e. case e of Finished j \<Rightarrow> [j] | _ \<Rightarrow> []) es)"

lemmas pool_histories = enqueued_def started_def finished_def

definition jobs_of :: "'j pool_worker \<Rightarrow> 'j multiset" where
  "jobs_of w = (case w of Running j \<Rightarrow> {#j#} | _ \<Rightarrow> {#})"

definition running_jobs :: "'j thread_pool \<Rightarrow> 'j multiset" where
  "running_jobs p = \<Sum>\<^sub># (image_mset jobs_of (mset (tp_workers p)))"

lemma running_update:
  assumes "i < length (tp_workers p)"
  shows "running_jobs (p\<lparr>tp_workers := (tp_workers p)[i := w]\<rparr>) + jobs_of (tp_workers p ! i) = running_jobs p + jobs_of w"
proof -
  have "mset ((tp_workers p)[i := w]) + {#tp_workers p ! i#} = mset (tp_workers p) + {#w#}"
    using assms by (simp add: mset_update)
  then have "\<Sum>\<^sub># (image_mset jobs_of (mset ((tp_workers p)[i := w]) + {#tp_workers p ! i#})) =
      \<Sum>\<^sub># (image_mset jobs_of (mset (tp_workers p) + {#w#}))" by simp
  then show ?thesis by (simp add: running_jobs_def add.commute)
qed

text \<open>
  What holds of every run. The last two are why nobody sleeps through a notification: no thread waits
  once the destructor joins, and while a job is queued a thread is up or a notification is on its way.
\<close>

definition awake :: "'j thread_pool \<Rightarrow> bool" where
  "awake p \<longleftrightarrow> 0 < tp_notes p \<or> (\<exists>w\<in>set (tp_workers p). w \<noteq> Waiting \<and> w \<noteq> Returned)"

definition pool_inv :: "nat \<Rightarrow> 'j pool_event list \<Rightarrow> 'j thread_pool \<Rightarrow> bool" where
  "pool_inv n es p \<longleftrightarrow> length (tp_workers p) = n \<and> enqueued es = started es @ tp_tasks p \<and>
     mset (started es) = mset (finished es) + running_jobs p \<and>
     (Returned \<in> set (tp_workers p) \<longrightarrow> tp_stop p \<and> tp_tasks p = []) \<and>
     (tp_stop p \<longleftrightarrow> tp_end p \<noteq> Alive) \<and>
     (tp_end p = Joining \<longrightarrow> Waiting \<notin> set (tp_workers p)) \<and>
     (0 < n \<and> tp_tasks p \<noteq> [] \<longrightarrow> awake p)"

lemma enqueue_inv:
  "pool_inv n es p \<Longrightarrow> tp_enqueue j p = Inr p' \<Longrightarrow> pool_inv n (es @ [Enqueued j]) p'"
  by (auto simp: pool_inv_def pool_histories tp_enqueue_def running_jobs_def awake_def split: if_splits)

lemma stop_inv: "pool_inv n es p \<Longrightarrow> pool_inv n (es @ [Stopped]) (stop_pool p)"
  by (simp add: pool_inv_def pool_histories stop_pool_def running_jobs_def awake_def)

text \<open>A thread changes what it does: the other threads do not.\<close>

lemma set_updated: "w \<in> set (ws[i := v]) \<Longrightarrow> w = v \<or> w \<in> set ws"
  using set_update_subset_insert[of ws i v] by blast

lemma awake_updated:
  "i < length (tp_workers p) \<Longrightarrow> v \<noteq> Waiting \<Longrightarrow> v \<noteq> Returned \<Longrightarrow> awake (p\<lparr>tp_workers := (tp_workers p)[i := v]\<rparr>)"
  by (auto simp: awake_def intro!: bexI[OF _ set_update_memI])

lemma awake_tasks: "awake (p\<lparr>tp_tasks := js\<rparr>) = awake p"
  by (simp add: awake_def)

lemma worker_inv:
  assumes "pool_inv n es p" and "i < length (tp_workers p)" and "v \<noteq> Waiting" and "v \<noteq> Returned"
    and "started es' = started es @ js" and "tp_tasks p = js @ ts" and "enqueued es' = enqueued es"
    and "mset js + jobs_of (tp_workers p ! i) + mset (finished es) = mset (finished es') + jobs_of v"
  shows "pool_inv n es' (p\<lparr>tp_workers := (tp_workers p)[i := v], tp_tasks := ts\<rparr>)"
proof -
  have "mset (started es') + jobs_of (tp_workers p ! i) =
      mset (finished es') + (running_jobs (p\<lparr>tp_workers := (tp_workers p)[i := v]\<rparr>) + jobs_of (tp_workers p ! i))"
    using assms(1,5,8) running_update[OF assms(2), of v]
    by (simp add: pool_inv_def) (metis (no_types, lifting) add.assoc add.commute)
  then have "mset (started es') = mset (finished es') + running_jobs (p\<lparr>tp_workers := (tp_workers p)[i := v], tp_tasks := ts\<rparr>)"
    by (simp add: add.assoc[symmetric]) (simp add: running_jobs_def)
  moreover have "awake (p\<lparr>tp_workers := (tp_workers p)[i := v], tp_tasks := ts\<rparr>)"
    using awake_updated[OF assms(2-4)] by (simp add: awake_def)
  ultimately show ?thesis using assms(1,3-7) by (auto simp: pool_inv_def dest: set_updated)
qed

lemma start_inv:
  assumes "pool_inv n es p" and "i < length (tp_workers p)" and "tp_workers p ! i = Checking" and "tp_tasks p = j # js"
  shows "pool_inv n (es @ [Started j]) (p\<lparr>tp_workers := (tp_workers p)[i := Running j], tp_tasks := js\<rparr>)"
  by (rule worker_inv[OF assms(1,2), where js = "[j]"]) (use assms in \<open>auto simp: pool_histories jobs_of_def\<close>)

lemma finish_inv:
  assumes "pool_inv n es p" and "i < length (tp_workers p)" and "tp_workers p ! i = Running j"
  shows "pool_inv n (es @ [Finished j]) (p\<lparr>tp_workers := (tp_workers p)[i := Checking]\<rparr>)"
  using worker_inv[OF assms(1,2), where js = "[]" and ts = "tp_tasks p" and v = Checking and es' = "es @ [Finished j]"] assms
  by (auto simp: pool_histories jobs_of_def)

lemma wake_inv:
  assumes "pool_inv n es p" and "i < length (tp_workers p)" and "tp_workers p ! i = Waiting" and "e = Woken \<or> e = Notified"
  shows "pool_inv n (es @ [e]) (p\<lparr>tp_workers := (tp_workers p)[i := Checking]\<rparr>)"
  using worker_inv[OF assms(1,2), where js = "[]" and ts = "tp_tasks p" and v = Checking and es' = "es @ [e]"] assms
  by (auto simp: pool_histories jobs_of_def)

lemma leave_inv:
  assumes "pool_inv n es p" and "i < length (tp_workers p)" and "tp_workers p ! i = Checking" and "tp_stop p" and "tp_tasks p = []"
  shows "pool_inv n (es @ [Left]) (p\<lparr>tp_workers := (tp_workers p)[i := Returned]\<rparr>)"
  using assms running_update[OF assms(2), of Returned]
  by (auto simp: pool_inv_def pool_histories running_jobs_def jobs_of_def dest: set_updated)

lemma sleep_inv:
  assumes "pool_inv n es p" and "i < length (tp_workers p)" and "tp_workers p ! i = Checking" and "\<not> tp_stop p" and "tp_tasks p = []"
  shows "pool_inv n (es @ [Slept]) (p\<lparr>tp_workers := (tp_workers p)[i := Waiting]\<rparr>)"
  using assms running_update[OF assms(2), of Waiting]
  by (auto simp: pool_inv_def pool_histories running_jobs_def jobs_of_def dest: set_updated)

lemma notes_inv: "pool_inv n es (p\<lparr>tp_workers := ws\<rparr>) \<Longrightarrow> \<exists>w\<in>set ws. w \<noteq> Waiting \<and> w \<noteq> Returned \<Longrightarrow>
    pool_inv n es (p\<lparr>tp_workers := ws, tp_notes := k\<rparr>)"
  by (auto simp: pool_inv_def running_jobs_def awake_def)

lemma notify_one_inv:
  assumes inv: "pool_inv n es p" and "notify_one i p = Some p'"
  shows "pool_inv n (es @ [Notified]) p'"
  using assms(2)
proof (cases rule: notify_one_cases)
  case one
  have "pool_inv n (es @ [Notified]) (p\<lparr>tp_workers := (tp_workers p)[i := Checking]\<rparr>)"
    using wake_inv[OF inv one(2,3)] by simp
  then show ?thesis unfolding one(4) by (rule notes_inv) (use one(2) in \<open>auto intro!: bexI[OF _ set_update_memI]\<close>)
next
  case none
  have "\<exists>w\<in>set (tp_workers p). w \<noteq> Waiting \<and> w \<noteq> Returned" if "0 < n" "tp_tasks p \<noteq> []"
  proof -
    have "length (tp_workers p) = n" "Returned \<notin> set (tp_workers p)" using inv that by (auto simp: pool_inv_def)
    with \<open>0 < n\<close> have "hd (tp_workers p) \<in> set (tp_workers p)" by (cases "tp_workers p") auto
    with none(2) \<open>Returned \<notin> _\<close> show ?thesis by metis
  qed
  then show ?thesis using inv none by (auto simp: pool_inv_def pool_histories running_jobs_def awake_def)
qed

lemma unblock_simps [simp]:
  "unblock w = Returned \<longleftrightarrow> w = Returned" "Returned = unblock w \<longleftrightarrow> w = Returned"
  "unblock w \<noteq> Waiting" "Waiting \<noteq> unblock w" "jobs_of (unblock w) = jobs_of w"
  by (cases w; simp add: unblock_def jobs_of_def)+

lemma notify_all_inv:
  assumes "pool_inv n es p" and "notify_all p = Some p'"
  shows "pool_inv n (es @ [Notified_All]) p'"
proof -
  have p': "tp_end p = Stopping" "p' = p\<lparr>tp_workers := map unblock (tp_workers p), tp_end := Joining\<rparr>"
    using assms(2) by (auto simp: notify_all_def split: if_splits)
  have "running_jobs p' = running_jobs p"
    by (simp add: p' running_jobs_def multiset.map_comp comp_def)
  moreover have "awake p \<Longrightarrow> awake p'" by (force simp: awake_def p')
  ultimately show ?thesis using assms(1) by (auto simp: pool_inv_def pool_histories p')
qed

lemma step_inv: "pool_step p e p' \<Longrightarrow> pool_inv n es p \<Longrightarrow> pool_inv n (es @ [e]) p'"
proof (induction rule: pool_step.induct)
  case (start i p p' j)
  from start.hyps(1) show ?case by (cases rule: worker_turn_cases) (use start in \<open>auto intro: start_inv\<close>)
next
  case (sleep i p p')
  from sleep.hyps(1) show ?case by (cases rule: worker_turn_cases) (use sleep in \<open>auto intro: sleep_inv\<close>)
next
  case (leave i p p')
  from leave.hyps(1) show ?case by (cases rule: worker_turn_cases) (use leave in \<open>auto intro: leave_inv\<close>)
next
  case (finish i p p' j)
  from finish.hyps(1) show ?case by (cases rule: worker_turn_cases) (use finish in \<open>auto intro: finish_inv\<close>)
next
  case (wake i p p')
  then show ?case by (auto simp: wake_up_def intro: wake_inv split: if_splits)
qed (simp_all add: enqueue_inv notify_one_inv notify_all_inv stop_inv)

lemma pool_inv_start: "pool_inv n [] (ThreadPool n)"
  by (auto simp: pool_inv_def ThreadPool_def pool_histories running_jobs_def jobs_of_def)

lemma run_inv_from: "pool_run p es' p' \<Longrightarrow> pool_inv n es p \<Longrightarrow> pool_inv n (es @ es') p'"
  by (induction rule: pool_run.induct) (simp_all add: step_inv flip: append_assoc)

lemma run_inv: "pool_run (ThreadPool n) es p \<Longrightarrow> pool_inv n es p"
  using run_inv_from[OF _ pool_inv_start] by fastforce

lemma joined_running: "pool_joined p \<Longrightarrow> running_jobs p = {#}"
  by (auto simp: pool_joined_def running_jobs_def jobs_of_def list_all_iff)

subsection \<open>The steps that are left\<close>

text \<open>
  The steps of the pool by itself: the turns of its threads and the notifications that are due. Each
  uses up one of the \<open>pool_work\<close> steps that are left: two for a job to start and end, a notification,
  or a thread that has to ask its predicate again.
\<close>

definition own_event :: "'j pool_event \<Rightarrow> bool" where
  "own_event e = (case e of Enqueued _ \<Rightarrow> False | Woken \<Rightarrow> False | Stopped \<Rightarrow> False | _ \<Rightarrow> True)"

definition turns_left :: "'j pool_worker \<Rightarrow> nat" where
  "turns_left w = (case w of Checking \<Rightarrow> 1 | Waiting \<Rightarrow> 0 | Running _ \<Rightarrow> 2 | Returned \<Rightarrow> 0)"

definition pool_work :: "'j thread_pool \<Rightarrow> nat" where
  "pool_work p = sum_list (map turns_left (tp_workers p)) + 2 * length (tp_tasks p) + 2 * tp_notes p +
     (if tp_end p = Stopping then Suc (length (tp_workers p)) else 0)"

lemma turns_left_update:
  "i < length ws \<Longrightarrow> sum_list (map turns_left (ws[i := w])) + turns_left (ws ! i) =
     sum_list (map turns_left ws) + turns_left w"
proof (induction ws arbitrary: i)
  case (Cons x ws)
  then show ?case by (cases i) auto
qed simp

lemma turns_left_unblock: "sum_list (map turns_left (map unblock ws)) \<le> sum_list (map turns_left ws) + length ws"
  by (induction ws) (auto simp: turns_left_def unblock_def split: pool_worker.splits)

lemma worker_turn_work:
  assumes "worker_turn i p = Some p'"
  shows "pool_work p = Suc (pool_work p')"
  using assms
proof (cases rule: worker_turn_cases)
  case returns
  then show ?thesis using turns_left_update[of i "tp_workers p" Returned]
    by (simp add: pool_work_def) (simp add: turns_left_def)
next
  case (takes j js)
  then show ?thesis using turns_left_update[of i "tp_workers p" "Running j"]
    by (simp add: pool_work_def) (simp add: turns_left_def)
next
  case blocks
  then show ?thesis using turns_left_update[of i "tp_workers p" Waiting]
    by (simp add: pool_work_def) (simp add: turns_left_def)
next
  case (ends j)
  then show ?thesis using turns_left_update[of i "tp_workers p" Checking]
    by (simp add: pool_work_def) (simp add: turns_left_def)
qed

lemma notify_one_work:
  assumes "notify_one i p = Some p'" shows "Suc (pool_work p') \<le> pool_work p"
  using assms
proof (cases rule: notify_one_cases)
  case one
  then show ?thesis using turns_left_update[of i "tp_workers p" Checking]
    by (simp add: pool_work_def) (simp add: turns_left_def)
qed (auto simp: pool_work_def)

lemma notify_all_work: "notify_all p = Some p' \<Longrightarrow> Suc (pool_work p') \<le> pool_work p"
  using turns_left_unblock[of "tp_workers p"] by (auto simp: notify_all_def pool_work_def split: if_splits)

lemma wake_up_work:
  assumes "wake_up i p = Some p'" shows "pool_work p' = Suc (pool_work p)"
  using assms turns_left_update[of i "tp_workers p" Checking]
  by (auto simp: wake_up_def pool_work_def turns_left_def split: if_splits)

lemmas step_works = worker_turn_work notify_one_work notify_all_work wake_up_work

lemma step_work:
  "pool_step p e p' \<Longrightarrow> own_event e \<or> e = Woken \<Longrightarrow>
     Suc (pool_work p') \<le> pool_work p + (if e = Woken then 2 else 0)"
  by (induction rule: pool_step.induct) (auto simp: own_event_def dest: step_works)

lemma run_work:
  "pool_run p es p' \<Longrightarrow> list_all (\<lambda>e. own_event e \<or> e = Woken) es \<Longrightarrow>
     length es + pool_work p' \<le> pool_work p + 2 * length (filter (\<lambda>e. e = Woken) es)"
proof (induction rule: pool_run.induct)
  case (pool_run_snoc p es p' e p'')
  then show ?case using step_work[OF pool_run_snoc.hyps(2)] by (fastforce split: if_splits)
qed simp

text \<open>When no step is left, nothing is left to do.\<close>

definition can_step :: "'j thread_pool \<Rightarrow> bool" where
  "can_step p \<longleftrightarrow> (\<exists>e p'. own_event e \<and> pool_step p e p')"

lemma can_stepI: "pool_step p e p' \<Longrightarrow> own_event e \<Longrightarrow> can_step p"
  by (auto simp: can_step_def)

lemma worker_can_step:
  assumes "w \<in> set (tp_workers p)" and "w \<noteq> Waiting" and "w \<noteq> Returned" shows "can_step p"
proof -
  obtain i where i: "i < length (tp_workers p)" "tp_workers p ! i = w"
    using assms(1) by (auto simp: in_set_conv_nth)
  with assms(2,3) have "\<exists>p'. worker_turn i p = Some p'"
    by (auto simp: worker_turn_def split: pool_worker.splits)
  then obtain p' where t: "worker_turn i p = Some p'" ..
  from t show ?thesis
    by (cases rule: worker_turn_cases)
      (use t i in \<open>auto simp: own_event_def intro: can_stepI[OF pool_step.leave[OF t]] can_stepI[OF pool_step.start[OF t]]
         can_stepI[OF pool_step.sleep[OF t]] can_stepI[OF pool_step.finish[OF t]]\<close>)
qed

lemma note_can_step:
  assumes "0 < tp_notes p" shows "can_step p"
proof -
  have "\<exists>i p'. notify_one i p = Some p'"
  proof (cases "Waiting \<in> set (tp_workers p)")
    case True
    then obtain i where "i < length (tp_workers p)" "tp_workers p ! i = Waiting" by (auto simp: in_set_conv_nth)
    with assms show ?thesis by (intro exI[of _ i]) (simp add: notify_one_def)
  next
    case False
    then have "list_all (\<lambda>w. w \<noteq> Waiting) (tp_workers p)" by (auto simp: list_all_iff)
    with assms show ?thesis by (auto simp: notify_one_def)
  qed
  then show ?thesis by (auto intro!: can_stepI[OF pool_step.notify] simp: own_event_def)
qed

lemma nothing_left:
  assumes inv: "pool_inv n es p" and "0 < n" and stuck: "\<not> can_step p"
  shows "tp_tasks p = [] \<and> running_jobs p = {#} \<and> (tp_stop p \<longrightarrow> tp_end p = Joining \<and> pool_joined p)"
proof -
  have none: "w = Waiting \<or> w = Returned" if "w \<in> set (tp_workers p)" for w
    using worker_can_step[OF that] stuck by blast
  have "\<not> awake p" using stuck note_can_step none by (auto simp: awake_def)
  then have "tp_tasks p = []" using inv \<open>0 < n\<close> by (auto simp: pool_inv_def)
  moreover have "running_jobs p = {#}" using none by (fastforce simp: running_jobs_def jobs_of_def)
  moreover have "tp_end p = Joining \<and> pool_joined p" if "tp_stop p"
  proof -
    have "tp_end p \<noteq> Stopping"
      using stuck can_stepI[OF pool_step.notify_rest[of p]] by (auto simp: notify_all_def own_event_def)
    then have "tp_end p = Joining" using inv that by (cases "tp_end p") (auto simp: pool_inv_def)
    then show ?thesis using inv none by (fastforce simp: pool_inv_def pool_joined_def list_all_iff)
  qed
  ultimately show ?thesis by simp
qed

subsection \<open>The pool of a worker\<close>

text \<open>
  The worker's state has the queue only: as long as the pool is not stopped, which no one but the end
  of the process does, enqueueing is \<open>pool_enqueue\<close>, and a thread that starts a job takes it with
  \<open>pool_take\<close>.
\<close>

definition pool_of :: "worker \<Rightarrow> closure thread_pool \<Rightarrow> bool" where
  "pool_of w p \<longleftrightarrow> w_pool w = Some (tp_tasks p) \<and> \<not> tp_stop p"

lemma pool_enqueue_refines:
  assumes "pool_of w p"
  shows "\<exists>w' p'. pool_enqueue j w = Inr w' \<and> tp_enqueue j p = Inr p' \<and> pool_of w' p'"
  using assms by (auto simp: pool_of_def pool_enqueue_def tp_enqueue_def)

lemma pool_take_refines:
  assumes "pool_of w p" and "worker_turn i p = Some p'" and "tp_workers p ! i = Checking" and "tp_tasks p \<noteq> []"
  shows "\<exists>j w'. tp_workers p' ! i = Running j \<and> pool_take w = Some (j, w') \<and> pool_of w' p'"
  using assms(2)
proof (cases rule: worker_turn_cases)
  case (takes j js)
  then show ?thesis using assms(1) by (auto simp: pool_of_def pool_take_def)
qed (use assms in \<open>auto simp: pool_of_def\<close>)

lemma pool_other_steps:
  assumes "pool_of w p" and "pool_step p e p'" and "e \<noteq> Stopped"
    and "\<And>j. e \<noteq> Enqueued j" and "\<And>j. e \<noteq> Started j"
  shows "pool_of w p'"
  using assms(2)
proof (cases rule: pool_step.cases)
  case (notify i)
  then show ?thesis using assms(1) by (auto simp: pool_of_def elim: notify_one_cases)
next
  case (sleep i)
  then show ?thesis using assms(1) by (auto simp: pool_of_def elim!: worker_turn_cases)
next
  case (leave i)
  then show ?thesis using assms(1) by (auto simp: pool_of_def elim!: worker_turn_cases)
next
  case (finish i j)
  then show ?thesis using assms(1) by (auto simp: pool_of_def elim!: worker_turn_cases)
qed (use assms in \<open>auto simp: pool_of_def wake_up_def notify_all_def split: if_splits\<close>)

subsection \<open>Properties\<close>

text \<open>
  C26. The pool runs every job once, and starts them in the order they were enqueued: at every
  point of every run the enqueued jobs are the started ones followed by those in the queue, and
  the started ones are those that have finished and those that run. The destructor drops no job:
  when it has joined its threads (at least one), every job that was accepted has finished.
\<close>

theorem pool_runs_every_job:
  assumes "pool_run (ThreadPool n) es p"
  shows "enqueued es = started es @ tp_tasks p \<and> mset (started es) = mset (finished es) + running_jobs p \<and>
    (0 < n \<and> pool_joined p \<longrightarrow> tp_tasks p = [] \<and> mset (finished es) = mset (enqueued es))"
proof -
  have inv: "pool_inv n es p" using run_inv[OF assms] .
  have "tp_tasks p = [] \<and> mset (finished es) = mset (enqueued es)" if n: "0 < n" and joined: "pool_joined p"
  proof -
    have "length (tp_workers p) = n" using inv by (simp add: pool_inv_def)
    then have "Returned \<in> set (tp_workers p)"
      using n joined by (cases "tp_workers p") (auto simp: pool_joined_def)
    then show ?thesis using inv joined_running[OF joined] by (simp add: pool_inv_def)
  qed
  then show ?thesis using inv by (simp add: pool_inv_def)
qed

text \<open>Two threads, two jobs, the second of which finishes first, after the pool was stopped.\<close>

definition demo_pool :: "nat pool_worker list \<Rightarrow> nat list \<Rightarrow> nat \<Rightarrow> pool_end \<Rightarrow> nat thread_pool" where
  "demo_pool ws js k e = \<lparr>tp_workers = ws, tp_tasks = js, tp_stop = (e \<noteq> Alive), tp_notes = k, tp_end = e\<rparr>"

lemmas demo_steps = demo_pool_def tp_enqueue_def worker_turn_def stop_pool_def notify_one_def notify_all_def unblock_def

lemma demo_pool_start:
  "pool_run (ThreadPool 2) [Slept, Enqueued 1, Enqueued 2, Started 1, Stopped]
     (demo_pool [Waiting, Running 1] [2] 2 Stopping)"
proof -
  have "pool_run (ThreadPool 2) [] (demo_pool [Checking, Checking] [] 0 Alive)"
    using pool_run_Nil[of "ThreadPool 2"] by (simp add: ThreadPool_def demo_pool_def numeral_2_eq_2)
  from pool_run_snoc[OF this pool_step.sleep[of 0 _ "demo_pool [Waiting, Checking] [] 0 Alive"]]
  have "pool_run (ThreadPool 2) [Slept] (demo_pool [Waiting, Checking] [] 0 Alive)" by (simp add: demo_steps)
  from pool_run_snoc[OF this pool_step.add[of 1 _ "demo_pool [Waiting, Checking] [1] 1 Alive"]]
  have "pool_run (ThreadPool 2) [Slept, Enqueued 1] (demo_pool [Waiting, Checking] [1] 1 Alive)" by (simp add: demo_steps)
  from pool_run_snoc[OF this pool_step.add[of 2 _ "demo_pool [Waiting, Checking] [1, 2] 2 Alive"]]
  have "pool_run (ThreadPool 2) [Slept, Enqueued 1, Enqueued 2] (demo_pool [Waiting, Checking] [1, 2] 2 Alive)"
    by (simp add: demo_steps)
  from pool_run_snoc[OF this pool_step.start[of 1 _ "demo_pool [Waiting, Running 1] [2] 2 Alive" 1]]
  have "pool_run (ThreadPool 2) [Slept, Enqueued 1, Enqueued 2, Started 1] (demo_pool [Waiting, Running 1] [2] 2 Alive)"
    by (simp add: demo_steps)
  from pool_run_snoc[OF this pool_step.stop]
  show ?thesis by (simp add: demo_steps)
qed

lemma demo_pool_end:
  "pool_run (demo_pool [Waiting, Running 1] [2] 2 Stopping)
     [Notified, Started 2, Notified, Notified_All, Finished 2, Finished 1, Left, Left]
     (demo_pool [Returned, Returned] [] 0 Joining)"
proof -
  let ?p = "demo_pool [Waiting, Running 1] [2] 2 Stopping"
  from pool_run_snoc[OF pool_run_Nil pool_step.notify[of 0 ?p "demo_pool [Checking, Running 1] [2] 1 Stopping"]]
  have "pool_run ?p [Notified] (demo_pool [Checking, Running 1] [2] 1 Stopping)" by (simp add: demo_steps)
  from pool_run_snoc[OF this pool_step.start[of 0 _ "demo_pool [Running 2, Running 1] [] 1 Stopping" 2]]
  have "pool_run ?p [Notified, Started 2] (demo_pool [Running 2, Running 1] [] 1 Stopping)" by (simp add: demo_steps)
  from pool_run_snoc[OF this pool_step.notify[of 0 _ "demo_pool [Running 2, Running 1] [] 0 Stopping"]]
  have "pool_run ?p [Notified, Started 2, Notified] (demo_pool [Running 2, Running 1] [] 0 Stopping)"
    by (simp add: demo_steps)
  from pool_run_snoc[OF this pool_step.notify_rest[of _ "demo_pool [Running 2, Running 1] [] 0 Joining"]]
  have "pool_run ?p [Notified, Started 2, Notified, Notified_All] (demo_pool [Running 2, Running 1] [] 0 Joining)"
    by (simp add: demo_steps)
  from pool_run_snoc[OF this pool_step.finish[of 0 _ "demo_pool [Checking, Running 1] [] 0 Joining" 2]]
  have "pool_run ?p [Notified, Started 2, Notified, Notified_All, Finished 2] (demo_pool [Checking, Running 1] [] 0 Joining)"
    by (simp add: demo_steps)
  from pool_run_snoc[OF this pool_step.finish[of 1 _ "demo_pool [Checking, Checking] [] 0 Joining" 1]]
  have "pool_run ?p [Notified, Started 2, Notified, Notified_All, Finished 2, Finished 1]
      (demo_pool [Checking, Checking] [] 0 Joining)" by (simp add: demo_steps)
  from pool_run_snoc[OF this pool_step.leave[of 1 _ "demo_pool [Checking, Returned] [] 0 Joining"]]
  have "pool_run ?p [Notified, Started 2, Notified, Notified_All, Finished 2, Finished 1, Left]
      (demo_pool [Checking, Returned] [] 0 Joining)" by (simp add: demo_steps)
  from pool_run_snoc[OF this pool_step.leave[of 0 _ "demo_pool [Returned, Returned] [] 0 Joining"]]
  show ?thesis by (simp add: demo_steps)
qed

lemma pool_run_trans: "pool_run p' es' p'' \<Longrightarrow> pool_run p es p' \<Longrightarrow> pool_run p (es @ es') p''"
  by (induction rule: pool_run.induct) (auto simp: pool_run_snoc simp flip: append_assoc)

theorem pool_runs_every_job_witness:
  "mset (finished [Slept, Enqueued 1, Enqueued 2, Started 1, Stopped, Notified, Started (2::nat), Notified, Notified_All,
       Finished 2, Finished 1, Left, Left]) = {#1, 2#}"
  using pool_runs_every_job[OF pool_run_trans[OF demo_pool_end demo_pool_start], THEN conjunct2, THEN conjunct2]
  by (simp add: pool_joined_def demo_pool_def enqueued_def)

text \<open>
  C27. No notification is lost and the destructor returns. From any point of any run, the steps
  the pool takes by itself (turns of its threads and notifications that are due, in any order,
  with any number of spurious wake-ups in between) are at most \<open>pool_work\<close> and two
  for every spurious wake-up, until a call of \<open>enqueue\<close> or of the destructor comes.
  When no such step is left, no job is queued or running, and if the destructor was called, all
  threads have returned and it returns too. The jobs return, and there is at least one thread.
\<close>

theorem pool_join_returns:
  assumes "pool_run (ThreadPool n) es p" and "0 < n"
    and "pool_run p es' p'" and "list_all (\<lambda>e. own_event e \<or> e = Woken) es'"
  shows "length es' \<le> pool_work p + 2 * length (filter (\<lambda>e. e = Woken) es') \<and>
    (can_step p' \<or> tp_tasks p' = [] \<and> running_jobs p' = {#} \<and> (tp_stop p' \<longrightarrow> tp_end p' = Joining \<and> pool_joined p'))"
  using run_work[OF assms(3,4)] nothing_left[OF run_inv_from[OF assms(3) run_inv[OF assms(1)]] assms(2)] by auto

text \<open>The destructor is called while a thread waits and its notification has not been given.\<close>

theorem pool_join_returns_witness:
  "pool_work (demo_pool [Waiting, Running 1] [2] 2 Stopping) = 11 \<and>
     (let es = [Notified, Started (2::nat), Notified, Notified_All, Finished 2, Finished 1, Left, Left]
      in length es \<le> 11 + 2 * length (filter (\<lambda>e. e = Woken) es))"
proof -
  have w: "pool_work (demo_pool [Waiting, Running 1] [2] 2 Stopping) = 11"
    by (simp add: pool_work_def demo_pool_def turns_left_def)
  show ?thesis
    using pool_join_returns[OF demo_pool_start _ demo_pool_end, THEN conjunct1] w by (simp add: own_event_def)
qed

end
