(* ===== verification/Compressed_Size.thy ===== *)
theory Compressed_Size
  imports Compressors Core_Loops
begin

section \<open>The size of a compressed partition\<close>

text \<open>
  Puts together what \<open>InitTensor\<close> and \<open>PartitionTensor\<close> of \<open>operations.cc\<close>, the job of
  \<open>RunCompressLoopOnce\<close> of \<open>core_loops.cc\<close> and the compressors say about sizes: a compressor is
  made for the aligned size of its partition, the job compresses the partition as it is, and checks
  that the compressed tensor is not longer.
\<close>

subsection \<open>The aligned size\<close>

lemma rounded_unique:
  fixes d :: nat
  assumes "d dvd x" and "d dvd y" and "n \<le> x" and "x < n + d" and "n \<le> y" and "y < n + d"
  shows "x = y"
proof -
  obtain i j where ij: "x = d * i" "y = d * j" using assms(1,2) by (auto elim!: dvdE)
  have "d * i < d * (j + 1)" "d * j < d * (i + 1)" using assms ij by simp_all
  then have "i < j + 1" "j < i + 1" by (metis nat_mult_less_cancel_disj)+
  then have "i = j" by simp
  then show ?thesis using ij by simp
qed

lemma float_length: "float_type dt \<Longrightarrow> getDataTypeLength (data_type_value dt) = Inr (type_width dt)"
  by (auto simp: float_type_def getDataTypeLength_def)

text \<open>The aligned size is that of the scalars padded to whole words.\<close>

lemma Align_chunks:
  assumes ft: "float_type dt" and w: "w = type_width dt" and dvd: "w dvd len" and n: "len + 512 < 2 ^ 64"
    and a: "Align (of_nat len) (data_type_value dt) = Inr a"
  shows "unat a = chunk_count (packing_size w) (len div w) * packing_size w * w"
proof (rule rounded_unique [of "8 * w * w" _ _ len])
  let ?m = "8 * w * w" and ?P = "packing_size w" and ?n = "len div w"
  have w0: "0 < w" using ft w by (auto simp: float_type_def)
  then have m: "0 < ?m" by simp
  have u: "unat (of_nat len :: u64) = len" using n by (intro unat_of_nat_u64) simp
  have "unat a = len + (?m - len mod ?m) mod ?m"
    using Align_unat [OF a float_length [OF ft]] n u w by simp
  then show "?m dvd unat a" "len \<le> unat a" "unat a < len + ?m"
    using round_up_nat [OF m, of len] by simp_all
  have l: "len = ?n * w" using dvd by simp
  have "?n \<le> chunk_count ?P ?n * ?P \<and> chunk_count ?P ?n * ?P < ?n + ?P"
    using chunk_count_pos [of ?P ?n] w0 by (simp add: packing_size_def)
  then have "?n * w \<le> chunk_count ?P ?n * ?P * w" "chunk_count ?P ?n * ?P * w < (?n + ?P) * w"
    using w0 by (simp_all only: mult_le_mono1 mult_less_mono1)
  moreover have "(?n + ?P) * w = ?n * w + ?m" by (simp add: packing_size_def algebra_simps)
  ultimately show "len \<le> chunk_count ?P ?n * ?P * w" "chunk_count ?P ?n * ?P * w < len + ?m"
    using l by simp_all
  show "?m dvd chunk_count ?P ?n * ?P * w" by (simp add: packing_size_def)
qed

text \<open>A partition and the compressor made for it; the memory behind the partition is there.\<close>

definition fitted :: "compressor_base \<Rightarrow> bps_tensor \<Rightarrow> u64 \<Rightarrow> bool" where
  "fitted cb p a \<longleftrightarrow> float_type (cb_dtype cb) \<and> bt_dtype p = data_type_value (cb_dtype cb) \<and>
     0 < bt_size p \<and> bt_size p + 512 < 2 ^ 64 \<and> type_width (cb_dtype cb) dvd bt_size p \<and>
     Align (of_nat (bt_size p)) (bt_dtype p) = Inr a \<and> cb_size cb = unat a \<and>
     length (cb_buf cb) = cb_size cb \<and> cb_size cb \<le> length (bt_data p)"

lemma onebit_partition_size:
  assumes "fitted cb p a"
  shows "\<exists>cb' t. Onebit_Compress fo use_scale cb p = Inr (cb', t) \<and>
    bt_size t = unat a div packing_size (type_width (cb_dtype cb)) + 4 \<and> bt_size t \<le> cb_size cb \<and>
    (bt_size t \<le> bt_size p \<longleftrightarrow> type_width (cb_dtype cb) + 4 \<le> bt_size p)"
proof -
  define dt where "dt = cb_dtype cb"
  define w where "w = type_width dt"
  define c where "c = chunk_count (packing_size w) (bt_size p div w)"
  note f = assms [unfolded fitted_def, folded dt_def w_def]
  have w: "w \<in> {2, 4, 8}" using f by (auto simp: float_type_def w_def)
  have n: "0 < bt_size p" "w dvd bt_size p" using f by auto
  then have q: "0 < bt_size p div w" "bt_size p = bt_size p div w * w" using w by (auto elim!: dvdE)
  have cP: "bt_size p div w \<le> c * packing_size w" "c * packing_size w < bt_size p div w + packing_size w"
    using chunk_count_pos [of "packing_size w" "bt_size p div w"] w by (auto simp: c_def packing_size_def)
  then have c0: "0 < c" using q(1) by (cases c) simp_all
  have a: "unat a = c * packing_size w * w"
    unfolding c_def using f by (intro Align_chunks [OF _ w_def]) auto
  have room: "c * w + 4 \<le> c * packing_size w * w"
    using c0 w by (cases c) (auto simp: packing_size_def)
  have v: "elt w (bt_data p) k = Inr (le_value (take w (drop (k * w) (bt_data p))))" if "k < c * packing_size w" for k
  proof -
    have "(k + 1) * w \<le> c * packing_size w * w" using that by (intro mult_le_mono1) simp
    then have "k * w + w \<le> length (bt_data p)" using a f by simp
    then show ?thesis by (simp add: elt_def)
  qed
  obtain out where o: "Onebit_CompressImpl fo use_scale dt (cb_buf cb) (bt_data p) (bt_size p div w) = Inr (out, c * w + 4)"
    using Onebit_CompressImpl_ok [OF w_def c_def _ _ v, of "cb_buf cb" fo use_scale] f a room by auto
  have "impl_switch (bt_dtype p) g = g dt" for g :: "data_type \<Rightarrow> (compressor_base \<times> bps_tensor) res"
    using f by (auto simp: impl_switch_def float_type_def)
  then have "Onebit_Compress fo use_scale cb p =
      Inr (cb\<lparr>cb_buf := out\<rparr>, \<lparr>bt_data = out, bt_size = c * w + 4, bt_dtype = 0\<rparr>)"
    using o by (simp add: Onebit_Compress_def w_def)
  moreover have "c * w + 4 = unat a div packing_size w + 4" using a w by (auto simp: packing_size_def)
  moreover have "c * w + 4 \<le> bt_size p \<longleftrightarrow> w + 4 \<le> bt_size p"
  proof
    assume "c * w + 4 \<le> bt_size p"
    then show "w + 4 \<le> bt_size p" using c0 by (cases c) auto
  next
    assume s: "w + 4 \<le> bt_size p"
    show "c * w + 4 \<le> bt_size p"
    proof (cases "c = 1")
      case False
      then obtain d where d: "c = Suc (Suc d)" using c0 by (cases c; cases "c - 1") auto
      have "Suc d * packing_size w < bt_size p div w" using cP(2) d by simp
      then have "Suc d * packing_size w * w < bt_size p" using q(2) w by (metis mult_less_mono1 not_gr_zero insertE empty_iff zero_neq_numeral)
      then show ?thesis using d w by (auto simp: packing_size_def)
    qed (use s in simp)
  qed
  ultimately show ?thesis using a f room by (simp add: dt_def w_def)
qed

text \<open>One scalar in a partition of its own.\<close>

definition demo_small :: bps_tensor where
  "demo_small = \<lparr>bt_data = [0, 0, 0x40, 0xC0] @ replicate 124 0, bt_size = 4, bt_dtype = 0\<rparr>"

lemma demo_small_fitted: "fitted demo_onebit demo_small 128"
proof -
  have "data_type_of 0 = Some BYTEPS_FLOAT32" by (simp add: data_type_of_def)
  then have "Align 4 0 = Inr 128" by (simp add: Align_def getDataTypeLength_def)
  then show ?thesis by (simp add: fitted_def demo_small_def demo_onebit_def Compressor_def float_type_def)
qed

text \<open>The last partition of a tensor whose size is not a multiple of the bound has the rest.\<close>

lemma last_partition:
  assumes "te_counter e \<noteq> None" and "entry_tensor e = Inr t" and "tensor_size t < 2 ^ 64"
    and "tensor_size t = k * unat (w_partition_bytes w) + r" and "0 < r" and "r < unat (w_partition_bytes w)"
    and "k < length (compressor_list c)"
  shows "\<exists>ts. PartitionTensor w c e = Some (Inr ts) \<and> ts \<noteq> [] \<and> unat (te_len (last ts)) = r \<and>
    te_compressor (last ts) = compressor_list c ! k \<and> te_tensor (last ts) = te_tensor e"
proof -
  let ?b = "unat (w_partition_bytes w)" and ?n = "tensor_size t"
  have b: "0 < ?b" "?b < 2 ^ 32" using assms(5,6) unat_u32_less by auto
  have N: "nparts ?n ?b = k + 1"
  proof (rule antisym)
    have "\<not> k + 1 < nparts ?n ?b" using nparts_less [OF b(1), of "k + 1" ?n] assms(4,6) by simp
    then show "nparts ?n ?b \<le> k + 1" by simp
    have "k < nparts ?n ?b" using nparts_less [OF b(1), of k ?n] assms(4,5) by simp
    then show "k + 1 \<le> nparts ?n ?b" by simp
  qed
  define P where "P = partition_at e (compressor_list c) (of_nat ?n) (ucast (w_partition_bytes w))"
  have bw: "(ucast (w_partition_bytes w) :: u64) = of_nat ?b" by simp
  have "PartitionTensor w c e = Some (Inr (map P [0..<k + 1]))"
    unfolding P_def using assms b N by (intro PartitionTensor_eq) (auto simp: word_less_nat_alt)
  moreover have "unat (te_len (P k)) = r"
    unfolding P_def bw using partition_at_unat(2) [OF b(2) b(1) assms(3), of k] N assms(4,6) by simp
  moreover have "te_compressor (P k) = compressor_list c ! k" "te_tensor (P k) = te_tensor e"
    using assms(7) by (auto simp: P_def partition_at_def make_partition_def)
  ultimately show ?thesis by (intro exI [of _ "map P [0..<k + 1]"]) simp
qed

subsection \<open>Properties\<close>

text \<open>
  C16. One bit per scalar and a scale: compressing a partition with the compressor that is made
  for its aligned size succeeds, stays inside the buffer of the compressor, and gives a tensor of
  one word for every eight-fold word of scalars and four bytes more. It is no longer than the
  partition, unless the partition is shorter than one scalar and four bytes.
\<close>

theorem compressed_size_bounds:
  assumes "fitted cb p a"
  shows "\<exists>cb' t. Onebit_Compress fo use_scale cb p = Inr (cb', t) \<and>
    bt_size t = unat a div packing_size (type_width (cb_dtype cb)) + 4 \<and> bt_size t \<le> cb_size cb \<and>
    (bt_size t \<le> bt_size p \<longleftrightarrow> type_width (cb_dtype cb) + 4 \<le> bt_size p)"
  using assms by (rule onebit_partition_size)

theorem compressed_size_bounds_witness:
  "\<exists>cb' t. Onebit_Compress (dbl_ops demo_cenv) True demo_onebit demo_small = Inr (cb', t) \<and> bt_size t = 8 \<and> bt_size demo_small = 4"
  using compressed_size_bounds [OF demo_small_fitted, of "dbl_ops demo_cenv" True]
  by (auto simp: demo_small_def demo_onebit_def Compressor_def packing_size_def)

text \<open>
  C17. The check of the compression job rejects a correct compressor: the size below which a
  tensor is not compressed is compared with the whole tensor, so the last partition may hold a
  scalar or two. When the compressor of that partition answers as the one-bit compressor does, its
  tensor is longer than the partition and the job stops the process as an implementation error.
\<close>

theorem short_last_partition_stops:
  assumes "te_counter e \<noteq> None" and "te_tensor e = Some t" and "tensor_size t < 2 ^ 64"
    and "tensor_size t = k * unat (w_partition_bytes w) + r" and "0 < r" and "r < unat (w_partition_bytes w)"
    and "k < length (compressor_list c)" and "compressor_list c ! k = Some cid"
    and "fitted cb p a" and "cb_dtype cb = tensor_dtype t" and "bt_size p = r" and "r < type_width (cb_dtype cb) + 4"
    and "Onebit_Compress fo use_scale cb p = Inr (cb', z)"
    and "\<And>data. ct_size (le_compress le cid data (int r) (bt_dtype p)) = bt_size z"
  shows "\<exists>ts. PartitionTensor w c e = Some (Inr ts) \<and> ts \<noteq> [] \<and> unat (te_len (last ts)) = r \<and>
    compress_job le (last ts) w1 = Inl (CheckFailed ''Compressor Implementation Error'')"
proof -
  have et: "entry_tensor e = Inr t" using assms(2) by (simp add: entry_tensor_def)
  obtain ts where ts: "PartitionTensor w c e = Some (Inr ts)" "ts \<noteq> []" "unat (te_len (last ts)) = r"
    "te_compressor (last ts) = Some cid" "te_tensor (last ts) = te_tensor e"
    using last_partition [OF assms(1) et assms(3-7)] unfolding assms(8) by blast
  have "cb_dtype cb \<in> {BYTEPS_FLOAT16, BYTEPS_FLOAT32, BYTEPS_FLOAT64}"
    and dt: "bt_dtype p = data_type_value (tensor_dtype t)"
    using assms(9,10) by (auto simp: fitted_def float_type_def)
  then have small: "r < 12" using assms(12) by auto
  have len: "sint (te_len (last ts)) = int r"
    using ts(3) small by (subst sint_u32_small) simp_all
  have "r < bt_size z" and "bt_size z \<le> cb_size cb" and "cb_size cb < 2 ^ 64"
    using onebit_partition_size [OF assms(9), of fo use_scale] assms(9,11-13) unsigned_less [of a]
    by (auto simp: fitted_def)
  then have "\<not> (of_nat (bt_size z) \<le> (of_nat r :: u64))"
    by (simp add: word_le_nat_alt unat_of_nat_u64)
  then show ?thesis
    using ts len assms(2,14) dt by (intro exI [of _ ts]) (simp add: compress_job_def the_tensor_def Let_def check_def)
qed

text \<open>4100 bytes, in partitions of at most 4096: the second one has one scalar.\<close>

definition demo_answers :: loop_env where
  "demo_answers = \<lparr>le_ready = (\<lambda>_. True), le_now = 0, le_os = demo_os,
     le_compress = (\<lambda>_ _ _ _. \<lparr>ct_data = 0, ct_size = 8\<rparr>), le_pull_lens = (\<lambda>_ ls. ls)\<rparr>"

theorem short_last_partition_stops_witness:
  "\<exists>ts. PartitionTensor (initial_worker\<lparr>w_partition_bytes := 4096\<rparr>) (demo_context\<lparr>compressor_list := [Some 5, Some 6]\<rparr>)
      (demo_entry 4100) = Some (Inr ts) \<and>
    compress_job demo_answers (last ts) initial_worker = Inl (CheckFailed ''Compressor Implementation Error'')"
proof -
  obtain cb' t where t: "Onebit_Compress (dbl_ops demo_cenv) True demo_onebit demo_small = Inr (cb', t)" "bt_size t = 8"
    using onebit_partition_size [OF demo_small_fitted, of "dbl_ops demo_cenv" True]
    by (auto simp: demo_small_def demo_onebit_def Compressor_def packing_size_def)
  have c: "cb_dtype demo_onebit = BYTEPS_FLOAT32" by (simp add: demo_onebit_def Compressor_def)
  show ?thesis
    using short_last_partition_stops [OF _ _ _ _ _ _ _ _ demo_small_fitted _ _ _ t(1), where e = "demo_entry 4100"
        and t = "demo_tensor 4100" and k = 1 and r = 4 and cid = 6 and w = "initial_worker\<lparr>w_partition_bytes := 4096\<rparr>"
        and c = "demo_context\<lparr>compressor_list := [Some 5, Some 6]\<rparr>" and le = demo_answers and ?w1.0 = initial_worker] t(2) c
    by (auto simp: demo_entry_defs demo_small_def demo_answers_def)
qed

end
