(* ===== verification/Entry_Points.thy ===== *)
theory Entry_Points
  imports Operations
begin

section \<open>The entry points of the library\<close>

text \<open>
  The functions of \<open>operations.cc\<close> that the adapters call besides those of \<open>Operations\<close>: ranks and
  sizes, the speed, suspending and shutting down; and what an elastic restart, \<open>byteps_suspend\<close>
  followed by \<open>byteps_resume\<close>, keeps. \<open>Shutdown\<close> raises a flag, joins the background threads and
  then releases everything: what those threads still do in between is the argument \<open>threads\<close>.
\<close>

subsection \<open>Definitions\<close>

definition GetRank :: "worker \<Rightarrow> int" where "GetRank w = w_rank w"
definition GetLocalRank :: "worker \<Rightarrow> int" where "GetLocalRank w = w_local_rank w"
definition GetSize :: "worker \<Rightarrow> int" where "GetSize w = w_size w"
definition GetLocalSize :: "worker \<Rightarrow> int" where "GetLocalSize w = w_local_size w"

definition byteps_rank :: "worker \<Rightarrow> int" where "byteps_rank w = GetRank w"
definition byteps_local_rank :: "worker \<Rightarrow> int" where "byteps_local_rank w = GetLocalRank w"
definition byteps_size :: "worker \<Rightarrow> int" where "byteps_size w = GetSize w"
definition byteps_local_size :: "worker \<Rightarrow> int" where "byteps_local_size w = GetLocalSize w"

definition byteps_shutdown :: "(worker \<Rightarrow> worker) \<Rightarrow> worker \<Rightarrow> worker option" where
  "byteps_shutdown threads w = Shutdown_end (threads (Shutdown_begin w))"

definition byteps_suspend :: "(worker \<Rightarrow> worker) \<Rightarrow> worker \<Rightarrow> worker option" where
  "byteps_suspend threads w = Shutdown_end (threads (Shutdown_begin w))"

text \<open>The pair given to Python: the time and the bytes behind the speed, \<open>None\<close> for -5.0.\<close>

definition byteps_get_pushpull_speed :: "worker \<Rightarrow> (int \<times> u64 option) \<times> worker" where
  "byteps_get_pushpull_speed w =
     (case GetSpeed (w_speed w) of (e, sp) \<Rightarrow> ((se_ts e, se_bytes e), w\<lparr>w_speed := sp\<rparr>))"

definition CheckInitialized :: "worker \<Rightarrow> status" where
  "CheckInitialized w = CheckInit w"

subsection \<open>What initialisation leaves alone\<close>

definition same_tensors :: "worker \<Rightarrow> worker \<Rightarrow> bool" where
  "same_tensors w w' \<longleftrightarrow> ctxs w' = ctxs w \<and> w_declared w' = w_declared w \<and> w_next_key w' = w_next_key w"

lemma init_config_tensors: "init_config env os w = Inr w' \<Longrightarrow> same_tensors w w'"
  unfolding init_config_def same_tensors_def by (clarsimp simp: res_simps case_prod_beta)

lemma init_hash_tensors: "init_hash env w = Inr w' \<Longrightarrow> same_tensors w w'"
  unfolding init_hash_def Let_def same_tensors_def by (cases "w_is_distributed w") (clarsimp simp: res_simps)+

lemma init_comms_tensors: "init_comms env os w = Inr w' \<Longrightarrow> same_tensors w w'"
  by (clarsimp simp: init_comms_def same_tensors_def res_simps Let_def split: option.splits)

lemma init_tables_tensors: "init_tables env w = Inr w' \<Longrightarrow> same_tensors w w'"
  unfolding init_tables_def Let_def same_tensors_def by (clarsimp simp: res_simps)

lemma init_roots_tensors: "init_roots env w = Inr w' \<Longrightarrow> same_tensors w w'"
  by (auto simp: init_roots_def same_tensors_def res_simps split: option.splits)

lemma create_queues_tensors: "create_queues env qts w = Inr w' \<Longrightarrow> same_tensors w w'"
proof (induction qts arbitrary: w)
  case (Cons qt qts)
  then obtain w1 where w1: "CreateScheduledQueue env qt w = Inr w1" "create_queues env qts w1 = Inr w'"
    by (auto simp: res_simps)
  have "same_tensors w w1"
    using w1(1) by (auto simp: CreateScheduledQueue_def same_tensors_def res_simps set_queue_def split: option.splits if_splits)
  then show ?case using Cons.IH [OF w1(2)] by (simp add: same_tensors_def)
qed (simp add: same_tensors_def)

lemma same_tensors_trans: "same_tensors a b \<Longrightarrow> same_tensors b c \<Longrightarrow> same_tensors a c"
  by (simp add: same_tensors_def)

lemma global_Init_tensors:
  assumes "global_Init env os w = Inr w'"
  shows "same_tensors w w'"
proof (cases "w_initialized w")
  case True
  then show ?thesis using assms by (simp add: global_Init_def same_tensors_def)
next
  case False
  then obtain w1 w2 w3 w4 w5 w6 where steps: "init_config env os w = Inr w1" "init_hash env w1 = Inr w2"
    "init_comms env os w2 = Inr w3" "init_tables env w3 = Inr w4" "init_roots env w4 = Inr w5"
    "create_queues env all_queue_types w5 = Inr w6" and w': "same_tensors w6 w'"
    using assms by (auto simp: global_Init_def same_tensors_def res_simps)
  note same = init_config_tensors [OF steps(1)] init_hash_tensors [OF steps(2)] init_comms_tensors [OF steps(3)]
    init_tables_tensors [OF steps(4)] init_roots_tensors [OF steps(5)] create_queues_tensors [OF steps(6)] w'
  then show ?thesis by (simp add: same_tensors_def)
qed

lemma global_Init_done: "global_Init env os w = Inr w' \<Longrightarrow> w_initialized w'"
  by (cases "w_initialized w") (auto simp: global_Init_def res_simps)

lemma byteps_init_tensors:
  assumes "byteps_init env os w = Inr (fs, w')"
  shows "same_tensors w w' \<and> w_initialized w'"
proof -
  obtain w1 nm where w1: "global_Init env os w = Inr w1" and fs: "get_nccl w1 = Inr nm" "fs = loop_functions w1 nm"
    and w': "w' = snd (GetOrInitPS (global_Start (length (loop_functions w1 nm)) w1))"
    using assms unfolding byteps_init_def byteps_lazy_init_def Let_def by (clarsimp simp: res_simps)
  have "same_tensors w1 w' \<and> w_initialized w' = w_initialized w1"
    unfolding w' by (simp add: GetOrInitPS_def global_Start_def same_tensors_def)
  then show ?thesis using global_Init_tensors [OF w1] global_Init_done [OF w1] by (auto intro: same_tensors_trans)
qed

lemma redeclare_loop_fresh:
  assumes "\<And>n c. ctxs w n = Some c \<Longrightarrow> \<not> initialized c"
  shows "(\<forall>n c. ctxs (redeclare_loop ns w) n = Some c \<longrightarrow> \<not> initialized c) \<and>
    w_initialized (redeclare_loop ns w) = w_initialized w"
  using assms
proof (induction ns arbitrary: w)
  case (Cons n ns)
  have "\<not> initialized c" if "ctxs (snd (IsTensorDeclared n w)) m = Some c" for m c
    using that Cons.prems by (auto simp: IsTensorDeclared_def new_context_def split: option.splits if_splits)
  moreover have "w_initialized (snd (IsTensorDeclared n w)) = w_initialized w"
    by (simp add: IsTensorDeclared_def split: option.splits)
  ultimately show ?case using Cons.IH [of "snd (IsTensorDeclared n w)"] by simp
qed simp

lemma redeclare_all:
  assumes "distinct (w_declared w)" and "ctxs w = Map.empty" and "w_next_key w = 0"
  shows "declared_ok (ReDeclareTensor w) \<and> w_declared (ReDeclareTensor w) = w_declared w"
  using redeclare_loop_empty [of "[]" "w_declared w" w] assms by (simp add: ReDeclareTensor_def)

subsection \<open>Properties\<close>

text \<open>
  C15. An elastic restart keeps the keys: when the worker that was suspended is resumed with any
  environment in which the initialisation succeeds, every tensor that was declared is declared
  again, with the declared key it had, and the counter goes on behind them; until then none is
  declared. Only the declared keys are kept: the partition size, the number of servers and the
  hash are read again from the environment and the table of encoded keys is empty, so the keys of
  a tensor's partitions and the servers they go to are as before only if these are. Suspending
  goes through only when all background threads have reported; they may do anything that keeps the
  table of tensors in order.
\<close>

theorem restart_keeps_keys:
  assumes "byteps_suspend threads w = Some w1" and "declared_ok (threads (Shutdown_begin w))"
    and "byteps_resume env os w1 = Inr (fs, w2)"
  shows "ctxs w1 = Map.empty \<and> CheckInitialized w1 \<noteq> Status_OK \<and> CheckInitialized w2 = Status_OK \<and> declared_ok w2 \<and>
    w_declared w2 = w_declared (threads (Shutdown_begin w)) \<and> w_next_key w2 = w_next_key (threads (Shutdown_begin w)) \<and>
    (\<forall>name c. ctxs (threads (Shutdown_begin w)) name = Some c \<longrightarrow>
      (\<exists>c'. ctxs w2 name = Some c' \<and> declared_key c' = declared_key c \<and> \<not> initialized c'))"
proof -
  define v where "v = threads (Shutdown_begin w)"
  have v: "declared_ok v" using assms(2) by (simp add: v_def)
  have w1: "w_declared w1 = w_declared v" "ctxs w1 = Map.empty" "w_next_key w1 = 0" "\<not> w_initialized w1"
    using assms(1) by (auto simp: byteps_suspend_def v_def Shutdown_end_def split: if_splits)
  obtain w' where i: "byteps_init env os (w1\<lparr>w_is_resuming := True\<rparr>) = Inr (fs, w')"
    and w2: "w2 = (ReDeclareTensor w')\<lparr>w_is_resuming := False\<rparr>"
    using assms(3) by (auto simp: byteps_resume_def res_simps)
  have w': "w_declared w' = w_declared v" "ctxs w' = Map.empty" "w_next_key w' = 0" "w_initialized w'"
    using byteps_init_tensors [OF i] w1 by (simp_all add: same_tensors_def)
  have re: "declared_ok (ReDeclareTensor w')" "w_declared (ReDeclareTensor w') = w_declared v"
    using redeclare_all [of w'] w' v by (simp_all add: declared_ok_def)
  then have ok: "declared_ok w2" "w_declared w2 = w_declared v" by (simp_all add: w2 declared_ok_def)
  have fresh: "ctxs w2 n = Some c \<Longrightarrow> \<not> initialized c" and up: "w_initialized w2" for n c
    using redeclare_loop_fresh [of w' "w_declared w'"] w'(2,4) by (simp_all add: w2 ReDeclareTensor_def)
  have "\<exists>c'. ctxs w2 name = Some c' \<and> declared_key c' = declared_key c \<and> \<not> initialized c'"
    if c: "ctxs v name = Some c" for name c
  proof -
    have "name \<in> set (w_declared v)" using v c by (auto simp: declared_ok_def)
    then obtain k where k: "k < length (w_declared v)" "w_declared v ! k = name" by (auto simp: in_set_conv_nth)
    have "name \<in> dom (ctxs w2)" using ok k by (auto simp: declared_ok_def)
    then obtain c' where "ctxs w2 name = Some c'" by blast
    then show ?thesis using v ok k c fresh by (auto simp: declared_ok_def)
  qed
  moreover have "w_next_key w2 = w_next_key v" using v ok by (simp add: declared_ok_def)
  ultimately show ?thesis
    using w1 up ok unfolding v_def [symmetric] by (simp add: CheckInitialized_def CheckInit_def Status_OK_def Status_PreconditionError_def)
qed

lemma demo_suspended: "byteps_suspend (\<lambda>w. w) demo_declared = Some (demo_start [''a'', ''b''] False)"
  by (simp add: byteps_suspend_def Shutdown_begin_def Shutdown_end_def IsAllThreadFinish_def demo_declared_def
      IsTensorDeclared_def demo_start_def initial_worker_def)

theorem restart_keeps_keys_witness:
  "\<exists>fs w2 c'. byteps_resume demo_job_environ demo_init_os (demo_start [''a'', ''b''] False) = Inr (fs, w2) \<and>
     ctxs w2 ''b'' = Some c' \<and> declared_key c' = 1"
proof -
  obtain w where w: "global_Init demo_job_environ demo_init_os (demo_start [''a'', ''b''] True) = Inr w" "w_nccl w \<noteq> None"
    using demo_init_ok by blast
  have "(demo_start [''a'', ''b''] False)\<lparr>w_is_resuming := True\<rparr> = demo_start [''a'', ''b''] True"
    by (simp add: demo_start_def)
  then obtain fs w2 where r: "byteps_resume demo_job_environ demo_init_os (demo_start [''a'', ''b''] False) = Inr (fs, w2)"
    using w by (auto simp: byteps_resume_def byteps_init_def byteps_lazy_init_def get_nccl_def Let_def)
  have d: "declared_ok (Shutdown_begin demo_declared)"
    using demo_declared_ok by (simp add: Shutdown_begin_def declared_ok_def)
  have "ctxs (Shutdown_begin demo_declared) ''b'' = Some (new_context ''b'' 1)"
    by (simp add: Shutdown_begin_def demo_declared_def IsTensorDeclared_def initial_worker_def)
  then obtain c' where "ctxs w2 ''b'' = Some c'" "declared_key c' = declared_key (new_context ''b'' 1)"
    using restart_keeps_keys [OF demo_suspended d r] by blast
  then show ?thesis using r by (simp add: new_context_def)
qed

end
