(* ===== verification/Server_Async.thy ===== *)
theory Server_Async
  imports Server_Keys
begin

section \<open>The asynchronous mode of the server\<close>

text \<open>
  With \<open>ENABLE_ASYNC\<close> the server starts no engine threads and adds a push to the buffer of its key
  at once. Here is what becomes of pulls in this mode: they are answered from the merged buffer, and
  only the engine threads ever make that point anywhere.
\<close>

subsection \<open>What no request changes\<close>

definition merged_part :: "server_state \<Rightarrow> bool \<times> bool \<times> engine_queue list \<times> (u64 \<Rightarrow> mem_ptr)" where
  "merged_part st = (sv_sync st, sv_blocking st, sv_queues st, \<lambda>k. ba_tensor (ub_merged (GetUpdateBuf k st)))"

lemma merged_part_fields [simp]:
  "merged_part (st\<lparr>sv_push_response := a\<rparr>) = merged_part st" "merged_part (st\<lparr>sv_mem := b\<rparr>) = merged_part st"
  "merged_part (st\<lparr>sv_compressors := c\<rparr>) = merged_part st" "merged_part (st\<lparr>sv_store := d\<rparr>) = merged_part st"
  "merged_part (st\<lparr>sv_acc_load := e\<rparr>) = merged_part st" "merged_part (st\<lparr>sv_hash_cache := f\<rparr>) = merged_part st"
  "merged_part (st\<lparr>sv_sent := g\<rparr>) = merged_part st"
  by (simp_all add: merged_part_def GetUpdateBuf_def)

lemma merged_part_requests [simp]:
  "merged_part (set_update k ((GetUpdateBuf k st)\<lparr>ub_request := rs\<rparr>) st) = merged_part st"
  by (auto simp: merged_part_def GetUpdateBuf_def set_update_def map_at_def)

lemma merged_part_add_request [simp]: "merged_part (add_request k r st) = merged_part st"
  by (simp add: add_request_def Let_def)

lemma merged_part_clear_request [simp]: "merged_part (clear_request k st) = merged_part st"
  by (simp add: clear_request_def)

lemma merged_part_push_response: "SendPushResponse k r st = Inr st' \<Longrightarrow> merged_part st' = merged_part st"
  by (auto simp: SendPushResponse_def Response_def res_simps split: option.splits)

lemma merged_part_respond_all: "respond_all k rs st = Inr st' \<Longrightarrow> merged_part st' = merged_part st"
  by (induction rs arbitrary: st) (auto simp: res_simps dest!: merged_part_push_response)

lemma merged_part_write: "write_mem p b st = Inr st' \<Longrightarrow> merged_part st' = merged_part st"
  by (cases p) (auto split: option.splits)

lemma merged_part_copy: "copy_mem d s n st = Inr st' \<Longrightarrow> merged_part st' = merged_part st"
  by (auto simp: copy_mem_def res_simps dest: merged_part_write)

lemma merged_part_sum: "sum_mem env d s n dt st = Inr st' \<Longrightarrow> merged_part st' = merged_part st"
  by (auto simp: sum_mem_def res_simps dest: merged_part_write)

lemma merged_part_thread: "GetThreadID k n st = Inr (t, st') \<Longrightarrow> merged_part st' = merged_part st"
  by (auto simp: GetThreadID_def res_simps Let_def split: option.splits)

lemma merged_part_compressor: "make_compressor env k kvs st = Inr st' \<Longrightarrow> merged_part st' = merged_part st"
  by (auto simp: make_compressor_def set_compressor_def res_simps Let_def split: option.splits)

lemma merged_part_register:
  assumes "register_compressor env k req kvs st = Inr st'"
  shows "merged_part st' = merged_part st"
proof -
  obtain st1 where st1: "make_compressor env k kvs st = Inr st1"
    and r: "st' = add_request k req st1 \<or>
      (\<exists>rs st3. respond_all k rs (add_request k req st1) = Inr st3 \<and> st' = clear_request k st3)"
    using assms by (auto simp: register_compressor_def rbind_eq_Inr Let_def split: if_splits)
  have "merged_part st' = merged_part (add_request k req st1)"
    using r by (elim disjE exE conjE) (simp_all add: merged_part_respond_all)
  then show ?thesis using merged_part_compressor [OF st1] by simp
qed

text \<open>In the asynchronous mode.\<close>

lemma merged_part_init_push:
  assumes "\<not> sv_sync st" and "init_push env type k req recved len st = Inr st'"
  shows "merged_part st' = merged_part st"
  using assms by (auto simp: init_push_def res_simps Let_def split: if_splits
      dest!: merged_part_copy merged_part_respond_all)

lemma merged_part_sync: "merged_part st' = merged_part st \<Longrightarrow> sv_sync st' = sv_sync st"
  by (simp add: merged_part_def)

lemma merged_part_round_push:
  assumes "\<not> sv_sync st" and "round_push env type k req kvs recved len st = Inr st'"
  shows "merged_part st' = merged_part st"
proof -
  obtain t st1 st2 st3 where s: "GetThreadID k len st = Inr (t, st1)"
    "(if request_count k st1 = 0 then first_push env type k t req kvs recved len st1
      else other_push env type k t req kvs recved len st1) = Inr st2"
    "SendPushResponse k req (add_request k req st2) = Inr st3"
    "(if sv_sync st3 \<and> request_count k st3 = se_workers env
      then rbind (round_complete t type k len st3) (\<lambda>st4. Inr (clear_request k st4))
      else Inr (if sv_sync st3 then st3 else clear_request k st3)) = Inr st'"
    using assms(2) by (auto simp: round_push_def rbind_eq_Inr)
  have s1: "merged_part st1 = merged_part st" by (rule merged_part_thread [OF s(1)])
  then have n1: "\<not> sv_sync st1" using assms(1) merged_part_sync by metis
  then have s2: "merged_part st2 = merged_part st1"
    using s(2) by (auto simp: first_push_def other_push_def check_def split: if_splits dest: merged_part_sum)
  have s3: "merged_part st3 = merged_part st2" using merged_part_push_response [OF s(3)] by simp
  then have "\<not> sv_sync st3" using n1 s2 merged_part_sync by metis
  then show ?thesis using s(4) s1 s2 s3 by auto
qed

lemma async_pull_fails:
  assumes "\<not> sv_sync st" and "\<forall>k. ba_tensor (ub_merged (GetUpdateBuf k st)) = NullPtr"
  shows "handle_pull env k req st \<noteq> Inr st'"
  using assms by (simp add: handle_pull_def SendPullResponse_def check_def Let_def)

lemma async_step:
  assumes "server_step env e st = Inr st'" and "\<not> sv_sync st" and "sv_queues st = []"
    and "\<forall>k. ba_tensor (ub_merged (GetUpdateBuf k st)) = NullPtr"
  shows "merged_part st' = merged_part st"
proof (cases e)
  case (Request req kvs)
  then obtain type k where h: "(if requestType type = request_type_value kCompressedPushPull then register_compressor env k req kvs st
      else if km_push req then handle_push env type k req kvs st else handle_pull env k req st) = Inr st'"
    using assms(1) by (auto simp: DeepIncServerHandle_def res_simps)
  have p: "handle_push env type k req kvs st = Inr st' \<Longrightarrow> ?thesis"
    by (auto simp: handle_push_def res_simps Let_def split: if_splits
        dest: merged_part_init_push [OF assms(2)] merged_part_round_push [OF assms(2)])
  show ?thesis
    using h p async_pull_fails [OF assms(2,4)] merged_part_register by (auto split: if_splits)
next
  case (EngineTurn i)
  then show ?thesis using assms(1,3) by (auto simp: engine_turn_def res_simps)
qed

lemma async_run:
  assumes "server_run env es st = Inr st'" and "\<not> sv_sync st" and "sv_queues st = []"
    and "\<forall>k. ba_tensor (ub_merged (GetUpdateBuf k st)) = NullPtr"
  shows "merged_part st' = merged_part st"
  using assms
proof (induction es arbitrary: st)
  case (Cons e es)
  then obtain st1 where s: "server_step env e st = Inr st1" and r: "server_run env es st1 = Inr st'"
    by (auto simp: res_simps)
  have m: "merged_part st1 = merged_part st" by (rule async_step [OF s Cons.prems(2-4)])
  then have "\<not> sv_sync st1" "sv_queues st1 = []" "\<forall>k. ba_tensor (ub_merged (GetUpdateBuf k st1)) = NullPtr"
    using Cons.prems(2-4) by (auto simp: merged_part_def fun_eq_iff)
  then show ?case using Cons.IH [OF r] m by simp
qed simp

subsection \<open>Properties\<close>

text \<open>
  C14. In the asynchronous mode no pull is ever answered: the merged buffer a pull is answered
  from is made to point at data by the engine threads only, which this mode does not start. So
  whatever requests a server started with \<open>ENABLE_ASYNC\<close> has handled, the next pull
  stops it.
\<close>

theorem async_pulls_abort:
  assumes "start_server genv server_globals = Inr st0" and "\<not> sv_sync st0"
    and "server_run env es st0 = Inr st"
    and "\<not> km_push req" and "DepairDataHandleType (km_cmd req) = Inr type"
    and "requestType type \<noteq> request_type_value kCompressedPushPull"
  shows "\<exists>e. server_step env (Request req kvs) st = Inl e"
proof -
  note f = start_fields [OF assms(1)]
  have z: "\<forall>k. ba_tensor (ub_merged (GetUpdateBuf k st0)) = NullPtr"
    using f(4) by (simp add: GetUpdateBuf_def empty_update_def null_array_def)
  have "merged_part st = merged_part st0" by (rule async_run [OF assms(3,2) _ z]) (simp add: f(12) assms(2))
  then have "\<not> sv_sync st" "\<forall>k. ba_tensor (ub_merged (GetUpdateBuf k st)) = NullPtr"
    using assms(2) z by (auto simp: merged_part_def fun_eq_iff)
  note p = async_pull_fails [OF this]
  have "server_step env (Request req kvs) st \<noteq> Inr st'" for st'
    using p assms(4-6) by (auto simp: DeepIncServerHandle_def res_simps)
  then show ?thesis by (cases "server_step env (Request req kvs) st") auto
qed

definition demo_async :: server_state where
  "demo_async = server_globals\<lparr>sv_sync := False, sv_acc_load := replicate 4 0\<rparr>"

lemma demo_async: "start_server [''ENABLE_ASYNC'' \<mapsto> ''1''] server_globals = Inr demo_async"
  by (simp add: start_server_def init_global_env_def env_int_def demo_async_def server_globals_def Let_def
      atoi_def digits_value_def is_digit_def is_space_def i32_def)

theorem async_pulls_abort_witness:
  "\<exists>st e. server_run demo_senv [Request (demo_meta True 9 1) (demo_kvs 7 [1, 2, 3, 4])] demo_async = Inr st \<and>
     st \<noteq> demo_async \<and> server_step demo_senv (Request (demo_meta False 9 2) (demo_kvs 7 [])) st = Inl e"
proof -
  obtain st where s: "server_run demo_senv [Request (demo_meta True 9 1) (demo_kvs 7 [1, 2, 3, 4])] demo_async = Inr st"
    and n: "sv_update st \<noteq> Map.empty"
    by (simp add: DeepIncServerHandle_def demo_type demo_meta_def demo_kvs_def demo_senv_def DecodeKey_def
      demo_async_def server_globals_def log_checks_def handle_push_def init_push_def GetStore_def null_array_def
      GetUpdateBuf_def empty_update_def add_request_def set_update_def request_count_def Let_def)
  have "\<exists>e. server_step demo_senv (Request (demo_meta False 9 2) (demo_kvs 7 [])) st = Inl e"
    by (rule async_pulls_abort [OF demo_async _ s, where type = "\<lparr>requestType = 0, dht_dtype = 0\<rparr>"]) (simp_all add: demo_async_def demo_meta_def demo_type)
  moreover have "st \<noteq> demo_async" using n by (auto simp: demo_async_def server_globals_def)
  ultimately show ?thesis using s by blast
qed

end
